(* ===== verification/Go_Prelude.thy ===== *)
theory Go_Prelude
  imports Main "HOL-Library.Word"
begin

unbundle bit_operations_syntax

text \<open>
  Shared vocabulary of the development: how Go's machine integers, byte slices, errors and
  panics are written in HOL, and the list and arithmetic lemmas the components use.

  \<^item> Go's \<open>int\<close> and \<open>int64\<close> (64 bit on every platform the code supports) are \<open>int\<close>, with
    \<open>max_int\<close> written out where the source guards against overflow;
  \<^item> binary data is a \<open>byte list\<close>, text (Go's \<open>string\<close> or \<open>[]byte\<close>) is a \<open>string\<close>: a HOL
    \<open>char\<close> is eight bits, so a list of them is a sequence of bytes;
  \<^item> a function that returns a Go error is \<open>'e + 'a\<close> with \<open>Inl\<close> the error, and a function
    that may panic returns \<open>None\<close> for the panic.
\<close>

named_theorems go_arith \<open>facts on Go's integers\<close>
named_theorems go_step \<open>unfolding rules of state-changing operations\<close>

type_synonym byte = "8 word"

section \<open>Machine integers\<close>

definition max_int :: int where
  "max_int = 9223372036854775807"

abbreviation is_go_int :: "int \<Rightarrow> bool" where
  "is_go_int n \<equiv> - max_int - 1 \<le> n \<and> n \<le> max_int"

text \<open>\<open>(n + 63) &^ 63\<close>: round up to a multiple of 64.\<close>

definition align64 :: "int \<Rightarrow> int" where
  "align64 n = (n + 63) AND NOT 63"

lemma int_and_not_63: "(n::int) AND NOT 63 = n - n mod 64"
proof -
  have "NOT n AND (n AND 63) = 0"
    by (simp add: and.assoc [symmetric])
  then have "n - (n AND 63) = n AND NOT (n AND 63)"
    by (rule disjunctive_diff_eq_and_not)
  also have "\<dots> = n AND NOT 63"
    by (rule bit_eqI) (auto simp: bit_simps)
  finally have "n AND NOT 63 = n - (n AND 63)" by simp
  moreover have "n AND 63 = n mod 64"
    using take_bit_eq_mask [of 6 n] by (simp add: take_bit_eq_mod mask_eq_exp_minus_1)
  ultimately show ?thesis by simp
qed

lemma align64_eq: "align64 n = (n + 63) div 64 * 64"
  unfolding align64_def int_and_not_63 by (rule minus_mod_eq_div_mult)

lemma align64_bounds [go_arith]: "n \<le> align64 n" "align64 n \<le> n + 63"
  unfolding align64_eq by presburger+

lemma align64_nonneg [go_arith]: "0 \<le> n \<Longrightarrow> 0 \<le> align64 n"
  using align64_bounds(1) [of n] by linarith

lemma align64_dvd [go_arith, simp]: "64 dvd align64 n"
  by (simp add: align64_eq)

lemma align64_pos: "0 < n \<Longrightarrow> 0 < align64 n"
  using align64_bounds(1) [of n] by linarith

lemma align64_zero [simp]: "align64 0 = 0"
  by (simp add: align64_eq)

text \<open>The value of an \<open>int\<close> expression after wrap-around at 64 bits.\<close>

definition wrap_int :: "int \<Rightarrow> int" where
  "wrap_int n = (n + max_int + 1) mod 18446744073709551616 - max_int - 1"

lemma wrap_int_id [go_arith]: "is_go_int n \<Longrightarrow> wrap_int n = n"
  by (simp add: wrap_int_def max_int_def)

section \<open>Slices\<close>

text \<open>\<open>xs[a:b]\<close>; \<open>None\<close> is the panic of a slice out of range.\<close>

definition go_slice :: "'a list \<Rightarrow> nat \<Rightarrow> nat \<Rightarrow> 'a list option" where
  "go_slice xs a b = (if a \<le> b \<and> b \<le> length xs then Some (take (b - a) (drop a xs)) else None)"

lemma go_slice_Some [simp]: "a \<le> b \<Longrightarrow> b \<le> length xs \<Longrightarrow> go_slice xs a b = Some (take (b - a) (drop a xs))"
  by (simp add: go_slice_def)

lemma go_slice_SomeD: "go_slice xs a b = Some ys \<Longrightarrow> a \<le> b \<and> b \<le> length xs \<and> ys = take (b - a) (drop a xs) \<and> length ys = b - a"
  by (auto simp: go_slice_def split: if_splits)

text \<open>A run of a fallible function over a list, stopping at the first failure.\<close>

fun map_result :: "('a \<Rightarrow> 'e + 'b) \<Rightarrow> 'a list \<Rightarrow> 'e + 'b list" where
  "map_result f [] = Inr []"
| "map_result f (x # xs) =
     (case f x of Inl e \<Rightarrow> Inl e
      | Inr y \<Rightarrow> (case map_result f xs of Inl e \<Rightarrow> Inl e | Inr ys \<Rightarrow> Inr (y # ys)))"

lemma map_result_Inr: "(\<And>x. x \<in> set xs \<Longrightarrow> f x = Inr (g x)) \<Longrightarrow> map_result f xs = Inr (map g xs)"
  by (induction xs) auto

lemma option_ext: "(\<And>v. a = Some v \<longleftrightarrow> b = Some v) \<Longrightarrow> a = b"
  by (cases a; cases b) auto

end
