(* ===== verification/Token_Heap.thy ===== *)
theory Token_Heap
  imports Go_Prelude "HOL-Library.Multiset"
begin

text \<open>
  The binary heap of merge candidates in \<^verbatim>\<open>TokenizerWorkspace\<close>
  (\<^verbatim>\<open>src/internal/qwen3lm/tokenizer.go\<close>): \<open>push\<close> sifts a key up through a hole, \<open>pop\<close> removes
  the root and sifts the last key down. Keys are \<open>uint64\<close> values that are only compared, so
  natural numbers stand for them. The locale \<open>min_queue\<close> is what the merge loop relies on.
\<close>

section \<open>Model\<close>

text \<open>The loop of \<open>push\<close>: \<open>i\<close> is the hole, \<open>(i - 1) >> 1\<close> its parent.\<close>

function sift_up :: "nat list \<Rightarrow> nat \<Rightarrow> nat \<Rightarrow> nat list" where
  "sift_up h i key =
     (if 0 < i then
        let p = (i - 1) div 2 in
        if h ! p \<le> key then h[i := key] else sift_up (h[i := h ! p]) p key
      else h[i := key])"
  by pat_completeness auto
termination
  by (relation "measure (\<lambda>(h, i, key). i)") auto

definition heap_push :: "nat list \<Rightarrow> nat \<Rightarrow> nat list" where
  "heap_push h key = sift_up (h @ [key]) (length (h @ [key]) - 1) key"

text \<open>The loop of \<open>pop\<close> on the shortened heap: \<open>smallest\<close> is the smaller child of the hole.\<close>

function sift_down :: "nat list \<Rightarrow> nat \<Rightarrow> nat \<Rightarrow> nat list" where
  "sift_down h i lst =
     (let left = 2 * i + 1 in
      if length h \<le> left then h[i := lst]
      else let right = left + 1;
               smallest = (if right < length h \<and> h ! right < h ! left then right else left)
           in if lst \<le> h ! smallest then h[i := lst]
              else sift_down (h[i := h ! smallest]) smallest lst)"
  by pat_completeness auto
termination
  by (relation "measure (\<lambda>(h, i, lst). length h - i)") (auto simp: Let_def)

text \<open>\<open>pop\<close> of an empty heap reads out of range: a panic, \<open>None\<close>.\<close>

definition heap_pop :: "nat list \<Rightarrow> (nat \<times> nat list) option" where
  "heap_pop h =
     (if h = [] then None
      else let root = h ! 0; lst = h ! (length h - 1); h' = take (length h - 1) h
           in Some (root, if length h' \<noteq> 0 then sift_down h' 0 lst else h'))"

declare sift_up.simps [simp del] sift_down.simps [simp del]

section \<open>The contract of a priority queue\<close>

locale min_queue =
  fixes push :: "'h \<Rightarrow> 'k::linorder \<Rightarrow> 'h"
    and pop :: "'h \<Rightarrow> ('k \<times> 'h) option"
    and elems :: "'h \<Rightarrow> 'k multiset"
    and invar :: "'h \<Rightarrow> bool"
  assumes push_invar: "invar h \<Longrightarrow> invar (push h k)"
    and push_elems: "invar h \<Longrightarrow> elems (push h k) = add_mset k (elems h)"
    and pop_None: "invar h \<Longrightarrow> pop h = None \<longleftrightarrow> elems h = {#}"
    and pop_invar: "invar h \<Longrightarrow> pop h = Some (k, h') \<Longrightarrow> invar h'"
    and pop_elems: "invar h \<Longrightarrow> pop h = Some (k, h') \<Longrightarrow> elems h = add_mset k (elems h')"
    and pop_min: "invar h \<Longrightarrow> pop h = Some (k, h') \<Longrightarrow> x \<in># elems h \<Longrightarrow> k \<le> x"
begin

lemma foldl_push: "invar h \<Longrightarrow> invar (foldl push h ks) \<and> elems (foldl push h ks) = elems h + mset ks"
  by (induction ks arbitrary: h) (auto simp: push_invar push_elems)

text \<open>Popping until the queue is empty yields the keys in increasing order.\<close>

fun drain :: "nat \<Rightarrow> 'h \<Rightarrow> 'k list" where
  "drain 0 h = []"
| "drain (Suc n) h = (case pop h of None \<Rightarrow> [] | Some (k, h') \<Rightarrow> k # drain n h')"

lemma drain_sorted:
  "invar h \<Longrightarrow> size (elems h) \<le> n \<Longrightarrow> sorted (drain n h) \<and> mset (drain n h) = elems h"
proof (induction n arbitrary: h)
  case 0
  then show ?case by simp
next
  case (Suc n)
  show ?case
  proof (cases "pop h")
    case None
    with Suc.prems(1) have "elems h = {#}" by (simp add: pop_None)
    with None show ?thesis by simp
  next
    case (Some r)
    then obtain k h' where r: "pop h = Some (k, h')" by (cases r) auto
    note facts = pop_invar [OF Suc.prems(1) r] pop_elems [OF Suc.prems(1) r]
    have IH: "sorted (drain n h') \<and> mset (drain n h') = elems h'"
      using Suc.IH facts Suc.prems(2) by simp
    have "k \<le> x" if "x \<in> set (drain n h')" for x
    proof -
      from that IH have "x \<in># elems h'" by (metis set_mset_mset)
      with facts(2) show ?thesis using pop_min [OF Suc.prems(1) r] by simp
    qed
    with r IH facts(2) show ?thesis by simp
  qed
qed

end

section \<open>The binary heap keeps it\<close>

definition is_heap :: "nat list \<Rightarrow> bool" where
  "is_heap h \<longleftrightarrow> (\<forall>j. 0 < j \<and> j < length h \<longrightarrow> h ! ((j - 1) div 2) \<le> h ! j)"

lemma mset_move:
  assumes "i < length h" and "p < length h" and "i \<noteq> p"
  shows "mset (h[i := h ! p, p := key]) = mset (h[i := key])"
proof -
  have "h[i := h ! p, p := key] = (h[i := key])[i := (h[i := key]) ! p, p := (h[i := key]) ! i]"
    using assms by (simp add: list_update_swap)
  then show ?thesis using mset_swap [of p "h[i := key]" i] assms by simp
qed

lemma length_sift_up [simp]: "length (sift_up h i key) = length h"
  by (induction h i key rule: sift_up.induct) (subst sift_up.simps, auto simp: Let_def)

lemma mset_sift_up: "i < length h \<Longrightarrow> mset (sift_up h i key) = mset (h[i := key])"
proof (induction h i key rule: sift_up.induct)
  case (1 h i key)
  let ?p = "(i - 1) div 2"
  show ?case
  proof (cases "0 < i \<and> \<not> h ! ?p \<le> key")
    case True
    then have "mset (sift_up h i key) = mset (sift_up (h[i := h ! ?p]) ?p key)"
      by (subst sift_up.simps) (simp add: Let_def)
    also have "\<dots> = mset (h[i := h ! ?p, ?p := key])" using 1 True by simp
    also have "\<dots> = mset (h[i := key])" using True 1(2) by (intro mset_move) auto
    finally show ?thesis .
  next
    case False
    then show ?thesis by (subst sift_up.simps) (auto simp: Let_def)
  qed
qed

text \<open>Heap order everywhere but between the hole and its parent.\<close>

definition up_inv :: "nat list \<Rightarrow> nat \<Rightarrow> bool" where
  "up_inv g i \<longleftrightarrow> (\<forall>j. 0 < j \<and> j < length g \<and> j \<noteq> i \<longrightarrow> g ! ((j - 1) div 2) \<le> g ! j)
     \<and> (\<forall>j. 0 < j \<and> j < length g \<and> (j - 1) div 2 = i \<and> 0 < i \<longrightarrow> g ! ((i - 1) div 2) \<le> g ! j)"

lemma up_inv_step:
  assumes "up_inv (h[i := key]) i" and "i < length h" and "0 < i" and "key < h ! ((i - 1) div 2)"
  shows "up_inv (h[i := h ! ((i - 1) div 2), (i - 1) div 2 := key]) ((i - 1) div 2)"
proof -
  let ?p = "(i - 1) div 2" and ?g = "h[i := key]"
  let ?g' = "h[i := h ! ?p, ?p := key]"
  have p: "?p < i" using assms(3) by auto
  have ord: "?g ! ((j - 1) div 2) \<le> ?g ! j" if "0 < j" "j < length h" "j \<noteq> i" for j
    using assms(1) that by (auto simp: up_inv_def)
  have grand: "h ! ?p \<le> ?g ! j" if "0 < j" "j < length h" "(j - 1) div 2 = i" for j
  proof -
    have "?g ! ?p \<le> ?g ! j"
      using assms(1) [unfolded up_inv_def, THEN conjunct2, rule_format, of j] that assms(3)
      by (simp only: length_list_update simp_thms)
    then show ?thesis using p by simp
  qed
  have pp: "?g ! ((?p - 1) div 2) \<le> h ! ?p" if "0 < ?p"
    using ord [of ?p] that p assms(2) by (simp add: nth_list_update)
  have a: "?g' ! ((j - 1) div 2) \<le> ?g' ! j" if j: "0 < j" "j < length h" "j \<noteq> ?p" for j
  proof (cases "j = i")
    case True
    then show ?thesis using assms(2,4) p by (simp add: nth_list_update)
  next
    case False
    have par: "(j - 1) div 2 < j" using j(1) by auto
    show ?thesis
    proof (cases "(j - 1) div 2 = ?p")
      case True
      then have "key \<le> h ! j" using ord [OF j(1,2) False] assms(4) p False by (simp add: nth_list_update)
      with True False j p assms(2) show ?thesis by (simp add: nth_list_update)
    next
      case ne: False
      show ?thesis
      proof (cases "(j - 1) div 2 = i")
        case True
        with grand [OF j(1,2) True] False ne j p assms(2) show ?thesis by (simp add: nth_list_update)
      next
        case F: False
        with ord [OF j(1,2) False] ne False j p assms(2) show ?thesis by (simp add: nth_list_update)
      qed
    qed
  qed
  have b: "?g' ! ((?p - 1) div 2) \<le> ?g' ! j" if j: "0 < j" "j < length h" "(j - 1) div 2 = ?p" "0 < ?p" for j
  proof -
    have q: "(?p - 1) div 2 < ?p" using j(4) by auto
    have gp: "h ! ((?p - 1) div 2) \<le> h ! ?p" using pp [OF j(4)] q p assms(2) by (simp add: nth_list_update)
    have jp: "?p < j" using j(1,3) by auto
    show ?thesis
    proof (cases "j = i")
      case True
      with gp q p assms(2) show ?thesis by (simp add: nth_list_update)
    next
      case False
      have "h ! ?p \<le> h ! j" using ord [OF j(1,2) False] j(3) p False by (simp add: nth_list_update)
      with gp q p jp False assms(2) show ?thesis by (simp add: nth_list_update)
    qed
  qed
  show ?thesis unfolding up_inv_def length_list_update using a b by blast
qed

lemma sift_up_heap: "i < length h \<Longrightarrow> up_inv (h[i := key]) i \<Longrightarrow> is_heap (sift_up h i key)"
proof (induction h i key rule: sift_up.induct)
  case (1 h i key)
  let ?p = "(i - 1) div 2"
  show ?case
  proof (cases "0 < i \<and> \<not> h ! ?p \<le> key")
    case True
    then have "up_inv (h[i := h ! ?p, ?p := key]) ?p" using up_inv_step 1(2,3) by simp
    with 1 True have "is_heap (sift_up (h[i := h ! ?p]) ?p key)" by simp
    with True show ?thesis by (subst sift_up.simps) (simp add: Let_def)
  next
    case False
    have "is_heap (h[i := key])" unfolding is_heap_def
    proof (intro allI impI)
      fix j assume j: "0 < j \<and> j < length (h[i := key])"
      show "h[i := key] ! ((j - 1) div 2) \<le> h[i := key] ! j"
      proof (cases "j = i")
        case True
        with False j have "h ! ?p \<le> key" "?p < i" by auto
        with True 1(2) show ?thesis by (simp add: nth_list_update)
      next
        case ne: False
        with 1(3) j show ?thesis by (auto simp: up_inv_def)
      qed
    qed
    with False show ?thesis by (subst sift_up.simps) (auto simp: Let_def)
  qed
qed

lemma heap_push_correct:
  assumes "is_heap h"
  shows "is_heap (heap_push h k)" and "mset (heap_push h k) = add_mset k (mset h)"
proof -
  have "up_inv (h @ [k]) (length h)"
    unfolding up_inv_def
  proof (intro conjI allI impI; elim conjE)
    fix j assume j: "0 < j" "j < length (h @ [k])"
    show "(h @ [k]) ! ((j - 1) div 2) \<le> (h @ [k]) ! j" if "j \<noteq> length h"
    proof -
      have "j < length h" using j that by simp
      moreover have "(j - 1) div 2 < j" using j(1) by auto
      ultimately show ?thesis using assms j(1) by (simp add: is_heap_def nth_append)
    qed
    assume "(j - 1) div 2 = length h"
    moreover have "(j - 1) div 2 < j" using j(1) by auto
    ultimately show "(h @ [k]) ! ((length h - 1) div 2) \<le> (h @ [k]) ! j" using j by simp
  qed
  then show "is_heap (heap_push h k)" unfolding heap_push_def by (intro sift_up_heap) (auto simp: list_update_append)
  show "mset (heap_push h k) = add_mset k (mset h)"
    unfolding heap_push_def by (subst mset_sift_up) (auto simp: list_update_append)
qed

text \<open>Heap order everywhere but between the hole and its children.\<close>

definition down_inv :: "nat list \<Rightarrow> nat \<Rightarrow> bool" where
  "down_inv g i \<longleftrightarrow> (\<forall>j. 0 < j \<and> j < length g \<and> (j - 1) div 2 \<noteq> i \<longrightarrow> g ! ((j - 1) div 2) \<le> g ! j)
     \<and> (\<forall>j. 0 < j \<and> j < length g \<and> (j - 1) div 2 = i \<and> 0 < i \<longrightarrow> g ! ((i - 1) div 2) \<le> g ! j)"

definition smaller_child :: "nat list \<Rightarrow> nat \<Rightarrow> nat" where
  "smaller_child h i = (if 2 * i + 2 < length h \<and> h ! (2 * i + 2) < h ! (2 * i + 1) then 2 * i + 2 else 2 * i + 1)"

lemma sift_down_unfold:
  "sift_down h i lst =
     (if length h \<le> 2 * i + 1 \<or> lst \<le> h ! smaller_child h i then h[i := lst]
      else sift_down (h[i := h ! smaller_child h i]) (smaller_child h i) lst)"
  by (subst sift_down.simps) (simp add: Let_def smaller_child_def)

lemma smaller_child_facts:
  assumes "2 * i + 1 < length h"
  shows "smaller_child h i < length h" and "i < smaller_child h i" and "(smaller_child h i - 1) div 2 = i"
    and "\<And>j. j < length h \<Longrightarrow> (j - 1) div 2 = i \<Longrightarrow> 0 < j \<Longrightarrow> h ! smaller_child h i \<le> h ! j"
proof -
  show "smaller_child h i < length h" "i < smaller_child h i" "(smaller_child h i - 1) div 2 = i"
    using assms by (auto simp: smaller_child_def)
  fix j assume j: "j < length h" "(j - 1) div 2 = i" "0 < j"
  then have "j = 2 * i + 1 \<or> j = 2 * i + 2" by presburger
  with j(1) show "h ! smaller_child h i \<le> h ! j" by (auto simp: smaller_child_def)
qed

lemma sift_down_induct:
  assumes "\<And>h i. (2 * i + 1 < length h \<Longrightarrow> \<not> lst \<le> h ! smaller_child h i \<Longrightarrow>
      P (h[i := h ! smaller_child h i]) (smaller_child h i)) \<Longrightarrow> P h i"
  shows "P h i"
proof (induction "length h - i" arbitrary: h i rule: less_induct)
  case less
  show ?case
  proof (rule assms)
    assume a: "2 * i + 1 < length h"
    show "P (h[i := h ! smaller_child h i]) (smaller_child h i)"
      by (rule less) (use smaller_child_facts(1,2) [OF a] in auto)
  qed
qed

lemma mset_sift_down: "i < length h \<Longrightarrow> mset (sift_down h i lst) = mset (h[i := lst])"
proof (induction h i rule: sift_down_induct [where lst = lst])
  case (1 h i)
  let ?s = "smaller_child h i"
  show ?case
  proof (cases "length h \<le> 2 * i + 1 \<or> lst \<le> h ! ?s")
    case True
    then show ?thesis by (subst sift_down_unfold) simp
  next
    case False
    then have s: "?s < length h" "i < ?s" using smaller_child_facts(1,2) [of i h] by auto
    with False have "mset (sift_down h i lst) = mset (h[i := h ! ?s, ?s := lst])"
      using 1 by (subst sift_down_unfold) simp
    also have "\<dots> = mset (h[i := lst])" using s "1.prems" by (intro mset_move) auto
    finally show ?thesis .
  qed
qed

lemma down_inv_step:
  assumes inv: "down_inv (h[i := lst]) i" and i: "2 * i + 1 < length h" and lt: "h ! smaller_child h i < lst"
  shows "down_inv (h[i := h ! smaller_child h i, smaller_child h i := lst]) (smaller_child h i)"
proof -
  let ?s = "smaller_child h i" and ?g = "h[i := lst]"
  let ?g' = "h[i := h ! ?s, ?s := lst]"
  note c = smaller_child_facts [OF i]
  have ord: "?g ! ((j - 1) div 2) \<le> ?g ! j" if "0 < j" "j < length h" "(j - 1) div 2 \<noteq> i" for j
    using inv [unfolded down_inv_def, THEN conjunct1, rule_format, of j] that
    by (simp only: length_list_update simp_thms)
  have grand: "h ! ((i - 1) div 2) \<le> h ! ?s" if "0 < i"
  proof -
    have "?g ! ((i - 1) div 2) \<le> ?g ! ?s"
      using inv [unfolded down_inv_def, THEN conjunct2, rule_format, of ?s] that c(1,2,3)
      by (simp only: length_list_update simp_thms)
    moreover have "(i - 1) div 2 < i" using that by auto
    ultimately show ?thesis using c(2) by simp
  qed
  have a: "?g' ! ((j - 1) div 2) \<le> ?g' ! j" if j: "0 < j" "j < length h" "(j - 1) div 2 \<noteq> ?s" for j
  proof (cases "(j - 1) div 2 = i")
    case True
    then have "h ! ?s \<le> h ! j" using c(4) j by simp
    moreover have "j \<noteq> i" using True j(1) by auto
    ultimately show ?thesis using True c(1,2) lt i by (auto simp: nth_list_update)
  next
    case False
    have "j \<noteq> ?s" using False c(3) by auto
    show ?thesis
    proof (cases "j = i")
      case True
      then show ?thesis using grand j False c(1,2) by (auto simp: nth_list_update)
    next
      case ne: False
      with ord [OF j(1,2) False] \<open>j \<noteq> ?s\<close> False j(3) show ?thesis by (simp add: nth_list_update)
    qed
  qed
  have b: "?g' ! ((?s - 1) div 2) \<le> ?g' ! j" if j: "0 < j" "j < length h" "(j - 1) div 2 = ?s" for j
  proof -
    have sj: "?s < j" using j(1,3) by auto
    have "?g ! ?s \<le> ?g ! j" using ord [OF j(1,2)] j(3) c(2) by simp
    then have "h ! ?s \<le> h ! j" using c(2) sj by (simp add: nth_list_update)
    with sj c(1,2,3) i show ?thesis by (simp add: nth_list_update)
  qed
  show ?thesis unfolding down_inv_def length_list_update using a b by blast
qed

lemma sift_down_heap: "i < length h \<Longrightarrow> down_inv (h[i := lst]) i \<Longrightarrow> is_heap (sift_down h i lst)"
proof (induction h i rule: sift_down_induct [where lst = lst])
  case (1 h i)
  let ?s = "smaller_child h i"
  show ?case
  proof (cases "length h \<le> 2 * i + 1 \<or> lst \<le> h ! ?s")
    case True
    have "is_heap (h[i := lst])" unfolding is_heap_def
    proof (intro allI impI)
      fix j assume j: "0 < j \<and> j < length (h[i := lst])"
      show "h[i := lst] ! ((j - 1) div 2) \<le> h[i := lst] ! j"
      proof (cases "(j - 1) div 2 = i")
        case child: True
        then have "2 * i + 1 < length h" "j \<noteq> i" using j by auto
        moreover from this have "h ! ?s \<le> h ! j" using smaller_child_facts(4) child j by simp
        ultimately show ?thesis using True child j by (auto simp: nth_list_update)
      next
        case False
        with "1.prems"(2) j show ?thesis by (simp add: down_inv_def)
      qed
    qed
    with True show ?thesis by (subst sift_down_unfold) simp
  next
    case False
    then have s: "?s < length h" using smaller_child_facts(1) [of i h] by auto
    have "down_inv (h[i := h ! ?s, ?s := lst]) ?s" using down_inv_step "1.prems"(2) False by simp
    with 1 False s show ?thesis by (subst sift_down_unfold) simp
  qed
qed

lemma heap_root_min: "is_heap h \<Longrightarrow> j < length h \<Longrightarrow> h ! 0 \<le> h ! j"
proof (induction j rule: less_induct)
  case (less j)
  show ?case
  proof (cases "j = 0")
    case False
    then have "(j - 1) div 2 < j" by auto
    with less have "h ! 0 \<le> h ! ((j - 1) div 2)" by simp
    with less.prems False show ?thesis unfolding is_heap_def by (metis neq0_conv order_trans)
  qed simp
qed

lemma heap_pop_correct:
  assumes "is_heap h" and "heap_pop h = Some (k, h')"
  shows "is_heap h' \<and> mset h = add_mset k (mset h') \<and> k = h ! 0"
proof -
  let ?t = "take (length h - 1) h" and ?l = "h ! (length h - 1)"
  from assms(2) have ne: "h \<noteq> []" and k: "k = h ! 0" and h': "h' = (if ?t \<noteq> [] then sift_down ?t 0 ?l else ?t)"
    by (auto simp: heap_pop_def Let_def split: if_splits)
  have h: "h = ?t @ [?l]" using ne by (metis append_butlast_last_id butlast_conv_take last_conv_nth)
  show ?thesis
  proof (cases "?t = []")
    case True
    with h h' k show ?thesis by (metis add_mset_add_single append_Nil is_heap_def less_nat_zero_code
          list.size(3) mset.simps(1) mset_single_iff_right nth_Cons_0 mset.simps(2))
  next
    case False
    have "down_inv (?t[0 := ?l]) 0" unfolding down_inv_def
    proof (intro conjI allI impI; elim conjE)
      fix j assume j: "0 < j" "j < length (?t[0 := ?l])" "(j - 1) div 2 \<noteq> 0"
      moreover have "(j - 1) div 2 < j" using j(1) by auto
      ultimately show "?t[0 := ?l] ! ((j - 1) div 2) \<le> ?t[0 := ?l] ! j"
        using assms(1) by (simp add: is_heap_def)
    qed simp
    then have "is_heap h'" using h' False by (simp add: sift_down_heap)
    moreover have "mset h = add_mset k (mset h')"
    proof -
      have "mset h' = mset (?t[0 := ?l])" using h' False by (simp add: mset_sift_down)
      also have "\<dots> = add_mset ?l (mset ?t - {# ?t ! 0 #})" using False by (simp add: mset_update)
      finally have "add_mset (?t ! 0) (mset h') = add_mset ?l (add_mset (?t ! 0) (mset ?t - {# ?t ! 0 #}))"
        by simp
      also have "add_mset (?t ! 0) (mset ?t - {# ?t ! 0 #}) = mset ?t"
        using False by (metis insert_DiffM length_greater_0_conv nth_mem_mset)
      finally have "add_mset (?t ! 0) (mset h') = add_mset ?l (mset ?t)" .
      moreover have "?t ! 0 = k" using False k by simp
      ultimately show ?thesis using h by (metis mset_append add_mset_add_single mset.simps)
    qed
    ultimately show ?thesis using k by simp
  qed
qed

interpretation token_heap: min_queue heap_push heap_pop mset is_heap
proof unfold_locales
  fix h h' :: "nat list" and k x
  assume h: "is_heap h"
  show "is_heap (heap_push h k)" "mset (heap_push h k) = add_mset k (mset h)"
    using heap_push_correct [OF h] by auto
  show "heap_pop h = None \<longleftrightarrow> mset h = {#}" by (simp add: heap_pop_def Let_def)
  assume p: "heap_pop h = Some (k, h')"
  show "is_heap h'" "mset h = add_mset k (mset h')" using heap_pop_correct [OF h p] by auto
  assume "x \<in># mset h"
  then obtain j where "j < length h" "x = h ! j" by (auto simp: in_set_conv_nth)
  with heap_root_min [OF h] heap_pop_correct [OF h p] show "k \<le> x" by simp
qed

text \<open>
  Pushing any keys and popping until the heap is empty gives the keys in increasing order.
\<close>

theorem heap_sorts: "token_heap.drain (length ks) (foldl heap_push [] ks) = sort ks"
proof -
  let ?h = "foldl heap_push [] ks"
  have h: "is_heap ?h" "mset ?h = mset ks" using token_heap.foldl_push [of "[]" ks] by (simp_all add: is_heap_def)
  then have "size (mset ?h) \<le> length ks" by simp
  with token_heap.drain_sorted [OF h(1), of "length ks"] h(2) show ?thesis by (metis properties_for_sort)
qed

end
