(* ===== verification/Merge_Table.thy ===== *)
theory Merge_Table
  imports Go_Prelude
begin

unbundle bit_operations_syntax

text \<open>
  The open-addressing hash table of \<^verbatim>\<open>mergeTable\<close> (\<^verbatim>\<open>src/internal/qwen3lm/tokenizer.go\<close>) that
  maps a pair of token ids to its merge. Slots hold \<open>key + 1\<close>, zero marks an empty slot, and a
  probe walks the slots from the hash on. The probing loops of the source have no bound of
  their own: in the model \<open>fuel\<close> counts the slots visited and \<open>None\<close> is a loop that does not
  end. The locale \<open>insert_map\<close> states what the tokenizer relies on, and the interpretation
  shows that tables that keep a free slot provide it.
\<close>

section \<open>Model\<close>

record qwenMerge =
  rank :: nat
  token :: int

record mergeTable =
  keys :: "64 word list"
  vals :: "qwenMerge list"
  shift :: nat

text \<open>The smallest \<open>bits\<close>, from 1 on, with \<open>1 << bits\<close> at least \<open>2 * n\<close>.\<close>

function table_bits :: "nat \<Rightarrow> nat \<Rightarrow> nat" where
  "table_bits n bits = (if 2 ^ bits < 2 * n then table_bits n (bits + 1) else bits)"
  by pat_completeness auto
termination
  by (relation "measure (\<lambda>(n, bits). 2 * n - 2 ^ bits)") (auto simp: diff_less_mono2)

declare table_bits.simps [simp del]

definition no_merge :: qwenMerge where
  "no_merge = \<lparr>rank = 0, token = 0\<rparr>"

definition newMergeTable :: "nat \<Rightarrow> mergeTable" where
  "newMergeTable n =
     (let bits = table_bits n 1
      in \<lparr>keys = replicate (2 ^ bits) 0, vals = replicate (2 ^ bits) no_merge, shift = 64 - bits\<rparr>)"

definition slot :: "mergeTable \<Rightarrow> 64 word \<Rightarrow> nat" where
  "slot m key = unat (drop_bit (shift m) (key * 0x9e3779b97f4a7c15))"

fun probe_insert :: "nat \<Rightarrow> mergeTable \<Rightarrow> 64 word \<Rightarrow> qwenMerge \<Rightarrow> nat \<Rightarrow> (mergeTable \<times> bool) option" where
  "probe_insert 0 m key v i = None"
| "probe_insert (Suc fuel) m key v i =
     (let mask = length (keys m) - 1 in
      if keys m ! i = 0 then Some (m\<lparr>keys := (keys m)[i := key + 1], vals := (vals m)[i := v]\<rparr>, True)
      else if keys m ! i = key + 1 then Some (m, False)
      else probe_insert fuel m key v ((i + 1) AND mask))"

definition merge_insert :: "mergeTable \<Rightarrow> 64 word \<Rightarrow> qwenMerge \<Rightarrow> (mergeTable \<times> bool) option" where
  "merge_insert m key v = probe_insert (length (keys m)) m key v (slot m key)"

fun probe_get :: "nat \<Rightarrow> mergeTable \<Rightarrow> 64 word \<Rightarrow> nat \<Rightarrow> (qwenMerge \<times> bool) option" where
  "probe_get 0 m key i = None"
| "probe_get (Suc fuel) m key i =
     (let mask = length (keys m) - 1 in
      if keys m ! i = 0 then Some (no_merge, False)
      else if keys m ! i = key + 1 then Some (vals m ! i, True)
      else probe_get fuel m key ((i + 1) AND mask))"

definition merge_get :: "mergeTable \<Rightarrow> 64 word \<Rightarrow> (qwenMerge \<times> bool) option" where
  "merge_get m key = probe_get (length (keys m)) m key (slot m key)"

section \<open>The contract of an insert-only map\<close>

locale insert_map =
  fixes get :: "'t \<Rightarrow> 'k \<Rightarrow> ('v \<times> bool) option"
    and ins :: "'t \<Rightarrow> 'k \<Rightarrow> 'v \<Rightarrow> ('t \<times> bool) option"
    and absmap :: "'t \<Rightarrow> 'k \<Rightarrow> 'v option"
    and room :: "'t \<Rightarrow> nat"
    and invar :: "'t \<Rightarrow> bool"
    and okkey :: "'k \<Rightarrow> bool"
    and zero :: 'v
  assumes get_abs: "invar t \<Longrightarrow> okkey k \<Longrightarrow>
      get t k = Some (case absmap t k of None \<Rightarrow> (zero, False) | Some v \<Rightarrow> (v, True))"
    and ins_dup: "invar t \<Longrightarrow> okkey k \<Longrightarrow> absmap t k \<noteq> None \<Longrightarrow> ins t k v = Some (t, False)"
    and ins_new: "invar t \<Longrightarrow> okkey k \<Longrightarrow> absmap t k = None \<Longrightarrow> 1 < room t \<Longrightarrow>
      \<exists>t'. ins t k v = Some (t', True) \<and> invar t' \<and> absmap t' = (absmap t)(k \<mapsto> v) \<and> room t = Suc (room t')"
begin

text \<open>Inserting a list of distinct new keys, as the tokenizer's loader does, never gets stuck.\<close>

fun ins_all :: "'t \<Rightarrow> ('k \<times> 'v) list \<Rightarrow> 't option" where
  "ins_all t [] = Some t"
| "ins_all t ((k, v) # kvs) =
     (case ins t k v of Some (t', True) \<Rightarrow> ins_all t' kvs | _ \<Rightarrow> None)"

lemma ins_all_map:
  assumes "invar t" and "\<forall>(k, v) \<in> set kvs. okkey k \<and> absmap t k = None" and "distinct (map fst kvs)"
    and "length kvs < room t"
  shows "\<exists>t'. ins_all t kvs = Some t' \<and> invar t' \<and> absmap t' = (absmap t)(map fst kvs [\<mapsto>] map snd kvs)
    \<and> room t = room t' + length kvs"
  using assms
proof (induction kvs arbitrary: t)
  case (Cons kv kvs)
  obtain k v where kv: "kv = (k, v)" by (cases kv)
  with Cons.prems obtain t' where t': "ins t k v = Some (t', True)" "invar t'"
      "absmap t' = (absmap t)(k \<mapsto> v)" "room t = Suc (room t')"
    using ins_new [of t k v] by fastforce
  have "\<forall>(k', v') \<in> set kvs. okkey k' \<and> absmap t' k' = None"
    using Cons.prems(2,3) t'(3) kv by (force simp: image_iff)
  with Cons.IH [of t'] t'(2,4) Cons.prems(3,4) obtain u where u: "ins_all t' kvs = Some u" "invar u"
      "absmap u = (absmap t')(map fst kvs [\<mapsto>] map snd kvs)" "room t' = room u + length kvs"
    by auto
  have "absmap u = (absmap t)(map fst (kv # kvs) [\<mapsto>] map snd (kv # kvs))"
    by (simp only: u(3) t'(3) kv list.map fst_conv snd_conv map_upds_Cons)
  with u t'(1,4) kv show ?case by simp
qed simp

end

section \<open>Linear probing keeps it\<close>

lemma and_mask_nat: "(n::nat) AND (2 ^ b - 1) = n mod 2 ^ b"
  by (metis mask_eq_exp_minus_1 take_bit_eq_mask take_bit_eq_mod)

lemma table_bits_bounds: "1 \<le> b \<Longrightarrow> 2 * n \<le> 2 ^ table_bits n b \<and> 1 \<le> table_bits n b"
  by (induction n b rule: table_bits.induct) (subst (1 2) table_bits.simps, auto)

abbreviation tsize :: "mergeTable \<Rightarrow> nat" where
  "tsize m \<equiv> length (keys m)"

text \<open>The \<open>d\<close>-th slot of the probe sequence of a key.\<close>

definition probe_at :: "mergeTable \<Rightarrow> 64 word \<Rightarrow> nat \<Rightarrow> nat" where
  "probe_at m key d = (slot m key + d) mod tsize m"

definition table_shape :: "mergeTable \<Rightarrow> bool" where
  "table_shape m \<longleftrightarrow> (\<exists>b. 1 \<le> b \<and> b \<le> 63 \<and> tsize m = 2 ^ b \<and> shift m = 64 - b \<and> length (vals m) = 2 ^ b)"

definition table_ok :: "mergeTable \<Rightarrow> bool" where
  "table_ok m \<longleftrightarrow> table_shape m
     \<and> (\<forall>i j. i < tsize m \<longrightarrow> j < tsize m \<longrightarrow> keys m ! i \<noteq> 0 \<longrightarrow> keys m ! i = keys m ! j \<longrightarrow> i = j)
     \<and> (\<forall>i < tsize m. keys m ! i \<noteq> 0 \<longrightarrow>
          (\<exists>d < tsize m. probe_at m (keys m ! i - 1) d = i
             \<and> (\<forall>e < d. keys m ! probe_at m (keys m ! i - 1) e \<noteq> 0)))
     \<and> (\<exists>i < tsize m. keys m ! i = 0)"

definition table_map :: "mergeTable \<Rightarrow> 64 word \<Rightarrow> qwenMerge option" where
  "table_map m key =
     (if key + 1 = 0 then None
      else map_option (\<lambda>i. vals m ! i) (find (\<lambda>i. keys m ! i = key + 1) [0..<tsize m]))"

definition table_room :: "mergeTable \<Rightarrow> nat" where
  "table_room m = length (filter (\<lambda>k. k = 0) (keys m))"

lemma slot_less: "table_shape m \<Longrightarrow> slot m key < tsize m"
proof -
  assume "table_shape m"
  then obtain b where b: "1 \<le> b" "b \<le> 63" "tsize m = 2 ^ b" "shift m = 64 - b"
    by (auto simp: table_shape_def)
  let ?w = "key * 0x9e3779b97f4a7c15"
  have "unat ?w < 2 ^ 64" using unsigned_less [of ?w] by simp
  also have "(2::nat) ^ 64 = 2 ^ b * 2 ^ (64 - b)" using b by (simp flip: power_add)
  finally have "unat ?w div 2 ^ (64 - b) < 2 ^ b" by (simp add: less_mult_imp_div_less)
  then show ?thesis unfolding slot_def b(3,4) unat_drop_bit_eq by (simp only: drop_bit_eq_div)
qed

lemma probe_at_less: "table_shape m \<Longrightarrow> probe_at m key d < tsize m"
  by (auto simp: probe_at_def table_shape_def)

lemma probe_at_0: "table_shape m \<Longrightarrow> probe_at m key 0 = slot m key"
  by (simp add: probe_at_def slot_less)

lemma probe_at_Suc: "table_shape m \<Longrightarrow> (probe_at m key d + 1) AND (tsize m - 1) = probe_at m key (Suc d)"
  using and_mask_nat by (auto simp: table_shape_def probe_at_def mod_Suc_eq)

text \<open>Every slot is on every probe sequence, so a free slot stops every probe.\<close>

lemma probe_at_surj:
  assumes "table_shape m" and "i < tsize m"
  shows "\<exists>d < tsize m. probe_at m key d = i"
proof -
  let ?s = "slot m key" and ?n = "tsize m"
  have s: "?s < ?n" using assms(1) by (rule slot_less)
  show ?thesis
  proof (cases "?s \<le> i")
    case True
    with assms(2) show ?thesis by (intro exI [of _ "i - ?s"]) (auto simp: probe_at_def)
  next
    case False
    with assms(2) s show ?thesis by (intro exI [of _ "?n - ?s + i"]) (auto simp: probe_at_def)
  qed
qed

definition stops :: "mergeTable \<Rightarrow> 64 word \<Rightarrow> nat \<Rightarrow> bool" where
  "stops m key d \<longleftrightarrow> keys m ! probe_at m key d = 0 \<or> keys m ! probe_at m key d = key + 1"

lemma probe_stop:
  assumes "table_shape m" and "\<exists>i < tsize m. keys m ! i = 0"
  obtains d where "d < tsize m" "stops m key d" "\<forall>e < d. \<not> stops m key e"
proof -
  from assms obtain d where d: "d < tsize m" "stops m key d"
    using probe_at_surj [OF assms(1)] by (metis stops_def)
  let ?d = "LEAST e. stops m key e"
  have "stops m key ?d" using d(2) by (rule LeastI)
  moreover have "\<forall>e < ?d. \<not> stops m key e" using not_less_Least by blast
  moreover have "?d < tsize m" using d Least_le [of "stops m key" d] by linarith
  ultimately show thesis using that by blast
qed

lemma probe_get_walk:
  assumes "table_shape m" and "\<forall>e < d. \<not> stops m key e" and "stops m key d" and "c \<le> d" and "d - c < fuel"
  shows "probe_get fuel m key (probe_at m key c) =
    Some (if keys m ! probe_at m key d = 0 then (no_merge, False) else (vals m ! probe_at m key d, True))"
  using assms(4,5)
proof (induction fuel arbitrary: c)
  case (Suc fuel)
  show ?case
  proof (cases "c = d")
    case True
    with assms(3) show ?thesis by (auto simp: stops_def Let_def)
  next
    case False
    with Suc.prems(1) assms(2) have "\<not> stops m key c" by simp
    then have "probe_get (Suc fuel) m key (probe_at m key c) = probe_get fuel m key (probe_at m key (Suc c))"
      using probe_at_Suc [OF assms(1)] by (simp add: stops_def Let_def)
    with Suc False show ?thesis by simp
  qed
qed simp

lemma probe_insert_walk:
  assumes "table_shape m" and "\<forall>e < d. \<not> stops m key e" and "stops m key d" and "c \<le> d" and "d - c < fuel"
  shows "probe_insert fuel m key v (probe_at m key c) =
    Some (if keys m ! probe_at m key d = 0
          then (m\<lparr>keys := (keys m)[probe_at m key d := key + 1], vals := (vals m)[probe_at m key d := v]\<rparr>, True)
          else (m, False))"
  using assms(4,5)
proof (induction fuel arbitrary: c)
  case (Suc fuel)
  show ?case
  proof (cases "c = d")
    case True
    with assms(3) show ?thesis by (auto simp: stops_def Let_def)
  next
    case False
    with Suc.prems(1) assms(2) have "\<not> stops m key c" by simp
    then have "probe_insert (Suc fuel) m key v (probe_at m key c) = probe_insert fuel m key v (probe_at m key (Suc c))"
      using probe_at_Suc [OF assms(1)] by (simp add: stops_def Let_def)
    with Suc False show ?thesis by simp
  qed
qed simp

abbreviation okkey :: "64 word \<Rightarrow> bool" where
  "okkey key \<equiv> key + 1 \<noteq> 0"

lemma table_map_Some:
  assumes "table_ok m" and "okkey key" and "i < tsize m" and "keys m ! i = key + 1"
  shows "table_map m key = Some (vals m ! i)"
proof -
  have "find (\<lambda>i. keys m ! i = key + 1) [0..<tsize m] \<noteq> None"
    using assms(3,4) by (auto simp: find_None_iff)
  then obtain j where j: "find (\<lambda>i. keys m ! i = key + 1) [0..<tsize m] = Some j" by auto
  then have "j < tsize m" "keys m ! j = key + 1" by (auto simp: find_Some_iff)
  with assms have "j = i" unfolding table_ok_def by metis
  with j assms(2) show ?thesis by (simp add: table_map_def)
qed

lemma table_map_None: "okkey key \<Longrightarrow> table_map m key = None \<longleftrightarrow> (\<forall>i < tsize m. keys m ! i \<noteq> key + 1)"
  by (auto simp: table_map_def find_None_iff)

text \<open>A probe that stops at a free slot shows that the key is not in the table.\<close>

lemma stop_free_absent:
  assumes "table_ok m" and "okkey key" and "\<forall>e < d. \<not> stops m key e" and "keys m ! probe_at m key d = 0"
  shows "table_map m key = None"
  unfolding table_map_None [OF assms(2)]
proof (intro allI impI notI)
  fix i assume i: "i < tsize m" "keys m ! i = key + 1"
  with assms(1,2) obtain c where c: "probe_at m key c = i" "\<forall>e < c. keys m ! probe_at m key e \<noteq> 0"
    unfolding table_ok_def by (metis add_diff_cancel)
  show False
  proof (cases "d < c")
    case True
    with c(2) assms(4) show ?thesis by blast
  next
    case False
    with c(1) i(2) assms(2,3,4) show ?thesis by (metis linorder_neqE_nat stops_def)
  qed
qed

lemma merge_get_map:
  assumes "table_ok m" and "okkey key"
  shows "merge_get m key = Some (case table_map m key of None \<Rightarrow> (no_merge, False) | Some v \<Rightarrow> (v, True))"
proof -
  have sh: "table_shape m" "\<exists>i < tsize m. keys m ! i = 0" using assms(1) by (auto simp: table_ok_def)
  obtain d where d: "d < tsize m" "stops m key d" "\<forall>e < d. \<not> stops m key e"
    using probe_stop [OF sh] by blast
  have g: "merge_get m key = Some (if keys m ! probe_at m key d = 0 then (no_merge, False)
      else (vals m ! probe_at m key d, True))"
    using probe_get_walk [OF sh(1) d(3,2), of 0 "tsize m"] d(1) probe_at_0 [OF sh(1)] by (simp add: merge_get_def)
  show ?thesis
  proof (cases "keys m ! probe_at m key d = 0")
    case True
    with g stop_free_absent [OF assms d(3)] show ?thesis by simp
  next
    case False
    with d(2) have "keys m ! probe_at m key d = key + 1" by (simp add: stops_def)
    with g False table_map_Some [OF assms probe_at_less [OF sh(1)]] show ?thesis by simp
  qed
qed

lemma merge_insert_dup:
  assumes "table_ok m" and "okkey key" and "table_map m key \<noteq> None"
  shows "merge_insert m key v = Some (m, False)"
proof -
  have sh: "table_shape m" "\<exists>i < tsize m. keys m ! i = 0" using assms(1) by (auto simp: table_ok_def)
  obtain d where d: "d < tsize m" "stops m key d" "\<forall>e < d. \<not> stops m key e"
    using probe_stop [OF sh] by blast
  then have "keys m ! probe_at m key d \<noteq> 0" using stop_free_absent [OF assms(1,2) d(3)] assms(3) by blast
  then show ?thesis
    using probe_insert_walk [OF sh(1) d(3,2), of 0 "tsize m" v] d(1) probe_at_0 [OF sh(1)]
    by (simp add: merge_insert_def)
qed

lemma table_room_pos: "1 < table_room m \<Longrightarrow> p < tsize m \<Longrightarrow> \<exists>i < tsize m. i \<noteq> p \<and> keys m ! i = 0"
proof (rule ccontr)
  assume r: "1 < table_room m" and p: "p < tsize m" and "\<not> (\<exists>i < tsize m. i \<noteq> p \<and> keys m ! i = 0)"
  then have sub: "{i. i < tsize m \<and> keys m ! i = 0} \<subseteq> {p}" by auto
  then have "card {i. i < tsize m \<and> keys m ! i = 0} \<le> card {p}" by (intro card_mono) auto
  with r show False by (simp add: table_room_def length_filter_conv_card)
qed

lemma merge_insert_new:
  assumes ok: "table_ok m" and key: "okkey key" and absent: "table_map m key = None" and room: "1 < table_room m"
  shows "\<exists>m'. merge_insert m key v = Some (m', True) \<and> table_ok m'
    \<and> table_map m' = (table_map m)(key \<mapsto> v) \<and> table_room m = Suc (table_room m')"
proof -
  have sh: "table_shape m" "\<exists>i < tsize m. keys m ! i = 0" using ok by (auto simp: table_ok_def)
  obtain d where d: "d < tsize m" "stops m key d" "\<forall>e < d. \<not> stops m key e"
    using probe_stop [OF sh] by blast
  let ?p = "probe_at m key d"
  let ?m = "m\<lparr>keys := (keys m)[?p := key + 1], vals := (vals m)[?p := v]\<rparr>"
  have p: "?p < tsize m" using sh(1) by (rule probe_at_less)
  have free: "keys m ! ?p = 0" using d(2) absent p by (auto simp: stops_def table_map_None [OF key])
  have same: "slot ?m = slot m" "probe_at ?m = probe_at m" "tsize ?m = tsize m"
    by (auto simp: slot_def probe_at_def fun_eq_iff)
  have nz: "keys ?m ! i \<noteq> 0 \<longleftrightarrow> i = ?p \<or> keys m ! i \<noteq> 0" if "i < tsize m" for i
    using that p key by (auto simp: nth_list_update)
  have ins: "merge_insert m key v = Some (?m, True)"
    using probe_insert_walk [OF sh(1) d(3,2), of 0 "tsize m" v] d(1) free probe_at_0 [OF sh(1)]
    by (simp add: merge_insert_def)
  have "table_ok ?m" unfolding table_ok_def
  proof (intro conjI allI impI)
    show "table_shape ?m" using sh(1) by (simp add: table_shape_def)
    fix i j assume ij: "i < tsize ?m" "j < tsize ?m" "keys ?m ! i \<noteq> 0" "keys ?m ! i = keys ?m ! j"
    show "i = j"
    proof (cases "i = ?p \<or> j = ?p")
      case True
      with ij absent p show ?thesis by (auto simp: nth_list_update table_map_None [OF key] split: if_splits)
    next
      case False
      with ij ok show ?thesis unfolding table_ok_def by (auto simp: nth_list_update)
    qed
  next
    fix i assume i: "i < tsize ?m" "keys ?m ! i \<noteq> 0"
    show "\<exists>c < tsize ?m. probe_at ?m (keys ?m ! i - 1) c = i \<and> (\<forall>e < c. keys ?m ! probe_at ?m (keys ?m ! i - 1) e \<noteq> 0)"
    proof (cases "i = ?p")
      case True
      have "\<forall>e < d. keys ?m ! probe_at m key e \<noteq> 0"
        using d(3) nz probe_at_less [OF sh(1)] by (auto simp: stops_def)
      with True p d(1) show ?thesis by (auto simp: same nth_list_update intro!: exI [of _ d])
    next
      case False
      with i have old: "keys ?m ! i = keys m ! i" "keys m ! i \<noteq> 0" "i < tsize m" by auto
      then obtain c where c: "c < tsize m" "probe_at m (keys m ! i - 1) c = i"
          "\<forall>e < c. keys m ! probe_at m (keys m ! i - 1) e \<noteq> 0"
        using ok unfolding table_ok_def by blast
      then have "\<forall>e < c. keys ?m ! probe_at m (keys m ! i - 1) e \<noteq> 0"
        using nz probe_at_less [OF sh(1)] by auto
      with c show ?thesis unfolding same old(1) by blast
    qed
  next
    show "\<exists>i < tsize ?m. keys ?m ! i = 0" using table_room_pos [OF room p] by (auto simp: nth_list_update)
  qed
  note ok' = this
  have "table_map ?m k = ((table_map m)(key \<mapsto> v)) k" for k
  proof (cases "k = key")
    case True
    have lv: "length (vals m) = tsize m" using sh(1) by (auto simp: table_shape_def)
    show ?thesis using table_map_Some [OF ok' key, of ?p] p lv True by simp
  next
    case False
    then have ne: "k + 1 \<noteq> key + 1" by simp
    show ?thesis
    proof (cases "okkey k")
      case k: True
      show ?thesis
      proof (cases "table_map m k")
        case None
        then have "table_map ?m k = None"
          using ne p by (auto simp: table_map_None [OF k] nth_list_update)
        with None False show ?thesis by simp
      next
        case (Some u)
        then obtain i where i: "i < tsize m" "keys m ! i = k + 1" using table_map_None [OF k, of m] by auto
        then have "i \<noteq> ?p" using free k by auto
        then have "table_map ?m k = Some (vals m ! i)"
          using table_map_Some [OF ok' k, of i] i by simp
        with table_map_Some [OF ok k i] False show ?thesis by simp
      qed
    qed (use False in \<open>simp add: table_map_def\<close>)
  qed
  moreover have "table_room m = Suc (table_room ?m)"
  proof -
    have e1: "keys m = take ?p (keys m) @ 0 # drop (Suc ?p) (keys m)"
      using p free by (metis id_take_nth_drop)
    have e2: "keys ?m = take ?p (keys m) @ (key + 1) # drop (Suc ?p) (keys m)"
      using p by (simp add: upd_conv_take_nth_drop)
    show ?thesis unfolding table_room_def
      using arg_cong [OF e1, of "\<lambda>ks. length (filter (\<lambda>k. k = 0) ks)"]
        arg_cong [OF e2, of "\<lambda>ks. length (filter (\<lambda>k. k = 0) ks)"] key by simp
  qed
  ultimately show ?thesis using ins ok' by (metis ext)
qed

interpretation merge_table: insert_map merge_get merge_insert table_map table_room table_ok okkey no_merge
  by unfold_locales (simp_all add: merge_get_map merge_insert_dup merge_insert_new)

lemma table_bits_upper: "table_bits n b = b \<or> 2 ^ table_bits n b < 4 * n"
proof (induction n b rule: table_bits.induct)
  case (1 n b)
  then show ?case by (subst (1 2) table_bits.simps) auto
qed

lemma newMergeTable_ok:
  assumes "n < 2 ^ 32"
  shows "table_ok (newMergeTable n)" and "table_map (newMergeTable n) = Map.empty"
    and "n < table_room (newMergeTable n)"
proof -
  let ?b = "table_bits n 1" and ?m = "newMergeTable n"
  have low: "2 * n \<le> 2 ^ ?b" "1 \<le> ?b" using table_bits_bounds [of 1 n] by auto
  have "?b \<le> 63"
  proof (rule ccontr)
    assume "\<not> ?b \<le> 63"
    then have "(2::nat) ^ 64 \<le> 2 ^ ?b" by (intro power_increasing) auto
    with \<open>\<not> ?b \<le> 63\<close> table_bits_upper [of n 1] assms show False by auto
  qed
  with low show "table_ok ?m"
    by (auto simp: table_ok_def table_shape_def newMergeTable_def Let_def intro!: exI [of _ ?b])
  show "table_map ?m = Map.empty"
  proof
    fix key show "table_map ?m key = None"
      by (auto simp: newMergeTable_def Let_def table_map_def find_None_iff)
  qed
  have "(0::nat) < 2 ^ ?b" by simp
  with low(1) have "n < 2 ^ ?b" by linarith
  then show "n < table_room ?m" by (simp add: table_room_def newMergeTable_def Let_def)
qed

lemma map_upds_map_of: "distinct (map fst kvs) \<Longrightarrow> m(map fst kvs [\<mapsto>] map snd kvs) = m ++ map_of kvs"
proof (induction kvs arbitrary: m)
  case (Cons kv kvs)
  obtain k v where kv: "kv = (k, v)" by (cases kv)
  have "k \<notin> dom (map_of kvs)" using Cons.prems kv by (simp add: dom_map_of_conv_image_fst)
  then show ?case using Cons kv by (auto simp: map_add_def fun_eq_iff split: option.splits)
qed simp

text \<open>
  A table made for \<open>n\<close> merges takes \<open>n\<close> insertions of distinct pairs, each ending and
  reporting a new key, and afterwards every lookup ends and gives the merge stored for its pair,
  or none.
\<close>

theorem merge_table_get_insert:
  assumes "distinct (map fst kvs)" and "\<forall>(k, v) \<in> set kvs. k \<noteq> -1" and "length kvs < 2 ^ 32"
  shows "\<exists>t. merge_table.ins_all (newMergeTable (length kvs)) kvs = Some t
    \<and> (\<forall>k. k \<noteq> -1 \<longrightarrow> merge_get t k = Some (case map_of kvs k of None \<Rightarrow> (no_merge, False) | Some v \<Rightarrow> (v, True)))"
proof -
  let ?t = "newMergeTable (length kvs)"
  have ok: "okkey k \<longleftrightarrow> k \<noteq> -1" for k by (metis add.commute eq_neg_iff_add_eq_0)
  have "\<forall>(k, v) \<in> set kvs. okkey k \<and> table_map ?t k = None"
    using assms(2) newMergeTable_ok(2) [OF assms(3)] ok by auto
  then obtain t where t: "merge_table.ins_all ?t kvs = Some t" "table_ok t" "table_map t = Map.empty(map fst kvs [\<mapsto>] map snd kvs)"
    using merge_table.ins_all_map [OF newMergeTable_ok(1) [OF assms(3)] _ assms(1) newMergeTable_ok(3) [OF assms(3)]]
      newMergeTable_ok(2) [OF assms(3)] by auto
  have "table_map t = map_of kvs" using t(3) map_upds_map_of [OF assms(1)] by simp
  then show ?thesis using t(1) merge_table.get_abs [OF t(2)] ok by auto
qed

theorem merge_table_get_insert_witness:
  "\<exists>t. merge_table.ins_all (newMergeTable 2) [(5, \<lparr>rank = 0, token = 7\<rparr>), (9, \<lparr>rank = 1, token = 8\<rparr>)] = Some t
     \<and> merge_get t 9 = Some (\<lparr>rank = 1, token = 8\<rparr>, True) \<and> merge_get t 6 = Some (no_merge, False)"
proof -
  have "-1 = (18446744073709551615 :: 64 word)" by simp
  then have "(5 :: 64 word) \<noteq> -1" "(9 :: 64 word) \<noteq> -1" "(6 :: 64 word) \<noteq> -1" by simp_all
  note neq = this
  let ?kvs = "[(5, \<lparr>rank = 0, token = 7\<rparr>), (9, \<lparr>rank = 1, token = 8\<rparr>)] :: (64 word \<times> qwenMerge) list"
  have "distinct (map fst ?kvs)" "\<forall>(k, v) \<in> set ?kvs. k \<noteq> -1" "length ?kvs < 2 ^ 32" using neq(1,2) by auto
  from merge_table_get_insert [OF this] obtain t where t: "merge_table.ins_all (newMergeTable (length ?kvs)) ?kvs = Some t"
      "\<And>k. k \<noteq> -1 \<Longrightarrow> merge_get t k = Some (case map_of ?kvs k of None \<Rightarrow> (no_merge, False) | Some v \<Rightarrow> (v, True))" by blast
  have two: "length ?kvs = 2" by simp
  have "merge_get t 9 = Some (\<lparr>rank = 1, token = 8\<rparr>, True)" "merge_get t 6 = Some (no_merge, False)"
    using t(2) [OF neq(2)] t(2) [OF neq(3)] by simp_all
  with t(1) [unfolded two] show ?thesis by blast
qed

end
