(* ===== verification/Bpe.thy ===== *)
theory Bpe
  imports Token_Heap Merge_Table
begin

text \<open>
  The byte-pair merge loop \<open>encodePiece\<close> of \<^verbatim>\<open>src/internal/qwen3lm/tokenizer.go\<close>. The code keeps
  the tokens of a piece as a doubly linked list in three arrays and the candidate merges in a
  heap from which stale entries are dropped when they surface. The reference algorithm
  \<open>bpe_ref\<close> rescans the token list for the lowest-ranked, leftmost mergeable pair until none is
  left. The main result is that the two agree, that the loop ends within \<open>3 * n\<close> rounds on a
  piece of \<open>n\<close> bytes (the fuel given to it), and that the output buffer check fails exactly
  when the result does not fit.
\<close>

section \<open>Model\<close>

record bpe_ws =
  tok :: "int list"
  prev :: "int list"
  nxt :: "int list"
  heap :: "nat list"

type_synonym merge_fun = "int \<Rightarrow> int \<Rightarrow> qwenMerge option"

text \<open>\<open>uint64(rank)<<32 | uint64(uint32(i))\<close>, for an index below \<open>2 ^ 32\<close>.\<close>

definition cand_key :: "nat \<Rightarrow> nat \<Rightarrow> nat" where
  "cand_key r i = r * 2 ^ 32 + i"

definition push_cand :: "merge_fun \<Rightarrow> nat \<Rightarrow> nat \<Rightarrow> bpe_ws \<Rightarrow> bpe_ws" where
  "push_cand get i j ws =
     (case get (tok ws ! i) (tok ws ! j) of
        None \<Rightarrow> ws
      | Some m \<Rightarrow> ws\<lparr>heap := heap_push (heap ws) (cand_key (rank m) i)\<rparr>)"

text \<open>The arrays before the first merge, then the candidates of all neighbours.\<close>

definition bpe_init :: "merge_fun \<Rightarrow> int list \<Rightarrow> bpe_ws" where
  "bpe_init get ids =
     (let n = length ids;
          ws = \<lparr>tok = ids,
                prev = map (\<lambda>i. int i - 1) [0..<n],
                nxt = map (\<lambda>i. if i + 1 = n then -1 else int (i + 1)) [0..<n],
                heap = []\<rparr>
      in fold (\<lambda>i. push_cand get i (i + 1)) [0..<n - 1] ws)"

text \<open>Merge the tokens at \<open>left\<close> and \<open>right\<close> into \<open>m\<close> and queue the two new neighbours.\<close>

definition link_out :: "bpe_ws \<Rightarrow> nat \<Rightarrow> nat \<Rightarrow> int \<Rightarrow> bpe_ws" where
  "link_out ws left right m =
     (let after = nxt ws ! right;
          prev1 = (if 0 \<le> after then (prev ws)[nat after := int left] else prev ws)
      in ws\<lparr>tok := (tok ws)[left := m],
            nxt := (nxt ws)[left := after, right := -1],
            prev := prev1[right := -1]\<rparr>)"

definition queue_before :: "merge_fun \<Rightarrow> nat \<Rightarrow> bpe_ws \<Rightarrow> bpe_ws" where
  "queue_before get left ws =
     (let before = prev ws ! left in
      if 0 \<le> before then
        let nx = nxt ws ! nat before in
        if 0 \<le> nx then push_cand get (nat before) (nat nx) ws else ws
      else ws)"

definition queue_after :: "merge_fun \<Rightarrow> nat \<Rightarrow> bpe_ws \<Rightarrow> bpe_ws" where
  "queue_after get left ws =
     (let nx = nxt ws ! left in if 0 \<le> nx then push_cand get left (nat nx) ws else ws)"

definition bpe_step :: "merge_fun \<Rightarrow> nat \<Rightarrow> bpe_ws \<Rightarrow> bpe_ws" where
  "bpe_step get n ws0 =
     (case heap_pop (heap ws0) of
        None \<Rightarrow> ws0
      | Some (key, h) \<Rightarrow>
          let ws = ws0\<lparr>heap := h\<rparr>; left = key mod 2 ^ 32 in
          if n \<le> left then ws
          else let right = nxt ws ! left in
               if right < 0 then ws
               else (case get (tok ws ! left) (tok ws ! nat right) of
                       None \<Rightarrow> ws
                     | Some m \<Rightarrow>
                         if cand_key (rank m) left \<noteq> key then ws
                         else queue_after get left (queue_before get left
                                (link_out ws left (nat right) (token m)))))"

text \<open>\<open>for len(ws.heap) != 0\<close>; \<open>None\<close> is a loop still running after \<open>fuel\<close> rounds.\<close>

fun bpe_loop :: "nat \<Rightarrow> merge_fun \<Rightarrow> nat \<Rightarrow> bpe_ws \<Rightarrow> bpe_ws option" where
  "bpe_loop fuel get n ws =
     (if heap ws = [] then Some ws
      else case fuel of 0 \<Rightarrow> None | Suc f \<Rightarrow> bpe_loop f get n (bpe_step get n ws))"

datatype token_error = ErrTokenBufferSmall | ErrTokenizerWorkspace | ErrNilTokenizer

text \<open>The final walk along \<open>next\<close>, into a buffer of capacity \<open>cap\<close>.\<close>

fun bpe_collect :: "nat \<Rightarrow> bpe_ws \<Rightarrow> int \<Rightarrow> nat \<Rightarrow> int list \<Rightarrow> (token_error + int list) option" where
  "bpe_collect fuel ws i cap out =
     (if i < 0 then Some (Inr out)
      else if length out = cap then Some (Inl ErrTokenBufferSmall)
      else case fuel of 0 \<Rightarrow> None
           | Suc f \<Rightarrow> bpe_collect f ws (nxt ws ! nat i) cap (out @ [tok ws ! nat i]))"

declare bpe_loop.simps [simp del] bpe_collect.simps [simp del]

text \<open>
  \<open>encodePiece\<close>: \<open>ids\<close> are the byte tokens of the piece. \<open>None\<close> is a loop that does not end.
\<close>

definition encodePiece :: "merge_fun \<Rightarrow> nat \<Rightarrow> int list \<Rightarrow> int list \<Rightarrow> (token_error + int list) option" where
  "encodePiece get cap ids out =
     (if ids = [] then Some (Inr out)
      else case bpe_loop (3 * length ids) get (length ids) (bpe_init get ids) of
             None \<Rightarrow> None
           | Some ws \<Rightarrow> bpe_collect (length ids) ws 0 cap out)"

section \<open>Reference algorithm\<close>

definition pair_merge :: "merge_fun \<Rightarrow> int list \<Rightarrow> nat \<Rightarrow> qwenMerge option" where
  "pair_merge get ts i = get (ts ! i) (ts ! Suc i)"

definition mergeable :: "merge_fun \<Rightarrow> int list \<Rightarrow> nat list" where
  "mergeable get ts = filter (\<lambda>i. pair_merge get ts i \<noteq> None) [0..<length ts - 1]"

definition merge_at :: "int list \<Rightarrow> nat \<Rightarrow> int \<Rightarrow> int list" where
  "merge_at ts i m = take i ts @ m # drop (i + 2) ts"

definition best_pair :: "merge_fun \<Rightarrow> int list \<Rightarrow> nat" where
  "best_pair get ts = arg_min_list (\<lambda>i. rank (the (pair_merge get ts i))) (mergeable get ts)"

lemma best_pair_in: "mergeable get ts \<noteq> [] \<Longrightarrow> best_pair get ts \<in> set (mergeable get ts)"
  by (simp add: best_pair_def arg_min_list_in)

function bpe_ref :: "merge_fun \<Rightarrow> int list \<Rightarrow> int list" where
  "bpe_ref get ts =
     (if mergeable get ts = [] then ts
      else let i = best_pair get ts
           in bpe_ref get (merge_at ts i (token (the (pair_merge get ts i)))))"
  by pat_completeness auto
termination
proof (relation "measure (\<lambda>(get, ts). length ts)")
  fix get ts i assume "mergeable get ts \<noteq> []" "i = best_pair get ts"
  with best_pair_in [of get ts] have "i < length ts - 1" by (simp add: mergeable_def)
  then show "((get, merge_at ts i (token (the (pair_merge get ts i)))), get, ts) \<in> measure (\<lambda>(get, ts). length ts)"
    by (simp add: merge_at_def)
qed simp

declare bpe_ref.simps [simp del]

section \<open>The linked list\<close>

definition del_at :: "nat \<Rightarrow> 'a list \<Rightarrow> 'a list" where
  "del_at i xs = take i xs @ drop (Suc i) xs"

lemma length_del_at [simp]: "i < length xs \<Longrightarrow> length (del_at i xs) = length xs - 1"
  by (simp add: del_at_def)

lemma nth_del_at: "i < length xs \<Longrightarrow> j < length xs - 1 \<Longrightarrow> del_at i xs ! j = xs ! (if j < i then j else Suc j)"
  by (auto simp: del_at_def nth_append min_def)

lemma del_at_split: "i < length xs \<Longrightarrow> xs = take i xs @ xs ! i # drop (Suc i) xs"
  by (rule id_take_nth_drop)

lemma set_del_at:
  assumes "distinct xs" and "i < length xs"
  shows "set (del_at i xs) = set xs - {xs ! i}"
proof -
  obtain a b where xs: "xs = a @ xs ! i # b" "del_at i xs = a @ b"
    using del_at_split [OF assms(2)] unfolding del_at_def by blast
  from assms(1) xs(1) have "xs ! i \<notin> set (a @ b)" "set xs = insert (xs ! i) (set (a @ b))"
    by (metis Un_iff distinct.simps(2) distinct_append disjoint_insert(1) list.set(2) set_append,
        metis Un_insert_right list.set(2) set_append)
  then show ?thesis unfolding xs(2) by auto
qed

lemma sorted_del_at:
  assumes "sorted_wrt (<) (xs :: nat list)"
  shows "sorted_wrt (<) (del_at i xs)"
proof (cases "i < length xs")
  case True
  from assms have "sorted_wrt (<) (take i xs @ [xs ! i] @ drop (Suc i) xs)"
    using del_at_split [OF True] by simp
  then show ?thesis unfolding del_at_def sorted_wrt_append by auto
next
  case False
  with assms show ?thesis by (simp add: del_at_def)
qed

text \<open>\<open>linked n ws ps\<close>: the live positions are \<open>ps\<close>, in order.\<close>

definition linked :: "nat \<Rightarrow> bpe_ws \<Rightarrow> nat list \<Rightarrow> bool" where
  "linked n ws ps \<longleftrightarrow> ps \<noteq> [] \<and> hd ps = 0 \<and> sorted_wrt (<) ps \<and> (\<forall>p \<in> set ps. p < n)
     \<and> length (tok ws) = n \<and> length (prev ws) = n \<and> length (nxt ws) = n
     \<and> (\<forall>k < length ps. nxt ws ! (ps ! k) = (if Suc k < length ps then int (ps ! Suc k) else -1))
     \<and> (\<forall>k < length ps. prev ws ! (ps ! k) = (if 0 < k then int (ps ! (k - 1)) else -1))
     \<and> (\<forall>p < n. p \<notin> set ps \<longrightarrow> nxt ws ! p = -1)"

definition toks :: "bpe_ws \<Rightarrow> nat list \<Rightarrow> int list" where
  "toks ws ps = map (\<lambda>p. tok ws ! p) ps"

lemma linked_distinct: "linked n ws ps \<Longrightarrow> distinct ps"
  by (simp add: linked_def strict_sorted_iff)

lemma linked_nth_eq: "linked n ws ps \<Longrightarrow> a < length ps \<Longrightarrow> b < length ps \<Longrightarrow> ps ! a = ps ! b \<longleftrightarrow> a = b"
  using linked_distinct nth_eq_iff_index_eq by blast

lemma linked_heap [simp]: "linked n (ws\<lparr>heap := h\<rparr>) ps = linked n ws ps"
  by (simp add: linked_def)

lemma toks_heap [simp]: "toks (ws\<lparr>heap := h\<rparr>) ps = toks ws ps"
  by (simp add: toks_def)

lemma linked_next:
  assumes "linked n ws ps" and "p < n" and "0 \<le> nxt ws ! p"
  obtains k where "Suc k < length ps" "p = ps ! k" "nxt ws ! p = int (ps ! Suc k)"
proof -
  from assms have "p \<in> set ps" unfolding linked_def by fastforce
  then obtain k where k: "k < length ps" "p = ps ! k" by (auto simp: in_set_conv_nth)
  with assms have "Suc k < length ps" "nxt ws ! p = int (ps ! Suc k)"
    unfolding linked_def by (auto split: if_splits)
  with k that show thesis by blast
qed

lemma linked_facts:
  assumes "linked n ws ps"
  shows "\<And>j. j < length ps \<Longrightarrow> ps ! j < n"
    and "\<And>j. j < length ps \<Longrightarrow> nxt ws ! (ps ! j) = (if Suc j < length ps then int (ps ! Suc j) else -1)"
    and "\<And>j. j < length ps \<Longrightarrow> prev ws ! (ps ! j) = (if 0 < j then int (ps ! (j - 1)) else -1)"
    and "\<And>p. p < n \<Longrightarrow> p \<notin> set ps \<Longrightarrow> nxt ws ! p = -1"
    and "length (tok ws) = n" "length (prev ws) = n" "length (nxt ws) = n"
  using assms by (auto simp: linked_def)

lemma link_out_linked:
  assumes lk: "linked n ws ps" and k: "Suc k < length ps"
  shows "linked n (link_out ws (ps ! k) (ps ! Suc k) m) (del_at (Suc k) ps)"
proof -
  let ?l = "ps ! k" and ?r = "ps ! Suc k" and ?ps = "del_at (Suc k) ps"
  let ?ws = "link_out ws ?l ?r m" and ?a = "nxt ws ! (ps ! Suc k)"
  note f = linked_facts [OF lk]
  note eq = linked_nth_eq [OF lk]
  have nth: "?ps ! j = ps ! (if j < Suc k then j else Suc j)" if "j < length ps - 1" for j
    using nth_del_at [OF k that] .
  have nx: "nxt ?ws = (nxt ws)[?l := ?a, ?r := -1]"
    and pv: "prev ?ws = (if 0 \<le> ?a then (prev ws)[nat ?a := int ?l] else prev ws)[?r := -1]"
    by (simp_all add: link_out_def Let_def)
  have a: "?a = (if k + 2 < length ps then int (ps ! (k + 2)) else -1)" using f(2) [OF k] by simp
  have "hd ?ps = 0" using lk k by (cases ps) (auto simp: linked_def del_at_def)
  moreover have "sorted_wrt (<) ?ps" using lk by (simp add: linked_def sorted_del_at)
  moreover have set: "set ?ps = set ps - {?r}" using linked_distinct [OF lk] k by (rule set_del_at)
  moreover have "nxt ?ws ! (?ps ! j) = (if Suc j < length ?ps then int (?ps ! Suc j) else -1)"
    if j: "j < length ?ps" for j
  proof -
    have j': "j < length ps - 1" and sj: "Suc j < length ps" using j k by simp_all
    consider "j < k" | "j = k" | "k < j" by linarith
    then show ?thesis
    proof cases
      case 1
      then show ?thesis using nth [OF j'] nth [of "Suc j"] eq [of j k] eq [of j "Suc k"] f(2) [of j] k
        by (simp add: nx)
    next
      case 2
      then show ?thesis using nth [OF j'] nth [of "Suc j"] eq [of k "Suc k"] f(1) [of k] k a f(7)
        by simp (auto simp: nx)
    next
      case 3
      then show ?thesis using nth [OF j'] nth [of "Suc j"] eq [of "Suc j" k] eq [of "Suc j" "Suc k"] f(2) [of "Suc j"] k sj
        by (auto simp: nx)
    qed
  qed
  moreover have "prev ?ws ! (?ps ! j) = (if 0 < j then int (?ps ! (j - 1)) else -1)"
    if j: "j < length ?ps" for j
  proof -
    have j': "j < length ps - 1" and sj: "Suc j < length ps" using j k by simp_all
    consider "j \<le> k" | "j = Suc k" | "Suc k < j" by linarith
    then show ?thesis
    proof cases
      case 1
      then show ?thesis using nth [OF j'] nth [of "j - 1"] eq [of j "k + 2"] eq [of j "Suc k"] f(3) [of j] k a
        by (auto simp: pv)
    next
      case 2
      then show ?thesis using nth [OF j'] nth [of "j - 1"] eq [of "k + 2" "Suc k"] f(1) [of "k + 2"] f(6) k a j'
        by (auto simp: pv)
    next
      case 3
      then show ?thesis
        using nth [OF j'] nth [of "j - 1"] eq [of "Suc j" "k + 2"] eq [of "Suc j" "Suc k"] f(3) [of "Suc j"] k a sj
        by (auto simp: pv)
    qed
  qed
  moreover have "nxt ?ws ! p = -1" if "p < n" "p \<notin> set ?ps" for p
  proof (cases "p = ?r")
    case True
    then show ?thesis using that f(7) by (simp add: nx)
  next
    case False
    with that set have "p \<notin> set ps" by simp
    moreover have "p \<noteq> ?l" using \<open>p \<notin> set ps\<close> k by (metis Suc_lessD nth_mem)
    ultimately show ?thesis using that(1) False f(4) by (simp add: nx)
  qed
  moreover have "?ps \<noteq> []" using k by (auto simp: del_at_def)
  moreover have "length (tok ?ws) = n" "length (prev ?ws) = n" "length (nxt ?ws) = n"
    using f(5,6,7) by (simp_all add: link_out_def Let_def)
  moreover have "\<forall>p \<in> set ?ps. p < n" using set lk by (auto simp: linked_def)
  ultimately show ?thesis unfolding linked_def by blast
qed

lemma link_out_toks:
  assumes lk: "linked n ws ps" and k: "Suc k < length ps"
  shows "toks (link_out ws (ps ! k) (ps ! Suc k) m) (del_at (Suc k) ps) = merge_at (toks ws ps) k m"
proof (rule nth_equalityI)
  show len: "length (toks (link_out ws (ps ! k) (ps ! Suc k) m) (del_at (Suc k) ps)) = length (merge_at (toks ws ps) k m)"
    using k by (simp add: toks_def merge_at_def)
  fix j assume "j < length (toks (link_out ws (ps ! k) (ps ! Suc k) m) (del_at (Suc k) ps))"
  then have j: "j < length ps - 1" using k by (simp add: toks_def)
  have t: "tok (link_out ws (ps ! k) (ps ! Suc k) m) = (tok ws)[ps ! k := m]"
    by (simp add: link_out_def Let_def)
  have lt: "ps ! k < length (tok ws)" using linked_facts(1,5) [OF lk] k by simp
  have l: "toks (link_out ws (ps ! k) (ps ! Suc k) m) (del_at (Suc k) ps) ! j
      = (tok ws)[ps ! k := m] ! (ps ! (if j < Suc k then j else Suc j))"
    using j k nth_del_at [OF k j] by (simp add: toks_def t)
  consider "j < k" | "j = k" | "k < j" by linarith
  then show "toks (link_out ws (ps ! k) (ps ! Suc k) m) (del_at (Suc k) ps) ! j = merge_at (toks ws ps) k m ! j"
  proof cases
    case 1
    then show ?thesis using l k linked_nth_eq [OF lk, of j k]
      by (simp add: merge_at_def toks_def nth_append)
  next
    case 2
    then show ?thesis using l k lt by (simp add: merge_at_def toks_def nth_append)
  next
    case 3
    then obtain d where d: "j = Suc (k + d)" using less_iff_Suc_add by blast
    have "Suc j < length ps" using j by simp
    with d show ?thesis using l k linked_nth_eq [OF lk, of "Suc j" k]
      by (simp add: merge_at_def toks_def nth_append)
  qed
qed

section \<open>The candidates\<close>

text \<open>Every mergeable pair of neighbours has its key in the heap.\<close>

definition covered :: "merge_fun \<Rightarrow> bpe_ws \<Rightarrow> nat list \<Rightarrow> nat \<Rightarrow> bool" where
  "covered get ws ps k \<longleftrightarrow>
     (\<forall>m. pair_merge get (toks ws ps) k = Some m \<longrightarrow> cand_key (rank m) (ps ! k) \<in># mset (heap ws))"

definition bpe_inv :: "merge_fun \<Rightarrow> nat \<Rightarrow> bpe_ws \<Rightarrow> nat list \<Rightarrow> bool" where
  "bpe_inv get n ws ps \<longleftrightarrow> linked n ws ps \<and> is_heap (heap ws) \<and> n < 2 ^ 32
     \<and> (\<forall>k. Suc k < length ps \<longrightarrow> covered get ws ps k)"

lemma push_cand_frame [simp]:
  "tok (push_cand get i j ws) = tok ws" "prev (push_cand get i j ws) = prev ws" "nxt (push_cand get i j ws) = nxt ws"
  by (simp_all add: push_cand_def split: option.splits)

lemma push_cand_heap:
  assumes "is_heap (heap ws)"
  shows "is_heap (heap (push_cand get i j ws))" and "set_mset (mset (heap ws)) \<subseteq> set_mset (mset (heap (push_cand get i j ws)))"
    and "length (heap (push_cand get i j ws)) \<le> Suc (length (heap ws))"
    and "get (tok ws ! i) (tok ws ! j) = Some m \<Longrightarrow> cand_key (rank m) i \<in># mset (heap (push_cand get i j ws))"
proof -
  note ps = token_heap.push_invar [OF assms] token_heap.push_elems [OF assms]
  show "is_heap (heap (push_cand get i j ws))" using assms ps(1) by (simp add: push_cand_def split: option.splits)
  show "set_mset (mset (heap ws)) \<subseteq> set_mset (mset (heap (push_cand get i j ws)))"
    using ps(2) by (auto simp: push_cand_def simp del: set_mset_mset split: option.splits)
  show "length (heap (push_cand get i j ws)) \<le> Suc (length (heap ws))"
    using ps(2) by (auto simp: push_cand_def simp flip: size_mset split: option.splits)
  show "get (tok ws ! i) (tok ws ! j) = Some m \<Longrightarrow> cand_key (rank m) i \<in># mset (heap (push_cand get i j ws))"
    using ps(2) by (simp add: push_cand_def del: set_mset_mset)
qed

lemma linked_push [simp]: "linked n (push_cand get i j ws) ps = linked n ws ps"
  by (simp add: linked_def)

lemma toks_push [simp]: "toks (push_cand get i j ws) ps = toks ws ps"
  by (simp add: toks_def)

lemma covered_push:
  "is_heap (heap ws) \<Longrightarrow> covered get ws ps k \<Longrightarrow> covered get (push_cand get i j ws) ps k"
  using push_cand_heap(2) [of ws get i j] by (auto simp: covered_def simp del: set_mset_mset)

lemma covered_push_new:
  assumes "is_heap (heap ws)" and "Suc k < length ps"
  shows "covered get (push_cand get (ps ! k) (ps ! Suc k) ws) ps k"
  using push_cand_heap(4) [OF assms(1)] assms(2) by (simp add: covered_def pair_merge_def toks_def del: set_mset_mset)

text \<open>Before the first merge every position is live and every pair is queued.\<close>

lemma fold_push:
  assumes "is_heap (heap ws)"
  shows "let w = fold (\<lambda>i. push_cand get i (i + 1)) [0..<q] ws
    in tok w = tok ws \<and> prev w = prev ws \<and> nxt w = nxt ws \<and> is_heap (heap w)
      \<and> length (heap w) \<le> length (heap ws) + q
      \<and> (\<forall>k m. k < q \<longrightarrow> get (tok ws ! k) (tok ws ! (k + 1)) = Some m \<longrightarrow> cand_key (rank m) k \<in># mset (heap w))"
proof (induction q)
  case 0
  then show ?case using assms by simp
next
  case (Suc q)
  let ?w = "fold (\<lambda>i. push_cand get i (i + 1)) [0..<q] ws"
  have h: "is_heap (heap ?w)" using Suc by (simp add: Let_def)
  have mono: "x \<in># mset (heap ?w) \<Longrightarrow> x \<in># mset (heap (push_cand get q (q + 1) ?w))" for x
    using push_cand_heap(2) [OF h] by blast
  show ?case
    using Suc push_cand_heap(1,3,4) [OF h, of get q "q + 1"] mono
    unfolding Let_def by (auto simp: less_Suc_eq simp del: set_mset_mset)
qed

lemma bpe_init_inv:
  assumes "ids \<noteq> []" and "length ids < 2 ^ 32"
  shows "bpe_inv get (length ids) (bpe_init get ids) [0..<length ids]"
    and "toks (bpe_init get ids) [0..<length ids] = ids"
    and "length (heap (bpe_init get ids)) \<le> length ids - 1"
proof -
  let ?n = "length ids" and ?w = "bpe_init get ids"
  let ?start = "\<lparr>tok = ids, prev = map (\<lambda>i. int i - 1) [0..<?n],
     nxt = map (\<lambda>i. if i + 1 = ?n then -1 else int (i + 1)) [0..<?n], heap = []\<rparr>"
  have h0: "is_heap (heap ?start)" by (simp add: is_heap_def)
  have w: "?w = fold (\<lambda>i. push_cand get i (i + 1)) [0..<?n - 1] ?start"
    unfolding bpe_init_def Let_def by (rule refl)
  note fp = fold_push [OF h0, of get "?n - 1", folded w, unfolded Let_def]
  have arrays: "tok ?w = ids" "prev ?w = prev ?start" "nxt ?w = nxt ?start" "is_heap (heap ?w)" using fp by auto
  show t: "toks ?w [0..<?n] = ids" using arrays by (simp add: toks_def map_nth)
  have "linked ?n ?w [0..<?n]" unfolding linked_def arrays
    using assms(1) by (auto simp: nth_append hd_conv_nth of_nat_diff)
  moreover have "covered get ?w [0..<?n] k" if "Suc k < length [0..<?n]" for k
    using that fp by (auto simp: covered_def pair_merge_def t simp del: set_mset_mset)
  ultimately show "bpe_inv get ?n ?w [0..<?n]" using assms(2) arrays(4) by (simp add: bpe_inv_def)
  show "length (heap ?w) \<le> ?n - 1" using fp by simp
qed

section \<open>One round\<close>

lemma cand_key_mod [simp]: "i < 4294967296 \<Longrightarrow> cand_key r i mod 4294967296 = i"
  by (simp add: cand_key_def)

lemma cand_key_le:
  assumes "i < 2 ^ 32" and "j < 2 ^ 32" and "cand_key r i \<le> cand_key q j"
  shows "r < q \<or> r = q \<and> i \<le> j"
  using assms unfolding cand_key_def by (cases r q rule: linorder_cases) auto

lemma arg_min_list_first:
  assumes "sorted_wrt (<) (xs :: nat list)" and "k \<in> set xs" and "\<And>x. x \<in> set xs \<Longrightarrow> f k < f x \<or> f k = (f x :: nat) \<and> k \<le> x"
  shows "arg_min_list f xs = k"
  using assms
proof (induction f xs rule: arg_min_list.induct)
  case (2 f x y zs)
  let ?m = "arg_min_list f (y # zs)"
  have m: "?m \<in> set (y # zs)" by (rule arg_min_list_in) simp
  show ?case
  proof (cases "k = x")
    case True
    with 2(4) [of ?m] m show ?thesis by (auto simp: Let_def)
  next
    case False
    then have IH: "?m = k" using 2 by auto
    have "x < k" using 2(2,3) False by auto
    then have "f k < f x" using 2(4) [of x] by auto
    with IH show ?thesis by (simp add: Let_def)
  qed
qed auto

lemma mergeable_iff: "k \<in> set (mergeable get ts) \<longleftrightarrow> Suc k < length ts \<and> pair_merge get ts k \<noteq> None"
  by (auto simp: mergeable_def)

lemma bpe_ref_step:
  assumes "Suc k < length ts" and "pair_merge get ts k = Some m"
    and "\<And>j q. Suc j < length ts \<Longrightarrow> pair_merge get ts j = Some q \<Longrightarrow> rank m < rank q \<or> rank m = rank q \<and> k \<le> j"
  shows "bpe_ref get ts = bpe_ref get (merge_at ts k (token m))"
proof -
  have k: "k \<in> set (mergeable get ts)" using assms(1,2) by (simp add: mergeable_iff)
  have "best_pair get ts = k" unfolding best_pair_def
  proof (rule arg_min_list_first)
    show "sorted_wrt (<) (mergeable get ts)" by (simp add: mergeable_def sorted_wrt_filter)
    show "k \<in> set (mergeable get ts)" by (rule k)
    show "rank (the (pair_merge get ts k)) < rank (the (pair_merge get ts x)) \<or>
        rank (the (pair_merge get ts k)) = rank (the (pair_merge get ts x)) \<and> k \<le> x" if "x \<in> set (mergeable get ts)" for x
      using that assms(2,3) by (auto simp: mergeable_iff)
  qed
  with k assms(2) show ?thesis by (subst bpe_ref.simps) (auto simp: Let_def)
qed

lemma covered_pop:
  assumes "mset h = add_mset key (mset h')" and "covered get (ws\<lparr>heap := h\<rparr>) ps k"
    and "\<And>m. pair_merge get (toks ws ps) k = Some m \<Longrightarrow> cand_key (rank m) (ps ! k) \<noteq> key"
  shows "covered get (ws\<lparr>heap := h'\<rparr>) ps k"
  using assms by (auto simp: covered_def simp del: set_mset_mset)

text \<open>The neighbours queued after a merge are the two pairs of the shorter list that are new.\<close>

lemma queue_before_eq:
  assumes "linked n ws ps" and "k < length ps"
  shows "queue_before get (ps ! k) ws = (if 0 < k then push_cand get (ps ! (k - 1)) (ps ! k) ws else ws)"
proof (cases "0 < k")
  case True
  then have "nxt ws ! (ps ! (k - 1)) = int (ps ! k)" using linked_facts(2) [OF assms(1), of "k - 1"] assms(2) by simp
  with True linked_facts(3) [OF assms] show ?thesis by (simp add: queue_before_def Let_def)
next
  case False
  with linked_facts(3) [OF assms] show ?thesis by (simp add: queue_before_def Let_def)
qed

lemma queue_after_eq:
  assumes "linked n ws ps" and "k < length ps"
  shows "queue_after get (ps ! k) ws = (if Suc k < length ps then push_cand get (ps ! k) (ps ! Suc k) ws else ws)"
  using linked_facts(2) [OF assms] by (simp add: queue_after_def Let_def)

lemma pair_merge_at:
  assumes "Suc k < length ts" and "Suc j < length ts - 1"
  shows "j < k - 1 \<or> k < j \<or> Suc j = k \<or> j = k"
    and "Suc j < k \<Longrightarrow> pair_merge get (merge_at ts k m) j = pair_merge get ts j"
    and "k < j \<Longrightarrow> pair_merge get (merge_at ts k m) j = pair_merge get ts (Suc j)"
proof -
  show "j < k - 1 \<or> k < j \<or> Suc j = k \<or> j = k" by auto
  show "Suc j < k \<Longrightarrow> pair_merge get (merge_at ts k m) j = pair_merge get ts j"
    using assms by (simp add: pair_merge_def merge_at_def nth_append)
  assume "k < j"
  then obtain d where "j = Suc (k + d)" using less_iff_Suc_add by blast
  then show "pair_merge get (merge_at ts k m) j = pair_merge get ts (Suc j)"
    using assms by (simp add: pair_merge_def merge_at_def nth_append)
qed

lemma merge_round:
  assumes inv: "bpe_inv get n ws ps" and h: "is_heap h" and pop: "mset (heap ws) = add_mset (cand_key (rank m) (ps ! k)) (mset h)"
    and k: "Suc k < length ps"
  defines "ws1 \<equiv> link_out (ws\<lparr>heap := h\<rparr>) (ps ! k) (ps ! Suc k) (token m)"
  defines "ws2 \<equiv> queue_after get (ps ! k) (queue_before get (ps ! k) ws1)"
  shows "bpe_inv get n ws2 (del_at (Suc k) ps)"
    and "toks ws2 (del_at (Suc k) ps) = merge_at (toks ws ps) k (token m)"
    and "length (heap ws2) \<le> length h + 2"
proof -
  let ?ps = "del_at (Suc k) ps"
  have lk: "linked n (ws\<lparr>heap := h\<rparr>) ps" and n: "n < 2 ^ 32" using inv by (simp_all add: bpe_inv_def)
  have lk1: "linked n ws1 ?ps" unfolding ws1_def using lk k by (rule link_out_linked)
  have t1: "toks ws1 ?ps = merge_at (toks ws ps) k (token m)" unfolding ws1_def using link_out_toks [OF lk k] by simp
  have hp: "heap ws1 = h" by (simp add: ws1_def link_out_def Let_def)
  have pk: "?ps ! k = ps ! k" and kl: "k < length ?ps" using nth_del_at [OF k, of k] k by simp_all
  let ?wb = "queue_before get (ps ! k) ws1"
  have wb: "?wb = (if 0 < k then push_cand get (?ps ! (k - 1)) (?ps ! k) ws1 else ws1)"
    using queue_before_eq [OF lk1 kl] pk by simp
  have lkb: "linked n ?wb ?ps" "is_heap (heap ?wb)" "length (heap ?wb) \<le> Suc (length h)" "toks ?wb ?ps = toks ws1 ?ps"
    using lk1 push_cand_heap(1,3) [of ws1] h hp by (auto simp: wb)
  have w2: "ws2 = (if Suc k < length ?ps then push_cand get (?ps ! k) (?ps ! Suc k) ?wb else ?wb)"
    using queue_after_eq [OF lkb(1) kl] pk by (simp add: ws2_def)
  show t2: "toks ws2 ?ps = merge_at (toks ws ps) k (token m)" using t1 lkb(4) by (simp add: w2)
  show "length (heap ws2) \<le> length h + 2" using lkb(3) push_cand_heap(3) [OF lkb(2), of get "?ps ! k" "?ps ! Suc k"]
    by (simp add: w2)
  have old: "covered get ws1 ?ps j" if j: "Suc j < length ?ps" "Suc j < k \<or> k < j" for j
    unfolding covered_def
  proof (intro allI impI)
    fix q assume q: "pair_merge get (toks ws1 ?ps) j = Some q"
    let ?i = "if j < k then j else Suc j"
    have len: "Suc k < length (toks ws ps)" "Suc j < length (toks ws ps) - 1" using j(1) k by (simp_all add: toks_def)
    have i: "Suc ?i < length ps" "?i \<noteq> k" using j k by auto
    have "pair_merge get (toks ws ps) ?i = Some q"
      using q j(2) pair_merge_at(2,3) [OF len, of get] unfolding t1 by auto
    with inv i(1) have "cand_key (rank q) (ps ! ?i) \<in># mset (heap ws)" by (simp add: bpe_inv_def covered_def)
    moreover have "cand_key (rank q) (ps ! ?i) \<noteq> cand_key (rank m) (ps ! k)"
    proof
      assume eq: "cand_key (rank q) (ps ! ?i) = cand_key (rank m) (ps ! k)"
      have b: "ps ! ?i < 2 ^ 32" "ps ! k < 2 ^ 32" using linked_facts(1) [OF lk] i(1) k n by (meson Suc_lessD less_trans)+
      have "cand_key (rank q) (ps ! ?i) mod 4294967296 = ps ! ?i" "cand_key (rank m) (ps ! k) mod 4294967296 = ps ! k"
        using b by (intro cand_key_mod; simp)+
      then have "ps ! ?i = ps ! k" using eq by metis
      with linked_nth_eq [OF lk, of ?i k] i k show False by simp
    qed
    ultimately have "cand_key (rank q) (ps ! ?i) \<in># mset h" using pop by simp
    moreover have "?ps ! j = ps ! ?i" using nth_del_at [OF k, of j] j k by auto
    ultimately show "cand_key (rank q) (?ps ! j) \<in># mset (heap ws1)" using hp by simp
  qed
  have b: "covered get ?wb ?ps j" if j: "Suc j < length ?ps" "j \<noteq> k" for j
  proof (cases "Suc j = k")
    case True
    then show ?thesis using covered_push_new [of ws1 j ?ps get] h hp j(1) wb by auto
  next
    case False
    with j(2) have "Suc j < k \<or> k < j" by linarith
    then have "covered get ws1 ?ps j" by (rule old [OF j(1)])
    then show ?thesis using covered_push [of ws1 get ?ps j] h hp by (auto simp: wb)
  qed
  have "covered get ws2 ?ps j" if j: "Suc j < length ?ps" for j
  proof (cases "j = k")
    case True
    then show ?thesis using covered_push_new [OF lkb(2), of k ?ps get] j by (simp add: w2)
  next
    case False
    then show ?thesis using b [OF j] covered_push [OF lkb(2)] by (simp add: w2)
  qed
  moreover have "linked n ws2 ?ps" "is_heap (heap ws2)" using lkb push_cand_heap(1) [OF lkb(2)] by (simp_all add: w2)
  ultimately show "bpe_inv get n ws2 ?ps" using n by (simp add: bpe_inv_def)
qed

lemma bpe_step_inv:
  assumes inv: "bpe_inv get n ws ps" and ne: "heap ws \<noteq> []"
  shows "\<exists>ps'. bpe_inv get n (bpe_step get n ws) ps'
    \<and> bpe_ref get (toks (bpe_step get n ws) ps') = bpe_ref get (toks ws ps)
    \<and> length (heap (bpe_step get n ws)) + 2 * length ps' < length (heap ws) + 2 * length ps"
proof -
  have lk: "linked n ws ps" and hp: "is_heap (heap ws)" and n: "n < 2 ^ 32" using inv by (simp_all add: bpe_inv_def)
  obtain key h where pop: "heap_pop (heap ws) = Some (key, h)"
    using ne token_heap.pop_None [OF hp] by (cases "heap_pop (heap ws)") auto
  note h = token_heap.pop_invar [OF hp pop] and ms = token_heap.pop_elems [OF hp pop]
  have len: "length (heap ws) = Suc (length h)" using ms by (metis size_add_mset size_mset)
  let ?left = "key mod 2 ^ 32"
  show ?thesis
  proof (cases "\<exists>k m. Suc k < length ps \<and> pair_merge get (toks ws ps) k = Some m \<and> key = cand_key (rank m) (ps ! k)")
    case True
    then obtain k m where k: "Suc k < length ps" and m: "pair_merge get (toks ws ps) k = Some m"
        and key: "key = cand_key (rank m) (ps ! k)" by blast
    have pk: "ps ! k < n" using linked_facts(1) [OF lk] k by simp
    then have left: "?left = ps ! k" using n key by simp
    have right: "nxt ws ! (ps ! k) = int (ps ! Suc k)" using linked_facts(2) [OF lk] k by simp
    let ?ws = "queue_after get (ps ! k) (queue_before get (ps ! k) (link_out (ws\<lparr>heap := h\<rparr>) (ps ! k) (ps ! Suc k) (token m)))"
    have step: "bpe_step get n ws = ?ws"
      using pop left right pk m k key by (simp add: bpe_step_def Let_def pair_merge_def toks_def)
    note r = merge_round [OF inv h ms [unfolded key] k]
    have "rank m < rank q \<or> rank m = rank q \<and> k \<le> j"
      if j: "Suc j < length (toks ws ps)" "pair_merge get (toks ws ps) j = Some q" for j q
    proof -
      have jl: "Suc j < length ps" using j(1) by (simp add: toks_def)
      then have "cand_key (rank q) (ps ! j) \<in># mset (heap ws)" using inv j(2) by (simp add: bpe_inv_def covered_def)
      then have "key \<le> cand_key (rank q) (ps ! j)" using token_heap.pop_min [OF hp pop] by simp
      moreover have "ps ! j < n" using linked_facts(1) [OF lk] jl by simp
      ultimately have o: "rank m < rank q \<or> rank m = rank q \<and> ps ! k \<le> ps ! j"
        using cand_key_le [of "ps ! k" "ps ! j" "rank m" "rank q"] pk n unfolding key by linarith
      moreover have "k \<le> j" if "ps ! k \<le> ps ! j"
        using that lk jl k unfolding linked_def by (metis Suc_lessD leI not_le sorted_wrt_nth_less)
      ultimately show ?thesis by blast
    qed
    then have "bpe_ref get (toks ws ps) = bpe_ref get (merge_at (toks ws ps) k (token m))"
      using bpe_ref_step m k by (metis length_map toks_def)
    then show ?thesis using r len k unfolding step by (intro exI [of _ "del_at (Suc k) ps"]) auto
  next
    case False
    let ?ws = "ws\<lparr>heap := h\<rparr>"
    have step: "bpe_step get n ws = ?ws"
    proof (cases "?left < n \<and> 0 \<le> nxt ws ! ?left")
      case True
      then obtain k where k: "Suc k < length ps" "?left = ps ! k" "nxt ws ! ?left = int (ps ! Suc k)"
        using linked_next [OF lk] by metis
      then have "pair_merge get (toks ws ps) k = get (tok ws ! ?left) (tok ws ! nat (nxt ws ! ?left))"
        by (simp add: pair_merge_def toks_def)
      with False k True pop show ?thesis
        by (auto simp: bpe_step_def Let_def split: option.splits)
    qed (use pop in \<open>auto simp: bpe_step_def Let_def\<close>)
    have "covered get ?ws ps k" if "Suc k < length ps" for k
      using covered_pop [OF ms, of get ws ps k] inv that False by (auto simp: bpe_inv_def)
    with lk h n len show ?thesis unfolding step by (intro exI [of _ ps]) (simp add: bpe_inv_def)
  qed
qed

lemma bpe_loop_inv:
  assumes "bpe_inv get n ws ps" and "length (heap ws) + 2 * length ps \<le> fuel"
  shows "\<exists>ws' ps'. bpe_loop fuel get n ws = Some ws' \<and> linked n ws' ps' \<and> toks ws' ps' = bpe_ref get (toks ws ps)"
  using assms
proof (induction fuel arbitrary: ws ps)
  case 0
  then show ?case by (auto simp: bpe_inv_def linked_def)
next
  case (Suc fuel)
  show ?case
  proof (cases "heap ws = []")
    case True
    have "mergeable get (toks ws ps) = []"
      using Suc.prems(1) True by (fastforce simp: mergeable_def filter_empty_conv bpe_inv_def covered_def toks_def)
    then have "bpe_ref get (toks ws ps) = toks ws ps" by (subst bpe_ref.simps) simp
    with True Suc.prems(1) show ?thesis by (subst bpe_loop.simps) (auto simp: bpe_inv_def)
  next
    case False
    obtain ps' where ps': "bpe_inv get n (bpe_step get n ws) ps'"
        "bpe_ref get (toks (bpe_step get n ws) ps') = bpe_ref get (toks ws ps)"
        "length (heap (bpe_step get n ws)) + 2 * length ps' < length (heap ws) + 2 * length ps"
      using bpe_step_inv [OF Suc.prems(1) False] by blast
    with Suc.IH [of "bpe_step get n ws" ps'] Suc.prems(2) False show ?thesis
      by (subst bpe_loop.simps) auto
  qed
qed

lemma bpe_collect_list:
  assumes "linked n ws ps" and "k \<le> length ps" and "length ps - k \<le> fuel" and "length out \<le> cap"
  shows "bpe_collect fuel ws (if k < length ps then int (ps ! k) else -1) cap out =
    Some (if length out + (length ps - k) \<le> cap then Inr (out @ drop k (toks ws ps)) else Inl ErrTokenBufferSmall)"
  using assms(2,3,4)
proof (induction "length ps - k" arbitrary: k fuel out)
  case 0
  then show ?case by (subst bpe_collect.simps) (simp add: toks_def)
next
  case (Suc d)
  then have k: "k < length ps" and f: "fuel = Suc (fuel - 1)" by auto
  show ?case
  proof (cases "length out = cap")
    case True
    with k show ?thesis by (subst bpe_collect.simps) simp
  next
    case False
    have nx: "nxt ws ! (ps ! k) = (if Suc k < length ps then int (ps ! Suc k) else -1)"
      using linked_facts(2) [OF assms(1) k] .
    have t: "drop k (toks ws ps) = tok ws ! (ps ! k) # drop (Suc k) (toks ws ps)"
      using k by (simp add: toks_def drop_map Cons_nth_drop_Suc [symmetric])
    have "bpe_collect fuel ws (int (ps ! k)) cap out =
        bpe_collect (fuel - 1) ws (nxt ws ! (ps ! k)) cap (out @ [tok ws ! (ps ! k)])"
      using False f by (subst bpe_collect.simps) (simp split: nat.splits)
    also have "\<dots> = Some (if length out + 1 + (length ps - Suc k) \<le> cap
        then Inr ((out @ [tok ws ! (ps ! k)]) @ drop (Suc k) (toks ws ps)) else Inl ErrTokenBufferSmall)"
      unfolding nx using Suc.hyps(1) [of "Suc k" "fuel - 1" "out @ [tok ws ! (ps ! k)]"] Suc.hyps(2) Suc.prems False k
      by simp
    finally show ?thesis using k t by (simp add: Suc_diff_Suc [symmetric] del: Suc_diff_Suc)
  qed
qed

section \<open>The merge loop computes byte-pair encoding\<close>

lemma encodePiece_ref:
  assumes "length ids < 2 ^ 32" and "length out \<le> cap"
  shows "encodePiece get cap ids out =
    Some (if length out + length (bpe_ref get ids) \<le> cap then Inr (out @ bpe_ref get ids) else Inl ErrTokenBufferSmall)"
proof (cases "ids = []")
  case True
  then have "bpe_ref get ids = []" by (subst bpe_ref.simps) (simp add: mergeable_def)
  with True assms(2) show ?thesis by (simp add: encodePiece_def)
next
  case False
  let ?n = "length ids" and ?ws = "bpe_init get ids"
  note init = bpe_init_inv [OF False assms(1), of get]
  have "length (heap ?ws) + 2 * length [0..<?n] \<le> 3 * ?n" using init(3) by simp
  then obtain ws ps where w: "bpe_loop (3 * ?n) get ?n ?ws = Some ws" "linked ?n ws ps" "toks ws ps = bpe_ref get ids"
    using bpe_loop_inv [OF init(1), of "3 * ?n"] init(2) by auto
  have ps: "0 < length ps" "ps ! 0 = 0" using w(2) by (auto simp: linked_def hd_conv_nth)
  have "length ps \<le> ?n"
  proof -
    have "set ps \<subseteq> {..<?n}" using w(2) by (auto simp: linked_def)
    then have "card (set ps) \<le> ?n" by (metis card_lessThan card_mono finite_lessThan)
    then show ?thesis using linked_distinct [OF w(2)] by (simp add: distinct_card)
  qed
  then have "bpe_collect ?n ws 0 cap out = Some (if length out + length ps \<le> cap
      then Inr (out @ toks ws ps) else Inl ErrTokenBufferSmall)"
    using bpe_collect_list [OF w(2), of 0 ?n out cap] ps assms(2) by simp
  moreover have "length (toks ws ps) = length ps" by (simp add: toks_def)
  ultimately show ?thesis using w False by (simp add: encodePiece_def)
qed


definition sample_merges :: merge_fun where
  "sample_merges l r =
     (if l = 1 \<and> r = 2 then Some \<lparr>rank = 1, token = 4\<rparr>
      else if l = 2 \<and> r = 3 then Some \<lparr>rank = 0, token = 5\<rparr>
      else if l = 1 \<and> r = 5 then Some \<lparr>rank = 2, token = 6\<rparr> else None)"


end
