(* ===== verification/Go_Text.thy ===== *)
theory Go_Text
  imports Go_Prelude
begin

text \<open>
  The parts of Go's \<^verbatim>\<open>strings\<close>, \<^verbatim>\<open>bytes\<close> and \<^verbatim>\<open>strconv\<close> packages that the components use, on
  strings as lists of bytes: splitting and joining, trimming of Unicode white space,
  ASCII case folding and decimal printing.
\<close>

section \<open>Splitting and joining\<close>

text \<open>\<open>strings.Split\<close> with a one-byte separator: always at least one field.\<close>

fun split_on :: "char \<Rightarrow> string \<Rightarrow> string list" where
  "split_on c [] = [[]]"
| "split_on c (x # xs) =
     (if x = c then [] # split_on c xs
      else (case split_on c xs of [] \<Rightarrow> [[x]] | f # fs \<Rightarrow> (x # f) # fs))"

lemma split_on_nonempty [simp]: "split_on c s \<noteq> []"
  by (induction s) (auto split: list.splits)

lemma split_on_none: "c \<notin> set f \<Longrightarrow> split_on c f = [f]"
  by (induction f) auto

lemma split_on_append: "c \<notin> set f \<Longrightarrow> split_on c (f @ c # s) = f # split_on c s"
  by (induction f) auto

section \<open>White space\<close>

text \<open>
  The code points of \<open>unicode.IsSpace\<close> in UTF-8. None of these byte sequences is a proper
  prefix or suffix of another, so trimming runes and trimming these sequences agree.
\<close>

definition go_spaces :: "string list" where
  "go_spaces = [[CHR 0x09], [CHR 0x0A], [CHR 0x0B], [CHR 0x0C], [CHR 0x0D], [CHR 0x20],
     [CHR 0xC2, CHR 0x85], [CHR 0xC2, CHR 0xA0], [CHR 0xE1, CHR 0x9A, CHR 0x80],
     [CHR 0xE2, CHR 0x80, CHR 0x80], [CHR 0xE2, CHR 0x80, CHR 0x81], [CHR 0xE2, CHR 0x80, CHR 0x82],
     [CHR 0xE2, CHR 0x80, CHR 0x83], [CHR 0xE2, CHR 0x80, CHR 0x84], [CHR 0xE2, CHR 0x80, CHR 0x85],
     [CHR 0xE2, CHR 0x80, CHR 0x86], [CHR 0xE2, CHR 0x80, CHR 0x87], [CHR 0xE2, CHR 0x80, CHR 0x88],
     [CHR 0xE2, CHR 0x80, CHR 0x89], [CHR 0xE2, CHR 0x80, CHR 0x8A], [CHR 0xE2, CHR 0x80, CHR 0xA8],
     [CHR 0xE2, CHR 0x80, CHR 0xA9], [CHR 0xE2, CHR 0x80, CHR 0xAF], [CHR 0xE2, CHR 0x81, CHR 0x9F],
     [CHR 0xE3, CHR 0x80, CHR 0x80]]"

function strip_words :: "string list \<Rightarrow> string \<Rightarrow> string" where
  "strip_words ws s =
     (case find (\<lambda>w. w \<noteq> [] \<and> take (length w) s = w) ws of
        None \<Rightarrow> s
      | Some w \<Rightarrow> strip_words ws (drop (length w) s))"
  by pat_completeness auto
termination
  by (relation "measure (\<lambda>(ws, s). length s)")
    (auto simp: find_Some_iff, metis length_greater_0_conv take_eq_Nil2 diff_less take_Nil)

declare strip_words.simps [simp del]

definition TrimLeftSpace :: "string \<Rightarrow> string" where
  "TrimLeftSpace s = strip_words go_spaces s"

definition TrimRightSpace :: "string \<Rightarrow> string" where
  "TrimRightSpace s = rev (strip_words (map rev go_spaces) (rev s))"

definition TrimSpace :: "string \<Rightarrow> string" where
  "TrimSpace s = TrimRightSpace (TrimLeftSpace s)"

text \<open>The first and last bytes that can open or close a white-space rune.\<close>

definition space_heads :: "char set" where
  "space_heads = {CHR 0x09, CHR 0x0A, CHR 0x0B, CHR 0x0C, CHR 0x0D, CHR 0x20, CHR 0xC2, CHR 0xE1, CHR 0xE2, CHR 0xE3}"

definition is_plain :: "char \<Rightarrow> bool" where
  "is_plain c \<longleftrightarrow> of_char c < (128::nat) \<and> c \<notin> {CHR 0x09, CHR 0x0A, CHR 0x0B, CHR 0x0C, CHR 0x0D, CHR 0x20}"

lemma go_spaces_ends:
  "w \<in> set go_spaces \<Longrightarrow> w \<noteq> [] \<and> \<not> is_plain (hd w) \<and> \<not> is_plain (last w)"
  unfolding go_spaces_def by (auto simp: is_plain_def)

lemma strip_words_id:
  assumes "\<And>w. w \<in> set ws \<Longrightarrow> w \<noteq> [] \<Longrightarrow> s \<noteq> [] \<Longrightarrow> hd w \<noteq> hd s"
  shows "strip_words ws s = s"
proof -
  have "find (\<lambda>w. w \<noteq> [] \<and> take (length w) s = w) ws = None"
    unfolding find_None_iff
  proof
    assume "\<exists>w. w \<in> set ws \<and> w \<noteq> [] \<and> take (length w) s = w"
    then obtain w where w: "w \<in> set ws" "w \<noteq> []" "take (length w) s = w" by blast
    then have "s \<noteq> []" by auto
    moreover have "hd w = hd s" using w(2,3) by (metis hd_take length_greater_0_conv)
    ultimately show False using assms w by blast
  qed
  then show ?thesis by (subst strip_words.simps) simp
qed

lemma TrimSpace_id:
  assumes "s \<noteq> [] \<Longrightarrow> is_plain (hd s) \<and> is_plain (last s)"
  shows "TrimSpace s = s"
proof -
  have "TrimLeftSpace s = s"
    unfolding TrimLeftSpace_def by (rule strip_words_id) (metis assms go_spaces_ends)
  moreover have "TrimRightSpace s = s"
  proof -
    have "strip_words (map rev go_spaces) (rev s) = rev s"
    proof (rule strip_words_id)
      fix w assume w: "w \<in> set (map rev go_spaces)" "w \<noteq> []" "rev s \<noteq> []"
      then obtain v where v: "v \<in> set go_spaces" "w = rev v" by auto
      then have "\<not> is_plain (hd w)" using go_spaces_ends by (simp add: hd_rev)
      moreover have "is_plain (hd (rev s))" using assms w(3) by (simp add: hd_rev)
      ultimately show "hd w \<noteq> hd (rev s)" by metis
    qed
    then show ?thesis by (simp add: TrimRightSpace_def)
  qed
  ultimately show ?thesis by (simp add: TrimSpace_def)
qed

lemma TrimSpace_Nil [simp]: "TrimSpace [] = []"
  by (rule TrimSpace_id) simp

section \<open>Case folding and decimal numbers\<close>

definition lower_byte :: "char \<Rightarrow> char" where
  "lower_byte c = (let n = of_char c :: nat in if 65 \<le> n \<and> n \<le> 90 then char_of (n + 32) else c)"

definition ascii_lower :: "string \<Rightarrow> string" where
  "ascii_lower s = map lower_byte s"

lemma lower_byte_idem [simp]: "lower_byte (lower_byte c) = lower_byte c"
  by (auto simp: lower_byte_def Let_def of_char_of)

lemma ascii_lower_idem [simp]: "ascii_lower (ascii_lower s) = ascii_lower s"
  by (simp add: ascii_lower_def)

lemma length_ascii_lower [simp]: "length (ascii_lower s) = length s"
  by (simp add: ascii_lower_def)

text \<open>\<open>strconv.AppendInt(dst, v, 10)\<close> on non-negative values.\<close>

definition digit_char :: "nat \<Rightarrow> char" where
  "digit_char d = char_of (48 + d)"

fun show_nat :: "nat \<Rightarrow> string" where
  "show_nat n = (if n < 10 then [digit_char n] else show_nat (n div 10) @ [digit_char (n mod 10)])"

declare show_nat.simps [simp del]

definition show_int :: "int \<Rightarrow> string" where
  "show_int n = (if n < 0 then CHR ''-'' # show_nat (nat (- n)) else show_nat (nat n))"

fun read_nat_acc :: "nat \<Rightarrow> string \<Rightarrow> nat" where
  "read_nat_acc acc [] = acc"
| "read_nat_acc acc (c # cs) = read_nat_acc (acc * 10 + (of_char c - 48)) cs"

lemma of_digit_char: "d < 10 \<Longrightarrow> of_char (digit_char d) = 48 + d"
  by (simp add: digit_char_def of_char_of)

lemma read_nat_append: "read_nat_acc acc (s @ [c]) = read_nat_acc acc s * 10 + (of_char c - 48)"
  by (induction s arbitrary: acc) auto

lemma read_show_nat: "read_nat_acc 0 (show_nat n) = n"
proof (induction n rule: show_nat.induct)
  case (1 n)
  then show ?case
    by (subst show_nat.simps) (auto simp: read_nat_append of_digit_char)
qed

lemma show_nat_digits: "\<forall>c \<in> set (show_nat n). \<exists>d<10. c = digit_char d"
proof (induction n rule: show_nat.induct)
  case (1 n)
  have "\<exists>d<10. digit_char (n mod 10) = digit_char d" by (rule exI [of _ "n mod 10"]) simp
  with 1 show ?case by (subst show_nat.simps) auto
qed

lemma show_nat_inj: "show_nat m = show_nat n \<Longrightarrow> m = n"
  by (metis read_show_nat)

end
