(* ===== verification/Added_Trie.thy ===== *)
theory Added_Trie
  imports Go_Text
begin

text \<open>
  The byte trie of added tokens (\<open>addAddedToken\<close>, \<open>matchAdded\<close>, \<open>AddedID\<close> of
  \<^verbatim>\<open>src/internal/qwen3lm/tokenizer.go\<close>): nodes in one slice, a child is a node index plus one,
  a negative token tid marks a node where no token ends. The locale \<open>word_table\<close> says what the
  tokenizer relies on, a finite map from token texts to ids with a longest-match query.
\<close>

section \<open>Model\<close>

record qwenAddedNode =
  child :: "char \<Rightarrow> nat"
  tokenID :: int

datatype added_error = TooManyNodes | DuplicateContent string | InvalidAdded

type_synonym trie = "qwenAddedNode list"

definition empty_node :: qwenAddedNode where
  "empty_node = \<lparr>child = (\<lambda>_. 0), tokenID = -1\<rparr>"

text \<open>The walk of \<open>addAddedToken\<close> along the bytes of the content, growing the trie.\<close>

fun add_path :: "trie \<Rightarrow> nat \<Rightarrow> string \<Rightarrow> added_error + trie \<times> nat" where
  "add_path t node [] = Inr (t, node)"
| "add_path t node (b # bs) =
     (let nx = child (t ! node) b in
      if nx = 0 then
        if 4294967295 \<le> length t then Inl TooManyNodes
        else let t1 = t @ [empty_node]; nx1 = length t1;
                 t2 = t1[node := (t1 ! node)\<lparr>child := (child (t1 ! node))(b := nx1)\<rparr>]
             in add_path t2 (nx1 - 1) bs
      else add_path t (nx - 1) bs)"

definition addAddedToken :: "trie \<times> char set \<Rightarrow> string \<Rightarrow> int \<Rightarrow> added_error + trie \<times> char set" where
  "addAddedToken ts content tid =
     (case add_path (fst ts) 0 content of
        Inl e \<Rightarrow> Inl e
      | Inr (t, node) \<Rightarrow>
          if 0 \<le> tokenID (t ! node) \<and> tokenID (t ! node) \<noteq> tid then Inl (DuplicateContent content)
          else Inr (t[node := (t ! node)\<lparr>tokenID := tid\<rparr>], insert (content ! 0) (snd ts)))"

text \<open>The loop of \<open>matchAdded\<close>: \<open>i\<close> is the position, \<open>(tid, e)\<close> the best match so far.\<close>

fun match_from :: "trie \<Rightarrow> nat \<Rightarrow> string \<Rightarrow> nat \<Rightarrow> int \<times> nat \<Rightarrow> int \<times> nat" where
  "match_from t node [] i best = best"
| "match_from t node (b # bs) i best =
     (let nx = child (t ! node) b in
      if nx = 0 then best
      else let node = nx - 1; cand = tokenID (t ! node)
           in match_from t node bs (i + 1) (if 0 \<le> cand then (cand, i + 1) else best))"

definition matchAdded :: "trie \<Rightarrow> string \<Rightarrow> nat \<Rightarrow> int \<times> nat" where
  "matchAdded t text start = match_from t 0 (drop start text) start (-1, start)"

definition AddedID :: "trie \<Rightarrow> string \<Rightarrow> int \<times> bool" where
  "AddedID t text =
     (case matchAdded t text 0 of
        (tid, e) \<Rightarrow> if tid < 0 \<or> e \<noteq> length text then (0, False) else (tid, True))"

section \<open>The words of a trie\<close>

fun reach :: "trie \<Rightarrow> nat \<Rightarrow> string \<Rightarrow> nat option" where
  "reach t node [] = Some node"
| "reach t node (b # bs) =
     (let nx = child (t ! node) b in if nx = 0 then None else reach t (nx - 1) bs)"

definition token_at :: "trie \<Rightarrow> nat \<Rightarrow> string \<Rightarrow> int option" where
  "token_at t node w =
     (case reach t node w of
        None \<Rightarrow> None
      | Some n \<Rightarrow> if 0 \<le> tokenID (t ! n) then Some (tokenID (t ! n)) else None)"

definition trie_words :: "trie \<Rightarrow> string \<Rightarrow> int option" where
  "trie_words t w = token_at t 0 w"

lemma token_at_Nil: "token_at t n [] = (if 0 \<le> tokenID (t ! n) then Some (tokenID (t ! n)) else None)"
  by (simp add: token_at_def)

lemma token_at_Cons: "token_at t n (b # w) = (if child (t ! n) b = 0 then None else token_at t (child (t ! n) b - 1) w)"
  by (simp add: token_at_def Let_def)

text \<open>Children lie behind their node and no node has two parents.\<close>

definition trie_ok :: "trie \<Rightarrow> bool" where
  "trie_ok t \<longleftrightarrow> t \<noteq> []
     \<and> (\<forall>i < length t. \<forall>b. child (t ! i) b \<noteq> 0 \<longrightarrow> Suc i < child (t ! i) b \<and> child (t ! i) b \<le> length t)
     \<and> (\<forall>i j b c. i < length t \<longrightarrow> j < length t \<longrightarrow> child (t ! i) b \<noteq> 0 \<longrightarrow>
          child (t ! i) b = child (t ! j) c \<longrightarrow> i = j \<and> b = c)"

lemma reach_append: "reach t n (u @ v) = Option.bind (reach t n u) (\<lambda>m. reach t m v)"
  by (induction u arbitrary: n) (auto simp: Let_def)

lemma reach_less: "trie_ok t \<Longrightarrow> n < length t \<Longrightarrow> reach t n w = Some m \<Longrightarrow> m < length t \<and> n + length w \<le> m"
proof (induction w arbitrary: n)
  case (Cons b w)
  let ?c = "child (t ! n) b"
  from Cons.prems(3) have c: "?c \<noteq> 0" "reach t (?c - 1) w = Some m" by (auto simp: Let_def split: if_splits)
  with Cons.prems(1,2) have "Suc n < ?c" "?c \<le> length t" unfolding trie_ok_def by blast+
  moreover from this have "m < length t \<and> (?c - 1) + length w \<le> m" using Cons.IH [OF Cons.prems(1) _ c(2)] by simp
  ultimately show ?case by simp linarith
qed simp

lemma reach_inj:
  assumes "trie_ok t"
  shows "reach t 0 u = Some m \<Longrightarrow> reach t 0 v = Some m \<Longrightarrow> u = v"
proof (induction u arbitrary: v m rule: rev_induct)
  case Nil
  then have "m = 0" by simp
  with Nil(2) reach_less [OF assms, of 0 v m] assms show ?case by (auto simp: trie_ok_def)
next
  case (snoc b u)
  then obtain p where p: "reach t 0 u = Some p" "child (t ! p) b \<noteq> 0" "m = child (t ! p) b - 1"
    by (auto simp: reach_append Let_def bind_eq_Some_conv split: if_splits)
  have t0: "0 < length t" using assms by (simp add: trie_ok_def)
  have pl: "p < length t" using reach_less [OF assms t0 p(1)] by simp
  show ?case
  proof (cases v rule: rev_cases)
    case Nil
    with snoc.prems(2) have "m = 0" by simp
    moreover have "Suc p < child (t ! p) b" using assms p(2) pl unfolding trie_ok_def by blast
    ultimately show ?thesis using p(3) by simp
  next
    case (snoc v' c)
    with \<open>reach t 0 v = Some m\<close> obtain q where q: "reach t 0 v' = Some q" "child (t ! q) c \<noteq> 0" "m = child (t ! q) c - 1"
      by (auto simp: reach_append Let_def bind_eq_Some_conv split: if_splits)
    have "q < length t" using reach_less [OF assms t0 q(1)] by simp
    moreover have "child (t ! p) b = child (t ! q) c" using p(2,3) q(2,3) by simp
    ultimately have "p = q" "b = c" using assms p(2) pl unfolding trie_ok_def by blast+
    moreover have "u = v'" using snoc.IH [OF p(1)] q(1) \<open>p = q\<close> by simp
    ultimately show ?thesis using snoc by simp
  qed
qed

section \<open>Longest match\<close>

text \<open>Where the walk stops and the best tid seen, over the words along the way.\<close>

definition longest :: "(nat \<Rightarrow> int option) \<Rightarrow> nat \<Rightarrow> nat \<Rightarrow> int \<Rightarrow> bool" where
  "longest f len k tid \<longleftrightarrow> 0 < k \<and> k \<le> len \<and> f k = Some tid \<and> (\<forall>j. k < j \<longrightarrow> j \<le> len \<longrightarrow> f j = None)"

lemma longest_shift:
  assumes "longest (\<lambda>j. f (Suc j)) len k tid"
  shows "longest f (Suc len) (Suc k) tid"
  using assms unfolding longest_def by (auto elim: lessE)

lemma match_from_longest:
  assumes "match_from t node bs i best = (tid, e)"
  shows "(tid, e) = best \<and> (\<forall>k. 0 < k \<longrightarrow> k \<le> length bs \<longrightarrow> token_at t node (take k bs) = None)
    \<or> (\<exists>k. e = i + k \<and> longest (\<lambda>k. token_at t node (take k bs)) (length bs) k tid)"
  using assms
proof (induction bs arbitrary: node i best)
  case (Cons b bs)
  let ?c = "child (t ! node) b"
  let ?f = "\<lambda>j. token_at t node (take j (b # bs))"
  show ?case
  proof (cases "?c = 0")
    case True
    then have "?f k = None" if "0 < k" for k using that by (cases k) (auto simp: token_at_Cons)
    with True Cons.prems show ?thesis by simp
  next
    case False
    let ?n = "?c - 1" and ?tid = "tokenID (t ! (?c - 1))"
    let ?best = "if 0 \<le> ?tid then (?tid, i + 1) else best"
    have f: "?f (Suc j) = token_at t ?n (take j bs)" for j using False by (simp add: token_at_Cons)
    have m: "match_from t ?n bs (i + 1) ?best = (tid, e)"
      using False Cons.prems by (auto simp: Let_def split: if_splits)
    from Cons.IH [OF m] show ?thesis
    proof
      assume a: "(tid, e) = ?best \<and> (\<forall>k. 0 < k \<longrightarrow> k \<le> length bs \<longrightarrow> token_at t ?n (take k bs) = None)"
      then have later: "?f j = None" if "1 < j" "j \<le> length (b # bs)" for j
        using that f [of "j - 1"] by simp
      have one: "?f 1 = (if 0 \<le> ?tid then Some ?tid else None)" using f [of 0] by (simp add: token_at_Nil)
      show ?thesis
      proof (cases "0 \<le> ?tid")
        case True
        with a one later have "e = i + 1 \<and> longest ?f (length (b # bs)) 1 tid" by (simp add: longest_def)
        then show ?thesis by blast
      next
        case neg: False
        have "?f k = None" if "0 < k" "k \<le> length (b # bs)" for k
          using later [of k] one neg that by (cases "k = 1") auto
        with a neg show ?thesis by simp
      qed
    next
      assume "\<exists>k. e = i + 1 + k \<and> longest (\<lambda>k. token_at t ?n (take k bs)) (length bs) k tid"
      then obtain k where "e = i + Suc k" "longest (\<lambda>j. ?f (Suc j)) (length bs) k tid" using f by auto
      with longest_shift [of ?f] show ?thesis by (metis length_Cons)
    qed
  qed
qed simp

lemma matchAdded_spec:
  assumes "matchAdded t text start = (tid, e)"
  shows "tid = -1 \<and> e = start \<and> (\<forall>k. 0 < k \<longrightarrow> k \<le> length text - start \<longrightarrow> trie_words t (take k (drop start text)) = None)
    \<or> (\<exists>k. e = start + k \<and> longest (\<lambda>k. trie_words t (take k (drop start text))) (length text - start) k tid)"
  using match_from_longest [OF assms [unfolded matchAdded_def]] by (simp add: trie_words_def)

section \<open>Adding a token\<close>

locale word_table =
  fixes words :: "'t \<Rightarrow> string \<Rightarrow> int option"
    and add :: "'t \<Rightarrow> string \<Rightarrow> int \<Rightarrow> 'e + 't"
    and invar :: "'t \<Rightarrow> bool"
  assumes add_invar: "invar t \<Longrightarrow> w \<noteq> [] \<Longrightarrow> 0 \<le> i \<Longrightarrow> add t w i = Inr t' \<Longrightarrow> invar t'"
    and add_words: "invar t \<Longrightarrow> w \<noteq> [] \<Longrightarrow> 0 \<le> i \<Longrightarrow> add t w i = Inr t' \<Longrightarrow> words t' = (words t)(w \<mapsto> i)"
    and add_same: "invar t \<Longrightarrow> w \<noteq> [] \<Longrightarrow> 0 \<le> i \<Longrightarrow> add t w i = Inr t' \<Longrightarrow> words t w = None \<or> words t w = Some i"
begin

fun add_list :: "'t \<Rightarrow> (string \<times> int) list \<Rightarrow> 'e + 't" where
  "add_list t [] = Inr t"
| "add_list t ((w, i) # ws) = (case add t w i of Inl e \<Rightarrow> Inl e | Inr t' \<Rightarrow> add_list t' ws)"

text \<open>A table filled from a list holds exactly the words of the list, each with one id.\<close>

lemma add_list_words:
  assumes "invar t" and "\<forall>(w, i) \<in> set ws. w \<noteq> [] \<and> 0 \<le> i" and "add_list t ws = Inr t'"
  shows "invar t' \<and> (\<forall>w i. words t' w = Some i \<longleftrightarrow> words t w = Some i \<or> (w, i) \<in> set ws)"
  using assms
proof (induction ws arbitrary: t)
  case (Cons wi ws)
  obtain w i where wi: "wi = (w, i)" by (cases wi)
  with Cons.prems obtain u where u: "add t w i = Inr u" "add_list u ws = Inr t'" by (auto split: sum.splits)
  have c: "w \<noteq> []" "0 \<le> i" using Cons.prems(2) wi by auto
  note facts = add_invar [OF Cons.prems(1) c u(1)] add_words [OF Cons.prems(1) c u(1)] add_same [OF Cons.prems(1) c u(1)]
  have "invar t' \<and> (\<forall>v j. words t' v = Some j \<longleftrightarrow> words u v = Some j \<or> (v, j) \<in> set ws)"
    using Cons.IH [OF facts(1)] Cons.prems(2) u(2) by simp
  then show ?case using facts(2,3) wi by auto
qed simp

end

text \<open>One new node below \<open>node\<close>.\<close>

definition grow :: "trie \<Rightarrow> nat \<Rightarrow> char \<Rightarrow> trie" where
  "grow t node b =
     (let t1 = t @ [empty_node]
      in t1[node := (t1 ! node)\<lparr>child := (child (t1 ! node))(b := length t1)\<rparr>])"

lemma grow_nodes:
  assumes "node < length t"
  shows "length (grow t node b) = Suc (length t)"
    and "i < length t \<Longrightarrow> child (grow t node b ! i) c = (if i = node \<and> c = b then Suc (length t) else child (t ! i) c)"
    and "i < length t \<Longrightarrow> tokenID (grow t node b ! i) = tokenID (t ! i)"
    and "grow t node b ! length t = empty_node"
  using assms by (auto simp: grow_def Let_def nth_append nth_list_update)

lemma grow_ok:
  assumes "trie_ok t" and "node < length t" and "child (t ! node) b = 0"
  shows "trie_ok (grow t node b)"
proof -
  note g = grow_nodes [OF assms(2)]
  have kids: "child (grow t node b ! i) c \<noteq> 0 \<longleftrightarrow> i < length t \<and> (i = node \<and> c = b \<or> child (t ! i) c \<noteq> 0)"
    if "i < Suc (length t)" for i c
    using that g(2) [of i] g(4) by (cases "i = length t") (auto simp: empty_node_def)
  have bound: "Suc i < child (t ! i) c" "child (t ! i) c \<le> length t" if "i < length t" "child (t ! i) c \<noteq> 0" for i c
    using assms(1) that unfolding trie_ok_def by blast+
  show ?thesis unfolding trie_ok_def
  proof (intro conjI allI impI)
    show "grow t node b \<noteq> []" using g(1) [of b] by auto
    fix i c assume i: "i < length (grow t node b)" "child (grow t node b ! i) c \<noteq> 0"
    then have il: "i < length t" "i = node \<and> c = b \<or> child (t ! i) c \<noteq> 0" using kids g(1) by auto
    then show "Suc i < child (grow t node b ! i) c" "child (grow t node b ! i) c \<le> length (grow t node b)"
      using bound [of i c] g(1,2) by (auto split: if_splits)
  next
    fix i j c d assume a: "i < length (grow t node b)" "j < length (grow t node b)"
      "child (grow t node b ! i) c \<noteq> 0" "child (grow t node b ! i) c = child (grow t node b ! j) d"
    then have il: "i < length t" "j < length t" using kids g(1) by (metis)+
    have "child (t ! i) c = child (t ! j) d \<and> child (t ! i) c \<noteq> 0 \<or> i = node \<and> c = b \<and> j = node \<and> d = b"
    proof -
      have e: "(if i = node \<and> c = b then Suc (length t) else child (t ! i) c)
          = (if j = node \<and> d = b then Suc (length t) else child (t ! j) d)"
        and nz: "(if i = node \<and> c = b then Suc (length t) else child (t ! i) c) \<noteq> 0"
        using a(3,4) g(2) [OF il(1), of b c] g(2) [OF il(2), of b d] by simp_all
      have "child (t ! i) c \<noteq> Suc (length t)" "child (t ! j) d \<noteq> Suc (length t)"
        using bound(2) [OF il(1), of c] bound(2) [OF il(2), of d] by (cases "child (t ! i) c = 0"; cases "child (t ! j) d = 0"; simp)+
      with e nz show ?thesis by (simp split: if_splits)
    qed
    then show "i = j" "c = d" using assms(1) il unfolding trie_ok_def by blast+
  qed
qed

lemma reach_grow:
  assumes "trie_ok t" and "node < length t" and "child (t ! node) b = 0" and "i < length t"
  shows "reach (grow t node b) i v = reach t i v \<or>
    reach t i v = None \<and> reach (grow t node b) i v = Some (length t)"
  using assms(4)
proof (induction v arbitrary: i)
  case (Cons c v)
  note g = grow_nodes [OF assms(2)]
  show ?case
  proof (cases "i = node \<and> c = b")
    case True
    then show ?thesis using g(2) [OF Cons.prems] g(4) assms(3) by (cases v) (auto simp: Let_def empty_node_def)
  next
    case False
    then have c: "child (grow t node b ! i) c = child (t ! i) c" using g(2) [OF Cons.prems, of b c] by auto
    show ?thesis
    proof (cases "child (t ! i) c = 0")
      case nz: False
      then have "child (t ! i) c - 1 < length t" using assms(1) Cons.prems unfolding trie_ok_def by fastforce
      with Cons.IH nz c show ?thesis by (auto simp: Let_def)
    qed (simp add: c Let_def)
  qed
qed simp

lemma grow_words:
  assumes "trie_ok t" and "node < length t" and "child (t ! node) b = 0"
  shows "trie_words (grow t node b) = trie_words t"
proof
  fix v
  have t0: "0 < length t" using assms(1) by (simp add: trie_ok_def)
  from reach_grow [OF assms t0, of v] show "trie_words (grow t node b) v = trie_words t v"
  proof
    assume e: "reach (grow t node b) 0 v = reach t 0 v"
    show ?thesis
    proof (cases "reach t 0 v")
      case (Some m)
      then have "m < length t" using reach_less [OF assms(1) t0] by blast
      with e Some grow_nodes(3) [OF assms(2)] show ?thesis by (simp add: trie_words_def token_at_def)
    qed (simp add: trie_words_def token_at_def e)
  qed (simp add: trie_words_def token_at_def grow_nodes(4) [OF assms(2)] empty_node_def)
qed

lemma add_path_ok:
  assumes "trie_ok t" and "reach t 0 u = Some node" and "add_path t node w = Inr (t', m)"
  shows "trie_ok t' \<and> reach t' 0 (u @ w) = Some m \<and> trie_words t' = trie_words t"
  using assms
proof (induction w arbitrary: t u node)
  case (Cons b w)
  have t0: "0 < length t" using Cons.prems(1) by (simp add: trie_ok_def)
  have nl: "node < length t" using reach_less [OF Cons.prems(1) t0 Cons.prems(2)] by simp
  show ?case
  proof (cases "child (t ! node) b = 0")
    case True
    let ?g = "grow t node b"
    from True Cons.prems(3) have p: "add_path ?g (length t) w = Inr (t', m)"
      by (auto simp: Let_def grow_def split: if_splits)
    have ok: "trie_ok ?g" using grow_ok Cons.prems(1) nl True by blast
    have "reach ?g 0 u = Some node" using reach_grow [OF Cons.prems(1) nl True t0, of u] Cons.prems(2) by simp
    then have r: "reach ?g 0 (u @ [b]) = Some (length t)"
      using grow_nodes(2) [OF nl nl] by (simp add: reach_append Let_def)
    from Cons.IH [OF ok r p] grow_words [OF Cons.prems(1) nl True] show ?thesis by simp
  next
    case False
    then have p: "add_path t (child (t ! node) b - 1) w = Inr (t', m)" using Cons.prems(3) by (simp add: Let_def)
    have "reach t 0 (u @ [b]) = Some (child (t ! node) b - 1)"
      using Cons.prems(2) False by (simp add: reach_append Let_def)
    from Cons.IH [OF Cons.prems(1) this p] show ?thesis by simp
  qed
qed simp

definition added_ok :: "trie \<times> char set \<Rightarrow> bool" where
  "added_ok ts \<longleftrightarrow> trie_ok (fst ts) \<and> (\<forall>w. trie_words (fst ts) w \<noteq> None \<longrightarrow> w \<noteq> [] \<and> w ! 0 \<in> snd ts)"

lemma set_tokenID:
  assumes "trie_ok t" and "reach t 0 w = Some m" and "0 \<le> i"
  shows "trie_ok (t[m := (t ! m)\<lparr>tokenID := i\<rparr>])"
    and "trie_words (t[m := (t ! m)\<lparr>tokenID := i\<rparr>]) = (trie_words t)(w \<mapsto> i)"
proof -
  let ?t = "t[m := (t ! m)\<lparr>tokenID := i\<rparr>]"
  have t0: "0 < length t" using assms(1) by (simp add: trie_ok_def)
  have ml: "m < length t" using reach_less [OF assms(1) t0 assms(2)] by simp
  have ch: "child (?t ! j) c = child (t ! j) c" for j c
    by (cases "j = m") (simp_all add: ml)
  show "trie_ok ?t" using assms(1) unfolding trie_ok_def ch by simp
  have r: "reach ?t j v = reach t j v" for j v by (induction v arbitrary: j) (auto simp: Let_def ch)
  show "trie_words ?t = (trie_words t)(w \<mapsto> i)"
  proof
    fix v show "trie_words ?t v = ((trie_words t)(w \<mapsto> i)) v"
    proof (cases "v = w")
      case True
      then show ?thesis using assms(2,3) ml by (simp add: trie_words_def token_at_def r)
    next
      case False
      then have "reach t 0 v \<noteq> Some m" using reach_inj [OF assms(1)] assms(2) by blast
      with False show ?thesis by (auto simp: trie_words_def token_at_def r split: option.splits)
    qed
  qed
qed

lemma addAddedToken_ok:
  assumes "added_ok ts" and "w \<noteq> []" and "0 \<le> i" and "addAddedToken ts w i = Inr ts'"
  shows "added_ok ts' \<and> trie_words (fst ts') = (trie_words (fst ts))(w \<mapsto> i)
    \<and> (trie_words (fst ts) w = None \<or> trie_words (fst ts) w = Some i)"
proof -
  obtain t m where p: "add_path (fst ts) 0 w = Inr (t, m)" and dup: "tokenID (t ! m) < 0 \<or> tokenID (t ! m) = i"
      and ts': "ts' = (t[m := (t ! m)\<lparr>tokenID := i\<rparr>], insert (w ! 0) (snd ts))"
    using assms(4) by (auto simp: addAddedToken_def not_le split: sum.splits if_splits)
  have ok: "trie_ok (fst ts)" using assms(1) by (simp add: added_ok_def)
  from add_path_ok [OF ok _ p, of "[]"] have t: "trie_ok t" "reach t 0 w = Some m" "trie_words t = trie_words (fst ts)"
    by simp_all
  note s = set_tokenID [OF t(1,2) assms(3)]
  have "trie_words t w = None \<or> trie_words t w = Some i" using t(2) dup by (auto simp: trie_words_def token_at_def)
  with s t(3) assms(1,2) show ?thesis unfolding ts' added_ok_def by auto
qed

interpretation added: word_table "\<lambda>ts. trie_words (fst ts)" addAddedToken added_ok
  by unfold_locales (use addAddedToken_ok in blast)+

lemma empty_trie_ok: "added_ok ([empty_node], {})" "trie_words [empty_node] = Map.empty"
proof -
  have w: "trie_words [empty_node] v = None" for v by (cases v) (auto simp: trie_words_def token_at_def empty_node_def Let_def)
  then show "trie_words [empty_node] = Map.empty" by blast
  show "added_ok ([empty_node], {})" by (simp add: added_ok_def trie_ok_def empty_node_def w [unfolded empty_node_def])
qed

end
