(* ===== verification/Go_Utf8.thy ===== *)
theory Go_Utf8
  imports Go_Text
begin

text \<open>
  Go's \<^verbatim>\<open>unicode/utf8\<close> package on strings as byte lists: decoding of the first and of the
  last rune, with the package's treatment of ill-formed input (rune \<open>RuneError\<close>, width 1),
  and the test for well-formed text. Used by the tokenizers, the JSON writer and the
  subtitle and transcript code.
\<close>

abbreviation bv :: "char \<Rightarrow> nat" where
  "bv c \<equiv> of_char c"

definition RuneError :: nat where "RuneError = 65533"
definition RuneSelf :: nat where "RuneSelf = 128"

text \<open>
  The lead-byte table: the width of the sequence a byte opens, and the range of its second
  byte; \<open>None\<close> for a byte that opens none.
\<close>

definition lead_info :: "nat \<Rightarrow> (nat \<times> nat \<times> nat) option" where
  "lead_info b =
     (if 0xC2 \<le> b \<and> b \<le> 0xDF then Some (2, 0x80, 0xBF)
      else if b = 0xE0 then Some (3, 0xA0, 0xBF)
      else if b = 0xED then Some (3, 0x80, 0x9F)
      else if 0xE1 \<le> b \<and> b \<le> 0xEF then Some (3, 0x80, 0xBF)
      else if b = 0xF0 then Some (4, 0x90, 0xBF)
      else if b = 0xF4 then Some (4, 0x80, 0x8F)
      else if 0xF1 \<le> b \<and> b \<le> 0xF3 then Some (4, 0x80, 0xBF)
      else None)"

definition is_cont :: "char \<Rightarrow> bool" where
  "is_cont c \<longleftrightarrow> 0x80 \<le> bv c \<and> bv c \<le> 0xBF"

text \<open>\<open>DecodeRune\<close>: the rune at the start of the text and its width in bytes.\<close>

definition DecodeRune :: "string \<Rightarrow> nat \<times> nat" where
  "DecodeRune s =
     (case s of
        [] \<Rightarrow> (RuneError, 0)
      | c0 # s1 \<Rightarrow>
          if bv c0 < RuneSelf then (bv c0, 1)
          else (case lead_info (bv c0) of
                  None \<Rightarrow> (RuneError, 1)
                | Some (width, lo, hi) \<Rightarrow>
                    (case s1 of
                       [] \<Rightarrow> (RuneError, 1)
                     | c1 # s2 \<Rightarrow>
                         if bv c1 < lo \<or> hi < bv c1 \<or> length s < width then (RuneError, 1)
                         else if width = 2 then (bv c0 mod 32 * 64 + bv c1 mod 64, 2)
                         else (case s2 of
                                 [] \<Rightarrow> (RuneError, 1)
                               | c2 # s3 \<Rightarrow>
                                   if \<not> is_cont c2 then (RuneError, 1)
                                   else if width = 3 then (bv c0 mod 16 * 4096 + bv c1 mod 64 * 64 + bv c2 mod 64, 3)
                                   else (case s3 of
                                           [] \<Rightarrow> (RuneError, 1)
                                         | c3 # _ \<Rightarrow>
                                             if \<not> is_cont c3 then (RuneError, 1)
                                             else (bv c0 mod 8 * 262144 + bv c1 mod 64 * 4096
                                                   + bv c2 mod 64 * 64 + bv c3 mod 64, 4))))))"

text \<open>\<open>DecodeLastRune\<close>: look back over at most three bytes for the byte that opens the rune.\<close>

definition RuneStart :: "char \<Rightarrow> bool" where
  "RuneStart c \<longleftrightarrow> \<not> is_cont c"

definition last_rune_start :: "string \<Rightarrow> nat" where
  "last_rune_start s =
     (let n = length s; lim = n - 4;
          cands = filter (\<lambda>i. RuneStart (s ! i)) (rev [lim..<n - 1])
      in case cands of i # _ \<Rightarrow> i | [] \<Rightarrow> lim - (if 4 \<le> n then 1 else 0))"

definition DecodeLastRune :: "string \<Rightarrow> nat \<times> nat" where
  "DecodeLastRune s =
     (if s = [] then (RuneError, 0)
      else if bv (last s) < RuneSelf then (bv (last s), 1)
      else let start = last_rune_start s; (r, width) = DecodeRune (drop start s)
           in if start + width \<noteq> length s then (RuneError, 1) else (r, width))"

section \<open>Widths\<close>

lemma DecodeRune_size_pos: "s \<noteq> [] \<Longrightarrow> 1 \<le> snd (DecodeRune s)"
  by (auto simp: DecodeRune_def lead_info_def split: list.splits option.splits)

lemma DecodeRune_size_le: "snd (DecodeRune s) \<le> length s"
  by (auto simp: DecodeRune_def lead_info_def split: list.splits option.splits)

lemma DecodeRune_size_le4: "snd (DecodeRune s) \<le> 4"
  by (auto simp: DecodeRune_def lead_info_def split: list.splits option.splits)

lemma DecodeLastRune_size_le: "snd (DecodeLastRune s) \<le> length s"
  using DecodeRune_size_le [of "drop (last_rune_start s) s"]
  by (cases s) (auto simp: DecodeLastRune_def Let_def split: prod.splits if_splits)

lemma last_rune_start_less: "s \<noteq> [] \<Longrightarrow> last_rune_start s < length s"
proof -
  assume "s \<noteq> []"
  then have "0 < length s" by simp
  moreover have "i < length s" if "filter P (rev [a..<length s - 1]) = i # is" for P a i "is"
  proof -
    from that have "i \<in> set (filter P (rev [a..<length s - 1]))" by simp
    then show ?thesis by auto
  qed
  ultimately show ?thesis by (auto simp: last_rune_start_def Let_def split: list.splits)
qed

lemma DecodeLastRune_size_pos: "s \<noteq> [] \<Longrightarrow> 1 \<le> snd (DecodeLastRune s)"
  using DecodeRune_size_pos [of "drop (last_rune_start s) s"] last_rune_start_less [of s]
  by (auto simp: DecodeLastRune_def Let_def split: prod.splits if_splits)

text \<open>An ill-formed start is exactly a decode to \<open>RuneError\<close> of width one.\<close>

definition decode_bad :: "string \<Rightarrow> bool" where
  "decode_bad s \<longleftrightarrow> DecodeRune s = (RuneError, 1)"

lemma lead_info_width: "lead_info b = Some (w, lo, hi) \<Longrightarrow> w = 2 \<or> w = 3 \<or> w = 4"
  by (auto simp: lead_info_def split: if_splits)

lemma DecodeRune_good:
  assumes "\<not> decode_bad s" and "s \<noteq> []"
  obtains (w1) c r where "s = c # r" "bv c < RuneSelf"
  | (w2) c0 c1 r lo hi where "s = c0 # c1 # r" "\<not> bv c0 < RuneSelf" "lead_info (bv c0) = Some (2, lo, hi)"
      "lo \<le> bv c1" "bv c1 \<le> hi"
  | (w3) c0 c1 c2 r lo hi where "s = c0 # c1 # c2 # r" "\<not> bv c0 < RuneSelf"
      "lead_info (bv c0) = Some (3, lo, hi)" "lo \<le> bv c1" "bv c1 \<le> hi" "is_cont c2"
  | (w4) c0 c1 c2 c3 r lo hi where "s = c0 # c1 # c2 # c3 # r" "\<not> bv c0 < RuneSelf"
      "lead_info (bv c0) = Some (4, lo, hi)" "lo \<le> bv c1" "bv c1 \<le> hi" "is_cont c2" "is_cont c3"
proof -
  from assms(2) obtain c0 s1 where s: "s = c0 # s1" by (cases s) auto
  show thesis
  proof (cases "bv c0 < RuneSelf")
    case True
    with s w1 show ?thesis by blast
  next
    case False
    with assms(1) s obtain w lo hi where l: "lead_info (bv c0) = Some (w, lo, hi)"
      by (auto simp: decode_bad_def DecodeRune_def split: option.splits)
    with assms(1) s False obtain c1 s2 where s1: "s1 = c1 # s2" "lo \<le> bv c1" "bv c1 \<le> hi" "w \<le> length s"
      by (auto simp: decode_bad_def DecodeRune_def not_less split: list.splits if_splits)
    from lead_info_width [OF l] consider "w = 2" | "w = 3" | "w = 4" by blast
    then show ?thesis
    proof cases
      case 1
      with w2 s s1 False l show ?thesis by blast
    next
      case 2
      with assms(1) s s1 False l obtain c2 s3 where "s2 = c2 # s3" "is_cont c2"
        by (auto simp: decode_bad_def DecodeRune_def not_less split: list.splits if_splits)
      with 2 w3 s s1 False l show ?thesis by blast
    next
      case 3
      with assms(1) s s1 False l obtain c2 c3 s4 where "s2 = c2 # c3 # s4" "is_cont c2" "is_cont c3"
        by (auto simp: decode_bad_def DecodeRune_def not_less split: list.splits if_splits)
      with 3 w4 s s1 False l show ?thesis by blast
    qed
  qed
qed

lemma DecodeRune_prefix:
  assumes "\<not> decode_bad s" and "s \<noteq> []"
  shows "DecodeRune (take (snd (DecodeRune s)) s @ t) = DecodeRune s"
  using assms by (cases rule: DecodeRune_good) (simp_all add: DecodeRune_def)

lemma DecodeRune_append:
  assumes "\<not> decode_bad s" and "s \<noteq> []"
  shows "DecodeRune (s @ t) = DecodeRune s"
  using DecodeRune_prefix [OF assms, of "drop (snd (DecodeRune s)) s @ t"]
  by (metis append.assoc append_take_drop_id)

section \<open>Well-formed text\<close>

function utf8_Valid :: "string \<Rightarrow> bool" where
  "utf8_Valid s =
     (if s = [] then True
      else if decode_bad s then False
      else utf8_Valid (drop (snd (DecodeRune s)) s))"
  by pat_completeness auto
termination
proof (relation "measure length")
  fix s :: string assume "s \<noteq> []"
  then show "(drop (snd (DecodeRune s)) s, s) \<in> measure length"
    using DecodeRune_size_pos [of s] by (cases s) auto
qed simp

declare utf8_Valid.simps [simp del]

lemma utf8_Valid_Nil [simp]: "utf8_Valid []"
  by (simp add: utf8_Valid.simps)

lemma utf8_Valid_append: "utf8_Valid s \<Longrightarrow> utf8_Valid t \<Longrightarrow> utf8_Valid (s @ t)"
proof (induction s rule: utf8_Valid.induct)
  case (1 s)
  show ?case
  proof (cases "s = []")
    case False
    let ?n = "snd (DecodeRune s)"
    from False "1.prems"(1) have good: "\<not> decode_bad s" and rest: "utf8_Valid (drop ?n s)"
      by (simp_all add: utf8_Valid.simps [of s] split: if_splits)
    have dec: "DecodeRune (s @ t) = DecodeRune s"
      by (rule DecodeRune_append [OF good False])
    have "utf8_Valid (drop ?n s @ t)" using "1.IH" False good rest "1.prems"(2) by blast
    moreover have "drop ?n (s @ t) = drop ?n s @ t" using DecodeRune_size_le [of s] by simp
    ultimately show ?thesis
      using False good dec by (simp add: utf8_Valid.simps [of "s @ t"] decode_bad_def)
  qed (use 1 in simp)
qed

lemma utf8_Valid_ascii: "bv c < 128 \<Longrightarrow> utf8_Valid (c # s) \<longleftrightarrow> utf8_Valid s"
  by (subst utf8_Valid.simps) (simp add: DecodeRune_def decode_bad_def RuneSelf_def RuneError_def)

lemma utf8_Valid_rune:
  assumes "\<not> decode_bad s" and "s \<noteq> []"
  shows "utf8_Valid (take (snd (DecodeRune s)) s)"
proof -
  let ?n = "snd (DecodeRune s)" and ?p = "take (snd (DecodeRune s)) s"
  have "DecodeRune ?p = DecodeRune s" using DecodeRune_prefix [OF assms, of "[]"] by simp
  moreover have "?p \<noteq> []" using assms(2) DecodeRune_size_pos by fastforce
  ultimately show ?thesis
    using assms by (subst utf8_Valid.simps) (simp add: decode_bad_def)
qed

section \<open>Encoding\<close>

text \<open>\<open>AppendRune\<close>: the bytes of a rune; surrogates and runes above the last one give U+FFFD.\<close>

definition AppendRune :: "nat \<Rightarrow> string" where
  "AppendRune r =
     (if r < 0x80 then [char_of r]
      else if r < 0x800 then [char_of (0xC0 + r div 64), char_of (0x80 + r mod 64)]
      else if 0xD800 \<le> r \<and> r \<le> 0xDFFF \<or> 0x10FFFF < r then [CHR 0xEF, CHR 0xBF, CHR 0xBD]
      else if r < 0x10000 then [char_of (0xE0 + r div 4096), char_of (0x80 + r div 64 mod 64), char_of (0x80 + r mod 64)]
      else [char_of (0xF0 + r div 262144), char_of (0x80 + r div 4096 mod 64), char_of (0x80 + r div 64 mod 64), char_of (0x80 + r mod 64)])"

lemma char_of_bv: "n = bv c \<Longrightarrow> char_of n = c"
  by simp

lemma cont_mod: "128 \<le> b \<Longrightarrow> b \<le> 191 \<Longrightarrow> 128 + b mod 64 = (b :: nat)"
proof -
  assume b: "128 \<le> b" "b \<le> 191"
  then have "b = (b - 128) + 2 * 64" by simp
  then have "b mod 64 = (b - 128) mod 64" by (metis mod_mult_self1)
  then show ?thesis using b by simp
qed

lemma lead_mod:
  shows "192 \<le> b \<Longrightarrow> b \<le> 223 \<Longrightarrow> 192 + b mod 32 = (b :: nat)"
    and "224 \<le> b \<Longrightarrow> b \<le> 239 \<Longrightarrow> 224 + b mod 16 = b"
    and "240 \<le> b \<Longrightarrow> b \<le> 247 \<Longrightarrow> 240 + b mod 8 = b"
  using mod_mult_self1 [of "b - 192" 6 32] mod_mult_self1 [of "b - 224" 14 16] mod_mult_self1 [of "b - 240" 30 8]
  by simp_all

lemma digits64: "z < 64 \<Longrightarrow> (a * 64 + z) div 64 = (a :: nat) \<and> (a * 64 + z) mod 64 = z"
  by simp

lemma AppendRune_DecodeRune:
  assumes "\<not> decode_bad s" and "s \<noteq> []"
  shows "AppendRune (fst (DecodeRune s)) = take (snd (DecodeRune s)) s"
  using assms
proof (cases rule: DecodeRune_good)
  case (w1 c r)
  then show ?thesis by (simp add: DecodeRune_def AppendRune_def RuneSelf_def)
next
  case (w2 c0 c1 r lo hi)
  let ?x = "bv c0 mod 32" and ?y = "bv c1 mod 64"
  have b0: "194 \<le> bv c0" "bv c0 \<le> 223" using w2(3) by (auto simp: lead_info_def split: if_splits)
  have b1: "128 \<le> bv c1" "bv c1 \<le> 191" using w2(3-5) by (auto simp: lead_info_def split: if_splits)
  have x: "192 + ?x = bv c0" "128 + ?y = bv c1" using lead_mod(1) [of "bv c0"] cont_mod [OF b1] b0 by simp_all
  then have x2: "2 \<le> ?x" "?x < 32" "?y < 64" using b0 by auto
  then have r: "128 \<le> ?x * 64 + ?y" "?x * 64 + ?y < 2048" by linarith+
  have d: "DecodeRune s = (?x * 64 + ?y, 2)" using w2 by (simp add: DecodeRune_def)
  show ?thesis unfolding d fst_conv snd_conv AppendRune_def using r digits64 [OF x2(3), of ?x] x by (simp add: w2(1))
next
  case (w3 c0 c1 c2 r lo hi)
  let ?x = "bv c0 mod 16" and ?y = "bv c1 mod 64" and ?z = "bv c2 mod 64"
  have b0: "224 \<le> bv c0" "bv c0 \<le> 239" using w3(3) by (auto simp: lead_info_def split: if_splits)
  have b1: "128 \<le> bv c1" "bv c1 \<le> 191" "bv c0 = 224 \<Longrightarrow> 160 \<le> bv c1" "bv c0 = 237 \<Longrightarrow> bv c1 \<le> 159"
    using w3(3-5) by (auto simp: lead_info_def split: if_splits)
  have b2: "128 \<le> bv c2" "bv c2 \<le> 191" using w3(6) by (simp_all add: is_cont_def)
  have e: "224 + ?x = bv c0" "128 + ?y = bv c1" "128 + ?z = bv c2"
    using lead_mod(2) [OF b0] cont_mod [OF b1(1,2)] cont_mod [OF b2] by simp_all
  define x y z where xyz: "x = ?x" "y = ?y" "z = ?z"
  have lt: "x < 16" "y < 64" "z < 64" using xyz by auto
  have sp: "x = 0 \<Longrightarrow> 32 \<le> y" "x = 13 \<Longrightarrow> y < 32" using e b1(3,4) xyz by linarith+
  let ?r = "x * 4096 + y * 64 + z"
  have r: "?r = (x * 64 + y) * 64 + z" by simp
  have div: "?r div 64 = x * 64 + y" "?r mod 64 = z" unfolding r using digits64 [OF lt(3)] by blast+
  have "?r div 4096 = ?r div 64 div 64" by (simp add: div_mult2_eq [symmetric])
  then have div2: "?r div 4096 = x" "?r div 64 mod 64 = y" using div digits64 [OF lt(2), of x] by simp_all
  have big: "2048 \<le> ?r" using sp(1) lt by (cases "x = 0") linarith+
  have small: "?r < 65536" using lt by linarith
  have ns: "\<not> (55296 \<le> ?r \<and> ?r \<le> 57343)" using sp(2) lt by (cases x "13 :: nat" rule: linorder_cases) linarith+
  have d: "DecodeRune s = (?r, 3)" using w3 by (simp add: DecodeRune_def xyz)
  have "AppendRune ?r = [char_of (224 + x), char_of (128 + y), char_of (128 + z)]"
    unfolding AppendRune_def div2 div(2) using big small ns by auto
  then show ?thesis unfolding d fst_conv snd_conv using e by (simp add: w3(1) xyz)
next
  case (w4 c0 c1 c2 c3 r lo hi)
  let ?w = "bv c0 mod 8" and ?x = "bv c1 mod 64" and ?y = "bv c2 mod 64" and ?z = "bv c3 mod 64"
  have b0: "240 \<le> bv c0" "bv c0 \<le> 244" using w4(3) by (auto simp: lead_info_def split: if_splits)
  have b1: "128 \<le> bv c1" "bv c1 \<le> 191" "bv c0 = 240 \<Longrightarrow> 144 \<le> bv c1" "bv c0 = 244 \<Longrightarrow> bv c1 \<le> 143"
    using w4(3-5) by (auto simp: lead_info_def split: if_splits)
  have b2: "128 \<le> bv c2" "bv c2 \<le> 191" "128 \<le> bv c3" "bv c3 \<le> 191" using w4(6,7) by (simp_all add: is_cont_def)
  have e: "240 + ?w = bv c0" "128 + ?x = bv c1" "128 + ?y = bv c2" "128 + ?z = bv c3"
    using lead_mod(3) [of "bv c0"] b0 cont_mod [OF b1(1,2)] cont_mod [OF b2(1,2)] cont_mod [OF b2(3,4)] by simp_all
  define w x y z where wxyz: "w = ?w" "x = ?x" "y = ?y" "z = ?z"
  have lt: "w \<le> 4" "x < 64" "y < 64" "z < 64" using wxyz e b0 by auto
  have sp: "w = 0 \<Longrightarrow> 16 \<le> x" "w = 4 \<Longrightarrow> x < 16" using e b1(3,4) wxyz by linarith+
  let ?r = "w * 262144 + x * 4096 + y * 64 + z"
  have r: "?r = ((w * 64 + x) * 64 + y) * 64 + z" by simp
  have div: "?r div 64 = (w * 64 + x) * 64 + y" "?r mod 64 = z" unfolding r using digits64 [OF lt(4)] by blast+
  have dd: "?r div 4096 = ?r div 64 div 64" "?r div 262144 = ?r div 64 div 64 div 64" by (simp_all add: div_mult2_eq [symmetric])
  have div2: "?r div 64 mod 64 = y" "?r div 4096 mod 64 = x" "?r div 262144 = w"
    unfolding dd div using digits64 [OF lt(3), of "w * 64 + x"] digits64 [OF lt(2), of w] by simp_all
  have big: "65536 \<le> ?r" using sp(1) lt by (cases "w = 0") linarith+
  have small: "?r \<le> 1114111" using sp(2) lt by (cases "w = 4") linarith+
  have d: "DecodeRune s = (?r, 4)" using w4 by (simp add: DecodeRune_def wxyz)
  have "AppendRune ?r = [char_of (240 + w), char_of (128 + x), char_of (128 + y), char_of (128 + z)]"
    unfolding AppendRune_def div2 div(2) using big small by simp
  then show ?thesis unfolding d fst_conv snd_conv using e by (simp add: w4(1) wxyz)
qed

end
