(* ===== verification/Pretokenizer.thy ===== *)
theory Pretokenizer
  imports Go_Utf8
begin

text \<open>
  Qwen's pre-tokenizer (\<open>qwenNextPiece\<close> and its helpers in
  \<^verbatim>\<open>src/internal/qwen3lm/tokenizer.go\<close>), which cuts normalized text into the pieces that are
  encoded one by one. The Unicode tables of Go's \<^verbatim>\<open>unicode\<close> package (letters, numbers, marks,
  space, lower case) are a parameter: nothing below depends on their contents. The results
  are that every call makes progress inside the text, for every byte sequence, and that the
  pieces partition the text.
\<close>

section \<open>Model\<close>

record unicode_tables =
  IsLetter :: "nat \<Rightarrow> bool"
  IsNumber :: "nat \<Rightarrow> bool"
  IsSpace :: "nat \<Rightarrow> bool"
  IsMark :: "nat \<Rightarrow> bool"
  ToLower :: "nat \<Rightarrow> nat"

definition qwenRuneAt :: "string \<Rightarrow> nat \<Rightarrow> nat \<times> nat" where
  "qwenRuneAt s i = (case DecodeRune (drop i s) of (r, width) \<Rightarrow> if width = 0 then (RuneError, 1) else (r, width))"

definition qwenNewline :: "nat \<Rightarrow> bool" where
  "qwenNewline r \<longleftrightarrow> r = 13 \<or> r = 10"

definition qwenLetter :: "unicode_tables \<Rightarrow> bool \<Rightarrow> nat \<Rightarrow> bool" where
  "qwenLetter uc marks r \<longleftrightarrow> IsLetter uc r \<or> marks \<and> IsMark uc r"

definition qwenPunctuation :: "unicode_tables \<Rightarrow> bool \<Rightarrow> nat \<Rightarrow> bool" where
  "qwenPunctuation uc marks r \<longleftrightarrow> \<not> IsSpace uc r \<and> \<not> qwenLetter uc marks r \<and> \<not> IsNumber uc r"

lemma qwenRuneAt_pos: "1 \<le> snd (qwenRuneAt s i)"
  by (auto simp: qwenRuneAt_def split: prod.splits)

lemma qwenRuneAt_le: "i < length s \<Longrightarrow> i + snd (qwenRuneAt s i) \<le> length s"
  using DecodeRune_size_le [of "drop i s"] DecodeRune_size_pos [of "drop i s"]
  by (auto simp: qwenRuneAt_def split: prod.splits)

lemma qwenRuneAt_decr: "k < length s \<Longrightarrow> length s - (k + snd (qwenRuneAt s k)) < length s - k"
  using qwenRuneAt_pos [of s k] by linarith

text \<open>\<open>for k < len(s)\<close>: step over the runes that satisfy \<open>p\<close>.\<close>

function scan_while :: "(nat \<Rightarrow> bool) \<Rightarrow> string \<Rightarrow> nat \<Rightarrow> nat" where
  "scan_while p s k =
     (if k < length s \<and> p (fst (qwenRuneAt s k)) then scan_while p s (k + snd (qwenRuneAt s k)) else k)"
  by pat_completeness auto
termination
  by (relation "measure (\<lambda>(p, s, k). length s - k)")
    (auto simp: qwenRuneAt_decr)

text \<open>The white-space loop also remembers the position of the last newline.\<close>

function scan_space :: "unicode_tables \<Rightarrow> string \<Rightarrow> nat \<Rightarrow> nat option \<Rightarrow> nat \<times> nat option" where
  "scan_space uc s w lastNewline =
     (if w < length s \<and> IsSpace uc (fst (qwenRuneAt s w)) then
        scan_space uc s (w + snd (qwenRuneAt s w))
          (if qwenNewline (fst (qwenRuneAt s w)) then Some w else lastNewline)
      else (w, lastNewline))"
  by pat_completeness auto
termination
  by (relation "measure (\<lambda>(uc, s, w, l). length s - w)")
    (auto simp: qwenRuneAt_decr)

declare scan_while.simps [simp del] scan_space.simps [simp del]

text \<open>The contraction alternative \<open>(?i:'s|'t|'re|'ve|'m|'ll|'d)\<close>.\<close>

definition contraction :: "unicode_tables \<Rightarrow> string \<Rightarrow> nat \<Rightarrow> nat option" where
  "contraction uc s start =
     (let (r, width) = qwenRuneAt s start in
      if r = 39 \<and> start + width < length s then
        let (r1, w1) = qwenRuneAt s (start + width); c1 = ToLower uc r1 in
        if c1 = 115 \<or> c1 = 116 \<or> c1 = 109 \<or> c1 = 100 then Some (start + width + w1)
        else if c1 = 114 \<or> c1 = 118 \<or> c1 = 108 then
          let nextPos = start + width + w1 in
          if nextPos < length s then
            let (r2, w2) = qwenRuneAt s nextPos; c2 = ToLower uc r2 in
            if c1 = 114 \<and> c2 = 101 \<or> c1 = 118 \<and> c2 = 101 \<or> c1 = 108 \<and> c2 = 108 then Some (nextPos + w2) else None
          else None
        else None
      else None)"

text \<open>\<open>[^\r\n\p{L}\p{N}]?\p{L}+\<close>: one optional other rune, then letters.\<close>

definition letters :: "unicode_tables \<Rightarrow> bool \<Rightarrow> string \<Rightarrow> nat \<Rightarrow> nat option" where
  "letters uc marks s start =
     (let (r, width) = qwenRuneAt s start;
          j = (if \<not> qwenNewline r \<and> \<not> IsLetter uc r \<and> \<not> IsNumber uc r \<and> start + width < length s
                  \<and> qwenLetter uc marks (fst (qwenRuneAt s (start + width)))
               then start + width else start)
      in if qwenLetter uc marks (fst (qwenRuneAt s j)) then Some (scan_while (qwenLetter uc marks) s j) else None)"

text \<open>\<open> ?[^\s\p{L}\p{N}]+[\r\n]*\<close>: an optional space, punctuation, then newlines.\<close>

definition punctuation :: "unicode_tables \<Rightarrow> bool \<Rightarrow> string \<Rightarrow> nat \<Rightarrow> nat option" where
  "punctuation uc marks s start =
     (let (r, width) = qwenRuneAt s start;
          p = (if r = 32 then start + width else start)
      in if p < length s \<and> qwenPunctuation uc marks (fst (qwenRuneAt s p))
         then Some (scan_while qwenNewline s (scan_while (qwenPunctuation uc marks) s p))
         else None)"

text \<open>The white-space alternatives \<open>\s*[\r\n]+|\s+(?!\S)|\s+\<close>.\<close>

definition whitespace :: "unicode_tables \<Rightarrow> string \<Rightarrow> nat \<Rightarrow> nat" where
  "whitespace uc s start =
     (let width = snd (qwenRuneAt s start); (w, lastNewline) = scan_space uc s start None in
      case lastNewline of
        Some nl \<Rightarrow> nl + snd (qwenRuneAt s nl)
      | None \<Rightarrow>
          if w = length s then w
          else if width < w - start then w - snd (DecodeLastRune (take (w - start) (drop start s)))
          else w)"

definition qwenNextPiece :: "unicode_tables \<Rightarrow> bool \<Rightarrow> string \<Rightarrow> nat \<Rightarrow> nat \<times> nat" where
  "qwenNextPiece uc marks s start =
     (let (r, width) = qwenRuneAt s start in
      case contraction uc s start of
        Some e \<Rightarrow> (start, e)
      | None \<Rightarrow>
          (case letters uc marks s start of
             Some e \<Rightarrow> (start, e)
           | None \<Rightarrow>
               if IsNumber uc r then (start, start + width)
               else (case punctuation uc marks s start of
                       Some e \<Rightarrow> (start, e)
                     | None \<Rightarrow>
                         if IsSpace uc r then (start, whitespace uc s start)
                         else (start, start + width))))"

section \<open>Progress\<close>

lemma scan_while_bounds: "k \<le> length s \<Longrightarrow> k \<le> scan_while p s k \<and> scan_while p s k \<le> length s"
proof (induction p s k rule: scan_while.induct)
  case (1 p s k)
  show ?case
  proof (cases "k < length s \<and> p (fst (qwenRuneAt s k))")
    case True
    then show ?thesis using 1 qwenRuneAt_le [of k s] by (subst (1 2) scan_while.simps) auto
  next
    case False
    then show ?thesis using 1(2) by (subst (1 2) scan_while.simps) auto
  qed
qed

lemma scan_while_progress:
  assumes "k < length s" and "p (fst (qwenRuneAt s k))"
  shows "k < scan_while p s k \<and> scan_while p s k \<le> length s"
proof -
  have "k + snd (qwenRuneAt s k) \<le> length s" using qwenRuneAt_le assms(1) .
  from scan_while_bounds [OF this, of p] assms qwenRuneAt_pos [of s k] show ?thesis
    by (subst (1 2) scan_while.simps) auto
qed

lemma scan_space_bounds:
  assumes "scan_space uc s w ln = (e, ln')" and "w \<le> length s"
  shows "w \<le> e \<and> e \<le> length s \<and> (ln' = ln \<or> (\<exists>p. ln' = Some p \<and> w \<le> p \<and> p < e \<and> p + snd (qwenRuneAt s p) \<le> e))"
  using assms
proof (induction uc s w ln rule: scan_space.induct)
  case (1 uc s w ln)
  show ?case
  proof (cases "w < length s \<and> IsSpace uc (fst (qwenRuneAt s w))")
    case True
    let ?ln = "if qwenNewline (fst (qwenRuneAt s w)) then Some w else ln"
    have le: "w + snd (qwenRuneAt s w) \<le> length s" using True qwenRuneAt_le by blast
    have "scan_space uc s (w + snd (qwenRuneAt s w)) ?ln = (e, ln')"
      using "1.prems"(1) True by (subst (asm) scan_space.simps) simp
    from "1.IH" [OF True this le] show ?thesis using qwenRuneAt_pos [of s w] le
      by (auto split: if_splits)
  next
    case False
    then show ?thesis using "1.prems" by (subst (asm) scan_space.simps) auto
  qed
qed

text \<open>The last rune of a stretch of text that starts with a shorter rune is not all of it.\<close>

lemma DecodeLastRune_shorter:
  assumes "u \<noteq> []" and "snd (DecodeRune (u @ v)) < length u"
  shows "snd (DecodeLastRune u) < length u"
proof (cases "bv (last u) < RuneSelf")
  case True
  have "1 \<le> snd (DecodeRune (u @ v))" using assms(1) by (intro DecodeRune_size_pos) simp
  with True assms show ?thesis by (simp add: DecodeLastRune_def)
next
  case False
  let ?st = "last_rune_start u"
  let ?d = "DecodeRune (drop ?st u)"
  have full: "snd (DecodeLastRune u) = (if ?st + snd ?d \<noteq> length u then 1 else snd ?d)"
    using False assms(1) by (auto simp: DecodeLastRune_def Let_def split: prod.splits)
  have one: "1 < length u" using assms DecodeRune_size_pos [of "u @ v"] by simp
  show ?thesis
  proof (cases "?st = 0 \<and> snd ?d = length u")
    case True
    then have "\<not> decode_bad u" using one by (auto simp: decode_bad_def)
    then have "DecodeRune (u @ v) = DecodeRune u" using assms(1) by (rule DecodeRune_append)
    moreover have "snd (DecodeRune u) = length u" using conjunct1 [OF True] conjunct2 [OF True] by simp
    ultimately show ?thesis using assms(2) by simp
  next
    case F: False
    with full one last_rune_start_less [OF assms(1)] DecodeRune_size_le [of "drop ?st u"] show ?thesis by auto
  qed
qed

lemma whitespace_progress:
  assumes "start < length s" and "IsSpace uc (fst (qwenRuneAt s start))"
  shows "start < whitespace uc s start \<and> whitespace uc s start \<le> length s"
proof -
  let ?width = "snd (qwenRuneAt s start)"
  obtain w ln where sc: "scan_space uc s start None = (w, ln)" by fastforce
  have le: "start + ?width \<le> length s" using qwenRuneAt_le assms(1) .
  have first: "start + ?width \<le> w"
  proof -
    have "scan_space uc s (start + ?width) (if qwenNewline (fst (qwenRuneAt s start)) then Some start else None) = (w, ln)"
      using sc assms by (subst (asm) scan_space.simps) simp
    from scan_space_bounds [OF this le] show ?thesis by simp
  qed
  note b = scan_space_bounds [OF sc less_imp_le [OF assms(1)]]
  note pos = qwenRuneAt_pos [of s start]
  show ?thesis
  proof (cases ln)
    case (Some p)
    with b qwenRuneAt_pos [of s p] show ?thesis by (auto simp: whitespace_def sc Let_def)
  next
    case None
    show ?thesis
    proof (cases "w \<noteq> length s \<and> ?width < w - start")
      case True
      let ?u = "take (w - start) (drop start s)"
      have lu: "length ?u = w - start" using b by auto
      have u: "drop start s = ?u @ drop (w - start) (drop start s)" by (rule append_take_drop_id [symmetric])
      have "snd (DecodeRune (drop start s)) \<le> ?width" by (auto simp: qwenRuneAt_def split: prod.splits)
      then have "snd (DecodeLastRune ?u) < length ?u"
        using DecodeLastRune_shorter [of ?u "drop (w - start) (drop start s)"] True lu u by fastforce
      moreover have "1 \<le> snd (DecodeLastRune ?u)" using lu True by (intro DecodeLastRune_size_pos) auto
      ultimately show ?thesis using None True lu b by (auto simp: whitespace_def sc Let_def)
    next
      case False
      with None first pos b show ?thesis by (auto simp: whitespace_def sc Let_def)
    qed
  qed
qed

lemma contraction_progress:
  assumes "start < length s" and "contraction uc s start = Some e"
  shows "start < e \<and> e \<le> length s"
proof -
  let ?w = "snd (qwenRuneAt s start)" and ?w1 = "snd (qwenRuneAt s (start + snd (qwenRuneAt s start)))"
  have p: "start + ?w < length s" "e = start + ?w + ?w1 \<or>
      start + ?w + ?w1 < length s \<and> e = start + ?w + ?w1 + snd (qwenRuneAt s (start + ?w + ?w1))"
    using assms(2) by (auto simp: contraction_def Let_def split: prod.splits if_splits)
  then show ?thesis
    using qwenRuneAt_le [of "start + ?w" s] qwenRuneAt_le [of "start + ?w + ?w1" s] qwenRuneAt_pos [of s start] by auto
qed

lemma letters_progress:
  assumes "start < length s" and "letters uc marks s start = Some e"
  shows "start < e \<and> e \<le> length s"
proof -
  define j where "j = (let (r, width) = qwenRuneAt s start in
      if \<not> qwenNewline r \<and> \<not> IsLetter uc r \<and> \<not> IsNumber uc r \<and> start + width < length s
         \<and> qwenLetter uc marks (fst (qwenRuneAt s (start + width))) then start + width else start)"
  have "qwenLetter uc marks (fst (qwenRuneAt s j)) \<and> e = scan_while (qwenLetter uc marks) s j"
    using assms(2) unfolding letters_def j_def Let_def case_prod_unfold by (auto split: if_splits)
  moreover have "start \<le> j" "j < length s"
    using assms(1) unfolding j_def Let_def case_prod_unfold by auto
  ultimately have j: "start \<le> j" "j < length s" "qwenLetter uc marks (fst (qwenRuneAt s j))"
      "e = scan_while (qwenLetter uc marks) s j" by auto
  from scan_while_progress [OF j(2), of "qwenLetter uc marks"] j show ?thesis by auto
qed

lemma punctuation_progress:
  assumes "start < length s" and "punctuation uc marks s start = Some e"
  shows "start < e \<and> e \<le> length s"
proof -
  define p where "p = (let (r, width) = qwenRuneAt s start in if r = 32 then start + width else start)"
  have "p < length s \<and> qwenPunctuation uc marks (fst (qwenRuneAt s p))
      \<and> e = scan_while qwenNewline s (scan_while (qwenPunctuation uc marks) s p)"
    using assms(2) unfolding punctuation_def p_def Let_def case_prod_unfold by (auto split: if_splits)
  moreover have "start \<le> p" unfolding p_def Let_def case_prod_unfold by auto
  ultimately have p: "start \<le> p" "p < length s" "qwenPunctuation uc marks (fst (qwenRuneAt s p))"
      "e = scan_while qwenNewline s (scan_while (qwenPunctuation uc marks) s p)" by auto
  from scan_while_progress [OF p(2), of "qwenPunctuation uc marks"] p
    scan_while_bounds [of "scan_while (qwenPunctuation uc marks) s p" s qwenNewline] show ?thesis by auto
qed

lemma qwenNextPiece_bounds:
  assumes "start < length s"
  shows "fst (qwenNextPiece uc marks s start) = start
    \<and> start < snd (qwenNextPiece uc marks s start) \<and> snd (qwenNextPiece uc marks s start) \<le> length s"
proof -
  have w: "start < start + snd (qwenRuneAt s start) \<and> start + snd (qwenRuneAt s start) \<le> length s"
    using qwenRuneAt_le [OF assms] qwenRuneAt_pos [of s start] by auto
  note facts = contraction_progress [OF assms] letters_progress [OF assms] punctuation_progress [OF assms]
    whitespace_progress [OF assms]
  show ?thesis unfolding qwenNextPiece_def Let_def
    using w facts by (cases "qwenRuneAt s start") (auto split: option.splits)
qed

section \<open>The pieces of a text\<close>

text \<open>The loop of \<open>encodeGap\<close>: each piece starts where the one before it ended.\<close>

function qwen_pieces :: "unicode_tables \<Rightarrow> bool \<Rightarrow> string \<Rightarrow> nat \<Rightarrow> string list" where
  "qwen_pieces uc marks s i =
     (if i < length s then
        let (start, e) = qwenNextPiece uc marks s i
        in take (e - start) (drop start s) # qwen_pieces uc marks s e
      else [])"
  by pat_completeness auto
termination
proof (relation "measure (\<lambda>(uc, marks, s, i). length s - i)", goal_cases)
  case (2 uc marks s i x start e)
  with qwenNextPiece_bounds [of i s uc marks] show ?case by (auto simp: prod_eq_iff)
qed simp

declare qwen_pieces.simps [simp del]

lemma qwen_pieces_concat:
  "concat (qwen_pieces uc marks s i) = drop i s \<and> (\<forall>p \<in> set (qwen_pieces uc marks s i). p \<noteq> [])"
proof (induction uc marks s i rule: qwen_pieces.induct)
  case (1 uc marks s i)
  show ?case
  proof (cases "i < length s")
    case True
    obtain e where e: "qwenNextPiece uc marks s i = (i, e)" "i < e" "e \<le> length s"
      using qwenNextPiece_bounds [OF True, of uc marks] by (cases "qwenNextPiece uc marks s i") auto
    have IH: "concat (qwen_pieces uc marks s e) = drop e s \<and> (\<forall>p \<in> set (qwen_pieces uc marks s e). p \<noteq> [])"
      using "1.IH" [OF True] e(1) by simp
    have "take (e - i) (drop i s) @ drop e s = drop i s"
      using e(2) by (metis append_take_drop_id drop_drop le_add_diff_inverse2 less_imp_le)
    moreover have "qwen_pieces uc marks s i = take (e - i) (drop i s) # qwen_pieces uc marks s e"
      using True e(1) by (subst qwen_pieces.simps) simp
    ultimately show ?thesis using IH e by simp
  next
    case False
    then show ?thesis by (subst (1 2) qwen_pieces.simps) simp
  qed
qed

text \<open>
  For any bytes, any Unicode tables and both split expressions, the pre-tokenizer
  ends and cuts the text into non-empty consecutive pieces whose concatenation is the text.
\<close>

theorem qwen_pieces_partition:
  "concat (qwen_pieces uc marks s 0) = s \<and> [] \<notin> set (qwen_pieces uc marks s 0)"
  using qwen_pieces_concat [of uc marks s 0] by auto

end
