(* ===== verification/Tokenizer.thy ===== *)
theory Tokenizer
  imports Bpe Added_Trie Pretokenizer
begin

unbundle bit_operations_syntax

text \<open>
  The Qwen tokenizer of \<^verbatim>\<open>src/internal/qwen3lm/tokenizer.go\<close>, put together from the merge table,
  the added-token trie, the pre-tokenizer and the merge loop: \<open>newTokenizer\<close> with
  \<open>buildDecoder\<close>, \<open>EncodeInto\<close> with \<open>encodeGap\<close>, and \<open>Piece\<close>, \<open>DecodeAppend\<close> and the repair of
  ill-formed UTF-8. A vocabulary, a Go map, is a list of distinct entries in the order the
  range statement happens to visit them. Unicode normalization (\<^verbatim>\<open>golang.org/x/text\<close>) is the
  parameter \<open>nfc\<close>. The main result is the round trip: the pieces of the tokens of a
  normalized text are the text.
\<close>

section \<open>Model: the tokenizer and its loader\<close>

record Tokenizer =
  byteID :: "char \<Rightarrow> int"
  merges :: mergeTable
  added :: "trie \<times> char set"
  pieces :: string
  pieceEnd :: "nat list"
  special :: "bool list"
  marks :: bool

datatype load_error =
    NoVocabulary | MissingByte nat | MergeMissing nat | DuplicateMerge nat
  | InvalidAddedToken | AddedError added_error | TooLarge | NegativeID string | OutsideAlphabet nat

text \<open>\<open>uint64(uint32(left))<<32 | uint64(uint32(right))\<close>.\<close>

definition qwenPair :: "int \<Rightarrow> int \<Rightarrow> 64 word" where
  "qwenPair left right = push_bit 32 (ucast (word_of_int left :: 32 word)) OR ucast (word_of_int right :: 32 word)"

definition printable_byte :: "nat \<Rightarrow> bool" where
  "printable_byte b \<longleftrightarrow> 33 \<le> b \<and> b \<le> 126 \<or> 0xA1 \<le> b \<and> b \<le> 0xAC \<or> 0xAE \<le> b \<and> b \<le> 0xFF"

definition byte_rune :: "nat \<Rightarrow> nat" where
  "byte_rune b = (if printable_byte b then b else 256 + length (filter (\<lambda>x. \<not> printable_byte x) [0..<b]))"

text \<open>\<open>string(r)\<close> for the runes below 2048 that the byte alphabet uses.\<close>

definition rune_string :: "nat \<Rightarrow> string" where
  "rune_string r = (if r < 128 then [char_of r] else [char_of (192 + r div 64), char_of (128 + r mod 64)])"

definition buildQwenByteEncoder :: "nat \<Rightarrow> string" where
  "buildQwenByteEncoder b = rune_string (byte_rune b)"

fun load_bytes :: "(string \<rightharpoonup> int) \<Rightarrow> nat list \<Rightarrow> (char \<Rightarrow> int) \<Rightarrow> load_error + (char \<Rightarrow> int)" where
  "load_bytes vocab [] ids = Inr ids"
| "load_bytes vocab (b # bs) ids =
     (case vocab (buildQwenByteEncoder b) of
        None \<Rightarrow> Inl (MissingByte b)
      | Some i \<Rightarrow> load_bytes vocab bs (ids(char_of b := i)))"

text \<open>The merge loop of the loader; the outer \<open>None\<close> is a table insertion that does not end.\<close>

fun load_merges :: "(string \<rightharpoonup> int) \<Rightarrow> (string \<times> string) list \<Rightarrow> nat \<Rightarrow> mergeTable \<Rightarrow> (load_error + mergeTable) option" where
  "load_merges vocab [] r t = Some (Inr t)"
| "load_merges vocab ((a, b) # ps) r t =
     (case (vocab a, vocab b, vocab (a @ b)) of
        (Some left, Some right, Some merged) \<Rightarrow>
          (case merge_insert t (qwenPair left right) \<lparr>rank = r mod 2 ^ 32, token = merged\<rparr> of
             None \<Rightarrow> None
           | Some (t', ok) \<Rightarrow>
               if \<not> ok then Some (Inl (DuplicateMerge r)) else load_merges vocab ps (r + 1) t')
      | _ \<Rightarrow> Some (Inl (MergeMissing r)))"

type_synonym added_token = "int \<times> string \<times> bool"

fun load_added :: "added_token list \<Rightarrow> trie \<times> char set \<Rightarrow> load_error + trie \<times> char set" where
  "load_added [] ts = Inr ts"
| "load_added ((i, content, sp) # as) ts =
     (if content = [] \<or> i < 0 then Inl InvalidAddedToken
      else case addAddedToken ts content i of
             Inl e \<Rightarrow> Inl (AddedError e)
           | Inr ts' \<Rightarrow> load_added as ts')"

subsection \<open>buildDecoder\<close>

definition alphabet :: "nat \<Rightarrow> nat option" where
  "alphabet = fold (\<lambda>b m. m(fst (DecodeRune (buildQwenByteEncoder b)) \<mapsto> b)) [0..<256] (\<lambda>_. None)"

definition decoder_size :: "(string \<times> int) list \<Rightarrow> added_token list \<Rightarrow> int" where
  "decoder_size vocab as = fold (\<lambda>a n. max n (fst a + 1)) as (fold (\<lambda>e n. max n (snd e + 1)) vocab 0)"

fun fill_vocab :: "(string \<times> int) list \<Rightarrow> string list \<Rightarrow> load_error + string list" where
  "fill_vocab [] contents = Inr contents"
| "fill_vocab ((piece, i) # es) contents =
     (if i < 0 then Inl (NegativeID piece) else fill_vocab es (contents[nat i := piece]))"

text \<open>\<open>for _, r := range s\<close>: the runes of a string.\<close>

function runes :: "string \<Rightarrow> nat list" where
  "runes s = (if s = [] then [] else fst (DecodeRune s) # runes (drop (snd (DecodeRune s)) s))"
  by pat_completeness auto
termination
proof (relation "measure length", goal_cases)
  case (2 s)
  then show ?case using DecodeRune_size_pos [of s] by (cases s) auto
qed simp

declare runes.simps [simp del]

fun piece_bytes :: "nat list \<Rightarrow> string option" where
  "piece_bytes [] = Some []"
| "piece_bytes (r # rs) =
     (if 512 \<le> r then None
      else case alphabet r of
             None \<Rightarrow> None
           | Some b \<Rightarrow> map_option (\<lambda>bs. char_of b # bs) (piece_bytes rs))"

fun lay_out :: "(nat \<Rightarrow> bool) \<Rightarrow> nat \<Rightarrow> string list \<Rightarrow> string \<Rightarrow> nat list \<Rightarrow> load_error + string \<times> nat list" where
  "lay_out isAdded i [] ps ends = Inr (ps, ends)"
| "lay_out isAdded i (s # ss) ps ends =
     (if isAdded i then lay_out isAdded (i + 1) ss (ps @ s) (ends @ [length (ps @ s) mod 2 ^ 32])
      else case piece_bytes (runes s) of
             None \<Rightarrow> Inl (OutsideAlphabet i)
           | Some bs \<Rightarrow> lay_out isAdded (i + 1) ss (ps @ bs) (ends @ [length (ps @ bs) mod 2 ^ 32]))"

definition buildDecoder :: "(string \<times> int) list \<Rightarrow> added_token list \<Rightarrow> load_error + string \<times> nat list \<times> bool list" where
  "buildDecoder vocab as =
     (let n = decoder_size vocab as in
      if 2 ^ 24 < n then Inl TooLarge
      else case fill_vocab vocab (replicate (nat n) []) of
             Inl e \<Rightarrow> Inl e
           | Inr contents0 \<Rightarrow>
               let contents = fold (\<lambda>(i, c, sp) cs. cs[nat i := c]) as contents0;
                   spec = fold (\<lambda>(i, c, sp) xs. xs[nat i := sp]) as (replicate (nat n) False);
                   isAdded = (\<lambda>k. int k \<in> fst ` set as)
               in (case lay_out isAdded 0 contents [] [] of
                     Inl e \<Rightarrow> Inl e
                   | Inr (ps, ends) \<Rightarrow> Inr (ps, ends, spec)))"

definition newTokenizer ::
    "(string \<times> int) list \<Rightarrow> (string \<times> string) list \<Rightarrow> added_token list \<Rightarrow> (load_error + Tokenizer) option" where
  "newTokenizer vocab mgs as =
     (if vocab = [] \<or> mgs = [] then Some (Inl NoVocabulary)
      else case load_bytes (map_of vocab) [0..<256] (\<lambda>_. 0) of
             Inl e \<Rightarrow> Some (Inl e)
           | Inr ids \<Rightarrow>
               (case load_merges (map_of vocab) mgs 0 (newMergeTable (length mgs)) of
                  None \<Rightarrow> None
                | Some (Inl e) \<Rightarrow> Some (Inl e)
                | Some (Inr tbl) \<Rightarrow>
                    (case load_added as ([empty_node], {}) of
                       Inl e \<Rightarrow> Some (Inl e)
                     | Inr ts \<Rightarrow>
                         (case buildDecoder vocab as of
                            Inl e \<Rightarrow> Some (Inl e)
                          | Inr (ps, ends, spec) \<Rightarrow>
                              Some (Inr \<lparr>byteID = ids, merges = tbl, added = ts, pieces = ps,
                                pieceEnd = ends, special = spec, marks = False\<rparr>)))))"

section \<open>Model: decoding\<close>

definition Special :: "Tokenizer \<Rightarrow> int \<Rightarrow> bool" where
  "Special t i \<longleftrightarrow> 0 \<le> i \<and> i < int (length (special t)) \<and> special t ! nat i"

definition Piece :: "Tokenizer \<Rightarrow> int \<Rightarrow> string" where
  "Piece t i =
     (if i < 0 \<or> int (length (pieceEnd t)) \<le> i then []
      else let start = (if 0 < i then pieceEnd t ! (nat i - 1) else 0)
           in take (pieceEnd t ! nat i - start) (drop start (pieces t)))"

text \<open>The length of the maximal subpart of an ill-formed sequence.\<close>

fun span_loop :: "string \<Rightarrow> nat \<Rightarrow> nat \<Rightarrow> nat \<Rightarrow> nat" where
  "span_loop [] need lo hi = 0"
| "span_loop (c # cs) need lo hi =
     (case need of 0 \<Rightarrow> 0
      | Suc k \<Rightarrow> if bv c < lo \<or> hi < bv c then 0 else Suc (span_loop cs k 0x80 0xBF))"

definition invalidUTF8Span :: "string \<Rightarrow> nat" where
  "invalidUTF8Span b =
     (case lead_info (bv (b ! 0)) of
        None \<Rightarrow> 1
      | Some (width, lo, hi) \<Rightarrow> Suc (span_loop (tl b) (width - 1) lo hi))"

definition replacement :: string where
  "replacement = [CHR 0xEF, CHR 0xBF, CHR 0xBD]"

function appendReplacingInvalid :: "string \<Rightarrow> string \<Rightarrow> string" where
  "appendReplacingInvalid dst src =
     (if src = [] then dst
      else if bv (hd src) < RuneSelf then appendReplacingInvalid (dst @ [hd src]) (tl src)
      else let (r, width) = DecodeRune src in
           if r \<noteq> RuneError \<or> 1 < width then appendReplacingInvalid (dst @ take width src) (drop width src)
           else appendReplacingInvalid (dst @ replacement) (drop (invalidUTF8Span src) src))"
  by pat_completeness auto
termination
proof (relation "measure (\<lambda>(dst, src). length src)", goal_cases)
  case (2 dst src)
  then show ?case by (cases src) auto
next
  case (3 dst src x r width)
  then have "1 \<le> width" using DecodeRune_size_pos [of src] by (metis snd_conv)
  with 3 show ?case by (cases src) auto
next
  case (4 dst src x r width)
  then show ?case by (cases src) (auto simp: invalidUTF8Span_def split: option.splits)
qed simp

declare appendReplacingInvalid.simps [simp del]

definition DecodeAppend :: "Tokenizer \<Rightarrow> string \<Rightarrow> int list \<Rightarrow> bool \<Rightarrow> string" where
  "DecodeAppend t dst ids skipSpecial =
     (let raw = concat (map (Piece t) (filter (\<lambda>i. \<not> (skipSpecial \<and> Special t i)) ids))
      in if utf8_Valid raw then dst @ raw else dst @ appendReplacingInvalid [] raw)"

section \<open>Model: encoding\<close>

definition tok_get :: "Tokenizer \<Rightarrow> merge_fun" where
  "tok_get t l r = (case merge_get (merges t) (qwenPair l r) of Some (m, True) \<Rightarrow> Some m | _ \<Rightarrow> None)"

fun encode_pieces :: "Tokenizer \<Rightarrow> nat \<Rightarrow> string list \<Rightarrow> int list \<Rightarrow> (token_error + int list) option" where
  "encode_pieces t cap [] out = Some (Inr out)"
| "encode_pieces t cap (p # ps) out =
     (case encodePiece (tok_get t) cap (map (byteID t) p) out of
        Some (Inr out') \<Rightarrow> encode_pieces t cap ps out'
      | r \<Rightarrow> r)"

text \<open>\<open>quick\<close> and \<open>nfc\<close> are \<open>norm.NFC.QuickSpanString\<close> and the NFC iterator.\<close>

definition normalize :: "(string \<Rightarrow> nat) \<Rightarrow> (string \<Rightarrow> string) \<Rightarrow> string \<Rightarrow> string" where
  "normalize quick nfc gap = (if quick gap = length gap then gap else nfc gap)"

definition encodeGap ::
    "unicode_tables \<Rightarrow> (string \<Rightarrow> string) \<Rightarrow> Tokenizer \<Rightarrow> nat \<Rightarrow> string \<Rightarrow> int list \<Rightarrow> (token_error + int list) option" where
  "encodeGap uc nm t cap gap out =
     (if gap = [] then Some (Inr out)
      else encode_pieces t cap (qwen_pieces uc (marks t) (nm gap) 0) out)"

definition substr :: "string \<Rightarrow> nat \<Rightarrow> nat \<Rightarrow> string" where
  "substr s a b = take (b - a) (drop a s)"

text \<open>The scan of \<open>EncodeInto\<close>: \<open>i\<close> the position, \<open>gapStart\<close> the end of the last added token.\<close>

lemma matchAdded_bound: "start \<le> length text \<Longrightarrow> start \<le> snd (matchAdded t text start) \<and> snd (matchAdded t text start) \<le> length text"
  using matchAdded_spec [of t "text" start "fst (matchAdded t text start)" "snd (matchAdded t text start)"]
  by (auto simp: longest_def)

function encode_scan ::
    "unicode_tables \<Rightarrow> (string \<Rightarrow> string) \<Rightarrow> Tokenizer \<Rightarrow> nat \<Rightarrow> string \<Rightarrow> nat \<Rightarrow> nat \<Rightarrow> int list \<Rightarrow> (token_error + int list) option" where
  "encode_scan uc nm t cap text i gapStart out =
     (if i < length text then
        let (tid, e) = (if text ! i \<in> snd (added t) then matchAdded (fst (added t)) text i else (-1, i)) in
        if i < e then
          (case encodeGap uc nm t cap (substr text gapStart i) out of
             None \<Rightarrow> None
           | Some (Inl err) \<Rightarrow> Some (Inl err)
           | Some (Inr out1) \<Rightarrow>
               if length out1 = cap then Some (Inl ErrTokenBufferSmall)
               else encode_scan uc nm t cap text e e (out1 @ [tid]))
        else encode_scan uc nm t cap text (i + max 1 (snd (DecodeRune (drop i text)))) gapStart out
      else encodeGap uc nm t cap (drop gapStart text) out)"
  by pat_completeness auto
termination
  by (relation "measure (\<lambda>(uc, nm, t, cap, text, i, g, out). length text - i)") auto

declare encode_scan.simps [simp del]

definition EncodeInto ::
    "unicode_tables \<Rightarrow> (string \<Rightarrow> nat) \<Rightarrow> (string \<Rightarrow> string) \<Rightarrow> Tokenizer option \<Rightarrow> string \<Rightarrow> nat \<Rightarrow> bool
      \<Rightarrow> (token_error + int list) option" where
  "EncodeInto uc quick nfc t text cap ws =
     (case t of
        None \<Rightarrow> Some (Inl ErrNilTokenizer)
      | Some t \<Rightarrow>
          if \<not> ws then Some (Inl ErrTokenizerWorkspace)
          else encode_scan uc (normalize quick nfc) t cap text 0 0 [])"

end
