(* ===== verification/Tokenizer_Decode.thy ===== *)
theory Tokenizer_Decode
  imports Tokenizer
begin

text \<open>
  Decoding: \<open>DecodeAppend\<close> writes well-formed UTF-8 whatever the tokens, and the repair replaces
  maximal subparts of ill-formed sequences, as the Unicode standard recommends and as Python's
  \<^verbatim>\<open>errors="replace"\<close> does.
\<close>

section \<open>The repair loop\<close>

lemma utf8_Valid_replacement: "utf8_Valid replacement"
  by (simp add: replacement_def utf8_Valid.simps DecodeRune_def decode_bad_def RuneError_def RuneSelf_def lead_info_def is_cont_def)

text \<open>The three ways the repair loop consumes its input.\<close>

lemma appendReplacingInvalid_good:
  assumes "src \<noteq> []" and "\<not> decode_bad src"
  shows "appendReplacingInvalid dst src =
    appendReplacingInvalid (dst @ take (snd (DecodeRune src)) src) (drop (snd (DecodeRune src)) src)"
proof (cases "bv (hd src) < RuneSelf")
  case True
  then obtain c s where src: "src = c # s" "bv c < RuneSelf" using assms(1) by (cases src) auto
  then have "DecodeRune src = (bv c, 1)" by (simp add: DecodeRune_def)
  with src show ?thesis by (subst appendReplacingInvalid.simps) simp
next
  case False
  have "fst (DecodeRune src) \<noteq> RuneError \<or> 1 < snd (DecodeRune src)"
    using assms DecodeRune_size_pos [OF assms(1)] by (auto simp: decode_bad_def prod_eq_iff)
  then show ?thesis using False assms(1) by (subst appendReplacingInvalid.simps) (simp add: case_prod_beta)
qed

lemma appendReplacingInvalid_bad:
  assumes "decode_bad src"
  shows "appendReplacingInvalid dst src = appendReplacingInvalid (dst @ replacement) (drop (invalidUTF8Span src) src)"
proof -
  have "src \<noteq> []" using assms by (auto simp: decode_bad_def DecodeRune_def)
  moreover from this have "\<not> bv (hd src) < RuneSelf"
    using assms by (cases src) (auto simp: decode_bad_def DecodeRune_def RuneError_def RuneSelf_def)
  ultimately show ?thesis using assms by (subst appendReplacingInvalid.simps) (simp add: decode_bad_def)
qed

lemma invalidUTF8Span_pos: "1 \<le> invalidUTF8Span b"
  by (simp add: invalidUTF8Span_def split: option.splits)

lemma appendReplacingInvalid_valid:
  "utf8_Valid dst \<Longrightarrow> utf8_Valid (appendReplacingInvalid dst src)"
proof (induction "length src" arbitrary: dst src rule: less_induct)
  case less
  show ?case
  proof (cases "src = []")
    case True
    then show ?thesis using less.prems by (subst appendReplacingInvalid.simps) simp
  next
    case False
    show ?thesis
    proof (cases "decode_bad src")
      case True
      then show ?thesis
        using less.hyps [of "drop (invalidUTF8Span src) src" "dst @ replacement"] less.prems False invalidUTF8Span_pos [of src]
        by (simp add: appendReplacingInvalid_bad utf8_Valid_append utf8_Valid_replacement)
    next
      case good: False
      then show ?thesis
        using less.hyps [of "drop (snd (DecodeRune src)) src" "dst @ take (snd (DecodeRune src)) src"] less.prems False
          DecodeRune_size_pos [OF False] utf8_Valid_rune [OF good False]
        by (simp add: appendReplacingInvalid_good utf8_Valid_append)
    qed
  qed
qed

lemma appendReplacingInvalid_id:
  "utf8_Valid src \<Longrightarrow> appendReplacingInvalid dst src = dst @ src"
proof (induction "length src" arbitrary: dst src rule: less_induct)
  case less
  show ?case
  proof (cases "src = []")
    case True
    then show ?thesis by (subst appendReplacingInvalid.simps) simp
  next
    case False
    with less.prems have good: "\<not> decode_bad src" "utf8_Valid (drop (snd (DecodeRune src)) src)"
      by (simp_all add: utf8_Valid.simps [of src] split: if_splits)
    show ?thesis
      using less.hyps [of "drop (snd (DecodeRune src)) src" "dst @ take (snd (DecodeRune src)) src"] good(2) False
        DecodeRune_size_pos [OF False] by (simp add: appendReplacingInvalid_good [OF False good(1)])
  qed
qed

section \<open>Maximal subparts\<close>

text \<open>
  What one replacement character stands for: the longest initial part of the input that some
  well-formed sequence starts with, or one byte when there is none.
\<close>

definition rune_bytes :: "string \<Rightarrow> bool" where
  "rune_bytes r \<longleftrightarrow> r \<noteq> [] \<and> \<not> decode_bad r \<and> snd (DecodeRune r) = length r"

definition starts_rune :: "string \<Rightarrow> bool" where
  "starts_rune p \<longleftrightarrow> (\<exists>q. rune_bytes (p @ q))"

lemma span_loop_take:
  "k \<le> length cs \<Longrightarrow> span_loop (take k cs) need lo hi = k \<longleftrightarrow> k \<le> span_loop cs need lo hi"
proof (induction cs arbitrary: k need lo hi)
  case (Cons c cs)
  then show ?case by (cases k; cases need) auto
qed simp

lemma span_loop_le: "span_loop cs need lo hi \<le> need \<and> span_loop cs need lo hi \<le> length cs"
  by (induction cs arbitrary: need lo hi) (auto split: nat.splits)

lemma of_char_byte: "b < 256 \<Longrightarrow> bv (char_of b) = b"
  by (simp add: of_char_of)

lemma lead_info_range: "lead_info b = Some (w, lo, hi) \<Longrightarrow> 128 \<le> lo \<and> lo \<le> hi \<and> hi \<le> 191 \<and> 128 \<le> b"
  by (auto simp: lead_info_def split: if_splits)

lemma rune_bytes_iff:
  assumes "\<not> bv c < RuneSelf"
  shows "rune_bytes (c # cs) \<longleftrightarrow> (\<exists>w lo hi. lead_info (bv c) = Some (w, lo, hi) \<and> length cs = w - 1 \<and> span_loop cs (w - 1) lo hi = w - 1)"
    (is "?l \<longleftrightarrow> ?r")
proof
  assume ?l
  then have g: "\<not> decode_bad (c # cs)" "snd (DecodeRune (c # cs)) = Suc (length cs)" by (simp_all add: rune_bytes_def)
  from g(1) have "c # cs \<noteq> []" by simp
  with g(1) show ?r
    by (cases rule: DecodeRune_good) (use g(2) assms in \<open>auto simp: DecodeRune_def is_cont_def numeral_2_eq_2 numeral_3_eq_3\<close>)
next
  assume ?r
  then obtain w lo hi where w: "lead_info (bv c) = Some (w, lo, hi)" "length cs = w - 1" "span_loop cs (w - 1) lo hi = w - 1" by blast
  from lead_info_width [OF w(1)] show ?l
  proof (elim disjE)
    assume "w = 2"
    with w(2) obtain c1 where "cs = [c1]" by (auto simp: length_Suc_conv)
    with w \<open>w = 2\<close> assms show ?l by (auto simp: rune_bytes_def decode_bad_def DecodeRune_def split: if_splits)
  next
    assume "w = 3"
    with w(2) obtain c1 c2 where "cs = [c1, c2]" by (auto simp: length_Suc_conv numeral_2_eq_2)
    with w \<open>w = 3\<close> assms show ?l
      by (auto simp: rune_bytes_def decode_bad_def DecodeRune_def is_cont_def numeral_2_eq_2 split: if_splits)
  next
    assume "w = 4"
    with w(2) obtain c1 c2 c3 where "cs = [c1, c2, c3]" by (auto simp: length_Suc_conv numeral_3_eq_3)
    with w \<open>w = 4\<close> assms show ?l
      by (auto simp: rune_bytes_def decode_bad_def DecodeRune_def is_cont_def numeral_3_eq_3 split: if_splits)
  qed
qed

lemma span_replicate: "span_loop (replicate n (char_of (128::nat))) n 128 191 = n"
  by (induction n) (simp_all add: of_char_of)

lemma span_extend:
  "span_loop cs need lo hi = length cs \<Longrightarrow> 128 \<le> lo \<Longrightarrow> lo \<le> hi \<Longrightarrow> hi \<le> 191 \<Longrightarrow>
    \<exists>q. length (cs @ q) = need \<and> span_loop (cs @ q) need lo hi = need"
proof (induction cs arbitrary: need lo hi)
  case Nil
  show ?case
  proof (cases need)
    case (Suc n)
    have "span_loop (char_of lo # replicate n (char_of (128::nat))) need lo hi = need"
      using Nil.prems Suc span_replicate [of n] by (simp add: of_char_of)
    then show ?thesis using Suc by (intro exI [of _ "char_of lo # replicate n (char_of (128::nat))"]) simp
  qed simp
next
  case (Cons c cs)
  then obtain n where n: "need = Suc n" "\<not> (bv c < lo \<or> hi < bv c)" "span_loop cs n 128 191 = length cs"
    by (auto split: nat.splits if_splits)
  from Cons.IH [OF n(3)] obtain q where "length (cs @ q) = n" "span_loop (cs @ q) n 128 191 = n" by auto
  with n show ?case by (intro exI [of _ q]) simp
qed

lemma starts_rune_iff:
  assumes "\<not> bv c < RuneSelf"
  shows "starts_rune (c # cs) \<longleftrightarrow> (\<exists>w lo hi. lead_info (bv c) = Some (w, lo, hi) \<and> span_loop cs (w - 1) lo hi = length cs)"
proof
  assume "starts_rune (c # cs)"
  then obtain q w lo hi where w: "lead_info (bv c) = Some (w, lo, hi)" "length (cs @ q) = w - 1" "span_loop (cs @ q) (w - 1) lo hi = w - 1"
    using rune_bytes_iff [OF assms] by (auto simp: starts_rune_def)
  with span_loop_take [of "length cs" "cs @ q" "w - 1" lo hi] have "span_loop cs (w - 1) lo hi = length cs" by simp
  with w(1) show "\<exists>w lo hi. lead_info (bv c) = Some (w, lo, hi) \<and> span_loop cs (w - 1) lo hi = length cs" by blast
next
  assume "\<exists>w lo hi. lead_info (bv c) = Some (w, lo, hi) \<and> span_loop cs (w - 1) lo hi = length cs"
  then obtain w lo hi where w: "lead_info (bv c) = Some (w, lo, hi)" "span_loop cs (w - 1) lo hi = length cs" by blast
  with span_extend [OF w(2)] lead_info_range [OF w(1)] obtain q where "length (cs @ q) = w - 1" "span_loop (cs @ q) (w - 1) lo hi = w - 1"
    by blast
  with w(1) have "rune_bytes (c # cs @ q)" unfolding rune_bytes_iff [OF assms] by blast
  then show "starts_rune (c # cs)" by (auto simp: starts_rune_def)
qed

lemma invalidUTF8Span_maximal:
  assumes "decode_bad src"
  shows "invalidUTF8Span src \<le> length src"
    and "k \<le> length src \<Longrightarrow> invalidUTF8Span src < k \<Longrightarrow> \<not> starts_rune (take k src)"
    and "invalidUTF8Span src = 1 \<or> starts_rune (take (invalidUTF8Span src) src)"
proof -
  obtain c cs where src: "src = c # cs" using assms by (cases src) (auto simp: decode_bad_def DecodeRune_def)
  have c: "\<not> bv c < RuneSelf" using assms src by (auto simp: decode_bad_def DecodeRune_def RuneError_def RuneSelf_def)
  have starts: "starts_rune (take (Suc j) src) \<longleftrightarrow> (\<exists>w lo hi. lead_info (bv c) = Some (w, lo, hi) \<and> j \<le> span_loop cs (w - 1) lo hi)"
    if "j \<le> length cs" for j
    using starts_rune_iff [OF c, of "take j cs"] span_loop_take [OF that] that src by (simp add: min_absorb2)
  show "invalidUTF8Span src \<le> length src"
    using span_loop_le src by (auto simp: invalidUTF8Span_def split: option.splits)
  show "k \<le> length src \<Longrightarrow> invalidUTF8Span src < k \<Longrightarrow> \<not> starts_rune (take k src)"
    using starts [of "k - 1"] src by (auto simp: invalidUTF8Span_def split: option.splits)
  show "invalidUTF8Span src = 1 \<or> starts_rune (take (invalidUTF8Span src) src)"
    using starts [of "invalidUTF8Span src - 1"] span_loop_le src by (auto simp: invalidUTF8Span_def split: option.splits)
qed

section \<open>Properties\<close>

text \<open>
  Whatever the tokens, \<open>DecodeAppend\<close> keeps what was in \<open>dst\<close> and appends the repaired
  bytes of the tokens it keeps, which are always well-formed UTF-8.
\<close>

theorem DecodeAppend_utf8:
  "let raw = concat (map (Piece t) (filter (\<lambda>i. \<not> (skip \<and> Special t i)) ids)); u = appendReplacingInvalid [] raw
   in DecodeAppend t dst ids skip = dst @ u \<and> utf8_Valid u"
  by (simp add: DecodeAppend_def Let_def appendReplacingInvalid_valid appendReplacingInvalid_id)

text \<open>
  C25: the repair copies well-formed text unchanged, and replaces at the first ill-formed
  position \<open>bad\<close> exactly the maximal subpart: the longest initial part that begins some
  well-formed sequence, or one byte, by U+FFFD, and goes on behind it.
\<close>

theorem appendReplacingInvalid_maximal_subpart:
  assumes "utf8_Valid good" and "decode_bad bad"
  shows "\<exists>n. 1 \<le> n \<and> n \<le> length bad
    \<and> (n = 1 \<or> starts_rune (take n bad)) \<and> (\<forall>k \<le> length bad. n < k \<longrightarrow> \<not> starts_rune (take k bad))
    \<and> appendReplacingInvalid dst (good @ bad) = appendReplacingInvalid (dst @ good @ replacement) (drop n bad)"
  using assms(1)
proof (induction "length good" arbitrary: dst good rule: less_induct)
  case less
  show ?case
  proof (cases "good = []")
    case True
    then show ?thesis
      using invalidUTF8Span_maximal [OF assms(2)] invalidUTF8Span_pos [of bad] appendReplacingInvalid_bad [OF assms(2)]
      by (intro exI [of _ "invalidUTF8Span bad"]) auto
  next
    case False
    with less.prems have g: "\<not> decode_bad good" "utf8_Valid (drop (snd (DecodeRune good)) good)"
      by (simp_all add: utf8_Valid.simps [of good] split: if_splits)
    let ?n = "snd (DecodeRune good)"
    note d = DecodeRune_append [OF g(1) False, of bad]
    have "\<not> decode_bad (good @ bad)" using g(1) d by (simp add: decode_bad_def)
    then have "appendReplacingInvalid dst (good @ bad) = appendReplacingInvalid (dst @ take ?n good) (drop ?n good @ bad)"
      using False DecodeRune_size_le [of good] by (subst appendReplacingInvalid_good) (simp_all add: d)
    moreover have "length (drop ?n good) < length good" using False DecodeRune_size_pos [OF False] by simp
    ultimately show ?thesis using less.hyps [OF _ g(2), of "dst @ take ?n good"]
      by (metis (no_types, lifting) append.assoc append_take_drop_id)
  qed
qed

text \<open>A lead byte with one of its two continuation bytes, after an ASCII letter.\<close>

theorem appendReplacingInvalid_maximal_subpart_witness:
  "\<exists>n. 1 \<le> n \<and> n \<le> length [CHR 0xE2, CHR 0x82, CHR ''x'']
    \<and> (n = 1 \<or> starts_rune (take n [CHR 0xE2, CHR 0x82, CHR ''x'']))
    \<and> (\<forall>k \<le> length [CHR 0xE2, CHR 0x82, CHR ''x'']. n < k \<longrightarrow> \<not> starts_rune (take k [CHR 0xE2, CHR 0x82, CHR ''x'']))
    \<and> appendReplacingInvalid [] (''a'' @ [CHR 0xE2, CHR 0x82, CHR ''x'']) =
      appendReplacingInvalid ([] @ ''a'' @ replacement) (drop n [CHR 0xE2, CHR 0x82, CHR ''x''])"
  by (rule appendReplacingInvalid_maximal_subpart)
    (simp_all add: utf8_Valid.simps DecodeRune_def decode_bad_def RuneError_def RuneSelf_def lead_info_def is_cont_def)

end
