(* ===== verification/Whisper_Text.thy ===== *)
theory Whisper_Text
  imports Tokenizer_Decode
begin

text \<open>
  The text side of Whisper's transcripts (\<^verbatim>\<open>src/whisper/transcribe_full.go\<close>): the repair of ill-formed UTF-8
  once all segments are together, the mapping of segment boundaries into the repaired text, and white
  space.  Proved: the repair is the one of the Qwen tokenizer, and every mapped slice is well-formed.
\<close>

section \<open>Model: the repair\<close>

function utf8_tail :: "string \<Rightarrow> nat \<Rightarrow> nat \<Rightarrow> nat \<Rightarrow> nat \<Rightarrow> nat \<times> bool" where
  "utf8_tail src width secondMin secondMax consumed =
     (if consumed < width then
        if length src \<le> consumed then (consumed, False)
        else let x = bv (src ! consumed) in
          if (if consumed = 1 then x < secondMin \<or> secondMax < x else x < 0x80 \<or> 0xBF < x) then (consumed, False)
          else utf8_tail src width secondMin secondMax (consumed + 1)
      else (width, True))"
  by pat_completeness auto
termination by (relation "measure (\<lambda>(src, width, lo, hi, consumed). width - consumed)") auto

declare utf8_tail.simps [simp del]

text \<open>\<open>utf8Prefix\<close> of a text that is not empty; its switch on the first byte is \<open>lead_info\<close>.\<close>

definition utf8Prefix :: "string \<Rightarrow> nat \<times> bool" where
  "utf8Prefix src =
     (if bv (src ! 0) < 0x80 then (1, True)
      else case lead_info (bv (src ! 0)) of
             None \<Rightarrow> (1, False)
           | Some (width, secondMin, secondMax) \<Rightarrow> utf8_tail src width secondMin secondMax 1)"

section \<open>The prefix of a text\<close>

lemma utf8_tail_span:
  assumes "1 \<le> consumed" "consumed \<le> width" "consumed \<le> length src"
  shows "utf8_tail src width lo hi consumed =
    (let n = consumed + span_loop (drop consumed src) (width - consumed) (if consumed = 1 then lo else 0x80) (if consumed = 1 then hi else 0xBF)
     in (n, n = width))"
  using assms
proof (induction src width lo hi consumed rule: utf8_tail.induct)
  case (1 src width lo hi consumed)
  show ?case
  proof (cases "consumed < width \<and> consumed < length src")
    case False
    then consider "consumed = width" | "consumed < width" "length src = consumed" using "1.prems" by linarith
    then show ?thesis
    proof cases
      case 1
      then show ?thesis by (subst utf8_tail.simps) (cases "drop consumed src"; simp)
    next
      case 2
      then show ?thesis by (subst utf8_tail.simps) simp
    qed
  next
    case True
    let ?x = "bv (src ! consumed)"
    let ?lo = "if consumed = 1 then lo else 0x80" and ?hi = "if consumed = 1 then hi else 0xBF"
    have d: "drop consumed src = src ! consumed # drop (consumed + 1) src" using True by (simp add: Cons_nth_drop_Suc)
    obtain k where k: "width - consumed = Suc k" "k = width - (consumed + 1)" using True by (cases "width - consumed") auto
    have bad: "(if consumed = 1 then ?x < lo \<or> hi < ?x else ?x < 0x80 \<or> 0xBF < ?x) \<longleftrightarrow> ?x < ?lo \<or> ?hi < ?x" by simp
    show ?thesis
    proof (cases "?x < ?lo \<or> ?hi < ?x")
      case b: True
      have "utf8_tail src width lo hi consumed = (consumed, False)"
        by (subst utf8_tail.simps) (use True b in \<open>auto simp: Let_def\<close>)
      then show ?thesis using b d k True by (simp add: Let_def)
    next
      case b: False
      have rec: "utf8_tail src width lo hi consumed = utf8_tail src width lo hi (consumed + 1)"
        by (subst utf8_tail.simps) (use True b in \<open>auto simp: Let_def\<close>)
      have "utf8_tail src width lo hi (consumed + 1) =
          (let n = consumed + 1 + span_loop (drop (consumed + 1) src) (width - (consumed + 1)) 0x80 0xBF in (n, n = width))"
        using "1.IH" [of ?x] True b "1.prems" by (cases "consumed = Suc 0") (auto simp: not_less)
      then show ?thesis unfolding rec using b d k by (simp add: Let_def)
    qed
  qed
qed

lemma good_width: "\<lbrakk>\<not> decode_bad s; s \<noteq> []; lead_info (bv (s ! 0)) = Some (w, lo, hi); \<not> bv (s ! 0) < RuneSelf\<rbrakk> \<Longrightarrow> snd (DecodeRune s) = w"
  by (erule DecodeRune_good) (auto simp: DecodeRune_def is_cont_def split: list.splits)

lemma span_none [simp]: "span_loop cs 0 lo hi = 0"
  by (cases cs) auto

lemma decode_bad_span:
  assumes "lead_info (bv c) = Some (w, lo, hi)" "\<not> bv c < RuneSelf"
  shows "decode_bad (c # cs) \<longleftrightarrow> span_loop cs (w - 1) lo hi \<noteq> w - 1"
proof -
  have d: "decode_bad (c # cs) \<longleftrightarrow> DecodeRune (c # cs) = (RuneError, 1)" by (simp add: decode_bad_def)
  from lead_info_width [OF assms(1)] consider "w = 2" | "w = 3" | "w = 4" by blast
  then show ?thesis
  proof cases
    case 1
    then show ?thesis using assms unfolding d by (cases cs) (auto simp: DecodeRune_def)
  next
    case 2
    then show ?thesis using assms unfolding d
      by (cases cs; cases "tl cs") (auto simp: DecodeRune_def is_cont_def numeral_2_eq_2)
  next
    case 3
    then show ?thesis using assms unfolding d
      by (cases cs; cases "tl cs"; cases "tl (tl cs)") (auto simp: DecodeRune_def is_cont_def numeral_3_eq_3)
  qed
qed

text \<open>One sequence where the text starts with one, otherwise the maximal subpart.\<close>

lemma utf8Prefix_eq:
  assumes "src \<noteq> []"
  shows "utf8Prefix src = (if decode_bad src then (invalidUTF8Span src, False) else (snd (DecodeRune src), True))"
proof -
  obtain c cs where src: "src = c # cs" using assms by (cases src) auto
  show ?thesis
  proof (cases "bv c < RuneSelf")
    case True
    then show ?thesis by (auto simp: src utf8Prefix_def DecodeRune_def decode_bad_def RuneSelf_def RuneError_def)
  next
    case high: False
    show ?thesis
    proof (cases "lead_info (bv c)")
      case None
      then have "decode_bad src" using high by (simp add: src decode_bad_def DecodeRune_def)
      then show ?thesis using None high by (simp add: src utf8Prefix_def invalidUTF8Span_def RuneSelf_def)
    next
      case (Some p)
      obtain w lo hi where p: "p = (w, lo, hi)" by (cases p)
      have w: "w = 2 \<or> w = 3 \<or> w = 4" using Some p lead_info_width by blast
      let ?n = "Suc (span_loop cs (w - 1) lo hi)"
      have u: "utf8Prefix src = (?n, ?n = w)"
        using Some p high w utf8_tail_span [of 1 w src lo hi] by (auto simp: src utf8Prefix_def RuneSelf_def Let_def)
      have n: "invalidUTF8Span src = ?n" using Some p by (simp add: src invalidUTF8Span_def)
      have "decode_bad src \<longleftrightarrow> ?n \<noteq> w"
        using decode_bad_span [of c w lo hi cs] Some p high w by (auto simp: src)
      moreover have "snd (DecodeRune src) = w" if "\<not> decode_bad src"
        using good_width [OF that assms] Some p high by (simp add: src)
      ultimately show ?thesis using u n by auto
    qed
  qed
qed

lemma utf8Prefix_width: "src \<noteq> [] \<Longrightarrow> 1 \<le> fst (utf8Prefix src) \<and> fst (utf8Prefix src) \<le> length src"
  using DecodeRune_size_pos [of src] DecodeRune_size_le [of src] invalidUTF8Span_pos [of src] invalidUTF8Span_maximal(1) [of src]
  by (simp add: utf8Prefix_eq)

section \<open>Model: repairing and remapping\<close>

text \<open>The two passes of \<open>repairTranscriptionUTF8\<close> over the text: its length, and the bytes.\<close>

function repair_need :: "string \<Rightarrow> nat" where
  "repair_need raw =
     (if raw = [] then 0
      else let (width, valid) = utf8Prefix raw in (if valid then width else 3) + repair_need (drop width raw))"
  by pat_completeness auto
termination
proof (relation "measure length", goal_cases)
  case (2 raw p width valid)
  then show ?case using utf8Prefix_width [of raw] by (cases "utf8Prefix raw"; cases raw) auto
qed simp

function repair_write :: "string \<Rightarrow> string" where
  "repair_write raw =
     (if raw = [] then []
      else let (width, valid) = utf8Prefix raw in (if valid then take width raw else replacement) @ repair_write (drop width raw))"
  by pat_completeness auto
termination
proof (relation "measure length", goal_cases)
  case (2 raw p width valid)
  then show ?case using utf8Prefix_width [of raw] by (cases "utf8Prefix raw"; cases raw) auto
qed simp

declare repair_need.simps [simp del] repair_write.simps [simp del]

text \<open>The text and whether it fits: otherwise the transcript is dropped.\<close>

definition repairTranscriptionUTF8 :: "nat \<Rightarrow> string \<Rightarrow> nat \<Rightarrow> string \<times> bool" where
  "repairTranscriptionUTF8 capacity dst start =
     (let raw = drop start dst in
      if utf8_Valid raw then (dst, True)
      else if capacity < start + repair_need raw then (take start dst, False)
      else (take start dst @ repair_write raw, True))"

function remap_from :: "string \<Rightarrow> nat \<Rightarrow> bool \<Rightarrow> nat \<Rightarrow> nat \<Rightarrow> nat" where
  "remap_from raw boundary fin oldAt newAt =
     (if oldAt < length raw then
        let (width, valid) = utf8Prefix (drop oldAt raw); outputWidth = (if valid then width else 3) in
        if boundary \<le> oldAt + width then
          if boundary < oldAt + width \<and> \<not> fin then newAt else newAt + outputWidth
        else remap_from raw boundary fin (oldAt + width) (newAt + outputWidth)
      else newAt)"
  by pat_completeness auto
termination
proof (relation "measure (\<lambda>(raw, boundary, fin, oldAt, newAt). length raw - oldAt)", goal_cases)
  case (2 raw boundary fin oldAt newAt p width valid outputWidth)
  then have "1 \<le> width" using utf8Prefix_width [of "drop oldAt raw"] by (metis drop_eq_Nil fst_conv not_le)
  then show ?case using 2 by auto
qed simp

declare remap_from.simps [simp del]

definition remapUTF8Boundary :: "string \<Rightarrow> int \<Rightarrow> bool \<Rightarrow> nat" where
  "remapUTF8Boundary raw boundary fin = (if boundary \<le> 0 then 0 else remap_from raw (nat boundary) fin 0 0)"

section \<open>Model: white space\<close>

definition whisperSpace :: "unicode_tables \<Rightarrow> nat \<Rightarrow> bool" where
  "whisperSpace uc r \<longleftrightarrow> IsSpace uc r \<or> 0x1C \<le> r \<and> r \<le> 0x1F"

function blankWhisperText :: "unicode_tables \<Rightarrow> string \<Rightarrow> bool" where
  "blankWhisperText uc s =
     (if s = [] then True
      else let (r, width) = DecodeRune s in if \<not> whisperSpace uc r then False else blankWhisperText uc (drop width s))"
  by pat_completeness auto
termination
proof (relation "measure (\<lambda>(uc, s). length s)", goal_cases)
  case (2 uc s p r width)
  then show ?case using DecodeRune_size_pos [of s] by (cases "DecodeRune s"; cases s) auto
qed simp

declare blankWhisperText.simps [simp del]

function trim_front :: "unicode_tables \<Rightarrow> string \<Rightarrow> string" where
  "trim_front uc s =
     (if s = [] then []
      else let (r, width) = DecodeRune s in if \<not> whisperSpace uc r then s else trim_front uc (drop width s))"
  by pat_completeness auto
termination
proof (relation "measure (\<lambda>(uc, s). length s)", goal_cases)
  case (2 uc s p r width)
  then show ?case using DecodeRune_size_pos [of s] by (cases "DecodeRune s"; cases s) auto
qed simp

function trim_back :: "unicode_tables \<Rightarrow> string \<Rightarrow> string" where
  "trim_back uc s =
     (if s = [] then []
      else let (r, width) = DecodeLastRune s in if \<not> whisperSpace uc r then s else trim_back uc (take (length s - width) s))"
  by pat_completeness auto
termination
proof (relation "measure (\<lambda>(uc, s). length s)", goal_cases)
  case (2 uc s p r width)
  then show ?case using DecodeLastRune_size_pos [of s] by (cases "DecodeLastRune s"; cases s) auto
qed simp

declare trim_front.simps [simp del] trim_back.simps [simp del]

definition trimWhisperSpace :: "unicode_tables \<Rightarrow> string \<Rightarrow> string" where
  "trimWhisperSpace uc raw = trim_back uc (trim_front uc raw)"

section \<open>The repair is the reference one\<close>

lemma length_repair: "length (repair_write raw) = repair_need raw"
proof (induction raw rule: repair_write.induct)
  case (1 raw)
  then show ?case
    using utf8Prefix_width [of raw] by (subst repair_write.simps, subst repair_need.simps) (auto simp: replacement_def split: prod.splits)
qed

lemma repair_write_eq: "dst @ repair_write raw = appendReplacingInvalid dst raw"
proof (induction raw arbitrary: dst rule: repair_write.induct)
  case (1 raw)
  show ?case
  proof (cases "raw = []")
    case True
    then show ?thesis by (simp add: repair_write.simps appendReplacingInvalid.simps)
  next
    case False
    show ?thesis
    proof (cases "decode_bad raw")
      case True
      then show ?thesis using "1.IH" [OF False refl prod.collapse, of "dst @ replacement"] False
        by (subst repair_write.simps) (simp add: utf8Prefix_eq appendReplacingInvalid_bad)
    next
      case good: False
      then show ?thesis using "1.IH" [OF False refl prod.collapse, of "dst @ take (snd (DecodeRune raw)) raw"] False
        by (subst repair_write.simps) (simp add: utf8Prefix_eq appendReplacingInvalid_good)
    qed
  qed
qed

lemma repair_valid: "utf8_Valid (repair_write raw)"
  using repair_write_eq [of "[]" raw] appendReplacingInvalid_valid [of "[]" raw] by simp

section \<open>Boundaries in the repaired text\<close>

text \<open>The text as its sequences and ill-formed parts, each with what the repair writes for it.\<close>

function utf8_chunks :: "string \<Rightarrow> (string \<times> string) list" where
  "utf8_chunks raw =
     (if raw = [] then []
      else let (width, valid) = utf8Prefix raw in (take width raw, if valid then take width raw else replacement) # utf8_chunks (drop width raw))"
  by pat_completeness auto
termination
proof (relation "measure length", goal_cases)
  case (2 raw p width valid)
  then show ?case using utf8Prefix_width [of raw] by (cases "utf8Prefix raw"; cases raw) auto
qed simp

declare utf8_chunks.simps [simp del]

abbreviation old_text :: "(string \<times> string) list \<Rightarrow> string" where
  "old_text cs \<equiv> concat (map fst cs)"

abbreviation new_text :: "(string \<times> string) list \<Rightarrow> string" where
  "new_text cs \<equiv> concat (map snd cs)"

lemma chunks_new: "new_text (utf8_chunks raw) = repair_write raw"
proof (induction raw rule: utf8_chunks.induct)
  case (1 raw)
  then show ?case by (subst utf8_chunks.simps, subst repair_write.simps) (auto simp: Let_def split: prod.splits)
qed

lemma chunks_old: "old_text (utf8_chunks raw) = raw"
proof (induction raw rule: utf8_chunks.induct)
  case (1 raw)
  then show ?case by (subst utf8_chunks.simps) (auto simp: Let_def split: prod.splits)
qed

definition chunk_ok :: "string \<times> string \<Rightarrow> bool" where
  "chunk_ok c \<longleftrightarrow> fst c \<noteq> [] \<and> utf8_Valid (snd c)"

lemma chunks_ok: "c \<in> set (utf8_chunks raw) \<Longrightarrow> chunk_ok c"
proof (induction raw rule: utf8_chunks.induct)
  case (1 raw)
  show ?case
  proof (cases "raw = []")
    case True
    then show ?thesis using "1.prems" by (simp add: utf8_chunks.simps)
  next
    case False
    have "chunk_ok (take (fst (utf8Prefix raw)) raw, if snd (utf8Prefix raw) then take (fst (utf8Prefix raw)) raw else replacement)"
      using utf8Prefix_width [OF False] utf8_Valid_rune [OF _ False] utf8_Valid_replacement False
      by (auto simp: chunk_ok_def utf8Prefix_eq)
    then show ?thesis using "1.IH" [OF False refl prod.collapse] "1.prems" False
      by (subst (asm) utf8_chunks.simps) (auto simp: case_prod_beta Let_def)
  qed
qed

fun remap_chunks :: "(string \<times> string) list \<Rightarrow> nat \<Rightarrow> bool \<Rightarrow> nat" where
  "remap_chunks [] b fin = 0"
| "remap_chunks ((old, new) # cs) b fin =
     (if b \<le> length old then if b < length old \<and> \<not> fin then 0 else length new
      else length new + remap_chunks cs (b - length old) fin)"

lemma remap_from_chunks: "remap_from raw b fin oldAt newAt = newAt + remap_chunks (utf8_chunks (drop oldAt raw)) (b - oldAt) fin"
proof (induction raw b fin oldAt newAt rule: remap_from.induct)
  case (1 raw b fin oldAt newAt)
  show ?case
  proof (cases "oldAt < length raw")
    case False
    then show ?thesis by (subst remap_from.simps) (simp add: utf8_chunks.simps)
  next
    case True
    obtain w v where p: "utf8Prefix (drop oldAt raw) = (w, v)" by (cases "utf8Prefix (drop oldAt raw)")
    have w: "1 \<le> w" "oldAt + w \<le> length raw" using utf8Prefix_width [of "drop oldAt raw"] True p by auto
    have c: "utf8_chunks (drop oldAt raw) =
        (take w (drop oldAt raw), if v then take w (drop oldAt raw) else replacement) # utf8_chunks (drop (oldAt + w) raw)"
      using True p by (subst utf8_chunks.simps) (simp add: add.commute)
    have len: "length (if v then take w (drop oldAt raw) else replacement) = (if v then w else 3)"
      using w by (simp add: replacement_def)
    have r: "remap_from raw b fin oldAt newAt =
        (if b \<le> oldAt + w then if b < oldAt + w \<and> \<not> fin then newAt else newAt + (if v then w else 3)
         else remap_from raw b fin (oldAt + w) (newAt + (if v then w else 3)))"
      using True p by (subst remap_from.simps) (simp add: Let_def)
    show ?thesis
    proof (cases "b \<le> oldAt + w")
      case near: True
      have "b - oldAt < w \<longleftrightarrow> b < oldAt + w" "b - oldAt \<le> w" using near w by linarith+
      then show ?thesis using near w unfolding r c by (simp add: len)
    next
      case far: False
      then have "\<not> b - oldAt \<le> w" by linarith
      then show ?thesis using far w "1.IH" [OF True refl p [symmetric] refl far] unfolding r c by (simp add: len)
    qed
  qed
qed

text \<open>A start lands on the last chunk border at or before it, an end on the first at or after it.\<close>

lemma remap_start:
  assumes "\<forall>c\<in>set cs. chunk_ok c"
  shows "\<exists>k\<le>length cs. remap_chunks cs b False = length (new_text (take k cs)) \<and> length (old_text (take k cs)) \<le> b"
  using assms
proof (induction cs arbitrary: b)
  case (Cons c cs)
  obtain a z where c: "c = (a, z)" by (cases c)
  show ?case
  proof (cases "b < length a")
    case True
    then show ?thesis by (intro exI [of _ 0]) (simp add: c)
  next
    case False
    obtain k where k: "k \<le> length cs" "remap_chunks cs (b - length a) False = length (new_text (take k cs))"
      "length (old_text (take k cs)) \<le> b - length a" using Cons by (metis list.set_intros(2))
    show ?thesis
    proof (cases "b = length a")
      case True
      then show ?thesis by (intro exI [of _ 1]) (simp add: c)
    next
      case far: False
      then show ?thesis using k False by (intro exI [of _ "Suc k"]) (auto simp: c)
    qed
  qed
qed simp

lemma remap_end:
  assumes "b \<le> length (old_text cs)" "0 < b"
  shows "\<exists>k\<le>length cs. remap_chunks cs b True = length (new_text (take k cs)) \<and> b \<le> length (old_text (take k cs))"
  using assms
proof (induction cs arbitrary: b)
  case (Cons c cs)
  obtain a z where c: "c = (a, z)" by (cases c)
  show ?case
  proof (cases "b \<le> length a")
    case True
    then show ?thesis by (intro exI [of _ 1]) (simp add: c)
  next
    case False
    then obtain k where "k \<le> length cs" "remap_chunks cs (b - length a) True = length (new_text (take k cs))"
      "b - length a \<le> length (old_text (take k cs))" using Cons.IH [of "b - length a"] Cons.prems by (auto simp: c le_diff_conv)
    then show ?thesis using False by (intro exI [of _ "Suc k"]) (auto simp: c)
  qed
qed simp

lemma take_text_split:
  assumes "j \<le> k"
  shows "new_text (take k cs) = new_text (take j cs) @ new_text (take (k - j) (drop j cs))"
  using assms take_add [of j "k - j" cs] by simp

lemma old_text_mono:
  assumes "\<forall>c\<in>set cs. chunk_ok c" "k < j" "j \<le> length cs"
  shows "length (old_text (take k cs)) < length (old_text (take j cs))"
proof -
  have "take j cs = take k cs @ take (j - k) (drop k cs)" using assms(2) take_add [of k "j - k" cs] by simp
  moreover have "take (j - k) (drop k cs) = cs ! k # take (j - k - 1) (drop (Suc k) cs)"
    using assms(2,3) by (cases "j - k") (simp_all add: Cons_nth_drop_Suc [symmetric])
  moreover have "fst (cs ! k) \<noteq> []" using assms by (simp add: chunk_ok_def)
  ultimately show ?thesis by simp
qed

lemma valid_concat: "\<forall>c\<in>set cs. chunk_ok c \<Longrightarrow> utf8_Valid (new_text cs)"
  by (induction cs) (auto simp: chunk_ok_def intro: utf8_Valid_append)

lemma remap_between:
  assumes "s \<le> e" "e \<le> length raw"
  shows "let s' = remapUTF8Boundary raw (int s) False; e' = remapUTF8Boundary raw (int e) True in
    s' \<le> e' \<and> e' \<le> length (repair_write raw) \<and> utf8_Valid (take (e' - s') (drop s' (repair_write raw)))"
proof -
  let ?cs = "utf8_chunks raw"
  have ok: "\<forall>c\<in>set ?cs. chunk_ok c" using chunks_ok by blast
  have r: "remapUTF8Boundary raw (int b) fin = (if b = 0 then 0 else remap_chunks ?cs b fin)" for b fin
    by (simp add: remapUTF8Boundary_def remap_from_chunks)
  have z: "remap_chunks ?cs 0 False = 0" using ok by (cases ?cs) (auto simp: chunk_ok_def)
  obtain j where j: "j \<le> length ?cs" "remap_chunks ?cs s False = length (new_text (take j ?cs))" "length (old_text (take j ?cs)) \<le> s"
    using remap_start [OF ok] by blast
  show ?thesis
  proof (cases "e = 0")
    case True
    then show ?thesis using assms(1) by (simp add: remapUTF8Boundary_def)
  next
    case False
    obtain k where k: "k \<le> length ?cs" "remap_chunks ?cs e True = length (new_text (take k ?cs))" "e \<le> length (old_text (take k ?cs))"
      using remap_end [of e ?cs] assms(2) False by (auto simp: chunks_old)
    have "j \<le> k"
    proof (rule ccontr)
      assume "\<not> j \<le> k"
      then show False using old_text_mono [OF ok, of k j] j k assms(1) by simp
    qed
    have sp: "repair_write raw = new_text (take j ?cs) @ new_text (take (k - j) (drop j ?cs)) @ new_text (drop k ?cs)"
    proof -
      have "repair_write raw = new_text (take k ?cs) @ new_text (drop k ?cs)"
        using chunks_new [of raw] by (metis append_take_drop_id concat_append map_append)
      then show ?thesis using take_text_split [OF \<open>j \<le> k\<close>, of ?cs] by simp
    qed
    have "utf8_Valid (new_text (take (k - j) (drop j ?cs)))"
      using ok by (intro valid_concat) (meson in_set_dropD in_set_takeD)
    moreover have "length (new_text (take k ?cs)) = length (new_text (take j ?cs)) + length (new_text (take (k - j) (drop j ?cs)))"
      using take_text_split [OF \<open>j \<le> k\<close>, of ?cs] by simp
    moreover have "remapUTF8Boundary raw (int s) False = length (new_text (take j ?cs))"
      unfolding j(2) [symmetric] using z by (cases "s = 0") (simp add: remapUTF8Boundary_def, simp add: r)
    ultimately show ?thesis using False k(2) by (simp add: r sp Let_def)
  qed
qed

end
