(* ===== verification/Whisper_Tokenizer.thy ===== *)
theory Whisper_Tokenizer
  imports Pretokenizer
begin

text \<open>
  Whisper's byte-level BPE tokenizer: \<^verbatim>\<open>src/whisper/tokenizer.go\<close>. A vocabulary file lists one
  token per line, in base64, with its rank; the ranks are the token ids and, with the pairs that
  concatenate to a token, the merge rules. The embedded files are a parameter. Go's maps
  are the lists of their entries: the code refuses duplicate keys.
\<close>

section \<open>Model: parts of the standard library\<close>

text \<open>\<open>bufio.ScanLines\<close>: the lines of a file, and each without a final carriage return.\<close>

definition raw_lines :: "string \<Rightarrow> string list" where
  "raw_lines data = (let ls = split_on (CHR 0x0A) data in if last ls = [] then butlast ls else ls)"

definition drop_cr :: "string \<Rightarrow> string" where
  "drop_cr s = (if s \<noteq> [] \<and> last s = CHR 0x0D then butlast s else s)"

definition b64_value :: "char \<Rightarrow> nat option" where
  "b64_value c =
     (if 65 \<le> bv c \<and> bv c \<le> 90 then Some (bv c - 65)
      else if 97 \<le> bv c \<and> bv c \<le> 122 then Some (bv c - 71)
      else if 48 \<le> bv c \<and> bv c \<le> 57 then Some (bv c + 4)
      else if c = CHR ''+'' then Some 62 else if c = CHR ''/'' then Some 63 else None)"

fun b64_groups :: "string \<Rightarrow> string option" where
  "b64_groups [] = Some []"
| "b64_groups (a # b # c # d # rest) =
     (case (b64_value a, b64_value b) of
        (Some x, Some y) \<Rightarrow>
          if c = CHR ''='' then if d = CHR ''='' \<and> rest = [] then Some [char_of (x * 4 + y div 16)] else None
          else (case b64_value c of
                  None \<Rightarrow> None
                | Some z \<Rightarrow>
                    if d = CHR ''='' then if rest = [] then Some [char_of (x * 4 + y div 16), char_of (y * 16 + z div 4)] else None
                    else (case b64_value d of
                            None \<Rightarrow> None
                          | Some v \<Rightarrow> map_option (\<lambda>r. [char_of (x * 4 + y div 16), char_of (y * 16 + z div 4), char_of (z * 64 + v)] @ r)
                                        (b64_groups rest)))
      | _ \<Rightarrow> None)"
| "b64_groups _ = None"

text \<open>\<open>base64.StdEncoding.DecodeString\<close>, which skips line ends.\<close>

definition DecodeString :: "string \<Rightarrow> string option" where
  "DecodeString s = b64_groups (filter (\<lambda>c. c \<noteq> CHR 0x0A \<and> c \<noteq> CHR 0x0D) s)"

definition all_digits :: "string \<Rightarrow> bool" where
  "all_digits s \<longleftrightarrow> s \<noteq> [] \<and> list_all (\<lambda>c. 48 \<le> bv c \<and> bv c \<le> 57) s"

definition Atoi :: "string \<Rightarrow> int option" where
  "Atoi s =
     (let neg = (s \<noteq> [] \<and> hd s = CHR ''-''); ds = (if s \<noteq> [] \<and> (hd s = CHR ''-'' \<or> hd s = CHR ''+'') then tl s else s);
          v = (if neg then - int (read_nat_acc 0 ds) else int (read_nat_acc 0 ds))
      in if all_digits ds \<and> is_go_int v then Some v else None)"

section \<open>Model: loading the vocabulary\<close>

datatype wtok_error =
    ErrTokenizerKind | ErrTokenizerOutputTooSmall | ErrTokenizerTokenRange | ErrTokenizerSpecialToken | ErrTokenizerNil
  | MalformedLine | MalformedToken | MalformedRank | DuplicateToken | LineTooLong | NotContiguous | DuplicateRank
  | UnexpectedCount | MissingByte

record tokenizer =
  kind :: nat
  vocabSize :: nat
  baseSize :: nat
  encoder :: "(string \<times> nat) list"
  decoder :: "string list"
  merges :: "64 word \<rightharpoonup> nat"
  specialIDs :: "(string \<times> nat) list"
  eot :: nat
  sot :: nat
  translate :: nat
  transcribe :: nat
  sotLM :: nat
  sotPrev :: nat
  noSpeech :: nat
  noTimestamps :: nat
  timestampBegin :: nat
  languageTokens :: "nat list"

definition whisperLanguageCodes :: "string list" where
  "whisperLanguageCodes = [
     ''en'', ''zh'', ''de'', ''es'', ''ru'', ''ko'', ''fr'', ''ja'', ''pt'', ''tr'',
     ''pl'', ''ca'', ''nl'', ''ar'', ''sv'', ''it'', ''id'', ''hi'', ''fi'', ''vi'',
     ''he'', ''uk'', ''el'', ''ms'', ''cs'', ''ro'', ''da'', ''hu'', ''ta'', ''no'',
     ''th'', ''ur'', ''hr'', ''bg'', ''lt'', ''la'', ''mi'', ''ml'', ''cy'', ''sk'',
     ''te'', ''fa'', ''lv'', ''bn'', ''sr'', ''az'', ''sl'', ''kn'', ''et'', ''mk'',
     ''br'', ''eu'', ''is'', ''hy'', ''ne'', ''mn'', ''bs'', ''kk'', ''sq'', ''sw'',
     ''gl'', ''mr'', ''pa'', ''si'', ''km'', ''sn'', ''yo'', ''so'', ''af'', ''oc'',
     ''ka'', ''be'', ''tg'', ''sd'', ''gu'', ''am'', ''yi'', ''lo'', ''uz'', ''fo'',
     ''ht'', ''ps'', ''tk'', ''nn'', ''mt'', ''sa'', ''lb'', ''my'', ''bo'', ''tl'',
     ''mg'', ''as'', ''tt'', ''haw'', ''ln'', ''ha'', ''ba'', ''jw'', ''su'', ''yue'']"

definition whisperLanguageCount :: nat where "whisperLanguageCount = 99"
definition whisperTimestampCount :: nat where "whisperTimestampCount = 1501"

text \<open>One line of the file: the token and its rank.\<close>

definition rank_line :: "string \<Rightarrow> wtok_error + (string \<times> nat)" where
  "rank_line line =
     (let head = takeWhile (\<lambda>c. c \<noteq> CHR '' '') line; space = length head in
      if space = length line \<or> space = 0 \<or> space = length line - 1 then Inl MalformedLine
      else case (if head = ''='' then Some [] else DecodeString head) of
             None \<Rightarrow> Inl MalformedToken
           | Some payload \<Rightarrow>
               (case Atoi (drop (space + 1) line) of
                  None \<Rightarrow> Inl MalformedRank
                | Some rank \<Rightarrow> if rank < 0 then Inl MalformedRank else Inr (payload, nat rank)))"

fun rank_lines :: "(string \<times> nat) list \<Rightarrow> int \<Rightarrow> string list \<Rightarrow> wtok_error + ((string \<times> nat) list \<times> int)" where
  "rank_lines enc maxRank [] = Inr (enc, maxRank)"
| "rank_lines enc maxRank (raw # ls) =
     (if 1048576 \<le> length raw then Inl LineTooLong
      else case rank_line (drop_cr raw) of
             Inl e \<Rightarrow> Inl e
           | Inr (key, rank) \<Rightarrow>
               if map_of enc key \<noteq> None then Inl DuplicateToken
               else rank_lines (enc @ [(key, rank)]) (max maxRank (int rank)) ls)"

text \<open>The second half of \<open>readRanks\<close>: every rank below the size occurs exactly once.\<close>

fun fill_decoder :: "(string \<times> nat) list \<Rightarrow> string option list \<Rightarrow> wtok_error + string option list" where
  "fill_decoder [] dec = Inr dec"
| "fill_decoder ((token, rank) # es) dec =
     (if length dec \<le> rank \<or> dec ! rank \<noteq> None then Inl DuplicateRank else fill_decoder es (dec[rank := Some token]))"

definition readRanks :: "string \<Rightarrow> wtok_error + ((string \<times> nat) list \<times> string list)" where
  "readRanks data =
     (case rank_lines [] (- 1) (raw_lines data) of
        Inl e \<Rightarrow> Inl e
      | Inr (enc, maxRank) \<Rightarrow>
          if length enc = 0 \<or> maxRank + 1 \<noteq> int (length enc) then Inl NotContiguous
          else (case fill_decoder enc (replicate (length enc) None) of
                  Inl e \<Rightarrow> Inl e
                | Inr dec \<Rightarrow> if None \<in> set dec then Inl NotContiguous else Inr (enc, map the dec)))"

definition bar_name :: "string \<Rightarrow> string" where
  "bar_name s = ''<|'' @ s @ ''|>''"

text \<open>\<open>strconv.FormatFloat(float64(i)*0.02, 'f', 2, 64)\<close>: \<open>i\<close> fiftieths with two decimals.\<close>

definition timestamp_name :: "nat \<Rightarrow> string" where
  "timestamp_name i = bar_name (show_nat (2 * i div 100) @ ''.'' @ [digit_char (2 * i mod 100 div 10), digit_char (2 * i mod 10)])"

definition special_names :: "string list" where
  "special_names =
     [''<|endoftext|>'', ''<|startoftranscript|>'']
     @ map bar_name (take whisperLanguageCount whisperLanguageCodes)
     @ [''<|translate|>'', ''<|transcribe|>'', ''<|startoflm|>'', ''<|startofprev|>'', ''<|nospeech|>'', ''<|notimestamps|>'']
     @ map timestamp_name [0..<whisperTimestampCount]"

definition addSpecialTokens :: "tokenizer \<Rightarrow> wtok_error + tokenizer" where
  "addSpecialTokens t =
     (let id0 = baseSize t; n = length special_names; lang = id0 + 2; task = lang + whisperLanguageCount in
      if id0 + n \<noteq> id0 + 1608 then Inl UnexpectedCount
      else Inr (t\<lparr>specialIDs := zip special_names [id0..<id0 + n], decoder := decoder t @ special_names,
                  eot := id0, sot := id0 + 1, languageTokens := [lang..<task],
                  translate := task, transcribe := task + 1, sotLM := task + 2, sotPrev := task + 3,
                  noSpeech := task + 4, noTimestamps := task + 5, timestampBegin := task + 6, vocabSize := id0 + n\<rparr>))"

definition mergeKey :: "nat \<Rightarrow> nat \<Rightarrow> 64 word" where
  "mergeKey left right = push_bit 32 (word_of_nat (left mod 2 ^ 32)) OR word_of_nat (right mod 2 ^ 32)"

definition split_merge :: "(string \<times> nat) list \<Rightarrow> string \<times> nat \<Rightarrow> nat \<Rightarrow> (64 word \<rightharpoonup> nat) \<Rightarrow> (64 word \<rightharpoonup> nat)" where
  "split_merge enc e split m =
     (case (map_of enc (take split (fst e)), map_of enc (drop split (fst e))) of
        (Some left, Some right) \<Rightarrow> m(mergeKey left right \<mapsto> snd e)
      | _ \<Rightarrow> m)"

definition compileMerges :: "tokenizer \<Rightarrow> tokenizer" where
  "compileMerges t =
     t\<lparr>merges := fold (\<lambda>e. fold (split_merge (encoder t) e) [1..<length (fst e)]) (encoder t) Map.empty\<rparr>"

text \<open>\<open>newTokenizer\<close>, given the two embedded vocabulary files.\<close>

definition empty_tokenizer :: "nat \<Rightarrow> (string \<times> nat) list \<Rightarrow> string list \<Rightarrow> tokenizer" where
  "empty_tokenizer k enc dec =
     \<lparr>kind = k, vocabSize = 0, baseSize = length enc, encoder = enc, decoder = dec, merges = Map.empty, specialIDs = [],
      eot = 0, sot = 0, translate = 0, transcribe = 0, sotLM = 0, sotPrev = 0, noSpeech = 0, noTimestamps = 0,
      timestampBegin = 0, languageTokens = []\<rparr>"

definition newTokenizer_whisper :: "string \<Rightarrow> string \<Rightarrow> nat \<Rightarrow> wtok_error + tokenizer" where
  "newTokenizer_whisper gpt2 multilingual k =
     (if 1 < k then Inl ErrTokenizerKind
      else case readRanks (if k = 0 then gpt2 else multilingual) of
             Inl e \<Rightarrow> Inl e
           | Inr (enc, dec) \<Rightarrow>
               (case addSpecialTokens (empty_tokenizer k enc dec) of
                  Inl e \<Rightarrow> Inl e
                | Inr t \<Rightarrow> Inr (compileMerges t)))"

fun code_token :: "string \<Rightarrow> string list \<Rightarrow> nat list \<Rightarrow> nat option" where
  "code_token code (c # cs) (i # ids) = (if c = code then Some i else code_token code cs ids)"
| "code_token code _ _ = None"

definition languageToken :: "tokenizer \<Rightarrow> string \<Rightarrow> nat option" where
  "languageToken t code = code_token code (take whisperLanguageCount whisperLanguageCodes) (languageTokens t)"

section \<open>Model: cutting a text into pieces\<close>

datatype rune_class = classSpace | classLetter | classNumber | classOther

definition runeClass :: "unicode_tables \<Rightarrow> string \<Rightarrow> nat \<Rightarrow> rune_class \<times> nat" where
  "runeClass uc s pos =
     (let (r, n) = DecodeRune (drop pos s)
      in (if IsLetter uc r then classLetter else if IsNumber uc r then classNumber
          else if IsSpace uc r then classSpace else classOther, n))"

definition suffix_end :: "string \<Rightarrow> nat \<Rightarrow> string \<Rightarrow> nat option" where
  "suffix_end s start suffix =
     (let fin = start + 1 + length suffix in
      if fin \<le> length s \<and> map lower_byte (take (length suffix) (drop (start + 1) s)) = suffix then Some fin else None)"

fun first_end :: "string \<Rightarrow> nat \<Rightarrow> string list \<Rightarrow> nat" where
  "first_end s start [] = 0"
| "first_end s start (suffix # suffixes) = (case suffix_end s start suffix of Some fin \<Rightarrow> fin | None \<Rightarrow> first_end s start suffixes)"

definition contractionEnd :: "string \<Rightarrow> nat \<Rightarrow> nat" where
  "contractionEnd s start =
     (if length s \<le> start \<or> s ! start \<noteq> CHR 0x27 then 0
      else first_end s start [''s'', ''t'', ''re'', ''ve'', ''m'', ''ll'', ''d''])"

text \<open>The runes of one class from \<open>pos\<close> on: the position behind them and that of the last one.\<close>

function class_run :: "unicode_tables \<Rightarrow> string \<Rightarrow> rune_class \<Rightarrow> nat \<Rightarrow> nat \<Rightarrow> nat \<times> nat" where
  "class_run uc s cls pos before =
     (if pos < length s \<and> fst (runeClass uc s pos) = cls
      then class_run uc s cls (pos + snd (runeClass uc s pos)) pos else (pos, before))"
  by pat_completeness auto
termination
proof (relation "measure (\<lambda>(uc, s, cls, pos, before). length s - pos)", goal_cases)
  case (2 uc s cls pos before)
  then have "1 \<le> snd (runeClass uc s pos)"
    using DecodeRune_size_pos [of "drop pos s"] by (simp add: runeClass_def split: prod.splits)
  then show ?case using 2 by auto
qed simp

declare class_run.simps [simp del]

definition nextPieceEnd :: "unicode_tables \<Rightarrow> string \<Rightarrow> nat \<Rightarrow> nat" where
  "nextPieceEnd uc s start =
     (if contractionEnd s start \<noteq> 0 then contractionEnd s start
      else let pos = (if s ! start = CHR '' '' \<and> start + 1 < length s \<and> fst (runeClass uc s (start + 1)) \<noteq> classSpace
                      then start + 1 else start);
               (cls, n) = runeClass uc s pos
           in if cls = classSpace then
                let (fin, beforeLast) = class_run uc s classSpace (pos + n) start
                in if fin < length s \<and> beforeLast \<noteq> start then beforeLast else fin
              else fst (class_run uc s cls (pos + n) start))"

section \<open>Every piece makes progress\<close>

lemma runeClass_size: "pos < length s \<Longrightarrow> 1 \<le> snd (runeClass uc s pos) \<and> pos + snd (runeClass uc s pos) \<le> length s"
  using DecodeRune_size_pos [of "drop pos s"] DecodeRune_size_le [of "drop pos s"]
  by (auto simp: runeClass_def split: prod.splits)

lemma class_run_bounds:
  assumes "pos \<le> length s" "before \<le> pos"
  shows "pos \<le> fst (class_run uc s cls pos before) \<and> fst (class_run uc s cls pos before) \<le> length s
    \<and> (snd (class_run uc s cls pos before) = before \<or> pos \<le> snd (class_run uc s cls pos before))
    \<and> snd (class_run uc s cls pos before) \<le> length s"
  using assms
proof (induction uc s cls pos before rule: class_run.induct)
  case (1 uc s cls pos before)
  show ?case
  proof (cases "pos < length s \<and> fst (runeClass uc s pos) = cls")
    case True
    then have "class_run uc s cls pos before = class_run uc s cls (pos + snd (runeClass uc s pos)) pos" by (subst class_run.simps) simp
    then show ?thesis using "1.IH" [OF True] runeClass_size [of pos s uc] True by auto
  next
    case False
    then have "class_run uc s cls pos before = (pos, before)" by (subst class_run.simps) (rule if_not_P)
    then show ?thesis using "1.prems" by simp
  qed
qed

lemma contractionEnd_bounds:
  assumes "contractionEnd s start \<noteq> 0"
  shows "start < contractionEnd s start \<and> contractionEnd s start \<le> length s"
proof -
  have f: "first_end s start sfx \<noteq> 0 \<Longrightarrow> start < first_end s start sfx \<and> first_end s start sfx \<le> length s" for sfx
    by (induction sfx) (auto simp: suffix_end_def Let_def split: option.splits if_splits)
  show ?thesis
    using assms f unfolding contractionEnd_def by (simp only: split: if_splits) blast
qed

lemma nextPieceEnd_bounds:
  assumes "start < length s"
  shows "start < nextPieceEnd uc s start \<and> nextPieceEnd uc s start \<le> length s"
proof (cases "contractionEnd s start \<noteq> 0")
  case True
  then show ?thesis using contractionEnd_bounds by (simp add: nextPieceEnd_def)
next
  case False
  define pos where "pos = (if s ! start = CHR '' '' \<and> start + 1 < length s \<and> fst (runeClass uc s (start + 1)) \<noteq> classSpace
                      then start + 1 else start)"
  obtain cls n where c: "runeClass uc s pos = (cls, n)" by (cases "runeClass uc s pos")
  have pos: "start \<le> pos" "pos < length s" using assms by (auto simp: pos_def)
  have n: "1 \<le> n" "pos + n \<le> length s" using runeClass_size [OF pos(2), of uc] c by simp_all
  have e: "nextPieceEnd uc s start =
     (if cls = classSpace then
        let (fin, beforeLast) = class_run uc s classSpace (pos + n) start
        in if fin < length s \<and> beforeLast \<noteq> start then beforeLast else fin
      else fst (class_run uc s cls (pos + n) start))"
    using False c unfolding nextPieceEnd_def Let_def pos_def [symmetric] by simp
  have "start \<le> pos + n" using pos n by simp
  note r = class_run_bounds [OF n(2) this, of uc]
  show ?thesis unfolding e Let_def using r [of cls] r [of classSpace] pos n by (auto split: prod.splits)
qed

section \<open>Model: encoding and decoding\<close>

text \<open>\<open>strings.Index\<close> for a two-byte separator, from a position on.\<close>

fun index_from :: "nat \<Rightarrow> string \<Rightarrow> string \<Rightarrow> nat option" where
  "index_from i sep (a # b # s) = (if [a, b] = sep then Some i else index_from (i + 1) sep (b # s))"
| "index_from i sep _ = None"

lemma index_from_ge: "index_from i sep s = Some j \<Longrightarrow> i \<le> j"
  by (induction i sep s rule: index_from.induct) (auto split: if_splits)

function special_from :: "string \<Rightarrow> (string \<times> nat) list \<Rightarrow> nat \<Rightarrow> bool" where
  "special_from s specials pos =
     (if pos + 1 < length s then
        (case index_from pos ''<|'' (drop pos s) of
           None \<Rightarrow> False
         | Some start \<Rightarrow>
             (case index_from (start + 2) ''|>'' (drop (start + 2) s) of
                None \<Rightarrow> False
              | Some fin \<Rightarrow> if map_of specials (take (fin + 2 - start) (drop start s)) \<noteq> None then True
                            else special_from s specials (fin + 2)))
      else False)"
  by pat_completeness auto
termination
proof (relation "measure (\<lambda>(s, specials, pos). length s - pos)", goal_cases)
  case (2 s specials pos start fin)
  then show ?case using index_from_ge [OF 2(2)] index_from_ge [OF 2(3)] by simp
qed simp

declare special_from.simps [simp del]

definition containsSpecialToken :: "string \<Rightarrow> (string \<times> nat) list \<Rightarrow> bool" where
  "containsSpecialToken s specials = special_from s specials 0"

text \<open>The ids of the bytes of a piece, appended while there is room.\<close>

fun byte_tokens :: "tokenizer \<Rightarrow> nat \<Rightarrow> nat list \<Rightarrow> string \<Rightarrow> nat list \<times> wtok_error option" where
  "byte_tokens t capacity dst [] = (dst, None)"
| "byte_tokens t capacity dst (c # cs) =
     (case map_of (encoder t) [c] of
        None \<Rightarrow> (dst, Some MissingByte)
      | Some i \<Rightarrow> if length dst = capacity then (dst, Some ErrTokenizerOutputTooSmall)
                  else byte_tokens t capacity (dst @ [i]) cs)"

text \<open>The leftmost pair with the lowest merged id.\<close>

fun best_pair :: "tokenizer \<Rightarrow> nat \<Rightarrow> (nat \<times> nat) option \<Rightarrow> nat list \<Rightarrow> (nat \<times> nat) option" where
  "best_pair t i best (a # b # ids) =
     best_pair t (i + 1)
       (case merges t (mergeKey a b) of
          None \<Rightarrow> best
        | Some m \<Rightarrow> (case best of None \<Rightarrow> Some (i, m) | Some (j, n) \<Rightarrow> if m < n then Some (i, m) else best)) (b # ids)"
| "best_pair t i best _ = best"

lemma best_pair_index:
  "best_pair t i best ids = Some (j, m) \<Longrightarrow>
   best = Some (j, m) \<or> i \<le> j \<and> j + 1 < i + length ids \<and> merges t (mergeKey (ids ! (j - i)) (ids ! Suc (j - i))) = Some m"
proof (induction t i best ids rule: best_pair.induct)
  case (1 t i best a b ids)
  let ?best = "case merges t (mergeKey a b) of None \<Rightarrow> best
     | Some m \<Rightarrow> (case best of None \<Rightarrow> Some (i, m) | Some (j, n) \<Rightarrow> if m < n then Some (i, m) else best)"
  have "?best = Some (j, m) \<or> i + 1 \<le> j \<and> j + 1 < i + 1 + length (b # ids) \<and>
      merges t (mergeKey ((b # ids) ! (j - (i + 1))) ((b # ids) ! Suc (j - (i + 1)))) = Some m"
    using 1 by simp
  then show ?case
  proof
    assume "?best = Some (j, m)"
    then show ?thesis by (auto split: option.splits if_splits)
  next
    assume a: "i + 1 \<le> j \<and> j + 1 < i + 1 + length (b # ids) \<and>
      merges t (mergeKey ((b # ids) ! (j - (i + 1))) ((b # ids) ! Suc (j - (i + 1)))) = Some m"
    then have "j - i = Suc (j - (i + 1))" by linarith
    with a show ?thesis by simp
  qed
qed simp_all

function merge_piece :: "tokenizer \<Rightarrow> nat list \<Rightarrow> nat list" where
  "merge_piece t ids =
     (case best_pair t 0 None ids of
        None \<Rightarrow> ids
      | Some (i, m) \<Rightarrow> merge_piece t (take i ids @ m # drop (i + 2) ids))"
  by pat_completeness auto
termination
proof (relation "measure (\<lambda>(t, ids). length ids)", goal_cases)
  case (2 t ids p i m)
  then show ?case using best_pair_index [of t 0 None ids i m] by auto
qed simp

declare merge_piece.simps [simp del]

function encode_from :: "unicode_tables \<Rightarrow> tokenizer \<Rightarrow> nat \<Rightarrow> string \<Rightarrow> nat \<Rightarrow> nat list \<Rightarrow> nat list \<times> wtok_error option" where
  "encode_from uc t capacity s pos dst =
     (if pos < length s then
        let fin = nextPieceEnd uc s pos; startOut = length dst in
        case byte_tokens t capacity dst (take (fin - pos) (drop pos s)) of
          (dst', Some e) \<Rightarrow> (dst', Some e)
        | (dst', None) \<Rightarrow> encode_from uc t capacity s fin (take startOut dst' @ merge_piece t (drop startOut dst'))
      else (dst, None))"
  by pat_completeness auto
termination
proof (relation "measure (\<lambda>(uc, t, capacity, s, pos, dst). length s - pos)", goal_cases)
  case (2 uc t capacity s pos dst fin)
  then show ?case using nextPieceEnd_bounds [of pos s uc] by auto
qed simp

declare encode_from.simps [simp del]

definition EncodeInto_whisper :: "unicode_tables \<Rightarrow> tokenizer option \<Rightarrow> nat \<Rightarrow> nat list \<Rightarrow> string \<Rightarrow> nat list \<times> wtok_error option" where
  "EncodeInto_whisper uc tok capacity dst s =
     (case tok of
        None \<Rightarrow> (dst, Some ErrTokenizerNil)
      | Some t \<Rightarrow> if containsSpecialToken s (specialIDs t) then (dst, Some ErrTokenizerSpecialToken)
                  else encode_from uc t capacity s 0 dst)"

fun decode_ids :: "tokenizer \<Rightarrow> nat \<Rightarrow> string \<Rightarrow> int list \<Rightarrow> string \<times> wtok_error option" where
  "decode_ids t capacity dst [] = (dst, None)"
| "decode_ids t capacity dst (i # ids) =
     (if i < 0 \<or> int (vocabSize t) \<le> i then (dst, Some ErrTokenizerTokenRange)
      else if int (timestampBegin t) \<le> i then decode_ids t capacity dst ids
      else if capacity < length dst + length (decoder t ! nat i) then (dst, Some ErrTokenizerOutputTooSmall)
      else decode_ids t capacity (dst @ decoder t ! nat i) ids)"

definition decodeInto :: "tokenizer option \<Rightarrow> nat \<Rightarrow> string \<Rightarrow> int list \<Rightarrow> string \<times> wtok_error option" where
  "decodeInto tok capacity dst ids =
     (case tok of None \<Rightarrow> (dst, Some ErrTokenizerNil) | Some t \<Rightarrow> decode_ids t capacity dst ids)"

end
