(* ===== verification/Whisper_Roundtrip.thy ===== *)
theory Whisper_Roundtrip
  imports Whisper_Tokenizer
begin

text \<open>
  A Whisper tokenizer that loads is consistent: its encoder and decoder are inverse to each
  other and its merge rules only join tokens that concatenate. So decoding what it encodes gives
  the text back.
\<close>

section \<open>What loading establishes\<close>

definition vocab_ok :: "(string \<times> nat) list \<Rightarrow> string list \<Rightarrow> bool" where
  "vocab_ok enc dec \<longleftrightarrow> distinct (map fst enc) \<and> length dec = length enc
     \<and> (\<forall>(token, rank) \<in> set enc. rank < length dec \<and> dec ! rank = token)"

lemma rank_lines_distinct:
  "rank_lines enc m ls = Inr (enc', m') \<Longrightarrow> distinct (map fst enc) \<Longrightarrow> distinct (map fst enc') \<and> length enc' = length enc + length ls"
proof (induction enc m ls rule: rank_lines.induct)
  case (2 enc m raw ls)
  show ?case
  proof (cases "rank_line (drop_cr raw)")
    case (Inr kr)
    obtain key rank where kr: "kr = (key, rank)" by (cases kr)
    have new: "map_of enc key = None" "rank_lines (enc @ [(key, rank)]) (max m (int rank)) ls = Inr (enc', m')" "\<not> 1048576 \<le> length raw"
      using "2.prems"(1) Inr kr by (auto split: if_splits)
    then have "distinct (map fst (enc @ [(key, rank)]))" using "2.prems"(2) by (simp add: map_of_eq_None_iff)
    then show ?thesis using "2.IH" [OF new(3) Inr kr [symmetric] _ new(2)] new(1) by (simp add: kr)
  qed (use 2 in \<open>auto split: if_splits\<close>)
qed simp

lemma fill_decoder_at:
  "fill_decoder es dec = Inr dec' \<Longrightarrow> length dec' = length dec \<and>
     (\<forall>(token, rank) \<in> set es. rank < length dec \<and> dec' ! rank = Some token) \<and>
     (\<forall>i < length dec. dec ! i \<noteq> None \<longrightarrow> dec' ! i = dec ! i)"
proof (induction es dec rule: fill_decoder.induct)
  case (2 token rank es dec)
  then have r: "rank < length dec" "dec ! rank = None" "fill_decoder es (dec[rank := Some token]) = Inr dec'" by (auto split: if_splits)
  have c: "\<not> (length dec \<le> rank \<or> dec ! rank \<noteq> None)" using r by simp
  note IH = "2.IH" [OF c r(3)]
  then have keep: "\<And>i. i < length dec \<Longrightarrow> dec[rank := Some token] ! i \<noteq> None \<Longrightarrow> dec' ! i = dec[rank := Some token] ! i" by auto
  have "dec' ! rank = Some token" using keep [of rank] r(1) by simp
  moreover have "dec' ! i = dec ! i" if "i < length dec" "dec ! i \<noteq> None" for i
  proof -
    have "i \<noteq> rank" using that r(2) by metis
    then show ?thesis using keep [of i] that by simp
  qed
  ultimately show ?case using IH r(1) by auto
qed simp

lemma readRanks_ok:
  assumes "readRanks data = Inr (enc, dec)"
  shows "vocab_ok enc dec" "length enc \<le> length (raw_lines data)"
proof -
  obtain m d where l: "rank_lines [] (- 1) (raw_lines data) = Inr (enc, m)"
    and d: "fill_decoder enc (replicate (length enc) None) = Inr d" "None \<notin> set d" "dec = map the d"
    using assms by (auto simp: readRanks_def split: sum.splits if_splits)
  have "distinct (map fst enc)" "length enc = length (raw_lines data)" using rank_lines_distinct [OF l] by auto
  moreover have "rank < length dec \<and> dec ! rank = token" if "(token, rank) \<in> set enc" for token rank
    using fill_decoder_at [OF d(1)] that d(3) by fastforce
  moreover have "length dec = length enc" using fill_decoder_at [OF d(1)] d(3) by simp
  ultimately show "vocab_ok enc dec" "length enc \<le> length (raw_lines data)" by (auto simp: vocab_ok_def)
qed

lemma vocab_lookup:
  assumes "vocab_ok enc dec" "map_of enc token = Some i"
  shows "i < length dec" "dec ! i = token"
  using assms map_of_SomeD [OF assms(2)] by (auto simp: vocab_ok_def)

section \<open>Merge rules\<close>

lemma mergeKey_eq:
  assumes "l < 2 ^ 32" "r < 2 ^ 32"
  shows "mergeKey l r = word_of_nat (l * 2 ^ 32 + r)"
proof -
  have b: "\<not> bit (push_bit 32 (word_of_nat l :: 64 word)) k \<or> \<not> bit (word_of_nat r :: 64 word) k" for k
  proof -
    have "bit r k \<Longrightarrow> k < 32" using assms(2) by (metis bit_take_bit_iff take_bit_nat_eq_self)
    then show ?thesis by (auto simp: bit_push_bit_iff bit_of_nat_iff)
  qed
  have "mergeKey l r = push_bit 32 (word_of_nat l) + word_of_nat r"
    unfolding mergeKey_def using assms disjunctive_add [OF b] by simp
  then show ?thesis by (simp add: push_bit_eq_mult)
qed

lemma mergeKey_inj:
  assumes "l < 2 ^ 32" "r < 2 ^ 32" "l' < 2 ^ 32" "r' < 2 ^ 32" "mergeKey l r = mergeKey l' r'"
  shows "l = l' \<and> r = r'"
proof -
  have lt: "x * 2 ^ 32 + y < 2 ^ 64" if "x < 2 ^ 32" "y < 2 ^ 32" for x y :: nat
    using that by simp
  have un: "unat (word_of_nat x :: 64 word) = x" if "x < 2 ^ 64" for x
    using that by (simp add: unsigned_of_nat take_bit_nat_eq_self)
  have "unat (word_of_nat (l * 2 ^ 32 + r) :: 64 word) = unat (word_of_nat (l' * 2 ^ 32 + r') :: 64 word)"
    using assms mergeKey_eq by metis
  then have e: "l * 2 ^ 32 + r = l' * 2 ^ 32 + r'"
    unfolding un [OF lt [OF assms(1,2)]] un [OF lt [OF assms(3,4)]] .
  have "(l * 2 ^ 32 + r) div 2 ^ 32 = l" "(l * 2 ^ 32 + r) mod 2 ^ 32 = r" "(l' * 2 ^ 32 + r') div 2 ^ 32 = l'" "(l' * 2 ^ 32 + r') mod 2 ^ 32 = r'"
    using assms by simp_all
  then show ?thesis using e by metis
qed

definition merges_ok :: "string list \<Rightarrow> (64 word \<rightharpoonup> nat) \<Rightarrow> bool" where
  "merges_ok dec m \<longleftrightarrow> (\<forall>l < length dec. \<forall>r < length dec. \<forall>k. m (mergeKey l r) = Some k \<longrightarrow> k < length dec \<and> dec ! k = dec ! l @ dec ! r)"

lemma split_merge_ok:
  assumes "vocab_ok enc dec" "length dec < 2 ^ 32" "e \<in> set enc" "merges_ok dec m"
  shows "merges_ok dec (split_merge enc e split m)"
proof (cases "map_of enc (take split (fst e)) = None \<or> map_of enc (drop split (fst e)) = None")
  case True
  then show ?thesis using assms(4) by (auto simp: split_merge_def split: option.splits)
next
  case False
  then obtain a b where ab: "map_of enc (take split (fst e)) = Some a" "map_of enc (drop split (fst e)) = Some b" by auto
  note a = vocab_lookup [OF assms(1) ab(1)] and b = vocab_lookup [OF assms(1) ab(2)]
  have e: "snd e < length dec" "dec ! snd e = fst e" using assms(1,3) by (auto simp: vocab_ok_def)
  show ?thesis unfolding merges_ok_def
  proof (intro allI impI)
    fix l r k assume lr: "l < length dec" "r < length dec" "split_merge enc e split m (mergeKey l r) = Some k"
    show "k < length dec \<and> dec ! k = dec ! l @ dec ! r"
    proof (cases "mergeKey l r = mergeKey a b")
      case True
      then have "l = a \<and> r = b" using mergeKey_inj [of l r a b] lr a(1) b(1) assms(2) by simp
      then show ?thesis using lr(3) ab a b e by (simp add: split_merge_def)
    next
      case False
      then have "m (mergeKey l r) = Some k" using lr(3) ab by (simp add: split_merge_def)
      then show ?thesis using assms(4) lr(1,2) unfolding merges_ok_def by blast
    qed
  qed
qed

lemma fold_merges_ok:
  assumes "vocab_ok enc dec" "length dec < 2 ^ 32" "set es \<subseteq> set enc" "merges_ok dec m"
  shows "merges_ok dec (fold (\<lambda>e. fold (split_merge enc e) [1..<length (fst e)]) es m)"
  using assms(3,4)
proof (induction es arbitrary: m)
  case (Cons e es)
  have "merges_ok dec (fold (split_merge enc e) is n)" if "merges_ok dec n" for "is" n
    using that Cons.prems(1) by (induction "is" arbitrary: n) (auto intro: split_merge_ok [OF assms(1,2)])
  then show ?case using Cons by simp
qed simp

section \<open>A loaded tokenizer\<close>

text \<open>
  The base tokens are the first entries of the decoder, and every other token, the timestamps
  last, comes behind them.
\<close>

definition whisper_ok :: "tokenizer \<Rightarrow> bool" where
  "whisper_ok t \<longleftrightarrow> vocab_ok (encoder t) (take (baseSize t) (decoder t)) \<and> merges_ok (take (baseSize t) (decoder t)) (merges t)
     \<and> baseSize t < timestampBegin t \<and> timestampBegin t \<le> vocabSize t \<and> length (decoder t) = vocabSize t"

lemma length_special_names: "length special_names = 1608"
  by (simp add: special_names_def whisperLanguageCount_def whisperTimestampCount_def whisperLanguageCodes_def)

lemma lines_le: "length (raw_lines data) \<le> length data"
proof -
  have "length (split_on c s) \<le> Suc (length s)" for c s by (induction s) (auto split: list.splits)
  then have "length (split_on (CHR 0x0A) data) \<le> Suc (length data)" .
  moreover have "length (split_on c s) \<le> length s" if "last (split_on c s) \<noteq> []" for c s
    using that by (induction s) (auto split: list.splits if_splits)
  ultimately show ?thesis by (auto simp: raw_lines_def Let_def)
qed

lemma newTokenizer_whisper_ok:
  assumes "newTokenizer_whisper gpt2 multi k = Inr t" "length gpt2 < 2 ^ 32" "length multi < 2 ^ 32"
  shows "whisper_ok t"
proof -
  let ?data = "if k = 0 then gpt2 else multi"
  obtain enc dec u where r: "readRanks ?data = Inr (enc, dec)" and u: "addSpecialTokens (empty_tokenizer k enc dec) = Inr u" and t: "t = compileMerges u"
    using assms(1) by (auto simp: newTokenizer_whisper_def split: if_splits sum.splits)
  note ok = readRanks_ok [OF r]
  have len: "length dec = length enc" using ok(1) by (simp add: vocab_ok_def)
  have "length dec < 2 ^ 32" using ok(2) len lines_le [of ?data] assms(2,3) by (auto split: if_splits)
  then have m: "merges_ok dec (fold (\<lambda>e. fold (split_merge enc e) [1..<length (fst e)]) enc Map.empty)"
    by (intro fold_merges_ok [OF ok(1)]) (auto simp: merges_ok_def)
  have f: "baseSize t = length dec" "decoder t = dec @ special_names" "encoder t = enc"
    "merges t = fold (\<lambda>e. fold (split_merge enc e) [1..<length (fst e)]) enc Map.empty"
    "timestampBegin t = length dec + 107" "vocabSize t = length dec + 1608"
    using u by (auto simp: t compileMerges_def addSpecialTokens_def empty_tokenizer_def Let_def len length_special_names whisperLanguageCount_def)
  show ?thesis using ok(1) m unfolding whisper_ok_def f by (simp add: length_special_names)
qed

section \<open>Encoding keeps the bytes\<close>

definition token_bytes :: "tokenizer \<Rightarrow> nat list \<Rightarrow> string" where
  "token_bytes t ids = concat (map (\<lambda>i. decoder t ! i) ids)"

definition base_ids :: "tokenizer \<Rightarrow> nat list \<Rightarrow> bool" where
  "base_ids t ids \<longleftrightarrow> list_all (\<lambda>i. i < baseSize t) ids"

lemma token_bytes_append [simp]: "token_bytes t (xs @ ys) = token_bytes t xs @ token_bytes t ys"
  by (simp add: token_bytes_def)

lemma base_ids_append [simp]: "base_ids t (xs @ ys) \<longleftrightarrow> base_ids t xs \<and> base_ids t ys"
  by (simp add: base_ids_def)

lemma whisper_base: "whisper_ok t \<Longrightarrow> length (take (baseSize t) (decoder t)) = baseSize t"
  by (simp add: whisper_ok_def)

lemma byte_tokens_bytes:
  assumes "whisper_ok t" "byte_tokens t capacity dst cs = (dst', None)"
  shows "\<exists>ids. dst' = dst @ ids \<and> base_ids t ids \<and> token_bytes t ids = cs \<and> length ids = length cs"
  using assms(2)
proof (induction cs arbitrary: dst)
  case Nil
  then show ?case by (auto simp: base_ids_def token_bytes_def)
next
  case (Cons c cs)
  obtain i where i: "map_of (encoder t) [c] = Some i" "byte_tokens t capacity (dst @ [i]) cs = (dst', None)"
    using Cons.prems by (auto split: option.splits if_splits)
  from Cons.IH [OF i(2)] obtain ids where ids: "dst' = (dst @ [i]) @ ids" "base_ids t ids" "token_bytes t ids = cs" "length ids = length cs" by blast
  have "vocab_ok (encoder t) (take (baseSize t) (decoder t))" using assms(1) by (simp add: whisper_ok_def)
  then have "i < baseSize t" "decoder t ! i = [c]" using vocab_lookup i(1) whisper_base [OF assms(1)] by fastforce+
  then show ?case using ids by (intro exI [of _ "i # ids"]) (simp add: base_ids_def token_bytes_def)
qed

lemma merge_piece_bytes:
  assumes "whisper_ok t" "base_ids t ids"
  shows "base_ids t (merge_piece t ids) \<and> token_bytes t (merge_piece t ids) = token_bytes t ids \<and> length (merge_piece t ids) \<le> length ids"
  using assms(2)
proof (induction "length ids" arbitrary: ids rule: less_induct)
  case less
  show ?case
  proof (cases "best_pair t 0 None ids")
    case None
    then have "merge_piece t ids = ids" by (subst merge_piece.simps) simp
    then show ?thesis using less.prems by simp
  next
    case (Some p)
    obtain i m where p: "p = (i, m)" by (cases p)
    have i: "i + 1 < length ids" "merges t (mergeKey (ids ! i) (ids ! Suc i)) = Some m"
      using best_pair_index [of t 0 None ids i m] Some p by auto
    have split: "ids = take i ids @ [ids ! i, ids ! Suc i] @ drop (i + 2) ids"
      using i(1) by (metis add_2_eq_Suc' append_Cons append_Nil Cons_nth_drop_Suc Suc_lessD append_take_drop_id Suc_eq_plus1)
    have ab: "ids ! i < baseSize t" "ids ! Suc i < baseSize t"
      using less.prems i(1) by (auto simp: base_ids_def list_all_length)
    have "merges_ok (take (baseSize t) (decoder t)) (merges t)" using assms(1) by (simp add: whisper_ok_def)
    then have m: "m < baseSize t" "decoder t ! m = decoder t ! (ids ! i) @ decoder t ! (ids ! Suc i)"
      using i(2) ab whisper_base [OF assms(1)] unfolding merges_ok_def by (metis nth_take)+
    let ?ids = "take i ids @ m # drop (i + 2) ids"
    have b: "base_ids t ?ids" using less.prems m(1) by (subst (asm) split) (simp add: base_ids_def)
    have tb: "token_bytes t ?ids = token_bytes t ids" using m(2) by (subst (2) split) (simp add: token_bytes_def)
    have l: "length ?ids < length ids" using i(1) by simp
    have "merge_piece t ids = merge_piece t ?ids" using Some p by (subst merge_piece.simps) simp
    moreover have "base_ids t (merge_piece t ?ids)" "token_bytes t (merge_piece t ?ids) = token_bytes t ids" "length (merge_piece t ?ids) \<le> length ids"
      using less.hyps [OF l b] tb l by (blast, metis, linarith)
    ultimately show ?thesis by simp
  qed
qed

lemma encode_from_bytes:
  assumes "whisper_ok t" "encode_from uc t capacity s pos dst = (dst', None)" "pos \<le> length s"
  shows "\<exists>ids. dst' = dst @ ids \<and> base_ids t ids \<and> token_bytes t ids = drop pos s"
  using assms(2,3)
proof (induction "length s - pos" arbitrary: pos dst rule: less_induct)
  case less
  show ?case
  proof (cases "pos < length s")
    case False
    then have "dst' = dst" using less.prems by (simp add: encode_from.simps)
    then show ?thesis using False by (simp add: base_ids_def token_bytes_def)
  next
    case True
    let ?fin = "nextPieceEnd uc s pos"
    have fin: "pos < ?fin" "?fin \<le> length s" using nextPieceEnd_bounds [OF True] by auto
    obtain d e where d: "byte_tokens t capacity dst (take (?fin - pos) (drop pos s)) = (d, e)"
      by (cases "byte_tokens t capacity dst (take (?fin - pos) (drop pos s))")
    have e: "e = None" "encode_from uc t capacity s ?fin (take (length dst) d @ merge_piece t (drop (length dst) d)) = (dst', None)"
      using less.prems(1) True d by (auto simp: encode_from.simps [of uc t capacity s pos] Let_def split: option.splits)
    obtain ids where ids: "d = dst @ ids" "base_ids t ids" "token_bytes t ids = take (?fin - pos) (drop pos s)"
      using byte_tokens_bytes [OF assms(1)] d e(1) by blast
    note mp = merge_piece_bytes [OF assms(1) ids(2)]
    have shorter: "length s - ?fin < length s - pos" using fin True by linarith
    obtain js where js: "dst' = (dst @ merge_piece t ids) @ js" "base_ids t js" "token_bytes t js = drop ?fin s"
      using less.hyps [OF shorter, of "dst @ merge_piece t ids"] e(2) ids(1) fin(2) by auto
    have "take (?fin - pos) (drop pos s) @ drop ?fin s = drop pos s" using fin(1)
      by (metis append_take_drop_id drop_drop le_add_diff_inverse2 less_imp_le)
    then show ?thesis using js mp ids(3) by (intro exI [of _ "merge_piece t ids @ js"]) simp
  qed
qed

text \<open>With a token for every byte and room for one id per byte, encoding does not fail.\<close>

lemma byte_tokens_total:
  assumes "\<And>c. c \<in> set cs \<Longrightarrow> map_of (encoder t) [c] \<noteq> None" "length dst + length cs \<le> capacity"
  shows "\<exists>dst'. byte_tokens t capacity dst cs = (dst', None)"
  using assms by (induction cs arbitrary: dst) (auto split: option.splits)

lemma encode_from_total:
  assumes "whisper_ok t" "\<And>c. c \<in> set s \<Longrightarrow> map_of (encoder t) [c] \<noteq> None" "length dst + (length s - pos) \<le> capacity"
  shows "\<exists>dst'. encode_from uc t capacity s pos dst = (dst', None)"
  using assms(3)
proof (induction "length s - pos" arbitrary: pos dst rule: less_induct)
  case less
  show ?case
  proof (cases "pos < length s")
    case False
    then show ?thesis by (simp add: encode_from.simps)
  next
    case True
    let ?fin = "nextPieceEnd uc s pos"
    have fin: "pos < ?fin" "?fin \<le> length s" using nextPieceEnd_bounds [OF True] by auto
    have len: "length (take (?fin - pos) (drop pos s)) = ?fin - pos" using fin by simp
    have "\<And>c. c \<in> set (take (?fin - pos) (drop pos s)) \<Longrightarrow> map_of (encoder t) [c] \<noteq> None"
      using assms(2) by (meson in_set_dropD in_set_takeD)
    moreover have "length dst + length (take (?fin - pos) (drop pos s)) \<le> capacity" unfolding len using less.prems fin by linarith
    ultimately obtain d where d: "byte_tokens t capacity dst (take (?fin - pos) (drop pos s)) = (d, None)"
      using byte_tokens_total by blast
    obtain ids where ids: "d = dst @ ids" "base_ids t ids" "length ids = ?fin - pos" using byte_tokens_bytes [OF assms(1) d] len by auto
    have "length (dst @ merge_piece t ids) + (length s - ?fin) \<le> capacity"
    proof -
      have "length (merge_piece t ids) \<le> ?fin - pos" using merge_piece_bytes [OF assms(1) ids(2)] ids(3) by simp
      moreover have "?fin - pos + (length s - ?fin) = length s - pos" using fin by linarith
      ultimately show ?thesis using less.prems by simp
    qed
    then obtain dst' where "encode_from uc t capacity s ?fin (dst @ merge_piece t ids) = (dst', None)"
      using less.hyps [of ?fin "dst @ merge_piece t ids"] fin(1) True by (metis diff_less_mono2)
    then show ?thesis using d ids(1) True by (simp add: encode_from.simps [of uc t capacity s pos])
  qed
qed

lemma decode_ids_bytes:
  assumes "whisper_ok t"
  shows "base_ids t ids \<Longrightarrow> length dst + length (token_bytes t ids) \<le> capacity \<Longrightarrow>
         decode_ids t capacity dst (map int ids) = (dst @ token_bytes t ids, None)"
proof (induction ids arbitrary: dst)
  case (Cons i ids)
  then have "i < baseSize t" by (simp add: base_ids_def)
  then have "i < timestampBegin t" "i < vocabSize t" using assms by (auto simp: whisper_ok_def)
  then show ?case using Cons by (simp add: token_bytes_def base_ids_def)
qed (simp add: token_bytes_def)

text \<open>
  C31: a Whisper tokenizer that loads from its vocabulary files encodes every text without
  special tokens, whose bytes have tokens, when there is room for one id per byte, and decoding the ids into a buffer of the text's size gives the text back.
\<close>

theorem whisper_tokenizer_roundtrip:
  assumes "newTokenizer_whisper gpt2 multi k = Inr t" "length gpt2 < 2 ^ 32" "length multi < 2 ^ 32"
    and "\<And>c. c \<in> set s \<Longrightarrow> map_of (encoder t) [c] \<noteq> None" "\<not> containsSpecialToken s (specialIDs t)" "length s \<le> capacity"
  shows "\<exists>ids. EncodeInto_whisper uc (Some t) capacity [] s = (ids, None)
     \<and> decodeInto (Some t) (length s) [] (map int ids) = (s, None)"
proof -
  note ok = newTokenizer_whisper_ok [OF assms(1-3)]
  obtain ids where e: "encode_from uc t capacity s 0 [] = (ids, None)"
    using encode_from_total [OF ok assms(4), of s "[]" 0 capacity uc] assms(6) by auto
  then have b: "base_ids t ids" "token_bytes t ids = s" using encode_from_bytes [OF ok e] by auto
  show ?thesis using e assms(5) decode_ids_bytes [OF ok b(1), of "[]" "length s"] b(2)
    by (simp add: EncodeInto_whisper_def decodeInto_def)
qed

text \<open>A vocabulary of two letters and their concatenation.\<close>

definition small_vocab :: string where
  "small_vocab = ''YQ== 0'' @ [CHR 0x0A] @ ''Yg== 1'' @ [CHR 0x0A] @ ''YWI= 2'' @ [CHR 0x0A]"

lemma small_chars: "char_of (97 :: nat) = CHR ''a''" "char_of (98 :: nat) = CHR ''b''" "char_of (354 :: nat) = CHR ''b''"
  by code_simp+

lemma small_vocab_ranks: "readRanks small_vocab = Inr ([(''a'', 0), (''b'', 1), (''ab'', 2)], [''a'', ''b'', ''ab''])"
  by (simp add: small_vocab_def readRanks_def raw_lines_def rank_line_def drop_cr_def DecodeString_def b64_value_def
      Atoi_def all_digits_def max_int_def Let_def small_chars)

theorem whisper_tokenizer_roundtrip_witness:
  "\<exists>t ids. newTokenizer_whisper small_vocab small_vocab 0 = Inr t
     \<and> EncodeInto_whisper \<lparr>IsLetter = (\<lambda>r. True), IsNumber = (\<lambda>r. False), IsSpace = (\<lambda>r. False), IsMark = (\<lambda>r. False), ToLower = id\<rparr>
         (Some t) 4 [] ''abba'' = (ids, None)
     \<and> decodeInto (Some t) 4 [] (map int ids) = (''abba'', None)"
proof -
  obtain t where t: "newTokenizer_whisper small_vocab small_vocab 0 = Inr t" "encoder t = [(''a'', 0), (''b'', 1), (''ab'', 2)]"
    by (simp add: newTokenizer_whisper_def small_vocab_ranks addSpecialTokens_def length_special_names empty_tokenizer_def compileMerges_def Let_def)
  have "\<not> containsSpecialToken ''abba'' (specialIDs t)" by (simp add: containsSpecialToken_def special_from.simps)
  moreover have "length small_vocab < 2 ^ 32" by (simp add: small_vocab_def)
  moreover have "\<And>c. c \<in> set ''abba'' \<Longrightarrow> map_of (encoder t) [c] \<noteq> None" by (auto simp: t(2))
  moreover have "length ''abba'' = 4" by simp
  ultimately show ?thesis
    using whisper_tokenizer_roundtrip [OF t(1), of "''abba''" 4] t(1) by (metis order_refl)
qed

end
