(* ===== verification/Go_Floats.thy ===== *)
theory Go_Floats
  imports Main
begin

text \<open>
  Floating-point numbers.  Their arithmetic is a parameter, the record \<open>fops\<close>: no property assumes more of it
  than is stated there.  Order is what the code branches on: values are of a linear order, and where
  \<^verbatim>\<open>NaN\<close> and minus infinity matter, \<open>fl\<close> adds them.
\<close>

record 'f fops =
  f_zero :: 'f
  f_one :: 'f
  f_add :: "'f \<Rightarrow> 'f \<Rightarrow> 'f"
  f_sub :: "'f \<Rightarrow> 'f \<Rightarrow> 'f"
  f_mul :: "'f \<Rightarrow> 'f \<Rightarrow> 'f"
  f_inv :: "'f \<Rightarrow> 'f"
  f_exp :: "'f \<Rightarrow> 'f"

text \<open>Integers stand for the arithmetic in examples: the exponential is a shift.\<close>

definition int_fops :: "int fops" where
  "int_fops = \<lparr>f_zero = 0, f_one = 1, f_add = (+), f_sub = (-), f_mul = (*), f_inv = (\<lambda>x. x), f_exp = (\<lambda>x. x + 9)\<rparr>"

datatype 'f fl = NaN | NegInf | Num 'f

text \<open>Go's \<open>x > y\<close> on such values: false when either is \<^verbatim>\<open>NaN\<close>.\<close>

fun fl_gt :: "'f::linorder fl \<Rightarrow> 'f fl \<Rightarrow> bool" where
  "fl_gt (Num a) (Num b) = (b < a)"
| "fl_gt (Num a) NegInf = True"
| "fl_gt _ _ = False"

text \<open>Go's \<open>x == y\<close>.\<close>

fun fl_eq :: "'f fl \<Rightarrow> 'f fl \<Rightarrow> bool" where
  "fl_eq (Num a) (Num b) = (a = b)"
| "fl_eq NegInf NegInf = True"
| "fl_eq _ _ = False"

lemma fl_gt_trans: "fl_gt x y \<Longrightarrow> fl_gt y z \<Longrightarrow> fl_gt x z"
  by (cases x; cases y; cases z) auto

lemma fl_gt_Num: "fl_gt x y \<Longrightarrow> \<exists>a. x = Num a"
  by (cases x; cases y) auto

end
