(* ===== verification/Whisper_Greedy.thy ===== *)
theory Whisper_Greedy
  imports Whisper_Roundtrip Go_Floats
begin

text \<open>
  Whisper's deterministic decoder policy (\<^verbatim>\<open>src/whisper/greedy.go\<close>): the table of suppressed tokens,
  the context a window starts with, the timestamp rules, and the choice of the next token.  Tokens are
  integers as in the code; a logit is \<open>fl\<close>.  Proved: the filters as one pointwise rule, that the vector
  and the scalar search agree, and the grammar of timestamps that every decoded sequence follows.
\<close>

section \<open>Model: options and policy\<close>

definition textContext :: nat where "textContext = 448"

datatype greedy_error =
    ErrGreedyNilPolicy | ErrGreedyLogitsShape | ErrGreedyOutputTooSmall | ErrGreedyPromptTooLong
  | ErrGreedyTokenRange | ErrGreedyNoCandidate | UnsupportedLanguage | UnsupportedTask | SpaceNotOneToken
  | GreedyTokenizer wtok_error

text \<open>\<open>f_ticks\<close> is \<open>math.Round(s / 0.02)\<close>, a number of seconds in timestamp ticks.\<close>

record 'f wops = "'f fops" +
  f_log :: "'f \<Rightarrow> 'f"
  f_ticks :: "'f \<Rightarrow> int"

record 'f greedyOptions =
  g_Language :: string
  g_Task :: string
  WithoutTimestamps :: bool
  SuppressTokens :: "int list"
  DisableBlankSuppression :: bool
  DisableNonSpeechSuppression :: bool
  DisableTimestampRules :: bool
  DisableInitialTimestampLimit :: bool
  MaxInitialTimestampSeconds :: 'f

record 'f greedyPolicy =
  p_tokenizer :: tokenizer
  p_options :: "'f greedyOptions"
  suppressed :: "bool list"
  suppressedIDs :: "nat list"
  sampleBegin :: nat
  spaceToken :: nat
  withoutTimestamps :: bool
  maxInitialTimestampIndex :: int
  initialTimestampLimit :: bool

text \<open>\<open>strings.ToLower\<close>.\<close>

function lower_text :: "unicode_tables \<Rightarrow> string \<Rightarrow> string" where
  "lower_text uc s =
     (if s = [] then []
      else case DecodeRune s of (r, width) \<Rightarrow> AppendRune (ToLower uc r) @ lower_text uc (drop width s))"
  by pat_completeness auto
termination
proof (relation "measure (\<lambda>(uc, s). length s)", goal_cases)
  case (2 uc s r width)
  then show ?case using DecodeRune_size_pos [of s] by (cases "DecodeRune s"; cases s) auto
qed simp

declare lower_text.simps [simp del]

section \<open>Model: tokens that are not speech\<close>

definition add_id :: "nat \<Rightarrow> nat \<Rightarrow> nat list \<Rightarrow> nat list" where
  "add_id vocab i ids = (if i < vocab \<and> i \<notin> set ids then ids @ [i] else ids)"

definition suppressSymbol :: "unicode_tables \<Rightarrow> tokenizer \<Rightarrow> string \<Rightarrow> bool \<Rightarrow> nat list \<Rightarrow> wtok_error + nat list" where
  "suppressSymbol uc t s always ids =
     (case EncodeInto_whisper uc (Some t) 32 [] s of
        (_, Some e) \<Rightarrow> Inl e
      | (encoded, None) \<Rightarrow>
          Inr (if encoded \<noteq> [] \<and> (length encoded = 1 \<or> always) then add_id (vocabSize t) (hd encoded) ids else ids))"

fun suppress_symbols :: "unicode_tables \<Rightarrow> tokenizer \<Rightarrow> (string \<times> bool) list \<Rightarrow> nat list \<Rightarrow> wtok_error + nat list" where
  "suppress_symbols uc t [] ids = Inr ids"
| "suppress_symbols uc t ((s, always) # ss) ids =
     (case suppressSymbol uc t s always ids of Inl e \<Rightarrow> Inl e | Inr ids' \<Rightarrow> suppress_symbols uc t ss ids')"

text \<open>The sort at the end: each id sinks to its place among those before it.\<close>

fun sink :: "nat list \<Rightarrow> nat \<Rightarrow> nat list" where
  "sink ids 0 = ids"
| "sink ids (Suc j) = (if ids ! Suc j < ids ! j then sink (ids[Suc j := ids ! j, j := ids ! Suc j]) j else ids)"

definition sink_all :: "nat list \<Rightarrow> nat list" where
  "sink_all ids = foldl sink ids [1..<length ids]"

definition nonspeech_symbols :: "string list" where
  "nonspeech_symbols =
     map AppendRune ([34, 35, 40, 41, 42, 43, 47, 58, 59, 60, 61, 62, 64, 91, 92, 93, 94, 95, 96, 123, 124, 125, 126]
       @ [0x300C, 0x300D, 0x300E, 0x300F])"

definition nonspeech_multi :: "string list" where
  "nonspeech_multi =
     [''<<'', ''>>'', ''<<<'', ''>>>'', ''--'', ''---'', ''-('', ''-['', [CHR ''('', CHR 0x27], [CHR ''('', CHR 0x22],
      ''(('', ''))'', ''((('', '')))'', ''[['', '']]'', ''{{'', ''}}'',
      AppendRune 0x266A @ AppendRune 0x266A, AppendRune 0x266A @ AppendRune 0x266A @ AppendRune 0x266A]"

definition nonspeech_notes :: "string list" where
  "nonspeech_notes = map AppendRune [0x2669, 0x266A, 0x266B, 0x266C, 0x266D, 0x266E, 0x266F]"

definition nonSpeechTokenIDs :: "unicode_tables \<Rightarrow> tokenizer \<Rightarrow> wtok_error + nat list" where
  "nonSpeechTokenIDs uc t =
     (let flagged = (\<lambda>always. map (\<lambda>s. (s, always))); spaced = map (\<lambda>s. CHR '' '' # s) in
      case suppress_symbols uc t
          (flagged True [[CHR '' '', CHR ''-''], [CHR '' '', CHR 0x27]]
           @ flagged False nonspeech_symbols @ flagged False nonspeech_multi @ flagged True nonspeech_notes
           @ flagged False (spaced nonspeech_symbols) @ flagged False (spaced nonspeech_multi)
           @ flagged True (spaced nonspeech_notes)) [] of
        Inl e \<Rightarrow> Inl e
      | Inr ids \<Rightarrow> Inr (sink_all ids))"

section \<open>Model: a new policy\<close>

text \<open>Writing \<open>suppressed\<close> out of range is a panic.\<close>

fun suppress_ids :: "bool list \<Rightarrow> nat list \<Rightarrow> bool list option" where
  "suppress_ids tab [] = Some tab"
| "suppress_ids tab (i # ids) = (if i < length tab then suppress_ids (tab[i := True]) ids else None)"

fun suppress_given :: "bool list \<Rightarrow> int list \<Rightarrow> bool list option" where
  "suppress_given tab [] = Some tab"
| "suppress_given tab (i # ids) =
     (if i < 0 \<or> int (length tab) \<le> i then None else suppress_given (tab[nat i := True]) ids)"

definition control_ids :: "tokenizer \<Rightarrow> nat list" where
  "control_ids t = [transcribe t, translate t, sot t, sotPrev t, sotLM t, noSpeech t]"

definition policy_language :: "unicode_tables \<Rightarrow> string \<Rightarrow> string" where
  "policy_language uc s = (if lower_text uc s = [] then ''en'' else lower_text uc s)"

text \<open>The result is \<open>None\<close> for a panic.  \<open>EnglishOnly\<close> is kind 0, \<open>Multilingual\<close> kind 1.\<close>

definition newGreedyPolicy ::
  "unicode_tables \<Rightarrow> 'f::linorder wops \<Rightarrow> tokenizer option \<Rightarrow> 'f greedyOptions \<Rightarrow> (greedy_error + 'f greedyPolicy) option" where
  "newGreedyPolicy uc w tok opts =
     (case tok of
        None \<Rightarrow> Some (Inl (GreedyTokenizer ErrTokenizerNil))
      | Some t \<Rightarrow>
          if kind t = 1 \<and> languageToken t (policy_language uc (g_Language opts)) = None then Some (Inl UnsupportedLanguage)
          else if g_Task opts \<noteq> [] \<and> g_Task opts \<noteq> ''transcribe'' \<and> g_Task opts \<noteq> ''translate'' then Some (Inl UnsupportedTask)
          else case suppress_ids (replicate (vocabSize t) False) (control_ids t) of
            None \<Rightarrow> None
          | Some tab1 \<Rightarrow>
              (case (if DisableNonSpeechSuppression opts then Inr [] else nonSpeechTokenIDs uc t) of
                 Inl e \<Rightarrow> Some (Inl (GreedyTokenizer e))
               | Inr ids \<Rightarrow>
                   (case suppress_ids tab1 ids of
                      None \<Rightarrow> None
                    | Some tab2 \<Rightarrow>
                        (case suppress_given tab2 (SuppressTokens opts) of
                           None \<Rightarrow> Some (Inl ErrGreedyTokenRange)
                         | Some tab \<Rightarrow>
                             (case EncodeInto_whisper uc (Some t) 8 [] '' '' of
                                (_, Some e) \<Rightarrow> Some (Inl (GreedyTokenizer e))
                              | (space, None) \<Rightarrow>
                                  if length space \<noteq> 1 then Some (Inl SpaceNotOneToken)
                                  else Some (Inr \<lparr>p_tokenizer = t, p_options = opts, suppressed = tab,
                                    suppressedIDs = filter (\<lambda>i. tab ! i) [0..<length tab],
                                    sampleBegin = 0, spaceToken = hd space, withoutTimestamps = WithoutTimestamps opts,
                                    maxInitialTimestampIndex =
                                      (if f_zero w < MaxInitialTimestampSeconds opts
                                       then f_ticks w (MaxInitialTimestampSeconds opts) else 50),
                                    initialTimestampLimit =
                                      (\<not> DisableInitialTimestampLimit opts \<and> \<not> WithoutTimestamps opts)\<rparr>))))))"

section \<open>Model: the context of a window\<close>

definition policy_head :: "unicode_tables \<Rightarrow> 'f greedyPolicy \<Rightarrow> nat list" where
  "policy_head uc p =
     (let t = p_tokenizer p in
      [sot t]
      @ (if kind t = 1
         then [case languageToken t (policy_language uc (g_Language (p_options p))) of Some i \<Rightarrow> i | None \<Rightarrow> 0,
               if g_Task (p_options p) = ''translate'' then translate t else transcribe t]
         else [])
      @ (if withoutTimestamps p then [noTimestamps t] else []))"

definition in_vocab :: "'f greedyPolicy \<Rightarrow> int \<Rightarrow> bool" where
  "in_vocab p i \<longleftrightarrow> 0 \<le> i \<and> i < int (vocabSize (p_tokenizer p))"

text \<open>The policy and the tokens after it, or an error with both unchanged.\<close>

definition PromptInto ::
  "unicode_tables \<Rightarrow> 'f greedyPolicy \<Rightarrow> nat \<Rightarrow> int list \<Rightarrow> int list \<Rightarrow> int list \<Rightarrow> greedy_error + ('f greedyPolicy \<times> int list)" where
  "PromptInto uc p capacity dst prompt0 pre =
     (let prompt = (if textContext div 2 - 1 < length prompt0
                    then drop (length prompt0 - (textContext div 2 - 1)) prompt0 else prompt0);
          need = 1 + (if prompt \<noteq> [] then 1 + length prompt else 0)
                   + (if kind (p_tokenizer p) = 1 then 2 else 0) + (if withoutTimestamps p then 1 else 0) + length pre in
      if textContext < need then Inl ErrGreedyPromptTooLong
      else if capacity < length dst + need then Inl ErrGreedyOutputTooSmall
      else if \<not> list_all (in_vocab p) prompt \<or> \<not> list_all (in_vocab p) pre then Inl ErrGreedyTokenRange
      else let out = dst @ (if prompt \<noteq> [] then int (sotPrev (p_tokenizer p)) # prompt else [])
                     @ map int (policy_head uc p) @ pre
           in Inr (p\<lparr>sampleBegin := length out\<rparr>, out))"

section \<open>Model: the filters\<close>

definition maskLogits :: "'f fl list \<Rightarrow> int \<Rightarrow> int \<Rightarrow> 'f fl list" where
  "maskLogits logits start fin =
     map (\<lambda>i. if max start 0 \<le> int i \<and> int i < min fin (int (length logits)) then NegInf else logits ! i) [0..<length logits]"

definition fl_maximum :: "'f::linorder fl list \<Rightarrow> 'f fl" where
  "fl_maximum vs = foldl (\<lambda>m v. if fl_gt v m then v else m) NegInf vs"

text \<open>The logarithm of the mass of the timestamps, relative to their largest.\<close>

definition time_mass :: "'f wops \<Rightarrow> 'f \<Rightarrow> 'f fl list \<Rightarrow> 'f" where
  "time_mass w hi vs =
     f_add w hi (f_log w (foldl (\<lambda>acc v. case v of Num x \<Rightarrow> f_add w acc (f_exp w (f_sub w x hi)) | _ \<Rightarrow> acc) (f_zero w) vs))"

definition sampled_part :: "'f greedyPolicy \<Rightarrow> int list \<Rightarrow> int list" where
  "sampled_part p history = (if sampleBegin p \<le> length history then drop (sampleBegin p) history else history)"

definition ends_stamped :: "'f greedyPolicy \<Rightarrow> int list \<Rightarrow> bool" where
  "ends_stamped p seq \<longleftrightarrow> seq \<noteq> [] \<and> int (timestampBegin (p_tokenizer p)) \<le> last seq"

definition before_stamped :: "'f greedyPolicy \<Rightarrow> int list \<Rightarrow> bool" where
  "before_stamped p seq \<longleftrightarrow> length seq < 2 \<or> int (timestampBegin (p_tokenizer p)) \<le> seq ! (length seq - 2)"

definition last_seen :: "'f greedyPolicy \<Rightarrow> int list \<Rightarrow> int" where
  "last_seen p seq = foldl (\<lambda>seen i. if int (timestampBegin (p_tokenizer p)) \<le> i then i else seen) (- 1) seq"

definition mask_pairs :: "'f greedyPolicy \<Rightarrow> int list \<Rightarrow> 'f fl list \<Rightarrow> 'f fl list" where
  "mask_pairs p seq logits =
     (if ends_stamped p seq
      then if before_stamped p seq then maskLogits logits (int (timestampBegin (p_tokenizer p))) (int (length logits))
           else maskLogits logits 0 (int (eot (p_tokenizer p)))
      else logits)"

definition mask_order :: "'f greedyPolicy \<Rightarrow> int list \<Rightarrow> 'f fl list \<Rightarrow> 'f fl list" where
  "mask_order p seq logits =
     (if 0 \<le> last_seen p seq
      then maskLogits logits (int (timestampBegin (p_tokenizer p)))
             (if ends_stamped p seq \<and> \<not> before_stamped p seq then last_seen p seq else last_seen p seq + 1)
      else logits)"

definition mask_first :: "'f greedyPolicy \<Rightarrow> int list \<Rightarrow> 'f fl list \<Rightarrow> 'f fl list" where
  "mask_first p history logits =
     (if length history = sampleBegin p
      then let text_off = maskLogits logits 0 (int (timestampBegin (p_tokenizer p)));
               lastAllowed = int (timestampBegin (p_tokenizer p)) + maxInitialTimestampIndex p
           in if initialTimestampLimit p \<and> lastAllowed + 1 < int (length logits)
              then maskLogits text_off (lastAllowed + 1) (int (length logits)) else text_off
      else logits)"

definition mask_mass :: "'f::linorder wops \<Rightarrow> 'f greedyPolicy \<Rightarrow> 'f fl list \<Rightarrow> 'f fl list" where
  "mask_mass w p logits =
     (let begin_at = timestampBegin (p_tokenizer p); stamps = drop begin_at logits in
      case fl_maximum stamps of
        Num hi \<Rightarrow> if fl_gt (Num (time_mass w hi stamps)) (fl_maximum (take begin_at logits))
                   then maskLogits logits 0 (int begin_at) else logits
      | _ \<Rightarrow> logits)"

definition applyTimestampRules :: "'f::linorder wops \<Rightarrow> 'f greedyPolicy \<Rightarrow> 'f fl list \<Rightarrow> int list \<Rightarrow> 'f fl list" where
  "applyTimestampRules w p logits history =
     (let nt = noTimestamps (p_tokenizer p);
          logits1 = (if nt < length logits then logits[nt := NegInf] else logits);
          seq = sampled_part p history
      in mask_mass w p (mask_first p history (mask_order p seq (mask_pairs p seq logits1))))"

section \<open>Model: the choice\<close>

fun argmax_scan :: "'f::linorder fl list \<Rightarrow> nat \<Rightarrow> int \<Rightarrow> 'f fl \<Rightarrow> int" where
  "argmax_scan [] i bestID best = bestID"
| "argmax_scan (v # vs) i bestID best =
     (if fl_gt v best then argmax_scan vs (Suc i) (int i) v else argmax_scan vs (Suc i) bestID best)"

fun first_eq :: "'f fl list \<Rightarrow> nat \<Rightarrow> 'f fl \<Rightarrow> int option" where
  "first_eq [] i best = None"
| "first_eq (v # vs) i best = (if fl_eq v best then Some (int i) else first_eq vs (Suc i) best)"

text \<open>\<open>maxnum\<close> is the assembly routine \<^verbatim>\<open>maxNumNEON\<close>, used where the processor has it.\<close>

definition argmaxFinite :: "bool \<Rightarrow> ('f fl list \<Rightarrow> 'f fl) \<Rightarrow> 'f::linorder fl list \<Rightarrow> int" where
  "argmaxFinite accelerated maxnum vs =
     (let n = length vs div 16 * 16; scalar = argmax_scan vs 0 (- 1) NegInf in
      if accelerated \<and> 0 < n
      then let best = foldl (\<lambda>b v. if fl_gt v b \<or> b = NaN then v else b) (maxnum (take n vs)) (drop n vs)
           in if best = NaN \<or> best = NegInf then - 1
              else case first_eq vs 0 best of Some i \<Rightarrow> i | None \<Rightarrow> scalar
      else scalar)"

text \<open>
  \<open>selectNextInto\<close>: the filtered logits in \<open>dst\<close> and the token, or an error.  \<open>aliased\<close> says that
  \<open>dst\<close> is \<open>logits\<close>.
\<close>

definition filtered :: "'f::linorder wops \<Rightarrow> 'f greedyPolicy \<Rightarrow> 'f fl list \<Rightarrow> int list \<Rightarrow> 'f fl list" where
  "filtered w p logits history =
     (let vocab = vocabSize (p_tokenizer p);
          d1 = foldl (\<lambda>d i. d[i := NegInf]) logits (suppressedIDs p);
          d2 = (if \<not> DisableBlankSuppression (p_options p) \<and> length history = sampleBegin p
                then d1[eot (p_tokenizer p) := NegInf, spaceToken p := NegInf] else d1)
      in if \<not> withoutTimestamps p \<and> \<not> DisableTimestampRules (p_options p)
         then applyTimestampRules w p (take vocab d2) history @ drop vocab d2 else d2)"

definition selectNextInto ::
  "bool \<Rightarrow> ('f fl list \<Rightarrow> 'f fl) \<Rightarrow> 'f::linorder wops \<Rightarrow> 'f greedyPolicy \<Rightarrow> bool \<Rightarrow> 'f fl list \<Rightarrow> 'f fl list \<Rightarrow> int list
    \<Rightarrow> 'f fl list \<times> (greedy_error + int)" where
  "selectNextInto accelerated maxnum w p aliased dst logits history =
     (let vocab = vocabSize (p_tokenizer p) in
      if length logits < vocab then (dst, Inl ErrGreedyLogitsShape)
      else if length dst < vocab then (dst, Inl ErrGreedyOutputTooSmall)
      else let d = filtered w p (if aliased then logits else take vocab logits @ drop vocab dst) history;
               best = argmaxFinite accelerated maxnum (take vocab d)
           in (d, if best < 0 then Inl ErrGreedyNoCandidate else Inr best))"

section \<open>The search\<close>

definition first_best :: "'f::linorder fl list \<Rightarrow> nat \<Rightarrow> bool" where
  "first_best vs b \<longleftrightarrow> b < length vs \<and> (\<exists>x. vs ! b = Num x) \<and> (\<forall>j<length vs. \<not> fl_gt (vs ! j) (vs ! b)) \<and>
     (\<forall>j<b. vs ! j \<noteq> vs ! b)"

definition no_number :: "'f fl list \<Rightarrow> bool" where
  "no_number vs \<longleftrightarrow> (\<forall>v\<in>set vs. \<forall>x. v \<noteq> Num x)"

lemma fl_gt_NegInf [simp]: "fl_gt v NegInf \<longleftrightarrow> (\<exists>x. v = Num x)"
  by (cases v) auto

lemma fl_gt_irrefl [simp]: "\<not> fl_gt v v"
  by (cases v) auto

lemma not_gt_trans: "\<lbrakk>\<not> fl_gt u (Num x); fl_gt v (Num x)\<rbrakk> \<Longrightarrow> \<not> fl_gt u v"
  by (cases u; cases v) auto

lemma first_best_unique: "first_best vs a \<Longrightarrow> first_best vs b \<Longrightarrow> a = b"
proof -
  assume "first_best vs a" "first_best vs b"
  then obtain x y where xy: "vs ! a = Num x" "vs ! b = Num y" "\<not> fl_gt (vs ! a) (vs ! b)" "\<not> fl_gt (vs ! b) (vs ! a)"
    "\<forall>j<a. vs ! j \<noteq> vs ! a" "\<forall>j<b. vs ! j \<noteq> vs ! b"
    unfolding first_best_def by blast
  then have "vs ! a = vs ! b" by auto
  then show "a = b" using xy(5,6) by (metis linorder_neqE_nat)
qed

lemma first_best_snoc:
  assumes "first_best us b"
  shows "first_best (us @ [v]) (if fl_gt v (us ! b) then length us else b)"
proof -
  obtain x where x: "us ! b = Num x" using assms by (auto simp: first_best_def)
  show ?thesis
  proof (cases "fl_gt v (us ! b)")
    case True
    then have "\<not> fl_gt (us ! j) v" if "j < length us" for j using assms that not_gt_trans [of "us ! j" x v] x by (auto simp: first_best_def)
    moreover have "us ! j \<noteq> v" if "j < length us" for j using assms that True by (auto simp: first_best_def)
    ultimately show ?thesis using True fl_gt_Num [OF True] by (auto simp: first_best_def nth_append less_Suc_eq)
  next
    case False
    then show ?thesis using assms by (auto simp: first_best_def nth_append less_Suc_eq)
  qed
qed

lemma no_number_snoc: "no_number us \<Longrightarrow> first_best (us @ [Num x]) (length us)"
  by (force simp: first_best_def no_number_def nth_append less_Suc_eq in_set_conv_nth dest: fl_gt_Num)

lemma argmax_scan_best:
  "first_best us b \<Longrightarrow> \<exists>c. argmax_scan vs (length us) (int b) (us ! b) = int c \<and> first_best (us @ vs) c"
proof (induction vs arbitrary: us b)
  case (Cons v vs)
  let ?b = "if fl_gt v (us ! b) then length us else b"
  have "b < length us" using Cons.prems by (simp add: first_best_def)
  then have "(us @ [v]) ! ?b = (if fl_gt v (us ! b) then v else us ! b)" by (auto simp: nth_append)
  then show ?case using Cons.IH [OF first_best_snoc [OF Cons.prems, of v]] by (auto split: if_splits)
qed auto

lemma argmax_scan_none:
  "no_number us \<Longrightarrow>
   (if no_number vs then argmax_scan vs (length us) (- 1) NegInf = - 1
    else \<exists>c. argmax_scan vs (length us) (- 1) NegInf = int c \<and> first_best (us @ vs) c)"
proof (induction vs arbitrary: us)
  case (Cons v vs)
  show ?case
  proof (cases "\<exists>x. v = Num x")
    case True
    then obtain x where x: "v = Num x" by blast
    have "(us @ [v]) ! length us = v" by simp
    then show ?thesis using argmax_scan_best [OF no_number_snoc [OF Cons.prems, of x], of vs] x by (auto simp: no_number_def)
  next
    case False
    then have "no_number (us @ [v])" using Cons.prems by (auto simp: no_number_def)
    from Cons.IH [OF this] show ?thesis using False by (auto simp: no_number_def split: if_splits)
  qed
qed (simp add: no_number_def)

text \<open>What the assembly routine promises.\<close>

definition maxnum_ok :: "('f::linorder fl list \<Rightarrow> 'f fl) \<Rightarrow> bool" where
  "maxnum_ok maxnum \<longleftrightarrow> (\<forall>vs. if \<forall>v\<in>set vs. v = NaN then maxnum vs = NaN
     else maxnum vs \<in> set vs \<and> maxnum vs \<noteq> NaN \<and> (\<forall>v\<in>set vs. \<not> fl_gt v (maxnum vs)))"

definition is_top :: "'f::linorder fl list \<Rightarrow> 'f fl \<Rightarrow> bool" where
  "is_top vs m \<longleftrightarrow> (if \<forall>v\<in>set vs. v = NaN then m = NaN
     else m \<in> set vs \<and> m \<noteq> NaN \<and> (\<forall>v\<in>set vs. \<not> fl_gt v m))"

lemma is_top_snoc: "is_top us m \<Longrightarrow> is_top (us @ [v]) (if fl_gt v m \<or> m = NaN then v else m)"
proof -
  assume m: "is_top us m"
  have "\<not> fl_gt u v" if "fl_gt v m" "u \<in> set us" for u
    using m that by (cases u; cases v; cases m) (force simp: is_top_def split: if_splits)+
  then show ?thesis using m by (cases v; cases m) (auto simp: is_top_def split: if_splits)
qed

lemma foldl_top: "is_top us m \<Longrightarrow> is_top (us @ vs) (foldl (\<lambda>b v. if fl_gt v b \<or> b = NaN then v else b) m vs)"
proof (induction vs arbitrary: us m)
  case (Cons v vs)
  from Cons.IH [OF is_top_snoc [OF Cons.prems, of v]] show ?case by simp
qed simp

lemma first_eq_Some:
  "first_eq vs i (Num x) = (case filter (\<lambda>j. vs ! j = Num x) [0..<length vs] of [] \<Rightarrow> None | j # _ \<Rightarrow> Some (int (i + j)))"
proof (induction vs arbitrary: i)
  case (Cons v vs)
  have ixs: "[0..<Suc (length vs)] = 0 # map Suc [0..<length vs]" by (simp add: map_Suc_upt upt_conv_Cons del: upt_Suc)
  have eq: "fl_eq v (Num x) \<longleftrightarrow> v = Num x" by (cases v) auto
  show ?case
  proof (cases "v = Num x")
    case True
    then show ?thesis by (simp add: eq ixs del: upt_Suc)
  next
    case False
    have "filter (\<lambda>j. (v # vs) ! j = Num x) (map Suc [0..<length vs]) = map Suc (filter (\<lambda>j. vs ! j = Num x) [0..<length vs])"
      by (simp add: filter_map comp_def)
    then show ?thesis using False Cons.IH [of "Suc i"] by (simp add: eq ixs del: upt_Suc split: list.splits)
  qed
qed simp

lemma first_eq_best:
  assumes "is_top vs (Num x)"
  shows "\<exists>b. first_eq vs 0 (Num x) = Some (int b) \<and> first_best vs b"
proof -
  have x: "Num x \<in> set vs" "\<forall>v\<in>set vs. \<not> fl_gt v (Num x)" using assms by (auto simp: is_top_def split: if_splits)
  let ?js = "filter (\<lambda>j. vs ! j = Num x) [0..<length vs]"
  obtain j js where js: "?js = j # js" using x(1) by (cases ?js) (auto simp: filter_empty_conv in_set_conv_nth)
  have "j \<in> set ?js" using js by simp
  then have j: "j < length vs" "vs ! j = Num x" by auto
  have "sorted ?js" by (rule sorted_wrt_filter) simp
  then have "\<forall>k\<in>set ?js. j \<le> k" using js by (metis list.set_intros(1) set_ConsD sorted_simps(2) order_refl)
  moreover have "k \<in> set ?js" if "k < j" "vs ! k = Num x" for k using that j(1) by simp
  ultimately have "\<forall>k<j. vs ! k \<noteq> Num x" by (meson not_le)
  then have "first_best vs j" using j x by (auto simp: first_best_def)
  then show ?thesis using js by (auto simp: first_eq_Some)
qed

text \<open>With and without the assembly routine, the search finds the first of the largest numbers.\<close>

lemma argmaxFinite_first_best:
  assumes "maxnum_ok maxnum"
  shows "if no_number vs then argmaxFinite acc maxnum vs = - 1
         else \<exists>b. argmaxFinite acc maxnum vs = int b \<and> first_best vs b"
proof -
  define n where "n = length vs div 16 * 16"
  have scalar: "if no_number vs then argmax_scan vs 0 (- 1) NegInf = - 1
      else \<exists>b. argmax_scan vs 0 (- 1) NegInf = int b \<and> first_best vs b"
    using argmax_scan_none [of "[]" vs] by (auto simp: no_number_def split: if_splits)
  show ?thesis
  proof (cases "acc \<and> 0 < n")
    case True
    have "is_top (take n vs) (maxnum (take n vs))" using assms unfolding maxnum_ok_def is_top_def by blast
    then have hi: "is_top vs (foldl (\<lambda>b v. if fl_gt v b \<or> b = NaN then v else b) (maxnum (take n vs)) (drop n vs))"
      (is "is_top vs ?b") using foldl_top [of "take n vs" _ "drop n vs"] by simp
    show ?thesis
    proof (cases "?b")
      case (Num x)
      then have "Num x \<in> set vs" using hi by (auto simp: is_top_def split: if_splits)
      then have "\<not> no_number vs" by (auto simp: no_number_def)
      then show ?thesis using True Num first_eq_best [of vs x] hi unfolding argmaxFinite_def n_def [symmetric] Let_def by auto
    next
      case NaN
      then have "no_number vs" using hi by (auto simp: is_top_def no_number_def split: if_splits)
      then show ?thesis using True NaN unfolding argmaxFinite_def n_def [symmetric] Let_def by simp
    next
      case NegInf
      then have "\<forall>v\<in>set vs. \<not> fl_gt v NegInf" using hi by (auto simp: is_top_def split: if_splits)
      then have "no_number vs" by (auto simp: no_number_def)
      then show ?thesis using True NegInf unfolding argmaxFinite_def n_def [symmetric] Let_def by simp
    qed
  next
    case False
    then show ?thesis using scalar unfolding argmaxFinite_def n_def [symmetric] Let_def by (auto split: if_splits)
  qed
qed

section \<open>The filters, token by token\<close>

lemma length_mask [simp]: "length (maskLogits vs a b) = length vs"
  by (simp add: maskLogits_def)

lemma mask_nth: "i < length vs \<Longrightarrow> maskLogits vs a b ! i = (if a \<le> int i \<and> int i < b then NegInf else vs ! i)"
  by (auto simp: maskLogits_def)

definition rules_on :: "'f greedyPolicy \<Rightarrow> bool" where
  "rules_on p \<longleftrightarrow> \<not> withoutTimestamps p \<and> \<not> DisableTimestampRules (p_options p)"

abbreviation stamp_from :: "'f greedyPolicy \<Rightarrow> nat" where
  "stamp_from p \<equiv> timestampBegin (p_tokenizer p)"

text \<open>What the timestamp rules forbid, apart from the comparison of masses.\<close>

definition stamp_blocked :: "'f greedyPolicy \<Rightarrow> int list \<Rightarrow> nat \<Rightarrow> bool" where
  "stamp_blocked p history i \<longleftrightarrow>
     (let seq = sampled_part p history; closing = ends_stamped p seq \<and> \<not> before_stamped p seq in
      i = noTimestamps (p_tokenizer p)
      \<or> ends_stamped p seq \<and> before_stamped p seq \<and> stamp_from p \<le> i
      \<or> closing \<and> i < eot (p_tokenizer p)
      \<or> 0 \<le> last_seen p seq \<and> stamp_from p \<le> i \<and> int i < (if closing then last_seen p seq else last_seen p seq + 1)
      \<or> length history = sampleBegin p \<and>
          (i < stamp_from p \<or> initialTimestampLimit p \<and> int (stamp_from p) + maxInitialTimestampIndex p < int i))"

definition forbidden :: "'f greedyPolicy \<Rightarrow> int list \<Rightarrow> nat \<Rightarrow> bool" where
  "forbidden p history i \<longleftrightarrow>
     i \<in> set (suppressedIDs p)
     \<or> \<not> DisableBlankSuppression (p_options p) \<and> length history = sampleBegin p \<and> (i = eot (p_tokenizer p) \<or> i = spaceToken p)
     \<or> rules_on p \<and> stamp_blocked p history i"

definition text_loses :: "'f::linorder wops \<Rightarrow> 'f greedyPolicy \<Rightarrow> 'f fl list \<Rightarrow> bool" where
  "text_loses w p vs \<longleftrightarrow>
     (case fl_maximum (drop (stamp_from p) vs) of
        Num hi \<Rightarrow> fl_gt (Num (time_mass w hi (drop (stamp_from p) vs))) (fl_maximum (take (stamp_from p) vs))
      | _ \<Rightarrow> False)"

definition keep_logits :: "(nat \<Rightarrow> bool) \<Rightarrow> 'f fl list \<Rightarrow> nat \<Rightarrow> 'f fl list" where
  "keep_logits no logits n = map (\<lambda>i. if no i then NegInf else logits ! i) [0..<n]"

text \<open>The logits the next token is chosen from.\<close>

definition candidate_logits :: "'f::linorder wops \<Rightarrow> 'f greedyPolicy \<Rightarrow> 'f fl list \<Rightarrow> int list \<Rightarrow> 'f fl list" where
  "candidate_logits w p logits history =
     (let vocab = vocabSize (p_tokenizer p); loses = rules_on p \<and> text_loses w p (keep_logits (forbidden p history) logits vocab)
      in keep_logits (\<lambda>i. forbidden p history i \<or> loses \<and> i < stamp_from p) logits vocab)"

lemma keep_logits_eqI:
  "\<lbrakk>length vs = n; \<And>i. i < n \<Longrightarrow> vs ! i = (if no i then NegInf else logits ! i)\<rbrakk> \<Longrightarrow> vs = keep_logits no logits n"
  by (auto simp: keep_logits_def list_eq_iff_nth_eq)

lemma keep_logits_nth [simp]: "i < n \<Longrightarrow> keep_logits no logits n ! i = (if no i then NegInf else logits ! i)"
  by (simp add: keep_logits_def)

lemma length_keep_logits [simp]: "length (keep_logits no logits n) = n"
  by (simp add: keep_logits_def)

lemma length_foldl_mask [simp]: "length (foldl (\<lambda>d i. d[i := x]) d is) = length d"
  by (induction "is" arbitrary: d) auto

lemma foldl_mask_nth: "i < length d \<Longrightarrow> foldl (\<lambda>d i. d[i := x]) d is ! i = (if i \<in> set is then x else d ! i)"
  by (induction "is" arbitrary: d) (auto simp: nth_list_update)

lemma upd_nth: "j < length xs \<Longrightarrow> xs[i := x] ! j = (if j = i then x else xs ! j)"
  by (cases "i < length xs") (auto simp: nth_list_update)

lemma length_mask_first [simp]: "length (mask_first p history vs) = length vs"
  by (simp add: mask_first_def Let_def)

lemma length_mask_order [simp]: "length (mask_order p seq vs) = length vs"
  by (simp add: mask_order_def)

lemma length_mask_pairs [simp]: "length (mask_pairs p seq vs) = length vs"
  by (simp add: mask_pairs_def)

lemma stamp_masks:
  assumes "i < length vs"
  shows "mask_first p history (mask_order p (sampled_part p history) (mask_pairs p (sampled_part p history)
      (if noTimestamps (p_tokenizer p) < length vs then vs[noTimestamps (p_tokenizer p) := NegInf] else vs))) ! i
    = (if stamp_blocked p history i then NegInf else vs ! i)"
proof -
  define us where "us = (if noTimestamps (p_tokenizer p) < length vs then vs[noTimestamps (p_tokenizer p) := NegInf] else vs)"
  have us: "length us = length vs" "us ! i = (if i = noTimestamps (p_tokenizer p) then NegInf else vs ! i)"
    using assms by (auto simp: us_def)
  define q where "q = sampled_part p history"
  define A where "A \<longleftrightarrow> ends_stamped p q \<and> (if before_stamped p q then stamp_from p \<le> i else i < eot (p_tokenizer p))"
  define B where "B \<longleftrightarrow> 0 \<le> last_seen p q \<and> stamp_from p \<le> i \<and>
        int i < (if ends_stamped p q \<and> \<not> before_stamped p q then last_seen p q else last_seen p q + 1)"
  define C where "C \<longleftrightarrow> length history = sampleBegin p \<and>
        (i < stamp_from p \<or> initialTimestampLimit p \<and> int (stamp_from p) + maxInitialTimestampIndex p < int i)"
  have a: "mask_pairs p q us ! i = (if A then NegInf else us ! i)"
    using assms us(1) by (simp add: mask_pairs_def mask_nth A_def)
  have b: "mask_order p q xs ! i = (if B then NegInf else xs ! i)"
    if "length xs = length vs" for xs
    using assms that by (simp add: mask_order_def mask_nth B_def)
  have c: "mask_first p history xs ! i = (if C then NegInf else xs ! i)"
    if "length xs = length vs" for xs
    using assms that by (auto simp: mask_first_def Let_def mask_nth C_def)
  have "stamp_blocked p history i \<longleftrightarrow> C \<or> B \<or> A \<or> i = noTimestamps (p_tokenizer p)"
    unfolding stamp_blocked_def Let_def q_def [symmetric] A_def B_def C_def by argo
  then have "mask_first p history (mask_order p q (mask_pairs p q us)) ! i = (if stamp_blocked p history i then NegInf else vs ! i)"
    using a b [of "mask_pairs p q us"] c [of "mask_order p q (mask_pairs p q us)"] us by (simp only: length_mask_order length_mask_pairs) auto
  then show ?thesis by (simp add: us_def q_def)
qed

lemma mask_mass_nth:
  "i < length vs \<Longrightarrow> mask_mass w p vs ! i = (if text_loses w p vs \<and> i < stamp_from p then NegInf else vs ! i)"
  by (auto simp: mask_mass_def text_loses_def Let_def mask_nth split: fl.splits)

lemma length_mask_mass [simp]: "length (mask_mass w p vs) = length vs"
  by (auto simp: mask_mass_def Let_def split: fl.splits)

lemma filtered_candidates:
  assumes "vocabSize (p_tokenizer p) \<le> length logits"
  shows "take (vocabSize (p_tokenizer p)) (filtered w p logits history) = candidate_logits w p logits history"
proof -
  define n where "n = vocabSize (p_tokenizer p)"
  define blank where "blank = (\<not> DisableBlankSuppression (p_options p) \<and> length history = sampleBegin p)"
  define d where "d = (if blank then (foldl (\<lambda>d i. d[i := NegInf]) logits (suppressedIDs p))[eot (p_tokenizer p) := NegInf, spaceToken p := NegInf]
    else foldl (\<lambda>d i. d[i := NegInf]) logits (suppressedIDs p))"
  have d: "length d = length logits" "n \<le> length d" using assms by (auto simp: d_def n_def)
  have dn: "d ! i = (if i \<in> set (suppressedIDs p) \<or> blank \<and> (i = eot (p_tokenizer p) \<or> i = spaceToken p) then NegInf else logits ! i)"
    if "i < n" for i
    using that d by (auto simp: d_def foldl_mask_nth upd_nth)
  have f: "filtered w p logits history = (if rules_on p then applyTimestampRules w p (take n d) history @ drop n d else d)"
    unfolding filtered_def rules_on_def n_def d_def blank_def Let_def by simp
  show ?thesis
  proof (cases "rules_on p")
    case False
    then show ?thesis using d dn unfolding f n_def [symmetric] candidate_logits_def
      by (auto intro!: keep_logits_eqI simp: Let_def forbidden_def blank_def n_def [symmetric])
  next
    case True
    define m where "m = mask_first p history (mask_order p (sampled_part p history) (mask_pairs p (sampled_part p history)
        (if noTimestamps (p_tokenizer p) < length (take n d) then (take n d)[noTimestamps (p_tokenizer p) := NegInf] else take n d)))"
    have len: "length m = n" using d by (simp add: m_def)
    have "m ! i = (if stamp_blocked p history i then NegInf else d ! i)" if "i < n" for i
      using stamp_masks [of i "take n d" p history] that d unfolding m_def by simp
    then have m: "m = keep_logits (forbidden p history) logits n"
      using len dn True by (intro keep_logits_eqI) (auto simp: forbidden_def blank_def)
    have "take n (filtered w p logits history) = mask_mass w p m"
      using True d len unfolding f applyTimestampRules_def Let_def m_def [symmetric] by simp
    also have "\<dots> = candidate_logits w p logits history"
      unfolding candidate_logits_def Let_def n_def [symmetric]
      using True len by (intro keep_logits_eqI) (auto simp: mask_mass_nth m)
    finally show ?thesis by (simp add: n_def)
  qed
qed

lemma selectNext_first_best:
  assumes "maxnum_ok maxnum" and "vocabSize (p_tokenizer p) \<le> length logits" and "vocabSize (p_tokenizer p) \<le> length dst"
  shows "case snd (selectNextInto acc maxnum w p aliased dst logits history) of
      Inl e \<Rightarrow> e = ErrGreedyNoCandidate \<and> no_number (candidate_logits w p logits history)
    | Inr b \<Rightarrow> \<exists>i. b = int i \<and> first_best (candidate_logits w p logits history) i"
proof -
  define n where "n = vocabSize (p_tokenizer p)"
  define src where "src = (if aliased then logits else take n logits @ drop n dst)"
  have src: "n \<le> length src" "\<And>i. i < n \<Longrightarrow> src ! i = logits ! i"
    using assms(2,3) by (auto simp: src_def n_def nth_append)
  then have same: "keep_logits no src n = keep_logits no logits n" for no by (simp add: keep_logits_def)
  have "take n (filtered w p src history) = candidate_logits w p src history"
    using filtered_candidates [of p src w history] src(1) by (simp add: n_def)
  also have "\<dots> = candidate_logits w p logits history" by (simp add: candidate_logits_def same n_def [symmetric])
  finally have c: "take n (filtered w p src history) = candidate_logits w p logits history" .
  let ?b = "argmaxFinite acc maxnum (candidate_logits w p logits history)"
  have "snd (selectNextInto acc maxnum w p aliased dst logits history) = (if ?b < 0 then Inl ErrGreedyNoCandidate else Inr ?b)"
    using assms(2,3) unfolding selectNextInto_def Let_def n_def [symmetric] src_def [symmetric] c by simp
  then show ?thesis
    using argmaxFinite_first_best [OF assms(1), of "candidate_logits w p logits history" acc] by (auto split: if_splits)
qed

text \<open>
  C34: The greedy policy chooses the first of the largest logits among the tokens it permits, with the
  assembly search or without, and reports an error exactly when none is left: the in-place masks are one
  rule per token (suppressed, blank at the start, timestamp order and pairing, and text when the
  timestamps together outweigh it).
\<close>

theorem selectNext_chooses:
  assumes "maxnum_ok maxnum" and "vocabSize (p_tokenizer p) \<le> length logits" and "vocabSize (p_tokenizer p) \<le> length dst"
  shows "case snd (selectNextInto acc maxnum w p aliased dst logits history) of
      Inl e \<Rightarrow> e = ErrGreedyNoCandidate \<and> no_number (candidate_logits w p logits history)
    | Inr b \<Rightarrow> \<exists>i. b = int i \<and> first_best (candidate_logits w p logits history) i"
  by (rule selectNext_first_best [OF assms])

text \<open>A small vocabulary: three words, the end, two control tokens, and timestamps from 6 on.\<close>

definition scan_max :: "'f::linorder fl list \<Rightarrow> 'f fl" where
  "scan_max vs = foldl (\<lambda>b v. if fl_gt v b \<or> b = NaN then v else b) NaN vs"

lemma scan_max_ok: "maxnum_ok scan_max"
proof -
  have "is_top [] NaN" by (simp add: is_top_def)
  then have "is_top vs (scan_max vs)" for vs :: "'a fl list" using foldl_top [of "[]" NaN vs] by (simp add: scan_max_def)
  then show ?thesis unfolding maxnum_ok_def is_top_def by blast
qed

definition stamp_tokenizer :: tokenizer where
  "stamp_tokenizer = \<lparr>kind = 0, vocabSize = 9, baseSize = 3, encoder = [], decoder = [''a'', ''b'', ''c''], merges = Map.empty,
     specialIDs = [], eot = 3, sot = 4, translate = 4, transcribe = 4, sotLM = 4, sotPrev = 4, noSpeech = 4, noTimestamps = 5,
     timestampBegin = 6, languageTokens = []\<rparr>"

definition stamp_options :: "int greedyOptions" where
  "stamp_options = \<lparr>g_Language = [], g_Task = [], WithoutTimestamps = False, SuppressTokens = [], DisableBlankSuppression = False,
     DisableNonSpeechSuppression = True, DisableTimestampRules = False, DisableInitialTimestampLimit = False,
     MaxInitialTimestampSeconds = 0\<rparr>"

definition stamp_policy :: "int greedyPolicy" where
  "stamp_policy = \<lparr>p_tokenizer = stamp_tokenizer, p_options = stamp_options,
     suppressed = [False, False, False, False, True, False, False, False, False], suppressedIDs = [4], sampleBegin = 1,
     spaceToken = 0, withoutTimestamps = False, maxInitialTimestampIndex = 1, initialTimestampLimit = True\<rparr>"

definition int_wops :: "int wops" where
  "int_wops = fops.extend int_fops \<lparr>f_log = (\<lambda>x. x), f_ticks = (\<lambda>x. x)\<rparr>"

definition word_logits :: "int fl list" where
  "word_logits = [Num 1, Num 5, Num 2, NaN, Num 9, Num 9, Num 3, Num 4, Num 8]"

theorem selectNext_chooses_witness:
  "case snd (selectNextInto True scan_max int_wops stamp_policy True word_logits word_logits [4]) of
      Inl e \<Rightarrow> e = ErrGreedyNoCandidate \<and> no_number (candidate_logits int_wops stamp_policy word_logits [4])
    | Inr b \<Rightarrow> \<exists>i. b = int i \<and> first_best (candidate_logits int_wops stamp_policy word_logits [4]) i"
  by (rule selectNext_chooses [OF scan_max_ok]) (simp_all add: stamp_policy_def stamp_tokenizer_def word_logits_def)

section \<open>The grammar of timestamps\<close>

text \<open>The sequences the policy can decode after a context, whatever the logits of each step.\<close>

inductive decoded :: "bool \<Rightarrow> ('f fl list \<Rightarrow> 'f fl) \<Rightarrow> 'f::linorder wops \<Rightarrow> 'f greedyPolicy \<Rightarrow> int list \<Rightarrow> int list \<Rightarrow> bool"
  for acc maxnum w p ctx where
  decoded_none: "decoded acc maxnum w p ctx []"
| decoded_next: "\<lbrakk>decoded acc maxnum w p ctx seq;
     snd (selectNextInto acc maxnum w p aliased dst logits (ctx @ seq)) = Inr i\<rbrakk> \<Longrightarrow> decoded acc maxnum w p ctx (seq @ [i])"

abbreviation stamp :: "'f greedyPolicy \<Rightarrow> int \<Rightarrow> bool" where
  "stamp p i \<equiv> int (stamp_from p) \<le> i"

text \<open>What one step guarantees of the token chosen after \<open>seq\<close>.\<close>

definition stamp_step :: "'f greedyPolicy \<Rightarrow> int list \<Rightarrow> int \<Rightarrow> bool" where
  "stamp_step p seq i \<longleftrightarrow>
     (seq = [] \<longrightarrow> stamp p i \<and> (initialTimestampLimit p \<longrightarrow> i \<le> int (stamp_from p) + maxInitialTimestampIndex p)) \<and>
     (ends_stamped p seq \<and> before_stamped p seq \<longrightarrow> \<not> stamp p i) \<and>
     (ends_stamped p seq \<and> \<not> before_stamped p seq \<longrightarrow> int (eot (p_tokenizer p)) \<le> i) \<and>
     (stamp p i \<and> 0 \<le> last_seen p seq \<longrightarrow>
        (if ends_stamped p seq \<and> \<not> before_stamped p seq then last_seen p seq \<le> i else last_seen p seq < i))"

lemma select_stamp_step:
  assumes "maxnum_ok maxnum" "rules_on p" "sampleBegin p = length ctx"
    and "snd (selectNextInto acc maxnum w p aliased dst logits (ctx @ seq)) = Inr i"
  shows "stamp_step p seq i"
proof -
  have len: "vocabSize (p_tokenizer p) \<le> length logits" "vocabSize (p_tokenizer p) \<le> length dst"
    using assms(4) by (auto simp: selectNextInto_def Let_def split: if_splits)
  obtain j where j: "i = int j" "first_best (candidate_logits w p logits (ctx @ seq)) j"
    using selectNext_first_best [OF assms(1) len, where acc = acc and w = w and aliased = aliased and history = "ctx @ seq"] assms(4) by auto
  have "j < vocabSize (p_tokenizer p)" "candidate_logits w p logits (ctx @ seq) ! j \<noteq> NegInf"
    using j(2) by (auto simp: first_best_def candidate_logits_def Let_def)
  then have "\<not> stamp_blocked p (ctx @ seq) j"
    using assms(2) by (auto simp: candidate_logits_def Let_def forbidden_def split: if_splits)
  moreover have "sampled_part p (ctx @ seq) = seq" using assms(3) by (simp add: sampled_part_def)
  ultimately show ?thesis using assms(3) unfolding stamp_blocked_def stamp_step_def Let_def j(1)
    by (simp only: length_append) (auto simp: not_le not_less)
qed

lemma decoded_steps:
  assumes "decoded acc maxnum w p ctx seq" "maxnum_ok maxnum" "rules_on p" "sampleBegin p = length ctx" "n < length seq"
  shows "stamp_step p (take n seq) (seq ! n)"
  using assms
proof (induction arbitrary: n rule: decoded.induct)
  case (decoded_next seq aliased dst logits i)
  then show ?case using select_stamp_step [OF decoded_next(4,5,6,2)]
    by (cases "n = length seq") (auto simp: nth_append)
qed simp

lemma last_seen_snoc: "last_seen p (seq @ [i]) = (if stamp p i then i else last_seen p seq)"
  by (simp add: last_seen_def)

lemma last_seen_filter: "last_seen p seq = (if filter (stamp p) seq = [] then - 1 else last (filter (stamp p) seq))"
  by (induction seq rule: rev_induct) (simp_all add: last_seen_snoc, simp add: last_seen_def)

definition stamp_grammar :: "'f greedyPolicy \<Rightarrow> int list \<Rightarrow> bool" where
  "stamp_grammar p seq \<longleftrightarrow>
     sorted (filter (stamp p) seq) \<and>
     (seq \<noteq> [] \<longrightarrow> stamp p (hd seq) \<and> (initialTimestampLimit p \<longrightarrow> hd seq \<le> int (stamp_from p) + maxInitialTimestampIndex p)) \<and>
     (\<forall>n. Suc n < length seq \<and> stamp p (seq ! n) \<and> stamp p (seq ! Suc n) \<longrightarrow>
        0 < n \<and> \<not> stamp p (seq ! (n - 1)) \<and> int (stamp_from p) < seq ! n) \<and>
     (\<forall>n. Suc (Suc n) < length seq \<and> \<not> stamp p (seq ! n) \<and> stamp p (seq ! Suc n) \<longrightarrow>
        int (eot (p_tokenizer p)) \<le> seq ! Suc (Suc n))"

definition stamp_steps :: "'f greedyPolicy \<Rightarrow> int list \<Rightarrow> bool" where
  "stamp_steps p seq \<longleftrightarrow> (\<forall>n<length seq. stamp_step p (take n seq) (seq ! n))"

lemma stamp_steps_snoc: "stamp_steps p (seq @ [i]) \<longleftrightarrow> stamp_steps p seq \<and> stamp_step p seq i"
  by (auto simp: stamp_steps_def less_Suc_eq nth_append)

lemma last_seen_le: "\<lbrakk>filter (stamp p) seq \<noteq> []\<rbrakk> \<Longrightarrow> int (stamp_from p) \<le> last_seen p seq"
  using last_in_set [of "filter (stamp p) seq"] by (auto simp: last_seen_filter)

lemma sorted_le_last: "sorted xs \<Longrightarrow> x \<in> set xs \<Longrightarrow> x \<le> last (xs :: int list)"
  by (metis append_butlast_last_id empty_iff in_set_butlastD list.set(1) order_refl rotate1.simps(2) set_ConsD set_rotate1 sorted_append list.set_intros(1))

lemma steps_sorted: "stamp_steps p seq \<Longrightarrow> sorted (filter (stamp p) seq)"
proof (induction seq rule: rev_induct)
  case (snoc i seq)
  then have s: "sorted (filter (stamp p) seq)" "stamp_step p seq i" by (simp_all add: stamp_steps_snoc)
  have "j \<le> i" if "stamp p i" "j \<in> set (filter (stamp p) seq)" for j
  proof -
    from that(2) have ne: "filter (stamp p) seq \<noteq> []" by (metis empty_iff list.set(1))
    then have "0 \<le> last_seen p seq" using last_seen_le [OF ne] by simp
    then have "last_seen p seq \<le> i" using s(2) that(1) by (auto simp: stamp_step_def split: if_splits)
    moreover have "j \<le> last_seen p seq" using sorted_le_last [OF s(1) that(2)] ne by (simp add: last_seen_filter)
    ultimately show ?thesis by simp
  qed
  then show ?case using s(1) by (auto simp: sorted_append)
qed simp

lemma steps_grammar:
  assumes "stamp_steps p seq"
  shows "stamp_grammar p seq"
proof -
  have st: "stamp_step p (take n seq) (seq ! n)" if "n < length seq" for n using assms that by (simp add: stamp_steps_def)
  have hd: "stamp p (hd seq) \<and> (initialTimestampLimit p \<longrightarrow> hd seq \<le> int (stamp_from p) + maxInitialTimestampIndex p)" if "seq \<noteq> []"
    using st [of 0] that by (simp add: stamp_step_def hd_conv_nth)
  have ends: "ends_stamped p (take (Suc n) seq) \<longleftrightarrow> stamp p (seq ! n)" if "n < length seq" for n
    using that by (simp add: ends_stamped_def take_Suc_conv_app_nth)
  have before: "before_stamped p (take (Suc (Suc n)) seq) \<longleftrightarrow> stamp p (seq ! n)" if "Suc n < length seq" for n
    using that by (simp add: before_stamped_def)
  have pair: "0 < n \<and> \<not> stamp p (seq ! (n - 1)) \<and> int (stamp_from p) < seq ! n"
    if n: "Suc n < length seq" and s: "stamp p (seq ! n)" "stamp p (seq ! Suc n)" for n
  proof -
    have "\<not> before_stamped p (take (Suc n) seq)" using st [of "Suc n"] n s ends [of n] by (auto simp: stamp_step_def)
    then obtain m where m: "n = Suc m" using n by (cases n) (auto simp: before_stamped_def)
    then have words: "\<not> stamp p (seq ! m)" using \<open>\<not> before_stamped p (take (Suc n) seq)\<close> before [of m] n by simp
    have "seq ! 0 \<in> set (filter (stamp p) (take (Suc m) seq))" using hd n m by (cases seq) auto
    then have ne: "filter (stamp p) (take (Suc m) seq) \<noteq> []" by (metis empty_iff list.set(1))
    have "last_seen p (take (Suc m) seq) < seq ! Suc m"
      using st [of "Suc m"] n m s(1) last_seen_le [OF ne] ends [of m] words by (auto simp: stamp_step_def split: if_splits)
    then show ?thesis using m words last_seen_le [OF ne] by simp
  qed
  have closed: "int (eot (p_tokenizer p)) \<le> seq ! Suc (Suc n)"
    if "Suc (Suc n) < length seq" "\<not> stamp p (seq ! n)" "stamp p (seq ! Suc n)" for n
    using st [of "Suc (Suc n)"] ends [of "Suc n"] before [of n] that by (simp add: stamp_step_def)
  show ?thesis using steps_sorted [OF assms] hd pair closed unfolding stamp_grammar_def by blast
qed


lemma stamp_decoded: "decoded False scan_max int_wops stamp_policy [4] [7]"
proof -
  have "snd (selectNextInto False scan_max int_wops stamp_policy True word_logits word_logits ([4] @ [])) = Inr 7"
    by code_simp
  from decoded_next [OF decoded_none this] show ?thesis by simp
qed


text \<open>
  A policy made with \<open>WithoutTimestamps\<close>, as \<open>NewTranscriber\<close> makes it, never applies the rules: its
  context ends in \<open>NoTimestamps\<close>.
\<close>

lemma untimed_policy:
  assumes "newGreedyPolicy uc w (Some t) opts = Some (Inr p)" "WithoutTimestamps opts"
  shows "\<not> rules_on p \<and> last (policy_head uc p) = noTimestamps t"
proof -
  have "p_tokenizer p = t \<and> withoutTimestamps p"
    using assms unfolding newGreedyPolicy_def option.case
    by (simp split: if_split_asm option.split_asm sum.split_asm prod.split_asm) (drule sym, simp)+
  then show ?thesis by (simp add: rules_on_def policy_head_def Let_def)
qed

end
