(* ===== verification/Whisper_Decode.thy ===== *)
theory Whisper_Decode
  imports Whisper_Text Whisper_Greedy
begin

text \<open>
  Decoding one window (\<^verbatim>\<open>src/whisper/transcriber.go\<close>, and the same loop in
  \<^verbatim>\<open>src/whisper/transcribe_full.go\<close>): the context is fed token by token, then tokens are chosen until
  the end of text, the budget or the end of the decoder's positions.  The networks are a parameter, the record
  \<open>machine\<close>: what the encoder leaves for a piece of audio, and the state and logits after a token; both may
  fail.  The checks of \<open>decodeTokenInto\<close> are the code's.  Proved: a window never asks the decoder for a
  position it does not have, and its tokens fit the lane's buffer.
\<close>

section \<open>Model: the decoder\<close>

datatype werror =
    TranscriberClosed | TranscriberWindow | TranscriberTextCapacity | FeatureError | NetworkError
  | DecoderTokenRange | DecoderPosition | DecoderLogitsTooSmall
  | PolicyError greedy_error | TextError wtok_error | WordAlignmentModel | WordAlignmentContext

definition decoderVocab :: nat where "decoderVocab = 51864"
definition WindowSamples :: nat where "WindowSamples = 30 * 16000"

text \<open>
  \<open>m_prob\<close> is \<open>tokenProbability\<close>; \<open>m_silent\<close> and \<open>m_unlikely\<close> are the two tests of the silence rule, on
  the probability of no speech and on the sum of log probabilities over a number of tokens.
\<close>

record ('a, 'd, 'f) machine =
  m_accelerated :: bool
  m_maxnum :: "'f fl list \<Rightarrow> 'f fl"
  m_wops :: "'f wops"
  m_window :: "'a list \<Rightarrow> 'd option"
  m_frames :: "'a list \<Rightarrow> nat \<Rightarrow> nat \<Rightarrow> 'd option"
  m_feed :: "'d \<Rightarrow> int \<Rightarrow> nat \<Rightarrow> ('d \<times> 'f fl list) option"
  m_prob :: "'f fl list \<Rightarrow> int \<Rightarrow> 'f"
  m_silent :: "'f \<Rightarrow> bool"
  m_unlikely :: "'f \<Rightarrow> nat \<Rightarrow> bool"

text \<open>The decoder's scratch: its state and the position it expects next.\<close>

record 'd scratch =
  net :: 'd
  nextPos :: nat

definition decodeTokenInto ::
  "('a, 'd, 'f) machine \<Rightarrow> int \<Rightarrow> nat \<Rightarrow> 'd scratch \<Rightarrow> 'f fl list \<Rightarrow> bool \<Rightarrow> werror + ('d scratch \<times> 'f fl list)" where
  "decodeTokenInto m token_id position s logits project =
     (if token_id < 0 \<or> int decoderVocab \<le> token_id then Inl DecoderTokenRange
      else if position \<noteq> nextPos s \<or> textContext \<le> position then Inl DecoderPosition
      else if project \<and> length logits < decoderVocab then Inl DecoderLogitsTooSmall
      else case m_feed m (net s) token_id position of
             None \<Rightarrow> Inl NetworkError
           | Some (d, out) \<Rightarrow> Inr (\<lparr>net = d, nextPos = nextPos s + 1\<rparr>, if project then out else logits))"

section \<open>Model: feeding the context\<close>

text \<open>
  The tokens of the context from a position on; logits are computed at the last one, and, for a recording
  (\<open>full\<close>), after \<open>SOT\<close>, where the probability of no speech is read.
\<close>

fun feed_prompt ::
  "('a, 'd, 'f) machine \<Rightarrow> tokenizer \<Rightarrow> bool \<Rightarrow> nat \<Rightarrow> int list \<Rightarrow> nat \<Rightarrow> 'd scratch \<Rightarrow> 'f fl list \<Rightarrow> 'f
    \<Rightarrow> werror + ('d scratch \<times> 'f fl list \<times> 'f)" where
  "feed_prompt m t full promptLen [] position s logits noSp = Inr (s, logits, noSp)"
| "feed_prompt m t full promptLen (i # ids) position s logits noSp =
     (case decodeTokenInto m i position s logits (position + 1 = promptLen \<or> full \<and> i = int (sot t)) of
        Inl e \<Rightarrow> Inl e
      | Inr (s', logits') \<Rightarrow>
          feed_prompt m t full promptLen ids (position + 1) s' logits'
            (if full \<and> i = int (sot t) then m_prob m logits' (int (noSpeech t)) else noSp))"

section \<open>Model: choosing tokens\<close>

text \<open>
  The tokens (context and chosen), where the text ends, and the sum of log probabilities, kept when
  \<open>score\<close> is set.
\<close>

function decode_loop ::
  "('a, 'd, 'f::linorder) machine \<Rightarrow> 'f greedyPolicy \<Rightarrow> bool \<Rightarrow> 'd scratch \<Rightarrow> 'f fl list \<Rightarrow> int list \<Rightarrow> nat \<Rightarrow> 'f \<Rightarrow> nat
    \<Rightarrow> werror + (int list \<times> nat \<times> 'f)" where
  "decode_loop m p score s logits tokens textEnd logprob generated =
     (if generated < textContext div 2 \<and> length tokens \<le> textContext then
        case selectNextInto (m_accelerated m) (m_maxnum m) (m_wops m) p True logits logits tokens of
          (_, Inl e) \<Rightarrow> Inl (PolicyError e)
        | (logits', Inr chosen) \<Rightarrow>
            let logprob' = (if score then f_add (m_wops m) logprob (f_log (m_wops m) (m_prob m logits' chosen)) else logprob);
                tokens' = tokens @ [chosen]
            in if chosen = int (eot (p_tokenizer p)) then Inr (tokens', textEnd, logprob')
               else if textContext div 2 \<le> generated + 1 \<or> textContext < length tokens' then Inr (tokens', length tokens', logprob')
               else case decodeTokenInto m chosen (length tokens' - 1) s logits' True of
                      Inl e \<Rightarrow> Inl e
                    | Inr (s', logits'') \<Rightarrow> decode_loop m p score s' logits'' tokens' (length tokens') logprob' (generated + 1)
      else Inr (tokens, textEnd, logprob))"
  by pat_completeness auto
termination by (relation "measure (\<lambda>(m, p, score, s, logits, tokens, textEnd, logprob, generated). textContext div 2 - generated)") auto

declare decode_loop.simps [simp del]

section \<open>Model: one window\<close>

record ('d, 'f) transcriber =
  t_tokenizer :: tokenizer
  t_policy :: "'f greedyPolicy"
  t_logits :: "'f fl list"
  t_history :: "int list"
  t_closed :: bool

text \<open>Context and tokens of a window whose encoder state is \<open>d\<close>: the policy, all tokens, their prompt's length, the end of the text, no-speech and log probability.\<close>

definition decode_window ::
  "unicode_tables \<Rightarrow> ('a, 'd, 'f::linorder) machine \<Rightarrow> ('d, 'f) transcriber \<Rightarrow> bool \<Rightarrow> int list \<Rightarrow> 'd
    \<Rightarrow> werror + (('d, 'f) transcriber \<times> int list \<times> nat \<times> nat \<times> 'f \<times> 'f)" where
  "decode_window uc m t full prompt d =
     (case PromptInto uc (t_policy t) (textContext + 1) [] prompt [] of
        Inl e \<Rightarrow> Inl (PolicyError e)
      | Inr (p, tokens) \<Rightarrow>
          (case feed_prompt m (t_tokenizer t) full (length tokens) tokens 0 \<lparr>net = d, nextPos = 0\<rparr> (t_logits t) (f_zero (m_wops m)) of
             Inl e \<Rightarrow> Inl e
           | Inr (s, logits, noSp) \<Rightarrow>
               (case decode_loop m p (full \<and> m_silent m noSp) s logits tokens (length tokens) (f_zero (m_wops m)) 0 of
                  Inl e \<Rightarrow> Inl e
                | Inr (out, textEnd, logprob) \<Rightarrow> Inr (t\<lparr>t_policy := p\<rparr>, out, length tokens, textEnd, noSp, logprob))))"

text \<open>\<open>TranscribeWindowInto\<close>: the text appended to \<open>dst\<close> of a capacity, or \<open>dst\<close> and an error.\<close>

definition TranscribeWindowInto ::
  "unicode_tables \<Rightarrow> ('a, 'd, 'f::linorder) machine \<Rightarrow> nat \<Rightarrow> ('d, 'f) transcriber \<Rightarrow> 'a list \<Rightarrow> string
    \<Rightarrow> ('d, 'f) transcriber \<times> string \<times> werror option" where
  "TranscribeWindowInto uc m capacity t pcm dst =
     (if t_closed t then (t, dst, Some TranscriberClosed)
      else if WindowSamples < length pcm then (t, dst, Some TranscriberWindow)
      else case m_window m pcm of
        None \<Rightarrow> (t, dst, Some NetworkError)
      | Some d \<Rightarrow>
          (case decode_window uc m t False [] d of
             Inl e \<Rightarrow> (t, dst, Some e)
           | Inr (t', tokens, promptLen, textEnd, _, _) \<Rightarrow>
               (case decodeInto (Some (t_tokenizer t)) capacity dst (take (textEnd - promptLen) (drop promptLen tokens)) of
                  (_, Some e) \<Rightarrow> (t', dst, Some (TextError e))
                | (bytes_out, None) \<Rightarrow>
                    (case repairTranscriptionUTF8 capacity (dst @ trimWhisperSpace uc (drop (length dst) bytes_out)) (length dst) of
                       (out, ok) \<Rightarrow> (t', out, if ok then None else Some TranscriberTextCapacity)))))"

text \<open>\<open>TranscribeFixedWindowsInto\<close>: windows of thirty seconds one after the other, joined by spaces.\<close>

function fixed_windows ::
  "unicode_tables \<Rightarrow> ('a, 'd, 'f::linorder) machine \<Rightarrow> nat \<Rightarrow> 'a list \<Rightarrow> nat \<Rightarrow> ('d, 'f) transcriber \<Rightarrow> string
    \<Rightarrow> ('d, 'f) transcriber \<times> string \<times> werror option" where
  "fixed_windows uc m capacity pcm offset t dst =
     (if offset < length pcm then
        let fin = min (offset + WindowSamples) (length pcm) in
        if dst \<noteq> [] \<and> length dst = capacity then (t, dst, Some TranscriberTextCapacity)
        else case TranscribeWindowInto uc m capacity t (take (fin - offset) (drop offset pcm)) (if dst \<noteq> [] then dst @ '' '' else dst) of
          (t', out, Some e) \<Rightarrow> (t', out, Some e)
        | (t', out, None) \<Rightarrow>
            fixed_windows uc m capacity pcm (offset + WindowSamples) t'
              (if length out = length dst + 1 \<and> dst \<noteq> [] then take (length dst) out else out)
      else (t, dst, None))"
  by pat_completeness auto
termination by (relation "measure (\<lambda>(uc, m, capacity, pcm, offset, t, dst). length pcm - offset)") (auto simp: WindowSamples_def)

declare fixed_windows.simps [simp del]

definition TranscribeFixedWindowsInto ::
  "unicode_tables \<Rightarrow> ('a, 'd, 'f::linorder) machine \<Rightarrow> nat \<Rightarrow> ('d, 'f) transcriber \<Rightarrow> 'a list \<Rightarrow> string
    \<Rightarrow> ('d, 'f) transcriber \<times> string \<times> werror option" where
  "TranscribeFixedWindowsInto uc m capacity t pcm dst =
     (if t_closed t then (t, dst, Some TranscriberClosed)
      else if length pcm \<le> WindowSamples then TranscribeWindowInto uc m capacity t pcm dst
      else fixed_windows uc m capacity pcm 0 t dst)"

section \<open>Positions and buffers\<close>

text \<open>What a lane relies on: its policy and its networks work on the decoder's vocabulary.\<close>

definition machine_ok :: "('a, 'd, 'f::linorder) machine \<Rightarrow> bool" where
  "machine_ok m \<longleftrightarrow> maxnum_ok (m_maxnum m) \<and>
     (\<forall>d i k d' out. m_feed m d i k = Some (d', out) \<longrightarrow> length out = decoderVocab)"

definition lane_ok :: "unicode_tables \<Rightarrow> ('d, 'f) transcriber \<Rightarrow> bool" where
  "lane_ok uc t \<longleftrightarrow> p_tokenizer (t_policy t) = t_tokenizer t \<and> vocabSize (t_tokenizer t) = decoderVocab \<and>
     length (t_logits t) = decoderVocab \<and>
     (\<forall>i\<in>set (sotPrev (t_tokenizer t) # policy_head uc (t_policy t)). i < decoderVocab)"

abbreviation token_ok :: "int \<Rightarrow> bool" where
  "token_ok i \<equiv> 0 \<le> i \<and> i < int decoderVocab"

lemma decodeTokenInto_ok:
  assumes "machine_ok m" "token_ok i" "position = nextPos s" "position < textContext" "length logits = decoderVocab"
  shows "decodeTokenInto m i position s logits project = Inl NetworkError \<or>
    (\<exists>s' logits'. decodeTokenInto m i position s logits project = Inr (s', logits') \<and> nextPos s' = nextPos s + 1 \<and> length logits' = decoderVocab)"
  using assms by (auto simp: decodeTokenInto_def machine_ok_def split: option.splits)

lemma feed_prompt_ok:
  assumes "machine_ok m" "\<forall>i\<in>set ids. token_ok i" "position = nextPos s" "position + length ids \<le> textContext" "length logits = decoderVocab"
  shows "feed_prompt m t full n ids position s logits noSp = Inl NetworkError \<or>
    (\<exists>s' logits' q. feed_prompt m t full n ids position s logits noSp = Inr (s', logits', q) \<and>
       nextPos s' = position + length ids \<and> length logits' = decoderVocab)"
  using assms(2-)
proof (induction ids arbitrary: position s logits noSp)
  case (Cons i ids)
  let ?project = "position + 1 = n \<or> full \<and> i = int (sot t)"
  from decodeTokenInto_ok [OF assms(1), of i position s logits ?project] Cons.prems
  consider "decodeTokenInto m i position s logits ?project = Inl NetworkError"
    | s' logits' where "decodeTokenInto m i position s logits ?project = Inr (s', logits')" "nextPos s' = position + 1" "length logits' = decoderVocab"
    by auto
  then show ?case
  proof cases
    case 2
    then show ?thesis using Cons.IH [of "position + 1" s' logits'] Cons.prems by simp
  qed simp
qed simp

lemma select_ok:
  assumes "machine_ok m" "vocabSize (p_tokenizer p) = decoderVocab" "length logits = decoderVocab"
    and "selectNextInto (m_accelerated m) (m_maxnum m) (m_wops m) p True logits logits tokens = (logits', r)"
  shows "length logits' = decoderVocab" "r = Inl ErrGreedyNoCandidate \<or> (\<exists>i. r = Inr i \<and> token_ok i)"
proof -
  have "snd (selectNextInto (m_accelerated m) (m_maxnum m) (m_wops m) p True logits logits tokens) = r" using assms(4) by simp
  then show "r = Inl ErrGreedyNoCandidate \<or> (\<exists>i. r = Inr i \<and> token_ok i)"
    using selectNext_first_best [of "m_maxnum m" p logits logits, where acc = "m_accelerated m" and w = "m_wops m" and aliased = True and history = tokens] assms(1-3)
    by (auto simp: machine_ok_def first_best_def candidate_logits_def Let_def split: sum.splits)
  have "length (applyTimestampRules w p vs h) = length vs" for w vs h
    by (simp add: applyTimestampRules_def Let_def)
  then have "length (filtered (m_wops m) p logits tokens) = length logits"
    using assms(2,3) by (auto simp: filtered_def Let_def)
  then show "length logits' = decoderVocab" using assms(2-4) by (auto simp: selectNextInto_def Let_def)
qed

definition window_tokens :: "int \<Rightarrow> int list \<Rightarrow> nat \<Rightarrow> int list \<Rightarrow> nat \<Rightarrow> bool" where
  "window_tokens e tokens textEnd out outEnd \<longleftrightarrow>
     (\<exists>more. out = tokens @ more \<and> (\<forall>i\<in>set more. token_ok i) \<and> length out \<le> textContext + 1 \<and>
        textEnd \<le> outEnd \<and> outEnd \<le> length out \<and> e \<notin> set (take (outEnd - textEnd) (drop textEnd out)))"

lemma decode_loop_ok:
  assumes "machine_ok m" "vocabSize (p_tokenizer p) = decoderVocab"
    and "length logits = decoderVocab" "nextPos s = length tokens" "textEnd = length tokens" "length tokens \<le> textContext + 1"
  shows "case decode_loop m p score s logits tokens textEnd logprob generated of
      Inl e \<Rightarrow> e = NetworkError \<or> e = PolicyError ErrGreedyNoCandidate
    | Inr (out, outEnd, _) \<Rightarrow> window_tokens (int (eot (p_tokenizer p))) tokens textEnd out outEnd \<and>
        length out \<le> length tokens + (textContext div 2 - generated)"
  using assms
proof (induction m p score s logits tokens textEnd logprob generated rule: decode_loop.induct)
  case (1 m p score s logits tokens textEnd logprob generated)
  note prems = "1.prems"
  let ?sel = "selectNextInto (m_accelerated m) (m_maxnum m) (m_wops m) p True logits logits tokens"
  let ?eot = "int (eot (p_tokenizer p))"
  show ?case
  proof (cases "generated < textContext div 2 \<and> length tokens \<le> textContext")
    case False
    then show ?thesis using prems(5,6) by (subst decode_loop.simps) (auto simp: window_tokens_def)
  next
    case True
    obtain l r where sel: "?sel = (l, r)" by (cases ?sel)
    note ok = select_ok [OF prems(1,2,3) sel]
    show ?thesis
    proof (cases r)
      case (Inl e)
      then show ?thesis using True ok(2) sel by (subst decode_loop.simps) auto
    next
      case (Inr i)
      then have i: "token_ok i" using ok(2) by simp
      define lp where "lp = (if score then f_add (m_wops m) logprob (f_log (m_wops m) (m_prob m l i)) else logprob)"
      have len: "length (tokens @ [i]) \<le> textContext + 1" using True by simp
      show ?thesis
      proof (cases "i = ?eot \<or> textContext div 2 \<le> generated + 1 \<or> textContext < length (tokens @ [i])")
        case stop: True
        then have "decode_loop m p score s logits tokens textEnd logprob generated =
            Inr (tokens @ [i], if i = ?eot then textEnd else length (tokens @ [i]), lp)"
          using True sel Inr by (subst decode_loop.simps) (auto simp: Let_def lp_def)
        then show ?thesis using i len prems(5) True by (auto simp: window_tokens_def)
      next
        case go: False
        have pos: "length (tokens @ [i]) - 1 = nextPos s" "length (tokens @ [i]) - 1 < textContext" using prems(4) go by auto
        from decodeTokenInto_ok [OF prems(1) i pos ok(1), of True]
        show ?thesis
        proof
          assume "decodeTokenInto m i (length (tokens @ [i]) - 1) s l True = Inl NetworkError"
          then show ?thesis using True sel Inr go by (subst decode_loop.simps) (auto simp: Let_def)
        next
          assume "\<exists>s' l'. decodeTokenInto m i (length (tokens @ [i]) - 1) s l True = Inr (s', l') \<and> nextPos s' = nextPos s + 1 \<and> length l' = decoderVocab"
          then obtain s' l' where d: "decodeTokenInto m i (length (tokens @ [i]) - 1) s l True = Inr (s', l')"
            "nextPos s' = length (tokens @ [i])" "length l' = decoderVocab" using prems(4) by auto
          have step: "decode_loop m p score s logits tokens textEnd logprob generated =
              decode_loop m p score s' l' (tokens @ [i]) (length (tokens @ [i])) lp (generated + 1)"
            using True sel Inr go d(1) by (subst decode_loop.simps) (auto simp: Let_def lp_def)
          have IH: "case decode_loop m p score s' l' (tokens @ [i]) (length (tokens @ [i])) lp (generated + 1) of
              Inl e \<Rightarrow> e = NetworkError \<or> e = PolicyError ErrGreedyNoCandidate
            | Inr (out, outEnd, _) \<Rightarrow> window_tokens ?eot (tokens @ [i]) (length (tokens @ [i])) out outEnd \<and>
                length out \<le> length (tokens @ [i]) + (textContext div 2 - (generated + 1))"
            by (rule "1.IH" [OF True sel [symmetric] Inr _ refl _ _ d(1) refl prems(1,2) d(3,2) refl len]) (use go in \<open>auto simp: lp_def\<close>)
          have grow: "window_tokens ?eot tokens textEnd out outEnd"
            if w: "window_tokens ?eot (tokens @ [i]) (length (tokens @ [i])) out outEnd" for out outEnd
          proof -
            obtain more where m: "out = (tokens @ [i]) @ more" "\<forall>j\<in>set more. token_ok j" "length out \<le> textContext + 1"
              "length (tokens @ [i]) \<le> outEnd" "outEnd \<le> length out"
              "?eot \<notin> set (take (outEnd - length (tokens @ [i])) (drop (length (tokens @ [i])) out))"
              using w unfolding window_tokens_def by blast
            have "take (outEnd - textEnd) (drop textEnd out) = i # take (outEnd - length (tokens @ [i])) (drop (length (tokens @ [i])) out)"
              using m(1,4) prems(5) Suc_diff_Suc [of "length tokens" outEnd] by (simp flip: Suc_diff_Suc)
            moreover have "out = tokens @ (i # more)" using m(1) by simp
            ultimately show ?thesis using m i go prems(5) unfolding window_tokens_def by (intro exI [of _ "i # more"]) auto
          qed
          have "generated + 1 \<le> textContext div 2" using go by simp
          then show ?thesis using IH grow unfolding step by (auto split: sum.splits)
        qed
      qed
    qed
  qed
qed

lemma policy_head_length: "length (policy_head uc p) \<le> 4"
  by (simp add: policy_head_def Let_def)

lemma policy_head_begin [simp]: "policy_head uc (p\<lparr>sampleBegin := n\<rparr>) = policy_head uc p"
  by (cases "kind (p_tokenizer p) = 1") (simp_all add: policy_head_def Let_def)

lemma PromptInto_fits:
  assumes "lane_ok uc t" "\<forall>i\<in>set prompt. token_ok i"
  shows "\<exists>out. PromptInto uc (t_policy t) (textContext + 1) [] prompt [] = Inr ((t_policy t)\<lparr>sampleBegin := length out\<rparr>, out) \<and>
    (\<forall>i\<in>set out. token_ok i) \<and> length out \<le> 228"
proof -
  define q where "q = (if textContext div 2 - 1 < length prompt then drop (length prompt - (textContext div 2 - 1)) prompt else prompt)"
  have q: "length q \<le> 223" "\<forall>i\<in>set q. token_ok i"
    using assms(2) by (auto simp: q_def textContext_def dest: in_set_dropD)
  have v: "list_all (in_vocab (t_policy t)) q"
    using q(2) assms(1) by (auto simp: list_all_iff in_vocab_def lane_ok_def)
  define out where "out = (if q \<noteq> [] then int (sotPrev (p_tokenizer (t_policy t))) # q else []) @ map int (policy_head uc (t_policy t))"
  have "PromptInto uc (t_policy t) (textContext + 1) [] prompt [] = Inr ((t_policy t)\<lparr>sampleBegin := length out\<rparr>, out)"
    using q(1) v unfolding PromptInto_def q_def [symmetric] Let_def by (simp add: out_def textContext_def)
  moreover have "\<forall>i\<in>set out. token_ok i" using assms(1) q(2) by (auto simp: out_def lane_ok_def)
  moreover have "length out \<le> 228" using q(1) policy_head_length [of uc "t_policy t"] by (auto simp: out_def)
  ultimately show ?thesis by blast
qed

lemma decode_window_ok:
  assumes "machine_ok m" "lane_ok uc t" "\<forall>i\<in>set prompt. token_ok i"
  shows "case decode_window uc m t full prompt d of
      Inl e \<Rightarrow> e = NetworkError \<or> e = PolicyError ErrGreedyNoCandidate
    | Inr (t', out, promptLen, textEnd, _, _) \<Rightarrow>
        length out \<le> textContext + 1 \<and> promptLen \<le> textEnd \<and> textEnd \<le> length out \<and> (\<forall>i\<in>set out. token_ok i) \<and>
        int (eot (t_tokenizer t)) \<notin> set (take (textEnd - promptLen) (drop promptLen out)) \<and>
        t' = t\<lparr>t_policy := (t_policy t)\<lparr>sampleBegin := promptLen\<rparr>\<rparr> \<and> length out - promptLen \<le> textContext div 2"
proof -
  obtain toks where p: "PromptInto uc (t_policy t) (textContext + 1) [] prompt [] = Inr ((t_policy t)\<lparr>sampleBegin := length toks\<rparr>, toks)"
    "\<forall>i\<in>set toks. token_ok i" "length toks \<le> 228" using PromptInto_fits [OF assms(2,3)] by blast
  have len: "length toks \<le> textContext" using p(3) by (simp add: textContext_def)
  let ?p = "(t_policy t)\<lparr>sampleBegin := length toks\<rparr>"
  let ?f = "feed_prompt m (t_tokenizer t) full (length toks) toks 0 \<lparr>net = d, nextPos = 0\<rparr> (t_logits t) (f_zero (m_wops m))"
  have lane: "p_tokenizer (t_policy t) = t_tokenizer t" "vocabSize (p_tokenizer ?p) = decoderVocab" "length (t_logits t) = decoderVocab"
    using assms(2) by (auto simp: lane_ok_def)
  from feed_prompt_ok [OF assms(1) p(2), of 0 "\<lparr>net = d, nextPos = 0\<rparr>" "t_logits t"] len lane(3)
  have "?f = Inl NetworkError \<or> (\<exists>s logits q. ?f = Inr (s, logits, q) \<and> nextPos s = length toks \<and> length logits = decoderVocab)" by simp
  then show ?thesis
  proof
    assume "?f = Inl NetworkError"
    then show ?thesis unfolding decode_window_def p(1) by simp
  next
    assume "\<exists>s logits q. ?f = Inr (s, logits, q) \<and> nextPos s = length toks \<and> length logits = decoderVocab"
    then obtain s logits q where f: "?f = Inr (s, logits, q)" "nextPos s = length toks" "length logits = decoderVocab" by blast
    define r where "r = decode_loop m ?p (full \<and> m_silent m q) s logits toks (length toks) (f_zero (m_wops m)) 0"
    have "length toks \<le> textContext + 1" using len by simp
    note loop = decode_loop_ok [OF assms(1) lane(2) f(3,2) refl this, where score = "full \<and> m_silent m q" and logprob = "f_zero (m_wops m)" and generated = 0, folded r_def]
    have dw: "decode_window uc m t full prompt d = (case r of Inl e \<Rightarrow> Inl e
        | Inr (out, textEnd, logprob) \<Rightarrow> Inr (t\<lparr>t_policy := ?p\<rparr>, out, length toks, textEnd, q, logprob))"
      unfolding decode_window_def p(1) sum.case prod.case f(1) r_def ..
    show ?thesis
    proof (cases r)
      case (Inl e)
      then show ?thesis using loop by (simp add: dw)
    next
      case (Inr x)
      then obtain out textEnd lp where x: "r = Inr (out, textEnd, lp)" by (cases x) auto
      then show ?thesis using loop lane(1) p(2)
        by (auto simp: dw window_tokens_def)
    qed
  qed
qed

text \<open>
  C35: Decoding a window stays inside the decoder: on a lane whose policy, networks and buffers fit the
  model, whatever context it is given, a window never asks for a position, a token or a buffer the decoder does
  not have; the only errors are the networks' own and a window without any candidate.  The tokens fit the
  lane's buffer of 449, at most 224 are chosen, and the text among them holds no end of text.
\<close>

theorem decode_window_bounds:
  assumes "machine_ok m" and "lane_ok uc t" and "\<forall>i\<in>set prompt. token_ok i"
  shows "case decode_window uc m t full prompt d of
      Inl e \<Rightarrow> e = NetworkError \<or> e = PolicyError ErrGreedyNoCandidate
    | Inr (t', out, promptLen, textEnd, _, _) \<Rightarrow>
        length out \<le> textContext + 1 \<and> promptLen \<le> textEnd \<and> textEnd \<le> length out \<and> (\<forall>i\<in>set out. token_ok i) \<and>
        int (eot (t_tokenizer t)) \<notin> set (take (textEnd - promptLen) (drop promptLen out)) \<and>
        t' = t\<lparr>t_policy := (t_policy t)\<lparr>sampleBegin := promptLen\<rparr>\<rparr> \<and> length out - promptLen \<le> textContext div 2"
  by (rule decode_window_ok [OF assms])

definition no_letters :: unicode_tables where
  "no_letters = \<lparr>IsLetter = (\<lambda>_. False), IsNumber = (\<lambda>_. False), IsSpace = (\<lambda>r. r = 32), IsMark = (\<lambda>_. False), ToLower = (\<lambda>r. r)\<rparr>"

text \<open>A lane on a network that gives every token the same logit.\<close>

definition level_machine :: "(unit, unit, int) machine" where
  "level_machine = \<lparr>m_accelerated = False, m_maxnum = scan_max, m_wops = int_wops, m_window = (\<lambda>_. Some ()), m_frames = (\<lambda>_ _ _. Some ()),
     m_feed = (\<lambda>d i k. Some (d, replicate decoderVocab (Num 0))), m_prob = (\<lambda>_ _. 0), m_silent = (\<lambda>p. 0 < p), m_unlikely = (\<lambda>p n. p < 0)\<rparr>"

definition level_tokenizer :: tokenizer where
  "level_tokenizer = stamp_tokenizer\<lparr>vocabSize := decoderVocab\<rparr>"

definition level_lane :: "(unit, int) transcriber" where
  "level_lane = \<lparr>t_tokenizer = level_tokenizer, t_policy = stamp_policy\<lparr>p_tokenizer := level_tokenizer\<rparr>,
     t_logits = replicate decoderVocab NaN, t_history = [], t_closed = False\<rparr>"

lemma level_ok: "machine_ok level_machine" "lane_ok uc level_lane"
  by (simp_all add: machine_ok_def level_machine_def scan_max_ok lane_ok_def level_lane_def level_tokenizer_def
      stamp_tokenizer_def stamp_policy_def policy_head_def decoderVocab_def)

theorem decode_window_bounds_witness:
  "case decode_window no_letters level_machine level_lane True [1, 2] () of
      Inl e \<Rightarrow> e = NetworkError \<or> e = PolicyError ErrGreedyNoCandidate
    | Inr (t', out, promptLen, textEnd, _, _) \<Rightarrow>
        length out \<le> textContext + 1 \<and> promptLen \<le> textEnd \<and> textEnd \<le> length out \<and> (\<forall>i\<in>set out. token_ok i) \<and>
        int (eot (t_tokenizer level_lane)) \<notin> set (take (textEnd - promptLen) (drop promptLen out)) \<and>
        t' = level_lane\<lparr>t_policy := (t_policy level_lane)\<lparr>sampleBegin := promptLen\<rparr>\<rparr> \<and> length out - promptLen \<le> textContext div 2"
  by (rule decode_window_bounds [OF level_ok]) (simp add: decoderVocab_def)

end
