(* ===== verification/Time_Warp.thy ===== *)
theory Time_Warp
  imports Main
begin

text \<open>
  Dynamic time warping for word times (\<open>alignmentJumps\<close> of \<^verbatim>\<open>src/whisper/alignment_words.go\<close>).  A cost
  is \<open>Some\<close> of a number or \<open>None\<close>, plus infinity; \<open>f x c\<close> is the floating-point \<open>c - x\<close>, of which
  only monotony is assumed.  The trace and the jumps are the code's; proved is that the trace is followed
  along a warping path, of least cost when no two choices tie, and what the jumps are.
\<close>

section \<open>Model\<close>

fun cost_less :: "'c::linorder option \<Rightarrow> 'c option \<Rightarrow> bool" where
  "cost_less (Some a) (Some b) = (a < b)"
| "cost_less (Some a) None = True"
| "cost_less None _ = False"

text \<open>The direction (0 diagonal, 1 up, 2 left) and the cost it comes from.\<close>

definition warp_pick :: "'c::linorder option \<Rightarrow> 'c option \<Rightarrow> 'c option \<Rightarrow> nat \<times> 'c option" where
  "warp_pick diagonal up left =
     (if cost_less diagonal up \<and> cost_less diagonal left then (0, diagonal)
      else if cost_less up diagonal \<and> cost_less up left then (1, up) else (2, left))"

fun warp_row :: "('m \<Rightarrow> 'c \<Rightarrow> 'c) \<Rightarrow> 'm list \<Rightarrow> 'c::linorder option list \<Rightarrow> 'c option \<Rightarrow> (nat \<times> 'c option) list" where
  "warp_row f (x # xs) (d # u # prev) left =
     (let (direction, best) = warp_pick d u left; c = map_option (f x) best in (direction, c) # warp_row f xs (u # prev) c)"
| "warp_row f _ _ _ = []"

fun warp_trace :: "('m \<Rightarrow> 'c \<Rightarrow> 'c) \<Rightarrow> 'm list list \<Rightarrow> 'c::linorder option list \<Rightarrow> nat list list" where
  "warp_trace f [] prev = []"
| "warp_trace f (row # rows) prev =
     (let r = warp_row f row prev None in map fst r # warp_trace f rows (None # map snd r))"

text \<open>The walk back from a cell, which notes the frame at every cell it leaves.\<close>

function warp_back :: "nat list list \<Rightarrow> nat \<Rightarrow> nat \<Rightarrow> nat list \<Rightarrow> nat list" where
  "warp_back trace i j jumps =
     (if i = 0 \<and> j = 0 then jumps
      else let jumps' = (if 0 < i \<and> 0 < j then jumps[i - 1 := j - 1] else jumps) in
        if i = 0 then warp_back trace i (j - 1) jumps'
        else if j = 0 then warp_back trace (i - 1) j jumps'
        else let direction = trace ! (i - 1) ! (j - 1) in
          if direction = 0 then warp_back trace (i - 1) (j - 1) jumps'
          else if direction = 1 then warp_back trace (i - 1) j jumps'
          else warp_back trace i (j - 1) jumps')"
  by pat_completeness auto
termination by (relation "measure (\<lambda>(trace, i, j, jumps). i + j)") auto

declare warp_back.simps [simp del]

definition matrix_rows :: "'m list \<Rightarrow> nat \<Rightarrow> nat \<Rightarrow> 'm list list" where
  "matrix_rows matrix rows frames = map (\<lambda>i. take frames (drop (i * frames) matrix)) [0..<rows]"

definition alignmentJumps :: "('m \<Rightarrow> 'c::linorder \<Rightarrow> 'c) \<Rightarrow> 'c \<Rightarrow> 'm list \<Rightarrow> nat \<Rightarrow> nat \<Rightarrow> nat list" where
  "alignmentJumps f zero matrix rows frames =
     warp_back (warp_trace f (matrix_rows matrix rows frames) (Some zero # replicate frames None)) rows frames (replicate rows 0)"

section \<open>The costs\<close>

fun warp_cost :: "('m \<Rightarrow> 'c \<Rightarrow> 'c) \<Rightarrow> 'c \<Rightarrow> (nat \<Rightarrow> nat \<Rightarrow> 'm) \<Rightarrow> nat \<Rightarrow> nat \<Rightarrow> 'c::linorder option" where
  "warp_cost f z M 0 0 = Some z"
| "warp_cost f z M 0 (Suc j) = None"
| "warp_cost f z M (Suc i) 0 = None"
| "warp_cost f z M (Suc i) (Suc j) =
     map_option (f (M i j)) (snd (warp_pick (warp_cost f z M i j) (warp_cost f z M i (Suc j)) (warp_cost f z M (Suc i) j)))"

definition warp_dir :: "('m \<Rightarrow> 'c::linorder \<Rightarrow> 'c) \<Rightarrow> 'c \<Rightarrow> (nat \<Rightarrow> nat \<Rightarrow> 'm) \<Rightarrow> nat \<Rightarrow> nat \<Rightarrow> nat" where
  "warp_dir f z M i j = fst (warp_pick (warp_cost f z M i j) (warp_cost f z M i (Suc j)) (warp_cost f z M (Suc i) j))"

lemma warp_row_cost:
  assumes "length xs + a = n" "\<forall>j<length xs. xs ! j = M i (a + j)"
    and "prev = map (warp_cost f z M i) [a..<Suc n]" "left = warp_cost f z M (Suc i) a"
  shows "warp_row f xs prev left = map (\<lambda>j. (warp_dir f z M i j, warp_cost f z M (Suc i) (Suc j))) [a..<n]"
  using assms
proof (induction xs arbitrary: a prev left)
  case (Cons x xs)
  have a: "Suc a \<le> n" using Cons.prems(1) by simp
  have prev: "prev = warp_cost f z M i a # warp_cost f z M i (Suc a) # map (warp_cost f z M i) [Suc (Suc a)..<Suc n]"
    using a Cons.prems(3) by (simp add: upt_conv_Cons del: upt_Suc)
  have x: "x = M i a" using Cons.prems(2) by force
  obtain dir best where p: "warp_pick (warp_cost f z M i a) (warp_cost f z M i (Suc a)) left = (dir, best)" by fastforce
  then have c: "map_option (f x) best = warp_cost f z M (Suc i) (Suc a)" "dir = warp_dir f z M i a"
    using Cons.prems(4) x by (simp_all add: warp_dir_def)
  have "\<forall>j<length xs. xs ! j = M i (Suc a + j)" using Cons.prems(2) by fastforce
  then have "warp_row f xs (warp_cost f z M i (Suc a) # map (warp_cost f z M i) [Suc (Suc a)..<Suc n]) (warp_cost f z M (Suc i) (Suc a)) =
      map (\<lambda>j. (warp_dir f z M i j, warp_cost f z M (Suc i) (Suc j))) [Suc a..<n]"
    using a Cons.prems(1) by (intro Cons.IH) (simp_all add: upt_conv_Cons del: upt_Suc warp_cost.simps)
  then show ?case unfolding prev using p c a by (simp add: upt_conv_Cons del: upt_Suc warp_cost.simps)
next
  case Nil
  then show ?case by (cases prev; cases "tl prev") (auto simp: upt_conv_Cons)
qed

lemma warp_trace_dir:
  assumes "\<forall>r\<in>set rows. length r = n" "\<forall>k<length rows. \<forall>j<n. rows ! k ! j = M (i + k) j"
    and "prev = map (warp_cost f z M i) [0..<Suc n]" "k < length rows" "j < n"
  shows "warp_trace f rows prev ! k ! j = warp_dir f z M (i + k) j"
  using assms
proof (induction rows arbitrary: i prev k)
  case (Cons row rows)
  have r: "warp_row f row prev None = map (\<lambda>j. (warp_dir f z M i j, warp_cost f z M (Suc i) (Suc j))) [0..<n]"
    using Cons.prems(1-3) by (intro warp_row_cost) auto
  have next_row: "None # map snd (warp_row f row prev None) = map (warp_cost f z M (Suc i)) [0..<Suc n]"
    unfolding r by (simp add: upt_conv_Cons comp_def map_Suc_upt [symmetric] del: upt_Suc warp_cost.simps(4))
  show ?case
  proof (cases k)
    case 0
    then show ?thesis using r Cons.prems(5) by (simp add: Let_def comp_def)
  next
    case (Suc m)
    have "warp_trace f rows (None # map snd (warp_row f row prev None)) ! m ! j = warp_dir f z M (Suc i + m) j"
      using Cons.prems(1,2,4,5) Suc next_row by (intro Cons.IH) fastforce+
    then show ?thesis using Suc by (simp add: Let_def)
  qed
qed simp

section \<open>The path\<close>

text \<open>Warping paths from the first cell to a cell, the last cell first; cells count from one.\<close>

inductive warp_to :: "nat \<Rightarrow> nat \<Rightarrow> (nat \<times> nat) list \<Rightarrow> bool" where
  warp_one: "warp_to 1 1 [(1, 1)]"
| warp_diagonal: "warp_to i j p \<Longrightarrow> warp_to (Suc i) (Suc j) ((Suc i, Suc j) # p)"
| warp_up: "warp_to i j p \<Longrightarrow> warp_to (Suc i) j ((Suc i, j) # p)"
| warp_left: "warp_to i j p \<Longrightarrow> warp_to i (Suc j) ((i, Suc j) # p)"

fun path_cost :: "('m \<Rightarrow> 'c \<Rightarrow> 'c) \<Rightarrow> 'c \<Rightarrow> (nat \<Rightarrow> nat \<Rightarrow> 'm) \<Rightarrow> (nat \<times> nat) list \<Rightarrow> 'c" where
  "path_cost f z M [] = z"
| "path_cost f z M ((i, j) # p) = f (M (i - 1) (j - 1)) (path_cost f z M p)"

lemma warp_to_cells:
  "warp_to i j p \<Longrightarrow> 1 \<le> i \<and> 1 \<le> j \<and> (1, 1) \<in> set p \<and> (i, j) \<in> set p \<and> (\<forall>c\<in>set p. 1 \<le> fst c \<and> fst c \<le> i \<and> 1 \<le> snd c \<and> snd c \<le> j)"
  by (induction rule: warp_to.induct) (auto intro: le_SucI)

lemma warp_to_mono:
  "\<lbrakk>warp_to i j p; (a, b) \<in> set p; (a', b') \<in> set p; a < a'\<rbrakk> \<Longrightarrow> b \<le> b'"
proof (induction arbitrary: a b a' b' rule: warp_to.induct)
  case (warp_diagonal i j p)
  then show ?case using warp_to_cells [OF warp_diagonal(1)] by fastforce
next
  case (warp_up i j p)
  then show ?case using warp_to_cells [OF warp_up(1)] by fastforce
next
  case (warp_left i j p)
  then show ?case using warp_to_cells [OF warp_left(1)] by fastforce
qed simp

function chosen_path :: "(nat \<Rightarrow> nat \<Rightarrow> nat) \<Rightarrow> nat \<Rightarrow> nat \<Rightarrow> (nat \<times> nat) list" where
  "chosen_path dir i j =
     (if i = 0 \<or> j = 0 then []
      else (i, j) # (if dir (i - 1) (j - 1) = 0 then chosen_path dir (i - 1) (j - 1)
                     else if dir (i - 1) (j - 1) = 1 then chosen_path dir (i - 1) j else chosen_path dir i (j - 1)))"
  by pat_completeness auto
termination by (relation "measure (\<lambda>(dir, i, j). i + j)") auto

declare chosen_path.simps [simp del]

abbreviation note_jumps :: "nat list \<Rightarrow> (nat \<times> nat) list \<Rightarrow> nat list" where
  "note_jumps \<equiv> foldl (\<lambda>js c. js[fst c - 1 := snd c - 1])"

lemma warp_back_edge: "i = 0 \<or> j = 0 \<Longrightarrow> warp_back trace i j jumps = jumps"
  by (induction trace i j jumps rule: warp_back.induct) (subst warp_back.simps, auto simp: Let_def)

lemma warp_back_chosen:
  "\<lbrakk>\<And>a b. a < i \<Longrightarrow> b < j \<Longrightarrow> trace ! a ! b = dir a b\<rbrakk> \<Longrightarrow> warp_back trace i j jumps = note_jumps jumps (chosen_path dir i j)"
proof (induction "i + j" arbitrary: i j jumps rule: less_induct)
  case less
  show ?case
  proof (cases "i = 0 \<or> j = 0")
    case True
    then show ?thesis by (simp add: warp_back_edge chosen_path.simps)
  next
    case False
    have IH: "warp_back trace a b js = note_jumps js (chosen_path dir a b)" if "a + b < i + j" "a \<le> i" "b \<le> j" for a b js
      using less.hyps [OF that(1)] less.prems that(2,3) by auto
    have "trace ! (i - 1) ! (j - 1) = dir (i - 1) (j - 1)" using less.prems False by simp
    then show ?thesis using False by (subst warp_back.simps, subst chosen_path.simps) (simp add: IH Let_def)
  qed
qed

lemma pick_cost: "snd (warp_pick d u l) = (if fst (warp_pick d u l) = 0 then d else if fst (warp_pick d u l) = 1 then u else l)"
  by (simp add: warp_pick_def)

lemma warp_cost_Suc:
  "warp_cost f z M (Suc i) (Suc j) = map_option (f (M i j))
     (if warp_dir f z M i j = 0 then warp_cost f z M i j
      else if warp_dir f z M i j = 1 then warp_cost f z M i (Suc j) else warp_cost f z M (Suc i) j)"
  by (simp add: warp_dir_def pick_cost)

lemma chosen_path_cost:
  "warp_to (Suc i) (Suc j) (chosen_path (warp_dir f z M) (Suc i) (Suc j)) \<and>
   warp_cost f z M (Suc i) (Suc j) = Some (path_cost f z M (chosen_path (warp_dir f z M) (Suc i) (Suc j)))"
proof (induction "i + j" arbitrary: i j rule: less_induct)
  case less
  let ?c = "chosen_path (warp_dir f z M)"
  have dir_or: "warp_dir f z M i j = 0 \<or> warp_dir f z M i j = 1 \<or> warp_dir f z M i j = 2" by (simp add: warp_dir_def warp_pick_def)
  have unfold: "?c (Suc i) (Suc j) = (Suc i, Suc j) # (if warp_dir f z M i j = 0 then ?c i j
      else if warp_dir f z M i j = 1 then ?c i (Suc j) else ?c (Suc i) j)"
    by (subst chosen_path.simps) simp
  show ?case
  proof (cases i; cases j)
    assume "i = 0" "j = 0"
    moreover have "warp_dir f z M 0 0 = 0" by (simp add: warp_dir_def warp_pick_def)
    ultimately show ?thesis using warp_one by (simp add: unfold warp_cost_Suc del: warp_cost.simps(4)) (simp add: chosen_path.simps)
  next
    fix b
    assume ij: "i = 0" "j = Suc b"
    then have d: "warp_dir f z M i j = 2" by (simp add: warp_dir_def warp_pick_def)
    have "warp_to 1 (Suc b) (?c 1 (Suc b)) \<and> warp_cost f z M 1 (Suc b) = Some (path_cost f z M (?c 1 (Suc b)))"
      using less [of 0 b] ij by simp
    then show ?thesis unfolding unfold warp_cost_Suc using ij d warp_left by auto
  next
    fix a
    assume ij: "i = Suc a" "j = 0"
    have IH: "warp_to (Suc a) 1 (?c (Suc a) 1) \<and> warp_cost f z M (Suc a) 1 = Some (path_cost f z M (?c (Suc a) 1))"
      using less [of a 0] ij by simp
    then have "warp_dir f z M i j = 1" using ij by (simp add: warp_dir_def warp_pick_def del: warp_cost.simps(4))
    then show ?thesis unfolding unfold warp_cost_Suc using ij IH warp_up by auto
  next
    fix a b
    assume ij: "i = Suc a" "j = Suc b"
    have IH: "warp_to i j (?c i j) \<and> warp_cost f z M i j = Some (path_cost f z M (?c i j))"
      "warp_to i (Suc j) (?c i (Suc j)) \<and> warp_cost f z M i (Suc j) = Some (path_cost f z M (?c i (Suc j)))"
      "warp_to (Suc i) j (?c (Suc i) j) \<and> warp_cost f z M (Suc i) j = Some (path_cost f z M (?c (Suc i) j))"
      using less [of a b] less [of a j] less [of i b] ij by auto
    from dir_or show ?thesis unfolding unfold warp_cost_Suc using IH warp_diagonal warp_up warp_left by auto
  qed
qed

section \<open>Least cost\<close>

text \<open>The order of the comparisons loses the minimum when the diagonal and the cell above tie below the left one.\<close>

definition no_tie :: "('m \<Rightarrow> 'c::linorder \<Rightarrow> 'c) \<Rightarrow> 'c \<Rightarrow> (nat \<Rightarrow> nat \<Rightarrow> 'm) \<Rightarrow> nat \<Rightarrow> nat \<Rightarrow> bool" where
  "no_tie f z M rows frames \<longleftrightarrow> (\<forall>i<rows. \<forall>j<frames.
     \<not> (warp_cost f z M i j = warp_cost f z M i (Suc j) \<and> cost_less (warp_cost f z M i j) (warp_cost f z M (Suc i) j)))"

lemma pick_least:
  "\<not> (d = u \<and> cost_less d l) \<Longrightarrow> x \<in> {d, u, l} \<Longrightarrow> \<not> cost_less x (snd (warp_pick d u l))"
  by (cases d; cases u; cases l) (auto simp: warp_pick_def)

lemma warp_cost_least:
  assumes mono: "\<And>x a b. a \<le> b \<Longrightarrow> f x a \<le> f x b" and tie: "no_tie f z M rows frames"
  shows "\<lbrakk>warp_to i j p; i \<le> rows; j \<le> frames\<rbrakk> \<Longrightarrow> \<exists>c. warp_cost f z M i j = Some c \<and> c \<le> path_cost f z M p"
proof (induction rule: warp_to.induct)
  case warp_one
  show ?case by (simp add: warp_pick_def)
next
  case (warp_diagonal i j p)
  then obtain c where c: "warp_cost f z M i j = Some c" "c \<le> path_cost f z M p" by auto
  have "\<not> cost_less (warp_cost f z M i j) (snd (warp_pick (warp_cost f z M i j) (warp_cost f z M i (Suc j)) (warp_cost f z M (Suc i) j)))"
    using tie warp_diagonal.prems by (intro pick_least) (auto simp: no_tie_def)
  then obtain b where "snd (warp_pick (warp_cost f z M i j) (warp_cost f z M i (Suc j)) (warp_cost f z M (Suc i) j)) = Some b" "b \<le> c"
    using c by (cases "snd (warp_pick (warp_cost f z M i j) (warp_cost f z M i (Suc j)) (warp_cost f z M (Suc i) j))") auto
  then show ?case using c mono [of b "path_cost f z M p"] by simp
next
  case (warp_up i j p)
  then obtain c where c: "warp_cost f z M i j = Some c" "c \<le> path_cost f z M p" by auto
  obtain b where j: "j = Suc b" using warp_to_cells [OF warp_up(1)] by (cases j) auto
  let ?best = "snd (warp_pick (warp_cost f z M i b) (warp_cost f z M i (Suc b)) (warp_cost f z M (Suc i) b))"
  have "\<not> cost_less (warp_cost f z M i (Suc b)) ?best"
    using tie warp_up.prems j by (intro pick_least) (auto simp: no_tie_def)
  then obtain e where "?best = Some e" "e \<le> c" using c j by (cases ?best) auto
  then show ?case using c mono [of e "path_cost f z M p"] j by simp
next
  case (warp_left i j p)
  then obtain c where c: "warp_cost f z M i j = Some c" "c \<le> path_cost f z M p" by auto
  obtain a where i: "i = Suc a" using warp_to_cells [OF warp_left(1)] by (cases i) auto
  let ?best = "snd (warp_pick (warp_cost f z M a j) (warp_cost f z M a (Suc j)) (warp_cost f z M (Suc a) j))"
  have "\<not> cost_less (warp_cost f z M (Suc a) j) ?best"
    using tie warp_left.prems i by (intro pick_least) (auto simp: no_tie_def)
  then obtain e where "?best = Some e" "e \<le> c" using c i by (cases ?best) auto
  then show ?case using c mono [of e "path_cost f z M p"] i by simp
qed

section \<open>The jumps\<close>

lemma note_jumps_length [simp]: "length (note_jumps js p) = length js"
  by (induction p arbitrary: js) auto

lemma note_jumps_first:
  "\<lbrakk>warp_to i j p; i \<le> length js\<rbrakk> \<Longrightarrow>
    (\<forall>r<i. (Suc r, Suc (note_jumps js p ! r)) \<in> set p \<and> (\<forall>b. (Suc r, b) \<in> set p \<longrightarrow> note_jumps js p ! r < b)) \<and>
    (\<forall>r. i \<le> r \<longrightarrow> note_jumps js p ! r = js ! r)"
proof (induction arbitrary: js rule: warp_to.induct)
  case warp_one
  then show ?case by (cases js) auto
next
  case (warp_diagonal i j p)
  let ?R = "note_jumps (js[i := j]) p"
  have IH: "\<forall>r<i. (Suc r, Suc (?R ! r)) \<in> set p \<and> (\<forall>b. (Suc r, b) \<in> set p \<longrightarrow> ?R ! r < b)" "\<forall>r. i \<le> r \<longrightarrow> ?R ! r = js[i := j] ! r"
    using warp_diagonal.IH [of "js[i := j]"] warp_diagonal.prems by auto
  have top: "(Suc i, b) \<notin> set p" for b using warp_to_cells [OF warp_diagonal(1)] by fastforce
  show ?case
  proof (intro conjI allI impI)
    fix r
    assume "r < Suc i"
    then show "(Suc r, Suc (note_jumps js ((Suc i, Suc j) # p) ! r)) \<in> set ((Suc i, Suc j) # p)"
      using IH warp_diagonal.prems by (cases "r = i") auto
  next
    fix r b
    assume "r < Suc i" "(Suc r, b) \<in> set ((Suc i, Suc j) # p)"
    then show "note_jumps js ((Suc i, Suc j) # p) ! r < b" using IH top warp_diagonal.prems by (cases "r = i") auto
  next
    fix r
    assume "Suc i \<le> r"
    then show "note_jumps js ((Suc i, Suc j) # p) ! r = js ! r" using IH(2) by simp
  qed
next
  case (warp_up i j p)
  let ?R = "note_jumps (js[i := j - 1]) p"
  have j: "Suc (j - 1) = j" using warp_to_cells [OF warp_up(1)] by simp
  have IH: "\<forall>r<i. (Suc r, Suc (?R ! r)) \<in> set p \<and> (\<forall>b. (Suc r, b) \<in> set p \<longrightarrow> ?R ! r < b)" "\<forall>r. i \<le> r \<longrightarrow> ?R ! r = js[i := j - 1] ! r"
    using warp_up.IH [of "js[i := j - 1]"] warp_up.prems by auto
  have top: "(Suc i, b) \<notin> set p" for b using warp_to_cells [OF warp_up(1)] by fastforce
  show ?case
  proof (intro conjI allI impI)
    fix r
    assume "r < Suc i"
    then show "(Suc r, Suc (note_jumps js ((Suc i, j) # p) ! r)) \<in> set ((Suc i, j) # p)"
      using IH warp_up.prems j by (cases "r = i") auto
  next
    fix r b
    assume "r < Suc i" "(Suc r, b) \<in> set ((Suc i, j) # p)"
    then show "note_jumps js ((Suc i, j) # p) ! r < b" using IH top warp_up.prems j by (cases "r = i") auto
  next
    fix r
    assume "Suc i \<le> r"
    then show "note_jumps js ((Suc i, j) # p) ! r = js ! r" using IH(2) by simp
  qed
next
  case (warp_left i j p)
  let ?R = "note_jumps (js[i - 1 := j]) p"
  note c = warp_to_cells [OF warp_left(1)]
  have IH: "\<forall>r<i. (Suc r, Suc (?R ! r)) \<in> set p \<and> (\<forall>b. (Suc r, b) \<in> set p \<longrightarrow> ?R ! r < b)" "\<forall>r. i \<le> r \<longrightarrow> ?R ! r = js[i - 1 := j] ! r"
    using warp_left.IH [of "js[i - 1 := j]"] warp_left.prems by auto
  have i: "i - 1 < i" "Suc (i - 1) = i" "(i, j) \<in> set p" using c by auto
  have "\<forall>b. (Suc (i - 1), b) \<in> set p \<longrightarrow> ?R ! (i - 1) < b" using IH(1) i(1) by blast
  then have last: "?R ! (i - 1) < j" unfolding i(2) using i(3) by blast
  show ?case
  proof (intro conjI allI impI)
    fix r
    assume "r < i"
    then show "(Suc r, Suc (note_jumps js ((i, Suc j) # p) ! r)) \<in> set ((i, Suc j) # p)" using IH by auto
  next
    fix r b
    assume "r < i" "(Suc r, b) \<in> set ((i, Suc j) # p)"
    then show "note_jumps js ((i, Suc j) # p) ! r < b" using IH last by auto
  next
    fix r
    assume "i \<le> r"
    then show "note_jumps js ((i, Suc j) # p) ! r = js ! r" using IH(2) c by auto
  qed
qed

definition matrix_at :: "'m list \<Rightarrow> nat \<Rightarrow> nat \<Rightarrow> nat \<Rightarrow> 'm" where
  "matrix_at matrix frames i j = matrix ! (i * frames + j)"

lemma alignmentJumps_note:
  assumes "0 < frames" "length matrix = rows * frames"
  shows "alignmentJumps f z matrix rows frames =
    note_jumps (replicate rows 0) (chosen_path (warp_dir f z (matrix_at matrix frames)) rows frames)"
proof -
  let ?rows = "matrix_rows matrix rows frames"
  have fits: "i * frames + frames \<le> length matrix" if "i < rows" for i
    using mult_le_mono1 [of "Suc i" rows frames] that assms(2) by (simp add: add.commute)
  have at: "drop (i * frames) matrix ! j = matrix ! (i * frames + j)" if "i < rows" for i j
    using fits [OF that] by (intro nth_drop) simp
  have "\<forall>r\<in>set ?rows. length r = frames" using fits by (force simp: matrix_rows_def)
  moreover have "\<forall>k<length ?rows. \<forall>j<frames. ?rows ! k ! j = matrix_at matrix frames (0 + k) j"
    by (auto simp: matrix_rows_def matrix_at_def at)
  moreover have "Some z # replicate frames None = map (warp_cost f z (matrix_at matrix frames) 0) [0..<Suc frames]"
    by (rule nth_equalityI) (auto simp: nth_Cons' simp del: upt_Suc, metis Suc_pred warp_cost.simps(2))
  ultimately have "warp_trace f ?rows (Some z # replicate frames None) ! k ! j = warp_dir f z (matrix_at matrix frames) (0 + k) j"
    if "k < rows" "j < frames" for k j
    using that by (intro warp_trace_dir) (auto simp: matrix_rows_def)
  then show ?thesis unfolding alignmentJumps_def by (intro warp_back_chosen) simp
qed

lemma alignmentJumps_path:
  assumes "0 < rows" "0 < frames" "length matrix = rows * frames"
  obtains p where "warp_to rows frames p" "length (alignmentJumps f z matrix rows frames) = rows"
    "\<And>r. r < rows \<Longrightarrow> (Suc r, Suc (alignmentJumps f z matrix rows frames ! r)) \<in> set p"
    "\<And>r b. r < rows \<Longrightarrow> (Suc r, b) \<in> set p \<Longrightarrow> alignmentJumps f z matrix rows frames ! r < b"
    "warp_cost f z (matrix_at matrix frames) rows frames = Some (path_cost f z (matrix_at matrix frames) p)"
proof -
  let ?p = "chosen_path (warp_dir f z (matrix_at matrix frames)) rows frames"
  obtain i j where ij: "rows = Suc i" "frames = Suc j" using assms(1,2) by (cases rows; cases frames) auto
  note c = chosen_path_cost [of i j f z "matrix_at matrix frames", folded ij]
  note n = alignmentJumps_note [OF assms(2,3), of f z]
  note first = note_jumps_first [OF conjunct1 [OF c], of "replicate rows 0", folded n]
  show ?thesis 
  proof (rule that [of ?p])
    show "length (alignmentJumps f z matrix rows frames) = rows" by (simp only: n note_jumps_length length_replicate)
  qed (use c first in auto)
qed

text \<open>
  C36: Word times come from a warping path: the jumps are the frames at which the path enters each token's row,
  starting at frame 0, never going back and inside the window; and the path costs no more than any other, with
  floating-point sums, when no choice of the dynamic program ties.
\<close>

theorem alignmentJumps_warp:
  assumes "0 < rows" and "0 < frames" and "length matrix = rows * frames"
    and "\<And>x a b. a \<le> b \<Longrightarrow> f x a \<le> f x b"
  shows "\<exists>p. warp_to rows frames p \<and> length (alignmentJumps f z matrix rows frames) = rows \<and>
    alignmentJumps f z matrix rows frames ! 0 = 0 \<and> sorted (alignmentJumps f z matrix rows frames) \<and>
    (\<forall>r<rows. (Suc r, Suc (alignmentJumps f z matrix rows frames ! r)) \<in> set p \<and>
       (\<forall>b. (Suc r, b) \<in> set p \<longrightarrow> alignmentJumps f z matrix rows frames ! r < b) \<and> alignmentJumps f z matrix rows frames ! r < frames) \<and>
    (no_tie f z (matrix_at matrix frames) rows frames \<longrightarrow>
       (\<forall>q. warp_to rows frames q \<longrightarrow> path_cost f z (matrix_at matrix frames) p \<le> path_cost f z (matrix_at matrix frames) q))"
proof -
  let ?J = "alignmentJumps f z matrix rows frames"
  obtain p where p: "warp_to rows frames p" "length ?J = rows" "\<And>r. r < rows \<Longrightarrow> (Suc r, Suc (?J ! r)) \<in> set p"
    "\<And>r b. r < rows \<Longrightarrow> (Suc r, b) \<in> set p \<Longrightarrow> ?J ! r < b"
    "warp_cost f z (matrix_at matrix frames) rows frames = Some (path_cost f z (matrix_at matrix frames) p)"
    using alignmentJumps_path [OF assms(1-3), of f z] by blast
  note cells = warp_to_cells [OF p(1)]
  have zero: "?J ! 0 = 0" using p(4) [OF assms(1), of 1] cells by simp
  have "?J ! r \<le> ?J ! s" if "r < s" "s < rows" for r s
    using warp_to_mono [OF p(1) p(3) p(3), of r s] that by simp
  then have mono: "sorted ?J" using p(2) by (auto simp: sorted_iff_nth_mono_less)
  have inside: "?J ! r < frames" if "r < rows" for r using p(3) [OF that] cells by fastforce
  have least: "path_cost f z (matrix_at matrix frames) p \<le> path_cost f z (matrix_at matrix frames) q"
    if "no_tie f z (matrix_at matrix frames) rows frames" "warp_to rows frames q" for q
    using warp_cost_least [OF assms(4) that(1) that(2)] p(5) by auto
  show ?thesis using p zero mono inside least by blast
qed

theorem alignmentJumps_warp_witness:
  "sorted (alignmentJumps (\<lambda>x c. c - x) 0 [5, 1, 0, 0, 4, 5 :: int] 2 3) \<and>
   alignmentJumps (\<lambda>x c. c - x) 0 [5, 1, 0, 0, 4, 5 :: int] 2 3 = [0, 1]"
proof -
  have "alignmentJumps (\<lambda>x c. c - x) 0 [5, 1, 0, 0, 4, 5 :: int] 2 3 = [0, 1]" by code_simp
  then show ?thesis using alignmentJumps_warp [of 2 3 "[5, 1, 0, 0, 4, 5 :: int]" "\<lambda>x c. c - x" 0] by auto
qed

text \<open>A tie: the walk goes left at cost 1 though the diagonal costs 0.\<close>

lemma alignmentJumps_tie:
  "alignmentJumps (\<lambda>x c. c - x) 0 [0, 0, - 1, 0 :: int] 2 2 = [0, 0]"
  "warp_cost (\<lambda>x c. c - x) 0 (matrix_at [0, 0, - 1, 0 :: int] 2) 2 2 = Some 1"
  "warp_to 2 2 [(2, 2), (1, 1)]" "path_cost (\<lambda>x c. c - x) 0 (matrix_at [0, 0, - 1, 0 :: int] 2) [(2, 2), (1, 1)] = 0"
proof -
  show "alignmentJumps (\<lambda>x c. c - x) 0 [0, 0, - 1, 0 :: int] 2 2 = [0, 0]" by code_simp
  show "warp_cost (\<lambda>x c. c - x) 0 (matrix_at [0, 0, - 1, 0 :: int] 2) 2 2 = Some 1" by code_simp
  show "warp_to 2 2 [(2, 2), (1, 1)]" using warp_diagonal [OF warp_one] by (simp add: numeral_2_eq_2)
  show "path_cost (\<lambda>x c. c - x) 0 (matrix_at [0, 0, - 1, 0 :: int] 2) [(2, 2), (1, 1)] = 0" by (simp add: matrix_at_def)
qed

end
