(* ===== verification/Whisper_Words.thy ===== *)
theory Whisper_Words
  imports Whisper_Decode Time_Warp
begin

text \<open>
  Word times (\<^verbatim>\<open>src/whisper/alignment_words.go\<close>): a second pass of the decoder over the text tokens of a
  window, whose attention is warped to frames (\<open>Time_Warp\<close>), the grouping of tokens into words, and the
  reference's adjustments of long words and segment edges.  The attention matrix, the probabilities and the
  floating-point times are parameters (\<open>aligner\<close>).  Proved: the words of a segment tile its text, whatever the
  times.
\<close>

section \<open>Model: segments and words\<close>

record 'f segment =
  s_Start :: 'f
  s_End :: 'f
  s_TextStart :: nat
  s_TextEnd :: nat
  s_WordStart :: nat
  s_WordEnd :: nat
  s_tokenStart :: nat
  s_tokenEnd :: nat

record 'f word =
  w_Start :: 'f
  w_End :: 'f
  w_TextStart :: nat
  w_TextEnd :: nat
  w_Probability :: 'f

text \<open>
  \<open>a_heads\<close>: the model has alignment heads; \<open>a_capture\<close> turns the capture on in a decoder whose audio is set;
  \<open>a_matrix\<close> is the normalized attention after the pass, rows by frames; \<open>a_prob\<close> is
  \<open>textTokenProbability\<close>; \<open>a_time\<close> a jump's time from the window's start, \<open>a_mean\<close> a sum over a count, and
  the rest constants: 0.5, 0.7, 2 and 4.
\<close>

record ('d, 'f) aligner =
  a_heads :: bool
  a_capture :: "'d \<Rightarrow> 'd"
  a_matrix :: "'d \<Rightarrow> nat \<Rightarrow> nat \<Rightarrow> 'f list"
  a_prob :: "'f fl list \<Rightarrow> int \<Rightarrow> 'f"
  a_time :: "nat \<Rightarrow> nat \<Rightarrow> 'f"
  a_mean :: "'f \<Rightarrow> nat \<Rightarrow> 'f"
  k05 :: 'f
  k07 :: 'f
  k2 :: 'f
  k4 :: 'f

definition audioFrames :: nat where "audioFrames = 1500"

section \<open>Model: pieces of text\<close>

definition alignmentPunctuation :: "char \<Rightarrow> bool" where
  "alignmentPunctuation b \<longleftrightarrow> b \<in> set ''.,!?;:)]}-('' \<or> b = CHR 0x22 \<or> b = CHR 0x27"

definition alignmentWordBreak :: "string \<Rightarrow> bool" where
  "alignmentWordBreak piece =
     (case piece of [] \<Rightarrow> False
      | b # _ \<Rightarrow> b = CHR '' '' \<or> b = CHR 0x0A \<or> b = CHR 0x09 \<or> alignmentPunctuation b)"

definition alignmentTrailingPunctuation :: "string \<Rightarrow> bool" where
  "alignmentTrailingPunctuation piece \<longleftrightarrow> piece \<noteq> [] \<and> length piece \<le> 3 \<and> list_all alignmentPunctuation piece"

definition text_slice :: "string \<Rightarrow> nat \<Rightarrow> nat \<Rightarrow> string" where
  "text_slice s a b = take (b - a) (drop a s)"

section \<open>Model: words of a segment\<close>

function word_end :: "string \<Rightarrow> nat list \<Rightarrow> nat \<Rightarrow> nat \<Rightarrow> nat" where
  "word_end s offsets tokenEnd e =
     (if e < tokenEnd \<and> \<not> alignmentWordBreak (text_slice s (offsets ! e) (offsets ! (e + 1)))
      then word_end s offsets tokenEnd (e + 1) else e)"
  by pat_completeness auto
termination by (relation "measure (\<lambda>(s, offsets, tokenEnd, e). tokenEnd - e)") auto

declare word_end.simps [simp del]

lemma word_end_bounds: "e \<le> tokenEnd \<Longrightarrow> e \<le> word_end s offsets tokenEnd e \<and> word_end s offsets tokenEnd e \<le> tokenEnd"
  by (induction s offsets tokenEnd e rule: word_end.induct) (subst (1 2) word_end.simps, auto)

definition add_word :: "string \<Rightarrow> nat \<Rightarrow> 'f word \<Rightarrow> 'f word list \<Rightarrow> 'f word list" where
  "add_word s wordStart w words =
     (if wordStart < length words \<and> alignmentTrailingPunctuation (text_slice s (w_TextStart w) (w_TextEnd w))
      then butlast words @ [(last words)\<lparr>w_TextEnd := w_TextEnd w, w_End := w_End w\<rparr>]
      else words @ [w])"

function segment_words ::
  "'f::linorder wops \<Rightarrow> ('d, 'f) aligner \<Rightarrow> nat \<Rightarrow> nat list \<Rightarrow> 'f list \<Rightarrow> string \<Rightarrow> nat list \<Rightarrow> nat \<Rightarrow> nat \<Rightarrow> nat
    \<Rightarrow> 'f word list \<Rightarrow> 'f word list" where
  "segment_words ops al windowSeek jumps probs s offsets tokenEnd wordStart start words =
     (if start < tokenEnd then
        let e = word_end s offsets tokenEnd (start + 1);
            startTime = a_time al windowSeek (jumps ! start);
            endTime = a_time al windowSeek (jumps ! e);
            probability = a_mean al (foldl (f_add ops) (f_zero ops) (take (e - start) (drop start probs))) (e - start);
            w = \<lparr>w_Start = startTime, w_End = (if endTime < startTime then startTime else endTime),
                 w_TextStart = offsets ! start, w_TextEnd = offsets ! e, w_Probability = probability\<rparr>
        in segment_words ops al windowSeek jumps probs s offsets tokenEnd wordStart e (add_word s wordStart w words)
      else words)"
  by pat_completeness auto
termination
proof (relation "measure (\<lambda>(ops, al, seek, jumps, probs, s, offsets, tokenEnd, wordStart, start, words). tokenEnd - start)", goal_cases)
  case (2 ops al seek jumps probs s offsets tokenEnd wordStart start words e)
  have "start + 1 \<le> tokenEnd" using 2(1) by simp
  then have "start < e \<and> e \<le> tokenEnd" using word_end_bounds [of "start + 1" tokenEnd s offsets] unfolding 2(2) by simp
  then show ?case by (simp only: in_measure prod.case) linarith
qed simp

declare segment_words.simps [simp del]

fun align_segments ::
  "'f::linorder wops \<Rightarrow> ('d, 'f) aligner \<Rightarrow> nat \<Rightarrow> nat list \<Rightarrow> 'f list \<Rightarrow> string \<Rightarrow> nat list
    \<Rightarrow> 'f segment list \<Rightarrow> 'f word list \<Rightarrow> 'f segment list \<times> 'f word list" where
  "align_segments ops al seek jumps probs s offsets [] words = ([], words)"
| "align_segments ops al seek jumps probs s offsets (seg # segs) words =
     (let ws = segment_words ops al seek jumps probs s offsets (s_tokenEnd seg) (length words) (s_tokenStart seg) words;
          (segs', out) = align_segments ops al seek jumps probs s offsets segs ws
      in (seg\<lparr>s_WordStart := length words, s_WordEnd := length ws\<rparr> # segs', out))"

section \<open>Model: adjusting times\<close>

definition word_median :: "'f::linorder wops \<Rightarrow> ('d, 'f) aligner \<Rightarrow> 'f word list \<Rightarrow> 'f" where
  "word_median ops al words =
     (let durations = sort (map (\<lambda>w. f_sub ops (w_End w) (w_Start w)) (filter (\<lambda>w. w_Start w < w_End w) words));
          middle = length durations div 2
      in if durations = [] then f_zero ops
         else min (k07 al) (if length durations mod 2 = 0
                            then f_mul ops (f_add ops (durations ! (middle - 1)) (durations ! middle)) (k05 al)
                            else durations ! middle))"

definition ends_sentence :: "string \<Rightarrow> bool" where
  "ends_sentence piece \<longleftrightarrow> piece \<noteq> [] \<and> last piece \<in> set ''.!?''"

text \<open>Words longer than the maximum are cut at the end of a sentence, or at the start of the next one.\<close>

definition cut_long :: "'f::linorder wops \<Rightarrow> string \<Rightarrow> 'f \<Rightarrow> nat \<Rightarrow> 'f word list \<Rightarrow> nat \<Rightarrow> 'f word" where
  "cut_long ops s maximum start words i =
     (let w = words ! i; before = words ! (i - 1) in
      if f_sub ops (w_End w) (w_Start w) \<le> maximum then w
      else if ends_sentence (text_slice s (w_TextStart w) (w_TextEnd w)) then w\<lparr>w_End := f_add ops (w_Start w) maximum\<rparr>
      else if start < i \<and> ends_sentence (text_slice s (w_TextStart before) (w_TextEnd before))
      then w\<lparr>w_Start := f_sub ops (w_End w) maximum\<rparr> else w)"

text \<open>The edges of one segment; the code's pointers into \<open>words\<close> are positions.\<close>

definition first_edge ::
  "'f::linorder wops \<Rightarrow> ('d, 'f) aligner \<Rightarrow> 'f \<Rightarrow> 'f \<Rightarrow> 'f \<Rightarrow> 'f segment \<Rightarrow> 'f word list \<Rightarrow> 'f word list" where
  "first_edge ops al median maximum lastSpeech seg words =
     (let a = s_WordStart seg; n = s_WordEnd seg - a; w = words ! a; second = words ! (a + 1) in
      if f_zero ops < maximum \<and> f_mul ops median (k4 al) < f_sub ops (w_End w) lastSpeech \<and>
         (maximum < f_sub ops (w_End w) (w_Start w)
          \<or> 1 < n \<and> f_mul ops maximum (k2 al) < f_sub ops (w_End second) (w_Start w))
      then let words1 = (if 1 < n \<and> maximum < f_sub ops (w_End second) (w_Start second)
                         then let boundary = max (f_mul ops (w_End second) (k05 al)) (f_sub ops (w_End second) maximum)
                              in words[a := w\<lparr>w_End := boundary\<rparr>, a + 1 := second\<lparr>w_Start := boundary\<rparr>]
                         else words)
           in words1[a := (words1 ! a)\<lparr>w_Start := max (f_zero ops) (f_sub ops (w_End (words1 ! a)) maximum)\<rparr>]
      else words)"

definition segment_edges ::
  "'f::linorder wops \<Rightarrow> ('d, 'f) aligner \<Rightarrow> 'f \<Rightarrow> 'f segment \<Rightarrow> 'f word list \<Rightarrow> 'f segment \<times> 'f word list" where
  "segment_edges ops al median seg words =
     (let a = s_WordStart seg; b = s_WordEnd seg - 1; w = words ! a;
          (seg1, words1) =
            (if s_Start seg < w_End w \<and> w_Start w < f_sub ops (s_Start seg) (k05 al)
             then (seg, words[a := w\<lparr>w_Start := max (f_zero ops) (min (f_sub ops (w_End w) median) (s_Start seg))\<rparr>])
             else (seg\<lparr>s_Start := w_Start w\<rparr>, words));
          l = words1 ! b
      in if w_Start l < s_End seg1 \<and> f_add ops (s_End seg1) (k05 al) < w_End l
         then (seg1, words1[b := l\<lparr>w_End := max (f_add ops (w_Start l) median) (s_End seg1)\<rparr>])
         else (seg1\<lparr>s_End := w_End l\<rparr>, words1))"

fun refine_segments ::
  "'f::linorder wops \<Rightarrow> ('d, 'f) aligner \<Rightarrow> 'f \<Rightarrow> 'f \<Rightarrow> 'f segment list \<Rightarrow> 'f word list \<Rightarrow> 'f
    \<Rightarrow> 'f segment list \<times> 'f word list \<times> 'f" where
  "refine_segments ops al median maximum [] words lastSpeech = ([], words, lastSpeech)"
| "refine_segments ops al median maximum (seg # segs) words lastSpeech =
     (if s_WordStart seg = s_WordEnd seg
      then let (segs', out) = refine_segments ops al median maximum segs words lastSpeech in (seg # segs', out)
      else let (seg', words') = segment_edges ops al median seg (first_edge ops al median maximum lastSpeech seg words);
               (segs', out) = refine_segments ops al median maximum segs words' (s_End seg')
           in (seg' # segs', out))"

definition refineWordBoundaries ::
  "'f::linorder wops \<Rightarrow> ('d, 'f) aligner \<Rightarrow> string \<Rightarrow> 'f segment list \<Rightarrow> 'f word list \<Rightarrow> 'f
    \<Rightarrow> 'f segment list \<times> 'f word list \<times> 'f" where
  "refineWordBoundaries ops al s segs words lastSpeech =
     (let start = foldl (\<lambda>x seg. if s_WordStart seg < x then s_WordStart seg else x) (length words) segs in
      if length words \<le> start then (segs, words, lastSpeech)
      else let median = word_median ops al (drop start words); maximum = f_mul ops (k2 al) median;
               words' = (if f_zero ops < maximum
                         then take start words @ map (cut_long ops s maximum start words) [start..<length words] else words)
           in refine_segments ops al median maximum segs words' lastSpeech)"

section \<open>Model: the second pass\<close>

fun align_feed ::
  "('a, 'd, 'f) machine \<Rightarrow> ('d, 'f) aligner \<Rightarrow> int list \<Rightarrow> int list \<Rightarrow> nat \<Rightarrow> 'd scratch \<Rightarrow> 'f fl list \<Rightarrow> 'f list
    \<Rightarrow> werror + ('d scratch \<times> 'f list)" where
  "align_feed m al alignTokens [] pos s logits probs = Inr (s, probs)"
| "align_feed m al alignTokens (i # ids) pos s logits probs =
     (let scored = (1 \<le> pos \<and> pos \<le> length alignTokens) in
      case decodeTokenInto m i pos s logits scored of
        Inl e \<Rightarrow> Inl e
      | Inr (s', logits') \<Rightarrow>
          align_feed m al alignTokens ids (pos + 1) s' logits'
            (if scored then probs @ [a_prob al logits' (alignTokens ! (pos - 1))] else probs))"

text \<open>The state of word timing: the window's text tokens, the offsets of their text, and the last time.\<close>

record 'f aligning =
  alignTokens :: "int list"
  alignOffsets :: "nat list"
  lastSpeechTimestamp :: 'f

definition alignWordsForWindow ::
  "('a, 'd, 'f::linorder) machine \<Rightarrow> ('d, 'f) aligner \<Rightarrow> tokenizer \<Rightarrow> 'f fl list \<Rightarrow> 'd \<Rightarrow> 'f aligning \<Rightarrow> nat \<Rightarrow> nat \<Rightarrow> string
    \<Rightarrow> 'f segment list \<Rightarrow> 'f word list \<Rightarrow> werror + ('f aligning \<times> 'f segment list \<times> 'f word list)" where
  "alignWordsForWindow m al t logits d st windowSeek segmentFrames s segs words =
     (let tokenCount = length (alignTokens st); positions = tokenCount + 3; frames = min audioFrames (segmentFrames div 2) in
      if \<not> a_heads al then Inl WordAlignmentModel
      else if textContext < positions then Inl WordAlignmentContext
      else if frames = 0 then Inr (st, segs, words)
      else case align_feed m al (alignTokens st) (int (sot t) # int (noTimestamps t) # alignTokens st @ [int (eot t)]) 0
                  \<lparr>net = a_capture al d, nextPos = 0\<rparr> logits [] of
        Inl e \<Rightarrow> Inl e
      | Inr (sc, probs) \<Rightarrow>
          let rows = positions - 2;
              jumps = alignmentJumps (\<lambda>x c. f_sub (m_wops m) c x) (f_zero (m_wops m)) (a_matrix al (net sc) rows frames) rows frames;
              (segs1, words1) = align_segments (m_wops m) al windowSeek jumps probs s (alignOffsets st) segs words;
              (segs2, words2, lastSpeech) = refineWordBoundaries (m_wops m) al s segs1 words1 (lastSpeechTimestamp st)
          in Inr (st\<lparr>lastSpeechTimestamp := lastSpeech\<rparr>, segs2, words2))"

section \<open>The words tile the text\<close>

definition ranges :: "'f word list \<Rightarrow> (nat \<times> nat) list" where
  "ranges ws = map (\<lambda>w. (w_TextStart w, w_TextEnd w)) ws"

text \<open>Ranges that follow one another from token \<open>a\<close> to token \<open>b\<close>, cut at tokens in between.\<close>

fun tiles :: "nat list \<Rightarrow> nat \<Rightarrow> nat \<Rightarrow> (nat \<times> nat) list \<Rightarrow> bool" where
  "tiles offs a b [] = (a = b)"
| "tiles offs a b ((x, y) # r) = (\<exists>k>a. x = offs ! a \<and> y = offs ! k \<and> tiles offs k b r)"

lemma tiles_snoc: "tiles offs a b (r @ [(x, y)]) \<longleftrightarrow> (\<exists>k<b. tiles offs a k r \<and> x = offs ! k \<and> y = offs ! b)"
  by (induction offs a b r rule: tiles.induct) auto

lemma tiles_le: "tiles offs a b r \<Longrightarrow> a \<le> b"
  by (induction offs a b r rule: tiles.induct) (simp, force)

lemma tiles_cut: "\<lbrakk>tiles offs a b r; (x, y) \<in> set r\<rbrakk> \<Longrightarrow> \<exists>i j. a \<le> i \<and> i < j \<and> j \<le> b \<and> x = offs ! i \<and> y = offs ! j"
proof (induction offs a b r rule: tiles.induct)
  case (2 offs a b x' y' r)
  then obtain k where k: "a < k" "x' = offs ! a" "y' = offs ! k" "tiles offs k b r" by auto
  show ?case
  proof (cases "(x, y) = (x', y')")
    case True
    then show ?thesis using k tiles_le [OF k(4)] by blast
  next
    case False
    then obtain i j where "k \<le> i" "i < j" "j \<le> b" "x = offs ! i" "y = offs ! j" using "2.IH" [OF k(4)] "2.prems"(2) by auto
    then show ?thesis using k(1) by (intro exI [of _ i] exI [of _ j]) simp
  qed
qed simp

lemma ranges_append [simp]: "ranges (us @ vs) = ranges us @ ranges vs"
  by (simp add: ranges_def)

lemma length_ranges [simp]: "length (ranges ws) = length ws"
  by (simp add: ranges_def)

lemma add_word_tiles:
  assumes "wordStart \<le> length words" "tiles offs a i (ranges (drop wordStart words))" "i < j"
    and "w_TextStart w = offs ! i" "w_TextEnd w = offs ! j"
  shows "take wordStart (add_word s wordStart w words) = take wordStart words \<and> wordStart \<le> length (add_word s wordStart w words) \<and>
    tiles offs a j (ranges (drop wordStart (add_word s wordStart w words)))"
proof (cases "wordStart < length words \<and> alignmentTrailingPunctuation (text_slice s (w_TextStart w) (w_TextEnd w))")
  case True
  then obtain ws l where w: "words = ws @ [l]" by (cases words rule: rev_cases) auto
  then have n: "wordStart \<le> length ws" using True by simp
  then have "ranges (drop wordStart words) = ranges (drop wordStart ws) @ [(w_TextStart l, w_TextEnd l)]"
    by (simp add: w ranges_def)
  then obtain k where "k < i" "tiles offs a k (ranges (drop wordStart ws))" "w_TextStart l = offs ! k"
    using assms(2) by (auto simp: tiles_snoc)
  then have "tiles offs a j (ranges (drop wordStart ws) @ [(w_TextStart l, w_TextEnd w)])" using assms(3,5) unfolding tiles_snoc by (intro exI [of _ k]) simp
  then show ?thesis using True n by (simp add: add_word_def w ranges_def)
next
  case False
  then have e: "add_word s wordStart w words = words @ [w]" by (auto simp: add_word_def)
  have "tiles offs a j (ranges (drop wordStart words) @ [(w_TextStart w, w_TextEnd w)])" using assms unfolding tiles_snoc by blast
  then show ?thesis using assms(1) unfolding e by (simp add: ranges_def)
qed

lemma segment_words_tiles:
  "\<lbrakk>start \<le> tokenEnd; wordStart \<le> length words; tiles offsets a start (ranges (drop wordStart words))\<rbrakk> \<Longrightarrow>
   take wordStart (segment_words ops al seek jumps probs s offsets tokenEnd wordStart start words) = take wordStart words \<and>
   wordStart \<le> length (segment_words ops al seek jumps probs s offsets tokenEnd wordStart start words) \<and>
   tiles offsets a tokenEnd (ranges (drop wordStart (segment_words ops al seek jumps probs s offsets tokenEnd wordStart start words)))"
proof (induction ops al seek jumps probs s offsets tokenEnd wordStart start words rule: segment_words.induct)
  case (1 ops al seek jumps probs s offsets tokenEnd wordStart start words)
  show ?case
  proof (cases "start < tokenEnd")
    case False
    then show ?thesis using 1 by (subst (1 2 3) segment_words.simps) simp
  next
    case True
    define e where "e = word_end s offsets tokenEnd (start + 1)"
    have e: "start < e \<and> e \<le> tokenEnd" using word_end_bounds [of "start + 1" tokenEnd s offsets] True unfolding e_def by linarith
    obtain w where w: "w_TextStart w = offsets ! start" "w_TextEnd w = offsets ! e"
      and step: "segment_words ops al seek jumps probs s offsets tokenEnd wordStart start words =
        segment_words ops al seek jumps probs s offsets tokenEnd wordStart e (add_word s wordStart w words)"
      and IH: "\<lbrakk>e \<le> tokenEnd; wordStart \<le> length (add_word s wordStart w words);
          tiles offsets a e (ranges (drop wordStart (add_word s wordStart w words)))\<rbrakk> \<Longrightarrow>
        take wordStart (segment_words ops al seek jumps probs s offsets tokenEnd wordStart e (add_word s wordStart w words)) =
          take wordStart (add_word s wordStart w words) \<and>
        wordStart \<le> length (segment_words ops al seek jumps probs s offsets tokenEnd wordStart e (add_word s wordStart w words)) \<and>
        tiles offsets a tokenEnd (ranges (drop wordStart
          (segment_words ops al seek jumps probs s offsets tokenEnd wordStart e (add_word s wordStart w words))))"
    proof
      let ?t0 = "a_time al seek (jumps ! start)" and ?t1 = "a_time al seek (jumps ! e)"
      let ?w = "\<lparr>w_Start = ?t0, w_End = (if ?t1 < ?t0 then ?t0 else ?t1), w_TextStart = offsets ! start, w_TextEnd = offsets ! e,
        w_Probability = a_mean al (foldl (f_add ops) (f_zero ops) (take (e - start) (drop start probs))) (e - start)\<rparr>"
      show "w_TextStart ?w = offsets ! start" "w_TextEnd ?w = offsets ! e" by simp_all
      show "segment_words ops al seek jumps probs s offsets tokenEnd wordStart start words =
        segment_words ops al seek jumps probs s offsets tokenEnd wordStart e (add_word s wordStart ?w words)"
        using True by (subst segment_words.simps) (simp only: Let_def e_def if_True)
    qed (rule "1.IH" [OF True e_def refl refl refl refl])
    show ?thesis unfolding step using IH add_word_tiles [of wordStart words offsets a start e w s] "1.prems" e w by simp
  qed
qed

text \<open>Segments after alignment: their words follow one another and tile their text.\<close>

definition words_of :: "'f segment \<Rightarrow> 'f word list \<Rightarrow> 'f word list" where
  "words_of seg words = take (s_WordEnd seg - s_WordStart seg) (drop (s_WordStart seg) words)"

fun word_runs :: "nat \<Rightarrow> 'f segment list \<Rightarrow> nat \<Rightarrow> bool" where
  "word_runs n [] m = (n = m)"
| "word_runs n (seg # segs) m = (s_WordStart seg = n \<and> n \<le> s_WordEnd seg \<and> word_runs (s_WordEnd seg) segs m)"

definition timed :: "nat list \<Rightarrow> 'f word list \<Rightarrow> 'f segment \<Rightarrow> bool" where
  "timed offsets words seg \<longleftrightarrow> tiles offsets (s_tokenStart seg) (s_tokenEnd seg) (ranges (words_of seg words))"

definition seg_text :: "'f segment \<Rightarrow> nat \<times> nat \<times> nat \<times> nat" where
  "seg_text seg = (s_TextStart seg, s_TextEnd seg, s_tokenStart seg, s_tokenEnd seg)"

lemma seg_text_upd [simp]: "seg_text (seg\<lparr>s_WordStart := a, s_WordEnd := b\<rparr>) = seg_text seg"
  by (simp add: seg_text_def)

lemma word_runs_le: "word_runs n segs m \<Longrightarrow> n \<le> m"
  by (induction n segs m rule: word_runs.induct) auto

lemma align_segments_timed:
  assumes "\<forall>seg\<in>set segs. s_tokenStart seg \<le> s_tokenEnd seg"
    and "align_segments ops al seek jumps probs s offsets segs words = (segs', out)"
  shows "take (length words) out = words \<and> word_runs (length words) segs' (length out) \<and>
    (\<forall>seg\<in>set segs'. timed offsets out seg) \<and> map seg_text segs' = map seg_text segs"
  using assms
proof (induction segs arbitrary: words segs' out)
  case (Cons seg segs)
  define ws where "ws = segment_words ops al seek jumps probs s offsets (s_tokenEnd seg) (length words) (s_tokenStart seg) words"
  obtain rest where r: "align_segments ops al seek jumps probs s offsets segs ws = (rest, out)"
    "segs' = seg\<lparr>s_WordStart := length words, s_WordEnd := length ws\<rparr> # rest"
    using Cons.prems(2) by (auto simp: Let_def ws_def [symmetric] split: prod.splits)
  have w: "take (length words) ws = words" "length words \<le> length ws"
    "tiles offsets (s_tokenStart seg) (s_tokenEnd seg) (ranges (drop (length words) ws))"
    using segment_words_tiles [of "s_tokenStart seg" "s_tokenEnd seg" "length words" words offsets "s_tokenStart seg" ops al seek jumps probs s]
      Cons.prems(1) by (simp_all add: ws_def ranges_def)
  have IH: "take (length ws) out = ws" "word_runs (length ws) rest (length out)" "\<forall>seg\<in>set rest. timed offsets out seg" "map seg_text rest = map seg_text segs"
    using Cons.IH [OF _ r(1)] Cons.prems(1) by auto
  have "take (length words) out = words" using w(1) take_take [of "length words" "length ws" out] unfolding IH(1) by (simp add: min_absorb1 [OF w(2)])
  moreover have "timed offsets out (seg\<lparr>s_WordStart := length words, s_WordEnd := length ws\<rparr>)"
  proof -
    have "take (length ws - length words) (drop (length words) out) = drop (length words) ws"
      unfolding drop_take [symmetric] IH(1) ..
    then show ?thesis using w(3) by (simp add: timed_def words_of_def)
  qed
  ultimately show ?case using IH w(2) r(2) by simp
qed simp

section \<open>Adjusting times moves no text\<close>

lemma ranges_upd: "(w_TextStart w, w_TextEnd w) = (w_TextStart (words ! a), w_TextEnd (words ! a)) \<Longrightarrow> ranges (words[a := w]) = ranges words"
proof -
  assume w: "(w_TextStart w, w_TextEnd w) = (w_TextStart (words ! a), w_TextEnd (words ! a))"
  have "ranges (words[a := w]) = (ranges words)[a := (w_TextStart w, w_TextEnd w)]" by (simp add: ranges_def map_update)
  also have "\<dots> = ranges words" unfolding w by (cases "a < length words") (auto simp: ranges_def list_update_same_conv list_update_beyond)
  finally show ?thesis .
qed

lemma cut_long_range: "w_TextStart (cut_long ops s maximum start words i) = w_TextStart (words ! i) \<and>
    w_TextEnd (cut_long ops s maximum start words i) = w_TextEnd (words ! i)"
  by (simp add: cut_long_def Let_def)

lemma cut_ranges:
  assumes "start \<le> length words"
  shows "ranges (take start words @ map (cut_long ops s maximum start words) [start..<length words]) = ranges words"
proof -
  have "ranges (map (cut_long ops s maximum start words) [start..<length words]) = ranges (drop start words)"
    by (rule nth_equalityI) (use assms in \<open>auto simp: ranges_def cut_long_range\<close>)
  then show ?thesis by (metis append_take_drop_id ranges_append)
qed

lemma first_edge_ranges: "ranges (first_edge ops al median maximum lastSpeech seg words) = ranges words"
proof -
  have one: "ranges (us[i := (us ! i)\<lparr>w_Start := x\<rparr>]) = ranges us" "ranges (us[i := (us ! i)\<lparr>w_End := x\<rparr>]) = ranges us" for us :: "'a word list" and i x
    by (rule ranges_upd; simp)+
  have two: "ranges (words[a := (words ! a)\<lparr>w_End := x\<rparr>, a + 1 := (words ! (a + 1))\<lparr>w_Start := x\<rparr>]) = ranges words" for a x
    using one(1) [of "words[a := (words ! a)\<lparr>w_End := x\<rparr>]" "a + 1"] one(2) [of words a] by simp
  show ?thesis unfolding first_edge_def Let_def using one two by (simp split: if_split)
qed

lemma segment_edges_keep:
  assumes "segment_edges ops al median seg words = (seg', words')"
  shows "ranges words' = ranges words" "seg_text seg' = seg_text seg" "s_WordStart seg' = s_WordStart seg" "s_WordEnd seg' = s_WordEnd seg"
proof -
  have one: "ranges (us[i := (us ! i)\<lparr>w_Start := x\<rparr>]) = ranges us" "ranges (us[i := (us ! i)\<lparr>w_End := x\<rparr>]) = ranges us" for us :: "'a word list" and i x
    by (rule ranges_upd; simp)+
  show "ranges words' = ranges words" using assms one unfolding segment_edges_def Let_def by (auto split: if_splits)
  show "seg_text seg' = seg_text seg" "s_WordStart seg' = s_WordStart seg" "s_WordEnd seg' = s_WordEnd seg"
    using assms unfolding segment_edges_def Let_def by (auto simp: seg_text_def split: if_splits)
qed

definition seg_words :: "'f segment \<Rightarrow> nat \<times> nat" where
  "seg_words seg = (s_WordStart seg, s_WordEnd seg)"

lemma refine_segments_keep:
  "refine_segments ops al median maximum segs words lastSpeech = (segs', words', l) \<Longrightarrow>
   ranges words' = ranges words \<and> map seg_text segs' = map seg_text segs \<and> map seg_words segs' = map seg_words segs"
proof (induction ops al median maximum segs words lastSpeech arbitrary: segs' words' l rule: refine_segments.induct)
  case (2 ops al median maximum seg segs words lastSpeech)
  show ?case
  proof (cases "s_WordStart seg = s_WordEnd seg")
    case True
    then obtain rest where "refine_segments ops al median maximum segs words lastSpeech = (rest, words', l)" "segs' = seg # rest"
      using "2.prems" by (auto split: prod.splits)
    then show ?thesis using "2.IH"(1) [OF True] by simp
  next
    case False
    obtain seg1 words1 where e: "segment_edges ops al median seg (first_edge ops al median maximum lastSpeech seg words) = (seg1, words1)" by fastforce
    then obtain rest where r: "refine_segments ops al median maximum segs words1 (s_End seg1) = (rest, words', l)" "segs' = seg1 # rest"
      using "2.prems" False by (auto split: prod.splits)
    note k = segment_edges_keep [OF e]
    have "ranges words' = ranges words1 \<and> map seg_text rest = map seg_text segs \<and> map seg_words rest = map seg_words segs"
      using "2.IH"(2) [OF False e [symmetric] refl r(1)] .
    moreover have "seg_words seg1 = seg_words seg" using k by (simp add: seg_words_def)
    ultimately show ?thesis using k r(2) by (simp add: first_edge_ranges)
  qed
qed simp

lemma refine_keep:
  assumes "refineWordBoundaries ops al s segs words lastSpeech = (segs', words', l)"
  shows "ranges words' = ranges words" "map seg_text segs' = map seg_text segs" "map seg_words segs' = map seg_words segs"
proof -
  define start where "start = foldl (\<lambda>x seg. if s_WordStart seg < x then s_WordStart seg else x) (length words) segs"
  have "ranges words' = ranges words \<and> map seg_text segs' = map seg_text segs \<and> map seg_words segs' = map seg_words segs"
  proof (cases "length words \<le> start")
    case True
    then show ?thesis using assms by (simp add: refineWordBoundaries_def start_def [symmetric] Let_def)
  next
    case False
    then have "start \<le> length words" by simp
    note cut = cut_ranges [OF this]
    show ?thesis
      using assms False unfolding refineWordBoundaries_def start_def [symmetric] Let_def
      by (auto dest!: refine_segments_keep simp: cut simp del: ranges_append split: if_splits)
  qed
  then show "ranges words' = ranges words" "map seg_text segs' = map seg_text segs" "map seg_words segs' = map seg_words segs" by simp_all
qed

lemma ranges_slice: "ranges us = ranges vs \<Longrightarrow> ranges (words_of seg us) = ranges (words_of seg vs)"
  by (simp add: ranges_def words_of_def take_map [symmetric] drop_map [symmetric])

lemma runs_eq: "map seg_words segs = map seg_words segs' \<Longrightarrow> word_runs n segs m = word_runs n segs' m"
proof (induction segs arbitrary: segs' n)
  case (Cons seg segs)
  then obtain seg' rest where "segs' = seg' # rest" by (cases segs') auto
  then show ?case using Cons by (auto simp: seg_words_def)
qed simp

lemma words_tile:
  assumes "alignWordsForWindow m al t logits d st windowSeek segmentFrames s segs words = Inr (st', segs', words')"
    and "min audioFrames (segmentFrames div 2) \<noteq> 0" and "\<forall>seg\<in>set segs. s_tokenStart seg \<le> s_tokenEnd seg"
  shows "take (length words) (ranges words') = ranges words \<and> word_runs (length words) segs' (length words') \<and>
    (\<forall>seg\<in>set segs'. timed (alignOffsets st) words' seg) \<and> map seg_text segs' = map seg_text segs \<and>
    alignTokens st' = alignTokens st \<and> alignOffsets st' = alignOffsets st"
proof -
  obtain jumps probs segs1 words1 l where
    a: "align_segments (m_wops m) al windowSeek jumps probs s (alignOffsets st) segs words = (segs1, words1)"
    and r: "refineWordBoundaries (m_wops m) al s segs1 words1 (lastSpeechTimestamp st) = (segs', words', l)"
    and st: "st' = st\<lparr>lastSpeechTimestamp := l\<rparr>"
    using assms(1,2) unfolding alignWordsForWindow_def Let_def
    by (auto split: if_splits sum.splits prod.splits)
  note al = align_segments_timed [OF assms(3) a]
  note k = refine_keep [OF r]
  have len: "length words' = length words1" using arg_cong [OF k(1), of length] by simp
  have "timed (alignOffsets st) words' seg" if seg: "seg \<in> set segs'" for seg
  proof -
    obtain i where i: "i < length segs'" "seg = segs' ! i" using seg by (auto simp: in_set_conv_nth)
    have n: "length segs1 = length segs'" using arg_cong [OF k(2), of length] by simp
    have "map seg_text segs' ! i = map seg_text segs1 ! i" "map seg_words segs' ! i = map seg_words segs1 ! i" by (simp_all only: k(2,3))
    then have e: "s_tokenStart seg = s_tokenStart (segs1 ! i)" "s_tokenEnd seg = s_tokenEnd (segs1 ! i)"
      "s_WordStart seg = s_WordStart (segs1 ! i)" "s_WordEnd seg = s_WordEnd (segs1 ! i)"
      using i n by (simp_all add: seg_text_def seg_words_def)
    have "timed (alignOffsets st) words1 (segs1 ! i)" using al i(1) n by simp
    then have "timed (alignOffsets st) words' (segs1 ! i)" unfolding timed_def ranges_slice [OF k(1), symmetric] .
    then show ?thesis unfolding timed_def words_of_def e .
  qed
  moreover have "take (length words) (ranges words') = ranges words" using al k(1) by (simp add: ranges_def take_map)
  ultimately show ?thesis using al k len runs_eq [OF k(3)] st by simp
qed

end
