(* ===== verification/Whisper_Segments.thy ===== *)
theory Whisper_Segments
  imports Whisper_Words
begin

text \<open>
  Transcribing a recording (\<^verbatim>\<open>src/whisper/transcribe_full.go\<close>): successive windows, how far each one
  advances, the slicing of its tokens at timestamps into segments, words, and the mapping of all boundaries
  into the repaired text.  Proved: the segments tile the transcript and their slices, and those of the words, are
  inside it and well-formed after a repair; and how the seek moves.
\<close>

section \<open>Model: how far a window advances\<close>

definition last_pair :: "int \<Rightarrow> int list \<Rightarrow> int" where
  "last_pair begin_at tokens =
     foldl (\<lambda>l i. if begin_at \<le> tokens ! (i - 1) \<and> begin_at \<le> tokens ! i then int i else l) (- 1) [1..<length tokens]"

text \<open>The tokens kept, the frames to advance, and whether a pair of timestamps decided.\<close>

definition timestampSeek :: "int list \<Rightarrow> int \<Rightarrow> nat \<Rightarrow> int list \<times> nat \<times> bool" where
  "timestampSeek tokens begin_at segmentFrames =
     (let lastConsecutive = last_pair begin_at tokens; n = length tokens in
      if lastConsecutive < 0 then (tokens, segmentFrames, False)
      else if 2 \<le> n \<and> begin_at \<le> tokens ! (n - 1) \<and> tokens ! (n - 2) < begin_at then (tokens, segmentFrames, True)
      else let advance = (tokens ! (nat lastConsecutive - 1) - begin_at) * 2
           in (take (nat lastConsecutive) tokens, if advance < 1 then 1 else nat advance, True))"

lemma timestampSeek_advance: "\<lbrakk>(accepted, rest) = timestampSeek tokens b n; (advance, pair) = rest; 0 < n\<rbrakk> \<Longrightarrow> 0 < advance"
  by (auto simp: timestampSeek_def Let_def split: if_splits)

section \<open>Model: segments of a window\<close>

record ('d, 'f) lane = "('d, 'f) transcriber" +
  l_recordWords :: bool
  l_align :: "'f aligning"

definition MelFrames :: nat where "MelFrames = 3000"

text \<open>The frames of a slice of tokens: start and end, or \<open>None\<close> where the slice is skipped.\<close>

fun last_stamp :: "int \<Rightarrow> int list \<Rightarrow> int option" where
  "last_stamp begin_at [] = None"
| "last_stamp begin_at (i # ids) =
     (case last_stamp begin_at ids of Some j \<Rightarrow> Some j | None \<Rightarrow> if begin_at \<le> i then Some i else None)"

definition slice_frames :: "int \<Rightarrow> int list \<Rightarrow> bool \<Rightarrow> nat \<Rightarrow> nat \<Rightarrow> (int \<times> int) option" where
  "slice_frames begin_at tokens hasPair segmentFrames windowSeek =
     (let r = (if hasPair then
                 if tokens = [] \<or> 1 < length tokens \<and> begin_at \<le> hd tokens \<and> begin_at \<le> last tokens \<and> hd tokens = last tokens then None
                 else Some (if begin_at \<le> hd tokens then int windowSeek + (hd tokens - begin_at) * 2 else int windowSeek,
                            if begin_at \<le> last tokens then int windowSeek + (last tokens - begin_at) * 2
                            else int windowSeek + int segmentFrames)
               else let n = (case last_stamp begin_at tokens of
                               Some i \<Rightarrow> if i \<noteq> begin_at then (i - begin_at) * 2 else int segmentFrames
                             | None \<Rightarrow> int segmentFrames)
                    in if n = 0 then None else Some (int windowSeek, int windowSeek + n))
      in case r of Some (a, b) \<Rightarrow> if a = b then None else r | None \<Rightarrow> None)"

text \<open>\<open>frame_time\<close> is a frame number times 0.01.\<close>

fun text_offsets :: "tokenizer \<Rightarrow> int list \<Rightarrow> int list \<Rightarrow> nat list \<Rightarrow> int list \<times> nat list" where
  "text_offsets t [] text_ids offsets = (text_ids, offsets)"
| "text_offsets t (i # ids) text_ids offsets =
     (if i < int (eot t) then text_offsets t ids (text_ids @ [i]) (offsets @ [last offsets + length (decoder t ! nat i)])
      else text_offsets t ids text_ids offsets)"

definition appendOneSegmentAt ::
  "unicode_tables \<Rightarrow> (int \<Rightarrow> 'f) \<Rightarrow> nat \<Rightarrow> ('d, 'f) lane \<Rightarrow> string \<Rightarrow> int list \<Rightarrow> bool \<Rightarrow> nat \<Rightarrow> nat \<Rightarrow> 'f segment list \<Rightarrow> bool
    \<Rightarrow> ('d, 'f) lane \<times> string \<times> 'f segment list \<times> werror option" where
  "appendOneSegmentAt uc frame_time capacity l dst tokens hasPair segmentFrames windowSeek segs rec =
     (let t = t_tokenizer l; begin_at = int (timestampBegin t) in
      case slice_frames begin_at tokens hasPair segmentFrames windowSeek of
        None \<Rightarrow> (l, dst, segs, None)
      | Some (startFrame, endFrame) \<Rightarrow>
          if \<not> list_all (\<lambda>i. 0 \<le> i \<and> i < int (vocabSize t)) tokens then (l, dst, segs, Some (TextError ErrTokenizerTokenRange))
          else if blankWhisperText uc (concat (map (\<lambda>i. decoder t ! nat i) (filter (\<lambda>i. i < int (eot t)) tokens)))
          then (l, dst, segs, None)
          else (case decodeInto (Some t) capacity dst tokens of
                  (_, Some e) \<Rightarrow> (l, dst, segs, Some (TextError e))
                | (bytes_out, None) \<Rightarrow>
                    let l1 = l\<lparr>t_history := t_history l @ tokens\<rparr> in
                    if \<not> rec then (l1, bytes_out, segs, None)
                    else let st = l_align l;
                             (text_ids, offsets) = (if l_recordWords l then text_offsets t tokens (alignTokens st) (alignOffsets st)
                                             else (alignTokens st, alignOffsets st));
                             seg = \<lparr>s_Start = frame_time startFrame, s_End = frame_time endFrame,
                                    s_TextStart = length dst, s_TextEnd = length bytes_out, s_WordStart = 0, s_WordEnd = 0,
                                    s_tokenStart = (if l_recordWords l then length (alignTokens st) else 0),
                                    s_tokenEnd = (if l_recordWords l then length text_ids else 0)\<rparr>
                         in (l1\<lparr>l_align := st\<lparr>alignTokens := text_ids, alignOffsets := offsets\<rparr>\<rparr>, bytes_out, segs @ [seg], None)))"

text \<open>\<open>appendTranscribedSegmentsAt\<close>: a slice ends where two timestamps meet.\<close>

function segment_slices ::
  "unicode_tables \<Rightarrow> (int \<Rightarrow> 'f) \<Rightarrow> nat \<Rightarrow> int list \<Rightarrow> nat \<Rightarrow> bool \<Rightarrow> nat \<Rightarrow> bool \<Rightarrow> nat \<Rightarrow> nat \<Rightarrow> bool \<Rightarrow> ('d, 'f) lane \<Rightarrow> string \<Rightarrow> 'f segment list
    \<Rightarrow> ('d, 'f) lane \<times> string \<times> 'f segment list \<times> werror option" where
  "segment_slices uc ft capacity tokens segmentFrames pairBranch windowSeek rec i start hasPair l dst segs =
     (let begin_at = int (timestampBegin (t_tokenizer l)) in
      if i < length tokens then
        if tokens ! (i - 1) < begin_at \<or> tokens ! i < begin_at
        then segment_slices uc ft capacity tokens segmentFrames pairBranch windowSeek rec (i + 1) start hasPair l dst segs
        else case appendOneSegmentAt uc ft capacity l dst (take (i - start) (drop start tokens)) True segmentFrames windowSeek segs rec of
               (l', dst', segs', Some e) \<Rightarrow> (l', dst', segs', Some e)
             | (l', dst', segs', None) \<Rightarrow>
                 segment_slices uc ft capacity tokens segmentFrames pairBranch windowSeek rec (i + 1) i True l' dst' segs'
      else if start < length tokens
      then appendOneSegmentAt uc ft capacity l dst (drop start tokens) (hasPair \<or> pairBranch) segmentFrames windowSeek segs rec
      else (l, dst, segs, None))"
  by pat_completeness auto
termination by (relation "measure (\<lambda>(uc, ft, capacity, tokens, frames, pb, seek, rec, i, start, hp, l, dst, segs). length tokens - i)") auto

declare segment_slices.simps [simp del]

definition appendTranscribedSegmentsAt ::
  "unicode_tables \<Rightarrow> (int \<Rightarrow> 'f) \<Rightarrow> nat \<Rightarrow> ('d, 'f) lane \<Rightarrow> string \<Rightarrow> int list \<Rightarrow> nat \<Rightarrow> bool \<Rightarrow> nat \<Rightarrow> 'f segment list \<Rightarrow> bool
    \<Rightarrow> ('d, 'f) lane \<times> string \<times> 'f segment list \<times> werror option" where
  "appendTranscribedSegmentsAt uc ft capacity l dst tokens segmentFrames pairBranch windowSeek segs rec =
     segment_slices uc ft capacity tokens segmentFrames pairBranch windowSeek rec 1 0 False l dst segs"

section \<open>Model: the recording\<close>

datatype mode = PlainText | WithSegments | WithWords

text \<open>\<open>SpectrogramFrames\<close> of \<^verbatim>\<open>src/internal/mel/whisper.go\<close>, with thirty seconds of padding; \<open>None\<close> for its errors.\<close>

definition FullFeatureFrames :: "nat \<Rightarrow> nat option" where
  "FullFeatureFrames samples =
     (if max_int - (480000 + 2 * 200) < int samples then None
      else if samples + 480000 \<le> 200 then None
      else let frames = (samples + 480000) div 160 in if max_int div 80 < int frames then None else Some frames)"

function transcribe_windows ::
  "unicode_tables \<Rightarrow> ('a, 'd, 'f::linorder) machine \<Rightarrow> ('d, 'f) aligner \<Rightarrow> (int \<Rightarrow> 'f) \<Rightarrow> nat \<Rightarrow> 'a list \<Rightarrow> mode \<Rightarrow> nat \<Rightarrow> nat
    \<Rightarrow> ('d, 'f) lane \<Rightarrow> string \<Rightarrow> 'f segment list \<Rightarrow> 'f word list
    \<Rightarrow> ('d, 'f) lane \<times> string \<times> 'f segment list \<times> 'f word list \<times> werror option" where
  "transcribe_windows uc m al ft capacity pcm mode contentFrames seek l dst segs words =
     (if seek < contentFrames then
        let segmentFrames = min MelFrames (contentFrames - seek);
            l0 = (if mode = WithWords then l\<lparr>l_align := (l_align l)\<lparr>alignTokens := [], alignOffsets := [length dst]\<rparr>\<rparr> else l)
        in case m_frames m pcm seek segmentFrames of
             None \<Rightarrow> (l0, dst, segs, words, Some NetworkError)
           | Some d \<Rightarrow>
               (case decode_window uc m (transcriber.truncate l0) True (t_history l0) d of
                  Inl e \<Rightarrow> (l0, dst, segs, words, Some e)
                | Inr (t, tokens, promptLen, textEnd, noSp, logprob) \<Rightarrow>
                    let l1 = l0\<lparr>t_policy := t_policy t\<rparr>; generated = take (textEnd - promptLen) (drop promptLen tokens) in
                    if m_silent m noSp \<and> m_unlikely m logprob (length generated)
                    then transcribe_windows uc m al ft capacity pcm mode contentFrames (seek + segmentFrames) l1 dst segs words
                    else case timestampSeek generated (int (timestampBegin (t_tokenizer l1))) segmentFrames of
                      (accepted, advance, pairBranch) \<Rightarrow>
                        (case appendTranscribedSegmentsAt uc ft capacity l1 dst accepted segmentFrames pairBranch seek segs (mode \<noteq> PlainText) of
                           (l2, dst', segs', Some e) \<Rightarrow> (l2, dst', segs', words, Some e)
                         | (l2, dst', segs', None) \<Rightarrow>
                             if mode = WithWords \<and> alignTokens (l_align l2) \<noteq> [] then
                               (case alignWordsForWindow m al (t_tokenizer l2) (t_logits l2) d (l_align l2) seek segmentFrames dst'
                                       (drop (length segs) segs') words of
                                  Inl e \<Rightarrow> (l2, dst', segs', words, Some e)
                                | Inr (st, timed_segs, words') \<Rightarrow>
                                    transcribe_windows uc m al ft capacity pcm mode contentFrames (seek + advance) (l2\<lparr>l_align := st\<rparr>)
                                      dst' (take (length segs) segs' @ timed_segs) words')
                             else transcribe_windows uc m al ft capacity pcm mode contentFrames (seek + advance) l2 dst' segs' words))
      else (l, dst, segs, words, None))"
  by pat_completeness auto
termination
proof (relation "measure (\<lambda>(uc, m, al, ft, capacity, pcm, mode, contentFrames, seek, l, dst, segs, words). contentFrames - seek)", goal_cases)
  case 1
  show ?case by (rule wf_measure)
next
  case (2 uc m al ft capacity pcm mode contentFrames seek l dst segs words segmentFrames)
  then have "seek < contentFrames" "0 < segmentFrames" by (simp_all add: MelFrames_def)
  then show ?case by simp
next
  case (3 uc m al ft capacity pcm mode contentFrames seek l dst segs words segmentFrames)
  have "seek < contentFrames" "0 < segmentFrames" using 3(1,2) by (simp_all add: MelFrames_def)
  then show ?case using timestampSeek_advance [OF 3(14,15)] by simp
next
  case (4 uc m al ft capacity pcm mode contentFrames seek l dst segs words segmentFrames)
  have "seek < contentFrames" "0 < segmentFrames" using 4(1,2) by (simp_all add: MelFrames_def)
  then show ?case using timestampSeek_advance [OF 4(14,15)] by simp
qed

declare transcribe_windows.simps [simp del]

text \<open>The end of \<open>transcribeFullInto\<close>: the repair, and the boundaries where it changed the text.\<close>

definition remap_segment :: "string \<Rightarrow> nat \<Rightarrow> 'f segment \<Rightarrow> 'f segment" where
  "remap_segment old start seg =
     seg\<lparr>s_TextStart := start + remapUTF8Boundary old (int (s_TextStart seg) - int start) False,
         s_TextEnd := start + remapUTF8Boundary old (int (s_TextEnd seg) - int start) True\<rparr>"

definition remap_word :: "string \<Rightarrow> nat \<Rightarrow> 'f word \<Rightarrow> 'f word" where
  "remap_word old start w =
     w\<lparr>w_TextStart := start + remapUTF8Boundary old (int (w_TextStart w) - int start) False,
       w_TextEnd := start + remapUTF8Boundary old (int (w_TextEnd w) - int start) True\<rparr>"

definition finish_transcript ::
  "nat \<Rightarrow> string \<Rightarrow> nat \<Rightarrow> nat \<Rightarrow> nat \<Rightarrow> 'f segment list \<Rightarrow> 'f word list \<Rightarrow> string \<times> 'f segment list \<times> 'f word list \<times> werror option" where
  "finish_transcript capacity dst start segmentsStart wordsStart segs words =
     (let old = drop start dst; (repaired, ok) = repairTranscriptionUTF8 capacity dst start in
      if ok \<and> \<not> utf8_Valid old
      then (repaired, take segmentsStart segs @ map (remap_segment old start) (drop segmentsStart segs),
            take wordsStart words @ map (remap_word old start) (drop wordsStart words), None)
      else (repaired, segs, words, if ok then None else Some TranscriberTextCapacity))"

definition transcribeFullInto ::
  "unicode_tables \<Rightarrow> ('a, 'd, 'f::linorder) machine \<Rightarrow> ('d, 'f) aligner \<Rightarrow> (int \<Rightarrow> 'f) \<Rightarrow> nat \<Rightarrow> ('d, 'f) lane \<Rightarrow> 'a list \<Rightarrow> string
    \<Rightarrow> 'f segment list \<Rightarrow> 'f word list \<Rightarrow> mode
    \<Rightarrow> ('d, 'f) lane \<times> string \<times> 'f segment list \<times> 'f word list \<times> werror option" where
  "transcribeFullInto uc m al ft capacity l pcm dst segs words mode =
     (if t_closed l then (l, dst, segs, words, Some TranscriberClosed)
      else case FullFeatureFrames (length pcm) of
        None \<Rightarrow> (l, dst, segs, words, Some FeatureError)
      | Some frames \<Rightarrow>
          let l0 = l\<lparr>t_history := [], l_recordWords := (mode = WithWords),
                     l_align := (l_align l)\<lparr>lastSpeechTimestamp := f_zero (m_wops m)\<rparr>\<rparr>
          in case transcribe_windows uc m al ft capacity pcm mode (frames - MelFrames) 0 l0 dst segs words of
               (l', dst', segs', words', Some e) \<Rightarrow> (l', dst', segs', words', Some e)
             | (l', dst', segs', words', None) \<Rightarrow>
                 (l', finish_transcript capacity dst' (length dst) (length segs) (length words) segs' words'))"

section \<open>How the seek moves\<close>

lemma last_pair_at:
  assumes "0 \<le> last_pair b tokens"
  shows "1 \<le> last_pair b tokens \<and> last_pair b tokens < int (length tokens) \<and>
    b \<le> tokens ! (nat (last_pair b tokens) - 1) \<and> b \<le> tokens ! nat (last_pair b tokens)"
proof -
  have "foldl (\<lambda>l i. if b \<le> tokens ! (i - 1) \<and> b \<le> tokens ! i then int i else l) (- 1) is = - 1 \<or>
      (\<exists>i\<in>set is. foldl (\<lambda>l i. if b \<le> tokens ! (i - 1) \<and> b \<le> tokens ! i then int i else l) (- 1) is = int i \<and>
         b \<le> tokens ! (i - 1) \<and> b \<le> tokens ! i)" for "is"
    by (induction "is" rule: rev_induct) auto
  from this [of "[1..<length tokens]"] show ?thesis using assms unfolding last_pair_def by fastforce
qed

text \<open>
  Under the timestamp rules a window always moves the recording on by what it heard: it keeps a prefix of its
  tokens and either consumes the whole window or advances by at least one tick of 20 ms, to the last timestamp
  that closed a segment; the code's guard against standing still is never what decides.
\<close>

theorem timestampSeek_moves:
  assumes "stamp_grammar p tokens" and "timestampSeek tokens (int (stamp_from p)) segmentFrames = (accepted, advance, pairBranch)"
  shows "(accepted = tokens \<and> advance = segmentFrames) \<or>
    (\<exists>k. 0 < k \<and> k < length tokens \<and> accepted = take k tokens \<and> stamp p (tokens ! (k - 1)) \<and> stamp p (tokens ! k) \<and>
       int advance = 2 * (tokens ! (k - 1) - int (stamp_from p)) \<and> 2 \<le> advance)"
proof -
  let ?k = "last_pair (int (stamp_from p)) tokens"
  show ?thesis
  proof (cases "?k < 0 \<or> 2 \<le> length tokens \<and> stamp p (tokens ! (length tokens - 1)) \<and> tokens ! (length tokens - 2) < int (stamp_from p)")
    case True
    then show ?thesis using assms(2) by (auto simp: timestampSeek_def Let_def split: if_splits)
  next
    case False
    then have k: "1 \<le> ?k" "?k < int (length tokens)" "stamp p (tokens ! (nat ?k - 1))" "stamp p (tokens ! nat ?k)"
      using last_pair_at [of "int (stamp_from p)" tokens] by auto
    have n: "Suc (nat ?k - 1) = nat ?k" "nat ?k < length tokens" using k(1,2) by auto
    have less: "int (stamp_from p) < tokens ! (nat ?k - 1)"
      using assms(1) k(3,4) n unfolding stamp_grammar_def by (metis (no_types, lifting))
    define v where "v = tokens ! (nat ?k - 1) - int (stamp_from p)"
    have "timestampSeek tokens (int (stamp_from p)) segmentFrames = (take (nat ?k) tokens, nat (v * 2), True)"
      using False less unfolding timestampSeek_def Let_def v_def by auto
    then have e: "accepted = take (nat ?k) tokens" "advance = nat (v * 2)" using assms(2) by simp_all
    have "0 < v" using less by (simp add: v_def)
    then have "int advance = 2 * v" "2 \<le> advance" unfolding e(2) by simp_all
    then show ?thesis using k n e(1) unfolding v_def by (intro disjI2 exI [of _ "nat ?k"]) auto
  qed
qed

theorem timestampSeek_moves_witness:
  "timestampSeek [7 :: int] 6 100 = ([7], 100, False) \<and> stamp_grammar stamp_policy [7]"
proof -
  have g: "stamp_grammar stamp_policy [7]"
    by (simp add: stamp_grammar_def stamp_policy_def stamp_tokenizer_def)
  have s: "timestampSeek [7 :: int] (int (stamp_from stamp_policy)) 100 = ([7], 100, False)" by (simp add: timestampSeek_def last_pair_def)
  from timestampSeek_moves [OF g s] show ?thesis using g s by (simp add: stamp_policy_def stamp_tokenizer_def)
qed

section \<open>Segments tile the text\<close>

fun text_run :: "nat \<Rightarrow> 'f segment list \<Rightarrow> nat \<Rightarrow> bool" where
  "text_run a [] b = (a = b)"
| "text_run a (seg # segs) b = (s_TextStart seg = a \<and> a \<le> s_TextEnd seg \<and> text_run (s_TextEnd seg) segs b)"

lemma text_run_snoc: "text_run a (segs @ [seg]) b \<longleftrightarrow> text_run a segs (s_TextStart seg) \<and> s_TextStart seg \<le> s_TextEnd seg \<and> s_TextEnd seg = b"
  by (induction a segs b rule: text_run.induct) auto

lemma text_run_append: "text_run a (us @ vs) b \<longleftrightarrow> (\<exists>c. text_run a us c \<and> text_run c vs b)"
  by (induction us arbitrary: a) auto

lemma text_run_le: "text_run a segs b \<Longrightarrow> a \<le> b"
  by (induction a segs b rule: text_run.induct) auto

lemma text_run_mem: "\<lbrakk>text_run a segs b; seg \<in> set segs\<rbrakk> \<Longrightarrow> a \<le> s_TextStart seg \<and> s_TextStart seg \<le> s_TextEnd seg \<and> s_TextEnd seg \<le> b"
proof (induction a segs b rule: text_run.induct)
  case (2 a s segs b)
  then show ?case using text_run_le [of "s_TextEnd s" segs b] by fastforce
qed simp

lemma text_run_eq: "map seg_text us = map seg_text vs \<Longrightarrow> text_run a us b = text_run a vs b"
proof (induction us arbitrary: vs a)
  case (Cons u us)
  then obtain v rest where "vs = v # rest" by (cases vs) auto
  then show ?case using Cons by (auto simp: seg_text_def)
qed simp

text \<open>The offsets of the text tokens: in order, and inside the transcript.\<close>

definition offsets_ok :: "'f aligning \<Rightarrow> nat \<Rightarrow> nat \<Rightarrow> bool" where
  "offsets_ok st lo hi \<longleftrightarrow> length (alignOffsets st) = Suc (length (alignTokens st)) \<and> sorted (alignOffsets st) \<and>
     lo \<le> hd (alignOffsets st) \<and> last (alignOffsets st) \<le> hi"

lemma offsets_at:
  assumes "offsets_ok st lo hi" "i \<le> j" "j \<le> length (alignTokens st)"
  shows "lo \<le> alignOffsets st ! i \<and> alignOffsets st ! i \<le> alignOffsets st ! j \<and> alignOffsets st ! j \<le> hi"
proof -
  have n: "length (alignOffsets st) = Suc (length (alignTokens st))" "sorted (alignOffsets st)" using assms(1) by (simp_all add: offsets_ok_def)
  have m: "alignOffsets st ! a \<le> alignOffsets st ! b" if "a \<le> b" "b \<le> length (alignTokens st)" for a b
    using n that by (simp add: sorted_nth_mono)
  have "alignOffsets st \<noteq> []" using n(1) by auto
  then have "hd (alignOffsets st) = alignOffsets st ! 0" "last (alignOffsets st) = alignOffsets st ! length (alignTokens st)"
    using n(1) by (simp_all add: hd_conv_nth last_conv_nth)
  then show ?thesis using assms m [of 0 i] m [of i j] m [of j "length (alignTokens st)"] by (simp add: offsets_ok_def)
qed

definition text_length :: "tokenizer \<Rightarrow> int list \<Rightarrow> nat" where
  "text_length t ids = sum_list (map (\<lambda>i. length (decoder t ! nat i)) (filter (\<lambda>i. i < int (eot t)) ids))"

lemma text_offsets_ok:
  assumes "offsets_ok st lo hi" "text_offsets t ids (alignTokens st) (alignOffsets st) = (text_ids, offsets)"
  shows "offsets_ok (st\<lparr>alignTokens := text_ids, alignOffsets := offsets\<rparr>) lo (hi + text_length t ids) \<and> length (alignTokens st) \<le> length text_ids"
  using assms
proof (induction ids arbitrary: st hi)
  case Nil
  then show ?case by (auto simp: text_length_def)
next
  case (Cons i ids)
  show ?case
  proof (cases "i < int (eot t)")
    case True
    let ?n = "length (decoder t ! nat i)"
    define st2 where "st2 = st\<lparr>alignTokens := alignTokens st @ [i], alignOffsets := alignOffsets st @ [last (alignOffsets st) + ?n]\<rparr>"
    have "alignOffsets st \<noteq> []" using Cons.prems(1) by (auto simp: offsets_ok_def)
    moreover from this have "x \<le> last (alignOffsets st)" if "x \<in> set (alignOffsets st)" for x
      using Cons.prems(1) that by (auto simp: offsets_ok_def in_set_conv_nth last_conv_nth simp del: last_snoc intro!: sorted_nth_mono)
    ultimately have "offsets_ok st2 lo (hi + ?n)" using Cons.prems(1) by (force simp: offsets_ok_def st2_def sorted_append)
    then show ?thesis using Cons.IH [of st2 "hi + ?n"] Cons.prems(2) True by (simp add: st2_def text_length_def add.assoc)
  next
    case False
    then show ?thesis using Cons False by (simp add: text_length_def)
  qed
qed

lemma decode_ids_grows:
  assumes "decode_ids t capacity dst ids = (out, None)" "eot t \<le> timestampBegin t"
  shows "\<exists>ext. out = dst @ ext \<and> text_length t ids \<le> length ext"
  using assms
proof (induction t capacity dst ids rule: decode_ids.induct)
  case (1 t capacity dst)
  then show ?case by (simp add: text_length_def)
next
  case (2 t capacity dst i ids)
  have i: "0 \<le> i" "i < int (vocabSize t)" using "2.prems"(1) by (auto split: if_splits)
  show ?case
  proof (cases "int (timestampBegin t) \<le> i")
    case True
    then show ?thesis using 2 i by (auto simp: text_length_def split: if_splits)
  next
    case False
    then obtain ext where "out = (dst @ decoder t ! nat i) @ ext" "text_length t ids \<le> length ext"
      using 2 i by (auto split: if_splits)
    then show ?thesis by (intro exI [of _ "decoder t ! nat i @ ext"]) (simp add: text_length_def)
  qed
qed

definition window_ok :: "nat \<Rightarrow> nat \<Rightarrow> nat \<Rightarrow> nat \<Rightarrow> bool \<Rightarrow> ('d, 'f) lane \<Rightarrow> string \<Rightarrow> 'f segment list \<Rightarrow> bool" where
  "window_ok start ns fs lo rec l dst segs \<longleftrightarrow>
     (rec \<longrightarrow> ns \<le> fs \<and> fs \<le> length segs \<and> text_run start (drop ns segs) (length dst)) \<and>
     (l_recordWords l \<longrightarrow> offsets_ok (l_align l) lo (length dst) \<and>
        (\<forall>seg\<in>set (drop fs segs). s_tokenStart seg \<le> s_tokenEnd seg \<and> s_tokenEnd seg \<le> length (alignTokens (l_align l))))"

text \<open>What the steps of a window leave alone.\<close>

definition same_lane :: "('d, 'f) lane \<Rightarrow> ('d, 'f) lane \<Rightarrow> bool" where
  "same_lane l l' \<longleftrightarrow> t_tokenizer l' = t_tokenizer l \<and> t_policy l' = t_policy l \<and> t_logits l' = t_logits l \<and> l_recordWords l' = l_recordWords l"

lemma offsets_ok_mono: "offsets_ok st lo hi \<Longrightarrow> hi \<le> hi' \<Longrightarrow> offsets_ok st lo hi'"
  by (auto simp: offsets_ok_def)

lemma append_one_ok:
  assumes a: "appendOneSegmentAt uc ft capacity l dst tokens hasPair frames seek segs rec = (l', dst', segs', e)"
    and t: "eot (t_tokenizer l) \<le> timestampBegin (t_tokenizer l)" and w: "window_ok start ns fs lo rec l dst segs"
  shows "(\<exists>ext. dst' = dst @ ext) \<and> same_lane l l' \<and> window_ok start ns fs lo rec l' dst' segs' \<and> (\<exists>more. segs' = segs @ more)"
proof -
  let ?t = "t_tokenizer l"
  note d = a [unfolded appendOneSegmentAt_def Let_def]
  consider (keep) "l' = l" "dst' = dst" "segs' = segs"
    | (plain) bytes_out where "decodeInto (Some ?t) capacity dst tokens = (bytes_out, None)" "\<not> rec" "dst' = bytes_out" "segs' = segs"
        "l' = l\<lparr>t_history := t_history l @ tokens\<rparr>"
    | (seg) bytes_out a b text_ids offsets where "decodeInto (Some ?t) capacity dst tokens = (bytes_out, None)" "rec" "dst' = bytes_out"
        "(text_ids, offsets) = (if l_recordWords l then text_offsets ?t tokens (alignTokens (l_align l)) (alignOffsets (l_align l))
           else (alignTokens (l_align l), alignOffsets (l_align l)))"
        "segs' = segs @ [\<lparr>s_Start = ft a, s_End = ft b, s_TextStart = length dst, s_TextEnd = length bytes_out, s_WordStart = 0, s_WordEnd = 0,
           s_tokenStart = (if l_recordWords l then length (alignTokens (l_align l)) else 0),
           s_tokenEnd = (if l_recordWords l then length text_ids else 0)\<rparr>]"
        "l' = l\<lparr>t_history := t_history l @ tokens, l_align := (l_align l)\<lparr>alignTokens := text_ids, alignOffsets := offsets\<rparr>\<rparr>"
  proof (cases "slice_frames (int (timestampBegin ?t)) tokens hasPair frames seek")
    case None
    with d show ?thesis by (intro that(1)) simp_all
  next
    case (Some p)
    obtain x y where p: "p = (x, y)" by (cases p)
    show ?thesis
    proof (cases "\<not> list_all (\<lambda>i. 0 \<le> i \<and> i < int (vocabSize ?t)) tokens \<or>
        blankWhisperText uc (concat (map (\<lambda>i. decoder ?t ! nat i) (filter (\<lambda>i. i < int (eot ?t)) tokens)))")
      case True
      with d Some p show ?thesis by (intro that(1)) (auto split: if_splits)
    next
      case False
      obtain out r where o: "decodeInto (Some ?t) capacity dst tokens = (out, r)" by (cases "decodeInto (Some ?t) capacity dst tokens")
      note d2 = d [unfolded Some p option.case prod.case o]
      show ?thesis
      proof (cases r)
        case (Some x)
        with d2 False show ?thesis by (intro that(1)) simp_all
      next
        case None
        show ?thesis
        proof (cases "rec")
          case True
          obtain text_ids offsets where q: "(text_ids, offsets) =
              (if l_recordWords l then text_offsets ?t tokens (alignTokens (l_align l)) (alignOffsets (l_align l))
               else (alignTokens (l_align l), alignOffsets (l_align l)))" by (metis prod.collapse)
          show ?thesis by (rule that(3) [of out text_ids offsets x y, OF _ True _ q]) (use d2 False None True o in \<open>auto simp: q [symmetric]\<close>)
        next
          case no: False
          show ?thesis by (rule that(2) [OF _ no]) (use d2 False None no o in simp_all)
        qed
      qed
    qed
  qed
  then show ?thesis
  proof cases
    case keep
    then show ?thesis using w by (simp add: same_lane_def)
  next
    case plain
    then obtain ext where "dst' = dst @ ext" using decode_ids_grows [of ?t capacity dst tokens] t by (auto simp: decodeInto_def)
    then show ?thesis using plain w offsets_ok_mono [of "l_align l" lo "length dst" "length dst'"] by (auto simp: same_lane_def window_ok_def)
  next
    case seg
    obtain ext where ext: "dst' = dst @ ext" "text_length ?t tokens \<le> length ext"
      using decode_ids_grows [of ?t capacity dst tokens] t seg(1,3) by (auto simp: decodeInto_def)
    let ?st = "(l_align l)\<lparr>alignTokens := text_ids, alignOffsets := offsets\<rparr>"
    have words: "offsets_ok ?st lo (length dst') \<and> length (alignTokens (l_align l)) \<le> length text_ids"
      if "l_recordWords l"
    proof -
      have "offsets_ok (l_align l) lo (length dst)" using w that by (simp add: window_ok_def)
      from text_offsets_ok [OF this, of ?t tokens text_ids offsets] seg(4) that
      have "offsets_ok ?st lo (length dst + text_length ?t tokens) \<and> length (alignTokens (l_align l)) \<le> length text_ids" by simp
      then show ?thesis using offsets_ok_mono ext by fastforce
    qed
    obtain sg where new: "segs' = segs @ [sg]" "s_TextStart sg = length dst" "s_TextEnd sg = length dst'"
      "l_recordWords l \<Longrightarrow> s_tokenStart sg = length (alignTokens (l_align l))" "l_recordWords l \<Longrightarrow> s_tokenEnd sg = length text_ids"
      using seg(3,5) by auto
    have n: "ns \<le> fs" "fs \<le> length segs" "text_run start (drop ns segs) (length dst)" using w seg(2) by (simp_all add: window_ok_def)
    have run: "text_run start (drop ns segs') (length dst')" using n new(2,3) ext(1) by (simp add: new(1) text_run_snoc)
    have tokens_in: "s_tokenStart x \<le> s_tokenEnd x \<and> s_tokenEnd x \<le> length text_ids" if r: "l_recordWords l" and x: "x \<in> set (drop fs segs')" for x
    proof (cases "x \<in> set (drop fs segs)")
      case True
      then show ?thesis using w words [OF r] r by (auto simp: window_ok_def)
    next
      case False
      then have "x = sg" using x n(2) by (simp add: new(1))
      then show ?thesis using new(4,5) [OF r] words [OF r] by simp
    qed
    have l': "l_recordWords l' = l_recordWords l" "l_align l' = ?st" using seg(6) by simp_all
    have "window_ok start ns fs lo rec l' dst' segs'"
      unfolding window_ok_def l' using n(1,2) run words tokens_in by (simp add: new(1))
    then show ?thesis using ext(1) new(1) seg(6) by (auto simp: same_lane_def)
  qed
qed

lemma same_lane_trans: "same_lane a b \<Longrightarrow> same_lane b c \<Longrightarrow> same_lane a c"
  by (simp add: same_lane_def)

lemma segment_slices_ok:
  assumes "segment_slices uc ft capacity tokens frames pb seek rec i st hasPair l dst segs = (l', dst', segs', e)"
    and "eot (t_tokenizer l) \<le> timestampBegin (t_tokenizer l)" and "window_ok start ns fs lo rec l dst segs"
  shows "(\<exists>ext. dst' = dst @ ext) \<and> same_lane l l' \<and> window_ok start ns fs lo rec l' dst' segs' \<and> (\<exists>more. segs' = segs @ more)"
  using assms
proof (induction uc ft capacity tokens frames pb seek rec i st hasPair l dst segs arbitrary: l' dst' segs' e rule: segment_slices.induct)
  case (1 uc ft capacity tokens frames pb seek rec i st hasPair l dst segs)
  let ?b = "int (timestampBegin (t_tokenizer l))"
  show ?case
  proof (cases "i < length tokens")
    case False
    show ?thesis
    proof (cases "st < length tokens")
      case True
      then have "appendOneSegmentAt uc ft capacity l dst (drop st tokens) (hasPair \<or> pb) frames seek segs rec = (l', dst', segs', e)"
        using False "1.prems"(1) by (subst (asm) segment_slices.simps) simp
      then show ?thesis using append_one_ok "1.prems"(2,3) by blast
    next
      case no: False
      then show ?thesis using False "1.prems" by (subst (asm) segment_slices.simps) (simp add: same_lane_def)
    qed
  next
    case i: True
    show ?thesis
    proof (cases "tokens ! (i - 1) < ?b \<or> tokens ! i < ?b")
      case True
      then have "segment_slices uc ft capacity tokens frames pb seek rec (i + 1) st hasPair l dst segs = (l', dst', segs', e)"
        using i "1.prems"(1) by (subst (asm) segment_slices.simps) (simp add: Let_def)
      then show ?thesis using "1.IH"(1) [OF refl i True] "1.prems"(2,3) by blast
    next
      case False
      obtain l1 dst1 segs1 e1 where a: "appendOneSegmentAt uc ft capacity l dst (take (i - st) (drop st tokens)) True frames seek segs rec = (l1, dst1, segs1, e1)"
        by (metis prod_cases4)
      note one = append_one_ok [OF a "1.prems"(2,3)]
      show ?thesis
      proof (cases e1)
        case (Some x)
        then have "(l', dst', segs') = (l1, dst1, segs1)" using i False a "1.prems"(1) by (subst (asm) segment_slices.simps) (simp add: Let_def)
        then show ?thesis using one by simp
      next
        case None
        then have r: "segment_slices uc ft capacity tokens frames pb seek rec (i + 1) i True l1 dst1 segs1 = (l', dst', segs', e)"
          using i False a "1.prems"(1) by (subst (asm) segment_slices.simps) (simp add: Let_def)
        have "t_tokenizer l1 = t_tokenizer l" using one by (simp add: same_lane_def)
        then have "(\<exists>ext. dst' = dst1 @ ext) \<and> same_lane l1 l' \<and> window_ok start ns fs lo rec l' dst' segs' \<and> (\<exists>more. segs' = segs1 @ more)"
          using "1.IH"(2) [OF refl i False a [symmetric] refl refl None r] "1.prems"(2) one by simp
        then show ?thesis using one same_lane_trans by fastforce
      qed
    qed
  qed
qed

lemma runs_mem:
  "\<lbrakk>word_runs n segs m; m \<le> length ws; n \<le> i; i < m\<rbrakk> \<Longrightarrow> \<exists>seg\<in>set segs. ranges ws ! i \<in> set (ranges (words_of seg ws))"
proof (induction n segs m rule: word_runs.induct)
  case (2 n seg segs m)
  show ?case
  proof (cases "i < s_WordEnd seg")
    case True
    have n: "s_WordStart seg = n" "s_WordEnd seg \<le> m" using 2(2) word_runs_le by auto
    have "words_of seg ws ! (i - n) = ws ! i" "i - n < length (words_of seg ws)"
      using True n 2(3,4) by (simp_all add: words_of_def)
    then have "ws ! i \<in> set (words_of seg ws)" by (metis nth_mem)
    then show ?thesis using 2(3,5) by (auto simp: ranges_def)
  next
    case False
    then show ?thesis using 2 by auto
  qed
qed simp

lemma align_progress:
  assumes a: "alignWordsForWindow m al t logits d st seek frames s segs words = Inr (st', segs', words')"
    and o: "offsets_ok st lo hi" and k: "\<forall>seg\<in>set segs. s_tokenStart seg \<le> s_tokenEnd seg \<and> s_tokenEnd seg \<le> length (alignTokens st)"
  shows "map seg_text segs' = map seg_text segs \<and> take (length words) (ranges words') = ranges words \<and>
    (\<forall>(x, y)\<in>set (drop (length words) (ranges words')). lo \<le> x \<and> x \<le> y \<and> y \<le> hi)"
proof (cases "min audioFrames (frames div 2) = 0")
  case True
  then have "segs' = segs \<and> words' = words" using a by (auto simp: alignWordsForWindow_def Let_def split: if_splits)
  then show ?thesis by (simp add: ranges_def)
next
  case False
  have ts: "\<forall>seg\<in>set segs. s_tokenStart seg \<le> s_tokenEnd seg" using k by blast
  note w = words_tile [OF a False ts]
  have "lo \<le> fst r \<and> fst r \<le> snd r \<and> snd r \<le> hi" if r: "r \<in> set (drop (length words) (ranges words'))" for r
  proof -
    obtain k where k': "k < length (drop (length words) (ranges words'))" "r = drop (length words) (ranges words') ! k"
      using r unfolding in_set_conv_nth by blast
    define i where "i = length words + k"
    have i: "length words \<le> i" "i < length words'" "r = ranges words' ! i" using k' by (auto simp: i_def)
    obtain seg where seg: "seg \<in> set segs'" "r \<in> set (ranges (words_of seg words'))"
      using runs_mem [of "length words" segs' "length words'" words' i] w i by auto
    have "tiles (alignOffsets st) (s_tokenStart seg) (s_tokenEnd seg) (ranges (words_of seg words'))" using w seg(1) by (simp add: timed_def)
    from tiles_cut [OF this, of "fst r" "snd r"] seg(2)
    obtain a b where ab: "a < b" "b \<le> s_tokenEnd seg" "fst r = alignOffsets st ! a" "snd r = alignOffsets st ! b" by auto
    have "seg_text seg \<in> set (map seg_text segs')" using seg(1) by simp
    then have "seg_text seg \<in> set (map seg_text segs)" using w by simp
    then obtain seg0 where "seg0 \<in> set segs" "s_tokenEnd seg0 = s_tokenEnd seg" by (auto simp: seg_text_def)
    then have "b \<le> length (alignTokens st)" using k ab(2) by force
    then show ?thesis using offsets_at [OF o, of a b] ab by simp
  qed
  then show ?thesis using w by auto
qed

definition progress :: "nat \<Rightarrow> nat \<Rightarrow> nat \<Rightarrow> mode \<Rightarrow> ('d, 'f) lane \<Rightarrow> string \<Rightarrow> 'f segment list \<Rightarrow> 'f word list \<Rightarrow> bool" where
  "progress start ns nw mode l dst segs words \<longleftrightarrow>
     ns \<le> length segs \<and> nw \<le> length words \<and> start \<le> length dst \<and> l_recordWords l = (mode = WithWords) \<and>
     (mode \<noteq> PlainText \<longrightarrow> text_run start (drop ns segs) (length dst)) \<and>
     (\<forall>(x, y)\<in>set (drop nw (ranges words)). start \<le> x \<and> x \<le> y \<and> y \<le> length dst)"

lemma progress_words:
  assumes "progress start ns nw mode l dst segs words" "dst' = dst @ ext" "take (length words) (ranges words') = ranges words"
    and "\<forall>(x, y)\<in>set (drop (length words) (ranges words')). length dst \<le> x \<and> x \<le> y \<and> y \<le> length dst'"
  shows "nw \<le> length words' \<and> (\<forall>(x, y)\<in>set (drop nw (ranges words')). start \<le> x \<and> x \<le> y \<and> y \<le> length dst')"
proof -
  have n: "nw \<le> length words" "start \<le> length dst" using assms(1) by (simp_all add: progress_def)
  have le: "length words \<le> length words'" using arg_cong [OF assms(3), of length] by simp
  have "ranges words' = ranges words @ drop (length words) (ranges words')" using assms(3) by (metis append_take_drop_id)
  then have "drop nw (ranges words') = drop nw (ranges words) @ drop (length words) (ranges words')" using n(1)
    by (metis drop_append length_ranges diff_is_0_eq drop_0)
  then show ?thesis using assms n le unfolding progress_def by fastforce
qed

lemma windows_ok:
  assumes "transcribe_windows uc m al ft capacity pcm mode contentFrames seek l dst segs words = (l', dst', segs', words', e)"
    and "eot (t_tokenizer l) \<le> timestampBegin (t_tokenizer l)" and "progress start ns nw mode l dst segs words"
  shows "(\<exists>ext. dst' = dst @ ext) \<and> progress start ns nw mode l' dst' segs' words'"
  using assms
proof (induction uc m al ft capacity pcm mode contentFrames seek l dst segs words arbitrary: l' dst' segs' words' e rule: transcribe_windows.induct)
  case (1 uc m al ft capacity pcm mode contentFrames seek l dst segs words)
  define sf where "sf = min MelFrames (contentFrames - seek)"
  define l0 where "l0 = (if mode = WithWords then l\<lparr>l_align := (l_align l)\<lparr>alignTokens := [], alignOffsets := [length dst]\<rparr>\<rparr> else l)"
  have l0: "progress start ns nw mode l0 dst segs words" "t_tokenizer l0 = t_tokenizer l"
    using "1.prems"(3) by (simp_all add: l0_def progress_def)
  note d = "1.prems"(1) [unfolded transcribe_windows.simps [of uc m al ft capacity pcm mode contentFrames seek l dst segs words] Let_def,
      folded sf_def l0_def]
  show ?case
  proof (cases "seek < contentFrames")
    case False
    then show ?thesis using d "1.prems"(3) by simp
  next
    case seek: True
    show ?thesis
    proof (cases "m_frames m pcm seek sf")
      case None
      then show ?thesis using d seek l0 by simp
    next
      case (Some dec)
      note d = d [unfolded if_P [OF seek] Some option.case]
      show ?thesis
      proof (cases "decode_window uc m (transcriber.truncate l0) True (t_history l0) dec")
        case (Inl x)
        then show ?thesis using d l0 by simp
      next
        case (Inr r)
        obtain t tokens promptLen textEnd noSp logprob where r: "r = (t, tokens, promptLen, textEnd, noSp, logprob)" by (metis prod_cases6)
        define l1 where "l1 = l0\<lparr>t_policy := t_policy t\<rparr>"
        define gen where "gen = take (textEnd - promptLen) (drop promptLen tokens)"
        note d = d [unfolded Inr r sum.case prod.case, folded l1_def gen_def]
        have l1: "progress start ns nw mode l1 dst segs words" "t_tokenizer l1 = t_tokenizer l" using l0 by (simp_all add: l1_def progress_def)
        show ?thesis
        proof (cases "m_silent m noSp \<and> m_unlikely m logprob (length gen)")
          case True
          from d [unfolded if_P [OF True]] show ?thesis
            using "1.IH"(1) [OF seek sf_def l0_def Some Inr [unfolded r] refl refl refl refl refl l1_def gen_def True] l1 "1.prems"(2) by simp
        next
          case loud: False
          obtain accepted advance pair where ts: "timestampSeek gen (int (timestampBegin (t_tokenizer l1))) sf = (accepted, advance, pair)"
            by (metis prod_cases3)
          obtain l2 dst2 segs2 e2 where ap: "appendTranscribedSegmentsAt uc ft capacity l1 dst accepted sf pair seek segs (mode \<noteq> PlainText) = (l2, dst2, segs2, e2)"
            by (metis prod_cases4)
          note d = d [unfolded if_not_P [OF loud] ts prod.case ap]
          have w1: "window_ok start ns (length segs) (length dst) (mode \<noteq> PlainText) l1 dst segs"
            using l1(1) by (auto simp: window_ok_def progress_def l1_def l0_def offsets_ok_def)
          have "eot (t_tokenizer l1) \<le> timestampBegin (t_tokenizer l1)" using l1(2) "1.prems"(2) by simp
          note s = segment_slices_ok [OF ap [unfolded appendTranscribedSegmentsAt_def] this w1]
          obtain ext where ext: "dst2 = dst @ ext" using s by blast
          obtain more where more: "segs2 = segs @ more" using s by blast
          have w2: "window_ok start ns (length segs) (length dst) (mode \<noteq> PlainText) l2 dst2 segs2" using s by blast
          have l2: "t_tokenizer l2 = t_tokenizer l" "l_recordWords l2 = (mode = WithWords)"
            using s l1 by (simp_all add: same_lane_def progress_def)
          have p2: "progress start ns nw mode l2 dst2 segs2 words"
            using l1(1) w2 l2 ext more by (fastforce simp: progress_def window_ok_def)
          show ?thesis
          proof (cases e2)
            case (Some x)
            then show ?thesis using d p2 ext by auto
          next
            case None
            note d = d [unfolded None option.case]
            show ?thesis
            proof (cases "mode = WithWords \<and> alignTokens (l_align l2) \<noteq> []")
              case False
              from d [unfolded if_not_P [OF False]]
              have "(\<exists>ext. dst' = dst2 @ ext) \<and> progress start ns nw mode l' dst' segs' words'"
                using "1.IH"(3) [OF seek sf_def l0_def Some Inr [unfolded r] refl refl refl refl refl l1_def gen_def loud ts [symmetric] refl ap [symmetric] refl refl None False] p2 l2 "1.prems"(2) by simp
              then show ?thesis using ext by auto
            next
              case wordy: True
              note d = d [unfolded if_P [OF wordy]]
              show ?thesis
              proof (cases "alignWordsForWindow m al (t_tokenizer l2) (t_logits l2) dec (l_align l2) seek sf dst2 (drop (length segs) segs2) words")
                case (Inl x)
                then show ?thesis using d p2 ext by auto
              next
                case aligned: (Inr q)
                obtain st timed_segs words2 where q: "q = (st, timed_segs, words2)" by (metis prod_cases3)
                note d = d [unfolded aligned q sum.case prod.case]
                have "l_recordWords l2" using l2 wordy by simp
                then have "offsets_ok (l_align l2) (length dst) (length dst2)"
                  "\<forall>seg\<in>set (drop (length segs) segs2). s_tokenStart seg \<le> s_tokenEnd seg \<and> s_tokenEnd seg \<le> length (alignTokens (l_align l2))"
                  using w2 by (simp_all add: window_ok_def)
                note g = align_progress [OF aligned [unfolded q] this]
                have rec: "mode \<noteq> PlainText" using wordy by simp
                have "take (length segs) segs2 = segs" "drop (length segs) segs2 = more" using more by simp_all
                note parts = this
                have "text_run start (drop ns (segs @ timed_segs)) (length dst2)"
                proof -
                  have n: "ns \<le> length segs" using l1(1) by (simp add: progress_def)
                  have "text_run start (drop ns segs @ more) (length dst2)" using w2 rec n more by (simp add: window_ok_def)
                  then obtain c where c: "text_run start (drop ns segs) c" "text_run c more (length dst2)" unfolding text_run_append by blast
                  have "map seg_text timed_segs = map seg_text more" using g parts(2) by simp
                  from text_run_eq [OF this] c(2) have "text_run c timed_segs (length dst2)" by simp
                  with c(1) have "text_run start (drop ns segs @ timed_segs) (length dst2)" unfolding text_run_append by blast
                  then show ?thesis using n by simp
                qed
                then have p3: "progress start ns nw mode (l2\<lparr>l_align := st\<rparr>) dst2 (segs @ timed_segs) words2"
                  using p2 l2 progress_words [OF l1(1) ext, of words2] g ext l1(1) by (simp add: progress_def)
                from d [unfolded parts(1)]
                have "(\<exists>ext. dst' = dst2 @ ext) \<and> progress start ns nw mode l' dst' segs' words'"
                  using "1.IH"(2) [OF seek sf_def l0_def Some Inr [unfolded r] refl refl refl refl refl l1_def gen_def loud ts [symmetric] refl ap [symmetric] refl refl None wordy aligned [unfolded q] refl refl] p3 l2 "1.prems"(2)
                  unfolding parts(1) by simp
                then show ?thesis using ext by auto
              qed
            qed
          qed
        qed
      qed
    qed
  qed
qed

section \<open>The boundaries of a finished transcript\<close>

text \<open>A range of the text, and the text in it.\<close>

definition inside :: "nat \<Rightarrow> string \<Rightarrow> nat \<times> nat \<Rightarrow> bool" where
  "inside start s r \<longleftrightarrow> start \<le> fst r \<and> fst r \<le> snd r \<and> snd r \<le> length s"

definition well_formed_slice :: "string \<Rightarrow> nat \<times> nat \<Rightarrow> bool" where
  "well_formed_slice s r \<longleftrightarrow> utf8_Valid (text_slice s (fst r) (snd r))"

definition seg_range :: "'f segment \<Rightarrow> nat \<times> nat" where
  "seg_range seg = (s_TextStart seg, s_TextEnd seg)"

definition word_range :: "'f word \<Rightarrow> nat \<times> nat" where
  "word_range w = (w_TextStart w, w_TextEnd w)"

lemma ranges_word_range: "ranges ws = map word_range ws"
  by (simp add: ranges_def word_range_def)

lemma remap_range:
  assumes "inside (length dst) (dst @ raw) (a, b)"
  shows "inside (length dst) (dst @ repair_write raw)
      (length dst + remapUTF8Boundary raw (int a - int (length dst)) False, length dst + remapUTF8Boundary raw (int b - int (length dst)) True) \<and>
    well_formed_slice (dst @ repair_write raw)
      (length dst + remapUTF8Boundary raw (int a - int (length dst)) False, length dst + remapUTF8Boundary raw (int b - int (length dst)) True)"
proof -
  have le: "length dst \<le> a" "a \<le> b" "b \<le> length dst + length raw" using assms by (simp_all add: inside_def)
  define x y where "x = a - length dst" and "y = b - length dst"
  have o: "x \<le> y" "y \<le> length raw" "int a - int (length dst) = int x" "int b - int (length dst) = int y"
    using le by (simp_all add: x_def y_def)
  from remap_between [OF o(1,2)] show ?thesis by (simp add: o inside_def well_formed_slice_def text_slice_def Let_def)
qed

lemma remap_segment_range:
  "inside (length dst) (dst @ raw) (seg_range seg) \<Longrightarrow>
    inside (length dst) (dst @ repair_write raw) (seg_range (remap_segment raw (length dst) seg)) \<and>
    well_formed_slice (dst @ repair_write raw) (seg_range (remap_segment raw (length dst) seg))"
  using remap_range by (simp add: seg_range_def remap_segment_def)

lemma remap_word_range:
  "inside (length dst) (dst @ raw) (word_range w) \<Longrightarrow>
    inside (length dst) (dst @ repair_write raw) (word_range (remap_word raw (length dst) w)) \<and>
    well_formed_slice (dst @ repair_write raw) (word_range (remap_word raw (length dst) w))"
  using remap_range by (simp add: word_range_def remap_word_def)

lemma repair_write_id: "utf8_Valid raw \<Longrightarrow> repair_write raw = raw"
  using repair_write_eq [of "[]" raw] by (simp add: appendReplacingInvalid_id)

text \<open>Finishing: with an ill-formed text every boundary is mapped, with a well-formed one none is touched.\<close>

lemma finish_ok:
  assumes f: "finish_transcript capacity (dst @ raw) (length dst) ns nw segs words = (out, segs', words', None)"
    and n: "ns \<le> length segs" "nw \<le> length words"
    and s: "\<forall>seg\<in>set (drop ns segs). inside (length dst) (dst @ raw) (seg_range seg)"
    and w: "\<forall>w\<in>set (drop nw words). inside (length dst) (dst @ raw) (word_range w)"
  shows "out = dst @ repair_write raw \<and>
    (\<forall>r\<in>seg_range ` set (drop ns segs') \<union> word_range ` set (drop nw words'). inside (length dst) out r \<and> (utf8_Valid raw \<or> well_formed_slice out r)) \<and>
    (utf8_Valid raw \<longrightarrow> segs' = segs \<and> words' = words)"
proof (cases "utf8_Valid raw")
  case True
  then show ?thesis using f s w by (auto simp: finish_transcript_def repairTranscriptionUTF8_def repair_write_id)
next
  case False
  then have "out = dst @ repair_write raw" "segs' = take ns segs @ map (remap_segment raw (length dst)) (drop ns segs)"
    "words' = take nw words @ map (remap_word raw (length dst)) (drop nw words)"
    using f by (auto simp: finish_transcript_def repairTranscriptionUTF8_def Let_def split: if_splits)
  note c = this
  have d: "drop ns segs' = map (remap_segment raw (length dst)) (drop ns segs)" "drop nw words' = map (remap_word raw (length dst)) (drop nw words)"
    using n by (simp_all add: c(2,3))
  have "inside (length dst) out r \<and> well_formed_slice out r"
    if "r \<in> seg_range ` set (map (remap_segment raw (length dst)) (drop ns segs)) \<union> word_range ` set (map (remap_word raw (length dst)) (drop nw words))" for r
    using that
  proof
    assume "r \<in> seg_range ` set (map (remap_segment raw (length dst)) (drop ns segs))"
    then obtain x where x: "x \<in> set (drop ns segs)" "r = seg_range (remap_segment raw (length dst) x)" unfolding set_map by blast
    then show ?thesis using remap_segment_range [OF bspec [OF s x(1)]] c(1) by simp
  next
    assume "r \<in> word_range ` set (map (remap_word raw (length dst)) (drop nw words))"
    then obtain x where x: "x \<in> set (drop nw words)" "r = word_range (remap_word raw (length dst) x)" unfolding set_map by blast
    then show ?thesis using remap_word_range [OF bspec [OF w x(1)]] c(1) by simp
  qed
  then have "\<forall>r\<in>seg_range ` set (drop ns segs') \<union> word_range ` set (drop nw words'). inside (length dst) out r \<and> well_formed_slice out r"
    unfolding d by blast
  then show ?thesis using False c(1) by blast
qed


text \<open>
  A lane whose only text token is the first byte of a two-byte
  sequence, which the repair replaces.
\<close>

definition broken_tokenizer :: tokenizer where
  "broken_tokenizer = stamp_tokenizer\<lparr>decoder := [''a'', [CHR 0xC3], ''c'']\<rparr>"

definition broken_policy :: "int greedyPolicy" where
  "broken_policy = stamp_policy\<lparr>p_tokenizer := broken_tokenizer, p_options := stamp_options\<lparr>DisableTimestampRules := True\<rparr>\<rparr>"

definition broken_logits :: "int \<Rightarrow> int fl list" where
  "broken_logits i = (if i = 1 then [Num 0, Num 0, Num 0, Num 7, Num 0, Num 0, Num 0, Num 0, Num 0]
     else [Num 0, Num 7, Num 0, Num 0, Num 0, Num 0, Num 0, Num 0, Num 0])"

definition broken_machine :: "(unit, unit, int) machine" where
  "broken_machine = level_machine\<lparr>m_feed := (\<lambda>d i k. Some (d, broken_logits i @ replicate (decoderVocab - 9) NaN))\<rparr>"

definition broken_lane :: "(unit, int) lane" where
  "broken_lane = \<lparr>t_tokenizer = broken_tokenizer, t_policy = broken_policy, t_logits = replicate decoderVocab NaN,
     t_history = [], t_closed = False, l_recordWords = False, l_align = \<lparr>alignTokens = [], alignOffsets = [], lastSpeechTimestamp = 0\<rparr>\<rparr>"

lemma foldl_update_append:
  "\<forall>i\<in>set is. i < length xs \<Longrightarrow> foldl (\<lambda>d i. d[i := x]) (xs @ ys) is = foldl (\<lambda>d i. d[i := x]) xs is @ ys"
proof (induction "is" arbitrary: xs)
  case (Cons i "is")
  then show ?case by (simp add: list_update_append1)
qed simp

lemma broken_select:
  "selectNextInto False scan_max int_wops (broken_policy\<lparr>sampleBegin := Suc 0\<rparr>) True (broken_logits i @ zs) (broken_logits i @ zs) h =
    (let r = selectNextInto False scan_max int_wops (broken_policy\<lparr>sampleBegin := Suc 0\<rparr>) True (broken_logits i) (broken_logits i) h in (fst r @ zs, snd r))"
proof -
  have n: "length (broken_logits i) = 9" "vocabSize (p_tokenizer broken_policy) = 9" "DisableTimestampRules (p_options broken_policy)"
    "set (suppressedIDs broken_policy) = {4}" "eot (p_tokenizer broken_policy) = 3" "spaceToken broken_policy = 0"
    by (simp_all add: broken_logits_def broken_policy_def broken_tokenizer_def stamp_policy_def stamp_tokenizer_def)
  have l: "length (foldl (\<lambda>d i. d[i := NegInf]) (broken_logits i) is) = 9" for "is"
    using n(1) by (induction "is" rule: rev_induct) simp_all
  have "filtered int_wops (broken_policy\<lparr>sampleBegin := Suc 0\<rparr>) (broken_logits i @ zs) h =
      filtered int_wops (broken_policy\<lparr>sampleBegin := Suc 0\<rparr>) (broken_logits i) h @ zs"
    by (simp add: filtered_def Let_def n foldl_update_append l list_update_append1)
  moreover have "length (filtered int_wops (broken_policy\<lparr>sampleBegin := Suc 0\<rparr>) (broken_logits i) h) = 9"
    by (simp add: filtered_def Let_def n l)
  ultimately show ?thesis by (simp add: selectNextInto_def Let_def n)
qed

lemma broken_first: "selectNextInto False scan_max int_wops (broken_policy\<lparr>sampleBegin := Suc 0\<rparr>) True (broken_logits 4) (broken_logits 4) [4] =
    ([NegInf, Num 7, Num 0, NegInf, NegInf, Num 0, Num 0, Num 0, Num 0], Inr 1)"
  by code_simp

lemma broken_second: "selectNextInto False scan_max int_wops (broken_policy\<lparr>sampleBegin := Suc 0\<rparr>) True (broken_logits 1) (broken_logits 1) [4, 1] =
    ([Num 0, Num 0, Num 0, Num 7, NegInf, Num 0, Num 0, Num 0, Num 0], Inr 3)"
  by code_simp

lemma broken_window:
  "decode_window no_letters broken_machine (transcriber.truncate (broken_lane\<lparr>t_history := [], l_align := x\<rparr>)) True [] () =
    Inr (transcriber.truncate broken_lane\<lparr>t_policy := broken_policy\<lparr>sampleBegin := Suc 0\<rparr>\<rparr>, [4, 1, 3], 1, 2, 0, 0)"
proof -
  have p: "PromptInto no_letters broken_policy (textContext + 1) [] [] [] = Inr (broken_policy\<lparr>sampleBegin := Suc 0\<rparr>, [4])"
    by code_simp
  have m: "m_accelerated broken_machine = False" "m_maxnum broken_machine = scan_max" "m_wops broken_machine = int_wops"
    "m_silent broken_machine = (\<lambda>p. 0 < p)" "m_prob broken_machine = (\<lambda>_ _. 0)"
    by (simp_all add: broken_machine_def level_machine_def)
  have n: "length (broken_logits i @ replicate (decoderVocab - 9) NaN) = decoderVocab" for i
    by (simp add: broken_logits_def decoderVocab_def)
  have feed: "decodeTokenInto broken_machine i k \<lparr>net = (), nextPos = k\<rparr> logits True = Inr (\<lparr>net = (), nextPos = k + 1\<rparr>, broken_logits i @ replicate (decoderVocab - 9) NaN)"
    if "0 \<le> i" "i < 9" "k < textContext" "length logits = decoderVocab" for i k logits
    using that by (auto simp: decodeTokenInto_def broken_machine_def decoderVocab_def)
  have t: "eot (p_tokenizer broken_policy) = 3" "sot broken_tokenizer = 4"
    by (simp_all add: broken_policy_def broken_tokenizer_def stamp_tokenizer_def)
  have z: "f_zero int_wops = 0" by (simp add: int_wops_def int_fops_def fops.defs)
  let ?p = "broken_policy\<lparr>sampleBegin := Suc 0\<rparr>"
  have len: "length (NegInf # Num 7 # Num 0 # NegInf # NegInf # Num 0 # Num 0 # Num 0 # Num 0 # replicate (decoderVocab - 9) NaN) = decoderVocab"
    by (simp add: decoderVocab_def)
  have fp: "feed_prompt broken_machine broken_tokenizer True 1 [4] 0 \<lparr>net = (), nextPos = 0\<rparr> (replicate decoderVocab NaN) 0 =
      Inr (\<lparr>net = (), nextPos = 1\<rparr>, broken_logits 4 @ replicate (decoderVocab - 9) NaN, 0)"
    using feed [of 4 0 "replicate decoderVocab NaN"] by (simp add: textContext_def t m)
  have last: "decode_loop broken_machine ?p False \<lparr>net = (), nextPos = 2\<rparr> (broken_logits 1 @ replicate (decoderVocab - 9) NaN) [4, 1] 2 0 1 = Inr ([4, 1, 3], 2, 0)"
    by (subst decode_loop.simps) (simp add: textContext_def m broken_select broken_second t Let_def)
  have loop: "decode_loop broken_machine ?p False \<lparr>net = (), nextPos = 1\<rparr> (broken_logits 4 @ replicate (decoderVocab - 9) NaN) [4] 1 0 0 = Inr ([4, 1, 3], 2, 0)"
    using feed [of 1 1, OF _ _ _ len] last [unfolded numeral_2_eq_2]
    by (subst decode_loop.simps) (simp add: textContext_def m broken_select broken_first t Let_def)
  show ?thesis
    using p fp loop by (simp add: decode_window_def broken_lane_def transcriber.defs m z)
qed

definition level_aligner :: "(unit, int) aligner" where
  "level_aligner = \<lparr>a_heads = True, a_capture = (\<lambda>d. d), a_matrix = (\<lambda>_ rows cols. replicate (rows * cols) 0), a_prob = (\<lambda>_ _. 0),
     a_time = (\<lambda>a b. int a + int b), a_mean = (\<lambda>s n. s div int n), k05 = 1, k07 = 1, k2 = 4, k4 = 8\<rparr>"

definition broken_segment :: "int segment" where
  "broken_segment = \<lparr>s_Start = 0, s_End = 1, s_TextStart = 0, s_TextEnd = 1, s_WordStart = 0, s_WordEnd = 0, s_tokenStart = 0, s_tokenEnd = 0\<rparr>"

lemma broken_rune: "DecodeRune [CHR 0xC3] = (0xFFFD, 1)" "utf8Prefix [CHR 0xC3] = (1, False)"
  by (simp_all add: DecodeRune_def lead_info_def RuneSelf_def RuneError_def utf8Prefix_def utf8_tail.simps)

lemma broken_append:
  fixes l :: "(unit, int) lane"
  assumes "t_tokenizer l = broken_tokenizer" "\<not> l_recordWords l"
  shows "appendTranscribedSegmentsAt no_letters (\<lambda>k. k) 100 l [] [1] 1 False 0 [] True =
    (l\<lparr>t_history := t_history l @ [1]\<rparr>, [CHR 0xC3], [broken_segment], None)"
proof -
  have t: "timestampBegin broken_tokenizer = 6" "vocabSize broken_tokenizer = 9" "eot broken_tokenizer = 3" "decoder broken_tokenizer ! 1 = [CHR 0xC3]"
    by (simp_all add: broken_tokenizer_def stamp_tokenizer_def)
  have f: "slice_frames 6 [1] False 1 0 = Some (0, 1)" by code_simp
  have b: "\<not> blankWhisperText no_letters [CHR 0xC3]"
    by (simp add: blankWhisperText.simps [of no_letters] broken_rune whisperSpace_def) (simp add: no_letters_def)
  have d: "decodeInto (Some broken_tokenizer) 100 [] [1] = ([CHR 0xC3], None)" by code_simp
  show ?thesis
    by (simp add: appendTranscribedSegmentsAt_def segment_slices.simps appendOneSegmentAt_def assms t [unfolded One_nat_def] f [unfolded One_nat_def] b d broken_segment_def Let_def)
qed

lemma broken_finish: "finish_transcript 100 [CHR 0xC3] 0 0 0 [broken_segment] ([] :: int word list) =
    ([CHR 0xEF, CHR 0xBF, CHR 0xBD], [broken_segment\<lparr>s_TextEnd := 3\<rparr>], [], None)"
proof -
  have v: "\<not> utf8_Valid [CHR 0xC3]" by (simp add: utf8_Valid.simps [of "[CHR 0xC3]"] broken_rune decode_bad_def RuneError_def)
  have r: "repair_write [CHR 0xC3] = [CHR 0xEF, CHR 0xBF, CHR 0xBD]"
    by (simp add: repair_write.simps [of "[CHR 0xC3]"] repair_write.simps [of "[]"] broken_rune replacement_def)
  moreover from r have "repair_need [CHR 0xC3] = 3" using length_repair [of "[CHR 0xC3]"] by simp
  moreover have "remapUTF8Boundary [CHR 0xC3] 0 False = 0" "remapUTF8Boundary [CHR 0xC3] 1 True = 3"
    by (simp_all add: remapUTF8Boundary_def remap_from.simps [of "[CHR 0xC3]"] broken_rune)
  ultimately show ?thesis using v by (simp add: finish_transcript_def repairTranscriptionUTF8_def remap_segment_def broken_segment_def)
qed

lemma broken_keep: "transcriber.truncate broken_lane\<lparr>t_policy := p\<rparr> = transcriber.truncate (broken_lane\<lparr>t_policy := p\<rparr>)"
  "t_policy (transcriber.truncate (broken_lane\<lparr>t_policy := p\<rparr>)) = p"
  by (simp_all add: transcriber.defs)

lemma broken_run:
  "transcribeFullInto no_letters broken_machine level_aligner (\<lambda>k. k) 100 broken_lane (replicate 160 ()) [] [] [] WithSegments =
    (broken_lane\<lparr>t_policy := broken_policy\<lparr>sampleBegin := Suc 0\<rparr>, t_history := [1]\<rparr>, [CHR 0xEF, CHR 0xBF, CHR 0xBD],
     [broken_segment\<lparr>s_TextEnd := 3\<rparr>], [], None)"
proof -
  have w: "m_frames broken_machine = (\<lambda>_ _ _. Some ())" "m_silent broken_machine = (\<lambda>p. 0 < p)" "f_zero (m_wops broken_machine) = 0"
    by (simp_all add: broken_machine_def level_machine_def int_wops_def int_fops_def fops.defs)
  have f: "FullFeatureFrames (length (replicate 160 ())) = Some 3001" by (simp add: FullFeatureFrames_def max_int_def)
  have s: "timestampSeek [1] 6 1 = ([1], 1, False)" by (simp add: timestampSeek_def last_pair_def)
  have t: "t_tokenizer broken_lane = broken_tokenizer" "timestampBegin broken_tokenizer = 6" "\<not> t_closed broken_lane" "\<not> l_recordWords broken_lane"
    "l_align broken_lane\<lparr>lastSpeechTimestamp := 0\<rparr> = l_align broken_lane"
    "broken_lane\<lparr>t_history := [], l_recordWords := False, l_align := l_align broken_lane\<rparr> = broken_lane"
    "t_history broken_lane = []"
    by (simp_all add: broken_lane_def broken_tokenizer_def stamp_tokenizer_def)
  have win: "decode_window no_letters broken_machine (transcriber.truncate broken_lane) True [] () =
      Inr (transcriber.truncate broken_lane\<lparr>t_policy := broken_policy\<lparr>sampleBegin := Suc 0\<rparr>\<rparr>, [4, 1, 3], 1, 2, 0, 0)"
    using broken_window [of "l_align broken_lane"] by (simp add: broken_lane_def)
  note s1 = s [unfolded One_nat_def]
  let ?l = "broken_lane\<lparr>t_policy := broken_policy\<lparr>sampleBegin := Suc 0\<rparr>\<rparr>"
  have ap: "appendTranscribedSegmentsAt no_letters (\<lambda>k. k) 100 ?l [] [1] 1 False 0 [] True =
    (?l\<lparr>t_history := [1]\<rparr>, [CHR 0xC3], [broken_segment], None)"
    using broken_append [of ?l] t by simp
  have stop: "transcribe_windows no_letters broken_machine level_aligner (\<lambda>k. k) 100 (replicate 160 ()) WithSegments 1 1
      (?l\<lparr>t_history := [1]\<rparr>) [CHR 0xC3] [broken_segment] [] = (?l\<lparr>t_history := [1]\<rparr>, [CHR 0xC3], [broken_segment], [], None)"
    by (subst transcribe_windows.simps) simp
  have "transcribe_windows no_letters broken_machine level_aligner (\<lambda>k. k) 100 (replicate 160 ()) WithSegments 1 0 broken_lane [] [] [] =
      (?l\<lparr>t_history := [1]\<rparr>, [CHR 0xC3], [broken_segment], [], None)"
    using ap stop win by (subst transcribe_windows.simps) (simp add: MelFrames_def w t s1 Let_def broken_keep)
  then show ?thesis using broken_finish
    unfolding transcribeFullInto_def f by (simp add: t w MelFrames_def)
qed


text \<open>
  Where the whole text is well-formed no boundary is mapped, so a character that two segments share stays cut:
  neither slice is well-formed.
\<close>

lemma shared_character_stays_cut:
  "finish_transcript 100 [CHR 0xC3, CHR 0xA9] 0 0 0 [broken_segment, broken_segment\<lparr>s_TextStart := 1, s_TextEnd := 2\<rparr>] ([] :: int word list) =
     ([CHR 0xC3, CHR 0xA9], [broken_segment, broken_segment\<lparr>s_TextStart := 1, s_TextEnd := 2\<rparr>], [], None)"
  "\<not> well_formed_slice [CHR 0xC3, CHR 0xA9] (seg_range broken_segment)"
proof -
  have "DecodeRune [CHR 0xC3, CHR 0xA9] = (0xE9, 2)" by (simp add: DecodeRune_def lead_info_def RuneSelf_def RuneError_def)
  then have "utf8_Valid [CHR 0xC3, CHR 0xA9]"
    by (simp add: utf8_Valid.simps [of "[CHR 0xC3, CHR 0xA9]"] utf8_Valid.simps [of "[]"] decode_bad_def)
  then show "finish_transcript 100 [CHR 0xC3, CHR 0xA9] 0 0 0 [broken_segment, broken_segment\<lparr>s_TextStart := 1, s_TextEnd := 2\<rparr>] ([] :: int word list) =
     ([CHR 0xC3, CHR 0xA9], [broken_segment, broken_segment\<lparr>s_TextStart := 1, s_TextEnd := 2\<rparr>], [], None)"
    by (simp add: finish_transcript_def repairTranscriptionUTF8_def)
  show "\<not> well_formed_slice [CHR 0xC3, CHR 0xA9] (seg_range broken_segment)"
    by (simp add: well_formed_slice_def text_slice_def seg_range_def broken_segment_def utf8_Valid.simps [of "[CHR 0xC3]"] broken_rune decode_bad_def RuneError_def)
qed

end
