(* ===== verification/Arena.thy ===== *)
theory Arena
  imports Go_Prelude
begin

text \<open>
  The scratch arena of \<^verbatim>\<open>src/internal/arena/arena.go\<close>: one mapping cut into 64-byte aligned
  regions by a bump pointer. \<open>newArena\<close> sizes the mapping for a list of region lengths,
  \<open>TakeBytes\<close> and \<open>Take\<close> hand the regions out, \<open>Close\<close> releases the mapping. The mapping
  itself (\<^verbatim>\<open>mmap.Anonymous\<close>, \<^verbatim>\<open>mmap.Unmap\<close>: system calls) is a parameter. A region is the
  pair of its first byte's offset in the mapping and its length; its capacity is its length.
  The locale \<open>region_source\<close> is the contract every client of the bump pointer relies on:
  consecutive takes give disjoint regions inside the mapping.
\<close>

section \<open>Model\<close>

datatype 'e arena_error = ErrSize | ErrMap 'e

record arena =
  data :: "byte list"
  offset :: int

type_synonym region = "int \<times> int"

text \<open>The size loop of \<open>newArena\<close>; \<open>tot\<close> is the running sum.\<close>

fun arena_total :: "int \<Rightarrow> int list \<Rightarrow> int \<Rightarrow> 'e arena_error + int" where
  "arena_total width [] tot = Inr tot"
| "arena_total width (n # ns) tot =
     (if n < 0 \<or> (max_int - 63) div width < n then Inl ErrSize
      else let size = align64 (n * width)
           in if max_int - tot < size then Inl ErrSize
              else arena_total width ns (tot + size))"

definition newArena :: "(int \<Rightarrow> 'e + byte list) \<Rightarrow> int \<Rightarrow> int list \<Rightarrow> 'e arena_error + arena" where
  "newArena anonymous width lengths =
     (case arena_total width lengths 0 of
        Inl e \<Rightarrow> Inl e
      | Inr tot \<Rightarrow>
          if tot = 0 then Inr \<lparr>data = [], offset = 0\<rparr>
          else case anonymous tot of
                 Inl e \<Rightarrow> Inl (ErrMap e)
               | Inr d \<Rightarrow> Inr \<lparr>data = d, offset = 0\<rparr>)"

definition arena_New :: "(int \<Rightarrow> 'e + byte list) \<Rightarrow> int list \<Rightarrow> 'e arena_error + arena" where
  "arena_New anonymous lengths = newArena anonymous 4 lengths"

definition arena_NewBytes :: "(int \<Rightarrow> 'e + byte list) \<Rightarrow> int list \<Rightarrow> 'e arena_error + arena" where
  "arena_NewBytes anonymous lengths = newArena anonymous 1 lengths"

text \<open>
  \<open>TakeBytes\<close> panics on a nil arena, a negative length and an exhausted mapping (\<open>None\<close>); a
  zero length gives the nil slice, the empty region at offset 0, and moves nothing.
\<close>

definition TakeBytes :: "arena option \<Rightarrow> int \<Rightarrow> (region \<times> arena option) option" where
  "TakeBytes p n =
     (case p of
        None \<Rightarrow> None
      | Some a \<Rightarrow>
          let room = int (length (data a)) - offset a in
          if n < 0 \<or> room < n \<or> max_int - 63 < n then None
          else if n = 0 then Some ((0, 0), p)
          else let size = align64 n in
               if room < size then None
               else Some ((offset a, n), Some (a\<lparr>offset := offset a + size\<rparr>)))"

text \<open>\<open>Take\<close> is in float32 units: the region it returns is the \<open>4 * n\<close> bytes of the slice.\<close>

definition Take :: "arena option \<Rightarrow> int \<Rightarrow> (region \<times> arena option) option" where
  "Take p n =
     (if n < 0 \<or> max_int div 4 < n then None else TakeBytes p (4 * n))"

definition arena_Bytes :: "arena option \<Rightarrow> int" where
  "arena_Bytes p = (case p of None \<Rightarrow> 0 | Some a \<Rightarrow> int (length (data a)))"

definition arena_Close ::
    "(byte list \<Rightarrow> 'e option) \<Rightarrow> arena option \<Rightarrow> 'e option \<times> arena option" where
  "arena_Close unmap p =
     (case p of
        None \<Rightarrow> (None, p)
      | Some a \<Rightarrow>
          if data a = [] then (None, p)
          else case unmap (data a) of
                 Some e \<Rightarrow> (Some e, p)
               | None \<Rightarrow> (None, Some \<lparr>data = [], offset = 0\<rparr>))"

text \<open>What an owner does after \<open>newArena\<close>: take the regions in the order it sized them.\<close>

fun take_all :: "('a \<Rightarrow> int \<Rightarrow> (region \<times> 'a) option) \<Rightarrow> 'a \<Rightarrow> int list \<Rightarrow> (region list \<times> 'a) option" where
  "take_all tk a [] = Some ([], a)"
| "take_all tk a (n # ns) =
     (case tk a n of
        None \<Rightarrow> None
      | Some (r, a') \<Rightarrow>
          (case take_all tk a' ns of
             None \<Rightarrow> None
           | Some (rs, a'') \<Rightarrow> Some (r # rs, a'')))"

section \<open>The contract of a bump allocator\<close>

definition region_disjoint :: "region \<Rightarrow> region \<Rightarrow> bool" where
  "region_disjoint r s \<longleftrightarrow> snd r = 0 \<or> snd s = 0 \<or> fst r + snd r \<le> fst s \<or> fst s + snd s \<le> fst r"

fun regions_disjoint :: "region list \<Rightarrow> bool" where
  "regions_disjoint [] = True"
| "regions_disjoint (r # rs) = ((\<forall>s \<in> set rs. region_disjoint r s) \<and> regions_disjoint rs)"

locale region_source =
  fixes tk :: "'a \<Rightarrow> int \<Rightarrow> (region \<times> 'a) option"
    and used :: "'a \<Rightarrow> int"
    and limit :: "'a \<Rightarrow> int"
    and ok :: "'a \<Rightarrow> bool"
  assumes tk_ok: "ok a \<Longrightarrow> tk a n = Some (r, a') \<Longrightarrow> ok a'"
    and tk_limit: "ok a \<Longrightarrow> tk a n = Some (r, a') \<Longrightarrow> limit a' = limit a"
    and tk_used: "ok a \<Longrightarrow> tk a n = Some (r, a') \<Longrightarrow> used a \<le> used a'"
    and used_limit: "ok a \<Longrightarrow> used a \<le> limit a"
    and tk_region: "ok a \<Longrightarrow> tk a n = Some (r, a') \<Longrightarrow> snd r \<noteq> 0 \<Longrightarrow>
       used a \<le> fst r \<and> 0 < snd r \<and> fst r + snd r \<le> used a' \<and> 64 dvd fst r"
begin

lemma take_all_ok: "ok a \<Longrightarrow> take_all tk a ns = Some (rs, a') \<Longrightarrow>
    ok a' \<and> limit a' = limit a \<and> used a \<le> used a'"
proof (induction ns arbitrary: a rs)
  case (Cons n ns)
  then obtain r b rs' where "tk a n = Some (r, b)" "take_all tk b ns = Some (rs', a')"
    by (auto split: option.splits)
  with Cons show ?case
    using tk_ok tk_limit tk_used by (metis order_trans)
qed simp

lemma take_all_within: "ok a \<Longrightarrow> take_all tk a ns = Some (rs, a') \<Longrightarrow> s \<in> set rs \<Longrightarrow> snd s \<noteq> 0 \<Longrightarrow>
    used a \<le> fst s \<and> 0 < snd s \<and> fst s + snd s \<le> used a' \<and> 64 dvd fst s"
proof (induction ns arbitrary: a rs)
  case (Cons n ns)
  then obtain r b rs' where t: "tk a n = Some (r, b)" "take_all tk b ns = Some (rs', a')"
      and rs: "rs = r # rs'"
    by (auto split: option.splits)
  have b: "ok b" "used a \<le> used b" using t(1) Cons.prems(1) tk_ok tk_used by blast+
  have "used b \<le> used a'" using take_all_ok [OF b(1) t(2)] by simp
  show ?case
  proof (cases "s = r")
    case True
    then show ?thesis using tk_region [OF Cons.prems(1) t(1)] Cons.prems(4) \<open>used b \<le> used a'\<close> by auto
  next
    case False
    with rs Cons.prems(3) have "s \<in> set rs'" by simp
    with Cons.IH [OF b(1) t(2)] Cons.prems(4) b(2) show ?thesis by force
  qed
qed simp

lemma take_all_disjoint: "ok a \<Longrightarrow> take_all tk a ns = Some (rs, a') \<Longrightarrow> regions_disjoint rs"
proof (induction ns arbitrary: a rs)
  case (Cons n ns)
  then obtain r b rs' where t: "tk a n = Some (r, b)" "take_all tk b ns = Some (rs', a')"
      and rs: "rs = r # rs'"
    by (auto split: option.splits)
  have b: "ok b" using t(1) Cons.prems(1) tk_ok by blast
  have "region_disjoint r s" if "s \<in> set rs'" for s
    using take_all_within [OF b t(2) that] tk_region [OF Cons.prems(1) t(1)]
    unfolding region_disjoint_def by (cases "snd r = 0"; cases "snd s = 0") auto
  with Cons.IH [OF b t(2)] rs show ?case by simp
qed simp

lemma take_all_below_limit: "ok a \<Longrightarrow> take_all tk a ns = Some (rs, a') \<Longrightarrow> s \<in> set rs \<Longrightarrow>
    snd s \<noteq> 0 \<Longrightarrow> fst s + snd s \<le> limit a"
  by (frule (3) take_all_within, drule (1) take_all_ok) (use used_limit [of a'] in auto)

end

section \<open>Correctness\<close>

definition arena_used :: "arena option \<Rightarrow> int" where
  "arena_used p = (case p of None \<Rightarrow> 0 | Some a \<Rightarrow> offset a)"

definition arena_ok :: "arena option \<Rightarrow> bool" where
  "arena_ok p = (case p of None \<Rightarrow> True
     | Some a \<Rightarrow> 0 \<le> offset a \<and> offset a \<le> int (length (data a)) \<and> 64 dvd offset a)"

lemma TakeBytes_Some:
  assumes "TakeBytes p n = Some (r, q)"
  obtains (zero) "n = 0" "r = (0, 0)" "q = p"
  | (bump) a where "p = Some a" "0 < n" "offset a + align64 n \<le> int (length (data a))"
      "r = (offset a, n)" "q = Some (a\<lparr>offset := offset a + align64 n\<rparr>)"
  using assms unfolding TakeBytes_def Let_def
  by (auto split: option.splits if_splits)

lemma TakeBytes_keeps:
  assumes "TakeBytes p n = Some (r, q)" and "arena_ok p"
  shows "arena_ok q \<and> arena_Bytes q = arena_Bytes p \<and> arena_used p \<le> arena_used q"
  using assms(1)
proof (cases rule: TakeBytes_Some)
  case zero
  with assms(2) show ?thesis by simp
next
  case (bump a)
  have "0 \<le> align64 n" using bump(2) by (simp add: align64_nonneg)
  with bump assms(2) show ?thesis
    by (simp add: arena_ok_def arena_Bytes_def arena_used_def)
qed

lemma TakeBytes_region:
  assumes "TakeBytes p n = Some (r, q)" and "arena_ok p" and "snd r \<noteq> 0"
  shows "arena_used p \<le> fst r \<and> 0 < snd r \<and> fst r + snd r \<le> arena_used q \<and> 64 dvd fst r"
  using assms(1)
proof (cases rule: TakeBytes_Some)
  case zero
  with assms(3) show ?thesis by simp
next
  case (bump a)
  with assms(2) align64_bounds(1) [of n] show ?thesis
    by (simp add: arena_ok_def arena_used_def)
qed

lemma arena_used_le_Bytes: "arena_ok p \<Longrightarrow> arena_used p \<le> arena_Bytes p"
  by (simp add: arena_ok_def arena_used_def arena_Bytes_def split: option.splits)

interpretation bytes_source: region_source TakeBytes arena_used arena_Bytes arena_ok
  by unfold_locales
    (simp_all add: TakeBytes_keeps TakeBytes_region arena_used_le_Bytes)

lemma Take_Some: "Take p n = Some (r, q) \<longleftrightarrow> 0 \<le> n \<and> n \<le> max_int div 4 \<and> TakeBytes p (4 * n) = Some (r, q)"
  by (auto simp: Take_def)

interpretation float_source: region_source Take arena_used arena_Bytes arena_ok
proof unfold_locales
  fix p q :: "arena option" and n r
  assume ok: "arena_ok p"
  show "arena_used p \<le> arena_Bytes p" using ok by (rule arena_used_le_Bytes)
  assume "Take p n = Some (r, q)"
  then have t: "TakeBytes p (4 * n) = Some (r, q)" by (simp add: Take_Some)
  show "arena_ok q" "arena_Bytes q = arena_Bytes p" "arena_used p \<le> arena_used q"
    using TakeBytes_keeps [OF t ok] by simp_all
  show "snd r \<noteq> 0 \<Longrightarrow> arena_used p \<le> fst r \<and> 0 < snd r \<and> fst r + snd r \<le> arena_used q \<and> 64 dvd fst r"
    using TakeBytes_region [OF t ok] by simp
qed

text \<open>The size loop: its total is the sum of the aligned regions, and it never overflows.\<close>

lemma arena_total_Inr:
  assumes "arena_total width ns tot = (Inr t :: 'e arena_error + int)" and "0 < width" and "0 \<le> tot" and "tot \<le> max_int"
  shows "t = tot + (\<Sum>n\<leftarrow>ns. align64 (n * width)) \<and> t \<le> max_int
    \<and> (\<forall>n \<in> set ns. 0 \<le> n \<and> n * width \<le> max_int - 63)"
  using assms
proof (induction ns arbitrary: tot)
  case (Cons n ns)
  let ?size = "align64 (n * width)"
  from Cons.prems have n: "0 \<le> n" "n \<le> (max_int - 63) div width" and sz: "?size \<le> max_int - tot"
      and rest: "arena_total width ns (tot + ?size) = (Inr t :: 'e arena_error + int)"
    by (auto simp: Let_def split: if_splits)
  have "n * width \<le> (max_int - 63) div width * width"
    using n(2) Cons.prems(2) by (intro mult_right_mono) auto
  also have "\<dots> \<le> max_int - 63"
    using Cons.prems(2) by (simp add: minus_mod_eq_div_mult [symmetric])
  finally have w: "n * width \<le> max_int - 63" .
  have "0 \<le> tot + ?size" using n(1) Cons.prems(2,3) by (simp add: align64_nonneg)
  moreover have "tot + ?size \<le> max_int" using sz by simp
  ultimately have "t = tot + ?size + (\<Sum>n\<leftarrow>ns. align64 (n * width)) \<and> t \<le> max_int
      \<and> (\<forall>n \<in> set ns. 0 \<le> n \<and> n * width \<le> max_int - 63)"
    by (rule Cons.IH [OF rest Cons.prems(2)])
  with n(1) w show ?case by simp
qed simp

lemma TakeBytes_fits:
  assumes "arena_ok (Some a)" and "0 \<le> n" and "n \<le> max_int - 63"
    and "offset a + align64 n \<le> int (length (data a))"
  shows "\<exists>r. TakeBytes (Some a) n = Some (r, Some (a\<lparr>offset := offset a + align64 n\<rparr>)) \<and> snd r = n"
  using assms align64_bounds(1) [of n]
  by (cases "n = 0") (auto simp: TakeBytes_def Let_def)

lemma take_all_fits:
  assumes "\<And>a n. arena_ok (Some a) \<Longrightarrow> 0 \<le> n \<Longrightarrow> n * width \<le> max_int - 63 \<Longrightarrow>
      offset a + align64 (n * width) \<le> int (length (data a)) \<Longrightarrow>
      \<exists>r. tk (Some a) n = Some (r, Some (a\<lparr>offset := offset a + align64 (n * width)\<rparr>)) \<and> snd r = n * width"
    and "arena_ok (Some a)" and "\<forall>n \<in> set ns. 0 \<le> n \<and> n * width \<le> max_int - 63" and "0 < width"
    and "offset a + (\<Sum>n\<leftarrow>ns. align64 (n * width)) \<le> int (length (data a))"
  shows "\<exists>rs. take_all tk (Some a) ns =
      Some (rs, Some (a\<lparr>offset := offset a + (\<Sum>n\<leftarrow>ns. align64 (n * width))\<rparr>))
      \<and> map snd rs = map (\<lambda>n. n * width) ns"
  using assms(2,3,5)
proof (induction ns arbitrary: a)
  case (Cons n ns)
  let ?b = "a\<lparr>offset := offset a + align64 (n * width)\<rparr>"
  have nonneg: "0 \<le> align64 (m * width)" if "m \<in> set (n # ns)" for m
    using that Cons.prems(2) assms(4) by (auto intro!: align64_nonneg)
  then have tail: "0 \<le> (\<Sum>m\<leftarrow>ns. align64 (m * width))" by (intro sum_list_nonneg) auto
  with Cons.prems have fit: "offset a + align64 (n * width) \<le> int (length (data a))" by simp
  with assms(1) Cons.prems obtain r where r: "tk (Some a) n = Some (r, Some ?b)" "snd r = n * width"
    by fastforce
  have "arena_ok (Some ?b)"
    using Cons.prems(1) fit nonneg [of n] by (simp add: arena_ok_def)
  then obtain rs where "take_all tk (Some ?b) ns =
      Some (rs, Some (?b\<lparr>offset := offset ?b + (\<Sum>m\<leftarrow>ns. align64 (m * width))\<rparr>))"
      "map snd rs = map (\<lambda>n. n * width) ns"
    using Cons.IH [of ?b] Cons.prems by auto
  with r show ?case by (simp add: algebra_simps)
qed simp

text \<open>
  Both element widths share the argument: an arena made for a list of lengths satisfies the
  takes of exactly these lengths, in order, and is used up by them.
\<close>

lemma newArena_fits:
  assumes "\<And>n d. anonymous n = Inr d \<Longrightarrow> int (length d) = n"
    and "newArena anonymous width ns = Inr a" and "0 < width"
  shows "arena_ok (Some a)" and "offset a = 0"
    and "int (length (data a)) = (\<Sum>n\<leftarrow>ns. align64 (n * width))"
    and "\<forall>n \<in> set ns. 0 \<le> n \<and> n * width \<le> max_int - 63"
proof -
  from assms(2) obtain t where t: "arena_total width ns 0 = (Inr t :: 'a arena_error + int)"
      and a: "a = \<lparr>data = [], offset = 0\<rparr> \<and> t = 0 \<or> (\<exists>d. anonymous t = Inr d \<and> a = \<lparr>data = d, offset = 0\<rparr>)"
    by (auto simp: newArena_def split: sum.splits if_splits)
  note tot = arena_total_Inr [OF t assms(3)]
  from a assms(1) have "offset a = 0 \<and> int (length (data a)) = t" by auto
  then show "offset a = 0" "int (length (data a)) = (\<Sum>n\<leftarrow>ns. align64 (n * width))" "arena_ok (Some a)"
      "\<forall>n \<in> set ns. 0 \<le> n \<and> n * width \<le> max_int - 63"
    using tot by (auto simp: max_int_def arena_ok_def)
qed

lemma Take_fits:
  assumes "arena_ok (Some a)" and "0 \<le> n" and "n * 4 \<le> max_int - 63"
    and "offset a + align64 (n * 4) \<le> int (length (data a))"
  shows "\<exists>r. Take (Some a) n = Some (r, Some (a\<lparr>offset := offset a + align64 (n * 4)\<rparr>)) \<and> snd r = n * 4"
proof -
  have "n \<le> max_int div 4" using assms(3) by (simp add: max_int_def)
  with TakeBytes_fits [of a "n * 4"] assms show ?thesis by (simp add: Take_def mult.commute)
qed

text \<open>
  C26: an owner that asks \<open>New\<close> for a list of float32 region lengths and then takes
  regions of these lengths in this order never panics; every region has the length asked
  for, starts on a 64-byte boundary and lies inside the mapping, no two regions overlap, and
  the takes use the mapping up exactly.
\<close>

theorem arena_New_take_all:
  assumes "\<And>n d. anonymous n = Inr d \<Longrightarrow> int (length d) = n"
    and "arena_New anonymous ns = Inr a"
  shows "\<exists>rs a'. take_all Take (Some a) ns = Some (rs, Some a')
    \<and> map snd rs = map (\<lambda>n. n * 4) ns \<and> regions_disjoint rs
    \<and> (\<forall>r \<in> set rs. snd r \<noteq> 0 \<longrightarrow> 64 dvd fst r \<and> 0 \<le> fst r \<and> fst r + snd r \<le> arena_Bytes (Some a))
    \<and> offset a' = arena_Bytes (Some a')"
proof -
  note fit = newArena_fits [OF assms(1) assms(2) [unfolded arena_New_def]]
  obtain rs where t: "take_all Take (Some a) ns = Some (rs, Some (a\<lparr>offset := int (length (data a))\<rparr>))"
      and len: "map snd rs = map (\<lambda>n. n * 4) ns"
    using take_all_fits [of 4 Take a ns] Take_fits fit by auto
  have "64 dvd fst r \<and> 0 \<le> fst r \<and> fst r + snd r \<le> arena_Bytes (Some a)"
    if "r \<in> set rs" "snd r \<noteq> 0" for r
    using float_source.take_all_within [OF fit(1) t that] float_source.take_all_below_limit [OF fit(1) t that]
      fit(1,2) by (simp add: arena_used_def)
  with t len float_source.take_all_disjoint [OF fit(1) t] show ?thesis
    by (auto simp: arena_Bytes_def)
qed

theorem arena_New_take_all_witness:
  "\<exists>a. arena_New (\<lambda>n. if n < 0 then Inl () else Inr (replicate (nat n) 0)) [1, 17] = Inr a \<and>
     (\<exists>rs a'. take_all Take (Some a) [1, 17] = Some (rs, Some a')
       \<and> map snd rs = [4, 68] \<and> regions_disjoint rs \<and> offset a' = arena_Bytes (Some a'))"
proof -
  let ?anon = "\<lambda>n. if n < 0 then Inl () else Inr (replicate (nat n) 0) :: unit + byte list"
  have c: "int (length d) = n" if "?anon n = Inr d" for n d
    using that by (auto split: if_splits)
  have a: "arena_New ?anon [1, 17] = Inr \<lparr>data = replicate 192 0, offset = 0\<rparr>"
    by (simp add: arena_New_def newArena_def Let_def max_int_def align64_eq)
  from arena_New_take_all [OF c a] a show ?thesis by auto
qed

lemma arena_total_ErrSize:
  assumes "0 < width" and "0 \<le> tot"
  shows "(arena_total width ns tot = (Inl ErrSize :: 'e arena_error + int)) \<longleftrightarrow>
    (\<exists>n \<in> set ns. n < 0 \<or> (max_int - 63) div width < n) \<or>
    max_int < tot + (\<Sum>n\<leftarrow>ns. align64 (n * width)) \<and> ns \<noteq> []"
  using assms(2)
proof (induction ns arbitrary: tot)
  case (Cons n ns)
  let ?size = "align64 (n * width)"
  show ?case
  proof (cases "n < 0 \<or> (max_int - 63) div width < n")
    case False
    then have sz: "0 \<le> ?size" using assms(1) by (simp add: align64_nonneg)
    show ?thesis
    proof (cases "\<exists>m \<in> set ns. m < 0 \<or> (max_int - 63) div width < m")
      case True
      with False Cons.IH [of "tot + ?size"] Cons.prems sz show ?thesis by (auto simp: Let_def)
    next
      case ok: False
      then have "0 \<le> (\<Sum>m\<leftarrow>ns. align64 (m * width))"
        using assms(1) by (intro sum_list_nonneg) (auto intro!: align64_nonneg simp: not_less)
      with False ok Cons.IH [of "tot + ?size"] Cons.prems sz show ?thesis
        by (cases "ns = []") (auto simp: Let_def)
    qed
  qed auto
qed simp

text \<open>
  \<open>New\<close> and \<open>NewBytes\<close> refuse a list of lengths with \<open>ErrSize\<close> exactly when a
  length is negative, a length alone overflows, or the aligned total overflows an \<open>int\<close>.
\<close>

theorem newArena_ErrSize:
  assumes "0 < width"
  shows "newArena anonymous width ns = Inl ErrSize \<longleftrightarrow>
    (\<exists>n \<in> set ns. n < 0 \<or> (max_int - 63) div width < n) \<or>
    max_int < (\<Sum>n\<leftarrow>ns. align64 (n * width))"
proof -
  have "newArena anonymous width ns = Inl ErrSize \<longleftrightarrow>
      arena_total width ns 0 = (Inl ErrSize :: 'a arena_error + int)"
    by (auto simp: newArena_def split: sum.splits if_splits)
  then show ?thesis
    using arena_total_ErrSize [OF assms, of 0 ns, where 'e = 'a] by (cases "ns = []") (auto simp: max_int_def)
qed

theorem newArena_ErrSize_witness:
  "newArena (\<lambda>n. Inr [] :: unit + byte list) 4 [3, -1] = Inl ErrSize \<and> (0::int) < 4"
  using newArena_ErrSize [of 4 "\<lambda>n. Inr [] :: unit + byte list" "[3, -1]"] by simp

lemma arena_Close_twice:
  assumes "arena_Close unmap p = (None, q)"
  shows "arena_Close unmap q = (None, q) \<and> arena_Bytes q = 0"
  using assms by (auto simp: arena_Close_def arena_Bytes_def split: option.splits if_splits)

end
