(* ===== verification/Language.thy ===== *)
theory Language
  imports Go_Text
begin

text \<open>
  Languages and language sets of \<^verbatim>\<open>src/speech/language.go\<close>. A \<open>Language\<close> is a \<open>uint8\<close> index
  into \<open>languageTable\<close>; a \<open>LanguageSet\<close> is a \<open>uint64\<close> with one bit per language. The sets
  are shown to implement finite sets of languages (locale \<open>set_impl\<close>), their enumeration to
  be the increasing list of members, and the textual form to parse back to the same set.
\<close>

section \<open>Model\<close>

type_synonym Language = "8 word"
type_synonym LanguageSet = "64 word"

definition Unknown :: Language where "Unknown = 0"
definition Filipino :: Language where "Filipino = 8"
definition numLanguages :: nat where "numLanguages = 31"

definition languageTable :: "(string \<times> string) list" where
  "languageTable = [('''', ''''),
     (''ar'', ''Arabic''), (''yue'', ''Cantonese''), (''zh'', ''Chinese''), (''cs'', ''Czech''),
     (''da'', ''Danish''), (''nl'', ''Dutch''), (''en'', ''English''), (''fil'', ''Filipino''),
     (''fi'', ''Finnish''), (''fr'', ''French''), (''de'', ''German''), (''el'', ''Greek''),
     (''hi'', ''Hindi''), (''hu'', ''Hungarian''), (''id'', ''Indonesian''), (''it'', ''Italian''),
     (''ja'', ''Japanese''), (''ko'', ''Korean''), (''mk'', ''Macedonian''), (''ms'', ''Malay''),
     (''fa'', ''Persian''), (''pl'', ''Polish''), (''pt'', ''Portuguese''), (''ro'', ''Romanian''),
     (''ru'', ''Russian''), (''es'', ''Spanish''), (''sv'', ''Swedish''), (''th'', ''Thai''),
     (''tr'', ''Turkish''), (''vi'', ''Vietnamese'')]"

text \<open>The map built by the initializer of \<open>byName\<close>, one language at a time.\<close>

definition byName_step :: "nat \<Rightarrow> (string \<rightharpoonup> Language) \<Rightarrow> (string \<rightharpoonup> Language)" where
  "byName_step l m = m(fst (languageTable ! l) \<mapsto> of_nat l,
                       ascii_lower (snd (languageTable ! l)) \<mapsto> of_nat l)"

definition byName :: "string \<rightharpoonup> Language" where
  "byName = (fold byName_step [1..<numLanguages] Map.empty)(''tl'' \<mapsto> Filipino)"

definition ParseLanguage :: "string \<Rightarrow> Language \<times> bool" where
  "ParseLanguage s =
     (if 16 < length s then (Unknown, False)
      else case byName (ascii_lower s) of None \<Rightarrow> (Unknown, False) | Some l \<Rightarrow> (l, True))"

definition Language_Code :: "Language \<Rightarrow> string" where
  "Language_Code l = (if numLanguages \<le> unat l then '''' else fst (languageTable ! unat l))"

definition Language_Name :: "Language \<Rightarrow> string" where
  "Language_Name l = (if numLanguages \<le> unat l then '''' else snd (languageTable ! unat l))"

definition Language_String :: "Language \<Rightarrow> string" where
  "Language_String l = (if Language_Name l \<noteq> '''' then Language_Name l else ''unknown'')"

definition LanguageSet_Has :: "LanguageSet \<Rightarrow> Language \<Rightarrow> bool" where
  "LanguageSet_Has s l \<longleftrightarrow> l \<noteq> Unknown \<and> unat l < numLanguages \<and> s AND push_bit (unat l) 1 \<noteq> 0"

definition LanguageSet_With :: "LanguageSet \<Rightarrow> Language \<Rightarrow> LanguageSet" where
  "LanguageSet_With s l =
     (if l = Unknown \<or> numLanguages \<le> unat l then s else s OR push_bit (unat l) 1)"

definition Languages :: "Language list \<Rightarrow> LanguageSet" where
  "Languages ls = foldl LanguageSet_With 0 ls"

definition LanguageSet_Len :: "LanguageSet \<Rightarrow> nat" where
  "LanguageSet_Len s = length (filter (bit s) [0..<64])"

text \<open>\<open>bits.TrailingZeros64\<close>: the index of the lowest set bit, 64 for zero.\<close>

definition TrailingZeros64 :: "64 word \<Rightarrow> nat" where
  "TrailingZeros64 w = length (takeWhile (\<lambda>i. \<not> bit w i) [0..<64])"

text \<open>The loop of \<open>All\<close>: yield the lowest set bit and clear it.\<close>

function LanguageSet_All :: "LanguageSet \<Rightarrow> Language list" where
  "LanguageSet_All rest =
     (if rest = 0 then []
      else of_nat (TrailingZeros64 rest) # LanguageSet_All (rest AND (rest - 1)))"
  by pat_completeness auto
termination
proof (relation "measure unat")
  fix rest :: "64 word"
  assume "rest \<noteq> 0"
  then have "unat (rest - 1) < unat rest" by (simp add: unat_minus_one unat_gt_0)
  moreover have "unat (rest AND (rest - 1)) \<le> unat (rest - 1)"
    using word_and_le1 word_le_nat_alt by blast
  ultimately show "(rest AND (rest - 1), rest) \<in> measure unat" by simp
qed simp

declare LanguageSet_All.simps [simp del]

text \<open>The comma goes in front of a code only when something is written already.\<close>

definition write_code :: "string \<Rightarrow> Language \<Rightarrow> string" where
  "write_code b l = (if b \<noteq> [] then b @ '','' else b) @ Language_Code l"

definition LanguageSet_String :: "LanguageSet \<Rightarrow> string" where
  "LanguageSet_String s = foldl write_code [] (LanguageSet_All s)"

text \<open>\<open>ParseLanguages\<close>: an error names the field it could not read.\<close>

fun parse_fields :: "LanguageSet \<Rightarrow> string list \<Rightarrow> string + LanguageSet" where
  "parse_fields s [] = Inr s"
| "parse_fields s (f # fs) =
     (let field = TrimSpace f in
      if field = '''' then parse_fields s fs
      else case ParseLanguage field of
             (l, ok) \<Rightarrow> if \<not> ok then Inl field else parse_fields (LanguageSet_With s l) fs)"

definition ParseLanguages :: "string \<Rightarrow> string + LanguageSet" where
  "ParseLanguages list = parse_fields 0 (split_on (CHR '','') list)"

section \<open>Language sets implement finite sets\<close>

locale set_impl =
  fixes empty :: 's
    and ins :: "'s \<Rightarrow> 'a \<Rightarrow> 's"
    and mem :: "'s \<Rightarrow> 'a \<Rightarrow> bool"
    and valid :: "'a \<Rightarrow> bool"
  assumes mem_empty: "\<not> mem empty x"
    and mem_ins: "mem (ins s x) y \<longleftrightarrow> (x = y \<and> valid y) \<or> mem s y"
begin

definition elems :: "'s \<Rightarrow> 'a set" where
  "elems s = {x. mem s x}"

lemma elems_foldl: "elems (foldl ins s xs) = elems s \<union> {x \<in> set xs. valid x}"
  by (induction xs arbitrary: s) (auto simp: elems_def mem_ins)

lemma elems_list: "elems (foldl ins empty xs) = {x \<in> set xs. valid x}"
  by (simp add: elems_foldl) (simp add: elems_def mem_empty)

end

definition Language_valid :: "Language \<Rightarrow> bool" where
  "Language_valid l \<longleftrightarrow> l \<noteq> Unknown \<and> unat l < numLanguages"

lemma LanguageSet_Has_bit: "LanguageSet_Has s l \<longleftrightarrow> Language_valid l \<and> bit s (unat l)"
  by (simp add: LanguageSet_Has_def Language_valid_def and_exp_eq_0_iff_not_bit)

lemma bit_With: "bit (LanguageSet_With s l) n \<longleftrightarrow> bit s n \<or> Language_valid l \<and> n = unat l"
  by (auto simp: LanguageSet_With_def Language_valid_def numLanguages_def bit_simps not_le)

interpretation lang_set: set_impl 0 LanguageSet_With LanguageSet_Has Language_valid
proof unfold_locales
  show "\<not> LanguageSet_Has 0 l" for l by (simp add: LanguageSet_Has_bit)
  show "LanguageSet_Has (LanguageSet_With s x) y \<longleftrightarrow> x = y \<and> Language_valid y \<or> LanguageSet_Has s y" for s x y
    unfolding LanguageSet_Has_bit bit_With by (metis word_unat_eq_iff)
qed

section \<open>Enumeration\<close>

text \<open>The set bits below a bound, in increasing order; \<open>rest AND (rest - 1)\<close> drops the first.\<close>

definition set_bits :: "64 word \<Rightarrow> nat list" where
  "set_bits w = filter (bit w) [0..<64]"

lemma set_bits_zero_iff: "set_bits w = [] \<longleftrightarrow> w = 0"
proof -
  have "w = 0 \<longleftrightarrow> (\<forall>n. \<not> bit w n)" by (metis bit_0_eq bit_word_eqI bot_apply bot_bool_def)
  moreover have "bit w n \<Longrightarrow> n < 64" for n using bit_imp_le_length [of w n] by simp
  ultimately show ?thesis by (auto simp: set_bits_def filter_empty_conv)
qed

lemma TrailingZeros64_least:
  assumes "w \<noteq> 0"
  shows "bit w (TrailingZeros64 w)" and "\<forall>j < TrailingZeros64 w. \<not> bit w j" and "TrailingZeros64 w < 64"
proof -
  let ?t = "TrailingZeros64 w"
  from assms obtain i where i: "i < 64" "bit w i"
    using set_bits_zero_iff [of w] by (auto simp: set_bits_def filter_empty_conv)
  have "?t \<noteq> 64"
  proof
    assume "?t = 64"
    then have "takeWhile (\<lambda>i. \<not> bit w i) [0..<64] = [0..<64]"
      by (metis TrailingZeros64_def length_upt minus_nat.diff_0 takeWhile_eq_take take_all order_refl)
    with i show False by (metis atLeastLessThan_iff set_takeWhileD set_upt zero_le)
  qed
  moreover have "?t \<le> 64" unfolding TrailingZeros64_def
    using length_takeWhile_le [of _ "[0..<64]"] by simp
  ultimately show lt: "?t < 64" by simp
  then show "bit w ?t"
    using nth_length_takeWhile [of "\<lambda>i. \<not> bit w i" "[0..<64]"] by (simp add: TrailingZeros64_def)
  show "\<forall>j < ?t. \<not> bit w j"
  proof (intro allI impI)
    fix j assume j: "j < ?t"
    then have "takeWhile (\<lambda>i. \<not> bit w i) [0..<64] ! j = j"
      using lt by (simp add: TrailingZeros64_def takeWhile_nth)
    with j show "\<not> bit w j"
      by (metis TrailingZeros64_def nth_mem set_takeWhileD)
  qed
qed

lemma bit_clear_lowest:
  fixes w :: "64 word"
  assumes "w \<noteq> 0"
  shows "bit (w AND (w - 1)) n \<longleftrightarrow> bit w n \<and> n \<noteq> TrailingZeros64 w"
proof -
  let ?t = "TrailingZeros64 w" and ?u = "w AND NOT (push_bit (TrailingZeros64 w) 1)"
  note least = TrailingZeros64_least [OF assms]
  have d1: "?u AND push_bit ?t 1 = 0" by (rule bit_word_eqI) (auto simp: bit_simps)
  have "?u + push_bit ?t 1 = ?u OR push_bit ?t 1" by (rule disjunctive_add_eq_or [OF d1])
  also have "\<dots> = w" by (rule bit_word_eqI) (use least in \<open>auto simp: bit_simps\<close>)
  finally have "w - 1 = ?u + mask ?t" by (simp add: mask_eq_exp_minus_1 algebra_simps)
  moreover have d2: "?u AND mask ?t = 0" by (rule bit_word_eqI) (use least in \<open>auto simp: bit_simps\<close>)
  ultimately have "w - 1 = ?u OR mask ?t" using disjunctive_add_eq_or by metis
  moreover have "bit w n \<Longrightarrow> n < 64" using bit_imp_le_length [of w n] by simp
  ultimately show ?thesis using least by (auto simp: bit_simps)
qed

lemma set_bits_step:
  assumes "w \<noteq> 0"
  shows "set_bits w = TrailingZeros64 w # set_bits (w AND (w - 1))"
proof -
  let ?t = "TrailingZeros64 w" and ?v = "w AND (w - 1)"
  note least = TrailingZeros64_least [OF assms]
  have split: "[0..<64] = [0..<?t] @ ?t # [Suc ?t..<64]"
    using least(3) by (metis less_imp_le upt_add_eq_append upt_conv_Cons zero_le le_add_diff_inverse)
  have "filter (bit w) [0..<?t] = []" "filter (bit ?v) [0..<?t] = []"
    using least(2) bit_clear_lowest [OF assms] by (auto simp: filter_empty_conv)
  moreover have "filter (bit ?v) [Suc ?t..<64] = filter (bit w) [Suc ?t..<64]"
    using bit_clear_lowest [OF assms] by (intro filter_cong) auto
  moreover have "bit w ?t" "\<not> bit ?v ?t" using least(1) bit_clear_lowest [OF assms] by auto
  ultimately show ?thesis unfolding set_bits_def split by simp
qed

lemma LanguageSet_All_eq: "LanguageSet_All s = map of_nat (set_bits s)"
proof (induction s rule: LanguageSet_All.induct)
  case (1 s)
  show ?case
  proof (cases "s = 0")
    case True
    then show ?thesis by (simp add: LanguageSet_All.simps set_bits_def)
  next
    case False
    with 1 show ?thesis by (subst LanguageSet_All.simps) (simp add: set_bits_step [OF False])
  qed
qed

text \<open>A set built by \<open>Languages\<close>, \<open>With\<close> or \<open>ParseLanguages\<close> has bits of known languages only.\<close>

definition LanguageSet_ok :: "LanguageSet \<Rightarrow> bool" where
  "LanguageSet_ok s \<longleftrightarrow> (\<forall>n \<in> set (set_bits s). 1 \<le> n \<and> n < numLanguages)"

lemma LanguageSet_ok_bit: "LanguageSet_ok s \<longleftrightarrow> (\<forall>n. bit s n \<longrightarrow> 1 \<le> n \<and> n < numLanguages)"
  using bit_imp_le_length [of s] by (auto simp: LanguageSet_ok_def set_bits_def)

lemma LanguageSet_ok_0 [simp]: "LanguageSet_ok 0"
  by (simp add: LanguageSet_ok_bit)

lemma Language_valid_unat: "Language_valid l \<longleftrightarrow> 1 \<le> unat l \<and> unat l < numLanguages"
  by (auto simp: Language_valid_def Unknown_def unat_gt_0 Suc_le_eq)

lemma LanguageSet_ok_With: "LanguageSet_ok s \<Longrightarrow> LanguageSet_ok (LanguageSet_With s l)"
  by (auto simp: LanguageSet_ok_bit bit_With Language_valid_unat)

lemma LanguageSet_ok_foldl: "LanguageSet_ok s \<Longrightarrow> LanguageSet_ok (foldl LanguageSet_With s ls)"
  by (induction ls arbitrary: s) (auto simp: LanguageSet_ok_With)

lemma unat_of_lang: "n < numLanguages \<Longrightarrow> unat (of_nat n :: Language) = n"
  by (simp add: numLanguages_def unat_of_nat)

lemma set_bits_sorted: "sorted (set_bits s)" "distinct (set_bits s)"
  by (simp_all add: set_bits_def sorted_wrt_filter)

lemma LanguageSet_Has_ok: "LanguageSet_ok s \<Longrightarrow> LanguageSet_Has s l \<longleftrightarrow> bit s (unat l)"
  by (auto simp: LanguageSet_Has_bit LanguageSet_ok_bit Language_valid_unat)

text \<open>
  For every list of languages, \<open>Languages\<close> builds the set whose members, tested with
  \<open>Has\<close>, are exactly the known languages of the list; \<open>All\<close> yields these members once each in
  increasing order, and \<open>Len\<close> is their number.
\<close>

theorem Languages_refines_set:
  "{l. LanguageSet_Has (Languages ls) l} = {l \<in> set ls. Language_valid l}
   \<and> set (LanguageSet_All (Languages ls)) = {l \<in> set ls. Language_valid l}
   \<and> sorted_wrt (<) (map unat (LanguageSet_All (Languages ls)))
   \<and> LanguageSet_Len (Languages ls) = card {l \<in> set ls. Language_valid l}"
proof -
  let ?s = "Languages ls"
  have ok: "LanguageSet_ok ?s" by (simp add: Languages_def LanguageSet_ok_foldl)
  have has: "{l. LanguageSet_Has ?s l} = {l \<in> set ls. Language_valid l}"
    using lang_set.elems_list [of ls] by (simp add: lang_set.elems_def Languages_def)
  have unats: "map unat (LanguageSet_All ?s) = set_bits ?s"
    using ok by (auto simp: LanguageSet_All_eq LanguageSet_ok_def unat_of_lang intro!: map_idI)
  have mem: "l \<in> set (LanguageSet_All ?s) \<longleftrightarrow> LanguageSet_Has ?s l" for l
  proof -
    have "l \<in> set (LanguageSet_All ?s) \<longleftrightarrow> unat l \<in> set (set_bits ?s)"
      unfolding unats [symmetric] by (auto simp: word_unat_eq_iff [symmetric])
    also have "\<dots> \<longleftrightarrow> bit ?s (unat l)"
      using bit_imp_le_length [of ?s "unat l"] by (auto simp: set_bits_def)
    finally show ?thesis by (simp add: LanguageSet_Has_ok [OF ok])
  qed
  have sorted: "sorted_wrt (<) (map unat (LanguageSet_All ?s))"
    unfolding unats using set_bits_sorted by (simp add: strict_sorted_iff)
  have "distinct (LanguageSet_All ?s)"
    using set_bits_sorted(2) [of ?s] unfolding unats [symmetric] by (simp add: distinct_map)
  then have "LanguageSet_Len ?s = card (set (LanguageSet_All ?s))"
    using distinct_card [of "LanguageSet_All ?s"] by (simp add: LanguageSet_Len_def LanguageSet_All_eq set_bits_def)
  moreover have "set (LanguageSet_All ?s) = {l \<in> set ls. Language_valid l}" using has mem by auto
  ultimately show ?thesis using has sorted by simp
qed

section \<open>Names\<close>

text \<open>Every known language is found by its code and by its name.\<close>

definition table_pairs :: "nat list \<Rightarrow> (string \<times> Language) list" where
  "table_pairs ls = concat (map (\<lambda>l. [(fst (languageTable ! l), of_nat l),
     (ascii_lower (snd (languageTable ! l)), of_nat l)]) ls)"

lemma fold_byName: "fold byName_step ls m = m ++ map_of (rev (table_pairs ls))"
  by (induction ls arbitrary: m) (auto simp: table_pairs_def byName_step_def fun_eq_iff map_add_def split: option.splits)

lemma table_keys: "map fst (table_pairs [1..<31]) =
  [''ar'', ''arabic'', ''yue'', ''cantonese'', ''zh'', ''chinese'', ''cs'', ''czech'',
   ''da'', ''danish'', ''nl'', ''dutch'', ''en'', ''english'', ''fil'', ''filipino'',
   ''fi'', ''finnish'', ''fr'', ''french'', ''de'', ''german'', ''el'', ''greek'',
   ''hi'', ''hindi'', ''hu'', ''hungarian'', ''id'', ''indonesian'', ''it'', ''italian'',
   ''ja'', ''japanese'', ''ko'', ''korean'', ''mk'', ''macedonian'', ''ms'', ''malay'',
   ''fa'', ''persian'', ''pl'', ''polish'', ''pt'', ''portuguese'', ''ro'', ''romanian'',
   ''ru'', ''russian'', ''es'', ''spanish'', ''sv'', ''swedish'', ''th'', ''thai'',
   ''tr'', ''turkish'', ''vi'', ''vietnamese'']"
  by code_simp

lemma table_keys_distinct: "distinct (''tl'' # map fst (table_pairs [1..<31]))"
  unfolding table_keys by simp

lemma byName_table:
  assumes "l \<in> set [1..<31]"
  shows "byName (fst (languageTable ! l)) = Some (of_nat l)"
    and "byName (ascii_lower (snd (languageTable ! l))) = Some (of_nat l)"
proof -
  let ?ps = "table_pairs [1..<31]"
  have look: "byName k = Some v" if "(k, v) \<in> set ?ps" for k v
  proof -
    have "k \<noteq> ''tl''" using that table_keys_distinct by (force simp: image_iff)
    moreover have "map_of (rev ?ps) k = Some v"
      using that table_keys_distinct by (intro map_of_is_SomeI) (simp_all add: rev_map [symmetric])
    ultimately show ?thesis by (simp add: byName_def fold_byName numLanguages_def)
  qed
  show "byName (fst (languageTable ! l)) = Some (of_nat l)"
    "byName (ascii_lower (snd (languageTable ! l))) = Some (of_nat l)"
    by (rule look, use assms in \<open>auto simp: table_pairs_def\<close>)+
qed

lemma Language_code_facts:
  "\<forall>l \<in> set [1..<31]. let c = fst (languageTable ! l); n = snd (languageTable ! l) in
     c \<noteq> [] \<and> length c \<le> 16 \<and> length n \<le> 16 \<and> ascii_lower c = c \<and> CHR '','' \<notin> set c
     \<and> is_plain (hd c) \<and> is_plain (last c)"
  by code_simp

lemma Language_table_index:
  "Language_valid l \<Longrightarrow> unat l \<in> set [1..<31]"
  by (auto simp: Language_valid_unat numLanguages_def)

lemma Code_table: "Language_valid l \<Longrightarrow> Language_Code l = fst (languageTable ! unat l)"
  by (simp add: Language_valid_unat Language_Code_def)

lemma ParseLanguage_table:
  assumes "Language_valid l"
    and "ascii_lower s = ascii_lower (Language_Code l) \<or> ascii_lower s = ascii_lower (Language_Name l)"
  shows "ParseLanguage s = (l, True)"
proof -
  let ?i = "unat l"
  note idx = Language_table_index [OF assms(1)]
  have len: "length s = length (Language_Code l) \<or> length s = length (Language_Name l)"
    using assms(2) by (metis length_ascii_lower)
  have code: "Language_Code l = fst (languageTable ! ?i)" "Language_Name l = snd (languageTable ! ?i)"
    using assms(1) by (simp_all add: Language_valid_unat Language_Code_def Language_Name_def)
  from Language_code_facts idx have facts: "length (Language_Code l) \<le> 16" "length (Language_Name l) \<le> 16"
      "ascii_lower (Language_Code l) = Language_Code l"
    unfolding code by (auto simp: Let_def)
  have "byName (ascii_lower s) = Some (of_nat ?i)"
    using assms(2) byName_table [OF idx] facts(3) unfolding code by metis
  with len facts show ?thesis by (auto simp: ParseLanguage_def)
qed

text \<open>
  \<open>ParseLanguage\<close> reads back the code and the English name of every known language, in
  any letter case.
\<close>

theorem ParseLanguage_roundtrip:
  assumes "Language_valid l"
    and "ascii_lower s = ascii_lower (Language_Code l) \<or> ascii_lower s = ascii_lower (Language_Name l)"
  shows "ParseLanguage s = (l, True)"
  using assms by (rule ParseLanguage_table)

theorem ParseLanguage_roundtrip_witness:
  "Language_valid 23 \<and> ParseLanguage ''PORTUGUESE'' = (23, True)"
proof -
  have v: "Language_valid 23" by (simp add: Language_valid_unat numLanguages_def)
  have "ascii_lower ''PORTUGUESE'' = ascii_lower (Language_Name 23)" by code_simp
  with ParseLanguage_roundtrip [of 23 "''PORTUGUESE''"] v show ?thesis by blast
qed

section \<open>The textual form of a set\<close>

lemma Code_facts:
  assumes "Language_valid l"
  shows "Language_Code l \<noteq> []" and "CHR '','' \<notin> set (Language_Code l)"
    and "TrimSpace (Language_Code l) = Language_Code l"
    and "ParseLanguage (Language_Code l) = (l, True)"
proof -
  from Language_code_facts Language_table_index [OF assms] have
    "Language_Code l \<noteq> [] \<and> CHR '','' \<notin> set (Language_Code l) \<and> is_plain (hd (Language_Code l)) \<and>
     is_plain (last (Language_Code l))"
    unfolding Code_table [OF assms] by (auto simp: Let_def)
  then show "Language_Code l \<noteq> []" "CHR '','' \<notin> set (Language_Code l)"
      "TrimSpace (Language_Code l) = Language_Code l"
    by (auto intro: TrimSpace_id)
  show "ParseLanguage (Language_Code l) = (l, True)"
    by (rule ParseLanguage_table [OF assms]) simp
qed

lemma foldl_write_code:
  "b \<noteq> [] \<Longrightarrow> foldl write_code b ls = b @ concat (map (\<lambda>l. CHR '','' # Language_Code l) ls)"
  by (induction ls arbitrary: b) (auto simp: write_code_def)

lemma split_codes:
  assumes "\<forall>l \<in> set (k # ls). Language_valid l"
  shows "split_on CHR '','' (Language_Code k @ concat (map (\<lambda>l. CHR '','' # Language_Code l) ls))
    = map Language_Code (k # ls)"
  using assms
  by (induction ls arbitrary: k) (auto simp: split_on_none split_on_append Code_facts)

lemma parse_fields_codes:
  "\<forall>l \<in> set ls. Language_valid l \<Longrightarrow> parse_fields s (map Language_Code ls) = Inr (foldl LanguageSet_With s ls)"
  by (induction ls arbitrary: s) (auto simp: Let_def Code_facts)

lemma ParseLanguages_codes:
  assumes "\<forall>l \<in> set ls. Language_valid l"
  shows "ParseLanguages (foldl write_code [] ls) = Inr (foldl LanguageSet_With 0 ls)"
proof (cases ls)
  case Nil
  then show ?thesis by (simp add: ParseLanguages_def TrimSpace_id Let_def)
next
  case (Cons k ks)
  then have "foldl write_code [] ls = Language_Code k @ concat (map (\<lambda>l. CHR '','' # Language_Code l) ks)"
    using assms foldl_write_code [of "Language_Code k" ks] Code_facts(1) by (simp add: write_code_def)
  then show ?thesis
    using assms split_codes [of k ks] parse_fields_codes [OF assms, of 0] Cons by (simp add: ParseLanguages_def)
qed

lemma bit_foldl_With:
  "bit (foldl LanguageSet_With s ls) n \<longleftrightarrow> bit s n \<or> (\<exists>l \<in> set ls. Language_valid l \<and> n = unat l)"
  by (induction ls arbitrary: s) (auto simp: bit_With)

lemma LanguageSet_All_valid: "LanguageSet_ok s \<Longrightarrow> \<forall>l \<in> set (LanguageSet_All s). Language_valid l"
  by (auto simp: LanguageSet_All_eq LanguageSet_ok_def Language_valid_unat unat_of_lang)

lemma foldl_With_All:
  assumes "LanguageSet_ok s"
  shows "foldl LanguageSet_With 0 (LanguageSet_All s) = s"
proof (rule bit_word_eqI)
  fix n :: nat assume "n < LENGTH(64)"
  have "bit (foldl LanguageSet_With 0 (LanguageSet_All s)) n \<longleftrightarrow> n \<in> unat ` set (LanguageSet_All s)"
    using LanguageSet_All_valid [OF assms] by (auto simp: bit_foldl_With)
  also have "unat ` set (LanguageSet_All s) = set (set_bits s)"
    using assms by (force simp: LanguageSet_All_eq LanguageSet_ok_def unat_of_lang image_iff)
  also have "n \<in> set (set_bits s) \<longleftrightarrow> bit s n"
    using \<open>n < LENGTH(64)\<close> by (simp add: set_bits_def)
  finally show "bit (foldl LanguageSet_With 0 (LanguageSet_All s)) n \<longleftrightarrow> bit s n" .
qed

text \<open>
  C28: the text \<open>String\<close> writes for a set of known languages is read back by
  \<open>ParseLanguages\<close> as the same set, whatever the set.
\<close>

theorem LanguageSet_String_roundtrip:
  assumes "LanguageSet_ok s"
  shows "ParseLanguages (LanguageSet_String s) = Inr s"
  unfolding LanguageSet_String_def
  using ParseLanguages_codes [OF LanguageSet_All_valid [OF assms]] foldl_With_All [OF assms] by simp

theorem LanguageSet_String_roundtrip_witness:
  "LanguageSet_ok (Languages [7, 23]) \<and>
   ParseLanguages (LanguageSet_String (Languages [7, 23])) = Inr (Languages [7, 23])"
proof -
  have "LanguageSet_ok (Languages [7, 23])" by (simp add: Languages_def LanguageSet_ok_With)
  with LanguageSet_String_roundtrip show ?thesis by blast
qed

end
