(* ===== verification/Tokenizer_Encode.thy ===== *)
theory Tokenizer_Encode
  imports Tokenizer "HOL-Library.Sublist"
begin

text \<open>
  Encoding keeps the bytes of the text. \<open>tok_wf\<close> is what \<open>EncodeInto\<close> relies on in a loaded
  tokenizer: a byte token decodes to its byte, a merged token to the two it merges, an added
  token to its content, and the merge table answers every lookup.
\<close>

section \<open>Encoding keeps the bytes\<close>

definition tok_ids :: "Tokenizer \<Rightarrow> int set" where
  "tok_ids t = {0..<int (length (pieceEnd t))}"

definition tok_wf :: "Tokenizer \<Rightarrow> bool" where
  "tok_wf t \<longleftrightarrow> table_ok (merges t)
     \<and> (\<forall>c. byteID t c \<in> tok_ids t \<and> Piece t (byteID t c) = [c])
     \<and> (\<forall>l \<in> tok_ids t. \<forall>r \<in> tok_ids t. \<forall>m. tok_get t l r = Some m \<longrightarrow>
          token m \<in> tok_ids t \<and> Piece t (token m) = Piece t l @ Piece t r)
     \<and> (\<forall>w i. trie_words (fst (added t)) w = Some i \<longrightarrow> Piece t i = w)"

lemma bpe_ref_pieces:
  assumes "\<And>l r m. l \<in> V \<Longrightarrow> r \<in> V \<Longrightarrow> get l r = Some m \<Longrightarrow> token m \<in> V \<and> P (token m) = P l @ P r"
  shows "set ts \<subseteq> V \<Longrightarrow> concat (map P (bpe_ref get ts)) = concat (map P ts) \<and> length (bpe_ref get ts) \<le> length ts"
proof (induction "length ts" arbitrary: ts rule: less_induct)
  case less
  show ?case
  proof (cases "mergeable get ts = []")
    case True
    then show ?thesis by (subst (1 2) bpe_ref.simps) simp
  next
    case False
    let ?i = "best_pair get ts"
    from best_pair_in [OF False] obtain m where i: "Suc ?i < length ts" and m: "get (ts ! ?i) (ts ! Suc ?i) = Some m"
      by (auto simp: mergeable_iff pair_merge_def)
    define rest where "rest = drop (?i + 2) ts"
    have split: "ts = take ?i ts @ ts ! ?i # ts ! Suc ?i # rest"
      using i by (simp add: rest_def Cons_nth_drop_Suc)
    have V: "ts ! ?i \<in> V" "ts ! Suc ?i \<in> V" using less.prems i by auto
    let ?us = "merge_at ts ?i (token m)"
    have us: "?us = take ?i ts @ token m # rest" by (simp add: merge_at_def rest_def)
    have "length ?us < length ts" using i by (simp add: us rest_def)
    moreover have "set ?us \<subseteq> V"
      using less.prems assms [OF V m] unfolding us rest_def by (auto dest: in_set_takeD in_set_dropD)
    ultimately have IH: "concat (map P (bpe_ref get ?us)) = concat (map P ?us)" "length (bpe_ref get ?us) \<le> length ?us"
      using less.hyps by blast+
    have "concat (map P ?us) = concat (map P ts)"
      using assms [OF V m] by (subst (2) split) (simp add: us)
    moreover have "bpe_ref get ts = bpe_ref get ?us"
      using False by (subst bpe_ref.simps) (simp add: m pair_merge_def Let_def)
    ultimately show ?thesis using IH \<open>length ?us < length ts\<close> by simp
  qed
qed

lemma encodePiece_pieces:
  assumes "tok_wf t" and "length p < 2 ^ 32" and "length out + length p \<le> cap"
  shows "\<exists>ids. encodePiece (tok_get t) cap (map (byteID t) p) out = Some (Inr (out @ ids))
    \<and> concat (map (Piece t) ids) = p \<and> length ids \<le> length p"
proof -
  let ?ids = "bpe_ref (tok_get t) (map (byteID t) p)"
  have "concat (map (Piece t) ?ids) = concat (map (Piece t) (map (byteID t) p))
      \<and> length ?ids \<le> length (map (byteID t) p)"
    using assms(1) by (intro bpe_ref_pieces [where V = "tok_ids t"]) (auto simp: tok_wf_def)
  moreover have "concat (map (Piece t) (map (byteID t) p)) = p"
    using assms(1) by (induction p) (auto simp: tok_wf_def)
  ultimately show ?thesis
    using encodePiece_ref [of "map (byteID t) p" out cap "tok_get t"] assms(2,3) by auto
qed

lemma encode_pieces_pieces:
  assumes "tok_wf t" and "\<forall>p \<in> set ps. length p < 2 ^ 32" and "length out + length (concat ps) \<le> cap"
  shows "\<exists>ids. encode_pieces t cap ps out = Some (Inr (out @ ids))
    \<and> concat (map (Piece t) ids) = concat ps \<and> length ids \<le> length (concat ps)"
  using assms(2,3)
proof (induction ps arbitrary: out)
  case (Cons p ps)
  from Cons.prems obtain ids where ids: "encodePiece (tok_get t) cap (map (byteID t) p) out = Some (Inr (out @ ids))"
      "concat (map (Piece t) ids) = p" "length ids \<le> length p"
    using encodePiece_pieces [OF assms(1), of p out cap] by auto
  from Cons.prems ids(3) obtain ids' where "encode_pieces t cap ps (out @ ids) = Some (Inr ((out @ ids) @ ids'))"
      "concat (map (Piece t) ids') = concat ps" "length ids' \<le> length (concat ps)"
    using Cons.IH [of "out @ ids"] by auto
  with ids show ?case by (intro exI [of _ "ids @ ids'"]) auto
qed simp

lemma encodeGap_pieces:
  assumes "tok_wf t" and "nm gap = gap" and "length gap < 2 ^ 32" and "length out + length gap \<le> cap"
  shows "\<exists>ids. encodeGap uc nm t cap gap out = Some (Inr (out @ ids))
    \<and> concat (map (Piece t) ids) = gap \<and> length ids \<le> length gap"
proof -
  let ?ps = "qwen_pieces uc (marks t) gap 0"
  have c: "concat ?ps = gap" using qwen_pieces_concat [of uc "marks t" gap 0] by simp
  have "\<forall>p \<in> set ?ps. length p < 2 ^ 32"
  proof
    fix p assume "p \<in> set ?ps"
    then have "length p \<le> length (concat ?ps)" by (simp add: length_concat member_le_sum_list)
    then show "length p < 2 ^ 32" using assms(3) c by simp
  qed
  from encode_pieces_pieces [OF assms(1) this, of out cap] assms(2,4) show ?thesis
    by (cases "gap = []") (simp_all add: encodeGap_def c)
qed

lemma added_match_piece:
  assumes "tok_wf t" and "matchAdded (fst (added t)) s i = (tid, e)" and "i < e"
  shows "e \<le> length s \<and> Piece t tid = take (e - i) (drop i s)"
  using matchAdded_spec [OF assms(2)] assms(1,3) by (auto simp: longest_def tok_wf_def)

lemma take_substr: "a \<le> b \<Longrightarrow> take a s @ substr s a b = take b s"
  by (simp add: substr_def flip: take_add)

lemma encode_scan_pieces:
  assumes "tok_wf t" and "\<And>g. sublist g s \<Longrightarrow> nm g = g" and "length s < 2 ^ 32" and "length s \<le> cap"
    and "gapStart \<le> i" and "i \<le> length s"
    and "concat (map (Piece t) out) = take gapStart s" and "length out \<le> gapStart"
  shows "\<exists>ids. encode_scan uc nm t cap s i gapStart out = Some (Inr ids) \<and> concat (map (Piece t) ids) = s
    \<and> length ids \<le> length s"
  using assms(5-)
proof (induction "length s - i" arbitrary: i gapStart out rule: less_induct)
  case less
  show ?case
  proof (cases "i < length s")
    case False
    have "length out + length (drop gapStart s) \<le> cap" "length (drop gapStart s) < 2 ^ 32" "nm (drop gapStart s) = drop gapStart s"
      using assms(2-4) less.prems by auto
    then obtain ids where "encodeGap uc nm t cap (drop gapStart s) out = Some (Inr (out @ ids))"
        "concat (map (Piece t) ids) = drop gapStart s" "length ids \<le> length (drop gapStart s)"
      using encodeGap_pieces [OF assms(1), of nm "drop gapStart s" out cap uc] by blast
    with less.prems False show ?thesis by (subst encode_scan.simps) auto
  next
    case True
    obtain tid e where m: "(if s ! i \<in> snd (added t) then matchAdded (fst (added t)) s i else (-1, i)) = (tid, e)"
      by (cases "if s ! i \<in> snd (added t) then matchAdded (fst (added t)) s i else (-1, i)") auto
    show ?thesis
    proof (cases "i < e")
      case e: True
      let ?g = "substr s gapStart i"
      have e': "e \<le> length s" "Piece t tid = take (e - i) (drop i s)"
        using added_match_piece [OF assms(1) _ e] m e by (auto split: if_splits)
      have "sublist ?g s" unfolding substr_def by (metis sublist_drop sublist_order.order_trans sublist_take)
      then have "nm ?g = ?g" "length ?g < 2 ^ 32" "length out + length ?g \<le> cap"
        using assms(2-4) less.prems by (auto simp: substr_def)
      then obtain ids where ids: "encodeGap uc nm t cap ?g out = Some (Inr (out @ ids))"
          "concat (map (Piece t) ids) = ?g" "length ids \<le> length ?g"
        using encodeGap_pieces [OF assms(1), of nm ?g out cap uc] by blast
      let ?out = "(out @ ids) @ [tid]"
      have l: "length (out @ ids) \<le> i" using ids(3) less.prems by (simp add: substr_def)
      have "take i s @ take (e - i) (drop i s) = take e s" using e by (simp flip: take_add)
      then have "concat (map (Piece t) ?out) = take e s"
        using take_substr [OF less.prems(1), of s] less.prems(3) ids(2) e'(2) by (simp flip: append_assoc)
      then have "\<exists>ids. encode_scan uc nm t cap s e e ?out = Some (Inr ids) \<and> concat (map (Piece t) ids) = s
          \<and> length ids \<le> length s"
        using less.hyps [of e e ?out] True e e'(1) l by simp
      moreover have "length (out @ ids) \<noteq> cap" using l True assms(4) by simp
      ultimately show ?thesis using True e ids(1) by (subst encode_scan.simps) (simp add: m)
    next
      case e: False
      let ?j = "i + max 1 (snd (DecodeRune (drop i s)))"
      have "?j \<le> length s" using DecodeRune_size_le [of "drop i s"] True by auto
      then have "\<exists>ids. encode_scan uc nm t cap s ?j gapStart out = Some (Inr ids) \<and> concat (map (Piece t) ids) = s
          \<and> length ids \<le> length s"
        using less.hyps [of ?j gapStart out] True less.prems by simp
      then show ?thesis using True e by (subst encode_scan.simps) (simp add: m)
    qed
  qed
qed

lemma EncodeInto_pieces:
  assumes "tok_wf t" and "\<And>g. sublist g s \<Longrightarrow> quick g = length g" and "length s < 2 ^ 32" and "length s \<le> cap"
  shows "\<exists>ids. EncodeInto uc quick nfc (Some t) s cap True = Some (Inr ids) \<and> concat (map (Piece t) ids) = s
    \<and> length ids \<le> length s"
proof -
  have "normalize quick nfc g = g" if "sublist g s" for g using assms(2) that by (simp add: normalize_def)
  from encode_scan_pieces [where gapStart = 0 and i = 0 and out = "[]" and uc = uc, OF assms(1) this assms(3,4)]
  show ?thesis by (simp add: EncodeInto_def)
qed

end
