(* ===== verification/Tokenizer_Load.thy ===== *)
theory Tokenizer_Load
  imports Tokenizer_Encode
begin

text \<open>
  The loader (\<open>newTokenizer\<close> and \<open>buildDecoder\<close>): it always ends, it establishes \<open>tok_wf\<close> from a
  vocabulary with distinct ids, and it accepts every consistent description.
\<close>

section \<open>The byte alphabet\<close>

lemma DecodeRune_rune_string: "r < 2048 \<Longrightarrow> DecodeRune (rune_string r @ s) = (r, length (rune_string r))"
proof -
  assume r: "r < 2048"
  show ?thesis
  proof (cases "r < 128")
    case True
    then show ?thesis by (simp add: rune_string_def DecodeRune_def RuneSelf_def)
  next
    case False
    have b: "2 \<le> r div 64" "r div 64 < 32" using False r by auto
    then have l: "lead_info (192 + r div 64) = Some (2, 128, 191)" by (simp add: lead_info_def)
    have m: "of_char (char_of (192 + r div 64)) = 192 + r div 64" "of_char (char_of (128 + r mod 64)) = 128 + r mod 64"
      using b by (simp_all add: of_char_of)
    have "(192 + r div 64) mod 32 = r div 64" "(128 + r mod 64) mod 64 = r mod 64" "r mod 64 < 64"
      using mod_mult_self1 [of "r div 64" 6 32] mod_mult_self1 [of "r mod 64" 2 64] b by (simp_all add: add.commute)
    then show ?thesis using False b l by (simp add: rune_string_def DecodeRune_def RuneSelf_def m)
  qed
qed

abbreviation unprintable_below :: "nat \<Rightarrow> nat" where
  "unprintable_below b \<equiv> length (filter (\<lambda>x. \<not> printable_byte x) [0..<b])"

lemma unprintable_below_mono: "b < c \<Longrightarrow> \<not> printable_byte b \<Longrightarrow> unprintable_below b < unprintable_below c"
proof -
  assume "b < c" and b: "\<not> printable_byte b"
  then obtain d where "c = Suc b + d" using less_iff_Suc_add by auto
  moreover have "unprintable_below (Suc b + d) = unprintable_below (Suc b) + length (filter (\<lambda>x. \<not> printable_byte x) [Suc b..<Suc b + d])"
    using upt_add_eq_append [of 0 "Suc b" d] by (simp del: upt_Suc)
  ultimately show ?thesis using b by simp
qed

lemma byte_rune_less: "b < 256 \<Longrightarrow> byte_rune b < 512"
  using length_filter_le [of "\<lambda>x. \<not> printable_byte x" "[0..<b]"] by (simp add: byte_rune_def)

lemma byte_rune_inj: "b < 256 \<Longrightarrow> c < 256 \<Longrightarrow> byte_rune b = byte_rune c \<Longrightarrow> b = c"
  using unprintable_below_mono [of b c] unprintable_below_mono [of c b]
  by (cases b c rule: linorder_cases) (auto simp: byte_rune_def split: if_splits)

lemma fold_update_inj:
  assumes "\<And>a b. a \<in> S \<Longrightarrow> b \<in> S \<Longrightarrow> f a = f b \<Longrightarrow> a = b"
  shows "set xs \<subseteq> S \<Longrightarrow> b \<in> S \<Longrightarrow> m (f b) = Some b \<or> b \<in> set xs \<Longrightarrow> fold (\<lambda>b m. m(f b \<mapsto> b)) xs m (f b) = Some b"
proof (induction xs arbitrary: m)
  case (Cons x xs)
  show ?case
  proof (cases "x = b")
    case True
    with Cons.IH [of "m(f x \<mapsto> x)"] Cons.prems show ?thesis by simp
  next
    case False
    then have "f x \<noteq> f b" using assms Cons.prems by auto
    with Cons.IH [of "m(f x \<mapsto> x)"] Cons.prems False show ?thesis by auto
  qed
qed simp

lemma alphabet_byte_rune: "b < 256 \<Longrightarrow> alphabet (byte_rune b) = Some b"
proof -
  assume b: "b < 256"
  have d: "fst (DecodeRune (buildQwenByteEncoder x)) = byte_rune x" if "x < 256" for x
    using DecodeRune_rune_string [of "byte_rune x" "[]"] byte_rune_less [OF that] by (simp add: buildQwenByteEncoder_def)
  then have "a = c" if "a < 256" "c < 256" "fst (DecodeRune (buildQwenByteEncoder a)) = fst (DecodeRune (buildQwenByteEncoder c))" for a c
    using that byte_rune_inj by metis
  then have "alphabet (fst (DecodeRune (buildQwenByteEncoder b))) = Some b"
    unfolding alphabet_def using b by (intro fold_update_inj [where S = "{..<256}"]) auto
  then show ?thesis using d [OF b] by simp
qed

lemma runes_Nil [simp]: "runes [] = []"
  by (simp add: runes.simps)

lemma piece_bytes_encoder: "b < 256 \<Longrightarrow> piece_bytes (runes (buildQwenByteEncoder b)) = Some [char_of b]"
proof -
  assume b: "b < 256"
  let ?s = "rune_string (byte_rune b)"
  have "?s \<noteq> []" by (simp add: rune_string_def)
  moreover have "DecodeRune ?s = (byte_rune b, length ?s)"
    using DecodeRune_rune_string [of "byte_rune b" "[]"] byte_rune_less [OF b] by simp
  ultimately have "runes ?s = [byte_rune b]" by (subst runes.simps) simp
  then show ?thesis using alphabet_byte_rune [OF b] byte_rune_less [OF b] by (simp add: buildQwenByteEncoder_def)
qed

section \<open>Vocabulary pieces\<close>

lemma piece_bytes_append:
  "piece_bytes xs = Some a \<Longrightarrow> piece_bytes ys = Some b \<Longrightarrow> piece_bytes (xs @ ys) = Some (a @ b)"
  by (induction xs arbitrary: a) (auto split: option.splits if_splits)

lemma runes_append:
  assumes "piece_bytes (runes s) = Some a"
  shows "runes (s @ u) = runes s @ runes u"
  using assms
proof (induction s arbitrary: a rule: runes.induct)
  case (1 s)
  show ?case
  proof (cases "s = []")
    case False
    let ?n = "snd (DecodeRune s)"
    have rs: "runes s = fst (DecodeRune s) # runes (drop ?n s)" using False by (subst runes.simps) simp
    with "1.prems" obtain a' where a': "fst (DecodeRune s) < 512" "piece_bytes (runes (drop ?n s)) = Some a'"
      by (auto split: if_splits option.splits)
    then have good: "\<not> decode_bad s" by (auto simp: decode_bad_def RuneError_def)
    have "runes (s @ u) = fst (DecodeRune (s @ u)) # runes (drop (snd (DecodeRune (s @ u))) (s @ u))"
      using False by (subst runes.simps) simp
    also have "\<dots> = fst (DecodeRune s) # runes (drop ?n s @ u)"
      using DecodeRune_append [OF good False, of u] DecodeRune_size_le [of s] by simp
    also have "\<dots> = runes s @ runes u" using "1.IH" [OF False a'(2)] rs by simp
    finally show ?thesis .
  qed simp
qed

section \<open>The loader establishes the invariant\<close>

definition content_bytes :: "bool \<Rightarrow> string \<Rightarrow> string option" where
  "content_bytes isAdded s = (if isAdded then Some s else piece_bytes (runes s))"

definition slice :: "string \<Rightarrow> nat list \<Rightarrow> nat \<Rightarrow> nat \<Rightarrow> string" where
  "slice ps ends start k = take (ends ! k - start) (drop start ps)"

lemma lay_out_grows:
  assumes "lay_out isAdded i ss ps ends = Inr (ps', ends')"
  shows "length ends' = length ends + length ss \<and> take (length ends) ends' = ends \<and> take (length ps) ps' = ps"
  using assms
proof (induction ss arbitrary: i ps ends)
  case (Cons s ss)
  obtain bs where "lay_out isAdded (i + 1) ss (ps @ bs) (ends @ [length (ps @ bs) mod 2 ^ 32]) = Inr (ps', ends')"
    using Cons.prems by (auto split: if_splits option.splits)
  from Cons.IH [OF this] show ?case
    by (metis (no_types, lifting) add_Suc_shift append_eq_conv_conj append_eq_append_conv2 append_take_drop_id
        length_Cons length_append_singleton take_add take_append)
qed simp

lemma lay_out_slice:
  assumes "lay_out isAdded i ss ps ends = Inr (ps', ends')" and "length ps' < 2 ^ 32" and "k < length ss"
  shows "content_bytes (isAdded (i + k)) (ss ! k) =
    Some (slice ps' ends' (if k = 0 then length ps else ends' ! (length ends + k - 1)) (length ends + k))"
  using assms(1,3)
proof (induction ss arbitrary: i ps ends k)
  case (Cons s ss)
  obtain bs where bs: "content_bytes (isAdded i) s = Some bs"
      and next_lay: "lay_out isAdded (i + 1) ss (ps @ bs) (ends @ [length (ps @ bs) mod 2 ^ 32]) = Inr (ps', ends')"
    using Cons.prems(1) by (auto simp: content_bytes_def split: if_splits option.splits)
  note g = lay_out_grows [OF next_lay]
  have le: "length (ps @ bs) \<le> length ps'"
    using g by (metis nat_le_linear take_all_iff order_refl)
  then have small: "length (ps @ bs) mod 2 ^ 32 = length (ps @ bs)" using assms(2) by simp
  have e0: "ends' ! length ends = length (ps @ bs)"
    using g small by (metis length_append_singleton lessI nth_append_length nth_take)
  show ?case
  proof (cases k)
    case 0
    have "take (length bs) (drop (length ps) ps') = bs"
      using g by (metis append_eq_conv_conj drop_take length_append add_diff_cancel_left')
    then show ?thesis using bs 0 e0 by (simp add: slice_def)
  next
    case (Suc j)
    with Cons.IH [OF next_lay, of j] Cons.prems(2) e0 show ?thesis by (cases j) auto
  qed
qed simp

lemma fill_vocab_at:
  assumes "fill_vocab es cs = Inr cs'"
  shows "length cs' = length cs \<and> (\<forall>e \<in> set es. 0 \<le> snd e)
    \<and> (\<forall>k. int k \<notin> snd ` set es \<longrightarrow> cs' ! k = cs ! k)
    \<and> (distinct (map snd es) \<longrightarrow> (\<forall>(p, i) \<in> set es. nat i < length cs \<longrightarrow> cs' ! nat i = p))"
  using assms
proof (induction es arbitrary: cs)
  case (Cons e es)
  obtain p i where e: "e = (p, i)" by (cases e)
  with Cons.prems have i: "0 \<le> i" "fill_vocab es (cs[nat i := p]) = Inr cs'" by (auto split: if_splits)
  note IH = Cons.IH [OF i(2)]
  have keep: "cs' ! k = cs ! k" if "int k \<notin> snd ` set (e # es)" for k
  proof -
    have "k \<noteq> nat i" using that e i(1) by auto
    then show ?thesis using IH that by simp
  qed
  have here: "cs' ! nat i = p" if "i \<notin> snd ` set es" "nat i < length cs"
  proof -
    have "int (nat i) \<notin> snd ` set es" using that(1) i(1) by simp
    then have "cs' ! nat i = cs[nat i := p] ! nat i" using IH by blast
    then show ?thesis using that(2) by simp
  qed
  show ?case using IH keep here i(1) e by auto
qed simp

lemma fold_set_at:
  assumes "distinct (map fst as)" and "\<forall>a \<in> set as. 0 \<le> fst a"
  shows "length (fold (\<lambda>(i, c, sp) cs. cs[nat i := f c sp]) as cs) = length cs
    \<and> (\<forall>k. int k \<notin> fst ` set as \<longrightarrow> fold (\<lambda>(i, c, sp) cs. cs[nat i := f c sp]) as cs ! k = cs ! k)
    \<and> (\<forall>(i, c, sp) \<in> set as. nat i < length cs \<longrightarrow> fold (\<lambda>(i, c, sp) cs. cs[nat i := f c sp]) as cs ! nat i = f c sp)"
  using assms
proof (induction as arbitrary: cs)
  case (Cons a as)
  obtain i c sp where a: "a = (i, c, sp)" by (cases a)
  let ?f = "fold (\<lambda>(i, c, sp) cs. cs[nat i := f c sp]) as (cs[nat i := f c sp])"
  have IH: "length ?f = length cs" "\<forall>k. int k \<notin> fst ` set as \<longrightarrow> ?f ! k = cs[nat i := f c sp] ! k"
      "\<forall>(j, d, sq) \<in> set as. nat j < length cs \<longrightarrow> ?f ! nat j = f d sq"
    using Cons.IH [of "cs[nat i := f c sp]"] Cons.prems by simp_all
  have i: "0 \<le> i" "i \<notin> fst ` set as" using Cons.prems a by auto
  have "?f ! k = cs ! k" if "int k \<notin> fst ` set (a # as)" for k
  proof -
    have "k \<noteq> nat i" using that a i(1) by auto
    then show ?thesis using IH(2) that by simp
  qed
  moreover have "?f ! nat i = f c sp" if "nat i < length cs"
    using IH(2) i that by simp
  ultimately show ?case using IH(1,3) a by auto
qed simp

lemma fold_max_mono: "n \<le> fold (\<lambda>e n. max n (g e + 1)) xs (n :: int)"
proof (induction xs arbitrary: n)
  case (Cons y xs)
  show ?case using Cons.IH [of "max n (g y + 1)"] by simp
qed simp

lemma fold_max_mem: "x \<in> set xs \<Longrightarrow> g x < fold (\<lambda>e n. max n (g e + 1)) xs (n :: int)"
proof (induction xs arbitrary: n)
  case (Cons y xs)
  then show ?case using fold_max_mono [of "max n (g y + 1)" g xs] by auto
qed simp

lemma decoder_size_bounds:
  shows "e \<in> set vocab \<Longrightarrow> snd e < decoder_size vocab as" and "a \<in> set as \<Longrightarrow> fst a < decoder_size vocab as"
    and "0 \<le> decoder_size vocab as"
  using fold_max_mem [of e vocab snd 0] fold_max_mem [of a as fst] fold_max_mono [of 0 snd vocab]
    fold_max_mono [of "fold (\<lambda>e n. max n (snd e + 1)) vocab 0" fst as]
  by (auto simp: decoder_size_def)

lemma buildDecoder_pieces:
  assumes "buildDecoder vocab as = Inr (ps, ends, spec)" and "length ps < 2 ^ 32" and "distinct (map snd vocab)"
    and "distinct (map fst as)" and "\<forall>a \<in> set as. 0 \<le> fst a" and "fst ` set as \<inter> snd ` set vocab = {}"
    and "pieces t = ps" and "pieceEnd t = ends"
  shows "int (length ends) \<le> 2 ^ 24"
    and "(p, i) \<in> set vocab \<Longrightarrow> i \<in> tok_ids t \<and> piece_bytes (runes p) = Some (Piece t i)"
    and "(i, c, sp) \<in> set as \<Longrightarrow> i \<in> tok_ids t \<and> Piece t i = c"
proof -
  let ?n = "decoder_size vocab as" and ?isAdded = "\<lambda>k. int k \<in> fst ` set as"
  obtain cs0 where n: "?n \<le> 2 ^ 24" and fill: "fill_vocab vocab (replicate (nat ?n) []) = Inr cs0"
      and lay: "lay_out ?isAdded 0 (fold (\<lambda>(i, c, sp) cs. cs[nat i := c]) as cs0) [] [] = Inr (ps, ends)"
    using assms(1) by (auto simp: buildDecoder_def Let_def not_less split: if_splits sum.splits)
  define cs where "cs = fold (\<lambda>(i, c, sp) cs. cs[nat i := c]) as cs0"
  note f = fill_vocab_at [OF fill]
  note g = fold_set_at [OF assms(4,5), of "\<lambda>c sp. c" cs0, folded cs_def]
  have len: "length cs = nat ?n" "length ends = nat ?n"
    using f g lay_out_grows [OF lay] cs_def by auto
  then show "int (length ends) \<le> 2 ^ 24" using n decoder_size_bounds(3) by simp
  have piece: "content_bytes (?isAdded k) (cs ! k) = Some (Piece t (int k))" if "k < nat ?n" for k
    using lay_out_slice [OF lay [folded cs_def] assms(2), of k] that len assms(7,8)
    by (auto simp: Piece_def slice_def Let_def)
  show "(p, i) \<in> set vocab \<Longrightarrow> i \<in> tok_ids t \<and> piece_bytes (runes p) = Some (Piece t i)"
  proof -
    assume v: "(p, i) \<in> set vocab"
    then have "i \<in> snd ` set vocab" by force
    then have i: "0 \<le> i" "i < ?n" "i \<notin> fst ` set as"
      using f v decoder_size_bounds(1) [OF v, of as] assms(6) by auto
    then have "int (nat i) \<notin> fst ` set as" "nat i < nat ?n" by auto
    moreover from this have "cs ! nat i = p" using f g v assms(3) by auto
    ultimately show ?thesis using piece [of "nat i"] i(1,2) len assms(8)
      by (simp add: content_bytes_def tok_ids_def)
  qed
  show "(i, c, sp) \<in> set as \<Longrightarrow> i \<in> tok_ids t \<and> Piece t i = c"
  proof -
    assume a: "(i, c, sp) \<in> set as"
    then have i: "0 \<le> i" "i < ?n" "i \<in> fst ` set as" using decoder_size_bounds(2) [OF a] assms(5) by force+
    then have "nat i < nat ?n" by simp
    moreover from this have "cs ! nat i = c" using f g a len by auto
    ultimately show ?thesis using piece [of "nat i"] i len assms(8)
      by (simp add: content_bytes_def tok_ids_def)
  qed
qed

lemma load_bytes_at:
  assumes "load_bytes vocab bs ids = Inr ids'" and "set bs \<subseteq> {..<256}"
  shows "(\<forall>b < 256. b \<notin> set bs \<longrightarrow> ids' (char_of b) = ids (char_of b))
    \<and> (distinct bs \<longrightarrow> (\<forall>b \<in> set bs. vocab (buildQwenByteEncoder b) = Some (ids' (char_of b))))"
  using assms
proof (induction bs arbitrary: ids)
  case (Cons b bs)
  from Cons.prems obtain i where i: "vocab (buildQwenByteEncoder b) = Some i"
      "load_bytes vocab bs (ids(char_of b := i)) = Inr ids'" by (auto split: option.splits)
  have eq: "char_of c = (char_of b :: char) \<longleftrightarrow> c = b" if "c < 256" for c :: nat
    using that Cons.prems(2) by (metis insert_subset lessThan_iff list.set(2) mod_less of_char_of)
  have IH: "\<forall>c < 256. c \<notin> set bs \<longrightarrow> ids' (char_of c) = (ids(char_of b := i)) (char_of c)"
      "distinct bs \<longrightarrow> (\<forall>b \<in> set bs. vocab (buildQwenByteEncoder b) = Some (ids' (char_of b)))"
    using Cons.IH [OF i(2)] Cons.prems(2) by simp_all
  have "ids' (char_of c) = ids (char_of c)" if "c < 256" "c \<notin> set (b # bs)" for c
    using IH(1) that eq [OF that(1)] by simp
  moreover have "ids' (char_of b) = i" if "b \<notin> set bs" using IH(1) Cons.prems(2) that by simp
  ultimately show ?case using IH(2) i(1) by auto
qed simp

section \<open>Merges\<close>

abbreviation int32_id :: "int \<Rightarrow> bool" where
  "int32_id i \<equiv> 0 \<le> i \<and> i < 2 ^ 31"

lemma qwenPair_uint: "int32_id l \<Longrightarrow> int32_id r \<Longrightarrow> uint (qwenPair l r) = l * 2 ^ 32 + r"
proof -
  assume a: "int32_id l" "int32_id r"
  let ?l = "ucast (word_of_int l :: 32 word) :: 64 word" and ?r = "ucast (word_of_int r :: 32 word) :: 64 word"
  have l: "uint ?l = l" and r: "uint ?r = r" using a by (simp_all add: uint_word_of_int unsigned_ucast_eq take_bit_eq_mod)
  have "take_bit 32 r = r" using a by (simp add: take_bit_eq_mod)
  have "uint (qwenPair l r) = take_bit 64 (push_bit 32 l) OR r"
    unfolding qwenPair_def unsigned_or_eq unsigned_push_bit_eq l r by simp
  also have "\<dots> = concat_bit 32 r l"
    using a \<open>take_bit 32 r = r\<close> by (simp add: concat_bit_def or.commute push_bit_eq_mult take_bit_eq_mod)
  also have "\<dots> = l * 2 ^ 32 + r"
    using \<open>take_bit 32 r = r\<close> by (simp add: concat_bit_eq push_bit_eq_mult)
  finally show ?thesis .
qed

lemma qwenPair_ok: "int32_id l \<Longrightarrow> int32_id r \<Longrightarrow> okkey (qwenPair l r)"
proof
  assume a: "int32_id l" "int32_id r" and "qwenPair l r + 1 = 0"
  then have "qwenPair l r = - 1" by (metis eq_neg_iff_add_eq_0)
  then have "uint (qwenPair l r) = 2 ^ 64 - 1" by (simp only: uint_word_ariths) simp
  then show False using qwenPair_uint [OF a] a by simp
qed

lemma qwenPair_inj:
  assumes "int32_id l" "int32_id r" "int32_id l'" "int32_id r'" "qwenPair l r = qwenPair l' r'"
  shows "l = l' \<and> r = r'"
proof -
  have "l * 2 ^ 32 + r = l' * 2 ^ 32 + r'" using assms qwenPair_uint by metis
  then have e: "l * 4294967296 + r = l' * 4294967296 + r'" by simp
  moreover have "l = l'"
  proof (cases l l' rule: linorder_cases)
    case less then show ?thesis using e assms(2,4) by simp
  next
    case greater then show ?thesis using e assms(2,4) by simp
  qed simp
  ultimately show ?thesis by simp
qed

definition vocab_merge :: "(string \<rightharpoonup> int) \<Rightarrow> 64 word \<Rightarrow> qwenMerge \<Rightarrow> bool" where
  "vocab_merge vocab k m \<longleftrightarrow>
     (\<exists>a b l r. vocab a = Some l \<and> vocab b = Some r \<and> vocab (a @ b) = Some (token m) \<and> k = qwenPair l r)"

lemma load_merges_ok:
  assumes "\<And>p i. vocab p = Some i \<Longrightarrow> int32_id i" and "table_ok t" and "length ps < table_room t"
  shows "\<exists>x. load_merges vocab ps r t = Some x \<and>
    (\<forall>t'. x = Inr t' \<longrightarrow> table_ok t' \<and> (\<forall>k m. table_map t' k = Some m \<longrightarrow> table_map t k = Some m \<or> vocab_merge vocab k m))"
  using assms(2,3)
proof (induction ps arbitrary: r t)
  case (Cons p ps)
  obtain a b where p: "p = (a, b)" by (cases p)
  show ?case
  proof (cases "\<exists>left right merged. vocab a = Some left \<and> vocab b = Some right \<and> vocab (a @ b) = Some merged")
    case False
    then have "load_merges vocab (p # ps) r t = Some (Inl (MergeMissing r))"
      unfolding p by (auto split: option.splits)
    then show ?thesis by simp
  next
    case True
    then obtain left right merged where v: "vocab a = Some left" "vocab b = Some right" "vocab (a @ b) = Some merged"
      by blast
    let ?k = "qwenPair left right" and ?v = "\<lparr>rank = r mod 2 ^ 32, token = merged\<rparr>"
    have k: "okkey ?k" using assms(1) v qwenPair_ok by blast
    show ?thesis
    proof (cases "table_map t ?k")
      case (Some m)
      then have "merge_insert t ?k ?v = Some (t, False)" using merge_table.ins_dup [OF Cons.prems(1) k] by simp
      then show ?thesis using v p by simp
    next
      case None
      have "1 < table_room t" using Cons.prems(2) by simp
      from merge_table.ins_new [OF Cons.prems(1) k None this] obtain t1 where
        t1: "merge_insert t ?k ?v = Some (t1, True)" "table_ok t1" "table_map t1 = (table_map t)(?k \<mapsto> ?v)"
          "table_room t = Suc (table_room t1)" by blast
      have "load_merges vocab (p # ps) r t = load_merges vocab ps (r + 1) t1" using v p t1(1) by simp
      moreover obtain x where x: "load_merges vocab ps (r + 1) t1 = Some x"
          "\<And>t' k m. x = Inr t' \<Longrightarrow> table_ok t' \<and> (table_map t' k = Some m \<longrightarrow> table_map t1 k = Some m \<or> vocab_merge vocab k m)"
        using Cons.IH [OF t1(2), of "r + 1"] Cons.prems(2) t1(4) by auto
      moreover have "vocab_merge vocab ?k ?v" using v by (auto simp: vocab_merge_def)
      ultimately show ?thesis using t1(3) by (fastforce split: if_splits)
    qed
  qed
qed simp

lemma load_added_list:
  assumes "load_added as ts = Inr ts'"
  shows "(\<forall>(i, c, sp) \<in> set as. c \<noteq> [] \<and> 0 \<le> i) \<and> added.add_list ts (map (\<lambda>(i, c, sp). (c, i)) as) = Inr ts'"
  using assms
proof (induction as arbitrary: ts)
  case (Cons a as)
  obtain i c sp where a: "a = (i, c, sp)" by (cases a)
  with Cons.prems obtain u where "c \<noteq> []" "0 \<le> i" "addAddedToken ts c i = Inr u" "load_added as u = Inr ts'"
    by (auto split: if_splits sum.splits)
  then show ?case using Cons.IH [of u] a by simp
qed simp

lemma load_added_words:
  assumes "added_ok ts" and "load_added as ts = Inr ts'"
  shows "added_ok ts' \<and> (\<forall>a \<in> set as. 0 \<le> fst a)
    \<and> (\<forall>w i. trie_words (fst ts') w = Some i \<longleftrightarrow> trie_words (fst ts) w = Some i \<or> (\<exists>sp. (i, w, sp) \<in> set as))"
proof -
  note l = load_added_list [OF assms(2)]
  then have "\<forall>(w, i) \<in> set (map (\<lambda>(i, c, sp). (c, i)) as). w \<noteq> [] \<and> 0 \<le> i" by auto
  from added.add_list_words [OF assms(1) this] l
  have "added_ok ts'" "\<And>w i. trie_words (fst ts') w = Some i \<longleftrightarrow>
      trie_words (fst ts) w = Some i \<or> (w, i) \<in> set (map (\<lambda>(i, c, sp). (c, i)) as)" by blast+
  moreover have "(w, i) \<in> set (map (\<lambda>(i, c, sp). (c, i)) as) \<longleftrightarrow> (\<exists>sp. (i, w, sp) \<in> set as)" for w i
    by force
  ultimately show ?thesis using l by auto
qed

lemma newTokenizer_wf:
  assumes "newTokenizer vocab mgs as = Some (Inr t)"
    and "distinct (map fst vocab)" and "distinct (map snd vocab)" and "distinct (map fst as)"
    and "fst ` set as \<inter> snd ` set vocab = {}"
    and "length mgs < 2 ^ 32" and "length (pieces t) < 2 ^ 32"
  shows "tok_wf t"
proof -
  obtain ids tbl ts ps ends spec where
      b: "load_bytes (map_of vocab) [0..<256] (\<lambda>_. 0) = Inr ids"
      and m: "load_merges (map_of vocab) mgs 0 (newMergeTable (length mgs)) = Some (Inr tbl)"
      and a: "load_added as ([empty_node], {}) = Inr ts"
      and d: "buildDecoder vocab as = Inr (ps, ends, spec)"
      and t: "byteID t = ids" "merges t = tbl" "added t = ts" "pieces t = ps" "pieceEnd t = ends"
    using assms(1) by (auto simp: newTokenizer_def split: if_splits sum.splits option.splits)
  have words: "\<forall>a \<in> set as. 0 \<le> fst a" "\<And>w i. trie_words (fst ts) w = Some i \<Longrightarrow> \<exists>sp. (i, w, sp) \<in> set as"
    using load_added_words [OF empty_trie_ok(1) a] empty_trie_ok(2) by simp_all
  note D = buildDecoder_pieces [OF d _ assms(3,4) words(1) assms(5) t(4,5)]
  have len: "length ps < 2 ^ 32" using assms(7) t(4) by simp
  have vp: "i \<in> tok_ids t" "piece_bytes (runes p) = Some (Piece t i)" if "map_of vocab p = Some i" for p i
    using D(2) [OF len map_of_SomeD [OF that]] by simp_all
  have small: "int32_id i" if "i \<in> tok_ids t" for i
    using that D(1) [OF len] t(5) by (simp add: tok_ids_def)
  have tbl: "table_ok tbl" "\<And>k m. table_map tbl k = Some m \<Longrightarrow> vocab_merge (map_of vocab) k m"
    using load_merges_ok [of "map_of vocab" "newMergeTable (length mgs)" mgs 0] newMergeTable_ok [OF assms(6)] m vp(1) small
    by auto
  have "byteID t c \<in> tok_ids t \<and> Piece t (byteID t c) = [c]" for c
  proof -
    have "of_char c < (256 :: nat)" by simp
    then have "map_of vocab (buildQwenByteEncoder (of_char c)) = Some (byteID t c)"
      using load_bytes_at [OF b] t(1) by (fastforce simp: atLeast0LessThan)
    from vp [OF this] show ?thesis using piece_bytes_encoder [of "of_char c"] by simp
  qed
  moreover have "token mm \<in> tok_ids t \<and> Piece t (token mm) = Piece t l @ Piece t r"
    if lr: "l \<in> tok_ids t" "r \<in> tok_ids t" and g: "tok_get t l r = Some mm" for l r mm
  proof -
    have "okkey (qwenPair l r)" using lr small qwenPair_ok by blast
    then have "table_map tbl (qwenPair l r) = Some mm"
      using g merge_table.get_abs [OF tbl(1)] t(2) by (auto simp: tok_get_def split: option.splits)
    then obtain x y l' r' where v: "map_of vocab x = Some l'" "map_of vocab y = Some r'"
        "map_of vocab (x @ y) = Some (token mm)" "qwenPair l r = qwenPair l' r'"
      using tbl(2) unfolding vocab_merge_def by blast
    then have lr': "l' = l" "r' = r" using qwenPair_inj lr small vp(1) by metis+
    have "runes (x @ y) = runes x @ runes y" using runes_append vp(2) [OF v(1)] by blast
    then have "piece_bytes (runes (x @ y)) = Some (Piece t l @ Piece t r)"
      using piece_bytes_append vp(2) [OF v(1)] vp(2) [OF v(2)] lr' by simp
    then show ?thesis using vp [OF v(3)] by simp
  qed
  moreover have "Piece t i = w" if "trie_words (fst (added t)) w = Some i" for w i
    using words(2) that D(3) [OF len] t(3) by blast
  ultimately show ?thesis using tbl(1) t(2) unfolding tok_wf_def by blast
qed

lemma newTokenizer_returns:
  assumes "\<forall>(p, i) \<in> set vocab. int32_id i" and "length mgs < 2 ^ 32"
  shows "\<exists>r. newTokenizer vocab mgs as = Some r"
proof -
  have "int32_id i" if "map_of vocab p = Some i" for p i using assms(1) map_of_SomeD [OF that] by auto
  then obtain x where "load_merges (map_of vocab) mgs 0 (newMergeTable (length mgs)) = Some x"
    using load_merges_ok [of "map_of vocab" "newMergeTable (length mgs)" mgs 0] newMergeTable_ok(1,3) [OF assms(2)] by blast
  then show ?thesis by (auto simp: newTokenizer_def split: sum.splits)
qed

section \<open>The loader accepts well-formed descriptions\<close>

lemma load_bytes_Inr:
  "\<forall>b \<in> set bs. vocab (buildQwenByteEncoder b) \<noteq> None \<Longrightarrow> \<exists>ids'. load_bytes vocab bs ids = Inr ids'"
  by (induction bs arbitrary: ids) auto

definition merge_entries :: "(string \<rightharpoonup> int) \<Rightarrow> (string \<times> string) list \<Rightarrow> nat \<Rightarrow> (64 word \<times> qwenMerge) list" where
  "merge_entries vocab ps r =
     map (\<lambda>(k, a, b). (qwenPair (the (vocab a)) (the (vocab b)), \<lparr>rank = k mod 2 ^ 32, token = the (vocab (a @ b))\<rparr>))
       (zip [r..<r + length ps] ps)"

lemma merge_entries_Cons:
  "merge_entries vocab ((a, b) # ps) r =
     (qwenPair (the (vocab a)) (the (vocab b)), \<lparr>rank = r mod 2 ^ 32, token = the (vocab (a @ b))\<rparr>)
     # merge_entries vocab ps (r + 1)"
proof -
  have "[r..<r + length ((a, b) # ps)] = r # [r + 1..<(r + 1) + length ps]" by (simp add: upt_conv_Cons del: upt_Suc)
  then show ?thesis by (simp add: merge_entries_def del: upt_Suc)
qed

lemma merge_entries_keys: "map fst (merge_entries vocab ps r) = map (\<lambda>(a, b). qwenPair (the (vocab a)) (the (vocab b))) ps"
  by (induction ps arbitrary: r) (auto simp: merge_entries_Cons, simp add: merge_entries_def)

lemma load_merges_ins_all:
  assumes "\<forall>(a, b) \<in> set ps. vocab a \<noteq> None \<and> vocab b \<noteq> None \<and> vocab (a @ b) \<noteq> None"
    and "merge_table.ins_all t (merge_entries vocab ps r) = Some t'"
  shows "load_merges vocab ps r t = Some (Inr t')"
  using assms
proof (induction ps arbitrary: r t)
  case Nil
  then show ?case by (simp add: merge_entries_def)
next
  case (Cons p ps)
  obtain a b where p: "p = (a, b)" by (cases p)
  obtain l u m where v: "vocab a = Some l" "vocab b = Some u" "vocab (a @ b) = Some m" using Cons.prems(1) p by auto
  from Cons.prems(2) obtain t1 where t1: "merge_insert t (qwenPair l u) \<lparr>rank = r mod 2 ^ 32, token = m\<rparr> = Some (t1, True)"
      "merge_table.ins_all t1 (merge_entries vocab ps (r + 1)) = Some t'"
    unfolding p by (auto simp: merge_entries_Cons v split: option.splits bool.splits)
  then show ?case using Cons.IH [OF _ t1(2)] Cons.prems(1) v p by simp
qed

lemma load_merges_Inr:
  assumes "\<And>p i. vocab p = Some i \<Longrightarrow> int32_id i" and "\<And>p q i. vocab p = Some i \<Longrightarrow> vocab q = Some i \<Longrightarrow> p = q"
    and "\<forall>(a, b) \<in> set ps. vocab a \<noteq> None \<and> vocab b \<noteq> None \<and> vocab (a @ b) \<noteq> None"
    and "distinct ps" and "length ps < 2 ^ 32"
  shows "\<exists>t. load_merges vocab ps 0 (newMergeTable (length ps)) = Some (Inr t)"
proof -
  let ?t = "newMergeTable (length ps)" and ?es = "merge_entries vocab ps 0" and ?k = "\<lambda>(a, b). qwenPair (the (vocab a)) (the (vocab b))"
  have id32: "int32_id (the (vocab a))" if "vocab a \<noteq> None" for a using that assms(1) by auto
  have keys: "map fst ?es = map ?k ps" by (rule merge_entries_keys)
  have "inj_on ?k (set ps)"
  proof (rule inj_onI, clarify)
    fix a b c d assume ab: "(a, b) \<in> set ps" and cd: "(c, d) \<in> set ps"
      and eq: "qwenPair (the (vocab a)) (the (vocab b)) = qwenPair (the (vocab c)) (the (vocab d))"
    then have v: "vocab a \<noteq> None" "vocab b \<noteq> None" "vocab c \<noteq> None" "vocab d \<noteq> None" using assms(3) by auto
    then have "the (vocab a) = the (vocab c)" "the (vocab b) = the (vocab d)" using qwenPair_inj id32 eq by metis+
    then show "a = c \<and> b = d" using v assms(2) by (metis option.exhaust_sel)
  qed
  then have dist: "distinct (map fst ?es)" using assms(4) keys by (simp add: distinct_map)
  have "okkey k" if k: "k \<in> set (map fst ?es)" for k
  proof -
    obtain a b where "(a, b) \<in> set ps" and kab: "k = qwenPair (the (vocab a)) (the (vocab b))"
      using k unfolding keys by auto
    then have "vocab a \<noteq> None" "vocab b \<noteq> None" using assms(3) by auto
    then show ?thesis unfolding kab by (intro qwenPair_ok id32)
  qed
  then have "\<forall>(k, v) \<in> set ?es. okkey k \<and> table_map ?t k = None"
    using newMergeTable_ok(2) [OF assms(5)] by force
  moreover have "length ?es < table_room ?t" using newMergeTable_ok(3) [OF assms(5)] keys by (metis length_map)
  ultimately obtain t' where "merge_table.ins_all ?t ?es = Some t'"
    using merge_table.ins_all_map [OF newMergeTable_ok(1) [OF assms(5)] _ dist] by blast
  with load_merges_ins_all [OF assms(3)] show ?thesis by blast
qed

lemma lay_out_Inr:
  assumes "\<forall>k < length ss. content_bytes (isAdded (i + k)) (ss ! k) \<noteq> None"
  shows "\<exists>r. lay_out isAdded i ss ps ends = Inr r"
  using assms
proof (induction ss arbitrary: i ps ends)
  case (Cons s ss)
  from Cons.prems have "content_bytes (isAdded i) s \<noteq> None" by force
  then obtain bs where bs: "content_bytes (isAdded i) s = Some bs" by auto
  have "\<forall>k < length ss. content_bytes (isAdded (i + 1 + k)) (ss ! k) \<noteq> None"
  proof (intro allI impI)
    fix k assume "k < length ss"
    then show "content_bytes (isAdded (i + 1 + k)) (ss ! k) \<noteq> None" using Cons.prems [rule_format, of "Suc k"] by simp
  qed
  note IH = Cons.IH [OF this]
  show ?case using bs IH by (auto simp: content_bytes_def split: if_splits)
qed simp

lemma fill_vocab_Inr: "\<forall>e \<in> set es. 0 \<le> snd e \<Longrightarrow> \<exists>cs'. fill_vocab es cs = Inr cs'"
  by (induction es arbitrary: cs) auto

lemma buildDecoder_Inr:
  assumes "\<forall>(p, i) \<in> set vocab. 0 \<le> i \<and> piece_bytes (runes p) \<noteq> None" and "distinct (map snd vocab)"
    and "distinct (map fst as)" and "\<forall>a \<in> set as. 0 \<le> fst a" and "decoder_size vocab as \<le> 2 ^ 24"
  shows "\<exists>r. buildDecoder vocab as = Inr r"
proof -
  let ?n = "decoder_size vocab as" and ?isAdded = "\<lambda>k. int k \<in> fst ` set as"
  obtain cs0 where fill: "fill_vocab vocab (replicate (nat ?n) []) = Inr cs0"
    using fill_vocab_Inr assms(1) by fastforce
  define cs where "cs = fold (\<lambda>(i, c, sp) cs. cs[nat i := c]) as cs0"
  note f = fill_vocab_at [OF fill] and g = fold_set_at [OF assms(3,4), of "\<lambda>c sp. c" cs0, folded cs_def]
  have "content_bytes (?isAdded k) (cs ! k) \<noteq> None" if k: "k < length cs" for k
  proof (cases "?isAdded k")
    case False
    then have eq: "cs ! k = cs0 ! k" using g by blast
    show ?thesis
    proof (cases "int k \<in> snd ` set vocab")
      case True
      then obtain p where v: "(p, int k) \<in> set vocab" by force
      then have "cs0 ! k = p" using f g k assms(2) by fastforce
      then show ?thesis using v assms(1) eq False by (auto simp: content_bytes_def)
    next
      case new: False
      then have "cs0 ! k = []" using f g k by simp
      then show ?thesis using eq by (simp add: content_bytes_def)
    qed
  qed (simp add: content_bytes_def)
  then obtain ps ends where "lay_out ?isAdded 0 cs [] [] = Inr (ps, ends)" using lay_out_Inr [of cs ?isAdded 0 "[]" "[]"] by fastforce
  then show ?thesis using fill assms(5) by (simp add: buildDecoder_def Let_def flip: cs_def)
qed

lemma newTokenizer_Inr:
  assumes "mgs \<noteq> []" and "length mgs < 2 ^ 32" and "distinct mgs"
    and "distinct (map fst vocab)" and "distinct (map snd vocab)" and "distinct (map fst as)"
    and "\<forall>(p, i) \<in> set vocab. 0 \<le> i \<and> piece_bytes (runes p) \<noteq> None"
    and "\<forall>b < 256. map_of vocab (buildQwenByteEncoder b) \<noteq> None"
    and "\<forall>(a, b) \<in> set mgs. map_of vocab a \<noteq> None \<and> map_of vocab b \<noteq> None \<and> map_of vocab (a @ b) \<noteq> None"
    and "load_added as ([empty_node], {}) = Inr ts" and "decoder_size vocab as \<le> 2 ^ 24"
  shows "\<exists>t. newTokenizer vocab mgs as = Some (Inr t)"
proof -
  obtain ids where b: "load_bytes (map_of vocab) [0..<256] (\<lambda>_. 0) = Inr ids"
    using load_bytes_Inr [of "[0..<256]" "map_of vocab"] assms(8) by auto
  have "int32_id i" if "map_of vocab p = Some i" for p i
    using map_of_SomeD [OF that] assms(7,11) decoder_size_bounds(1) [of "(p, i)" vocab as] by auto
  moreover have "p = q" if "map_of vocab p = Some i" "map_of vocab q = Some i" for p q i
  proof -
    have "inj_on snd (set vocab)" using assms(5) by (simp add: distinct_map)
    from inj_onD [OF this _ map_of_SomeD [OF that(1)] map_of_SomeD [OF that(2)]] show ?thesis by simp
  qed
  ultimately obtain tbl where m: "load_merges (map_of vocab) mgs 0 (newMergeTable (length mgs)) = Some (Inr tbl)"
    using load_merges_Inr [of "map_of vocab" mgs] assms(2,3,9) by blast
  obtain ps ends spec where d: "buildDecoder vocab as = Inr (ps, ends, spec)"
    using buildDecoder_Inr [OF assms(7,5,6) _ assms(11)] load_added_words [OF empty_trie_ok(1) assms(10)] by (metis prod_cases3)
  have "vocab \<noteq> []" using assms(8) by (metis map_of.simps(1) zero_less_numeral)
  then show ?thesis using assms(1,10) b m d by (simp add: newTokenizer_def)
qed

section \<open>Added tokens\<close>

text \<open>
  With the added tokens loaded, \<open>matchAdded\<close> finds at any position the longest added
  token that starts there, with an id it was given, or none if there is none, in which case it
  reports an empty match; and a byte outside the table of first bytes never starts one.
\<close>

theorem matchAdded_longest:
  assumes "load_added as ([empty_node], {}) = Inr ts" and "matchAdded (fst ts) s i = (tid, e)" and "i < length s"
  shows "(if e = i then tid = -1 else i < e \<and> e \<le> length s \<and> (\<exists>sp. (tid, substr s i e, sp) \<in> set as))
    \<and> (\<forall>k \<le> length s. e < k \<longrightarrow> (\<forall>j sp. (j, substr s i k, sp) \<notin> set as))
    \<and> (s ! i \<notin> snd ts \<longrightarrow> e = i)"
proof -
  have ok: "added_ok ts" and words: "trie_words (fst ts) w = Some j \<longleftrightarrow> (\<exists>sp. (j, w, sp) \<in> set as)" for w j
    using load_added_words [OF empty_trie_ok(1) assms(1)] empty_trie_ok(2) by simp_all
  have none: "trie_words (fst ts) (substr s i k) = None \<longleftrightarrow> (\<forall>j sp. (j, substr s i k, sp) \<notin> set as)" for k
    using words [of "substr s i k"] by (metis option.exhaust option.distinct(1))
  from matchAdded_spec [OF assms(2)] show ?thesis
  proof (elim disjE conjE exE)
    assume e: "tid = -1" "e = i"
      and no: "\<forall>k. 0 < k \<longrightarrow> k \<le> length s - i \<longrightarrow> trie_words (fst ts) (take k (drop i s)) = None"
    have "trie_words (fst ts) (substr s i k) = None" if "k \<le> length s" "i < k" for k
      using no that by (simp add: substr_def)
    then show ?thesis using e none by simp
  next
    fix k assume e: "e = i + k" and l: "longest (\<lambda>k. trie_words (fst ts) (take k (drop i s))) (length s - i) k tid"
    then have k: "0 < k" "k \<le> length s - i" "trie_words (fst ts) (take k (drop i s)) = Some tid"
        and no: "\<And>j. k < j \<Longrightarrow> j \<le> length s - i \<Longrightarrow> trie_words (fst ts) (take j (drop i s)) = None"
      by (auto simp: longest_def)
    have "trie_words (fst ts) (substr s i j) = None" if "j \<le> length s" "e < j" for j
      using no [of "j - i"] that e by (simp add: substr_def)
    moreover have "take k (drop i s) ! 0 \<in> snd ts" using ok k(3) by (auto simp: added_ok_def)
    then have "s ! i \<in> snd ts" using k(1) assms(3) by simp
    ultimately show ?thesis using e k words none assms(3) by (auto simp: substr_def)
  qed
qed

theorem matchAdded_longest_witness:
  "\<exists>ts. load_added [(7, ''<s>'', True), (8, ''<s>x'', False)] ([empty_node], {}) = Inr ts \<and> matchAdded (fst ts) ''a<s>xy'' 1 = (8, 5)
     \<and> (\<forall>k \<le> length ''a<s>xy''. 5 < k \<longrightarrow> (\<forall>j sp. (j, substr ''a<s>xy'' 1 k, sp) \<notin> set [(7, ''<s>'', True), (8, ''<s>x'', False)]))"
proof -
  obtain ts where ts: "load_added [(7, ''<s>'', True), (8, ''<s>x'', False)] ([empty_node], {}) = Inr ts" "matchAdded (fst ts) ''a<s>xy'' 1 = (8, 5)"
    by (simp add: addAddedToken_def empty_node_def Let_def matchAdded_def nth_append nth_list_update)
  from matchAdded_longest [OF this] ts show ?thesis by auto
qed

end
