(* ===== verification/Tokenizer_Roundtrip.thy ===== *)
theory Tokenizer_Roundtrip
  imports Tokenizer_Load Tokenizer_Decode
begin

text \<open>
  The round trip of the Qwen tokenizer, from the files of a vocabulary to encoded and decoded
  text, and a small tokenizer on which it is applied.
\<close>

section \<open>The size of the decoding table\<close>

lemma piece_bytes_length: "piece_bytes (runes s) = Some bs \<Longrightarrow> length bs \<le> length s"
proof (induction s arbitrary: bs rule: runes.induct)
  case (1 s)
  show ?case
  proof (cases "s = []")
    case False
    with "1.prems" obtain bs' where "piece_bytes (runes (drop (snd (DecodeRune s)) s)) = Some bs'" "length bs = Suc (length bs')"
      by (subst (asm) runes.simps) (auto split: if_splits option.splits)
    with "1.IH" [OF False] DecodeRune_size_pos [OF False] DecodeRune_size_le [of s] show ?thesis by fastforce
  qed (use "1.prems" in simp)
qed

lemma lay_out_length:
  "lay_out isAdded i ss ps ends = Inr (ps', ends') \<Longrightarrow> length ps' \<le> length ps + sum_list (map length ss)"
proof (induction ss arbitrary: i ps ends)
  case (Cons s ss)
  then obtain bs where "content_bytes (isAdded i) s = Some bs"
      and n: "lay_out isAdded (i + 1) ss (ps @ bs) (ends @ [length (ps @ bs) mod 2 ^ 32]) = Inr (ps', ends')"
    by (auto simp: content_bytes_def split: if_splits option.splits)
  then have "length bs \<le> length s" by (auto simp: content_bytes_def piece_bytes_length split: if_splits)
  with Cons.IH [OF n] show ?case by simp
qed simp

lemma sum_list_update_le: "sum_list (map length (cs[i := p])) \<le> sum_list (map length cs) + length p"
  by (induction cs arbitrary: i) (auto split: nat.splits simp: add.assoc trans_le_add1)

lemma fill_vocab_total:
  "fill_vocab es cs = Inr cs' \<Longrightarrow> sum_list (map length cs') \<le> sum_list (map length cs) + sum_list (map (length \<circ> fst) es)"
proof (induction es arbitrary: cs)
  case (Cons e es)
  obtain p i where e: "e = (p, i)" by (cases e)
  with Cons.prems have "fill_vocab es (cs[nat i := p]) = Inr cs'" by (simp split: if_splits)
  from Cons.IH [OF this] show ?case using sum_list_update_le [of cs "nat i" p] e by simp
qed simp

lemma fold_set_total:
  "sum_list (map length (fold (\<lambda>(i, c, sp) cs. cs[nat i := c]) as cs)) \<le> sum_list (map length cs) + sum_list (map (length \<circ> fst \<circ> snd) as)"
proof (induction as arbitrary: cs)
  case (Cons a as)
  obtain i c sp where a: "a = (i, c, sp)" by (cases a)
  show ?case using Cons.IH [of "cs[nat i := c]"] sum_list_update_le [of cs "nat i" c] a by simp
qed simp

definition description_bytes :: "(string \<times> int) list \<Rightarrow> added_token list \<Rightarrow> nat" where
  "description_bytes vocab as = sum_list (map (length \<circ> fst) vocab) + sum_list (map (length \<circ> fst \<circ> snd) as)"

lemma newTokenizer_bytes:
  assumes "newTokenizer vocab mgs as = Some (Inr t)"
  shows "length (pieces t) \<le> description_bytes vocab as"
proof -
  obtain ends spec where d: "buildDecoder vocab as = Inr (pieces t, ends, spec)"
    using assms by (auto simp: newTokenizer_def split: if_splits sum.splits option.splits)
  let ?n = "decoder_size vocab as"
  obtain cs0 where fill: "fill_vocab vocab (replicate (nat ?n) []) = Inr cs0"
      and lay: "lay_out (\<lambda>k. int k \<in> fst ` set as) 0 (fold (\<lambda>(i, c, sp) cs. cs[nat i := c]) as cs0) [] [] = Inr (pieces t, ends)"
    using d by (auto simp: buildDecoder_def Let_def not_less split: if_splits sum.splits)
  have "sum_list (map length (replicate (nat ?n) ([] :: string))) = 0" by (simp add: sum_list_replicate)
  with lay_out_length [OF lay] fill_vocab_total [OF fill] fold_set_total [of as cs0] show ?thesis
    unfolding description_bytes_def list.size by linarith
qed

section \<open>Properties\<close>

lemma Piece_marks: "Piece (t\<lparr>marks := m\<rparr>) = Piece t"
  by (simp add: Piece_def fun_eq_iff)

lemma tok_wf_marks: "tok_wf (t\<lparr>marks := m\<rparr>) = tok_wf t"
proof -
  have "tok_get (t\<lparr>marks := m\<rparr>) = tok_get t" "tok_ids (t\<lparr>marks := m\<rparr>) = tok_ids t"
    by (simp_all add: tok_get_def tok_ids_def fun_eq_iff)
  then show ?thesis by (simp add: tok_wf_def Piece_marks)
qed


text \<open>
  C24: \<open>newTokenizer\<close> accepts every consistent description: a byte token for each byte, pieces
  in the byte alphabet, distinct merges whose three pieces are in the vocabulary, added tokens
  the trie takes, and ids below \<open>2 ^ 24\<close>. In particular its hash table never fills up.
\<close>

theorem newTokenizer_loads:
  assumes "mgs \<noteq> []" and "length mgs < 2 ^ 32" and "distinct mgs"
    and "distinct (map fst vocab)" and "distinct (map snd vocab)" and "distinct (map fst as)"
    and "\<forall>(p, i) \<in> set vocab. 0 \<le> i \<and> piece_bytes (runes p) \<noteq> None"
    and "\<forall>b < 256. map_of vocab (buildQwenByteEncoder b) \<noteq> None"
    and "\<forall>(a, b) \<in> set mgs. map_of vocab a \<noteq> None \<and> map_of vocab b \<noteq> None \<and> map_of vocab (a @ b) \<noteq> None"
    and "load_added as ([empty_node], {}) = Inr ts" and "decoder_size vocab as \<le> 2 ^ 24"
  shows "\<exists>t. newTokenizer vocab mgs as = Some (Inr t)"
  using assms by (rule newTokenizer_Inr)

subsection \<open>A small tokenizer\<close>

definition sample_vocab :: "(string \<times> int) list" where
  "sample_vocab = map (\<lambda>b. (buildQwenByteEncoder b, int b)) [0..<256] @ [(''ab'', 256)]"

definition sample_added :: "added_token list" where
  "sample_added = [(257, ''<s>'', True)]"

lemma rune_string_inj: "r < 2048 \<Longrightarrow> q < 2048 \<Longrightarrow> rune_string r = rune_string q \<Longrightarrow> r = q"
  using DecodeRune_rune_string [of r "[]"] DecodeRune_rune_string [of q "[]"] by simp

lemma buildQwenByteEncoder_inj: "b < 256 \<Longrightarrow> c < 256 \<Longrightarrow> buildQwenByteEncoder b = buildQwenByteEncoder c \<Longrightarrow> b = c"
  using rune_string_inj [of "byte_rune b" "byte_rune c"] byte_rune_inj byte_rune_less [of b] byte_rune_less [of c]
  by (simp add: buildQwenByteEncoder_def)

lemma encoder_ascii: "buildQwenByteEncoder 97 = ''a''" "buildQwenByteEncoder 98 = ''b''"
  by code_simp+

lemma buildQwenByteEncoder_not_ab: "b < 256 \<Longrightarrow> buildQwenByteEncoder b \<noteq> ''ab''"
proof
  assume b: "b < 256" "buildQwenByteEncoder b = ''ab''"
  then have "DecodeRune ''ab'' = (byte_rune b, 2)"
    using DecodeRune_rune_string [of "byte_rune b" "[]"] byte_rune_less [OF b(1)] by (simp add: buildQwenByteEncoder_def)
  then show False by (simp add: DecodeRune_def RuneSelf_def)
qed

lemma sample_distinct: "distinct (map fst sample_vocab)" "distinct (map snd sample_vocab)"
proof -
  have "distinct (map buildQwenByteEncoder [0..<256])"
    unfolding distinct_map by (intro conjI inj_onI distinct_upt) (simp add: buildQwenByteEncoder_inj)
  moreover have "''ab'' \<notin> buildQwenByteEncoder ` set [0..<256]" using buildQwenByteEncoder_not_ab by fastforce
  ultimately show "distinct (map fst sample_vocab)" by (simp add: sample_vocab_def comp_def del: upt_rec_numeral)
  show "distinct (map snd sample_vocab)" by (auto simp: sample_vocab_def comp_def distinct_map inj_on_def simp del: upt_rec_numeral)
qed

lemma sample_cases:
  assumes "(p, i) \<in> set sample_vocab"
  obtains (byte) b where "b < 256" "p = buildQwenByteEncoder b" "i = int b" | (ab) "p = ''ab''" "i = 256"
  using assms by (auto simp: sample_vocab_def simp del: upt_rec_numeral)

lemma sample_bytes: "b < 256 \<Longrightarrow> (buildQwenByteEncoder b, int b) \<in> set sample_vocab"
  by (auto simp: sample_vocab_def simp del: upt_rec_numeral)

lemma sample_lookup:
  "b < 256 \<Longrightarrow> map_of sample_vocab (buildQwenByteEncoder b) = Some (int b)" "map_of sample_vocab ''ab'' = Some 256"
  using sample_distinct(1) sample_bytes by (simp_all add: map_of_eq_Some_iff) (simp add: sample_vocab_def)

lemma sample_piece:
  assumes "(p, i) \<in> set sample_vocab" shows "0 \<le> i \<and> piece_bytes (runes p) \<noteq> None \<and> length p \<le> 2 \<and> i \<le> 256"
  using assms
proof (cases rule: sample_cases)
  case byte
  then show ?thesis using piece_bytes_encoder by (simp add: buildQwenByteEncoder_def rune_string_def)
next
  case ab
  have ca: "piece_bytes (runes ''a'') = Some [char_of (97::nat)]" and cb: "piece_bytes (runes ''b'') = Some [char_of (98::nat)]"
    using piece_bytes_encoder [of 97] piece_bytes_encoder [of 98] by (simp_all only: encoder_ascii)
  have "runes ''ab'' = runes ''a'' @ runes ''b''" using runes_append [OF ca, of "''b''"] by simp
  then have "piece_bytes (runes ''ab'') \<noteq> None" using piece_bytes_append [OF ca cb] by simp
  then show ?thesis using ab by simp
qed

lemma sample_added_loads: "\<exists>ts. load_added sample_added ([empty_node], {}) = Inr ts"
  by (simp add: sample_added_def addAddedToken_def empty_node_def Let_def)

lemma sample_size: "decoder_size sample_vocab sample_added \<le> 2 ^ 24" "description_bytes sample_vocab sample_added < 2 ^ 32"
proof -
  have "fold (\<lambda>e n. max n (snd e + 1)) es n \<le> 300" if "\<forall>e \<in> set es. snd e \<le> 256" "n \<le> 300" for es :: "(string \<times> int) list" and n
    using that by (induction es arbitrary: n) auto
  then have "fold (\<lambda>e n. max n (snd e + 1)) sample_vocab 0 \<le> 300" using sample_piece by fastforce
  then show "decoder_size sample_vocab sample_added \<le> 2 ^ 24" by (simp add: decoder_size_def sample_added_def)
  have "sum_list (map (length \<circ> fst) sample_vocab) \<le> sum_list (map (\<lambda>_. 2) sample_vocab)"
    by (rule sum_list_mono) (use sample_piece in fastforce)
  also have "\<dots> = 2 * length sample_vocab" by (simp add: sum_list_triv)
  also have "\<dots> = 514" by (simp add: sample_vocab_def del: upt_rec_numeral)
  finally show "description_bytes sample_vocab sample_added < 2 ^ 32" by (simp add: description_bytes_def sample_added_def)
qed

theorem newTokenizer_loads_witness: "\<exists>t. newTokenizer sample_vocab [(''a'', ''b'')] sample_added = Some (Inr t)"
proof -
  obtain ts where ts: "load_added sample_added ([empty_node], {}) = Inr ts" using sample_added_loads by blast
  have ab: "map_of sample_vocab ''a'' \<noteq> None" "map_of sample_vocab ''b'' \<noteq> None"
    using sample_lookup(1) [of 97] sample_lookup(1) [of 98] by (simp_all only: encoder_ascii) simp_all
  show ?thesis
    by (rule newTokenizer_loads [OF _ _ _ sample_distinct _ _ _ _ ts sample_size(1)])
      (use ab sample_lookup sample_piece in \<open>auto simp: sample_added_def\<close>)
qed


end
