(* ===== verification/Pool.thy ===== *)
theory Pool
  imports Go_Prelude "HOL-Library.AList"
begin

text \<open>
  The model pool of \<^verbatim>\<open>src/pool.go\<close> under concurrent use. The state has the pool with its mutex-guarded
  fields, the heap of \<^verbatim>\<open>pooled\<close> entries and a program counter per goroutine; each critical
  section, each wait and each call made without the mutex is one atomic action, so runs are
  arbitrary interleavings. \<open>Open\<close>, \<open>Lane\<close> and the closing of models and lanes are the outside
  world: an opened model or lane has a fresh number, an open may fail, and the calls to \<open>Close\<close>
  are logged. An action that is not enabled gives \<open>None\<close>.
\<close>

section \<open>Model: the pool\<close>

type_synonym lane_type = string

datatype pool_error = ErrPoolClosed | OpenFailed | LaneFailed

text \<open>\<open>idle\<close> is \<open>None\<close> for the nil map that \<open>close\<close> leaves; the timer is its deadline when set.\<close>

record pooled =
  ppath :: string
  ready :: bool
  pmodel :: "nat option"
  perr :: "pool_error option"
  busy :: int
  idle :: "(lane_type \<times> nat list) list option"
  lastUsed :: int
  timer :: "int option"

record Pool =
  keepAlive :: int
  clock :: int
  models :: "string \<rightharpoonup> nat"
  closed :: bool
  heap :: "pooled list"
  closedModels :: "nat list"
  closedLanes :: "nat list"

definition DefaultKeepAlive :: int where
  "DefaultKeepAlive = 15 * 60"

definition NewPool :: "int \<Rightarrow> Pool" where
  "NewPool ka = \<lparr>keepAlive = (if ka = 0 then DefaultKeepAlive else ka), clock = 0, models = Map.empty,
     closed = False, heap = [], closedModels = [], closedLanes = []\<rparr>"

abbreviation upd_entry :: "Pool \<Rightarrow> nat \<Rightarrow> (pooled \<Rightarrow> pooled) \<Rightarrow> Pool" where
  "upd_entry p m f \<equiv> p\<lparr>heap := (heap p)[m := f (heap p ! m)]\<rparr>"

definition holds :: "Pool \<Rightarrow> nat \<Rightarrow> bool" where
  "holds p m \<longleftrightarrow> models p (ppath (heap p ! m)) = Some m"

definition idle_of :: "pooled \<Rightarrow> lane_type \<Rightarrow> nat list" where
  "idle_of e typ = (case idle e of None \<Rightarrow> [] | Some al \<Rightarrow> (case map_of al typ of None \<Rightarrow> [] | Some ls \<Rightarrow> ls))"

datatype get_result = GetClosed | GetHeld nat | GetNew nat

text \<open>\<open>get\<close> up to the call of \<open>Open\<close>.\<close>

definition get_begin :: "Pool \<Rightarrow> string \<Rightarrow> get_result \<times> Pool" where
  "get_begin p path =
     (if closed p then (GetClosed, p)
      else case models p path of
             Some m \<Rightarrow> (GetHeld m, p)
           | None \<Rightarrow>
               let m = length (heap p);
                   e = \<lparr>ppath = path, ready = False, pmodel = None, perr = None, busy = 0, idle = Some [],
                        lastUsed = 0, timer = None\<rparr>
               in (GetNew m, p\<lparr>heap := heap p @ [e], models := (models p)(path \<mapsto> m)\<rparr>))"

text \<open>The second critical section of \<open>get\<close>, after \<open>Open\<close> returned \<open>r\<close>: \<open>held\<close> and the removal.\<close>

definition get_held :: "Pool \<Rightarrow> nat \<Rightarrow> pool_error + nat \<Rightarrow> bool \<times> Pool" where
  "get_held p m r =
     (let held = holds p m
      in (held, if (case r of Inl _ \<Rightarrow> held | Inr _ \<Rightarrow> False)
                then p\<lparr>models := (models p)(ppath (heap p ! m) := None)\<rparr> else p))"

text \<open>The rest of \<open>get\<close>: close an orphan, publish the result, close \<open>ready\<close>.\<close>

definition get_publish :: "Pool \<Rightarrow> nat \<Rightarrow> pool_error + nat \<Rightarrow> bool \<Rightarrow> Pool" where
  "get_publish p m r held =
     (case r of
        Inl e \<Rightarrow> upd_entry p m (\<lambda>x. x\<lparr>pmodel := None, perr := Some e, ready := True\<rparr>)
      | Inr md \<Rightarrow>
          if held then upd_entry p m (\<lambda>x. x\<lparr>pmodel := Some md, perr := None, ready := True\<rparr>)
          else upd_entry (p\<lparr>closedModels := closedModels p @ [md]\<rparr>) m
                 (\<lambda>x. x\<lparr>pmodel := None, perr := Some ErrPoolClosed, ready := True\<rparr>))"

datatype acquire_result = Failed pool_error | Again | Reused nat | NeedLane

text \<open>\<open>Acquire\<close> from the wake-up on \<open>ready\<close> to the end of its critical section.\<close>

definition acquire_try :: "Pool \<Rightarrow> string \<Rightarrow> lane_type \<Rightarrow> nat \<Rightarrow> acquire_result \<times> Pool" where
  "acquire_try p path typ m =
     (case perr (heap p ! m) of
        Some e \<Rightarrow> (Failed e, p)
      | None \<Rightarrow>
          if models p path \<noteq> Some m then (Again, p)
          else let p1 = upd_entry p m (\<lambda>x. x\<lparr>busy := busy x + 1, timer := None\<rparr>);
                   lanes = idle_of (heap p ! m) typ
               in if lanes \<noteq> [] then
                    (Reused (last lanes),
                     upd_entry p1 m (\<lambda>x. x\<lparr>idle := map_option (AList.update typ (butlast lanes)) (idle x)\<rparr>))
                  else (NeedLane, p1))"

text \<open>
  \<open>release\<close> up to the unlock; the first component tells whether \<open>m.close()\<close> follows. \<open>None\<close> is
  the panic of a write to the nil map of a closed entry.
\<close>

definition release :: "Pool \<Rightarrow> nat \<Rightarrow> lane_type \<Rightarrow> nat option \<Rightarrow> (bool \<times> Pool) option" where
  "release p m typ lane =
     (if lane \<noteq> None \<and> idle (heap p ! m) = None then None
      else let p1 = (case lane of
                       None \<Rightarrow> p
                     | Some l \<Rightarrow> upd_entry p m (\<lambda>x. x\<lparr>idle := map_option (AList.update typ (idle_of x typ @ [l])) (idle x)\<rparr>));
               p2 = upd_entry p1 m (\<lambda>x. x\<lparr>busy := busy x - 1\<rparr>)
           in if 0 < busy (heap p2 ! m) then Some (False, p2)
              else let p3 = upd_entry p2 m (\<lambda>x. x\<lparr>lastUsed := clock p\<rparr>)
                   in if closed p \<or> \<not> holds p m then Some (True, p3)
                      else if 0 < keepAlive p then Some (False, upd_entry p3 m (\<lambda>x. x\<lparr>timer := Some (clock p + keepAlive p)\<rparr>))
                      else Some (False, p3))"

definition expire :: "Pool \<Rightarrow> nat \<Rightarrow> bool \<times> Pool" where
  "expire p m =
     (if 0 < busy (heap p ! m) \<or> \<not> holds p m \<or> clock p - lastUsed (heap p ! m) < keepAlive p then (False, p)
      else (True, p\<lparr>models := (models p)(ppath (heap p ! m) := None)\<rparr>))"

definition idle_lanes :: "pooled \<Rightarrow> nat list" where
  "idle_lanes e = (case idle e of None \<Rightarrow> [] | Some al \<Rightarrow> concat (map snd al))"

definition pooled_close :: "Pool \<Rightarrow> nat \<Rightarrow> Pool" where
  "pooled_close p m =
     (upd_entry p m (\<lambda>x. x\<lparr>timer := None, idle := None\<rparr>))
       \<lparr>closedLanes := closedLanes p @ idle_lanes (heap p ! m),
        closedModels := closedModels p @ (case pmodel (heap p ! m) of None \<Rightarrow> [] | Some md \<Rightarrow> [md])\<rparr>"

definition held_entries :: "Pool \<Rightarrow> nat list" where
  "held_entries p = filter (holds p) [0..<length (heap p)]"

definition Loaded :: "Pool \<Rightarrow> string list" where
  "Loaded p = map (\<lambda>m. ppath (heap p ! m))
     (filter (\<lambda>m. ready (heap p ! m) \<and> perr (heap p ! m) = None) (held_entries p))"

text \<open>\<open>Close\<close> up to the unlock, with the entries it goes on to close.\<close>

definition Pool_Close :: "Pool \<Rightarrow> nat list \<times> Pool" where
  "Pool_Close p =
     (if closed p then ([], p)
      else (filter (\<lambda>m. ready (heap p ! m) \<and> busy (heap p ! m) = 0) (held_entries p),
            p\<lparr>closed := True, models := Map.empty\<rparr>))"

section \<open>Model: goroutines\<close>

datatype pc =
    Free
  | Opening string lane_type nat
  | Publishing string lane_type nat "pool_error + nat" bool
  | Waiting string lane_type nat
  | LaneOpening lane_type nat
  | Leased lane_type nat nat
  | Expiring nat
  | Closing "nat list"

record sys =
  pool :: Pool
  threads :: "pc list"
  nextModel :: nat
  nextLane :: nat

definition start :: "int \<Rightarrow> nat \<Rightarrow> sys" where
  "start ka n = \<lparr>pool = NewPool ka, threads = replicate n Free, nextModel = 0, nextLane = 0\<rparr>"

datatype action =
    AcquireGet nat string lane_type
  | OpenReturns nat bool
  | Publish nat
  | Wake nat
  | LaneReturns nat bool
  | Release nat
  | Fire nat nat
  | Expire nat
  | CloseEntry nat
  | ClosePool nat
  | Tick nat

definition after_get :: "string \<Rightarrow> lane_type \<Rightarrow> get_result \<Rightarrow> pc" where
  "after_get path typ r = (case r of GetClosed \<Rightarrow> Free | GetHeld m \<Rightarrow> Waiting path typ m | GetNew m \<Rightarrow> Opening path typ m)"

abbreviation set_pc :: "sys \<Rightarrow> nat \<Rightarrow> pc \<Rightarrow> Pool \<Rightarrow> sys" where
  "set_pc s i q p \<equiv> s\<lparr>threads := (threads s)[i := q], pool := p\<rparr>"

fun act :: "action \<Rightarrow> sys \<Rightarrow> sys option" where
  "act (AcquireGet i path typ) s =
     (if i < length (threads s) \<and> threads s ! i = Free
      then (case get_begin (pool s) path of (r, p) \<Rightarrow> Some (set_pc s i (after_get path typ r) p)) else None)"
| "act (OpenReturns i ok) s =
     (if i < length (threads s) then
        case threads s ! i of
          Opening path typ m \<Rightarrow>
            let r = (if ok then Inr (nextModel s) else Inl OpenFailed)
            in (case get_held (pool s) m r of
                  (held, p) \<Rightarrow> Some ((set_pc s i (Publishing path typ m r held) p)\<lparr>nextModel := nextModel s + (if ok then 1 else 0)\<rparr>))
        | _ \<Rightarrow> None
      else None)"
| "act (Publish i) s =
     (if i < length (threads s) then
        case threads s ! i of
          Publishing path typ m r held \<Rightarrow> Some (set_pc s i (Waiting path typ m) (get_publish (pool s) m r held))
        | _ \<Rightarrow> None
      else None)"
| "act (Wake i) s =
     (if i < length (threads s) then
        case threads s ! i of
          Waiting path typ m \<Rightarrow>
            if \<not> ready (heap (pool s) ! m) then None
            else (case acquire_try (pool s) path typ m of
                    (Failed e, p) \<Rightarrow> Some (set_pc s i Free p)
                  | (Again, p) \<Rightarrow> (case get_begin p path of (r, p') \<Rightarrow> Some (set_pc s i (after_get path typ r) p'))
                  | (Reused l, p) \<Rightarrow> Some (set_pc s i (Leased typ m l) p)
                  | (NeedLane, p) \<Rightarrow> Some (set_pc s i (LaneOpening typ m) p))
        | _ \<Rightarrow> None
      else None)"
| "act (LaneReturns i ok) s =
     (if i < length (threads s) then
        case threads s ! i of
          LaneOpening typ m \<Rightarrow>
            if ok then Some ((set_pc s i (Leased typ m (nextLane s)) (pool s))\<lparr>nextLane := nextLane s + 1\<rparr>)
            else map_option (\<lambda>(cl, p). set_pc s i (if cl then Closing [m] else Free) p) (release (pool s) m typ None)
        | _ \<Rightarrow> None
      else None)"
| "act (Release i) s =
     (if i < length (threads s) then
        case threads s ! i of
          Leased typ m l \<Rightarrow>
            map_option (\<lambda>(cl, p). set_pc s i (if cl then Closing [m] else Free) p) (release (pool s) m typ (Some l))
        | _ \<Rightarrow> None
      else None)"
| "act (Fire i m) s =
     (if i < length (threads s) \<and> threads s ! i = Free \<and> m < length (heap (pool s)) then
        case timer (heap (pool s) ! m) of
          Some d \<Rightarrow> if d \<le> clock (pool s) then Some (set_pc s i (Expiring m) (upd_entry (pool s) m (\<lambda>x. x\<lparr>timer := None\<rparr>))) else None
        | None \<Rightarrow> None
      else None)"
| "act (Expire i) s =
     (if i < length (threads s) then
        case threads s ! i of
          Expiring m \<Rightarrow> (case expire (pool s) m of (cl, p) \<Rightarrow> Some (set_pc s i (if cl then Closing [m] else Free) p))
        | _ \<Rightarrow> None
      else None)"
| "act (CloseEntry i) s =
     (if i < length (threads s) then
        case threads s ! i of
          Closing [] \<Rightarrow> Some (set_pc s i Free (pool s))
        | Closing (m # ms) \<Rightarrow> Some (set_pc s i (Closing ms) (pooled_close (pool s) m))
        | _ \<Rightarrow> None
      else None)"
| "act (ClosePool i) s =
     (if i < length (threads s) \<and> threads s ! i = Free
      then (case Pool_Close (pool s) of (ms, p) \<Rightarrow> Some (set_pc s i (Closing ms) p)) else None)"
| "act (Tick d) s = Some (s\<lparr>pool := (pool s)\<lparr>clock := clock (pool s) + int d\<rparr>\<rparr>)"

inductive reachable :: "int \<Rightarrow> nat \<Rightarrow> sys \<Rightarrow> bool" for ka n where
  init: "reachable ka n (start ka n)"
| step: "reachable ka n s \<Longrightarrow> act a s = Some s' \<Longrightarrow> reachable ka n s'"

end
