(* ===== verification/Pool_Invariant.thy ===== *)
theory Pool_Invariant
  imports Pool
begin

text \<open>
  The invariant of the pool and its preservation by every action: \<open>busy\<close> counts the goroutines that
  use an entry, an entry is closed by at most one of them and only when the pool no longer holds
  it and nobody uses it, and every opened model and lane is in exactly one place.
\<close>

section \<open>Counting\<close>

lemma sum_list_upd: "i < length xs \<Longrightarrow> sum_list (map f (xs[i := y])) = sum_list (map f xs) + f y - (f (xs ! i) :: int)"
proof (induction xs arbitrary: i)
  case (Cons x xs)
  then show ?case by (cases i) simp_all
qed simp

lemma sum_list_pos: "(\<And>x. x \<in> set xs \<Longrightarrow> 0 \<le> f x) \<Longrightarrow> 0 \<le> sum_list (map f xs)" for f :: "'a \<Rightarrow> int"
  by (induction xs) auto

lemma sum_list_member:
  "(\<And>x. 0 \<le> f x) \<Longrightarrow> i < length xs \<Longrightarrow> f (xs ! i) \<le> sum_list (map f xs)" for f :: "'a \<Rightarrow> int"
proof (induction xs arbitrary: i)
  case (Cons x xs)
  then show ?case using sum_list_pos [of xs f] by (cases i) (auto intro: order_trans [OF Cons.IH])
qed simp

lemma sum_list_two:
  fixes f :: "'a \<Rightarrow> int"
  assumes "\<And>x. 0 \<le> f x"
  shows "i < length xs \<Longrightarrow> j < length xs \<Longrightarrow> i \<noteq> j \<Longrightarrow> f (xs ! i) + f (xs ! j) \<le> sum_list (map f xs)"
proof (induction xs arbitrary: i j)
  case (Cons x xs)
  then show ?case using sum_list_member [OF assms, of _ xs] assms [of x] by (cases i; cases j) (auto intro: order_trans [OF Cons.IH])
qed simp

fun uses :: "nat \<Rightarrow> pc \<Rightarrow> int" where
  "uses m (LaneOpening _ k) = of_bool (k = m)"
| "uses m (Leased _ k _) = of_bool (k = m)"
| "uses m _ = 0"

fun opens :: "nat \<Rightarrow> pc \<Rightarrow> int" where
  "opens m (Opening _ _ k) = of_bool (k = m)"
| "opens m (Publishing _ _ k _ _) = of_bool (k = m)"
| "opens m _ = 0"

fun closes :: "nat \<Rightarrow> pc \<Rightarrow> int" where
  "closes m (Closing ms) = int (count_list ms m)"
| "closes m _ = 0"

fun leases :: "nat \<Rightarrow> pc \<Rightarrow> int" where
  "leases l (Leased _ _ k) = of_bool (k = l)"
| "leases l _ = 0"

fun carries :: "nat \<Rightarrow> pc \<Rightarrow> int" where
  "carries md (Publishing _ _ _ (Inr k) _) = of_bool (k = md)"
| "carries md _ = 0"

abbreviation tsum :: "(pc \<Rightarrow> int) \<Rightarrow> pc list \<Rightarrow> int" where
  "tsum f ts \<equiv> sum_list (map f ts)"

lemma counts_pos [simp]: "0 \<le> uses m q" "0 \<le> opens m q" "0 \<le> closes m q" "0 \<le> leases l q" "0 \<le> carries md q"
  by (cases "(m, q)" rule: uses.cases, simp_all, cases "(m, q)" rule: opens.cases, simp_all,
      cases "(m, q)" rule: closes.cases, simp_all, cases "(l, q)" rule: leases.cases, simp_all,
      cases "(md, q)" rule: carries.cases, simp_all)

definition lane_count :: "Pool \<Rightarrow> pc list \<Rightarrow> nat \<Rightarrow> int" where
  "lane_count p ts l = int (count_list (closedLanes p) l)
     + sum_list (map (\<lambda>e. int (count_list (idle_lanes e) l)) (heap p)) + tsum (leases l) ts"

definition keeps :: "nat \<Rightarrow> pooled \<Rightarrow> int" where
  "keeps md e = of_bool (idle e \<noteq> None \<and> pmodel e = Some md)"

definition model_count :: "Pool \<Rightarrow> pc list \<Rightarrow> nat \<Rightarrow> int" where
  "model_count p ts md = int (count_list (closedModels p) md) + sum_list (map (keeps md) (heap p)) + tsum (carries md) ts"

section \<open>The invariant\<close>

definition entry_ok :: "Pool \<Rightarrow> pc list \<Rightarrow> nat \<Rightarrow> pooled \<Rightarrow> bool" where
  "entry_ok p ts m e \<longleftrightarrow>
     busy e = tsum (uses m) ts
   \<and> tsum (opens m) ts = of_bool (\<not> ready e)
   \<and> tsum (closes m) ts + of_bool (idle e = None) \<le> 1
   \<and> (0 < tsum (closes m) ts + of_bool (idle e = None) \<longrightarrow> models p (ppath e) \<noteq> Some m \<and> busy e = 0 \<and> ready e)
   \<and> (0 < busy e \<longrightarrow> ready e \<and> perr e = None \<and> pmodel e \<noteq> None)
   \<and> (models p (ppath e) = Some m \<longrightarrow> ready e \<longrightarrow> perr e = None \<and> pmodel e \<noteq> None)
   \<and> (timer e \<noteq> None \<or> pmodel e \<noteq> None \<longrightarrow> ready e)
   \<and> (\<forall>al. idle e = Some al \<longrightarrow> distinct (map fst al))"

definition pc_ok :: "Pool \<Rightarrow> pc \<Rightarrow> bool" where
  "pc_ok p q \<longleftrightarrow>
     (case q of
        Free \<Rightarrow> True
      | Opening path typ m \<Rightarrow> m < length (heap p) \<and> ppath (heap p ! m) = path
      | Publishing path typ m r held \<Rightarrow> m < length (heap p) \<and> ppath (heap p ! m) = path \<and> (holds p m \<longrightarrow> held \<and> (\<exists>md. r = Inr md))
      | Waiting path typ m \<Rightarrow> m < length (heap p) \<and> ppath (heap p ! m) = path
      | LaneOpening typ m \<Rightarrow> m < length (heap p)
      | Leased typ m l \<Rightarrow> m < length (heap p)
      | Expiring m \<Rightarrow> m < length (heap p) \<and> ready (heap p ! m)
      | Closing ms \<Rightarrow> \<forall>m \<in> set ms. m < length (heap p))"

definition pool_ok :: "Pool \<Rightarrow> bool" where
  "pool_ok p \<longleftrightarrow> (\<forall>path m. models p path = Some m \<longrightarrow> m < length (heap p) \<and> ppath (heap p ! m) = path)
     \<and> (closed p \<longrightarrow> models p = Map.empty)"

definition sys_ok :: "sys \<Rightarrow> bool" where
  "sys_ok s \<longleftrightarrow> pool_ok (pool s)
     \<and> (\<forall>m < length (heap (pool s)). entry_ok (pool s) (threads s) m (heap (pool s) ! m))
     \<and> (\<forall>q \<in> set (threads s). pc_ok (pool s) q)
     \<and> (\<forall>l. lane_count (pool s) (threads s) l \<le> of_bool (l < nextLane s))
     \<and> (\<forall>md. model_count (pool s) (threads s) md = of_bool (md < nextModel s))"

lemma inv_start: "sys_ok (start ka n)"
proof -
  have z: "tsum f (replicate n Free) = 0" if "f Free = 0" for f using that by (induction n) auto
  show ?thesis
    by (auto simp: sys_ok_def start_def NewPool_def pool_ok_def pc_ok_def lane_count_def model_count_def z sum_list_replicate)
qed

lemma inv_facts:
  assumes "sys_ok s"
  shows "m < length (heap (pool s)) \<Longrightarrow> entry_ok (pool s) (threads s) m (heap (pool s) ! m)"
    and "i < length (threads s) \<Longrightarrow> pc_ok (pool s) (threads s ! i)"
    and "pool_ok (pool s)"
    and "lane_count (pool s) (threads s) l \<le> of_bool (l < nextLane s)"
    and "model_count (pool s) (threads s) md = of_bool (md < nextModel s)"
  using assms by (simp_all add: sys_ok_def)

text \<open>An action of goroutine \<open>i\<close> that changes entry \<open>m\<close> and may take entries out of the map.\<close>

lemma inv_upd:
  assumes inv: "sys_ok s" and i: "i < length (threads s)" and m: "m < length (heap (pool s))"
    and heap: "heap p = (heap (pool s))[m := e]"
    and models: "models p \<subseteq>\<^sub>m models (pool s)" and closed: "closed p \<longrightarrow> models p = Map.empty"
    and e: "ppath e = ppath (heap (pool s) ! m)" "ready (heap (pool s) ! m) \<longrightarrow> ready e"
    and others: "\<And>k. k \<noteq> m \<Longrightarrow> uses k q = uses k (threads s ! i) \<and> opens k q = opens k (threads s ! i)
      \<and> closes k q = closes k (threads s ! i)"
    and entry: "entry_ok p ((threads s)[i := q]) m e" and q: "pc_ok p q"
    and lanes: "\<And>l. lane_count p ((threads s)[i := q]) l \<le> of_bool (l < nl)"
    and mods: "\<And>md. model_count p ((threads s)[i := q]) md = of_bool (md < nm)"
  shows "sys_ok \<lparr>pool = p, threads = (threads s)[i := q], nextModel = nm, nextLane = nl\<rparr>"
proof -
  let ?h = "heap (pool s)"
  have less: "models p path = Some k \<Longrightarrow> models (pool s) path = Some k" for path k
    using models by (auto simp: map_le_def dom_def)
  have keep: "length (heap p) = length ?h" "\<And>k. k < length ?h \<Longrightarrow> ppath (heap p ! k) = ppath (?h ! k)"
      "\<And>k. k < length ?h \<Longrightarrow> ready (?h ! k) \<Longrightarrow> ready (heap p ! k)"
    using heap e m by (auto simp: nth_list_update)
  have "entry_ok p ((threads s)[i := q]) k (heap p ! k)" if "k < length ?h" for k
  proof (cases "k = m")
    case True
    then show ?thesis using entry heap m by simp
  next
    case False
    then have "heap p ! k = ?h ! k" using heap by simp
    then show ?thesis using inv_facts(1) [OF inv that] others [OF False] less
      unfolding entry_ok_def by (auto simp: sum_list_upd [OF i])
  qed
  moreover have "pool_ok p" using inv_facts(3) [OF inv] less closed keep unfolding pool_ok_def by metis
  moreover have "pc_ok p x" if "x \<in> set ((threads s)[i := q])" for x
  proof -
    from that consider "x = q" | "x \<in> set (threads s)" by (meson insertE set_update_subset_insert subsetD)
    then show ?thesis
    proof cases
      case 2
      then have "pc_ok (pool s) x" using inv by (simp add: sys_ok_def)
      then show ?thesis using keep less by (auto simp: pc_ok_def holds_def split: pc.splits)
    qed (use q in simp)
  qed
  ultimately show ?thesis using lanes mods keep(1) unfolding sys_ok_def by simp
qed

text \<open>An action that moves goroutine \<open>i\<close> only.\<close>

lemma inv_pc:
  assumes inv: "sys_ok s" and i: "i < length (threads s)" and q: "pc_ok (pool s) q"
    and same: "\<And>k. uses k q = uses k (threads s ! i) \<and> opens k q = opens k (threads s ! i)
      \<and> closes k q = closes k (threads s ! i) \<and> leases k q = leases k (threads s ! i) \<and> carries k q = carries k (threads s ! i)"
  shows "sys_ok (s\<lparr>threads := (threads s)[i := q]\<rparr>)"
proof -
  have "pc_ok (pool s) x" if "x \<in> set ((threads s)[i := q])" for x
    using that inv q by (auto simp: sys_ok_def dest: set_update_subset_insert [THEN subsetD])
  moreover have eqs: "tsum (uses k) ((threads s)[i := q]) = tsum (uses k) (threads s)"
      "tsum (opens k) ((threads s)[i := q]) = tsum (opens k) (threads s)"
      "tsum (closes k) ((threads s)[i := q]) = tsum (closes k) (threads s)"
      "tsum (leases k) ((threads s)[i := q]) = tsum (leases k) (threads s)"
      "tsum (carries k) ((threads s)[i := q]) = tsum (carries k) (threads s)" for k
    using same [of k] by (simp_all add: sum_list_upd [OF i])
  moreover have "entry_ok p ((threads s)[i := q]) = entry_ok p (threads s)" "lane_count p ((threads s)[i := q]) = lane_count p (threads s)"
      "model_count p ((threads s)[i := q]) = model_count p (threads s)" for p
    by (simp_all only: entry_ok_def lane_count_def model_count_def eqs fun_eq_iff) simp_all
  ultimately show ?thesis using inv by (simp add: sys_ok_def)
qed

section \<open>Every action keeps it\<close>

lemma tsum_ge: "i < length ts \<Longrightarrow> uses m (ts ! i) \<le> tsum (uses m) ts" "i < length ts \<Longrightarrow> opens m (ts ! i) \<le> tsum (opens m) ts"
    "i < length ts \<Longrightarrow> closes m (ts ! i) \<le> tsum (closes m) ts"
  by (rule sum_list_member, simp_all)+

lemma tsum_nonneg [simp]: "0 \<le> tsum (uses m) ts" "0 \<le> tsum (opens m) ts" "0 \<le> tsum (closes m) ts"
  by (rule sum_list_pos, simp)+

lemma entry_unready:
  assumes "entry_ok p ts m e" and "\<not> ready e"
  shows "busy e = 0" and "tsum (closes m) ts = 0" and "idle e \<noteq> None"
proof -
  have pos: "0 \<le> tsum (uses m) ts" "0 \<le> tsum (closes m) ts" by simp_all
  have "\<not> 0 < busy e" "busy e = tsum (uses m) ts" "\<not> 0 < tsum (closes m) ts + of_bool (idle e = None)"
    using assms unfolding entry_ok_def by blast+
  then show "busy e = 0" "tsum (closes m) ts = 0" "idle e \<noteq> None" using pos by (linarith, (cases "idle e = None"; simp)+)
qed

lemma entry_ok_mono:
  assumes "entry_ok p ts m e" and "tsum (uses m) ts' = tsum (uses m) ts" and "tsum (opens m) ts' = tsum (opens m) ts"
    and "tsum (closes m) ts' = tsum (closes m) ts" and "models p' (ppath e) = Some m \<Longrightarrow> models p (ppath e) = Some m"
  shows "entry_ok p' ts' m e"
  using assms(1,5) unfolding entry_ok_def assms(2-4) by blast

lemma entry_okI:
  assumes "busy e = tsum (uses m) ts" and "tsum (opens m) ts = of_bool (\<not> ready e)"
    and "tsum (closes m) ts = of_bool c" and "idle e \<noteq> None" and "c \<Longrightarrow> models p (ppath e) \<noteq> Some m \<and> busy e = 0 \<and> ready e"
    and "0 < busy e \<Longrightarrow> ready e \<and> perr e = None \<and> pmodel e \<noteq> None"
    and "models p (ppath e) = Some m \<Longrightarrow> ready e \<Longrightarrow> perr e = None \<and> pmodel e \<noteq> None"
    and "timer e \<noteq> None \<or> pmodel e \<noteq> None \<Longrightarrow> ready e" and "\<forall>al. idle e = Some al \<longrightarrow> distinct (map fst al)"
  shows "entry_ok p ts m e"
proof -
  have "tsum (closes m) ts + of_bool (idle e = None) = of_bool c" using assms(3,4) by simp
  then have "tsum (closes m) ts + of_bool (idle e = None) \<le> 1"
      "0 < tsum (closes m) ts + of_bool (idle e = None) \<longleftrightarrow> c" by simp_all
  then show ?thesis using assms(1,2,5-9) unfolding entry_ok_def by blast
qed

text \<open>An entry that the pool holds or that is in use is not being closed.\<close>

lemma entry_live:
  assumes "entry_ok p ts m e" and "models p (ppath e) = Some m \<or> 0 < busy e"
  shows "tsum (closes m) ts = 0" and "idle e \<noteq> None"
proof -
  have pos: "0 \<le> tsum (closes m) ts" by simp
  have "0 < tsum (closes m) ts + of_bool (idle e = None) \<longrightarrow> models p (ppath e) \<noteq> Some m \<and> busy e = 0"
    using assms(1) unfolding entry_ok_def by blast
  then have "\<not> 0 < tsum (closes m) ts + of_bool (idle e = None)" using assms(2) by (metis less_irrefl)
  then show "tsum (closes m) ts = 0" "idle e \<noteq> None" using pos by (cases "idle e = None"; simp)+
qed

lemma lane_count_upd:
  assumes "i < length ts" and "m < length (heap p)" and "heap p' = (heap p)[m := e]"
  shows "lane_count p' (ts[i := q]) l = lane_count p ts l
    + (int (count_list (closedLanes p') l) - int (count_list (closedLanes p) l))
    + (int (count_list (idle_lanes e) l) - int (count_list (idle_lanes (heap p ! m)) l)) + (leases l q - leases l (ts ! i))"
  using assms by (simp add: lane_count_def sum_list_upd)

lemma model_count_upd:
  assumes "i < length ts" and "m < length (heap p)" and "heap p' = (heap p)[m := e]"
  shows "model_count p' (ts[i := q]) md = model_count p ts md
    + (int (count_list (closedModels p') md) - int (count_list (closedModels p) md))
    + (keeps md e - keeps md (heap p ! m)) + (carries md q - carries md (ts ! i))"
  using assms by (simp add: model_count_def sum_list_upd)

lemma keeps_pos: "0 \<le> keeps md e"
  by (simp add: keeps_def)

lemma sys_eta: "s\<lparr>threads := ts, pool := p\<rparr> = \<lparr>pool = p, threads = ts, nextModel = nextModel s, nextLane = nextLane s\<rparr>"
  by (cases s) simp

lemma inv_get:
  assumes inv: "sys_ok s" and i: "i < length (threads s)" and q: "threads s ! i = Free \<or> threads s ! i = Waiting path typ m"
    and g: "get_begin (pool s) path = (r, p)"
  shows "sys_ok (set_pc s i (after_get path typ r) p)"
proof -
  let ?p = "pool s"
  have same: "uses k (threads s ! i) = 0" "opens k (threads s ! i) = 0" "closes k (threads s ! i) = 0"
      "leases k (threads s ! i) = 0" "carries k (threads s ! i) = 0" for k
    using q by auto
  consider "r = GetClosed" "p = ?p" | m where "r = GetHeld m" "p = ?p" "models ?p path = Some m"
    | "models ?p path = None" "r = GetNew (length (heap ?p))" "\<not> closed ?p"
      "p = ?p\<lparr>heap := heap ?p @ [\<lparr>ppath = path, ready = False, pmodel = None, perr = None, busy = 0, idle = Some [],
         lastUsed = 0, timer = None\<rparr>], models := (models ?p)(path \<mapsto> length (heap ?p))\<rparr>"
    using g by (auto simp: get_begin_def Let_def split: if_splits option.splits)
  then show ?thesis
  proof cases
    case 1
    then show ?thesis using inv_pc [OF inv i, of Free] same by (simp add: after_get_def pc_ok_def)
  next
    case 2
    then have "m < length (heap ?p) \<and> ppath (heap ?p ! m) = path" using inv_facts(3) [OF inv] by (simp add: pool_ok_def)
    then show ?thesis using inv_pc [OF inv i, of "Waiting path typ m"] same 2 by (simp add: after_get_def pc_ok_def)
  next
    case 3
    let ?n = "length (heap ?p)" and ?ts = "(threads s)[i := Opening path typ (length (heap ?p))]"
    have h: "k < ?n \<Longrightarrow> heap p ! k = heap ?p ! k" "length (heap p) = Suc ?n" for k using 3 by (simp_all add: nth_append)
    have fresh: "tsum (uses ?n) (threads s) = 0" "tsum (opens ?n) (threads s) = 0" "tsum (closes ?n) (threads s) = 0"
    proof -
      have "uses ?n x = 0 \<and> opens ?n x = 0 \<and> closes ?n x = 0" if "x \<in> set (threads s)" for x
      proof -
        have "pc_ok ?p x" using inv that by (simp add: sys_ok_def)
        then show ?thesis by (cases x) (auto simp: pc_ok_def count_list_0_iff)
      qed
      then have z: "map (uses ?n) (threads s) = map (\<lambda>_. 0) (threads s)" "map (opens ?n) (threads s) = map (\<lambda>_. 0) (threads s)"
          "map (closes ?n) (threads s) = map (\<lambda>_. 0) (threads s)" by simp_all
      show "tsum (uses ?n) (threads s) = 0" "tsum (opens ?n) (threads s) = 0" "tsum (closes ?n) (threads s) = 0"
        unfolding z by simp_all
    qed
    have mod_ok: "models ?p x = Some k \<Longrightarrow> k < ?n \<and> ppath (heap ?p ! k) = x" for x k
      using inv_facts(3) [OF inv] by (simp add: pool_ok_def)
    have entry: "entry_ok p ?ts k (heap p ! k)" if "k < Suc ?n" for k
    proof (cases "k = ?n")
      case True
      then show ?thesis using 3 fresh by (simp add: entry_ok_def sum_list_upd [OF i] same)
    next
      case False
      then have k: "k < ?n" using that by simp
      have "models p (ppath (heap ?p ! k)) = Some k \<longleftrightarrow> models ?p (ppath (heap ?p ! k)) = Some k"
        using 3 False by auto
      then show ?thesis using inv_facts(1) [OF inv k] False unfolding entry_ok_def h(1) [OF k]
        by (auto simp: sum_list_upd [OF i] same)
    qed
    have "pc_ok p x" if "x \<in> set ?ts" for x
    proof -
      from that consider "x = Opening path typ ?n" | "x \<in> set (threads s)" by (meson insertE set_update_subset_insert subsetD)
      then show ?thesis
      proof cases
        case 2
        then have "pc_ok ?p x" using inv by (simp add: sys_ok_def)
        moreover have "holds p k \<longleftrightarrow> holds ?p k" if "k < ?n" for k
          using that h(1) 3 by (auto simp: holds_def)
        ultimately show ?thesis using h by (auto simp: pc_ok_def split: pc.splits)
      qed (use 3 in \<open>simp add: pc_ok_def\<close>)
    qed
    moreover have "pool_ok p"
      using mod_ok 3(3,4) by (auto simp: pool_ok_def nth_append dest!: mod_ok intro: less_SucI)
    moreover have "lane_count p ?ts l \<le> of_bool (l < nextLane s)" "model_count p ?ts md = of_bool (md < nextModel s)" for l md
      using inv_facts(4,5) [OF inv] 3 same
      by (simp_all add: lane_count_def model_count_def sum_list_upd [OF i] idle_lanes_def keeps_def)
    ultimately show ?thesis using entry 3 h by (simp add: sys_ok_def after_get_def)
  qed
qed

lemma models_del: "(models p)(x := None) \<subseteq>\<^sub>m models p"
  by (auto simp: map_le_def)

lemma pool_ok_del: "pool_ok p \<Longrightarrow> closed p \<Longrightarrow> models p = Map.empty"
  by (simp add: pool_ok_def)

lemma inv_OpenReturns:
  assumes inv: "sys_ok s" and i: "i < length (threads s)" and q: "threads s ! i = Opening path typ m"
    and r: "r = (if ok then Inr (nextModel s) else Inl OpenFailed)" and g: "get_held (pool s) m r = (held, p)"
  shows "sys_ok ((set_pc s i (Publishing path typ m r held) p)\<lparr>nextModel := nextModel s + (if ok then 1 else 0)\<rparr>)"
proof -
  let ?e = "heap (pool s) ! m" and ?ts = "(threads s)[i := Publishing path typ m r held]"
  have m: "m < length (heap (pool s))" using inv_facts(2) [OF inv i] q by (simp add: pc_ok_def)
  have p: "heap p = heap (pool s)" "closedLanes p = closedLanes (pool s)" "closedModels p = closedModels (pool s)"
      "closed p = closed (pool s)" "held = holds (pool s) m"
      "models p = (if held \<and> \<not> ok then (models (pool s))(ppath ?e := None) else models (pool s))"
    using g r by (cases ok; auto simp: get_held_def Let_def)+
  have le: "models p \<subseteq>\<^sub>m models (pool s)" using p by (simp add: models_del)
  have "closed p \<longrightarrow> models p = Map.empty" using inv_facts(3) [OF inv] p by (auto simp: pool_ok_def)
  moreover have "entry_ok p ?ts m ?e"
    by (rule entry_ok_mono [OF inv_facts(1) [OF inv m]]) (use p q in \<open>auto simp: sum_list_upd [OF i] split: if_splits\<close>)
  moreover have "pc_ok p (Publishing path typ m r held)"
    using inv_facts(2) [OF inv i] m p r q by (auto simp: pc_ok_def holds_def)
  moreover have "lane_count p ?ts l \<le> of_bool (l < nextLane s)" for l
    using inv_facts(4) [OF inv, of l] p q by (simp add: lane_count_def sum_list_upd [OF i])
  moreover have "model_count p ?ts md = of_bool (md < nextModel s + (if ok then 1 else 0))" for md
    using inv_facts(5) [OF inv, of md] p q r by (auto simp: model_count_def sum_list_upd [OF i])
  ultimately show ?thesis
    using inv_upd [OF inv i m _ le, of ?e "Publishing path typ m r held" "nextLane s" "nextModel s + (if ok then 1 else 0)"] p(1) q
    by (simp add: sys_eta)
qed

lemma inv_Publish:
  assumes inv: "sys_ok s" and i: "i < length (threads s)" and q: "threads s ! i = Publishing path typ m r held"
  shows "sys_ok (set_pc s i (Waiting path typ m) (get_publish (pool s) m r held))"
proof -
  let ?e = "heap (pool s) ! m" and ?ts = "(threads s)[i := Waiting path typ m]" and ?p = "get_publish (pool s) m r held"
  have pq: "pc_ok (pool s) (threads s ! i)" by (rule inv_facts(2) [OF inv i])
  then have m: "m < length (heap (pool s))" using q by (simp add: pc_ok_def)
  note E = inv_facts(1) [OF inv m]
  have "opens m (threads s ! i) \<le> tsum (opens m) (threads s)" by (rule tsum_ge(2) [OF i])
  then have "\<not> ready ?e" using E q unfolding entry_ok_def by auto
  note nr = this entry_unready [OF E this]
  have "pmodel ?e = None" using nr(1) E unfolding entry_ok_def by blast
  then have k0: "keeps md ?e = 0" for md by (simp add: keeps_def)
  obtain e' where e': "heap ?p = (heap (pool s))[m := e']" "models ?p = models (pool s)" "closed ?p = closed (pool s)"
      "closedLanes ?p = closedLanes (pool s)" "ready e'" "ppath e' = ppath ?e" "idle e' = idle ?e" "busy e' = busy ?e" "timer e' = timer ?e"
      "\<forall>md. int (count_list (closedModels ?p) md) + keeps md e' = int (count_list (closedModels (pool s)) md) + carries md (threads s ! i)"
      "held \<and> (\<exists>md. r = Inr md) \<longrightarrow> perr e' = None \<and> pmodel e' \<noteq> None"
    using nr(4) unfolding q by (cases r; cases held) (auto simp: get_publish_def keeps_def)
  have "closed ?p \<longrightarrow> models ?p = Map.empty" using inv_facts(3) [OF inv] e' by (auto simp: pool_ok_def)
  moreover have "entry_ok ?p ?ts m e'"
    using E e' q nr pq by (auto simp: entry_ok_def sum_list_upd [OF i] pc_ok_def holds_def)
  moreover have "pc_ok ?p (Waiting path typ m)" using pq m e' q by (simp add: pc_ok_def)
  moreover have "lane_count ?p ?ts l \<le> of_bool (l < nextLane s)" for l
    using inv_facts(4) [OF inv, of l] e' q unfolding lane_count_upd [OF i m e'(1)] by (simp add: idle_lanes_def)
  moreover have "model_count ?p ?ts md = of_bool (md < nextModel s)" for md
    using inv_facts(5) [OF inv, of md] spec [OF e'(10), of md] k0 [of md]
    unfolding model_count_upd [OF i m e'(1)] by simp
  ultimately show ?thesis
    using inv_upd [OF inv i m e'(1), of "Waiting path typ m" "nextLane s" "nextModel s"] e' q
    by (simp add: sys_eta)
qed

section \<open>Lanes in the idle lists\<close>

lemma concat_update:
  assumes "distinct (map fst al)"
  shows "count_list (concat (map snd (AList.update k v al))) l + count_list (case map_of al k of None \<Rightarrow> [] | Some w \<Rightarrow> w) l
    = count_list (concat (map snd al)) l + count_list v l"
  using assms
proof (induction al)
  case (Cons a al)
  obtain j w where a: "a = (j, w)" by (cases a)
  show ?case
  proof (cases "j = k")
    case True
    then show ?thesis using a by simp
  next
    case False
    then show ?thesis using Cons a by simp
  qed
qed simp

lemma idle_update:
  assumes "idle e = Some al" and "distinct (map fst al)"
  shows "count_list (idle_lanes (e\<lparr>idle := Some (AList.update typ v al)\<rparr>)) l + count_list (idle_of e typ) l
    = count_list (idle_lanes e) l + count_list v l"
  using concat_update [OF assms(2), of "typ" v l] assms(1) by (simp add: idle_lanes_def idle_of_def)

lemma count_butlast: "ls \<noteq> [] \<Longrightarrow> count_list (butlast ls) l + of_bool (last ls = l) = count_list ls l"
  by (induction ls) auto

lemma inv_Wake_hold:
  assumes inv: "sys_ok s" and i: "i < length (threads s)" and q: "threads s ! i = Waiting path typ m"
    and rdy: "ready (heap (pool s) ! m)" and a: "acquire_try (pool s) path typ m = (res, p)"
    and res: "res = Reused l \<and> q' = Leased typ m l \<or> res = NeedLane \<and> q' = LaneOpening typ m"
  shows "sys_ok (set_pc s i q' p)"
proof -
  let ?e = "heap (pool s) ! m" and ?ts = "(threads s)[i := q']"
  have pq: "m < length (heap (pool s))" "ppath ?e = path" using inv_facts(2) [OF inv i] q by (simp_all add: pc_ok_def)
  note m = pq(1) note E = inv_facts(1) [OF inv m]
  have h: "perr ?e = None" "models (pool s) path = Some m"
    using a res by (auto simp: acquire_try_def Let_def split: option.splits if_splits)
  have live: "tsum (closes m) (threads s) = 0" "idle ?e \<noteq> None" using entry_live [OF E] h(2) pq(2) by simp_all
  then obtain al where al: "idle ?e = Some al" "distinct (map fst al)" using E unfolding entry_ok_def by auto
  let ?e1 = "?e\<lparr>busy := busy ?e + 1, timer := None\<rparr>" and ?ls = "idle_of ?e typ"
  have cases: "?ls \<noteq> [] \<and> res = Reused (last ?ls) \<and> heap p = (heap (pool s))[m := ?e1\<lparr>idle := Some (AList.update typ (butlast ?ls) al)\<rparr>]
      \<or> ?ls = [] \<and> res = NeedLane \<and> heap p = (heap (pool s))[m := ?e1]"
    using a h m al by (auto simp: acquire_try_def Let_def split: if_splits)
  have p: "models p = models (pool s)" "closed p = closed (pool s)" "closedLanes p = closedLanes (pool s)" "closedModels p = closedModels (pool s)"
    using a h by (auto simp: acquire_try_def Let_def split: if_splits)
  obtain e' where e': "heap p = (heap (pool s))[m := e']" "ppath e' = path" "ready e'" "busy e' = busy ?e + 1" "timer e' = None"
      "perr e' = perr ?e" "pmodel e' = pmodel ?e" "idle e' \<noteq> None" "\<forall>al. idle e' = Some al \<longrightarrow> distinct (map fst al)"
      "\<forall>l. int (count_list (idle_lanes e') l) + leases l q' = int (count_list (idle_lanes ?e) l)"
  proof -
    have "int (count_list (idle_lanes (?e\<lparr>idle := Some (AList.update typ (butlast ?ls) al)\<rparr>)) l) + of_bool (last ?ls = l)
        = int (count_list (idle_lanes ?e) l)" if "?ls \<noteq> []" for l
      using idle_update [OF al, of "typ" "butlast ?ls" l] count_butlast [OF that, of l] by (auto split: if_splits)
    then have cnt: "int (count_list (idle_lanes (?e1\<lparr>idle := Some (AList.update typ (butlast ?ls) al)\<rparr>)) l) + of_bool (last ?ls = l)
        = int (count_list (idle_lanes ?e) l)" if "?ls \<noteq> []" for l
      using that by (simp add: idle_lanes_def)
    from cases show thesis
      by (elim disjE; intro that [of "heap p ! m"])
        (use cnt res rdy al pq distinct_update [OF al(2)] in \<open>auto simp: idle_lanes_def\<close>)
  qed
  have "closed p \<longrightarrow> models p = Map.empty" using inv_facts(3) [OF inv] p by (auto simp: pool_ok_def)
  moreover have u: "uses m q' = 1" "opens m q' = 0" "closes m q' = 0" "carries md q' = 0" for md using res by auto
  moreover have "entry_ok p ?ts m e'"
    using E e' h p q pq u live rdy unfolding entry_ok_def by (simp add: sum_list_upd [OF i])
  moreover have "pc_ok p q'" using res m e'(1) by (auto simp: pc_ok_def)
  moreover have "lane_count p ?ts k \<le> of_bool (k < nextLane s)" for k
    using inv_facts(4) [OF inv, of k] spec [OF e'(10), of k] p q unfolding lane_count_upd [OF i m e'(1)] by simp
  moreover have "model_count p ?ts md = of_bool (md < nextModel s)" for md
    using inv_facts(5) [OF inv, of md] p q u e' live unfolding model_count_upd [OF i m e'(1)] by (simp add: keeps_def)
  moreover have "k \<noteq> m \<Longrightarrow> uses k q' = 0 \<and> opens k q' = 0 \<and> closes k q' = 0" for k using res by auto
  ultimately show ?thesis
    using inv_upd [OF inv i m e'(1), of q' "nextLane s" "nextModel s"] e' p pq q by (simp add: sys_eta)
qed

lemma release_frame:
  assumes "release p m typ lane = Some (cl, p')" and m: "m < length (heap p)"
    and al: "\<forall>al. idle (heap p ! m) = Some al \<longrightarrow> distinct (map fst al)"
  shows "\<exists>e. heap p' = (heap p)[m := e] \<and> ppath e = ppath (heap p ! m) \<and> ready e = ready (heap p ! m)
    \<and> pmodel e = pmodel (heap p ! m) \<and> perr e = perr (heap p ! m) \<and> busy e = busy (heap p ! m) - 1
    \<and> (idle e = None \<longleftrightarrow> idle (heap p ! m) = None) \<and> (\<forall>al. idle e = Some al \<longrightarrow> distinct (map fst al))
    \<and> (\<forall>l. int (count_list (idle_lanes e) l) = int (count_list (idle_lanes (heap p ! m)) l) + of_bool (lane = Some l))
    \<and> models p' = models p \<and> closed p' = closed p \<and> closedLanes p' = closedLanes p \<and> closedModels p' = closedModels p
    \<and> (cl \<longleftrightarrow> \<not> 0 < busy e \<and> (closed p \<or> \<not> holds p m))"
proof -
  let ?e = "heap p ! m"
  define e1 where "e1 = (case lane of None \<Rightarrow> ?e | Some l \<Rightarrow> ?e\<lparr>idle := map_option (AList.update typ (idle_of ?e typ @ [l])) (idle ?e)\<rparr>)"
  have nn: "lane = None \<or> idle ?e \<noteq> None" using assms(1) by (auto simp: release_def split: if_splits)
  have e1: "ppath e1 = ppath ?e" "ready e1 = ready ?e" "pmodel e1 = pmodel ?e" "perr e1 = perr ?e" "busy e1 = busy ?e"
      "idle e1 = None \<longleftrightarrow> idle ?e = None" "\<forall>al. idle e1 = Some al \<longrightarrow> distinct (map fst al)"
    using al by (auto simp: e1_def distinct_update split: option.splits)
  have cnt: "int (count_list (idle_lanes e1) l) = int (count_list (idle_lanes ?e) l) + of_bool (lane = Some l)" for l
  proof (cases lane)
    case (Some k)
    then obtain al' where a: "idle ?e = Some al'" using nn by auto
    from idle_update [OF a, of "typ" "idle_of ?e typ @ [k]" l] al a Some show ?thesis by (simp add: e1_def)
  qed (simp add: e1_def)
  have p: "p' = (let e2 = e1\<lparr>busy := busy e1 - 1\<rparr>;
      e3 = (if 0 < busy e2 then e2
            else if closed p \<or> \<not> holds p m \<or> \<not> 0 < keepAlive p then e2\<lparr>lastUsed := clock p\<rparr>
            else e2\<lparr>lastUsed := clock p, timer := Some (clock p + keepAlive p)\<rparr>)
      in p\<lparr>heap := (heap p)[m := e3]\<rparr>) \<and> (cl \<longleftrightarrow> \<not> 0 < busy e1 - 1 \<and> (closed p \<or> \<not> holds p m))"
    using assms(1) m nn by (cases lane) (auto simp: release_def Let_def e1_def split: if_splits)
  show ?thesis
    by (rule exI [of _ "heap p' ! m"]) (use p e1 cnt m in \<open>auto simp: Let_def idle_lanes_def\<close>)
qed

lemma inv_release:
  assumes inv: "sys_ok s" and i: "i < length (threads s)"
    and q: "threads s ! i = Leased typ m l \<and> lane = Some l \<or> threads s ! i = LaneOpening typ m \<and> lane = None"
    and r: "release (pool s) m typ lane = Some (cl, p)"
  shows "sys_ok (set_pc s i (if cl then Closing [m] else Free) p)"
proof -
  let ?e = "heap (pool s) ! m" and ?q = "if cl then Closing [m] else Free"
  let ?ts = "(threads s)[i := ?q]"
  have m: "m < length (heap (pool s))" using inv_facts(2) [OF inv i] q by (auto simp: pc_ok_def)
  note E = inv_facts(1) [OF inv m]
  have "\<forall>al. idle ?e = Some al \<longrightarrow> distinct (map fst al)" using E unfolding entry_ok_def by blast
  from release_frame [OF r m this] obtain e where e: "heap p = (heap (pool s))[m := e]" "ppath e = ppath ?e" "ready e = ready ?e"
      "pmodel e = pmodel ?e" "perr e = perr ?e" "busy e = busy ?e - 1" "idle e = None \<longleftrightarrow> idle ?e = None"
      "\<forall>al. idle e = Some al \<longrightarrow> distinct (map fst al)"
      "\<forall>l. int (count_list (idle_lanes e) l) = int (count_list (idle_lanes ?e) l) + of_bool (lane = Some l)"
    and p: "models p = models (pool s)" "closed p = closed (pool s)" "closedLanes p = closedLanes (pool s)" "closedModels p = closedModels (pool s)"
    and cl: "cl \<longleftrightarrow> \<not> 0 < busy e \<and> (closed (pool s) \<or> \<not> holds (pool s) m)"
    by (elim exE conjE) (rule that)
  have u: "uses m (threads s ! i) = 1" "opens k (threads s ! i) = 0" "closes k (threads s ! i) = 0" "carries k (threads s ! i) = 0"
      "leases k (threads s ! i) = of_bool (lane = Some k)" "k \<noteq> m \<Longrightarrow> uses k (threads s ! i) = 0" for k
    using q by auto
  have b: "0 < busy ?e" using E tsum_ge(1) [OF i, of m] u unfolding entry_ok_def by linarith
  note live = entry_live [OF E disjI2, OF b]
  have "\<not> holds p m" if cl using that cl inv_facts(3) [OF inv] e(1,2) m p by (auto simp: holds_def pool_ok_def)
  then have nh: "cl \<Longrightarrow> models p (ppath e) \<noteq> Some m" using e(1) m by (simp add: holds_def)
  have q': "uses k ?q = 0" "opens k ?q = 0" "closes k ?q = of_bool (cl \<and> k = m)" "leases k ?q = 0" "carries k ?q = 0" for k by auto
  have be: "busy e = tsum (uses m) ?ts" using e(6) E u(1) q'(1) unfolding entry_ok_def by (simp add: sum_list_upd [OF i])
  then have be0: "0 \<le> busy e" by simp
  have c1: "tsum (closes m) ?ts = of_bool cl" using live u q' by (simp add: sum_list_upd [OF i])
  have rd: "ready ?e" "perr ?e = None" "pmodel ?e \<noteq> None" "tsum (opens m) ?ts = 0"
    using E b u q' unfolding entry_ok_def by (simp_all add: sum_list_upd [OF i])
  have "entry_ok p ?ts m e"
  proof (rule entry_okI [OF be _ c1])
    show "tsum (opens m) ?ts = of_bool (\<not> ready e)" using rd e(3) by simp
    show "idle e \<noteq> None" using e(7) live by simp
    show "models p (ppath e) \<noteq> Some m \<and> busy e = 0 \<and> ready e" if cl
      using that nh cl be0 rd(1) e(3) by simp
  qed (use rd e(3-5,8) in simp_all)
  moreover have "closed p \<longrightarrow> models p = Map.empty" using inv_facts(3) [OF inv] p by (auto simp: pool_ok_def)
  moreover have "pc_ok p ?q" using m e(1) by (simp add: pc_ok_def)
  moreover have "lane_count p ?ts k \<le> of_bool (k < nextLane s)" for k
    using inv_facts(4) [OF inv, of k] spec [OF e(9), of k] p u q' unfolding lane_count_upd [OF i m e(1)] by simp
  moreover have "keeps md e = keeps md ?e" for md using e by (simp add: keeps_def)
  then have "model_count p ?ts md = of_bool (md < nextModel s)" for md
    using inv_facts(5) [OF inv, of md] p u q' unfolding model_count_upd [OF i m e(1)] by simp
  ultimately show ?thesis
    using inv_upd [OF inv i m e(1), of ?q "nextLane s" "nextModel s"] e(2,3) p u q' by (simp add: sys_eta)
qed

lemma entry_closing:
  assumes "entry_ok p ts m e" and "1 \<le> tsum (closes m) ts"
  shows "tsum (closes m) ts = 1" and "idle e \<noteq> None" and "models p (ppath e) \<noteq> Some m \<and> busy e = 0 \<and> ready e"
proof -
  have a: "tsum (closes m) ts + of_bool (idle e = None) \<le> 1"
      and b: "0 < tsum (closes m) ts + of_bool (idle e = None) \<longrightarrow> models p (ppath e) \<noteq> Some m \<and> busy e = 0 \<and> ready e"
    using assms(1) unfolding entry_ok_def by blast+
  have "0 < tsum (closes m) ts + of_bool (idle e = None)" using assms(2) by (simp add: add_pos_nonneg)
  with b show "models p (ppath e) \<noteq> Some m \<and> busy e = 0 \<and> ready e" by (rule mp)
  show "tsum (closes m) ts = 1" "idle e \<noteq> None" using a assms(2) by (cases "idle e = None"; simp)+
qed

lemma inv_LaneOpened:
  assumes inv: "sys_ok s" and i: "i < length (threads s)" and q: "threads s ! i = LaneOpening typ m"
  shows "sys_ok ((set_pc s i (Leased typ m (nextLane s)) (pool s))\<lparr>nextLane := nextLane s + 1\<rparr>)"
proof -
  let ?p = "pool s" and ?q = "Leased typ m (nextLane s)"
  have m: "m < length (heap ?p)" using inv_facts(2) [OF inv i] q by (simp add: pc_ok_def)
  have h: "heap ?p = (heap ?p)[m := heap ?p ! m]" by simp
  have "entry_ok ?p ((threads s)[i := ?q]) m (heap ?p ! m)"
    by (rule entry_ok_mono [OF inv_facts(1) [OF inv m]]) (use q in \<open>simp_all add: sum_list_upd [OF i]\<close>)
  moreover have "lane_count ?p ((threads s)[i := ?q]) l \<le> of_bool (l < nextLane s + 1)" for l
    using inv_facts(4) [OF inv, of l] q unfolding lane_count_upd [OF i m h] by (auto split: if_splits)
  moreover have "model_count ?p ((threads s)[i := ?q]) md = of_bool (md < nextModel s)" for md
    using inv_facts(5) [OF inv, of md] q unfolding model_count_upd [OF i m h] by simp
  moreover have "closed ?p \<longrightarrow> models ?p = Map.empty" using inv_facts(3) [OF inv] by (simp add: pool_ok_def)
  ultimately show ?thesis
    using inv_upd [OF inv i m h, of ?q "nextLane s + 1" "nextModel s"] q m by (simp add: sys_eta pc_ok_def)
qed

lemma inv_Fire:
  assumes inv: "sys_ok s" and i: "i < length (threads s)" and q: "threads s ! i = Free"
    and m: "m < length (heap (pool s))" and t: "timer (heap (pool s) ! m) = Some d"
  shows "sys_ok (set_pc s i (Expiring m) (upd_entry (pool s) m (\<lambda>x. x\<lparr>timer := None\<rparr>)))"
proof -
  let ?p = "upd_entry (pool s) m (\<lambda>x. x\<lparr>timer := None\<rparr>)" and ?e = "heap (pool s) ! m"
  let ?e' = "?e\<lparr>timer := None\<rparr>" and ?ts = "(threads s)[i := Expiring m]"
  have h: "heap ?p = (heap (pool s))[m := ?e']" by simp
  note E = inv_facts(1) [OF inv m]
  have rd: "ready ?e" using E t unfolding entry_ok_def by simp
  have "entry_ok ?p ?ts m ?e"
    by (rule entry_ok_mono [OF E]) (use q in \<open>simp_all add: sum_list_upd [OF i]\<close>)
  then have "entry_ok ?p ?ts m ?e'" by (auto simp: entry_ok_def)
  moreover have "pc_ok ?p (Expiring m)" using rd m by (simp add: pc_ok_def)
  moreover have "lane_count ?p ?ts l \<le> of_bool (l < nextLane s)" for l
    using inv_facts(4) [OF inv, of l] q unfolding lane_count_upd [OF i m h] by (simp add: idle_lanes_def)
  moreover have "model_count ?p ?ts md = of_bool (md < nextModel s)" for md
    using inv_facts(5) [OF inv, of md] q unfolding model_count_upd [OF i m h] by (simp add: keeps_def)
  moreover have "closed ?p \<longrightarrow> models ?p = Map.empty" using inv_facts(3) [OF inv] by (simp add: pool_ok_def)
  ultimately show ?thesis
    using inv_upd [OF inv i m h, of "Expiring m" "nextLane s" "nextModel s"] q by (simp add: sys_eta)
qed

lemma inv_Expire:
  assumes inv: "sys_ok s" and i: "i < length (threads s)" and q: "threads s ! i = Expiring m"
    and e: "expire (pool s) m = (cl, p)"
  shows "sys_ok (set_pc s i (if cl then Closing [m] else Free) p)"
proof (cases cl)
  case False
  then have "p = pool s" using e by (auto simp: expire_def split: if_splits)
  then show ?thesis using False inv_pc [OF inv i, of Free] q by (simp add: pc_ok_def)
next
  case True
  let ?e = "heap (pool s) ! m" and ?ts = "(threads s)[i := Closing [m]]"
  have m: "m < length (heap (pool s))" "ready ?e" using inv_facts(2) [OF inv i] q by (simp_all add: pc_ok_def)
  have p: "p = (pool s)\<lparr>models := (models (pool s))(ppath ?e := None)\<rparr>" "\<not> 0 < busy ?e" "holds (pool s) m"
    using e True by (auto simp: expire_def split: if_splits)
  note E = inv_facts(1) [OF inv m(1)]
  have h: "heap p = (heap (pool s))[m := ?e]" using p by simp
  have "0 \<le> busy ?e" using E unfolding entry_ok_def by simp
  then have pos: "busy ?e = 0" using p(2) by linarith
  note live = entry_live [OF E, OF disjI1, OF p(3) [unfolded holds_def]]
  have "entry_ok p ?ts m ?e"
  proof (rule entry_okI [where c = True])
    show "tsum (closes m) ?ts = of_bool True" using live q by (simp add: sum_list_upd [OF i])
  qed (use E live p pos m(2) q in \<open>simp_all add: entry_ok_def sum_list_upd [OF i]\<close>)
  moreover have "lane_count p ?ts l \<le> of_bool (l < nextLane s)" for l
    using inv_facts(4) [OF inv, of l] q p unfolding lane_count_upd [OF i m(1) h] by simp
  moreover have "model_count p ?ts md = of_bool (md < nextModel s)" for md
    using inv_facts(5) [OF inv, of md] q p unfolding model_count_upd [OF i m(1) h] by simp
  moreover have "closed p \<longrightarrow> models p = Map.empty" using inv_facts(3) [OF inv] p by (auto simp: pool_ok_def)
  ultimately show ?thesis
    using inv_upd [OF inv i m(1) h, of "Closing [m]" "nextLane s" "nextModel s"] q p True m
    by (simp add: sys_eta pc_ok_def models_del)
qed

lemma inv_CloseEntry:
  assumes inv: "sys_ok s" and i: "i < length (threads s)" and q: "threads s ! i = Closing (m # ms)"
  shows "sys_ok (set_pc s i (Closing ms) (pooled_close (pool s) m))"
proof -
  let ?e = "heap (pool s) ! m" and ?ts = "(threads s)[i := Closing ms]" and ?p = "pooled_close (pool s) m"
  let ?e' = "?e\<lparr>timer := None, idle := None\<rparr>"
  have m: "m < length (heap (pool s))" "\<forall>k \<in> set ms. k < length (heap (pool s))"
    using inv_facts(2) [OF inv i] q by (simp_all add: pc_ok_def)
  note E = inv_facts(1) [OF inv m(1)]
  have h: "heap ?p = (heap (pool s))[m := ?e']" by (simp add: pooled_close_def)
  have p: "models ?p = models (pool s)" "closed ?p = closed (pool s)" "closedLanes ?p = closedLanes (pool s) @ idle_lanes ?e"
      "closedModels ?p = closedModels (pool s) @ (case pmodel ?e of None \<Rightarrow> [] | Some md \<Rightarrow> [md])"
    by (simp_all add: pooled_close_def)
  have "1 \<le> closes m (threads s ! i)" using q by simp
  then have c1: "1 \<le> tsum (closes m) (threads s)" using tsum_ge(3) [OF i, of m] by linarith
  note c = entry_closing [OF E c1]
  have "entry_ok ?p ?ts m ?e'"
    using E c p q unfolding entry_ok_def by (simp add: sum_list_upd [OF i])
  moreover have "pc_ok ?p (Closing ms)" using m h by (simp add: pc_ok_def)
  moreover have "lane_count ?p ?ts l \<le> of_bool (l < nextLane s)" for l
    using inv_facts(4) [OF inv, of l] q p unfolding lane_count_upd [OF i m(1) h] by (simp add: idle_lanes_def)
  moreover have "model_count ?p ?ts md = of_bool (md < nextModel s)" for md
    using inv_facts(5) [OF inv, of md] q p c unfolding model_count_upd [OF i m(1) h]
    by (cases "pmodel ?e") (simp_all add: keeps_def)
  moreover have "closed ?p \<longrightarrow> models ?p = Map.empty" using inv_facts(3) [OF inv] p by (auto simp: pool_ok_def)
  moreover have "k \<noteq> m \<Longrightarrow> closes k (Closing ms) = closes k (threads s ! i)" for k using q by simp
  ultimately show ?thesis
    using inv_upd [OF inv i m(1) h, of "Closing ms" "nextLane s" "nextModel s"] q p by (simp add: sys_eta)
qed

lemma count_list_distinct: "distinct xs \<Longrightarrow> int (count_list xs k) = of_bool (k \<in> set xs)"
  by (induction xs) auto

lemma inv_ClosePool:
  assumes inv: "sys_ok s" and i: "i < length (threads s)" and q: "threads s ! i = Free"
    and c: "Pool_Close (pool s) = (ms, p)"
  shows "sys_ok (set_pc s i (Closing ms) p)"
proof (cases "closed (pool s)")
  case True
  then show ?thesis using c inv_pc [OF inv i, of "Closing []"] q by (auto simp: Pool_Close_def pc_ok_def)
next
  case False
  let ?p = "pool s" and ?ts = "(threads s)[i := Closing ms]"
  have p: "p = ?p\<lparr>closed := True, models := Map.empty\<rparr>"
      and ms: "ms = filter (\<lambda>m. holds ?p m \<and> ready (heap ?p ! m) \<and> busy (heap ?p ! m) = 0) [0..<length (heap ?p)]"
    using c False by (auto simp: Pool_Close_def held_entries_def filter_filter conj_commute)
  have "distinct ms" unfolding ms by simp
  then have cnt: "int (count_list ms k) = of_bool (k \<in> set ms)" for k
    by (rule count_list_distinct)
  have entry: "entry_ok p ?ts k (heap ?p ! k)" if k: "k < length (heap ?p)" for k
  proof (cases "k \<in> set ms")
    case True
    then have h: "holds ?p k" "ready (heap ?p ! k)" "busy (heap ?p ! k) = 0" unfolding ms by auto
    note E = inv_facts(1) [OF inv k]
    note live = entry_live [OF E, OF disjI1, OF h(1) [unfolded holds_def]]
    show ?thesis
    proof (rule entry_okI [where c = True])
      show "tsum (closes k) ?ts = of_bool True" using live True q cnt by (simp add: sum_list_upd [OF i])
    qed (use E live h p q in \<open>simp_all add: entry_ok_def sum_list_upd [OF i]\<close>)
  next
    case False
    show ?thesis
      by (rule entry_ok_mono [OF inv_facts(1) [OF inv k]]) (use False q cnt [of k] p in \<open>simp_all add: sum_list_upd [OF i]\<close>)
  qed
  have "pc_ok p x" if "x \<in> set ?ts" for x
  proof -
    from that consider "x = Closing ms" | "x \<in> set (threads s)" by (meson insertE set_update_subset_insert subsetD)
    then show ?thesis
    proof cases
      case 1
      then show ?thesis unfolding ms by (auto simp: pc_ok_def p)
    next
      case 2
      then have "pc_ok ?p x" using inv by (simp add: sys_ok_def)
      then show ?thesis by (auto simp: pc_ok_def holds_def p split: pc.splits)
    qed
  qed
  moreover have "pool_ok p" by (simp add: pool_ok_def p)
  moreover have "lane_count p ?ts l \<le> of_bool (l < nextLane s)" "model_count p ?ts md = of_bool (md < nextModel s)" for l md
    using inv_facts(4) [OF inv, of l] inv_facts(5) [OF inv, of md] q
    by (simp_all add: lane_count_def model_count_def sum_list_upd [OF i] p)
  ultimately show ?thesis using entry p by (simp add: sys_ok_def)
qed

lemma clock_frame:
  "pool_ok (p\<lparr>clock := c\<rparr>) = pool_ok p" "entry_ok (p\<lparr>clock := c\<rparr>) = entry_ok p" "pc_ok (p\<lparr>clock := c\<rparr>) = pc_ok p"
  "lane_count (p\<lparr>clock := c\<rparr>) = lane_count p" "model_count (p\<lparr>clock := c\<rparr>) = model_count p"
  by (simp_all add: pool_ok_def entry_ok_def pc_ok_def holds_def lane_count_def model_count_def fun_eq_iff split: pc.split)

lemma inv_act: "sys_ok s \<Longrightarrow> act a s = Some s' \<Longrightarrow> sys_ok s'"
proof (cases a)
  case (Wake i)
  assume inv: "sys_ok s" and a: "act a s = Some s'"
  then obtain path ty m where i: "i < length (threads s)" and q: "threads s ! i = Waiting path ty m" and r: "ready (heap (pool s) ! m)"
    using Wake by (auto split: if_splits pc.splits)
  obtain res p where t: "acquire_try (pool s) path ty m = (res, p)" by (cases "acquire_try (pool s) path ty m")
  show ?thesis
  proof (cases res)
    case (Failed e)
    then have "p = pool s" using t by (auto simp: acquire_try_def Let_def split: option.splits if_splits)
    then show ?thesis using a Wake i q r t Failed inv_pc [OF inv i, of Free] by (simp add: pc_ok_def)
  next
    case Again
    then have p: "p = pool s" using t by (auto simp: acquire_try_def Let_def split: option.splits if_splits)
    obtain g p' where "get_begin (pool s) path = (g, p')" by (cases "get_begin (pool s) path")
    then show ?thesis using a Wake i q r t Again p inv_get [OF inv i disjI2, OF q] by simp
  next
    case (Reused l)
    then show ?thesis using a Wake i q r t inv_Wake_hold [OF inv i q r t] by simp
  next
    case NeedLane
    then show ?thesis using a Wake i q r t inv_Wake_hold [OF inv i q r t] by simp
  qed
next
  case (Tick d)
  assume "sys_ok s" and "act a s = Some s'"
  moreover from this have "s' = s\<lparr>pool := (pool s)\<lparr>clock := clock (pool s) + int d\<rparr>\<rparr>" using Tick by simp
  ultimately show ?thesis unfolding sys_ok_def by (simp add: clock_frame)
next
  case (CloseEntry i)
  assume inv: "sys_ok s" and a: "act a s = Some s'"
  then obtain ms where i: "i < length (threads s)" and q: "threads s ! i = Closing ms"
    using CloseEntry by (auto split: if_splits pc.splits)
  show ?thesis
  proof (cases ms)
    case Nil
    then show ?thesis using a CloseEntry i q inv_pc [OF inv i, of Free] by (auto simp: pc_ok_def)
  next
    case (Cons m ms')
    then show ?thesis using a CloseEntry i q inv_CloseEntry [OF inv i] by simp
  qed
next
  case (OpenReturns i ok)
  assume inv: "sys_ok s" and a: "act a s = Some s'"
  then obtain path ty m where i: "i < length (threads s)" and q: "threads s ! i = Opening path ty m"
    using OpenReturns by (auto split: if_splits pc.splits)
  obtain held p where "get_held (pool s) m (if ok then Inr (nextModel s) else Inl OpenFailed) = (held, p)"
    by (cases "get_held (pool s) m (if ok then Inr (nextModel s) else Inl OpenFailed)")
  then show ?thesis using a OpenReturns i q inv_OpenReturns [OF inv i q refl] by (simp only: act.simps pc.case if_True Let_def prod.case option.inject) blast
next
  case (LaneReturns i ok)
  assume inv: "sys_ok s" and a: "act a s = Some s'"
  then obtain ty m where i: "i < length (threads s)" and q: "threads s ! i = LaneOpening ty m"
    using LaneReturns by (auto split: if_splits pc.splits)
  show ?thesis
  proof (cases ok)
    case True
    then show ?thesis using a LaneReturns i q inv_LaneOpened [OF inv i q] by simp
  next
    case False
    then obtain cl p where "release (pool s) m ty None = Some (cl, p)" "s' = set_pc s i (if cl then Closing [m] else Free) p"
      using a LaneReturns i q by (cases "release (pool s) m ty None") auto
    then show ?thesis using inv_release [OF inv i, of ty m] q by blast
  qed
next
  case (Release i)
  assume inv: "sys_ok s" and a: "act a s = Some s'"
  then obtain ty m l where i: "i < length (threads s)" and q: "threads s ! i = Leased ty m l"
    using Release by (auto split: if_splits pc.splits)
  then obtain cl p where "release (pool s) m ty (Some l) = Some (cl, p)" "s' = set_pc s i (if cl then Closing [m] else Free) p"
    using a Release by (cases "release (pool s) m ty (Some l)") auto
  then show ?thesis using inv_release [OF inv i, of ty m] q by blast
next
  case (Expire i)
  assume inv: "sys_ok s" and a: "act a s = Some s'"
  then obtain m where i: "i < length (threads s)" and q: "threads s ! i = Expiring m"
    using Expire by (auto split: if_splits pc.splits)
  obtain cl p where "expire (pool s) m = (cl, p)" by (cases "expire (pool s) m")
  then show ?thesis using a Expire i q inv_Expire [OF inv i q] by simp
qed (auto simp: Let_def split: if_splits pc.splits option.splits prod.splits
      intro: inv_get inv_Publish inv_Fire inv_ClosePool)

lemma reachable_ok: "reachable ka n s \<Longrightarrow> sys_ok s"
  by (induction rule: reachable.induct) (auto simp: inv_start inv_act)

end
