(* ===== verification/Pool_Shutdown.thy ===== *)
theory Pool_Shutdown
  imports Pool_Invariant
begin

text \<open>
  What the pool guarantees: leases are safe, nothing is closed twice, and shutting down closes
  every model, with one exception, a race between \<open>Close\<close> and \<open>get\<close> that leaks a model.
\<close>

section \<open>Shutdown\<close>

text \<open>
  Runs in which \<open>Close\<close> never takes the mutex between the moment \<open>get\<close> has seen that its entry is
  still held and the moment it publishes the opened model.
\<close>

definition publishing_held :: "pc \<Rightarrow> bool" where
  "publishing_held q \<longleftrightarrow> (\<exists>path typ m md. q = Publishing path typ m (Inr md) True)"

fun calm :: "action \<Rightarrow> sys \<Rightarrow> bool" where
  "calm (ClosePool i) s \<longleftrightarrow> (\<forall>q \<in> set (threads s). \<not> publishing_held q)"
| "calm _ s \<longleftrightarrow> True"

inductive calm_reachable :: "int \<Rightarrow> nat \<Rightarrow> sys \<Rightarrow> bool" for ka n where
  init: "calm_reachable ka n (start ka n)"
| step: "calm_reachable ka n s \<Longrightarrow> calm a s \<Longrightarrow> act a s = Some s' \<Longrightarrow> calm_reachable ka n s'"

lemma calm_is_reachable: "calm_reachable ka n s \<Longrightarrow> reachable ka n s"
  by (induction rule: calm_reachable.induct) (auto intro: reachable.intros)

definition accounted :: "Pool \<Rightarrow> pc list \<Rightarrow> nat \<Rightarrow> bool" where
  "accounted p ts m \<longleftrightarrow> (pmodel (heap p ! m) \<noteq> None \<longrightarrow>
     holds p m \<or> 0 < busy (heap p ! m) \<or> 0 < tsum (closes m) ts \<or> idle (heap p ! m) = None)"

definition shut_ok :: "sys \<Rightarrow> bool" where
  "shut_ok s \<longleftrightarrow> (\<forall>m < length (heap (pool s)). accounted (pool s) (threads s) m)
     \<and> (\<forall>path typ m md. Publishing path typ m (Inr md) True \<in> set (threads s) \<longrightarrow> holds (pool s) m)"

lemma shut_ok_start: "shut_ok (start ka n)"
  by (simp add: shut_ok_def start_def NewPool_def)

lemma closes_after: "i < length ts \<Longrightarrow> closes m (ts ! i) = 0 \<Longrightarrow> tsum (closes m) (ts[i := q]) = tsum (closes m) ts + closes m q"
  by (simp add: sum_list_upd)

lemma opener:
  assumes "sys_ok s" and "j < length (threads s)" and "threads s ! j = Publishing path ty m r held"
  shows "\<not> ready (heap (pool s) ! m)" and "i < length (threads s) \<Longrightarrow> i \<noteq> j \<Longrightarrow> opens m (threads s ! i) = 0"
proof -
  have m: "m < length (heap (pool s))" using inv_facts(2) [OF assms(1,2)] assms(3) by (simp add: pc_ok_def)
  have o: "tsum (opens m) (threads s) = of_bool (\<not> ready (heap (pool s) ! m))"
    using inv_facts(1) [OF assms(1) m] unfolding entry_ok_def by blast
  have one: "opens m (threads s ! j) = 1" using assms(3) by simp
  then show "\<not> ready (heap (pool s) ! m)" using o tsum_ge(2) [OF assms(2), of m] by auto
  assume "i < length (threads s)" "i \<noteq> j"
  then have "opens m (threads s ! i) + opens m (threads s ! j) \<le> tsum (opens m) (threads s)"
    using assms(2) by (intro sum_list_two) simp_all
  moreover have "tsum (opens m) (threads s) \<le> 1" using o by simp
  ultimately show "opens m (threads s ! i) = 0" using one counts_pos(2) [of m "threads s ! i"] by linarith
qed

text \<open>
  An action keeps the account when it keeps it for each entry and does not take an entry out of
  the map that another goroutine is about to publish.
\<close>

lemma shut_ok_upd:
  assumes ok: "sys_ok s" "shut_ok s" and i: "i < length (threads s)"
    and e: "\<And>m. m < length (heap p) \<Longrightarrow> accounted p ((threads s)[i := q]) m"
    and old: "\<And>j path ty m md. j < length (threads s) \<Longrightarrow> j \<noteq> i \<Longrightarrow> threads s ! j = Publishing path ty m (Inr md) True \<Longrightarrow>
      holds (pool s) m \<Longrightarrow> m < length (heap (pool s)) \<Longrightarrow> holds p m"
    and q: "\<And>path ty m md. q = Publishing path ty m (Inr md) True \<Longrightarrow> holds p m"
  shows "shut_ok (set_pc s i q p)"
proof -
  have "holds p m" if pub: "Publishing path ty m (Inr md) True \<in> set ((threads s)[i := q])" for path ty m md
  proof -
    from pub obtain j where j: "j < length (threads s)" "(threads s)[i := q] ! j = Publishing path ty m (Inr md) True"
      by (auto simp: in_set_conv_nth)
    show ?thesis
    proof (cases "j = i")
      case True
      then show ?thesis using j q i by simp
    next
      case False
      then have t: "threads s ! j = Publishing path ty m (Inr md) True" using j by simp
      then have "Publishing path ty m (Inr md) True \<in> set (threads s)" using j(1) by (metis nth_mem)
      then have "holds (pool s) m" using ok(2) unfolding shut_ok_def by blast
      moreover have "m < length (heap (pool s))" using inv_facts(2) [OF ok(1) j(1)] t by (simp add: pc_ok_def)
      ultimately show ?thesis using old [OF j(1) False t] by blast
    qed
  qed
  then show ?thesis using e unfolding shut_ok_def by simp
qed

lemma accounted_mono:
  assumes "accounted p ts m" and "pmodel (heap p' ! m) = pmodel (heap p ! m)" and "holds p m \<longrightarrow> holds p' m"
    and "busy (heap p ! m) \<le> busy (heap p' ! m)" and "tsum (closes m) ts \<le> tsum (closes m) ts'"
    and "idle (heap p ! m) = None \<longrightarrow> idle (heap p' ! m) = None"
  shows "accounted p' ts' m"
  using assms by (auto simp: accounted_def)

lemma shut_ok_entry: "shut_ok s \<Longrightarrow> m < length (heap (pool s)) \<Longrightarrow> accounted (pool s) (threads s) m"
  by (simp add: shut_ok_def)

lemma shut_get:
  assumes ok: "sys_ok s" "shut_ok s" and i: "i < length (threads s)" and q: "threads s ! i = Free \<or> threads s ! i = Waiting path typ m"
    and g: "get_begin (pool s) path = (r, p)"
  shows "shut_ok (set_pc s i (after_get path typ r) p)"
proof -
  let ?n = "length (heap (pool s))"
  have h: "k < ?n \<Longrightarrow> heap p ! k = heap (pool s) ! k" "?n \<le> k \<Longrightarrow> k < length (heap p) \<Longrightarrow> pmodel (heap p ! k) = None"
     "k < ?n \<Longrightarrow> holds (pool s) k \<Longrightarrow> holds p k" for k
    using g by (auto simp: get_begin_def Let_def nth_append holds_def split: if_splits option.splits)
  have c: "closes k (threads s ! i) = 0" "closes k (after_get path typ r) = 0" for k
    using q by (auto simp: after_get_def split: get_result.splits)
  have "accounted p ((threads s)[i := after_get path typ r]) k" if "k < length (heap p)" for k
  proof (cases "k < ?n")
    case True
    show ?thesis by (rule accounted_mono [OF shut_ok_entry [OF ok(2) True]]) (use h True c in \<open>simp_all add: sum_list_upd [OF i]\<close>)
  next
    case False
    then show ?thesis using h(2) that by (simp add: accounted_def)
  qed
  then show ?thesis by (rule shut_ok_upd [OF ok i]) (use h in \<open>auto simp: after_get_def split: get_result.splits\<close>)
qed

text \<open>One changed entry \<open>m\<close>, the map as before.\<close>

lemma shut_entry:
  assumes ok: "sys_ok s" "shut_ok s" and i: "i < length (threads s)" and m: "m < length (heap (pool s))"
    and h: "heap p = (heap (pool s))[m := e]" "models p = models (pool s)" "ppath e = ppath (heap (pool s) ! m)"
    and others: "\<And>k. k \<noteq> m \<Longrightarrow> closes k q = closes k (threads s ! i)"
    and e: "accounted p ((threads s)[i := q]) m" and q: "\<not> publishing_held q"
  shows "shut_ok (set_pc s i q p)"
proof -
  have hold: "k < length (heap (pool s)) \<Longrightarrow> holds p k = holds (pool s) k" for k
    using h m by (cases "k = m") (auto simp: holds_def)
  have "accounted p ((threads s)[i := q]) k" if "k < length (heap p)" for k
  proof (cases "k = m")
    case False
    then have k: "k < length (heap (pool s))" using that h by simp
    show ?thesis by (rule accounted_mono [OF shut_ok_entry [OF ok(2) k]]) (use h False k others hold in \<open>simp_all add: sum_list_upd [OF i]\<close>)
  qed (use e in simp)
  then show ?thesis by (rule shut_ok_upd [OF ok i]) (use hold q in \<open>auto simp: publishing_held_def\<close>)
qed

lemma shut_pc:
  assumes ok: "sys_ok s" "shut_ok s" and i: "i < length (threads s)" and c: "\<And>k. closes k q = closes k (threads s ! i)"
    and q: "\<not> publishing_held q"
  shows "shut_ok (s\<lparr>threads := (threads s)[i := q]\<rparr>)"
proof -
  have "accounted (pool s) ((threads s)[i := q]) k" if "k < length (heap (pool s))" for k
    by (rule accounted_mono [OF shut_ok_entry [OF ok(2) that]]) (simp_all add: sum_list_upd [OF i] c)
  then have "shut_ok (set_pc s i q (pool s))" by (rule shut_ok_upd [OF ok i]) (use q in \<open>auto simp: publishing_held_def\<close>)
  then show ?thesis by simp
qed

text \<open>One entry \<open>m\<close> taken out of the map that nobody is about to publish.\<close>

lemma shut_remove:
  assumes ok: "sys_ok s" "shut_ok s" and i: "i < length (threads s)" and m: "m < length (heap (pool s))" "holds (pool s) m"
    and p: "p = (pool s)\<lparr>models := (models (pool s))(ppath (heap (pool s) ! m) := None)\<rparr>"
    and others: "\<And>k. k \<noteq> m \<Longrightarrow> closes k q = closes k (threads s ! i)"
    and e: "accounted p ((threads s)[i := q]) m"
    and no: "\<And>j path ty md. j < length (threads s) \<Longrightarrow> j \<noteq> i \<Longrightarrow> threads s ! j \<noteq> Publishing path ty m (Inr md) True"
    and q: "\<not> publishing_held q"
  shows "shut_ok (set_pc s i q p)"
proof -
  have hold: "holds (pool s) k \<Longrightarrow> k \<noteq> m \<Longrightarrow> holds p k" for k using m(2) p by (auto simp: holds_def)
  have "accounted p ((threads s)[i := q]) k" if "k < length (heap p)" for k
  proof (cases "k = m")
    case False
    have "k < length (heap (pool s))" using that p by simp
    from accounted_mono [OF shut_ok_entry [OF ok(2) this]] show ?thesis
      using False others hold p by (simp add: sum_list_upd [OF i])
  qed (use e in simp)
  then show ?thesis
  proof (rule shut_ok_upd [OF ok i])
    fix j path ty m' md
    assume "j < length (threads s)" "j \<noteq> i" "threads s ! j = Publishing path ty m' (Inr md) True" "holds (pool s) m'"
    then show "holds p m'" using hold no by blast
  qed (use q in \<open>auto simp: publishing_held_def\<close>)
qed

lemma shut_OpenReturns:
  assumes ok: "sys_ok s" "shut_ok s" and i: "i < length (threads s)" and q: "threads s ! i = Opening path typ m"
    and r: "r = (if b then Inr (nextModel s) else Inl OpenFailed)" and g: "get_held (pool s) m r = (held, p)"
  shows "shut_ok (set_pc s i (Publishing path typ m r held) p)"
proof -
  let ?e = "heap (pool s) ! m" and ?q = "Publishing path typ m r held"
  have m: "m < length (heap (pool s))" using inv_facts(2) [OF ok(1) i] q by (simp add: pc_ok_def)
  note E = inv_facts(1) [OF ok(1) m]
  have "opens m (threads s ! i) \<le> tsum (opens m) (threads s)" by (rule tsum_ge(2) [OF i])
  then have "\<not> ready ?e" using E q unfolding entry_ok_def by auto
  then have pm: "pmodel ?e = None" using E unfolding entry_ok_def by blast
  show ?thesis
  proof (cases "held \<and> \<not> b")
    case True
    then have p: "p = (pool s)\<lparr>models := (models (pool s))(ppath ?e := None)\<rparr>" and h: "holds (pool s) m"
      using g r by (auto simp: get_held_def Let_def)
    show ?thesis
    proof (rule shut_remove [OF ok i m h p])
      show "accounted p ((threads s)[i := ?q]) m" using pm p by (simp add: accounted_def)
      show "threads s ! j \<noteq> Publishing path' ty m (Inr md) True" if "j < length (threads s)" "j \<noteq> i" for j path' ty md
        using opener(2) [OF ok(1) that(1), of path' ty m "Inr md" True i] i that q by auto
    qed (use q r True in \<open>simp_all add: publishing_held_def\<close>)
  next
    case False
    then have p: "p = pool s" and h: "held = holds (pool s) m"
      using g r by (cases b; auto simp: get_held_def Let_def)+
    have "accounted (pool s) ((threads s)[i := ?q]) k" if "k < length (heap (pool s))" for k
      by (rule accounted_mono [OF shut_ok_entry [OF ok(2) that]]) (use q in \<open>simp_all add: sum_list_upd [OF i]\<close>)
    then show ?thesis unfolding p by (rule shut_ok_upd [OF ok i]) (use h in auto)
  qed
qed

lemma shut_Publish:
  assumes ok: "sys_ok s" "shut_ok s" and i: "i < length (threads s)" and q: "threads s ! i = Publishing path typ m r held"
  shows "shut_ok (set_pc s i (Waiting path typ m) (get_publish (pool s) m r held))"
proof -
  let ?p = "get_publish (pool s) m r held"
  have m: "m < length (heap (pool s))" using inv_facts(2) [OF ok(1) i] q by (simp add: pc_ok_def)
  obtain e where e: "heap ?p = (heap (pool s))[m := e]" "models ?p = models (pool s)" "ppath e = ppath (heap (pool s) ! m)"
      "pmodel e \<noteq> None \<longrightarrow> held \<and> (\<exists>md. r = Inr md)"
    by (cases r; cases held) (auto simp: get_publish_def)
  have "Publishing path typ m r held \<in> set (threads s)" using i q by (metis nth_mem)
  then have "pmodel e \<noteq> None \<longrightarrow> holds (pool s) m" using e(4) ok(2) unfolding shut_ok_def by (metis (full_types))
  then have "accounted ?p ((threads s)[i := Waiting path typ m]) m"
    using m unfolding accounted_def holds_def e(1-3) by (simp add: e(3))
  then show ?thesis by (intro shut_entry [OF ok i m e(1-3)]) (use q in \<open>simp_all add: publishing_held_def\<close>)
qed

lemma shut_Wake_hold:
  assumes ok: "sys_ok s" "shut_ok s" and i: "i < length (threads s)" and q: "threads s ! i = Waiting path typ m"
    and a: "acquire_try (pool s) path typ m = (res, p)"
    and res: "res = Reused l \<and> q' = Leased typ m l \<or> res = NeedLane \<and> q' = LaneOpening typ m"
  shows "shut_ok (set_pc s i q' p)"
proof -
  have m: "m < length (heap (pool s))" using inv_facts(2) [OF ok(1) i] q by (simp add: pc_ok_def)
  have "0 \<le> busy (heap (pool s) ! m)" using inv_facts(1) [OF ok(1) m] unfolding entry_ok_def by simp
  moreover obtain e where e: "heap p = (heap (pool s))[m := e]" "models p = models (pool s)" "ppath e = ppath (heap (pool s) ! m)"
      "busy e = busy (heap (pool s) ! m) + 1"
    using a res m by (auto simp: acquire_try_def Let_def split: option.splits if_splits)
  ultimately have "accounted p ((threads s)[i := q']) m" using m by (simp add: accounted_def)
  then show ?thesis by (intro shut_entry [OF ok i m e(1-3)]) (use q res in \<open>auto simp: publishing_held_def\<close>)
qed

lemma shut_release:
  assumes ok: "sys_ok s" "shut_ok s" and i: "i < length (threads s)"
    and q: "threads s ! i = Leased typ m l \<and> lane = Some l \<or> threads s ! i = LaneOpening typ m \<and> lane = None"
    and r: "release (pool s) m typ lane = Some (cl, p)"
  shows "shut_ok (set_pc s i (if cl then Closing [m] else Free) p)"
proof -
  let ?q = "if cl then Closing [m] else Free"
  have m: "m < length (heap (pool s))" using inv_facts(2) [OF ok(1) i] q by (auto simp: pc_ok_def)
  have "\<forall>al. idle (heap (pool s) ! m) = Some al \<longrightarrow> distinct (map fst al)"
    using inv_facts(1) [OF ok(1) m] unfolding entry_ok_def by blast
  from release_frame [OF r m this] obtain e where e: "heap p = (heap (pool s))[m := e]" "models p = models (pool s)"
      "ppath e = ppath (heap (pool s) ! m)" and cl: "cl \<longleftrightarrow> \<not> 0 < busy e \<and> (closed (pool s) \<or> \<not> holds (pool s) m)"
    by (elim exE conjE) (rule that)
  have c0: "closes k (threads s ! i) = 0" for k using q by auto
  have "0 \<le> tsum (closes m) (threads s)" by simp
  then have "cl \<Longrightarrow> 0 < tsum (closes m) ((threads s)[i := ?q])"
    by (simp only: sum_list_upd [OF i] c0 if_True closes.simps) simp
  moreover have "\<not> cl \<Longrightarrow> 0 < busy e \<or> holds p m" using cl e m by (auto simp: holds_def)
  ultimately have "accounted p ((threads s)[i := ?q]) m" using e m by (cases cl) (auto simp: accounted_def)
  then show ?thesis by (intro shut_entry [OF ok i m e]) (use c0 in \<open>auto simp: publishing_held_def\<close>)
qed

lemma shut_Expire:
  assumes ok: "sys_ok s" "shut_ok s" and i: "i < length (threads s)" and q: "threads s ! i = Expiring m"
    and e: "expire (pool s) m = (cl, p)"
  shows "shut_ok (set_pc s i (if cl then Closing [m] else Free) p)"
proof (cases cl)
  case False
  then have "p = pool s" using e by (auto simp: expire_def split: if_splits)
  then show ?thesis using False shut_pc [OF ok i, of Free] q by (simp add: publishing_held_def)
next
  case True
  then have p: "p = (pool s)\<lparr>models := (models (pool s))(ppath (heap (pool s) ! m) := None)\<rparr>" "holds (pool s) m"
    using e by (auto simp: expire_def split: if_splits)
  have m: "m < length (heap (pool s))" "ready (heap (pool s) ! m)" using inv_facts(2) [OF ok(1) i] q by (simp_all add: pc_ok_def)
  have "0 \<le> tsum (closes m) (threads s)" by simp
  then have "0 < tsum (closes m) ((threads s)[i := Closing [m]])" using q by (simp only: sum_list_upd [OF i] closes.simps) simp
  then have "accounted p ((threads s)[i := Closing [m]]) m" by (simp add: accounted_def)
  then have "shut_ok (set_pc s i (Closing [m]) p)"
    by (rule shut_remove [OF ok i m(1) p(2,1), rotated]) (use opener(1) [OF ok(1)] m(2) q in \<open>auto simp: publishing_held_def\<close>)
  then show ?thesis using True by simp
qed

lemma shut_CloseEntry:
  assumes ok: "sys_ok s" "shut_ok s" and i: "i < length (threads s)" and q: "threads s ! i = Closing (m # ms)"
  shows "shut_ok (set_pc s i (Closing ms) (pooled_close (pool s) m))"
proof -
  let ?p = "pooled_close (pool s) m" and ?e = "(heap (pool s) ! m)\<lparr>timer := None, idle := None\<rparr>"
  have m: "m < length (heap (pool s))" using inv_facts(2) [OF ok(1) i] q by (simp add: pc_ok_def)
  have h: "heap ?p = (heap (pool s))[m := ?e]" "models ?p = models (pool s)" by (simp_all add: pooled_close_def)
  then have "accounted ?p ((threads s)[i := Closing ms]) m" using m by (simp add: accounted_def)
  then show ?thesis by (intro shut_entry [OF ok i m h]) (use q in \<open>simp_all add: publishing_held_def\<close>)
qed

lemma shut_ClosePool:
  assumes ok: "sys_ok s" "shut_ok s" and i: "i < length (threads s)" and q: "threads s ! i = Free"
    and c: "Pool_Close (pool s) = (ms, p)" and calm: "\<forall>q \<in> set (threads s). \<not> publishing_held q"
  shows "shut_ok (set_pc s i (Closing ms) p)"
proof (cases "closed (pool s)")
  case True
  then show ?thesis using c shut_pc [OF ok i, of "Closing []"] q by (auto simp: Pool_Close_def publishing_held_def)
next
  case False
  let ?p = "pool s" and ?ts = "(threads s)[i := Closing ms]"
  have p: "heap p = heap ?p"
      and ms: "set ms = {m. m < length (heap ?p) \<and> holds ?p m \<and> ready (heap ?p ! m) \<and> busy (heap ?p ! m) = 0}"
    using c False by (auto simp: Pool_Close_def held_entries_def)
  have "accounted p ?ts k" if "k < length (heap p)" for k
  proof -
    have k: "k < length (heap ?p)" using that p by simp
    note E = inv_facts(1) [OF ok(1) k]
    have pos: "0 \<le> busy (heap ?p ! k)" "0 \<le> tsum (closes k) (threads s)" using E unfolding entry_ok_def by simp_all
    have cl: "tsum (closes k) ?ts = tsum (closes k) (threads s) + int (count_list ms k)" using q by (simp add: sum_list_upd [OF i])
    have rd: "pmodel (heap ?p ! k) \<noteq> None \<Longrightarrow> ready (heap ?p ! k)" using E unfolding entry_ok_def by blast
    have "k \<in> set ms \<Longrightarrow> 0 < count_list ms k" using count_list_0_iff [of ms k] by auto
    then have "k \<in> set ms \<Longrightarrow> 0 < tsum (closes k) ?ts" unfolding cl using pos(2) by linarith
    moreover have "0 < tsum (closes k) (threads s) \<Longrightarrow> 0 < tsum (closes k) ?ts" unfolding cl by linarith
    moreover have "pmodel (heap ?p ! k) \<noteq> None \<Longrightarrow> holds ?p k \<Longrightarrow> k \<in> set ms \<or> 0 < busy (heap ?p ! k)"
      unfolding ms using rd k pos(1) by (simp add: less_le)
    ultimately show ?thesis using shut_ok_entry [OF ok(2) k] p unfolding accounted_def by metis
  qed
  then show ?thesis
    by (rule shut_ok_upd [OF ok i]) (use calm nth_mem in \<open>fastforce simp: publishing_held_def\<close>)+
qed

lemma accounted_clock: "accounted (p\<lparr>clock := c\<rparr>) = accounted p" "holds (p\<lparr>clock := c\<rparr>) = holds p"
  by (simp_all add: accounted_def holds_def fun_eq_iff)

lemma shut_ok_next: "shut_ok s \<Longrightarrow> shut_ok (s\<lparr>nextModel := a\<rparr>)" "shut_ok s \<Longrightarrow> shut_ok (s\<lparr>nextLane := a\<rparr>)"
  by (simp_all add: shut_ok_def)

lemma shut_act:
  assumes ok: "sys_ok s" "shut_ok s" and calm: "calm a s" and a: "act a s = Some s'"
  shows "shut_ok s'"
proof (cases a)
  case (AcquireGet i path ty)
  obtain r p where "get_begin (pool s) path = (r, p)" by (cases "get_begin (pool s) path")
  then show ?thesis using a AcquireGet shut_get [OF ok] by (auto split: if_splits)
next
  case (OpenReturns i b)
  then obtain path ty m where i: "i < length (threads s)" and q: "threads s ! i = Opening path ty m"
    using a by (auto split: if_splits pc.splits)
  let ?r = "if b then Inr (nextModel s) else Inl OpenFailed"
  obtain held p where g: "get_held (pool s) m ?r = (held, p)" by (cases "get_held (pool s) m ?r")
  have "s' = (set_pc s i (Publishing path ty m ?r held) p)\<lparr>nextModel := nextModel s + (if b then 1 else 0)\<rparr>"
    using a OpenReturns i q g by (simp only: act.simps pc.case if_True Let_def prod.case option.inject)
  then show ?thesis using shut_ok_next(1) [OF shut_OpenReturns [OF ok i q refl g]] by simp
next
  case (Publish i)
  then show ?thesis using a shut_Publish [OF ok] by (auto split: if_splits pc.splits)
next
  case (Wake i)
  then obtain path ty m where i: "i < length (threads s)" and q: "threads s ! i = Waiting path ty m" and r: "ready (heap (pool s) ! m)"
    using a by (auto split: if_splits pc.splits)
  obtain res p where t: "acquire_try (pool s) path ty m = (res, p)" by (cases "acquire_try (pool s) path ty m")
  have p: "p = pool s" if "res = Again \<or> res = Failed e" for e
    using t that by (auto simp: acquire_try_def Let_def split: option.splits if_splits)
  show ?thesis
  proof (cases res)
    case (Failed e)
    then show ?thesis using a Wake i q r t p shut_pc [OF ok i, of Free] by (simp add: publishing_held_def)
  next
    case Again
    obtain g p' where "get_begin (pool s) path = (g, p')" by (cases "get_begin (pool s) path")
    then show ?thesis using a Wake i q r t Again p shut_get [OF ok i disjI2, OF q] by simp
  next
    case (Reused l)
    then show ?thesis using a Wake i q r t shut_Wake_hold [OF ok i q t] by simp
  next
    case NeedLane
    then show ?thesis using a Wake i q r t shut_Wake_hold [OF ok i q t] by simp
  qed
next
  case (LaneReturns i b)
  then obtain ty m where i: "i < length (threads s)" and q: "threads s ! i = LaneOpening ty m"
    using a by (auto split: if_splits pc.splits)
  show ?thesis
  proof (cases b)
    case True
    then have "s' = (s\<lparr>threads := (threads s)[i := Leased ty m (nextLane s)]\<rparr>)\<lparr>nextLane := nextLane s + 1\<rparr>"
      using a LaneReturns i q by simp
    then show ?thesis
      using shut_ok_next(2) [OF shut_pc [OF ok i, of "Leased ty m (nextLane s)"]] q by (simp add: publishing_held_def)
  next
    case False
    then obtain cl p where "release (pool s) m ty None = Some (cl, p)" "s' = set_pc s i (if cl then Closing [m] else Free) p"
      using a LaneReturns i q by (cases "release (pool s) m ty None") auto
    then show ?thesis using shut_release [OF ok i, of ty m] q by blast
  qed
next
  case (Release i)
  then obtain ty m l where i: "i < length (threads s)" and q: "threads s ! i = Leased ty m l"
    using a by (auto split: if_splits pc.splits)
  then obtain cl p where "release (pool s) m ty (Some l) = Some (cl, p)" "s' = set_pc s i (if cl then Closing [m] else Free) p"
    using a Release by (cases "release (pool s) m ty (Some l)") auto
  then show ?thesis using shut_release [OF ok i, of ty m] q by blast
next
  case (Fire i m)
  let ?p = "upd_entry (pool s) m (\<lambda>x. x\<lparr>timer := None\<rparr>)"
  have i: "i < length (threads s)" "threads s ! i = Free" "m < length (heap (pool s))" "s' = set_pc s i (Expiring m) ?p"
    using a Fire by (auto split: if_splits option.splits)
  have "accounted ?p ((threads s)[i := Expiring m]) m"
    by (rule accounted_mono [OF shut_ok_entry [OF ok(2) i(3)]]) (use i in \<open>simp_all add: sum_list_upd [OF i(1)] holds_def\<close>)
  then show ?thesis unfolding i(4)
    by (intro shut_entry [OF ok i(1,3), where e = "(heap (pool s) ! m)\<lparr>timer := None\<rparr>"]) (use i in \<open>simp_all add: publishing_held_def\<close>)
next
  case (Expire i)
  then obtain m where i: "i < length (threads s)" and q: "threads s ! i = Expiring m"
    using a by (auto split: if_splits pc.splits)
  obtain cl p where "expire (pool s) m = (cl, p)" by (cases "expire (pool s) m")
  then show ?thesis using a Expire i q shut_Expire [OF ok i q] by simp
next
  case (CloseEntry i)
  then obtain ms where i: "i < length (threads s)" and q: "threads s ! i = Closing ms"
    using a by (auto split: if_splits pc.splits)
  show ?thesis
  proof (cases ms)
    case Nil
    then show ?thesis using a CloseEntry i q shut_pc [OF ok i, of Free] by (auto simp: publishing_held_def)
  next
    case (Cons m ms')
    then show ?thesis using a CloseEntry i q shut_CloseEntry [OF ok i] by simp
  qed
next
  case (ClosePool i)
  then show ?thesis using a calm shut_ClosePool [OF ok] by (auto split: if_splits prod.splits)
next
  case (Tick d)
  then have "s' = s\<lparr>pool := (pool s)\<lparr>clock := clock (pool s) + int d\<rparr>\<rparr>" using a by simp
  then show ?thesis using ok(2) by (simp add: shut_ok_def accounted_clock)
qed

lemma calm_shut_ok: "calm_reachable ka n s \<Longrightarrow> shut_ok s"
proof (induction rule: calm_reachable.induct)
  case (step s a s')
  then show ?case using shut_act reachable_ok calm_is_reachable by blast
qed (rule shut_ok_start)

section \<open>Properties\<close>

lemma count_list_distinct_iff: "(\<And>x. count_list xs x \<le> 1) \<Longrightarrow> distinct xs"
proof (induction xs)
  case (Cons y xs)
  then have "count_list xs x \<le> 1" for x by (metis count_list.simps(2) le_SucI le_add1 order_trans Suc_eq_plus1)
  moreover have "y \<notin> set xs" using Cons.prems [of y] count_list_0_iff [of xs y] by simp
  ultimately show ?case using Cons.IH by simp
qed simp

lemma sys_count_pos: "0 \<le> sum_list (map (\<lambda>e. int (count_list (idle_lanes e) l)) xs)" "0 \<le> sum_list (map (keeps md) xs)"
    "0 \<le> tsum (leases l) ts" "0 \<le> tsum (carries md) ts"
  by (rule sum_list_pos, simp add: keeps_pos)+

lemma lane_closed_once: "sys_ok s \<Longrightarrow> distinct (closedLanes (pool s))"
proof (rule count_list_distinct_iff)
  fix x assume "sys_ok s"
  then have "lane_count (pool s) (threads s) x \<le> of_bool (x < nextLane s)" by (rule inv_facts(4))
  also have "\<dots> \<le> (1 :: int)" by simp
  finally show "count_list (closedLanes (pool s)) x \<le> 1"
    using sys_count_pos(1) [of x "heap (pool s)"] sys_count_pos(3) [of x "threads s"] unfolding lane_count_def by linarith
qed

lemma model_closed_once: "sys_ok s \<Longrightarrow> distinct (closedModels (pool s))"
proof (rule count_list_distinct_iff)
  fix x assume "sys_ok s"
  then have "model_count (pool s) (threads s) x = of_bool (x < nextModel s)" by (rule inv_facts(5))
  also have "\<dots> \<le> (1 :: int)" by simp
  finally show "count_list (closedModels (pool s)) x \<le> 1"
    using sys_count_pos(2) [of x "heap (pool s)"] sys_count_pos(4) [of x "threads s"] unfolding model_count_def by linarith
qed

lemma lease_exclusive:
  assumes ok: "sys_ok s" and i: "i < length (threads s)" and q: "threads s ! i = Leased typ m l"
  shows "l \<notin> set (closedLanes (pool s))" and "j < length (threads s) \<Longrightarrow> j \<noteq> i \<Longrightarrow> leases l (threads s ! j) = 0"
    and "k < length (heap (pool s)) \<Longrightarrow> l \<notin> set (idle_lanes (heap (pool s) ! k))"
proof -
  have one: "leases l (threads s ! i) = 1" using q by simp
  have t: "leases l (threads s ! i) \<le> tsum (leases l) (threads s)" by (rule sum_list_member [OF _ i]) simp
  have "lane_count (pool s) (threads s) l \<le> of_bool (l < nextLane s)" by (rule inv_facts(4) [OF ok])
  also have "\<dots> \<le> (1 :: int)" by simp
  finally have le: "int (count_list (closedLanes (pool s)) l) + sum_list (map (\<lambda>e. int (count_list (idle_lanes e) l)) (heap (pool s)))
      + tsum (leases l) (threads s) \<le> 1" unfolding lane_count_def .
  note pos = sys_count_pos(1) [of l "heap (pool s)"]
  have "count_list (closedLanes (pool s)) l = 0" using le t one pos by linarith
  then show "l \<notin> set (closedLanes (pool s))" by (simp add: count_list_0_iff)
  show "leases l (threads s ! j) = 0" if "j < length (threads s)" "j \<noteq> i"
  proof -
    have "leases l (threads s ! j) + leases l (threads s ! i) \<le> tsum (leases l) (threads s)"
      by (rule sum_list_two) (use that i in simp_all)
    then show ?thesis using le pos one counts_pos(4) [of l "threads s ! j"] by linarith
  qed
  show "l \<notin> set (idle_lanes (heap (pool s) ! k))" if "k < length (heap (pool s))"
  proof -
    have "int (count_list (idle_lanes (heap (pool s) ! k)) l) \<le> sum_list (map (\<lambda>e. int (count_list (idle_lanes e) l)) (heap (pool s)))"
      using sum_list_member [OF _ that, of "\<lambda>e. int (count_list (idle_lanes e) l)"] by simp
    then have "count_list (idle_lanes (heap (pool s) ! k)) l = 0" using le t one by linarith
    then show ?thesis by (simp add: count_list_0_iff)
  qed
qed

lemma lease_open:
  assumes ok: "sys_ok s" and i: "i < length (threads s)" and q: "threads s ! i = Leased typ m l"
  shows "\<exists>md. pmodel (heap (pool s) ! m) = Some md \<and> md \<notin> set (closedModels (pool s))" and "idle (heap (pool s) ! m) \<noteq> None"
proof -
  let ?e = "heap (pool s) ! m"
  have m: "m < length (heap (pool s))" using inv_facts(2) [OF ok i] q by (simp add: pc_ok_def)
  note E = inv_facts(1) [OF ok m]
  have b: "0 < busy ?e" using E tsum_ge(1) [OF i, of m] q unfolding entry_ok_def by simp
  then obtain md where md: "pmodel ?e = Some md" using E unfolding entry_ok_def by blast
  show il: "idle ?e \<noteq> None" using entry_live(2) [OF E] b by blast
  have "keeps md ?e = 1" using md il by (simp add: keeps_def)
  moreover have "keeps md ?e \<le> sum_list (map (keeps md) (heap (pool s)))" by (rule sum_list_member [OF keeps_pos m])
  moreover have "model_count (pool s) (threads s) md \<le> 1" using inv_facts(5) [OF ok, of md] by simp
  ultimately have "count_list (closedModels (pool s)) md = 0"
    using sys_count_pos(4) [of md "threads s"] unfolding model_count_def by linarith
  then show "\<exists>md. pmodel ?e = Some md \<and> md \<notin> set (closedModels (pool s))" using md by (auto simp: count_list_0_iff)
qed

text \<open>
  C6: in every interleaving, while a goroutine holds a lease its model is open and has not
  been closed, its lane has not been closed, is in no idle list and is leased to nobody else,
  and releasing it is always possible: it never meets the nil map of a closed entry.
\<close>

theorem pool_lease_safe:
  assumes "reachable ka n s" and "i < length (threads s)" and "threads s ! i = Leased typ m l"
  shows "(\<exists>md. pmodel (heap (pool s) ! m) = Some md \<and> md \<notin> set (closedModels (pool s)))
    \<and> l \<notin> set (closedLanes (pool s)) \<and> l \<notin> (\<Union>e \<in> set (heap (pool s)). set (idle_lanes e))
    \<and> (\<forall>j < length (threads s). j \<noteq> i \<longrightarrow> leases l (threads s ! j) = 0) \<and> act (Release i) s \<noteq> None"
proof -
  note ok = reachable_ok [OF assms(1)]
  have "act (Release i) s \<noteq> None" using assms(2,3) lease_open(2) [OF ok assms(2,3)] by (auto simp: release_def Let_def)
  moreover have "l \<notin> set (idle_lanes e)" if "e \<in> set (heap (pool s))" for e
    using that lease_exclusive(3) [OF ok assms(2,3)] by (auto simp: in_set_conv_nth)
  ultimately show ?thesis using lease_exclusive [OF ok assms(2,3)] lease_open(1) [OF ok assms(2,3)] by blast
qed

text \<open>C9: no model and no lane is ever closed twice.\<close>

theorem pool_closes_once:
  assumes "reachable ka n s"
  shows "distinct (closedModels (pool s)) \<and> distinct (closedLanes (pool s))"
  using reachable_ok [OF assms] model_closed_once lane_closed_once by blast

text \<open>
  C7: if \<open>Close\<close> never falls between the check of \<open>held\<close> and the publication of a model that
  was just opened, then once the pool is closed and every goroutine is done, every model that
  was ever opened has been closed.
\<close>

theorem pool_shutdown_complete:
  assumes "calm_reachable ka n s" and "closed (pool s)" and "\<forall>q \<in> set (threads s). q = Free" and "md < nextModel s"
  shows "md \<in> set (closedModels (pool s))"
proof -
  note ok = reachable_ok [OF calm_is_reachable [OF assms(1)]] and sh = calm_shut_ok [OF assms(1)]
  have z: "tsum f (threads s) = 0" if "f Free = 0" for f
  proof -
    have "map f (threads s) = map (\<lambda>_. 0) (threads s)" using assms(3) that by auto
    then have "tsum f (threads s) = sum_list (map (\<lambda>_. 0) (threads s))" by (rule arg_cong)
    then show ?thesis by simp
  qed
  have "keeps md e = 0" if e: "e \<in> set (heap (pool s))" for e
  proof -
    obtain m where m: "m < length (heap (pool s))" "e = heap (pool s) ! m" using e by (auto simp: in_set_conv_nth)
    have "\<not> holds (pool s) m" using inv_facts(3) [OF ok] assms(2) by (simp add: pool_ok_def holds_def)
    moreover have "busy e = 0" using inv_facts(1) [OF ok m(1)] z m(2) by (simp add: entry_ok_def)
    ultimately show ?thesis using shut_ok_entry [OF sh m(1)] z m(2) by (auto simp: accounted_def keeps_def)
  qed
  then have "map (keeps md) (heap (pool s)) = map (\<lambda>_. 0) (heap (pool s))" by simp
  then have "sum_list (map (keeps md) (heap (pool s))) = sum_list (map (\<lambda>_. 0) (heap (pool s)))" by (rule arg_cong)
  then have "sum_list (map (keeps md) (heap (pool s))) = 0" by simp
  then have "int (count_list (closedModels (pool s)) md) = 1"
    using inv_facts(5) [OF ok, of md] assms(4) z unfolding model_count_def by simp
  then show ?thesis using count_list_0_iff [of "closedModels (pool s)" md] by fastforce
qed

subsection \<open>Concrete runs\<close>

fun run :: "action list \<Rightarrow> sys \<Rightarrow> sys option" where
  "run [] s = Some s"
| "run (a # as) s = (case act a s of None \<Rightarrow> None | Some s' \<Rightarrow> run as s')"

fun run_calm :: "action list \<Rightarrow> sys \<Rightarrow> sys option" where
  "run_calm [] s = Some s"
| "run_calm (a # as) s = (if calm a s then case act a s of None \<Rightarrow> None | Some s' \<Rightarrow> run_calm as s' else None)"

lemma run_reachable: "reachable ka n s \<Longrightarrow> run as s = Some s' \<Longrightarrow> reachable ka n s'"
  by (induction as arbitrary: s) (auto split: option.splits intro: reachable.step)

lemma run_calm_reachable: "calm_reachable ka n s \<Longrightarrow> run_calm as s = Some s' \<Longrightarrow> calm_reachable ka n s'"
  by (induction as arbitrary: s) (auto split: option.splits if_splits intro: calm_reachable.step)

lemmas start_run = run_reachable [OF reachable.init] and start_run_calm = run_calm_reachable [OF calm_reachable.init]

lemmas run_simps = start_def NewPool_def get_begin_def get_held_def get_publish_def acquire_try_def release_def pooled_close_def
  Pool_Close_def held_entries_def after_get_def idle_of_def idle_lanes_def holds_def publishing_held_def Let_def

definition lease_run :: "action list" where
  "lease_run = [AcquireGet 0 ''m'' ''asr'', OpenReturns 0 True, Publish 0, Wake 0, LaneReturns 0 True]"

definition lease_state :: sys where
  "lease_state = the (run lease_run (start 0 2))"

lemma lease_state_run: "run lease_run (start 0 2) = Some lease_state"
  by (simp add: lease_state_def lease_run_def run_simps numeral_2_eq_2)

lemma lease_state_threads: "threads lease_state = [Leased ''asr'' 0 0, Free]"
  by (simp add: lease_state_def lease_run_def run_simps numeral_2_eq_2)

theorem pool_lease_safe_witness:
  "(\<exists>md. pmodel (heap (pool lease_state) ! 0) = Some md \<and> md \<notin> set (closedModels (pool lease_state)))
   \<and> act (Release 0) lease_state \<noteq> None"
  using pool_lease_safe [OF start_run [OF lease_state_run], of 0 "''asr''" 0 0] lease_state_threads by simp

theorem pool_closes_once_witness: "distinct (closedModels (pool lease_state)) \<and> distinct (closedLanes (pool lease_state))"
  by (rule pool_closes_once [OF start_run [OF lease_state_run]])

definition shutdown_run :: "action list" where
  "shutdown_run = lease_run @ [ClosePool 1, Release 0, CloseEntry 0, CloseEntry 0, CloseEntry 1]"

definition shutdown_state :: sys where
  "shutdown_state = the (run_calm shutdown_run (start 0 2))"

lemma shutdown_state_run:
  "run_calm shutdown_run (start 0 2) = Some shutdown_state \<and> closed (pool shutdown_state)
   \<and> threads shutdown_state = [Free, Free] \<and> nextModel shutdown_state = 1"
  by (simp add: shutdown_state_def shutdown_run_def lease_run_def run_simps numeral_2_eq_2)

theorem pool_shutdown_complete_witness: "0 \<in> set (closedModels (pool shutdown_state))"
  by (rule pool_shutdown_complete [OF start_run_calm]) (use shutdown_state_run in auto)

text \<open>
  C8: without that proviso it fails. \<open>Close\<close> runs after \<open>get\<close> has seen its entry held and
  before it closes \<open>ready\<close>: \<open>Close\<close> leaves the entry to \<open>get\<close>, which no longer looks. The pool is closed,
  every goroutine is done, the model is open, and nothing refers to it any more.
\<close>

definition leak_run :: "action list" where
  "leak_run = [AcquireGet 0 ''m'' ''asr'', OpenReturns 0 True, ClosePool 1, Publish 0, Wake 0, CloseEntry 1]"

theorem pool_close_leaks:
  "\<exists>s. reachable 0 2 s \<and> closed (pool s) \<and> models (pool s) = Map.empty \<and> threads s = [Free, Free]
     \<and> pmodel (heap (pool s) ! 0) = Some 0 \<and> closedModels (pool s) = []"
proof -
  obtain s where s: "run leak_run (start 0 2) = Some s" "closed (pool s)" "models (pool s) = Map.empty" "threads s = [Free, Free]"
      "pmodel (heap (pool s) ! 0) = Some 0" "closedModels (pool s) = []"
    by (simp add: leak_run_def run_simps numeral_2_eq_2)
  then show ?thesis using start_run by blast
qed

end
