(* ===== verification/Registry.thy ===== *)
theory Registry
  imports Go_Text
begin

text \<open>
  Models, lanes and formats: \<^verbatim>\<open>src/gophonic.go\<close> and \<^verbatim>\<open>src/formats.go\<close>. The functions a format supplies
  (loading a checkpoint, opening a lane, releasing a model) act on a world \<open>'w\<close> of their own and
  are parameters; the registry, the choice of a format, the lane table and the checks around
  them are the code of these files. A lane is the number its constructor returns.
\<close>

section \<open>Model: models and lanes\<close>

type_synonym ltype = string

datatype open_error =
    InvalidThreads int | UnknownWeightFormat string | ErrUnsupported string ltype
  | ErrUnknownFormat string | NotProvided string ltype | External nat

type_synonym 'w opener = "'w \<Rightarrow> (open_error + nat) \<times> 'w"
type_synonym 'w closer = "'w \<Rightarrow> open_error option \<times> 'w"

record Options =
  Threads :: int
  Format :: string

record 'w Model =
  mname :: string
  mpath :: string
  lanes :: "(ltype \<times> 'w opener) list"
  mclose :: "'w closer option"

definition NewModel :: "string \<Rightarrow> string \<Rightarrow> 'w closer option \<Rightarrow> 'w Model" where
  "NewModel name path cl = \<lparr>mname = name, mpath = path, lanes = [], mclose = cl\<rparr>"

fun set_lane :: "ltype \<Rightarrow> 'w opener \<Rightarrow> (ltype \<times> 'w opener) list \<Rightarrow> (ltype \<times> 'w opener) list" where
  "set_lane t f [] = [(t, f)]"
| "set_lane t f ((u, g) # ls) = (if u = t then (u, f) # ls else (u, g) # set_lane t f ls)"

definition Provide :: "'w Model \<Rightarrow> ltype \<Rightarrow> 'w opener \<Rightarrow> 'w Model" where
  "Provide m t f = m\<lparr>lanes := set_lane t f (lanes m)\<rparr>"

definition Lane :: "'w Model \<Rightarrow> ltype \<Rightarrow> 'w opener" where
  "Lane m t w =
     (case map_of (lanes m) t of
        None \<Rightarrow> (Inl (ErrUnsupported (mname m) t), w)
      | Some f \<Rightarrow> f w)"

definition Supports :: "'w Model \<Rightarrow> ltype \<Rightarrow> bool" where
  "Supports m t \<longleftrightarrow> list_ex (\<lambda>l. fst l = t) (lanes m)"

definition Provides :: "'w Model \<Rightarrow> ltype list" where
  "Provides m = map fst (lanes m)"

definition Model_Close :: "'w Model \<Rightarrow> 'w \<Rightarrow> open_error option \<times> 'w Model \<times> 'w" where
  "Model_Close m w =
     (let m' = m\<lparr>mclose := None, lanes := []\<rparr>
      in case mclose m of None \<Rightarrow> (None, m', w) | Some c \<Rightarrow> (case c w of (e, w') \<Rightarrow> (e, m', w')))"

section \<open>Model: formats\<close>

record 'w Format =
  fname :: string
  Match :: "'w \<Rightarrow> string \<Rightarrow> bool"
  FOpen :: "string \<Rightarrow> Options \<Rightarrow> 'w \<Rightarrow> (open_error + 'w Model) \<times> 'w"
  FProvides :: "ltype list"

text \<open>A nil \<open>Match\<close> or \<open>Open\<close> panics: \<open>None\<close>.\<close>

definition Register ::
    "string \<Rightarrow> ('w \<Rightarrow> string \<Rightarrow> bool) option \<Rightarrow> (string \<Rightarrow> Options \<Rightarrow> 'w \<Rightarrow> (open_error + 'w Model) \<times> 'w) option
      \<Rightarrow> ltype list \<Rightarrow> 'w Format list \<Rightarrow> 'w Format list option" where
  "Register name mt op ps formats =
     (case (mt, op) of
        (Some mf, Some f) \<Rightarrow> Some (\<lparr>fname = name, Match = mf, FOpen = f, FProvides = ps\<rparr> # formats)
      | _ \<Rightarrow> None)"

fun Detect :: "'w Format list \<Rightarrow> 'w \<Rightarrow> string \<Rightarrow> 'w Format option" where
  "Detect [] w path = None"
| "Detect (f # fs) w path = (if Match f w path then Some f else Detect fs w path)"

definition weight_formats :: "string list" where
  "weight_formats = [[], ''f16'', ''int8'', ''gpu'', ''gpu-q8'', ''gpu-q4'']"

fun missing_type :: "'w Model \<Rightarrow> ltype list \<Rightarrow> ltype option" where
  "missing_type m [] = None"
| "missing_type m (t # ts) = (if Supports m t then missing_type m ts else Some t)"

text \<open>\<open>stat\<close> is the result of \<open>os.Stat\<close>: why the path cannot be opened, if it cannot.\<close>

definition Open ::
    "('w \<Rightarrow> string \<Rightarrow> open_error option) \<Rightarrow> 'w Format list \<Rightarrow> string \<Rightarrow> Options \<Rightarrow> 'w \<Rightarrow> (open_error + 'w Model) \<times> 'w" where
  "Open stat formats path opts w =
     (if Threads opts < 0 then (Inl (InvalidThreads (Threads opts)), w)
      else if Format opts \<notin> set weight_formats then (Inl (UnknownWeightFormat (Format opts)), w)
      else case Detect formats w path of
             Some f \<Rightarrow>
               (case FOpen f path opts w of
                  (Inl e, w1) \<Rightarrow> (Inl e, w1)
                | (Inr m, w1) \<Rightarrow>
                    (case missing_type m (FProvides f) of
                       None \<Rightarrow> (Inr m, w1)
                     | Some t \<Rightarrow> (case Model_Close m w1 of (_, _, w2) \<Rightarrow> (Inl (NotProvided (fname f) t), w2))))
           | None \<Rightarrow>
               (case stat w path of Some e \<Rightarrow> (Inl e, w) | None \<Rightarrow> (Inl (ErrUnknownFormat path), w)))"

subsection \<open>The built-in formats\<close>

text \<open>
  What the packages of the six model families offer: the test for a checkpoint directory, the
  loader, the lane constructors and the closing of the loaded model.
\<close>

record ('w, 'm) family =
  IsModelDir :: "'w \<Rightarrow> string \<Rightarrow> bool"
  Load :: "string \<Rightarrow> Options \<Rightarrow> 'w \<Rightarrow> (open_error + 'm) \<times> 'w"
  NewLane :: "'m \<Rightarrow> ltype \<Rightarrow> Options \<Rightarrow> 'w opener"
  CloseModel :: "'m \<Rightarrow> 'w closer"

definition open_with :: "('w, 'm) family \<Rightarrow> ('m \<Rightarrow> 'w Model) \<Rightarrow> string \<Rightarrow> Options \<Rightarrow> 'w \<Rightarrow> (open_error + 'w Model) \<times> 'w" where
  "open_with fam build path opts w =
     (case Load fam path opts w of (Inl e, w1) \<Rightarrow> (Inl e, w1) | (Inr m, w1) \<Rightarrow> (Inr (build m), w1))"

definition openQwen3ASR where
  "openQwen3ASR fam path opts = open_with fam
     (\<lambda>m. Provide (NewModel ''qwen3-asr'' path (Some (CloseModel fam m)))
            ''speech.Transcriber'' (NewLane fam m ''speech.Transcriber'' opts)) path opts"

definition openQwen3TTS where
  "openQwen3TTS fam path opts = open_with fam
     (\<lambda>m. Provide (NewModel ''qwen3-tts'' path (Some (CloseModel fam m)))
            ''speech.Synthesizer'' (NewLane fam m ''speech.Synthesizer'' opts)) path opts"

definition openQwen3 where
  "openQwen3 fam path opts = open_with fam
     (\<lambda>m. Provide (Provide (NewModel ''qwen3'' path (Some (CloseModel fam m)))
            ''chat.Generator'' (NewLane fam m ''chat.Generator'' opts))
            ''speech.ZeroShot'' (NewLane fam m ''speech.ZeroShot'' opts)) path opts"

definition openWhisper where
  "openWhisper fam path opts = open_with fam
     (\<lambda>m. Provide (NewModel ''whisper'' path (Some (CloseModel fam m)))
            ''speech.Transcriber'' (NewLane fam m ''speech.Transcriber'' opts)) path opts"

definition openSmartTurn where
  "openSmartTurn fam path opts = open_with fam
     (\<lambda>m. Provide (Provide (NewModel ''smart-turn'' path None)
            ''speech.TurnDetector'' (NewLane fam m ''speech.TurnDetector'' opts))
            ''speech.AudioClassifier'' (NewLane fam m ''speech.AudioClassifier'' opts)) path opts"

definition openTinyMel where
  "openTinyMel fam path opts = open_with fam
     (\<lambda>m. Provide (Provide (NewModel ''tinymel'' path None)
            ''speech.TurnDetector'' (NewLane fam m ''speech.TurnDetector'' opts))
            ''speech.AudioClassifier'' (NewLane fam m ''speech.AudioClassifier'' opts)) path opts"

text \<open>\<open>file\<close> is the content of a file of the world, \<open>None\<close> when it cannot be opened.\<close>

definition signature :: "('w \<Rightarrow> string \<Rightarrow> string option) \<Rightarrow> string \<Rightarrow> 'w \<Rightarrow> string \<Rightarrow> bool" where
  "signature file magic w path =
     (case file w path of None \<Rightarrow> False | Some bs \<Rightarrow> 8 \<le> length bs \<and> take 8 bs = magic)"

definition turns :: "ltype list" where
  "turns = [''speech.TurnDetector'', ''speech.AudioClassifier'']"

definition builtinFormats ::
    "('w \<Rightarrow> string \<Rightarrow> string option) \<Rightarrow> ('w, 'a) family \<Rightarrow> ('w, 'b) family \<Rightarrow> ('w, 'c) family
      \<Rightarrow> ('w, 'd) family \<Rightarrow> ('w, 'e) family \<Rightarrow> ('w, 'f) family \<Rightarrow> 'w Format list" where
  "builtinFormats file qwen3asr qwen3tts qwen3 whisper smartturn tinymel =
     [\<lparr>fname = ''qwen3-asr'', Match = IsModelDir qwen3asr, FOpen = openQwen3ASR qwen3asr, FProvides = [''speech.Transcriber'']\<rparr>,
      \<lparr>fname = ''qwen3-tts'', Match = IsModelDir qwen3tts, FOpen = openQwen3TTS qwen3tts, FProvides = [''speech.Synthesizer'']\<rparr>,
      \<lparr>fname = ''qwen3'', Match = IsModelDir qwen3, FOpen = openQwen3 qwen3, FProvides = [''chat.Generator'', ''speech.ZeroShot'']\<rparr>,
      \<lparr>fname = ''whisper'', Match = signature file ''WHISPER1'', FOpen = openWhisper whisper, FProvides = [''speech.Transcriber'']\<rparr>,
      \<lparr>fname = ''smart-turn'', Match = signature file ''GOINFER1'', FOpen = openSmartTurn smartturn, FProvides = turns\<rparr>,
      \<lparr>fname = ''tinymel'', Match = signature file (''GOTMEL1'' @ [CHR 0x00]), FOpen = openTinyMel tinymel, FProvides = turns\<rparr>]"

section \<open>The contract of a lane table\<close>

locale lane_table =
  fixes open_lane :: "'m \<Rightarrow> 't \<Rightarrow> 'f"
    and provide :: "'m \<Rightarrow> 't \<Rightarrow> 'f \<Rightarrow> 'm"
    and types :: "'m \<Rightarrow> 't list"
  assumes lane_same: "open_lane (provide m t f) t = f"
    and lane_other: "u \<noteq> t \<Longrightarrow> open_lane (provide m t f) u = open_lane m u"
    and types_provide: "types (provide m t f) = (if t \<in> set (types m) then types m else types m @ [t])"
begin

text \<open>A format chains the lanes it provides.\<close>

definition chain :: "'m \<Rightarrow> ('t \<times> 'f) list \<Rightarrow> 'm" where
  "chain m tfs = fold (\<lambda>(t, f) m. provide m t f) tfs m"

lemma chain_types_distinct: "distinct (types m) \<Longrightarrow> distinct (types (chain m tfs))"
  unfolding chain_def by (induction tfs arbitrary: m) (auto simp: types_provide)

lemma chain_types: "set (types (chain m tfs)) = set (types m) \<union> fst ` set tfs"
proof (induction tfs arbitrary: m)
  case (Cons tf tfs)
  obtain t f where tf: "tf = (t, f)" by (cases tf)
  have "set (types (provide m t f)) = insert t (set (types m))" by (auto simp: types_provide)
  then show ?case using Cons.IH [of "provide m t f"] tf by (simp add: chain_def)
qed (simp add: chain_def)

lemma chain_lane_other: "t \<notin> fst ` set tfs \<Longrightarrow> open_lane (chain m tfs) t = open_lane m t"
proof (induction tfs arbitrary: m)
  case (Cons tf tfs)
  then show ?case by (cases tf) (auto simp: chain_def lane_other)
qed (simp add: chain_def)

lemma chain_lane: "distinct (map fst tfs) \<Longrightarrow> (t, f) \<in> set tfs \<Longrightarrow> open_lane (chain m tfs) t = f"
proof (induction tfs arbitrary: m)
  case (Cons tf tfs)
  obtain u g where tf: "tf = (u, g)" by (cases tf)
  show ?case
  proof (cases "(t, f) = tf")
    case True
    then have "t \<notin> fst ` set tfs" using Cons.prems tf by auto
    from chain_lane_other [OF this, of "provide m u g"] show ?thesis using True tf by (simp add: chain_def lane_same)
  next
    case False
    then have "(t, f) \<in> set tfs" using Cons.prems(2) tf by auto
    then show ?thesis using Cons.IH [of "provide m u g"] Cons.prems(1) tf by (simp add: chain_def)
  qed
qed simp

end

lemma map_of_set_lane: "map_of (set_lane t f ls) = (map_of ls)(t \<mapsto> f)"
  by (induction ls) (auto simp: fun_eq_iff)

lemma fst_set_lane: "map fst (set_lane t f ls) = (if t \<in> set (map fst ls) then map fst ls else map fst ls @ [t])"
proof (induction ls)
  case (Cons l ls)
  then show ?case by (cases l) simp
qed simp

interpretation lane_map: lane_table Lane Provide Provides
  by unfold_locales
    (auto simp: Lane_def Provide_def Provides_def map_of_set_lane fst_set_lane fun_eq_iff split: option.split)

lemma Supports_Provides: "Supports m t \<longleftrightarrow> t \<in> set (Provides m)"
  by (auto simp: Supports_def Provides_def list_ex_iff)

lemma missing_type_None: "missing_type m ts = None \<longleftrightarrow> set ts \<subseteq> set (Provides m)"
  by (induction ts) (auto simp: Supports_Provides)

lemma missing_type_Some: "missing_type m ts = Some t \<Longrightarrow> t \<in> set ts \<and> t \<notin> set (Provides m)"
  by (induction ts) (auto simp: Supports_Provides split: if_splits)

lemma Detect_Some: "Detect fs w path = Some f \<Longrightarrow> f \<in> set fs \<and> Match f w path"
  by (induction fs) (auto split: if_splits)

section \<open>Properties\<close>

text \<open>
  Providing lanes one after the other, as the formats do, keeps the provided types
  distinct, makes \<open>Lane\<close> run the constructor given for each type, leaves other types alone, and
  fails with \<open>ErrUnsupported\<close> exactly for the types that are not provided.
\<close>

theorem Provide_Lane:
  assumes "distinct (map fst tfs)" and "distinct (Provides m)"
  shows "distinct (Provides (fold (\<lambda>(t, f) m. Provide m t f) tfs m))
    \<and> (\<forall>(t, f) \<in> set tfs. Lane (fold (\<lambda>(t, f) m. Provide m t f) tfs m) t = f)
    \<and> (\<forall>t. t \<notin> fst ` set tfs \<longrightarrow> Lane (fold (\<lambda>(t, f) m. Provide m t f) tfs m) t = Lane m t)
    \<and> (\<forall>t. Supports (fold (\<lambda>(t, f) m. Provide m t f) tfs m) t \<longleftrightarrow> t \<in> fst ` set tfs \<or> Supports m t)"
  using lane_map.chain_types_distinct [OF assms(2)] lane_map.chain_lane [OF assms(1)] lane_map.chain_lane_other
    lane_map.chain_types [of m tfs] unfolding lane_map.chain_def Supports_Provides by auto

theorem Provide_Lane_witness:
  "Lane (fold (\<lambda>(t, f) m. Provide m t f) [(''a'', \<lambda>w. (Inr 1, w + 1)), (''b'', \<lambda>w. (Inr 2, w))] (NewModel ''x'' ''p'' None)) ''b'' (0::nat)
     = (Inr 2, 0)"
proof -
  let ?tfs = "[(''a'', \<lambda>w. (Inr 1, w + 1)), (''b'', \<lambda>w. (Inr 2, w))] :: (ltype \<times> nat opener) list"
  have "distinct (map fst ?tfs)" "distinct (Provides (NewModel ''x'' ''p'' None))" by (simp_all add: Provides_def NewModel_def)
  from Provide_Lane [OF this] show ?thesis by simp
qed


text \<open>
  A loaded model that lacks a type its format declares is closed before \<open>Open\<close> fails: the
  world \<open>Open\<close> leaves is the one in which the closing function of that model has run.
\<close>

theorem Open_closes_rejected:
  assumes "0 \<le> Threads opts" and "Format opts \<in> set weight_formats" and "Detect formats w path = Some f"
    and "FOpen f path opts w = (Inr m, w1)" and "\<not> set (FProvides f) \<subseteq> set (Provides m)"
  shows "\<exists>t. Open stat formats path opts w = (Inl (NotProvided (fname f) t), snd (snd (Model_Close m w1)))
    \<and> t \<in> set (FProvides f) \<and> \<not> Supports m t"
proof -
  obtain t where t: "missing_type m (FProvides f) = Some t" using assms(5) missing_type_None by (metis option.exhaust)
  have "Open stat formats path opts w = (Inl (NotProvided (fname f) t), snd (snd (Model_Close m w1)))"
    using assms(1-4) t by (simp add: Open_def case_prod_beta)
  then show ?thesis using missing_type_Some [OF t] Supports_Provides by blast
qed

definition bad_format :: "nat Format" where
  "bad_format = \<lparr>fname = ''bad'', Match = (\<lambda>w p. True),
     FOpen = (\<lambda>path opts w. (Inr (NewModel ''bad'' path (Some (\<lambda>w. (None, w + 1)))), w)), FProvides = [''speech.Transcriber'']\<rparr>"

theorem Open_closes_rejected_witness:
  "Open (\<lambda>w p. None) [bad_format] ''p'' \<lparr>Threads = 0, Format = []\<rparr> 0 = (Inl (NotProvided ''bad'' ''speech.Transcriber''), 1)"
proof -
  let ?m = "NewModel ''bad'' ''p'' (Some (\<lambda>w. (None, w + 1))) :: nat Model"
  have "\<exists>t. Open (\<lambda>w p. None) [bad_format] ''p'' \<lparr>Threads = 0, Format = []\<rparr> 0
      = (Inl (NotProvided (fname bad_format) t), snd (snd (Model_Close ?m 0)))
      \<and> t \<in> set (FProvides bad_format) \<and> \<not> Supports ?m t"
    by (rule Open_closes_rejected) (simp_all add: weight_formats_def bad_format_def Provides_def NewModel_def)
  then show ?thesis by (simp add: bad_format_def Model_Close_def NewModel_def)
qed

text \<open>
  Every built-in format gives its models its own name, the path they were loaded from
  and exactly the lane types it declares, so the check of \<open>Open\<close> never rejects one of them.
\<close>

theorem builtin_formats_declare:
  assumes "f \<in> set (builtinFormats file qwen3asr qwen3tts qwen3 whisper smartturn tinymel)"
    and "FOpen f path opts w = (Inr m, w')"
  shows "mname m = fname f \<and> mpath m = path \<and> Provides m = FProvides f"
  using assms
  by (auto simp: builtinFormats_def openQwen3ASR_def openQwen3TTS_def openQwen3_def openWhisper_def openSmartTurn_def
      openTinyMel_def open_with_def turns_def Provide_def NewModel_def Provides_def split: prod.splits sum.splits)

definition sample_family :: "(nat, nat) family" where
  "sample_family = \<lparr>IsModelDir = (\<lambda>w p. p = ''dir''), Load = (\<lambda>p opts w. (Inr w, w + 1)),
     NewLane = (\<lambda>m t opts w. (Inr w, w + 1)), CloseModel = (\<lambda>m w. (None, w + 1))\<rparr>"

theorem builtin_formats_declare_witness:
  "case openQwen3 sample_family ''dir'' \<lparr>Threads = 2, Format = ''gpu''\<rparr> 7 of
     (Inr m, w') \<Rightarrow> Provides m = [''chat.Generator'', ''speech.ZeroShot''] \<and> mpath m = ''dir''
   | (Inl e, w') \<Rightarrow> False"
proof -
  let ?f = "\<lparr>fname = ''qwen3'', Match = IsModelDir sample_family, FOpen = openQwen3 sample_family,
    FProvides = [''chat.Generator'', ''speech.ZeroShot'']\<rparr>"
  obtain m where m: "openQwen3 sample_family ''dir'' \<lparr>Threads = 2, Format = ''gpu''\<rparr> 7 = (Inr m, 8)"
    by (simp add: openQwen3_def open_with_def sample_family_def)
  have "?f \<in> set (builtinFormats (\<lambda>w p. None) sample_family sample_family sample_family sample_family sample_family sample_family)"
    by (simp add: builtinFormats_def)
  from builtin_formats_declare [OF this, of "''dir''" "\<lparr>Threads = 2, Format = ''gpu''\<rparr>" 7 m 8] m show ?thesis by simp
qed

text \<open>
  A registered format is tried before all others and keeps their order; registering
  one without \<open>Match\<close> or \<open>Open\<close> panics.
\<close>

theorem Register_first:
  "(Register name mt op ps formats = None \<longleftrightarrow> mt = None \<or> op = None)
   \<and> (\<forall>mf f. mt = Some mf \<and> op = Some f \<longrightarrow> (\<exists>fs. Register name mt op ps formats = Some fs \<and>
        Detect fs w path = (if mf w path then Some \<lparr>fname = name, Match = mf, FOpen = f, FProvides = ps\<rparr> else Detect formats w path)))"
  by (auto simp: Register_def split: option.splits)

theorem Register_first_witness:
  "\<exists>fs. Register ''mine'' (Some (\<lambda>w p. p = ''x'')) (Some (\<lambda>p opts w. (Inl (External 1), w))) [] [bad_format] = Some fs \<and>
     map fname fs = [''mine'', ''bad''] \<and> map_option fname (Detect fs 0 ''x'') = Some ''mine''"
  using Register_first [of "''mine''" "Some (\<lambda>w p. p = ''x'')" "Some (\<lambda>p opts w. (Inl (External 1), w))" "[]" "[bad_format]" 0 "''x''"]
  by (auto simp: Register_def bad_format_def)

text \<open>
  Closing a model runs its closing function once: closing it again does nothing, and
  afterwards no lane opens.
\<close>

theorem Model_Close_once:
  "case Model_Close m w of
     (e, m', w') \<Rightarrow> Model_Close m' w'' = (None, m', w'') \<and> Lane m' t w'' = (Inl (ErrUnsupported (mname m) t), w'')
       \<and> (w', e) = (case mclose m of None \<Rightarrow> (w, None) | Some c \<Rightarrow> (snd (c w), fst (c w)))"
  by (auto simp: Model_Close_def Lane_def Let_def split: option.splits prod.splits)

end
