(* ===== verification/Asr_Text.thy ===== *)
theory Asr_Text
  imports Go_Utf8 Pretokenizer Language
begin

text \<open>
  Reading the answer of the speech recognizer: \<^verbatim>\<open>src/qwen3asr/text.go\<close>. The model answers
  \<open>language English<asr_text>text\<close>, or the text alone; \<open>parse\<close> trims it, collapses runaway
  repetitions and splits off the language. Unicode's white space is a parameter.
\<close>

section \<open>Model: runaway repetitions\<close>

definition repeatThreshold :: nat where "repeatThreshold = 20"
definition maxPattern :: nat where "maxPattern = 20"

definition run_length :: "nat list \<Rightarrow> nat" where
  "run_length s = (case s of [] \<Rightarrow> 0 | c # cs \<Rightarrow> Suc (length (takeWhile (\<lambda>x. x = c) cs)))"

function fixCharRepeats :: "nat list \<Rightarrow> nat list" where
  "fixCharRepeats s =
     (if s = [] then []
      else let n = run_length s
           in (if repeatThreshold < n then [hd s] else take n s) @ fixCharRepeats (drop n s))"
  by pat_completeness auto
termination
proof (relation "measure length", goal_cases)
  case (2 s n)
  then show ?case by (cases s) (auto simp: run_length_def)
qed simp

definition equal :: "nat list \<Rightarrow> nat list \<Rightarrow> bool" where
  "equal a b \<longleftrightarrow> list_all (\<lambda>i. a ! i = b ! i) [0..<length a]"

definition slice_runes :: "nat list \<Rightarrow> nat \<Rightarrow> nat \<Rightarrow> nat list" where
  "slice_runes s a b = take (b - a) (drop a s)"

definition repeats :: "nat list \<Rightarrow> nat \<Rightarrow> bool" where
  "repeats s k \<longleftrightarrow> list_all (\<lambda>rep. equal (slice_runes s (rep * k) (rep * k + k)) (take k s)) [1..<repeatThreshold]"

function pattern_loop :: "nat \<Rightarrow> nat list \<Rightarrow> nat" where
  "pattern_loop k s =
     (if k \<le> maxPattern \<and> k * repeatThreshold \<le> length s
      then if repeats s k then k else pattern_loop (k + 1) s
      else 0)"
  by pat_completeness auto
termination by (relation "measure (\<lambda>(k, s). Suc maxPattern - k)") auto

definition patternAt :: "nat list \<Rightarrow> nat" where
  "patternAt s = pattern_loop 1 s"

text \<open>Step over the further copies of the pattern of \<open>k\<close> characters.\<close>

function pattern_end :: "nat list \<Rightarrow> nat \<Rightarrow> nat \<Rightarrow> nat" where
  "pattern_end s k e =
     (if 0 < k \<and> e + k \<le> length s \<and> equal (slice_runes s e (e + k)) (take k s) then pattern_end s k (e + k) else e)"
  by pat_completeness auto
termination by (relation "measure (\<lambda>(s, k, e). length s - e)") auto

declare fixCharRepeats.simps [simp del] pattern_loop.simps [simp del] pattern_end.simps [simp del]

lemma pattern_end_ge: "e \<le> pattern_end s k e"
proof (induction s k e rule: pattern_end.induct)
  case (1 s k e)
  then show ?case by (subst pattern_end.simps) auto
qed

lemma patternAt_le: "patternAt s \<le> maxPattern"
proof -
  have "pattern_loop k s \<le> maxPattern" for k
  proof (induction k s rule: pattern_loop.induct)
    case (1 k s)
    then show ?case by (subst pattern_loop.simps) auto
  qed
  then show ?thesis by (simp add: patternAt_def)
qed

text \<open>
  Both loops of \<open>fixPatternRepeats\<close>: the inner one moves on by one character while at least
  \<open>2 * repeatThreshold\<close> are left, the outer one starts again behind a collapsed pattern.
\<close>

function fixPatternRepeats :: "nat list \<Rightarrow> nat list \<Rightarrow> nat list" where
  "fixPatternRepeats s out =
     (if length s < 2 * repeatThreshold then out @ s
      else let k = patternAt s in
           if 0 < k then fixPatternRepeats (drop (pattern_end s k (k * repeatThreshold)) s) (out @ take k s)
           else fixPatternRepeats (tl s) (out @ [hd s]))"
  by pat_completeness auto
termination
proof (relation "measure (\<lambda>(s, out). length s)", goal_cases)
  case (2 s out k)
  then have "0 < k * repeatThreshold" by (simp add: repeatThreshold_def)
  then have "0 < pattern_end s k (k * repeatThreshold)" using pattern_end_ge [of "k * repeatThreshold" s k] by linarith
  moreover have "0 < length s" using 2 by (cases s) (auto simp: repeatThreshold_def)
  ultimately show ?case by simp
next
  case (3 s out k)
  then have "0 < length s" by (cases s) (auto simp: repeatThreshold_def)
  then show ?case by simp
qed simp

declare fixPatternRepeats.simps [simp del]

section \<open>Model: parsing the answer\<close>

definition isSpace :: "unicode_tables \<Rightarrow> nat \<Rightarrow> bool" where
  "isSpace uc r \<longleftrightarrow> IsSpace uc r \<or> 0x1c \<le> r \<and> r \<le> 0x1f"

text \<open>\<open>bytes.TrimFunc\<close>: drop the runes that satisfy \<open>p\<close> at both ends.\<close>

function trim_left :: "(nat \<Rightarrow> bool) \<Rightarrow> string \<Rightarrow> string" where
  "trim_left p s = (if s \<noteq> [] \<and> p (fst (DecodeRune s)) then trim_left p (drop (snd (DecodeRune s)) s) else s)"
  by pat_completeness auto
termination
proof (relation "measure (\<lambda>(p, s). length s)", goal_cases)
  case (2 p s)
  then show ?case using DecodeRune_size_pos [of s] by auto
qed simp

function trim_right :: "(nat \<Rightarrow> bool) \<Rightarrow> string \<Rightarrow> string" where
  "trim_right p s =
     (if s \<noteq> [] \<and> p (fst (DecodeLastRune s)) then trim_right p (take (length s - snd (DecodeLastRune s)) s) else s)"
  by pat_completeness auto
termination
proof (relation "measure (\<lambda>(p, s). length s)", goal_cases)
  case (2 p s)
  then show ?case using DecodeLastRune_size_pos [of s] by auto
qed simp

declare trim_left.simps [simp del] trim_right.simps [simp del]

definition TrimFunc :: "(nat \<Rightarrow> bool) \<Rightarrow> string \<Rightarrow> string" where
  "TrimFunc p s = trim_right p (trim_left p s)"

text \<open>\<open>c | 0x20\<close> on a byte.\<close>

definition fold_byte :: "char \<Rightarrow> nat" where
  "fold_byte c = (if even (bv c div 32) then bv c + 32 else bv c)"

definition hasPrefixFold :: "string \<Rightarrow> string \<Rightarrow> bool" where
  "hasPrefixFold s prefix \<longleftrightarrow>
     list_all (\<lambda>i. fold_byte (s ! i) = fold_byte (prefix ! i) \<and> (prefix ! i = CHR '' '' \<longleftrightarrow> s ! i = CHR '' '')) [0..<length prefix]"

definition containsFold :: "string \<Rightarrow> string \<Rightarrow> bool" where
  "containsFold s sub \<longleftrightarrow> list_ex (\<lambda>i. i + length sub \<le> length s \<and> hasPrefixFold (drop i s) sub) [0..<Suc (length s)]"

fun cut_at :: "nat \<Rightarrow> string \<Rightarrow> string \<Rightarrow> (string \<times> string) option" where
  "cut_at 0 s sep = (if take (length sep) s = sep then Some ([], drop (length sep) s) else None)"
| "cut_at (Suc n) s sep =
     (if take (length sep) s = sep then Some ([], drop (length sep) s)
      else map_option (\<lambda>(a, b). (hd s # a, b)) (cut_at n (tl s) sep))"

text \<open>\<open>bytes.Cut\<close> at the first occurrence of the separator; \<open>None\<close> when there is none.\<close>

definition Cut :: "string \<Rightarrow> string \<Rightarrow> (string \<times> string) option" where
  "Cut s sep = cut_at (length s) s sep"

text \<open>\<open>bytes.Lines\<close>: each line with its line end.\<close>

fun Lines_acc :: "string \<Rightarrow> string \<Rightarrow> string list" where
  "Lines_acc acc [] = (if acc = [] then [] else [acc])"
| "Lines_acc acc (c # s) = (if c = CHR 0x0A then (acc @ [c]) # Lines_acc [] s else Lines_acc (acc @ [c]) s)"

definition Lines :: "string \<Rightarrow> string list" where
  "Lines s = Lines_acc [] s"

fun parse_meta :: "unicode_tables \<Rightarrow> string list \<Rightarrow> Language" where
  "parse_meta uc [] = Unknown"
| "parse_meta uc (raw # ls) =
     (let line = TrimFunc (isSpace uc) raw in
      if line = [] then parse_meta uc ls
      else if length ''language '' \<le> length line \<and> hasPrefixFold line ''language '' then
        let val = TrimFunc (isSpace uc) (drop (length ''language '') line)
        in if val \<noteq> [] then fst (ParseLanguage val) else Unknown
      else parse_meta uc ls)"

text \<open>
  \<open>parse\<close>: the language, and the text when there was anything but white space to parse. The
  transcriber's text is left alone otherwise, which \<open>None\<close> stands for.
\<close>

function decode_runes :: "string \<Rightarrow> nat list" where
  "decode_runes s = (if s = [] then [] else fst (DecodeRune s) # decode_runes (drop (snd (DecodeRune s)) s))"
  by pat_completeness auto
termination
proof (relation "measure length", goal_cases)
  case (2 s)
  then show ?case using DecodeRune_size_pos [of s] by auto
qed simp

declare decode_runes.simps [simp del]

definition asr_parse :: "unicode_tables \<Rightarrow> Language \<Rightarrow> string \<Rightarrow> Language \<times> string option" where
  "asr_parse uc forced raw =
     (let s = TrimFunc (isSpace uc) raw in
      if s = [] then (forced, None)
      else let fixed = fixPatternRepeats (fixCharRepeats (decode_runes s)) [];
               txt = concat (map AppendRune fixed)
           in if forced \<noteq> Unknown then (forced, Some txt)
              else case Cut txt ''<asr_text>'' of
                     None \<Rightarrow> (Unknown, Some (TrimFunc (isSpace uc) txt))
                   | Some (meta, body) \<Rightarrow>
                       (parse_meta uc (Lines (if containsFold meta ''language none'' then [] else meta)),
                        Some (TrimFunc (isSpace uc) body)))"

section \<open>Runs of one character\<close>

definition expand_runs :: "(nat \<times> nat) list \<Rightarrow> nat list" where
  "expand_runs rs = concat (map (\<lambda>(c, n). replicate n c) rs)"

lemma expand_runs_simps [simp]:
  "expand_runs [] = []" "expand_runs ((c, n) # rs) = replicate n c @ expand_runs rs"
  by (simp_all add: expand_runs_def)

definition maximal_runs :: "(nat \<times> nat) list \<Rightarrow> bool" where
  "maximal_runs rs \<longleftrightarrow> list_all (\<lambda>(c, n). 0 < n) rs \<and> distinct_adj (map fst rs)"

lemma maximal_runs_ConsD:
  assumes "maximal_runs ((c, n) # rs)"
  shows "0 < n" "maximal_runs rs" "expand_runs rs = [] \<or> hd (expand_runs rs) \<noteq> c"
proof -
  show "0 < n" "maximal_runs rs" using assms by (auto simp: maximal_runs_def distinct_adj_Cons)
  show "expand_runs rs = [] \<or> hd (expand_runs rs) \<noteq> c"
    using assms by (cases rs) (auto simp: maximal_runs_def distinct_adj_Cons)
qed

lemma run_length_replicate:
  assumes "0 < n" and "rest = [] \<or> hd rest \<noteq> c"
  shows "run_length (replicate n c @ rest) = n"
proof -
  have "takeWhile (\<lambda>x. x = c) rest = []" using assms(2) by (cases rest) auto
  then have "takeWhile (\<lambda>x. x = c) (replicate m c @ rest) = replicate m c" for m
    by (induction m) auto
  then show ?thesis using assms(1) by (cases n) (auto simp: run_length_def)
qed

lemma fixCharRepeats_expand:
  "maximal_runs rs \<Longrightarrow>
   fixCharRepeats (expand_runs rs) = expand_runs (map (\<lambda>(c, n). (c, if repeatThreshold < n then 1 else n)) rs)"
proof (induction rs)
  case Nil
  show ?case by (simp add: fixCharRepeats.simps)
next
  case (Cons r rs)
  obtain c n where r: "r = (c, n)" by (cases r)
  note m = maximal_runs_ConsD [OF Cons.prems [unfolded r]]
  have "run_length (expand_runs (r # rs)) = n" using run_length_replicate [OF m(1,3)] by (simp add: r)
  moreover have "hd (expand_runs (r # rs)) = c" "expand_runs (r # rs) \<noteq> []" using m(1) by (auto simp: r hd_append)
  ultimately show ?case using Cons.IH [OF m(2)] m(1)
    by (subst fixCharRepeats.simps) (simp add: r Let_def)
qed

lemma runs_exist: "\<exists>rs. maximal_runs rs \<and> s = expand_runs rs"
proof (induction s)
  case Nil
  show ?case by (rule exI [of _ "[]"]) (simp add: maximal_runs_def)
next
  case (Cons x s)
  then obtain rs where rs: "maximal_runs rs" "s = expand_runs rs" by blast
  show ?case
  proof (cases rs)
    case Nil
    then show ?thesis using rs by (intro exI [of _ "[(x, 1)]"]) (simp add: maximal_runs_def)
  next
    case c: (Cons r rs')
    obtain d n where r: "r = (d, n)" by (cases r)
    show ?thesis
    proof (cases "d = x")
      case True
      then show ?thesis using rs c r by (intro exI [of _ "(x, Suc n) # rs'"]) (auto simp: maximal_runs_def distinct_adj_Cons)
    next
      case False
      then show ?thesis using rs c r by (intro exI [of _ "(x, 1) # rs"]) (auto simp: maximal_runs_def distinct_adj_Cons)
    qed
  qed
qed

text \<open>
  \<open>fixCharRepeats\<close> works on the maximal runs of equal characters: a run of more than
  twenty is collapsed to one character, every other run and the order of the runs are kept.
\<close>

theorem fixCharRepeats_runs:
  "\<exists>rs. maximal_runs rs \<and> s = expand_runs rs \<and>
        fixCharRepeats s = expand_runs (map (\<lambda>(c, n). (c, if 20 < n then 1 else n)) rs)"
proof -
  obtain rs where "maximal_runs rs" "s = expand_runs rs" using runs_exist by blast
  then show ?thesis using fixCharRepeats_expand [of rs] by (auto simp: repeatThreshold_def)
qed

section \<open>Repeated patterns\<close>

lemma equal_iff: "length a = length b \<Longrightarrow> equal a b \<longleftrightarrow> a = b"
  by (auto simp: equal_def list_all_iff intro: nth_equalityI)

lemma slices_concat:
  assumes "\<And>r. r < m \<Longrightarrow> slice_runes s (r * k) (r * k + k) = w"
  shows "take (m * k) s = concat (replicate m w)"
  using assms
proof (induction m)
  case (Suc m)
  have "take (Suc m * k) s = take (m * k) s @ take k (drop (m * k) s)"
    by (simp add: take_add [symmetric] add.commute)
  also have "take k (drop (m * k) s) = w" using Suc.prems [of m] by (simp add: slice_runes_def)
  finally show ?case using Suc by (simp flip: replicate_append_same)
qed simp

lemma concat_slices:
  assumes "take (m * k) s = concat (replicate m w)" and "length w = k" and "r < m" 
  shows "slice_runes s (r * k) (r * k + k) = w"
proof -
  have le: "r * k + k \<le> m * k" using assms(3) by (metis Suc_leI mult_Suc mult_le_mono1 add.commute)
  have len: "length (concat (replicate n w)) = n * k" for n using assms(2) by (induction n) auto
  have "replicate m w = replicate r w @ w # replicate (m - Suc r) w"
    using assms(3) by (metis Suc_diff_Suc replicate_Suc replicate_add add_diff_inverse_nat less_imp_le not_less)
  then have "concat (replicate m w) = concat (replicate r w) @ w @ concat (replicate (m - Suc r) w)" by simp
  then have "take k (drop (r * k) (take (m * k) s)) = w" unfolding assms(1) using assms(2) len [of r] by simp
  moreover have "drop (r * k) (take (m * k) s) = take (m * k - r * k) (drop (r * k) s)" by (simp add: drop_take)
  moreover have "min k (m * k - r * k) = k" using le by simp
  ultimately show ?thesis by (simp add: slice_runes_def take_take)
qed

text \<open>\<open>s\<close> starts with \<open>repeatThreshold\<close> copies of its first \<open>k\<close> characters.\<close>

lemma repeats_iff:
  assumes "k * repeatThreshold \<le> length s"
  shows "repeats s k \<longleftrightarrow> take (repeatThreshold * k) s = concat (replicate repeatThreshold (take k s))"
proof -
  have k: "length (take k s) = k" using assms by (cases "k = 0") (auto simp: repeatThreshold_def)
  have len: "length (slice_runes s (r * k) (r * k + k)) = length (take k s)" if "r < repeatThreshold" for r
  proof -
    have "r * k + k \<le> repeatThreshold * k" using that by (metis Suc_leI mult_Suc mult_le_mono1 add.commute)
    then show ?thesis using assms k by (simp add: slice_runes_def mult.commute)
  qed
  have "repeats s k \<longleftrightarrow> (\<forall>r. 1 \<le> r \<and> r < repeatThreshold \<longrightarrow> slice_runes s (r * k) (r * k + k) = take k s)"
    by (auto simp: repeats_def list_all_iff equal_iff [OF len])
  also have "\<dots> \<longleftrightarrow> (\<forall>r<repeatThreshold. slice_runes s (r * k) (r * k + k) = take k s)"
    by (metis One_nat_def Suc_leI add_0 drop0 gr0I diff_zero mult_0 slice_runes_def)
  also have "\<dots> \<longleftrightarrow> take (repeatThreshold * k) s = concat (replicate repeatThreshold (take k s))"
    using slices_concat [of repeatThreshold s k "take k s"] concat_slices [of repeatThreshold k s "take k s", OF _ k] by blast
  finally show ?thesis .
qed

lemma pattern_end_copies:
  assumes "0 < k" "k \<le> length s" "e = m * k" "e \<le> length s" "take e s = concat (replicate m (take k s))"
  shows "\<exists>n\<ge>m. pattern_end s k e = n * k \<and> n * k \<le> length s \<and> take (n * k) s = concat (replicate n (take k s))"
  using assms
proof (induction s k e arbitrary: m rule: pattern_end.induct)
  case (1 s k e)
  let ?more = "0 < k \<and> e + k \<le> length s \<and> equal (slice_runes s e (e + k)) (take k s)"
  show ?case
  proof (cases ?more)
    case True
    then have "length (slice_runes s e (e + k)) = length (take k s)" using "1.prems"(2) by (auto simp: slice_runes_def min_def)
    then have "slice_runes s e (e + k) = take k s" using True equal_iff by blast
    then have "take (e + k) s = concat (replicate (Suc m) (take k s))"
      using "1.prems"(5) by (simp add: take_add slice_runes_def flip: replicate_append_same)
    then have "\<exists>n\<ge>Suc m. pattern_end s k (e + k) = n * k \<and> n * k \<le> length s \<and> take (n * k) s = concat (replicate n (take k s))"
      using "1.IH" [OF True, of "Suc m"] "1.prems" True by auto
    then show ?thesis using True by (subst pattern_end.simps) (auto intro: Suc_leD)
  next
    case False
    then show ?thesis using "1.prems" by (subst pattern_end.simps) auto
  qed
qed

lemma pattern_loop_Some: "pattern_loop j s = k \<Longrightarrow> 0 < k \<Longrightarrow>
  j \<le> k \<and> k \<le> maxPattern \<and> k * repeatThreshold \<le> length s \<and> repeats s k"
proof (induction j s rule: pattern_loop.induct)
  case (1 j s)
  then show ?case by (simp add: pattern_loop.simps [of j s] split: if_splits)
qed

lemma patternAt_copies:
  assumes "patternAt s = k" "0 < k"
  shows "k \<le> maxPattern" "k * repeatThreshold \<le> length s"
    "take (k * repeatThreshold) s = concat (replicate repeatThreshold (take k s))"
  using pattern_loop_Some [of 1 s k] assms repeats_iff [of k s] by (auto simp: patternAt_def mult.commute)

section \<open>Blocks of a collapsed text\<close>

text \<open>
  A text as a list of blocks \<open>(w, c)\<close>, the word \<open>w\<close> written \<open>c\<close> times: single characters
  written once, and words of at most \<open>maxPattern\<close> characters written at least \<open>repeatThreshold\<close> times.
\<close>

definition expand_blocks :: "(nat list \<times> nat) list \<Rightarrow> nat list" where
  "expand_blocks bs = concat (map (\<lambda>(w, c). concat (replicate c w)) bs)"

definition block_ok :: "nat list \<times> nat \<Rightarrow> bool" where
  "block_ok = (\<lambda>(w, c). length w = 1 \<and> c = 1 \<or> 1 \<le> length w \<and> length w \<le> maxPattern \<and> repeatThreshold \<le> c)"

lemma expand_singles: "expand_blocks (map (\<lambda>x. ([x], Suc 0)) s) = s"
  by (induction s) (auto simp: expand_blocks_def)

lemma fixPatternRepeats_blocks_acc:
  "\<exists>bs. s = expand_blocks bs \<and> fixPatternRepeats s out = out @ concat (map fst bs) \<and> list_all block_ok bs"
proof (induction s out rule: fixPatternRepeats.induct)
  case (1 s out)
  let ?k = "patternAt s" and ?e = "pattern_end s (patternAt s) (patternAt s * repeatThreshold)"
  consider "length s < 2 * repeatThreshold" | "\<not> length s < 2 * repeatThreshold" "0 < ?k" | "\<not> length s < 2 * repeatThreshold" "?k = 0"
    by blast
  then show ?case
  proof cases
    case 1
    then show ?thesis
      by (intro exI [of _ "map (\<lambda>x. ([x], 1)) s"]) (simp add: expand_singles fixPatternRepeats.simps list_all_iff block_ok_def comp_def)
  next
    case 2
    note c = patternAt_copies [OF refl 2(2)]
    have "?k \<le> length s" using c(2) by (auto simp: repeatThreshold_def)
    then obtain n where n: "repeatThreshold \<le> n" "?e = n * ?k" "n * ?k \<le> length s" "take ?e s = concat (replicate n (take ?k s))"
      using pattern_end_copies [of ?k s "?k * repeatThreshold" repeatThreshold] c 2 by (auto simp: mult.commute)
    from "1.IH"(1) [OF 2(1) refl 2(2)] obtain bs where bs: "drop ?e s = expand_blocks bs"
      "fixPatternRepeats (drop ?e s) (out @ take ?k s) = (out @ take ?k s) @ concat (map fst bs)" "list_all block_ok bs" by blast
    have "s = expand_blocks ((take ?k s, n) # bs)"
      using bs(1) n(4) append_take_drop_id [of ?e s] by (simp add: expand_blocks_def)
    moreover have "block_ok (take ?k s, n)" using n(1) c(1) 2(2) \<open>?k \<le> length s\<close> by (simp add: block_ok_def)
    ultimately show ?thesis using bs(2,3) 2
      by (intro exI [of _ "(take ?k s, n) # bs"]) (simp add: fixPatternRepeats.simps [of s] Let_def)
  next
    case 3
    then have s: "s = hd s # tl s" by (cases s) (auto simp: repeatThreshold_def)
    from "1.IH"(2) [OF 3(1) refl] 3 obtain bs where bs: "tl s = expand_blocks bs"
      "fixPatternRepeats (tl s) (out @ [hd s]) = (out @ [hd s]) @ concat (map fst bs)" "list_all block_ok bs" by auto
    have "s = expand_blocks (([hd s], 1) # bs)" using s bs(1) by (simp add: expand_blocks_def)
    then show ?thesis using bs(2,3) 3
      by (intro exI [of _ "([hd s], 1) # bs"]) (simp add: fixPatternRepeats.simps [of s] Let_def block_ok_def)
  qed
qed

text \<open>No position of \<open>s\<close> that leaves \<open>2 * repeatThreshold\<close> characters opens a repeated pattern.\<close>

definition calm :: "nat list \<Rightarrow> bool" where
  "calm s \<longleftrightarrow> list_all (\<lambda>i. patternAt (drop i s) = 0) [0..<length s - 39]"

lemma calm_short: "length s < 2 * repeatThreshold \<Longrightarrow> calm s"
  by (auto simp: calm_def repeatThreshold_def list_all_iff)

lemma calm_step:
  assumes "\<not> length s < 2 * repeatThreshold"
  shows "calm s \<longleftrightarrow> patternAt s = 0 \<and> calm (tl s)"
proof -
  have "length s - 39 = Suc (length (tl s) - 39)" using assms by (auto simp: repeatThreshold_def)
  then have "calm s \<longleftrightarrow> patternAt s = 0 \<and> list_all (\<lambda>i. patternAt (drop (Suc i) s) = 0) [0..<length (tl s) - 39]"
    by (simp add: calm_def upt_conv_Cons map_Suc_upt [symmetric] list.pred_map comp_def del: upt_Suc)
  then show ?thesis by (simp add: calm_def drop_Suc)
qed

lemma fixPatternRepeats_calm: "calm s \<Longrightarrow> fixPatternRepeats s out = out @ s"
proof (induction s out rule: fixPatternRepeats.induct)
  case (1 s out)
  show ?case
  proof (cases "length s < 2 * repeatThreshold")
    case False
    then have "s \<noteq> []" by (auto simp: repeatThreshold_def)
    moreover have "patternAt s = 0" "calm (tl s)" using "1.prems" calm_step [OF False] by auto
    ultimately show ?thesis using "1.IH"(2) [OF False refl] False
      by (simp add: fixPatternRepeats.simps [of s] Let_def)
  qed (simp add: fixPatternRepeats.simps)
qed

lemma fixPatternRepeats_length_le: "length (fixPatternRepeats s out) \<le> length out + length s"
proof -
  have sum: "length (concat (map fst bs)) \<le> length (expand_blocks bs)" if "list_all block_ok bs" for bs
    using that
  proof (induction bs)
    case (Cons b bs)
    obtain w c where b: "b = (w, c)" by (cases b)
    with Cons.prems have "1 \<le> c" by (auto simp: block_ok_def repeatThreshold_def)
    then have "length w \<le> length (concat (replicate c w))" by (cases c) auto
    then show ?case using Cons by (simp add: expand_blocks_def b)
  qed (simp add: expand_blocks_def)
  obtain bs where "s = expand_blocks bs" "fixPatternRepeats s out = out @ concat (map fst bs)" "list_all block_ok bs"
    using fixPatternRepeats_blocks_acc by blast
  then show ?thesis using sum by simp
qed

lemma fixPatternRepeats_shrinks: "\<not> calm s \<Longrightarrow> length (fixPatternRepeats s out) < length out + length s"
proof (induction s out rule: fixPatternRepeats.induct)
  case (1 s out)
  have long: "\<not> length s < 2 * repeatThreshold" using "1.prems" calm_short by blast
  let ?k = "patternAt s" and ?e = "pattern_end s (patternAt s) (patternAt s * repeatThreshold)"
  show ?case
  proof (cases "0 < ?k")
    case True
    note c = patternAt_copies [OF refl True]
    have "?k < ?k * repeatThreshold" using True by (simp add: repeatThreshold_def)
    then have "?k < ?e" using pattern_end_ge [of "?k * repeatThreshold" s ?k] by linarith
    moreover have "length (fixPatternRepeats (drop ?e s) (out @ take ?k s)) \<le> length out + ?k + (length s - ?e)"
      using fixPatternRepeats_length_le [of "drop ?e s" "out @ take ?k s"] by simp
    moreover have "?k < length s" using c(2) \<open>?k < ?k * repeatThreshold\<close> by linarith
    ultimately have "length (fixPatternRepeats (drop ?e s) (out @ take ?k s)) < length out + length s" by linarith
    then show ?thesis using long True
      by (simp add: fixPatternRepeats.simps [of s] Let_def)
  next
    case False
    then have "length (fixPatternRepeats (tl s) (out @ [hd s])) < length (out @ [hd s]) + length (tl s)"
      using "1.IH"(2) [OF long refl] "1.prems" calm_step [OF long] by blast
    moreover have "length s = Suc (length (tl s))" using long by (auto simp: repeatThreshold_def)
    moreover have "fixPatternRepeats s out = fixPatternRepeats (tl s) (out @ [hd s])"
      using long False by (simp add: fixPatternRepeats.simps [of s] Let_def)
    ultimately show ?thesis by (metis add_Suc_right add_Suc add.commute length_append_singleton)
  qed
qed

text \<open>
  \<open>fixPatternRepeats\<close> only collapses repetitions: its input splits into single
  characters and words of at most twenty characters written at least twenty times, and its
  output has each of these once, in order. It leaves a text unchanged exactly when no position
  with forty characters left starts with twenty copies of a word; every shorter text is kept.
\<close>

theorem fixPatternRepeats_blocks:
  "(\<exists>bs. s = expand_blocks bs \<and> fixPatternRepeats s [] = concat (map fst bs) \<and>
         list_all (\<lambda>(w, c). length w = 1 \<and> c = 1 \<or> 1 \<le> length w \<and> length w \<le> 20 \<and> 20 \<le> c) bs) \<and>
   (fixPatternRepeats s [] = s \<longleftrightarrow> list_all (\<lambda>i. patternAt (drop i s) = 0) [0..<length s - 39])"
proof (rule conjI)
  obtain bs where "s = expand_blocks bs" "fixPatternRepeats s [] = concat (map fst bs)" "list_all block_ok bs"
    using fixPatternRepeats_blocks_acc [of s "[]"] by auto
  then show "\<exists>bs. s = expand_blocks bs \<and> fixPatternRepeats s [] = concat (map fst bs) \<and>
         list_all (\<lambda>(w, c). length w = 1 \<and> c = 1 \<or> 1 \<le> length w \<and> length w \<le> 20 \<and> 20 \<le> c) bs"
    unfolding block_ok_def maxPattern_def repeatThreshold_def by blast
  show "fixPatternRepeats s [] = s \<longleftrightarrow> list_all (\<lambda>i. patternAt (drop i s) = 0) [0..<length s - 39]"
    using fixPatternRepeats_calm [of s "[]"] fixPatternRepeats_shrinks [of s "[]"] unfolding calm_def
    by (metis append_Nil less_irrefl list.size(3) add_0)
qed

end
