(* ===== verification/Asr_Answer.thy ===== *)
theory Asr_Answer
  imports Asr_Text
begin

text \<open>
  What the recognizer's \<open>parse\<close> (\<^verbatim>\<open>src/qwen3asr/text.go\<close>, modelled in \<open>Asr_Text\<close>) reads out of
  a well-formed answer: the language the model named and its text, unchanged unless it runs away.
\<close>

section \<open>Reading an answer\<close>

text \<open>A text in which no position opens a repeated pattern goes through both passes unchanged.\<close>

definition unrepeated :: "nat list \<Rightarrow> bool" where
  "unrepeated s \<longleftrightarrow> list_all (\<lambda>i. patternAt (drop i s) = 0) [0..<length s]"

lemma unrepeated_drop: "unrepeated s \<Longrightarrow> unrepeated (drop n s)"
  by (auto simp: unrepeated_def list_all_iff add.commute less_diff_conv)

lemma patternAt_run:
  assumes "repeatThreshold < run_length s"
  shows "patternAt s = 1"
proof -
  obtain c cs where s: "s = c # cs" using assms by (cases s) (auto simp: run_length_def)
  let ?n = "length (takeWhile (\<lambda>x. x = c) cs)"
  have n: "20 \<le> ?n" "?n \<le> length cs" using assms by (auto simp: run_length_def s repeatThreshold_def length_takeWhile_le)
  have "cs ! j = c" if "j < ?n" for j
    using that nth_mem [of j "takeWhile (\<lambda>x. x = c) cs"] by (auto simp: takeWhile_nth dest: set_takeWhileD)
  then have "cs ! (j - 1) = c" if "1 \<le> j" "j < 20" for j using that n by simp
  then have "repeats s 1"
    using n by (auto simp: repeats_def list_all_iff equal_def slice_runes_def repeatThreshold_def s)
  then show ?thesis using n by (simp add: patternAt_def pattern_loop.simps [of "Suc 0"] maxPattern_def repeatThreshold_def s)
qed

lemma fixCharRepeats_unrepeated: "unrepeated s \<Longrightarrow> fixCharRepeats s = s"
proof (induction s rule: fixCharRepeats.induct)
  case (1 s)
  show ?case
  proof (cases "s = []")
    case False
    then have "patternAt s = 0" using "1.prems" by (auto simp: unrepeated_def list_all_iff dest: bspec [of _ _ 0])
    then have "\<not> repeatThreshold < run_length s" using patternAt_run by force
    then show ?thesis using False "1.IH" [OF False refl] unrepeated_drop [OF "1.prems"]
      by (simp add: fixCharRepeats.simps [of s] Let_def)
  qed (simp add: fixCharRepeats.simps)
qed

lemma unrepeated_calm: "unrepeated s \<Longrightarrow> calm s"
  by (auto simp: unrepeated_def calm_def list_all_iff)

lemma encode_decode_runes: "utf8_Valid s \<Longrightarrow> concat (map AppendRune (decode_runes s)) = s"
proof (induction s rule: decode_runes.induct)
  case (1 s)
  show ?case
  proof (cases "s = []")
    case False
    then have "\<not> decode_bad s" "utf8_Valid (drop (snd (DecodeRune s)) s)"
      using "1.prems" by (auto simp: utf8_Valid.simps [of s] split: if_splits)
    then show ?thesis using "1.IH" [OF False] False AppendRune_DecodeRune [of s]
      by (simp add: decode_runes.simps [of s])
  qed (simp add: decode_runes.simps)
qed

lemma unrepeated_text:
  assumes "utf8_Valid s" "unrepeated (decode_runes s)"
  shows "concat (map AppendRune (fixPatternRepeats (fixCharRepeats (decode_runes s)) [])) = s"
  using assms by (simp add: fixCharRepeats_unrepeated fixPatternRepeats_calm unrepeated_calm encode_decode_runes)

lemma TrimFunc_ascii:
  assumes "s \<noteq> []" "bv (hd s) < 128" "bv (last s) < 128" "\<not> p (bv (hd s))" "\<not> p (bv (last s))"
  shows "TrimFunc p s = s"
proof -
  have "trim_left p s = s" using assms by (cases s) (simp_all add: trim_left.simps DecodeRune_def RuneSelf_def)
  moreover have "trim_right p s = s" using assms by (simp add: trim_right.simps DecodeLastRune_def RuneSelf_def)
  ultimately show ?thesis by (simp add: TrimFunc_def)
qed

lemma cut_at_first: "c \<notin> set a \<Longrightarrow> length a \<le> n \<Longrightarrow> cut_at n (a @ (c # sep) @ b) (c # sep) = Some (a, b)"
proof (induction a arbitrary: n)
  case Nil
  then show ?case by (cases n) auto
next
  case (Cons x a)
  then show ?case by (cases n) auto
qed

lemma Cut_first: "c \<notin> set a \<Longrightarrow> Cut (a @ (c # sep) @ b) (c # sep) = Some (a, b)"
  unfolding Cut_def by (rule cut_at_first) simp_all

lemma Lines_acc_one: "CHR 0x0A \<notin> set s \<Longrightarrow> acc @ s \<noteq> [] \<Longrightarrow> Lines_acc acc s = [acc @ s]"
  by (induction s arbitrary: acc) auto

definition meta_of :: "string \<Rightarrow> string" where
  "meta_of name = ''language '' @ name"

text \<open>The only place of \<open>language none\<close> in \<open>language <name>\<close> is its start, and no name starts with \<open>none\<close>.\<close>

lemma containsFold_meta:
  assumes "CHR '' '' \<notin> set n" "n \<noteq> []" "fold_byte (hd n) \<noteq> 110"
  shows "\<not> containsFold (meta_of n) ''language none''"
proof
  assume "containsFold (meta_of n) ''language none''"
  then obtain i where i: "i + 13 \<le> length (meta_of n)" "hasPrefixFold (drop i (meta_of n)) ''language none''"
    by (auto simp: containsFold_def list_ex_iff eval_nat_numeral)
  have len: "length ''language none'' = 13" by simp
  have at: "fold_byte (meta_of n ! (i + j)) = fold_byte (''language none'' ! j) \<and>
      (''language none'' ! j = CHR '' '' \<longleftrightarrow> meta_of n ! (i + j) = CHR '' '')" if "j < 13" for j
  proof -
    have "j \<in> set [0..<13]" using that by simp
    with i(2) have "fold_byte (drop i (meta_of n) ! j) = fold_byte (''language none'' ! j) \<and>
        (''language none'' ! j = CHR '' '' \<longleftrightarrow> drop i (meta_of n) ! j = CHR '' '')"
      unfolding hasPrefixFold_def list_all_iff len by blast
    then show ?thesis using i(1) by simp
  qed
  have "meta_of n ! (i + 8) = CHR '' ''" using at [of 8] by simp
  then have "i = 0" using assms(1) i(1) nth_mem [of "i - 1" n] by (cases i) (auto simp: meta_of_def nth_append)
  then have "fold_byte (n ! 0) = 110" using at [of 9] by (simp add: meta_of_def nth_append fold_byte_def)
  then show False using assms(2,3) by (simp add: hd_conv_nth)
qed

lemma hasPrefixFold_meta: "hasPrefixFold (meta_of n) ''language ''"
  by (auto simp: hasPrefixFold_def list_all_iff meta_of_def nth_append)

lemma meta_facts:
  "\<forall>l \<in> set [1..<31]. let n = snd (languageTable ! l) in
     n \<noteq> [] \<and> CHR '' '' \<notin> set n \<and> fold_byte (hd n) \<noteq> 110 \<and> CHR ''<'' \<notin> set (meta_of n) \<and> CHR 0x0A \<notin> set (meta_of n) \<and> 
     list_all (\<lambda>c. 64 < bv c \<and> bv c < 128) n"
  by (simp add: languageTable_def meta_of_def fold_byte_def upt_rec [of 1] upt_rec Let_def)

lemma letter_TrimFunc:
  assumes "list_all (\<lambda>c. 64 < bv c \<and> bv c < 128) n" "n \<noteq> []" "\<And>r. 64 < r \<Longrightarrow> r < 128 \<Longrightarrow> \<not> IsSpace uc r"
  shows "TrimFunc (isSpace uc) n = n" "TrimFunc (isSpace uc) (meta_of n) = meta_of n"
proof -
  have "64 < bv (hd n) \<and> bv (hd n) < 128" "64 < bv (last n) \<and> bv (last n) < 128" using assms by (auto simp: list_all_iff)
  then have "\<not> isSpace uc (bv (hd n))" "\<not> isSpace uc (bv (last n))" "bv (hd n) < 128" "bv (last n) < 128"
    using assms(3) by (auto simp: isSpace_def)
  moreover have "\<not> isSpace uc (bv (CHR ''l''))" using assms(3) by (auto simp: isSpace_def)
  ultimately show "TrimFunc (isSpace uc) n = n" "TrimFunc (isSpace uc) (meta_of n) = meta_of n"
    using assms(2) by (auto intro!: TrimFunc_ascii simp: meta_of_def)
qed

lemma parse_meta_language:
  assumes "Language_valid l" "\<And>r. 64 < r \<Longrightarrow> r < 128 \<Longrightarrow> \<not> IsSpace uc r"
  shows "parse_meta uc (Lines (if containsFold (meta_of (Language_Name l)) ''language none'' then [] else meta_of (Language_Name l))) = l"
proof -
  have "Language_Name l = snd (languageTable ! unat l)" using assms(1) by (simp add: Language_valid_unat Language_Name_def)
  with meta_facts Language_table_index [OF assms(1)] have f: "Language_Name l \<noteq> []"
    "CHR 0x0A \<notin> set (meta_of (Language_Name l))" "CHR '' '' \<notin> set (Language_Name l)"
    "fold_byte (hd (Language_Name l)) \<noteq> 110" "list_all (\<lambda>c. 64 < bv c \<and> bv c < 128) (Language_Name l)"
    by (auto simp: Let_def)
  have "Lines (meta_of (Language_Name l)) = [meta_of (Language_Name l)]"
    using f(2) Lines_acc_one [of "meta_of (Language_Name l)" "[]"] by (simp add: Lines_def meta_of_def)
  moreover have "drop 9 (meta_of (Language_Name l)) = Language_Name l" "9 \<le> length (meta_of (Language_Name l))" "meta_of (Language_Name l) \<noteq> []"
    by (simp_all add: meta_of_def)
  ultimately show ?thesis using f containsFold_meta [OF f(3,1,4)] hasPrefixFold_meta letter_TrimFunc [OF f(5,1) assms(2)] ParseLanguage_table [OF assms(1), of "Language_Name l"]
    by (simp add: Let_def numeral_eq_Suc)
qed

text \<open>
  The transcript of an answer. When the trimmed answer is well-formed UTF-8 without
  runaway repetitions, then a forced language gives that language and the answer itself, and
  an answer of the form \<open>language <name><asr_text><text>\<close> gives the named language and the
  trimmed text. White space is a parameter; the ASCII letters are not.
\<close>

theorem asr_parse_answer:
  assumes "Language_valid l" "\<And>r. 64 < r \<Longrightarrow> r < 128 \<Longrightarrow> \<not> IsSpace uc r"
    and "TrimFunc (isSpace uc) raw = ''language '' @ Language_Name l @ ''<asr_text>'' @ body"
    and "utf8_Valid (TrimFunc (isSpace uc) raw)" and "unrepeated (decode_runes (TrimFunc (isSpace uc) raw))"
  shows "asr_parse uc Unknown raw = (l, Some (TrimFunc (isSpace uc) body)) \<and>
         asr_parse uc l raw = (l, Some (TrimFunc (isSpace uc) raw))"
proof -
  let ?s = "TrimFunc (isSpace uc) raw" and ?m = "meta_of (Language_Name l)"
  have ne: "?s \<noteq> []" "l \<noteq> Unknown" using assms(1,3) by (auto simp: Language_valid_unat Unknown_def)
  note same = unrepeated_text [OF assms(4,5)]
  have "Language_Name l = snd (languageTable ! unat l)" using assms(1) by (simp add: Language_valid_unat Language_Name_def)
  with meta_facts Language_table_index [OF assms(1)] have "CHR ''<'' \<notin> set ?m" by (auto simp: Let_def)
  then have "Cut (?m @ ''<asr_text>'' @ body) ''<asr_text>'' = Some (?m, body)" by (rule Cut_first)
  then have cut: "Cut ?s ''<asr_text>'' = Some (?m, body)" by (simp add: assms(3) meta_of_def)
  then have "asr_parse uc Unknown raw = (l, Some (TrimFunc (isSpace uc) body))"
    unfolding asr_parse_def Let_def same using ne parse_meta_language [OF assms(1,2)] by simp
  moreover have "asr_parse uc l raw = (l, Some ?s)"
    unfolding asr_parse_def Let_def same using ne by simp
  ultimately show ?thesis by blast
qed

definition ascii_tables :: unicode_tables where
  "ascii_tables = \<lparr>IsLetter = (\<lambda>r. 97 \<le> r \<and> r \<le> 122), IsNumber = (\<lambda>r. 48 \<le> r \<and> r \<le> 57),
     IsSpace = (\<lambda>r. r = 32 \<or> 9 \<le> r \<and> r \<le> 13), IsMark = (\<lambda>r. False), ToLower = id\<rparr>"

lemmas trim_eval = TrimFunc_def trim_left.simps trim_right.simps DecodeRune_def DecodeLastRune_def isSpace_def
  ascii_tables_def RuneSelf_def Language_Name_def languageTable_def numLanguages_def

theorem asr_parse_answer_witness:
  "asr_parse ascii_tables Unknown '' language Thai<asr_text> a b '' = (28, Some ''a b'')"
proof -
  let ?raw = "'' language Thai<asr_text> a b ''" and ?txt = "''language Thai<asr_text> a b''"
  have v: "Language_valid 28" by (simp add: Language_valid_unat numLanguages_def)
  have sp: "\<And>r. 64 < r \<Longrightarrow> r < 128 \<Longrightarrow> \<not> IsSpace ascii_tables r" by (simp add: ascii_tables_def)
  have trim: "TrimFunc (isSpace ascii_tables) ?raw = ?txt" "TrimFunc (isSpace ascii_tables) '' a b'' = ''a b''"
    by (simp_all add: trim_eval)
  have "?txt = ''language '' @ Language_Name 28 @ ''<asr_text>'' @ '' a b''" by (simp add: trim_eval)
  moreover have "utf8_Valid ?txt" by (simp add: utf8_Valid_ascii)
  moreover have "unrepeated (decode_runes ?txt)"
    by (simp add: decode_runes.simps DecodeRune_def RuneSelf_def unrepeated_def patternAt_def pattern_loop.simps
        repeatThreshold_def maxPattern_def repeats_def equal_def slice_runes_def upt_rec)
  ultimately show ?thesis using asr_parse_answer [OF v sp, of ?raw "'' a b''"] trim by simp
qed

end
