(* ===== verification/Wav.thy ===== *)
theory Wav
  imports Go_Utf8
begin

text \<open>
  WAV files: the decoder \<^verbatim>\<open>src/internal/audiofile/wav.go\<close> and the header that the server writes,
  \<open>putWAVHeader\<close> of \<^verbatim>\<open>src/internal/httpserver/speech.go\<close>. A file is its list of bytes. Floating
  point enters only through the value of a sample, which is kept symbolic: \<open>Scaled v k\<close> is
  \<open>float32(v)\<close> divided by \<open>2^k\<close>, and the IEEE formats keep their bits.
\<close>

section \<open>Model: little-endian integers\<close>

definition Uint16 :: "string \<Rightarrow> nat" where
  "Uint16 b = bv (b ! 0) + 256 * bv (b ! 1)"

definition Uint32 :: "string \<Rightarrow> nat" where
  "Uint32 b = bv (b ! 0) + 256 * bv (b ! 1) + 65536 * bv (b ! 2) + 16777216 * bv (b ! 3)"

definition Uint64 :: "string \<Rightarrow> nat" where
  "Uint64 b = Uint32 b + 4294967296 * Uint32 (drop 4 b)"

definition PutUint16 :: "nat \<Rightarrow> string" where
  "PutUint16 v = [char_of (v mod 256), char_of (v div 256 mod 256)]"

definition PutUint32 :: "nat \<Rightarrow> string" where
  "PutUint32 v = [char_of (v mod 256), char_of (v div 256 mod 256), char_of (v div 65536 mod 256), char_of (v div 16777216 mod 256)]"

section \<open>Model: the decoder\<close>

datatype wav_error =
    InvalidHeader | TruncatedChunk | ShortFmt | UnsupportedEncoding nat | InvalidFormat
  | UnsupportedPCMDepth nat | UnsupportedFloatDepth nat | InvalidBlockAlignment | ExceedsSeconds int | WavPanic

datatype sample = Scaled int nat | Float32frombits "32 word" | Float64frombits "64 word"

record wav_state =
  format :: nat
  channels :: nat
  sampleRate :: nat
  blockAlign :: nat
  bits :: nat
  audioData :: "string option"

definition wav_init :: wav_state where
  "wav_init = \<lparr>format = 0, channels = 0, sampleRate = 0, blockAlign = 0, bits = 0, audioData = None\<rparr>"

text \<open>The switch on the identifier of a chunk.\<close>

definition wav_chunk :: "string \<Rightarrow> string \<Rightarrow> wav_state \<Rightarrow> wav_error + wav_state" where
  "wav_chunk chunkID chunk st =
     (if chunkID = ''fmt '' then
        if length chunk < 16 then Inl ShortFmt
        else Inr (st\<lparr>format := Uint16 chunk, channels := Uint16 (drop 2 chunk), sampleRate := Uint32 (drop 4 chunk),
                     blockAlign := Uint16 (drop 12 chunk), bits := Uint16 (drop 14 chunk)\<rparr>)
      else if chunkID = ''data'' then
        Inr (case audioData st of None \<Rightarrow> st\<lparr>audioData := Some chunk\<rparr> | Some _ \<Rightarrow> st)
      else Inr st)"

text \<open>The loop over the chunks, each padded to an even offset.\<close>

function wav_chunks :: "string \<Rightarrow> nat \<Rightarrow> wav_state \<Rightarrow> wav_error + wav_state" where
  "wav_chunks data pos st =
     (if length data < pos + 8 then Inr st
      else case (go_slice data pos (pos + 4), go_slice data (pos + 4) (pos + 8)) of
             (Some chunkID, Some sz) \<Rightarrow>
               let chunkSize = Uint32 sz; pos' = pos + 8 in
               if length data < pos' + chunkSize then Inl TruncatedChunk
               else (case go_slice data pos' (pos' + chunkSize) of
                       None \<Rightarrow> Inl WavPanic
                     | Some chunk \<Rightarrow>
                         (case wav_chunk chunkID chunk st of
                            Inl e \<Rightarrow> Inl e
                          | Inr st' \<Rightarrow> let next_pos = pos' + chunkSize
                                       in wav_chunks data (if odd next_pos then next_pos + 1 else next_pos) st'))
           | _ \<Rightarrow> Inl WavPanic)"
  by pat_completeness auto
termination by (relation "measure (\<lambda>(data, pos, st). length data - pos)") auto

declare wav_chunks.simps [simp del]

text \<open>The 24-bit case: the bytes combined in an \<open>int32\<close> and sign-extended by hand.\<close>

definition int24 :: "string \<Rightarrow> int" where
  "int24 b =
     (let v = (word_of_nat (bv (b ! 0)) :: 32 word) OR push_bit 8 (word_of_nat (bv (b ! 1))) OR push_bit 16 (word_of_nat (bv (b ! 2)))
      in sint (if v AND 0x800000 \<noteq> 0 then v OR NOT 0xffffff else v))"

definition wav_sample :: "nat \<Rightarrow> nat \<Rightarrow> string \<Rightarrow> nat \<Rightarrow> wav_error + sample" where
  "wav_sample fmt depth audio i =
     (let at = i * (depth div 8) in
      case go_slice audio at (at + depth div 8) of
        None \<Rightarrow> Inl WavPanic
      | Some b \<Rightarrow>
          if fmt = 1 \<and> depth = 8 then Inr (Scaled (int (bv (b ! 0)) - 128) 7)
          else if fmt = 1 \<and> depth = 16 then Inr (Scaled (sint (word_of_nat (Uint16 b) :: 16 word)) 15)
          else if fmt = 1 \<and> depth = 24 then Inr (Scaled (int24 b) 23)
          else if fmt = 1 \<and> depth = 32 then Inr (Scaled (sint (word_of_nat (Uint32 b) :: 32 word)) 31)
          else if fmt = 3 \<and> depth = 32 then Inr (Float32frombits (word_of_nat (Uint32 b)))
          else if fmt = 3 \<and> depth = 64 then Inr (Float64frombits (word_of_nat (Uint64 b)))
          else Inr (Scaled 0 0))"

definition wav_frames :: "wav_state \<Rightarrow> int \<Rightarrow> wav_error + nat" where
  "wav_frames st maxSeconds =
     (let audio = (case audioData st of None \<Rightarrow> [] | Some a \<Rightarrow> a) in
      if format st \<noteq> 1 \<and> format st \<noteq> 3 then Inl (UnsupportedEncoding (format st))
      else if channels st < 1 \<or> 2 < channels st \<or> sampleRate st < 8000 \<or> 96000 < sampleRate st \<or> length audio = 0
        then Inl InvalidFormat
      else if format st = 1 \<and> bits st \<noteq> 8 \<and> bits st \<noteq> 16 \<and> bits st \<noteq> 24 \<and> bits st \<noteq> 32
        then Inl (UnsupportedPCMDepth (bits st))
      else if format st = 3 \<and> bits st \<noteq> 32 \<and> bits st \<noteq> 64 then Inl (UnsupportedFloatDepth (bits st))
      else if blockAlign st \<noteq> channels st * (bits st div 8) \<or> length audio mod blockAlign st \<noteq> 0
        then Inl InvalidBlockAlignment
      else let frames = length audio div blockAlign st in
           if 0 < maxSeconds \<and> wrap_int (int (sampleRate st) * maxSeconds) < int frames
           then Inl (ExceedsSeconds maxSeconds) else Inr frames)"

text \<open>
  \<open>DecodeWAVInto\<close>. \<open>dstCap\<close> is the capacity of \<open>dst\<close>; the last component of the result says
  whether a new slice was allocated.
\<close>

definition DecodeWAVInto :: "string \<Rightarrow> nat \<Rightarrow> int \<Rightarrow> wav_error + (sample list \<times> nat \<times> nat \<times> bool)" where
  "DecodeWAVInto data dstCap maxSeconds =
     (if length data < 12 \<or> take 4 data \<noteq> ''RIFF'' \<or> take 4 (drop 8 data) \<noteq> ''WAVE'' then Inl InvalidHeader
      else case wav_chunks data 12 wav_init of
             Inl e \<Rightarrow> Inl e
           | Inr st \<Rightarrow>
               (case wav_frames st maxSeconds of
                  Inl e \<Rightarrow> Inl e
                | Inr frames \<Rightarrow>
                    (case map_result (wav_sample (format st) (bits st) (case audioData st of None \<Rightarrow> [] | Some a \<Rightarrow> a))
                            [0..<frames * channels st] of
                       Inl e \<Rightarrow> Inl e
                     | Inr samples \<Rightarrow> Inr (samples, sampleRate st, channels st, dstCap < frames * channels st))))"

section \<open>Model: the server's WAV header\<close>

definition put_at :: "string \<Rightarrow> nat \<Rightarrow> string \<Rightarrow> string" where
  "put_at wav i bs = take i wav @ bs @ drop (i + length bs) wav"

definition putWAVHeader :: "string \<Rightarrow> nat \<Rightarrow> string" where
  "putWAVHeader wav rate =
     (let data = length wav - 44;
          wav = put_at wav 0 ''RIFF'';
          wav = put_at wav 4 (PutUint32 (36 + data));
          wav = put_at wav 8 ''WAVEfmt '';
          wav = put_at wav 16 (PutUint32 16);
          wav = put_at wav 20 (PutUint16 1);
          wav = put_at wav 22 (PutUint16 1);
          wav = put_at wav 24 (PutUint32 rate);
          wav = put_at wav 28 (PutUint32 (2 * rate));
          wav = put_at wav 32 (PutUint16 2);
          wav = put_at wav 34 (PutUint16 16);
          wav = put_at wav 36 ''data'';
          wav = put_at wav 40 (PutUint32 data)
      in wav)"

section \<open>Integers and their bytes\<close>

lemma bv_char_of [simp]: "bv (char_of n) = n mod (256 :: nat)"
  by (simp add: of_char_of)

lemmas bv_less = nat_of_char_less_256

lemma Uint16_Put: "Uint16 (PutUint16 v @ r) = v mod 65536"
proof -
  have "v mod (256 * 256) = 256 * (v div 256 mod 256) + v mod 256" by (rule mod_mult2_eq)
  then show ?thesis by (simp add: Uint16_def PutUint16_def)
qed

lemma Uint32_Put: "Uint32 (PutUint32 v @ r) = v mod 4294967296"
proof -
  have a: "v mod (256 * 256) = 256 * (v div 256 mod 256) + v mod 256"
    and b: "v mod (65536 * 256) = 65536 * (v div 65536 mod 256) + v mod 65536"
    and c: "v mod (16777216 * 256) = 16777216 * (v div 16777216 mod 256) + v mod 16777216"
    by (rule mod_mult2_eq)+
  then show ?thesis by (simp add: Uint32_def PutUint32_def)
qed

lemma Uint16_less: "Uint16 b < 65536"
  using bv_less [of "b ! 0"] bv_less [of "b ! 1"] unfolding Uint16_def by linarith

lemma Uint32_less: "Uint32 b < 4294967296"
  using bv_less [of "b ! 0"] bv_less [of "b ! 1"] bv_less [of "b ! 2"] bv_less [of "b ! 3"] unfolding Uint32_def by linarith

lemma sint_of_nat_range:
  "- (2 ^ (LENGTH('a) - 1)) \<le> sint (word_of_nat n :: 'a::len word)" "sint (word_of_nat n :: 'a::len word) < 2 ^ (LENGTH('a) - 1)"
  by (rule sint_ge, rule sint_lt)

lemma bit_byte: "x < 256 \<Longrightarrow> bit (word_of_nat x :: 32 word) n \<Longrightarrow> n < 8"
proof -
  assume "x < 256" "bit (word_of_nat x :: 32 word) n"
  then have "bit (take_bit 8 x) n" by (simp add: bit_of_nat_iff take_bit_eq_mod)
  then show "n < 8" by (simp add: bit_take_bit_iff)
qed

lemma int24_word:
  assumes "x < 256" "y < 256" "z < 256"
  shows "(word_of_nat x :: 32 word) OR push_bit 8 (word_of_nat y) OR push_bit 16 (word_of_nat z)
         = word_of_nat (x + 256 * y + 65536 * z)"
proof -
  have yz: "push_bit 8 (word_of_nat y) + push_bit 16 (word_of_nat z) = push_bit 8 (word_of_nat y) OR push_bit 16 (word_of_nat z :: 32 word)"
    by (rule disjunctive_add) (use assms in \<open>auto simp: bit_push_bit_iff dest!: bit_byte\<close>)
  have "word_of_nat x + (push_bit 8 (word_of_nat y) OR push_bit 16 (word_of_nat z))
        = (word_of_nat x :: 32 word) OR (push_bit 8 (word_of_nat y) OR push_bit 16 (word_of_nat z))"
    by (rule disjunctive_add) (use assms in \<open>auto simp: bit_push_bit_iff bit_or_iff dest!: bit_byte\<close>)
  then have "(word_of_nat x :: 32 word) OR (push_bit 8 (word_of_nat y) OR push_bit 16 (word_of_nat z))
    = word_of_nat x + (push_bit 8 (word_of_nat y) + push_bit 16 (word_of_nat z))" unfolding yz by (rule sym)
  also have "\<dots> = word_of_nat (x + 256 * y + 65536 * z)" by (simp add: push_bit_eq_mult)
  finally show ?thesis by (simp only: or.assoc)
qed

text \<open>The hand-written sign extension is the two's complement value of 24 bits.\<close>

lemma int24_eq:
  "int24 b = (let n = int (bv (b ! 0)) + 256 * int (bv (b ! 1)) + 65536 * int (bv (b ! 2))
              in if 8388608 \<le> n then n - 16777216 else n)"
proof -
  define n where "n = bv (b ! 0) + 256 * bv (b ! 1) + 65536 * bv (b ! 2)"
  define v :: "32 word" where "v = word_of_nat n"
  have n: "n < 16777216" unfolding n_def using bv_less [of "b ! 0"] bv_less [of "b ! 1"] bv_less [of "b ! 2"] by linarith
  have v: "(word_of_nat (bv (b ! 0)) :: 32 word) OR push_bit 8 (word_of_nat (bv (b ! 1))) OR push_bit 16 (word_of_nat (bv (b ! 2))) = v"
    unfolding v_def n_def by (rule int24_word) simp_all
  have sint: "sint (word_of_int k :: 32 word) = k" if "- 2147483648 \<le> k" "k < 2147483648" for k
    using that by (simp add: sint_sbintrunc' signed_take_bit_int_eq_self)
  have b23: "bit n 23 \<longleftrightarrow> 8388608 \<le> n"
  proof -
    have "n div 8388608 < 2" using n by (simp add: less_mult_imp_div_less)
    then have "n div 8388608 = 0 \<or> n div 8388608 = 1" by linarith
    then show ?thesis by (auto simp: bit_iff_odd div_eq_0_iff)
  qed
  have "v AND 0x800000 \<noteq> 0 \<longleftrightarrow> bit v 23"
    using and_exp_eq_0_iff_not_bit [of v 23] by simp
  also have "\<dots> \<longleftrightarrow> 8388608 \<le> n" using b23 by (simp add: v_def bit_of_nat_iff)
  finally have test: "v AND 0x800000 \<noteq> 0 \<longleftrightarrow> 8388608 \<le> n" .
  have "take_bit 24 v = v" unfolding v_def take_bit_of_nat using n by (simp add: take_bit_nat_eq_self)
  then have low: "bit v k \<Longrightarrow> k < 24" for k by (metis bit_take_bit_iff)
  have "(0xffffff :: 32 word) = mask 24" by (simp add: mask_eq_exp_minus_1)
  then have "\<not> bit v k \<or> \<not> bit (NOT (0xffffff :: 32 word)) k" for k
    using low [of k] by (simp only: bit_not_iff bit_mask_iff) (use bit_imp_le_length [of v k] in auto)
  then have "v OR NOT 0xffffff = v + NOT 0xffffff" by (rule disjunctive_add [symmetric])
  also have "\<dots> = word_of_int (int n - 16777216)" by (simp add: v_def not_eq_complement)
  finally have neg: "v OR NOT 0xffffff = word_of_int (int n - 16777216)" .
  have pos: "v = word_of_int (int n)" by (simp add: v_def)
  have "int24 b = (if 8388608 \<le> n then int n - 16777216 else int n)"
    unfolding int24_def v Let_def test neg using n sint [of "int n - 16777216"] sint [of "int n"] pos by auto
  then show ?thesis by (simp add: n_def Let_def)
qed

section \<open>The decoder never panics\<close>

definition sample_in_range :: "sample \<Rightarrow> bool" where
  "sample_in_range x = (case x of Scaled v k \<Rightarrow> - (2 ^ k) \<le> v \<and> v < 2 ^ k | _ \<Rightarrow> True)"

lemma wav_chunk_no_panic: "wav_chunk i c st \<noteq> Inl WavPanic"
  by (simp add: wav_chunk_def)

lemma wav_chunks_step:
  assumes "pos + 8 \<le> length data"
  shows "wav_chunks data pos st =
     (let n = Uint32 (take 4 (drop (pos + 4) data)) in
      if length data < pos + 8 + n then Inl TruncatedChunk
      else case wav_chunk (take 4 (drop pos data)) (take n (drop (pos + 8) data)) st of
             Inl e \<Rightarrow> Inl e
           | Inr st' \<Rightarrow> wav_chunks data (if odd (pos + n) then pos + n + 9 else pos + n + 8) st')"
  using assms by (subst wav_chunks.simps) (simp add: Let_def not_less ac_simps split: sum.split)

lemma wav_chunks_no_panic: "wav_chunks data pos st \<noteq> Inl WavPanic"
proof (induction "length data - pos" arbitrary: pos st rule: less_induct)
  case less
  show ?case
  proof (cases "pos + 8 \<le> length data")
    case True
    have "wav_chunks data q st' \<noteq> Inl WavPanic" if "pos < q" for q st'
      by (rule less) (use True that in auto)
    then show ?thesis by (auto simp: wav_chunks_step [OF True] Let_def wav_chunk_no_panic split: sum.splits simp del: One_nat_def)
  qed (simp add: wav_chunks.simps)
qed

lemma wav_frames_no_panic: "wav_frames st ms \<noteq> Inl WavPanic"
  by (simp add: wav_frames_def Let_def)

text \<open>What \<open>wav_frames\<close> has checked when it gives a number of frames.\<close>

lemma wav_frames_Inr:
  assumes "wav_frames st ms = Inr n"
  obtains audio where "audioData st = Some audio" "audio \<noteq> []" "length audio = n * channels st * (bits st div 8)"
    "channels st = 1 \<or> channels st = 2" "8000 \<le> sampleRate st" "sampleRate st \<le> 96000"
    "format st = 1 \<and> (bits st = 8 \<or> bits st = 16 \<or> bits st = 24 \<or> bits st = 32) \<or> format st = 3 \<and> (bits st = 32 \<or> bits st = 64)"
    "ms \<le> 0 \<or> int n \<le> wrap_int (int (sampleRate st) * ms)" "0 < n"
proof -
  obtain audio where audio: "audio = (case audioData st of None \<Rightarrow> [] | Some a \<Rightarrow> a)" by blast
  define g1 g2 g3 g4 g5 g6 where
    "g1 \<longleftrightarrow> format st \<noteq> 1 \<and> format st \<noteq> 3"
    and g2: "g2 \<longleftrightarrow> channels st < 1 \<or> 2 < channels st \<or> sampleRate st < 8000 \<or> 96000 < sampleRate st \<or> length audio = 0"
    and "g3 \<longleftrightarrow> format st = 1 \<and> bits st \<noteq> 8 \<and> bits st \<noteq> 16 \<and> bits st \<noteq> 24 \<and> bits st \<noteq> 32"
    and "g4 \<longleftrightarrow> format st = 3 \<and> bits st \<noteq> 32 \<and> bits st \<noteq> 64"
    and g5: "g5 \<longleftrightarrow> blockAlign st \<noteq> channels st * (bits st div 8) \<or> length audio mod blockAlign st \<noteq> 0"
    and g6: "g6 \<longleftrightarrow> 0 < ms \<and> wrap_int (int (sampleRate st) * ms) < int (length audio div blockAlign st)"
  note g = this
  have "wav_frames st ms =
    (if g1 then Inl (UnsupportedEncoding (format st)) else if g2 then Inl InvalidFormat
     else if g3 then Inl (UnsupportedPCMDepth (bits st)) else if g4 then Inl (UnsupportedFloatDepth (bits st))
     else if g5 then Inl InvalidBlockAlignment else if g6 then Inl (ExceedsSeconds ms) else Inr (length audio div blockAlign st))"
    unfolding wav_frames_def Let_def g audio by (rule refl)
  then have n: "\<not> g1" "\<not> g2" "\<not> g3" "\<not> g4" "\<not> g5" "\<not> g6" "n = length audio div blockAlign st"
    using assms by (simp_all split: if_splits)
  have f: "audio \<noteq> []" "length audio mod blockAlign st = 0"
    "blockAlign st = channels st * (bits st div 8)" "channels st = 1 \<or> channels st = 2" "8000 \<le> sampleRate st" "sampleRate st \<le> 96000"
    using n(2,5) unfolding g2 g5 by auto
  have a: "audioData st = Some audio" using f(1) audio by (auto split: option.splits)
  have fmt: "format st = 1 \<and> (bits st = 8 \<or> bits st = 16 \<or> bits st = 24 \<or> bits st = 32) \<or> format st = 3 \<and> (bits st = 32 \<or> bits st = 64)"
    using n(1,3,4) unfolding g(1,3,4) by blast
  have lim: "ms \<le> 0 \<or> int n \<le> wrap_int (int (sampleRate st) * ms)" using n(6,7) unfolding g6 by auto
  have len: "length audio = n * channels st * (bits st div 8)"
    using f(2,3) n(7) by (metis add.right_neutral div_mult_mod_eq mult.assoc)
  with f(1) have "0 < n" by (cases n) auto
  with that [OF a f(1) len f(4-6) fmt lim] show thesis by blast
qed

lemma wav_sample_ok:
  assumes "i < n" "length audio = n * (depth div 8)"
    and "fmt = 1 \<and> (depth = 8 \<or> depth = 16 \<or> depth = 24 \<or> depth = 32) \<or> fmt = 3 \<and> (depth = 32 \<or> depth = 64)"
  shows "\<exists>x. wav_sample fmt depth audio i = Inr x \<and> sample_in_range x"
proof -
  have "Suc i * (depth div 8) \<le> n * (depth div 8)" using assms(1) by (intro mult_le_mono1) simp
  then have "i * (depth div 8) + depth div 8 \<le> length audio" using assms(2) by simp
  then obtain b where b: "go_slice audio (i * (depth div 8)) (i * (depth div 8) + depth div 8) = Some b" by simp
  have byte: "0 \<le> int (bv c) \<and> int (bv c) < 256" for c using bv_less [of c] by linarith
  have r24: "- 8388608 \<le> int24 b \<and> int24 b < 8388608"
    using byte [of "b ! 0"] byte [of "b ! 1"] byte [of "b ! 2"] unfolding int24_eq Let_def by (simp only: split: if_split) linarith
  have r16: "- 32768 \<le> sint (word_of_nat k :: 16 word) \<and> sint (word_of_nat k :: 16 word) < 32768" for k
    using sint_of_nat_range [where 'a = 16, of k] by simp
  have r32: "- 2147483648 \<le> sint (word_of_nat k :: 32 word) \<and> sint (word_of_nat k :: 32 word) < 2147483648" for k
    using sint_of_nat_range [where 'a = 32, of k] by simp
  have r8: "- 128 \<le> int (bv c) - 128 \<and> int (bv c) - 128 < 128" for c using bv_less [of c] by auto
  show ?thesis using assms(3) unfolding wav_sample_def Let_def b option.case
    by (elim disjE conjE) (simp_all add: sample_in_range_def r8 r16 r24 r32)
qed

lemma map_result_ok:
  assumes "\<And>x. x \<in> set xs \<Longrightarrow> \<exists>y. f x = Inr y \<and> P y"
  shows "\<exists>ys. map_result f xs = Inr ys \<and> length ys = length xs \<and> list_all P ys"
  using assms by (induction xs) fastforce+

lemma wav_samples_ok:
  assumes "wav_frames st ms = Inr n"
  shows "\<exists>ys. map_result (wav_sample (format st) (bits st) (case audioData st of None \<Rightarrow> [] | Some a \<Rightarrow> a)) [0..<n * channels st] = Inr ys
    \<and> length ys = n * channels st \<and> list_all sample_in_range ys"
proof -
  from assms obtain audio where a: "audioData st = Some audio" "length audio = n * channels st * (bits st div 8)"
    "format st = 1 \<and> (bits st = 8 \<or> bits st = 16 \<or> bits st = 24 \<or> bits st = 32) \<or> format st = 3 \<and> (bits st = 32 \<or> bits st = 64)"
    by (rule wav_frames_Inr)
  have "\<exists>ys. map_result (wav_sample (format st) (bits st) audio) [0..<n * channels st] = Inr ys \<and>
          length ys = length [0..<n * channels st] \<and> list_all sample_in_range ys"
  proof (rule map_result_ok)
    fix i assume "i \<in> set [0..<n * channels st]"
    then have "i < n * channels st" by simp
    then show "\<exists>x. wav_sample (format st) (bits st) audio i = Inr x \<and> sample_in_range x" by (rule wav_sample_ok [OF _ a(2,3)])
  qed
  then show ?thesis using a(1) by simp
qed

text \<open>
  \<open>DecodeWAVInto\<close> never indexes out of range, whatever the bytes are. What it decodes
  is a whole, non-zero number of frames of one or two channels at 8 to 96 kHz, every integer
  sample lies in \<open>[-1, 1)\<close>, and with a limit that fits an \<open>int\<close> the audio is no longer than it.
\<close>

theorem DecodeWAVInto_safe:
  "case DecodeWAVInto data dstCap maxSeconds of
     Inl e \<Rightarrow> e \<noteq> WavPanic
   | Inr (samples, rate, ch, alloc) \<Rightarrow>
       8000 \<le> rate \<and> rate \<le> 96000 \<and> (ch = 1 \<or> ch = 2) \<and> ch dvd length samples \<and> samples \<noteq> []
       \<and> list_all sample_in_range samples \<and> (alloc \<longleftrightarrow> dstCap < length samples)
       \<and> (maxSeconds \<le> 0 \<or> max_int < int rate * maxSeconds \<or> int (length samples) \<le> int rate * maxSeconds * int ch)"
proof (cases "DecodeWAVInto data dstCap maxSeconds")
  case (Inl e)
  have "e \<noteq> WavPanic"
  proof
    assume "e = WavPanic"
    with Inl obtain st n where "wav_frames st maxSeconds = Inr n"
      "map_result (wav_sample (format st) (bits st) (case audioData st of None \<Rightarrow> [] | Some a \<Rightarrow> a)) [0..<n * channels st] = Inl WavPanic"
      by (auto simp: DecodeWAVInto_def wav_chunks_no_panic wav_frames_no_panic split: if_splits sum.splits)
    with wav_samples_ok show False by fastforce
  qed
  with Inl show ?thesis by simp
next
  case (Inr r)
  then obtain st n samples where r: "r = (samples, sampleRate st, channels st, dstCap < n * channels st)"
    and st: "wav_frames st maxSeconds = Inr n"
      "map_result (wav_sample (format st) (bits st) (case audioData st of None \<Rightarrow> [] | Some a \<Rightarrow> a)) [0..<n * channels st] = Inr samples"
    by (auto simp: DecodeWAVInto_def split: if_splits sum.splits)
  from st(1) obtain audio where a: "audioData st = Some audio" "length audio = n * channels st * (bits st div 8)"
    "channels st = 1 \<or> channels st = 2" "8000 \<le> sampleRate st" "sampleRate st \<le> 96000"
    "format st = 1 \<and> (bits st = 8 \<or> bits st = 16 \<or> bits st = 24 \<or> bits st = 32) \<or> format st = 3 \<and> (bits st = 32 \<or> bits st = 64)"
    "maxSeconds \<le> 0 \<or> int n \<le> wrap_int (int (sampleRate st) * maxSeconds)" "0 < n"
    by (rule wav_frames_Inr)
  have s: "length samples = n * channels st" "list_all sample_in_range samples" using wav_samples_ok [OF st(1)] st(2) by auto
  have lim: "maxSeconds \<le> 0 \<or> max_int < int (sampleRate st) * maxSeconds \<or> int (n * channels st) \<le> int (sampleRate st) * maxSeconds * int (channels st)"
  proof (cases "maxSeconds \<le> 0 \<or> max_int < int (sampleRate st) * maxSeconds")
    case False
    then have "0 \<le> int (sampleRate st) * maxSeconds" "int (sampleRate st) * maxSeconds \<le> max_int" by simp_all
    then have "wrap_int (int (sampleRate st) * maxSeconds) = int (sampleRate st) * maxSeconds"
      by (intro wrap_int_id conjI) (simp_all add: max_int_def)
    then have "int n \<le> int (sampleRate st) * maxSeconds" using a(7) False by auto
    then have "int n * int (channels st) \<le> int (sampleRate st) * maxSeconds * int (channels st)" by (rule mult_right_mono) simp
    then show ?thesis by simp
  qed auto
  show ?thesis unfolding Inr r using a(3-5,8) s lim by auto
qed

section \<open>The server's files read back\<close>

lemma length_put_at: "i + length bs \<le> length wav \<Longrightarrow> length (put_at wav i bs) = length wav"
  by (simp add: put_at_def)

text \<open>The header that \<open>putWAVHeader\<close> writes over the 44 bytes in front of the samples.\<close>

definition wav_header :: "nat \<Rightarrow> nat \<Rightarrow> string" where
  "wav_header n rate = ''RIFF'' @ PutUint32 (36 + n) @ ''WAVEfmt '' @ PutUint32 16 @ PutUint16 1 @ PutUint16 1
     @ PutUint32 rate @ PutUint32 (2 * rate) @ PutUint16 2 @ PutUint16 16 @ ''data'' @ PutUint32 n"

lemma length_Put [simp]: "length (PutUint16 v) = 2" "length (PutUint32 v) = 4"
  by (simp_all add: PutUint16_def PutUint32_def)

lemma putWAVHeader_eq:
  assumes "length pad = 44"
  shows "putWAVHeader (pad @ body) rate = wav_header (length body) rate @ body"
proof -
  let ?w = "pad @ body"
  define F where "F a = a @ drop (length a) ?w" for a
  have put: "put_at (F a) i bs = F (a @ bs)" if "length a = i" "i + length bs \<le> 44" for a i bs
    using that assms by (simp add: put_at_def F_def ac_simps)
  have start: "?w = F []" by (simp add: F_def)
  have "length (F []) - 44 = length body" using assms by (simp add: F_def)
  then have "putWAVHeader ?w rate = F (wav_header (length body) rate)"
    unfolding start putWAVHeader_def Let_def by (simp add: put wav_header_def)
  then show ?thesis using assms by (simp add: F_def wav_header_def)
qed

definition pcm16 :: "int list \<Rightarrow> string" where
  "pcm16 xs = concat (map (\<lambda>v. PutUint16 (nat (v mod 65536))) xs)"

lemma length_pcm16 [simp]: "length (pcm16 xs) = 2 * length xs"
  by (induction xs) (simp_all add: pcm16_def)

lemma pcm16_at: "i < length xs \<Longrightarrow> take 2 (drop (i * 2) (pcm16 xs)) = PutUint16 (nat (xs ! i mod 65536))"
proof (induction xs arbitrary: i)
  case (Cons x xs)
  have c: "pcm16 (x # xs) = PutUint16 (nat (x mod 65536)) @ pcm16 xs" by (simp add: pcm16_def)
  then show ?case using Cons by (cases i) auto
qed simp

lemma sint_pcm16:
  assumes "- 32768 \<le> v" "v < 32768"
  shows "sint (word_of_nat (nat (v mod 65536)) :: 16 word) = v"
proof -
  have "(word_of_nat (nat (v mod 65536)) :: 16 word) = word_of_int (v mod 65536)"
    by (rule of_nat_nat) simp
  also have "\<dots> = word_of_int v" by (simp add: word_of_int_eq_iff take_bit_eq_mod)
  finally show ?thesis using assms by (simp add: sint_sbintrunc' signed_take_bit_int_eq_self)
qed

lemma wav_sample_pcm16:
  assumes "i < length xs" "- 32768 \<le> xs ! i" "xs ! i < 32768"
  shows "wav_sample 1 16 (pcm16 xs) i = Inr (Scaled (xs ! i) 15)"
proof -
  have "i * 2 + 2 \<le> length (pcm16 xs)" using assms(1) by simp
  moreover have "Uint16 (PutUint16 (nat (xs ! i mod 65536))) = nat (xs ! i mod 65536)"
    using Uint16_Put [of "nat (xs ! i mod 65536)" "[]"] by (simp add: mod_less nat_less_iff)
  ultimately show ?thesis using assms sint_pcm16 by (simp add: wav_sample_def Let_def pcm16_at)
qed

lemma wav_chunks_end: "length data < pos + 8 \<Longrightarrow> wav_chunks data pos st = Inr st"
  by (simp add: wav_chunks.simps)

text \<open>The two chunks of the server's files.\<close>

lemma wav_chunks_header:
  assumes "length body = n" "n < 4294967296" "rate < 4294967296"
  shows "wav_chunks (wav_header n rate @ body) 12 wav_init =
    Inr \<lparr>format = 1, channels = 1, sampleRate = rate, blockAlign = 2, bits = 16, audioData = Some body\<rparr>"
proof -
  define d where "d = wav_header n rate @ body"
  let ?fmt = "PutUint16 1 @ PutUint16 1 @ PutUint32 rate @ PutUint32 (2 * rate) @ PutUint16 2 @ PutUint16 16"
  have len: "length d = 44 + n" using assms(1) by (simp add: d_def wav_header_def)
  have at12: "take 4 (drop 12 d) = ''fmt ''" "take 4 (drop 16 d) = PutUint32 16" "take 16 (drop 20 d) = ?fmt"
    and at36: "take 4 (drop 36 d) = ''data''" "take 4 (drop 40 d) = PutUint32 n" "drop 44 d = body"
    by (simp_all add: d_def wav_header_def)
  have put: "Uint32 (PutUint32 16) = 16" "Uint32 (PutUint32 n) = n" "Uint32 (PutUint32 rate @ r) = rate"
    "Uint16 (PutUint16 1 @ r) = 1" "Uint16 (PutUint16 2 @ r) = 2" "Uint16 (PutUint16 16) = 16" for r
    using Uint32_Put [of _ "[]"] Uint32_Put [of rate] Uint16_Put [of _ "[]"] Uint16_Put assms(2,3) by simp_all
  have chunk: "wav_chunk ''fmt '' ?fmt wav_init = Inr \<lparr>format = 1, channels = 1, sampleRate = rate, blockAlign = 2, bits = 16, audioData = None\<rparr>"
    by (simp add: wav_chunk_def wav_init_def put [simplified])
  have "wav_chunks d 12 wav_init = wav_chunks d 36 \<lparr>format = 1, channels = 1, sampleRate = rate, blockAlign = 2, bits = 16, audioData = None\<rparr>"
    using len by (subst wav_chunks_step) (simp_all add: at12 put chunk [simplified])
  also have "\<dots> = Inr \<lparr>format = 1, channels = 1, sampleRate = rate, blockAlign = 2, bits = 16, audioData = Some body\<rparr>"
    using len assms(1) by (subst wav_chunks_step) (simp_all add: at36 put wav_chunk_def wav_chunks_end)
  finally show ?thesis by (simp add: d_def)
qed

text \<open>
  C39: the decoder reads back the files that the server writes: for 16-bit samples behind
  44 bytes that \<open>putWAVHeader\<close> overwrites, it gives these samples, their rate and one channel.
\<close>

theorem wav_roundtrip:
  assumes "length pad = 44" "list_all (\<lambda>v. - 32768 \<le> v \<and> v < 32768) xs" "xs \<noteq> []" "2 * length xs < 4294967296"
    and "8000 \<le> rate" "rate \<le> 96000"
    and "maxSeconds \<le> 0 \<or> int (length xs) \<le> int rate * maxSeconds \<and> int rate * maxSeconds \<le> max_int"
  shows "DecodeWAVInto (putWAVHeader (pad @ pcm16 xs) rate) dstCap maxSeconds
         = Inr (map (\<lambda>v. Scaled v 15) xs, rate, 1, dstCap < length xs)"
proof -
  let ?d = "wav_header (2 * length xs) rate @ pcm16 xs"
  let ?st = "\<lparr>format = 1, channels = 1, sampleRate = rate, blockAlign = 2, bits = 16, audioData = Some (pcm16 xs)\<rparr>"
  have hdr: "\<not> (length ?d < 12 \<or> take 4 ?d \<noteq> ''RIFF'' \<or> take 4 (drop 8 ?d) \<noteq> ''WAVE'')"
    by (simp add: wav_header_def)
  have chunks: "wav_chunks ?d 12 wav_init = Inr ?st"
    by (rule wav_chunks_header) (use assms(4,6) in simp_all)
  have "\<not> (0 < maxSeconds \<and> wrap_int (int rate * maxSeconds) < int (length xs))"
    using assms(7) wrap_int_id [of "int rate * maxSeconds"] by (auto simp: max_int_def)
  then have frames: "wav_frames ?st maxSeconds = Inr (length xs)"
    using assms(3,5,6) length_pcm16 [of xs] by (auto simp: wav_frames_def Let_def simp del: length_pcm16)
  have "map_result (wav_sample 1 16 (pcm16 xs)) [0..<length xs] = Inr (map (\<lambda>i. Scaled (xs ! i) 15) [0..<length xs])"
    by (rule map_result_Inr, rule wav_sample_pcm16) (use assms(2) in \<open>auto simp: list_all_length\<close>)
  also have "map (\<lambda>i. Scaled (xs ! i) 15) [0..<length xs] = map (\<lambda>v. Scaled v 15) xs"
    by (rule nth_equalityI) simp_all
  finally show ?thesis unfolding putWAVHeader_eq [OF assms(1)] length_pcm16 DecodeWAVInto_def if_not_P [OF hdr] chunks sum.case frames
    by simp
qed

theorem wav_roundtrip_witness:
  "DecodeWAVInto (putWAVHeader (replicate 44 (CHR 0x00) @ pcm16 [-32768, 5, 32767]) 24000) 0 60
     = Inr ([Scaled (-32768) 15, Scaled 5 15, Scaled 32767 15], 24000, 1, True)"
  using wav_roundtrip [of "replicate 44 (CHR 0x00)" "[-32768, 5, 32767]" 24000 60 0] by (simp add: max_int_def)

end
