(* ===== verification/Resampler.thy ===== *)
theory Resampler
  imports Go_Prelude
begin

text \<open>
  Bringing PCM to 16 kHz: \<^verbatim>\<open>src/speech/pcm.go\<close> and the polyphase filter
  \<^verbatim>\<open>src/internal/resample/resample.go\<close>. Floating-point arithmetic is a parameter (the record
  \<open>float_ops\<close>): the code's own matter here is which input frames and which filter phase
  make an output sample, the sizes, and the reuse of a prepared filter. An index out of range is
  \<open>None\<close>.
\<close>

section \<open>Model: the filter\<close>

record ('s, 'd) float_ops =
  to64 :: "'s \<Rightarrow> 'd"
  to32 :: "'d \<Rightarrow> 's"
  is_finite :: "'s \<Rightarrow> bool"
  d_int :: "int \<Rightarrow> 'd"
  d_add :: "'d \<Rightarrow> 'd \<Rightarrow> 'd"
  d_sub :: "'d \<Rightarrow> 'd \<Rightarrow> 'd"
  d_mul :: "'d \<Rightarrow> 'd \<Rightarrow> 'd"
  d_div :: "'d \<Rightarrow> 'd \<Rightarrow> 'd"
  d_less :: "'d \<Rightarrow> 'd \<Rightarrow> bool"
  d_is_zero :: "'d \<Rightarrow> bool"
  d_abs :: "'d \<Rightarrow> 'd"
  d_sin :: "'d \<Rightarrow> 'd"
  d_cos :: "'d \<Rightarrow> 'd"
  d_pi :: 'd
  d_half :: 'd

definition Rate :: nat where "Rate = 16000"
definition Radius :: nat where "Radius = 16"
definition Taps :: nat where "Taps = 2 * Radius"

record 'd Filter =
  Coefficients :: "'d list"
  Phases :: nat
  filter_rate :: nat

function go_gcd :: "nat \<Rightarrow> nat \<Rightarrow> nat" where
  "go_gcd a b = (if b \<noteq> 0 then go_gcd b (a mod b) else a)"
  by pat_completeness auto
termination by (relation "measure snd") auto

declare go_gcd.simps [simp del]

definition sinc :: "('s, 'd) float_ops \<Rightarrow> 'd \<Rightarrow> 'd" where
  "sinc fl x = (if d_is_zero fl x then d_int fl 1 else let px = d_mul fl (d_pi fl) x in d_div fl (d_sin fl px) px)"

text \<open>The weight of one tap before normalization.\<close>

definition tap_weight :: "('s, 'd) float_ops \<Rightarrow> 'd \<Rightarrow> 'd \<Rightarrow> nat \<Rightarrow> 'd" where
  "tap_weight fl cutoff fraction tap =
     (let offset = int tap - int Radius + 1;
          distance = d_sub fl (d_int fl offset) fraction;
          weight = d_mul fl cutoff (sinc fl (d_mul fl cutoff distance))
      in if d_less fl (d_abs fl distance) (d_int fl (int Radius))
         then d_mul fl weight (d_add fl (d_half fl) (d_mul fl (d_half fl)
                (d_cos fl (d_div fl (d_mul fl (d_pi fl) distance) (d_int fl (int Radius))))))
         else d_int fl 0)"

definition filter_row :: "('s, 'd) float_ops \<Rightarrow> 'd \<Rightarrow> nat \<Rightarrow> 'd list" where
  "filter_row fl cutoff remainder =
     (let fraction = d_div fl (d_int fl (int remainder)) (d_int fl (int Rate));
          ws = map (tap_weight fl cutoff fraction) [0..<Taps];
          norm = foldl (d_add fl) (d_int fl 0) ws
      in if d_is_zero fl norm then ws else map (\<lambda>w. d_div fl w norm) ws)"

definition filter_cutoff :: "('s, 'd) float_ops \<Rightarrow> nat \<Rightarrow> 'd" where
  "filter_cutoff fl sampleRate =
     (let cutoff = d_div fl (d_int fl (int Rate)) (d_int fl (int sampleRate))
      in if d_less fl (d_int fl 1) cutoff then d_int fl 1 else cutoff)"

fun filter_rows :: "('s, 'd) float_ops \<Rightarrow> 'd \<Rightarrow> nat \<Rightarrow> nat \<Rightarrow> nat \<Rightarrow> 'd list" where
  "filter_rows fl cutoff sampleRate 0 remainder = []"
| "filter_rows fl cutoff sampleRate (Suc n) remainder =
     filter_row fl cutoff remainder @ filter_rows fl cutoff sampleRate n ((remainder + sampleRate) mod Rate)"

definition Prepare :: "('s, 'd) float_ops \<Rightarrow> 'd Filter \<Rightarrow> nat \<Rightarrow> 'd Filter" where
  "Prepare fl f sampleRate =
     (if filter_rate f = sampleRate \<and> Coefficients f \<noteq> [] then f
      else let phases = Rate div go_gcd sampleRate Rate
           in \<lparr>Coefficients = filter_rows fl (filter_cutoff fl sampleRate) sampleRate phases 0,
               Phases = phases, filter_rate = sampleRate\<rparr>)"

section \<open>Model: sizes and resampling\<close>

datatype pcm_error = PcmClosed | ErrInvalidAudio | ErrInvalidSampleRate | ErrNonFinite | ErrOutputCapacity | ErrInputTooLarge

record 'd Resampler =
  flt :: "'d Filter"
  closed :: bool

definition NewResampler :: "'d Resampler" where
  "NewResampler = \<lparr>flt = \<lparr>Coefficients = [], Phases = 0, filter_rate = 0\<rparr>, closed = False\<rparr>"

definition Resampler_Close :: "'d Resampler option \<Rightarrow> 'd Resampler option" where
  "Resampler_Close w =
     (case w of None \<Rightarrow> None
      | Some r \<Rightarrow> if closed r then Some r
                  else Some (r\<lparr>closed := True, flt := \<lparr>Coefficients = [], Phases = 0, filter_rate = 0\<rparr>\<rparr>))"

definition Samples16k :: "int \<Rightarrow> int \<Rightarrow> int \<Rightarrow> pcm_error + int" where
  "Samples16k inputSamples sampleRate channels =
     (if sampleRate < 8000 \<or> 96000 < sampleRate then Inl ErrInvalidSampleRate
      else if inputSamples < 0 \<or> channels < 1 \<or> 2 < channels \<or> inputSamples mod channels \<noteq> 0 then Inl ErrInvalidAudio
      else let frames = inputSamples div channels in
           if frames = 0 then Inr 0
           else if (max_int - sampleRate div 2) div 16000 < frames then Inl ErrInputTooLarge
           else let count = wrap_int (wrap_int (frames * 16000) + sampleRate div 2) div sampleRate in
                if max_int < count then Inl ErrInputTooLarge else Inr count)"

definition go_index :: "'a list \<Rightarrow> nat \<Rightarrow> 'a option" where
  "go_index xs i = (if i < length xs then Some (xs ! i) else None)"

definition pcmMonoAt :: "('s, 'd) float_ops \<Rightarrow> 's list \<Rightarrow> nat \<Rightarrow> nat \<Rightarrow> 'd option" where
  "pcmMonoAt fl pcm frame channels =
     (if channels = 1 then map_option (to64 fl) (go_index pcm frame)
      else case (go_index pcm (frame * 2), go_index pcm (frame * 2 + 1)) of
             (Some l, Some r) \<Rightarrow> Some (d_mul fl (d_add fl (to64 fl l) (to64 fl r)) (d_half fl))
           | _ \<Rightarrow> None)"

text \<open>The loop over the taps of one output sample; the frames outside of the input are skipped.\<close>

fun tap_loop :: "('s, 'd) float_ops \<Rightarrow> 's list \<Rightarrow> nat \<Rightarrow> nat \<Rightarrow> nat \<Rightarrow> nat \<Rightarrow> 'd list \<Rightarrow> 'd \<Rightarrow> 'd option" where
  "tap_loop fl pcm channels frames base tap [] value = Some value"
| "tap_loop fl pcm channels frames base tap (weight # ws) value =
     (let offset = int tap - int Radius + 1 in
      if offset < 0 \<and> int base < - offset then tap_loop fl pcm channels frames base (tap + 1) ws value
      else let sourceFrame = int base + offset in
           if 0 \<le> sourceFrame \<and> sourceFrame < int frames then
             (case pcmMonoAt fl pcm (nat sourceFrame) channels of
                None \<Rightarrow> None
              | Some x \<Rightarrow> tap_loop fl pcm channels frames base (tap + 1) ws (d_add fl value (d_mul fl x weight)))
           else tap_loop fl pcm channels frames base (tap + 1) ws value)"

text \<open>The loop over the output samples, with its running position in the input and in the filter.\<close>

fun resample_loop :: "('s, 'd) float_ops \<Rightarrow> 'd Filter \<Rightarrow> 's list \<Rightarrow> nat \<Rightarrow> nat \<Rightarrow> nat \<Rightarrow> nat \<Rightarrow> nat \<Rightarrow> nat \<Rightarrow> nat \<Rightarrow> 's list option" where
  "resample_loop fl f pcm sampleRate channels frames 0 base remainder phase = Some []"
| "resample_loop fl f pcm sampleRate channels frames (Suc n) base remainder phase =
     (case go_slice (Coefficients f) (phase * Taps) ((phase + 1) * Taps) of
        None \<Rightarrow> None
      | Some coeff \<Rightarrow>
          (case tap_loop fl pcm channels frames base 0 coeff (d_int fl 0) of
             None \<Rightarrow> None
           | Some value \<Rightarrow>
               let remainder' = remainder + sampleRate;
                   phase' = (if phase + 1 = Phases f then 0 else phase + 1)
               in map_option (Cons (to32 fl value))
                    (resample_loop fl f pcm sampleRate channels frames n (base + remainder' div Rate) (remainder' mod Rate) phase')))"

fun mono_loop :: "('s, 'd) float_ops \<Rightarrow> 's list \<Rightarrow> nat \<Rightarrow> nat list \<Rightarrow> 's list option" where
  "mono_loop fl pcm channels [] = Some []"
| "mono_loop fl pcm channels (frame # fs) =
     (case pcmMonoAt fl pcm frame channels of
        None \<Rightarrow> None | Some x \<Rightarrow> map_option (Cons (to32 fl x)) (mono_loop fl pcm channels fs))"

text \<open>
  \<open>Resample16kInto\<close>: \<open>None\<close> is a panic; otherwise the resampler afterwards and the error, or
  the samples written to the start of \<open>dst\<close>.
\<close>

definition Resample16kInto ::
  "('s, 'd) float_ops \<Rightarrow> 'd Resampler option \<Rightarrow> 's list \<Rightarrow> int \<Rightarrow> int \<Rightarrow> nat \<Rightarrow> ('d Resampler option \<times> (pcm_error + 's list)) option" where
  "Resample16kInto fl w pcm sampleRate channels dstLen =
     (case w of
        None \<Rightarrow> Some (None, Inl PcmClosed)
      | Some r \<Rightarrow>
          if closed r then Some (w, Inl PcmClosed)
          else (case Samples16k (int (length pcm)) sampleRate channels of
                  Inl e \<Rightarrow> Some (w, Inl e)
                | Inr outCount \<Rightarrow>
                    if int dstLen < outCount then Some (w, Inl ErrOutputCapacity)
                    else if \<not> list_all (is_finite fl) pcm then Some (w, Inl ErrNonFinite)
                    else if outCount = 0 then Some (w, Inr [])
                    else if sampleRate = 16000 then
                      if channels = 1 then Some (w, Inr (take (nat outCount) pcm))
                      else map_option (\<lambda>xs. (w, Inr xs)) (mono_loop fl pcm (nat channels) [0..<nat outCount])
                    else let f = Prepare fl (flt r) (nat sampleRate) in
                         map_option (\<lambda>xs. (Some (r\<lparr>flt := f\<rparr>), Inr xs))
                           (resample_loop fl f pcm (nat sampleRate) (nat channels) (length pcm div nat channels) (nat outCount) 0 0 0)))"

section \<open>Sizes\<close>

lemma Samples16k_count:
  assumes "8000 \<le> rate" "rate \<le> 96000" "0 < frames" "frames \<le> (max_int - rate div 2) div 16000"
  shows "wrap_int (wrap_int (frames * 16000) + rate div 2) = frames * 16000 + rate div 2"
    and "(frames * 16000 + rate div 2) div rate \<le> max_int" "0 \<le> (frames * 16000 + rate div 2) div rate"
proof -
  have "frames * 16000 \<le> max_int - rate div 2" using assms(4) by (simp add: max_int_def)
  then have b: "frames * 16000 + rate div 2 \<le> max_int" "0 \<le> frames * 16000" "0 \<le> rate div 2" using assms(1,3) by simp_all
  then show "wrap_int (wrap_int (frames * 16000) + rate div 2) = frames * 16000 + rate div 2"
    by (simp add: wrap_int_id max_int_def)
  show "0 \<le> (frames * 16000 + rate div 2) div rate" using b assms(1) by (simp add: pos_imp_zdiv_nonneg_iff)
  have "(frames * 16000 + rate div 2) div rate \<le> frames * 16000 + rate div 2"
    using zdiv_mono2 [of "frames * 16000 + rate div 2" 1 rate] b assms(1) by simp
  then show "(frames * 16000 + rate div 2) div rate \<le> max_int" using b(1) by linarith
qed

lemma round_half:
  fixes r y :: int
  assumes "0 < r"
  shows "\<bar>2 * ((y + r div 2) div r * r - y)\<bar> \<le> r"
proof -
  define h m where "h = r div 2" and "m = (y + h) mod r"
  have e: "(y + h) div r * r = y + h - m" unfolding m_def by (simp add: minus_mod_eq_div_mult)
  have "0 \<le> m" "m < r" using assms by (simp_all add: m_def)
  moreover have "2 * h \<le> r" "r \<le> 2 * h + 1" unfolding h_def by presburger+
  ultimately show ?thesis unfolding h_def [symmetric] e abs_le_iff by simp
qed

text \<open>
  C38: \<open>Samples16k\<close> decides its input in the order of its checks, never overflows, and a
  size it gives is the number of frames at 16 kHz rounded to the nearest, within an \<open>int\<close>.
\<close>

theorem Samples16k_nearest:
  "case Samples16k n rate ch of
     Inl e \<Rightarrow> e = ErrInvalidSampleRate \<and> (rate < 8000 \<or> 96000 < rate)
        \<or> e = ErrInvalidAudio \<and> 8000 \<le> rate \<and> rate \<le> 96000 \<and> (n < 0 \<or> ch < 1 \<or> 2 < ch \<or> 0 < n mod ch)
        \<or> e = ErrInputTooLarge \<and> 8000 \<le> rate \<and> rate \<le> 96000 \<and> max_int < n div ch * 16000 + rate div 2
   | Inr count \<Rightarrow> 8000 \<le> rate \<and> rate \<le> 96000 \<and> (ch = 1 \<or> ch = 2) \<and> ch dvd n
        \<and> 0 \<le> count \<and> count \<le> max_int \<and> \<bar>2 * (count * rate - n div ch * 16000)\<bar> \<le> rate"
proof -
  let ?frames = "n div ch"
  show ?thesis
  proof (cases "rate < 8000 \<or> 96000 < rate \<or> n < 0 \<or> ch < 1 \<or> 2 < ch \<or> n mod ch \<noteq> 0")
    case True
    moreover have "1 \<le> ch \<Longrightarrow> n mod ch \<noteq> 0 \<Longrightarrow> 0 < n mod ch" using pos_mod_sign [of ch n] by linarith
    ultimately show ?thesis by (auto simp: Samples16k_def)
  next
    case False
    then have r: "8000 \<le> rate" "rate \<le> 96000" "0 \<le> n" "ch = 1 \<or> ch = 2" "ch dvd n" by (auto simp: dvd_eq_mod_eq_0)
    then have fr: "0 \<le> ?frames" by (auto simp: pos_imp_zdiv_nonneg_iff)
    consider "?frames = 0" | "0 < ?frames" "(max_int - rate div 2) div 16000 < ?frames"
      | "0 < ?frames" "?frames \<le> (max_int - rate div 2) div 16000" using fr by linarith
    then show ?thesis
    proof cases
      case 1
      then have "Samples16k n rate ch = Inr 0" unfolding Samples16k_def Let_def using False by simp
      then show ?thesis using r 1 by (simp add: max_int_def)
    next
      case 2
      then have "Samples16k n rate ch = Inl ErrInputTooLarge" unfolding Samples16k_def Let_def using False by simp
      moreover have "max_int < ?frames * 16000 + rate div 2" using 2 by (simp add: max_int_def)
      ultimately show ?thesis using r by simp
    next
      case 3
      note c = Samples16k_count [OF r(1,2) 3]
      let ?x = "?frames * 16000 + rate div 2"
      have "Samples16k n rate ch = Inr (?x div rate)"
        unfolding Samples16k_def Let_def c(1) using False 3 c(2) by simp
      moreover have "\<bar>2 * (?x div rate * rate - ?frames * 16000)\<bar> \<le> rate"
        using round_half [of rate "?frames * 16000"] r(1) by simp
      ultimately show ?thesis using r c(2,3) by simp
    qed
  qed
qed

section \<open>The prepared filter\<close>

lemma go_gcd_eq: "go_gcd a b = gcd a b"
proof (induction a b rule: go_gcd.induct)
  case (1 a b)
  show ?case
  proof (cases "b = 0")
    case True
    then show ?thesis by (subst go_gcd.simps) simp
  next
    case False
    with 1 show ?thesis by (subst go_gcd.simps) (simp add: gcd.commute flip: gcd_red_nat)
  qed
qed

lemma length_filter_row [simp]: "length (filter_row fl c r) = Taps"
  by (simp add: filter_row_def Let_def)

lemma length_filter_rows [simp]: "length (filter_rows fl c sr n r) = n * Taps"
  by (induction n arbitrary: r) simp_all

lemma filter_rows_slice:
  "p < n \<Longrightarrow> r < Rate \<Longrightarrow> take Taps (drop (p * Taps) (filter_rows fl c sr n r)) = filter_row fl c ((r + p * sr) mod Rate)"
proof (induction p arbitrary: n r)
  case 0
  then show ?case by (cases n) simp_all
next
  case (Suc p)
  then obtain m where n: "n = Suc m" by (cases n) auto
  have "((r + sr) mod Rate + p * sr) mod Rate = (r + Suc p * sr) mod Rate"
    by (simp add: mod_add_left_eq add.assoc)
  then show ?case using Suc.IH [of m "(r + sr) mod Rate"] Suc.prems by (simp add: n Rate_def)
qed

text \<open>A filter is empty or holds the rows of its rate; \<open>Prepare\<close> keeps that and serves the rate asked for.\<close>

definition phases_of :: "nat \<Rightarrow> nat" where
  "phases_of sr = Rate div gcd sr Rate"

definition filter_ok :: "('s, 'd) float_ops \<Rightarrow> 'd Filter \<Rightarrow> bool" where
  "filter_ok fl f \<longleftrightarrow> Coefficients f = [] \<or>
     Phases f = phases_of (filter_rate f) \<and>
     Coefficients f = filter_rows fl (filter_cutoff fl (filter_rate f)) (filter_rate f) (Phases f) 0"

lemma Prepare_rows:
  assumes "filter_ok fl f"
  shows "Prepare fl f sr = \<lparr>Coefficients = filter_rows fl (filter_cutoff fl sr) sr (phases_of sr) 0, Phases = phases_of sr, filter_rate = sr\<rparr>"
  using assms by (auto simp: Prepare_def filter_ok_def go_gcd_eq phases_of_def Let_def)

lemma Prepare_ok: "filter_ok fl f \<Longrightarrow> filter_ok fl (Prepare fl f sr)"
  by (simp add: Prepare_rows) (simp add: filter_ok_def)

lemma phases_of_pos: "0 < phases_of sr"
  by (simp add: phases_of_def Rate_def div_greater_zero_iff gcd_le2_nat)

text \<open>After \<open>phases_of sr\<close> output samples the position between two input frames repeats.\<close>

lemma phase_position: "(n mod phases_of sr) * sr mod Rate = n * sr mod Rate"
proof -
  have "Rate dvd phases_of sr * sr"
  proof -
    obtain k where k: "sr = gcd sr Rate * k" using gcd_dvd1 [of sr Rate] by (elim dvdE)
    have "gcd sr Rate * phases_of sr = Rate" by (simp add: phases_of_def dvd_mult_div_cancel)
    then have "phases_of sr * sr = Rate * k" by (metis k mult.assoc mult.commute)
    then show ?thesis by simp
  qed
  then have "(n div phases_of sr) * (phases_of sr * sr) mod Rate = 0" by (simp add: dvd_mult dvd_imp_mod_0)
  moreover have "n * sr = (n div phases_of sr) * (phases_of sr * sr) + (n mod phases_of sr) * sr"
    by (metis div_mult_mod_eq distrib_right mult.assoc)
  ultimately show ?thesis by (metis add_0 mod_add_left_eq)
qed

section \<open>What an output sample is made of\<close>

definition mono_value :: "('s, 'd) float_ops \<Rightarrow> 's list \<Rightarrow> nat \<Rightarrow> nat \<Rightarrow> 'd" where
  "mono_value fl pcm ch frame =
     (if ch = 1 then to64 fl (pcm ! frame)
      else d_mul fl (d_add fl (to64 fl (pcm ! (frame * 2))) (to64 fl (pcm ! (frame * 2 + 1)))) (d_half fl))"

lemma pcmMonoAt_value:
  assumes "length pcm = frames * ch" "ch = 1 \<or> ch = 2" "frame < frames"
  shows "pcmMonoAt fl pcm frame ch = Some (mono_value fl pcm ch frame)"
  using assms by (auto simp: pcmMonoAt_def mono_value_def go_index_def)

text \<open>One step of the sum at input position \<open>base\<close>: tap \<open>t\<close> weighs the frame \<open>base + t - Radius + 1\<close>, if there is one.\<close>

definition tap_term :: "('s, 'd) float_ops \<Rightarrow> 's list \<Rightarrow> nat \<Rightarrow> nat \<Rightarrow> 'd list \<Rightarrow> 'd \<Rightarrow> nat \<Rightarrow> 'd" where
  "tap_term fl pcm ch base row acc t =
     (let src = int base + int t - 15 in
      if 0 \<le> src \<and> src < int (length pcm div ch)
      then d_add fl acc (d_mul fl (mono_value fl pcm ch (nat src)) (row ! t)) else acc)"

definition resampled :: "('s, 'd) float_ops \<Rightarrow> 's list \<Rightarrow> nat \<Rightarrow> nat \<Rightarrow> nat \<Rightarrow> 's" where
  "resampled fl pcm sr ch k =
     to32 fl (foldl (tap_term fl pcm ch (k * sr div 16000) (filter_row fl (filter_cutoff fl sr) (k * sr mod 16000)))
                (d_int fl 0) [0..<32])"

lemma tap_loop_terms:
  assumes "length pcm = frames * ch" "ch = 1 \<or> ch = 2" "drop tap row = ws"
  shows "tap_loop fl pcm ch frames base tap ws v = Some (foldl (tap_term fl pcm ch base row) v [tap..<length row])"
  using assms
proof (induction ws arbitrary: tap v)
  case Nil
  then show ?case by simp
next
  case (Cons w ws)
  have fr: "length pcm div ch = frames" using Cons.prems(1,2) by auto
  have tap: "tap < length row" using Cons.prems(3) by (metis drop_all list.distinct(1) not_le)
  then have row: "row ! tap = w" "drop (Suc tap) row = ws" "[tap..<length row] = tap # [Suc tap..<length row]"
    using Cons.prems(3) by (simp_all add: Cons_nth_drop_Suc [symmetric] upt_conv_Cons)
  have IH: "tap_loop fl pcm ch frames base (tap + 1) ws u = Some (foldl (tap_term fl pcm ch base row) u [Suc tap..<length row])" for u
    using Cons.IH [of "Suc tap" u] Cons.prems(1,2) row(2) by simp
  let ?src = "int base + int tap - 15"
  show ?case
  proof (cases "0 \<le> ?src \<and> ?src < int frames")
    case True
    then have "nat ?src < frames" by linarith
    note m = pcmMonoAt_value [OF Cons.prems(1,2) this, of fl]
    have e: "int base + (int tap - int Radius + 1) = ?src" by (simp add: Radius_def)
    have n: "(int tap - int Radius + 1 < 0 \<and> int base < - (int tap - int Radius + 1)) = False"
      using True by (auto simp: Radius_def)
    have t: "tap_term fl pcm ch base row v tap = d_add fl v (d_mul fl (mono_value fl pcm ch (nat ?src)) w)"
      using True by (simp add: tap_term_def fr row(1))
    show ?thesis unfolding tap_loop.simps Let_def row(3) foldl_Cons t n e if_False m option.case IH using True by simp
  next
    case False
    then have "tap_term fl pcm ch base row v tap = v" by (auto simp: tap_term_def fr Let_def)
    moreover have e: "int base + (int tap - int Radius + 1) = ?src" by (simp add: Radius_def)
    ultimately show ?thesis unfolding tap_loop.simps Let_def row(3) e if_not_P [OF False] IH by simp
  qed
qed

lemma running_div: "a div Rate + (a mod Rate + b) div Rate = (a + b) div Rate" "(a mod Rate + b) mod Rate = (a + b) mod Rate"
proof -
  have "a + b = (a mod Rate + b) + a div Rate * Rate" by simp
  then have "(a + b) div Rate = a div Rate + (a mod Rate + b) div Rate" by (metis Rate_def div_mult_self1 zero_neq_numeral)
  then show "a div Rate + (a mod Rate + b) div Rate = (a + b) div Rate" by simp
qed (simp add: mod_add_left_eq)

lemma resample_loop_values:
  assumes "length pcm = frames * ch" "ch = 1 \<or> ch = 2"
    and f: "f = \<lparr>Coefficients = filter_rows fl (filter_cutoff fl sr) sr (phases_of sr) 0, Phases = phases_of sr, filter_rate = sr\<rparr>"
  shows "resample_loop fl f pcm sr ch frames n (k * sr div Rate) (k * sr mod Rate) (k mod phases_of sr)
         = Some (map (resampled fl pcm sr ch) [k..<k + n])"
proof (induction n arbitrary: k)
  case (Suc n)
  let ?p = "k mod phases_of sr" and ?row = "filter_row fl (filter_cutoff fl sr) (k * sr mod Rate)"
  have p: "?p < phases_of sr" using phases_of_pos by simp
  then have "(?p + 1) * Taps \<le> phases_of sr * Taps" by (intro mult_le_mono1) simp
  then have "go_slice (Coefficients f) (?p * Taps) ((?p + 1) * Taps) = Some ?row"
    using filter_rows_slice [OF p, of 0 fl "filter_cutoff fl sr" sr] phase_position [of k sr] by (simp add: f Rate_def)
  moreover have "tap_loop fl pcm ch frames (k * sr div Rate) 0 ?row (d_int fl 0)
      = Some (foldl (tap_term fl pcm ch (k * sr div Rate) ?row) (d_int fl 0) [0..<32])"
    using tap_loop_terms [OF assms(1,2), of 0 ?row ?row] by (simp add: Taps_def Radius_def)
  moreover have "k * sr div Rate + (k * sr mod Rate + sr) div Rate = Suc k * sr div Rate" "(k * sr mod Rate + sr) mod Rate = Suc k * sr mod Rate"
    using running_div [of "k * sr" sr] by (simp_all add: add.commute)
  moreover have "(if ?p + 1 = Phases f then 0 else ?p + 1) = Suc k mod phases_of sr" by (simp add: f mod_Suc)
  moreover have "[k..<k + Suc n] = k # [Suc k..<Suc k + n]" by (simp add: upt_conv_Cons)
  ultimately show ?case using Suc.IH [of "Suc k"]
    by (simp only: resample_loop.simps option.case Let_def list.map option.map) (simp add: resampled_def Rate_def)
qed simp

lemma Samples16k_Inr:
  assumes "Samples16k n rate ch = Inr count"
  shows "8000 \<le> rate" "rate \<le> 96000" "0 \<le> n" "ch = 1 \<or> ch = 2" "n mod ch = 0" "count = (n div ch * 16000 + rate div 2) div rate"
proof -
  have g: "\<not> (rate < 8000 \<or> 96000 < rate)" "\<not> (n < 0 \<or> ch < 1 \<or> 2 < ch \<or> n mod ch \<noteq> 0)"
    using assms by (auto simp: Samples16k_def split: if_splits)
  then show r: "8000 \<le> rate" "rate \<le> 96000" "0 \<le> n" "ch = 1 \<or> ch = 2" "n mod ch = 0" by auto
  have "rate div 2 div rate = 0" using r(1) by (intro div_pos_pos_trivial) auto
  moreover have "n div ch \<noteq> 0 \<Longrightarrow> 0 < n div ch" using r(3,4) by (auto simp: pos_imp_zdiv_nonneg_iff order_less_le)
  ultimately show "count = (n div ch * 16000 + rate div 2) div rate"
    using assms Samples16k_count(1) [OF r(1,2), of "n div ch"] unfolding Samples16k_def Let_def if_not_P [OF g(1)] if_not_P [OF g(2)]
    by (auto simp: not_less split: if_splits)
qed

lemma mono_loop_values:
  assumes "length pcm = frames * ch" "ch = 1 \<or> ch = 2" "\<forall>k \<in> set ks. k < frames"
  shows "mono_loop fl pcm ch ks = Some (map (\<lambda>k. to32 fl (mono_value fl pcm ch k)) ks)"
  using assms(3) by (induction ks) (simp_all add: pcmMonoAt_value [OF assms(1,2)])

text \<open>The samples that a successful call writes.\<close>

definition resample_output :: "('s, 'd) float_ops \<Rightarrow> 's list \<Rightarrow> int \<Rightarrow> int \<Rightarrow> nat \<Rightarrow> 's list" where
  "resample_output fl pcm rate ch n =
     (if rate = 16000 then if ch = 1 then pcm else map (\<lambda>k. to32 fl (mono_value fl pcm 2 k)) [0..<n]
      else map (resampled fl pcm (nat rate) (nat ch)) [0..<n])"

lemma Resample16kInto_ok:
  assumes "filter_ok fl (flt r)" "\<not> closed r" "Samples16k (int (length pcm)) rate ch = Inr n" "n \<le> int dstLen" "list_all (is_finite fl) pcm"
  shows "\<exists>r'. Resample16kInto fl (Some r) pcm rate ch dstLen = Some (Some r', Inr (resample_output fl pcm rate ch (nat n)))
            \<and> filter_ok fl (flt r') \<and> \<not> closed r'"
proof -
  note s = Samples16k_Inr [OF assms(3)]
  define frames where "frames = length pcm div nat ch"
  have len: "length pcm = frames * nat ch" using s(4,5) by (auto simp: frames_def)
  have ch: "nat ch = 1 \<or> nat ch = 2" using s(4) by auto
  have fr: "int (length pcm) div ch = int frames" using s(4) by (auto simp: frames_def zdiv_int)
  let ?call = "Resample16kInto fl (Some r) pcm rate ch dstLen"
  consider "n = 0" | "n \<noteq> 0" "rate = 16000" "ch = 1" | "n \<noteq> 0" "rate = 16000" "ch = 2" | "n \<noteq> 0" "rate \<noteq> 16000" using s(4) by blast
  then show ?thesis
  proof cases
    case 1
    then have "rate = 16000 \<Longrightarrow> frames = 0" using s(6) fr by simp
    then have "resample_output fl pcm rate ch (nat n) = []" using 1 len by (auto simp: resample_output_def)
    then have "?call = Some (Some r, Inr (resample_output fl pcm rate ch (nat n)))"
      using assms 1 by (simp add: Resample16kInto_def)
    then show ?thesis using assms(1,2) by blast
  next
    case 2
    then have "n = int (length pcm)" using s(6) fr len by simp
    then have "?call = Some (Some r, Inr (resample_output fl pcm rate ch (nat n)))"
      using assms 2 by (simp add: Resample16kInto_def resample_output_def)
    then show ?thesis using assms(1,2) by blast
  next
    case 3
    then have "n = int frames" using s(6) fr by simp
    then have "mono_loop fl pcm (nat ch) [0..<nat n] = Some (resample_output fl pcm rate ch (nat n))"
      using mono_loop_values [OF len ch, of "[0..<nat n]" fl] 3 by (simp add: resample_output_def)
    then have "?call = Some (Some r, Inr (resample_output fl pcm rate ch (nat n)))"
      using assms 3 by (simp add: Resample16kInto_def)
    then show ?thesis using assms(1,2) by blast
  next
    case 4
    let ?f = "Prepare fl (flt r) (nat rate)"
    have "resample_loop fl ?f pcm (nat rate) (nat ch) frames (nat n) 0 0 0 = Some (resample_output fl pcm rate ch (nat n))"
      using resample_loop_values [OF len ch Prepare_rows [OF assms(1)], of "nat rate" "nat n" 0] 4 by (simp add: resample_output_def)
    then have "?call = Some (Some (r\<lparr>flt := ?f\<rparr>), Inr (resample_output fl pcm rate ch (nat n)))"
      using assms 4 by (simp add: Resample16kInto_def Let_def frames_def)
    then show ?thesis using assms(2) Prepare_ok [OF assms(1)] by auto
  qed
qed

text \<open>
  C37: an open resampler whose filter is new or was prepared by earlier calls writes, for
  a buffer that is large enough and finite samples, exactly the samples of the reference: mono
  16 kHz is copied, stereo averaged, and otherwise output \<open>k\<close> is the sum over the 32 taps
  around input position \<open>k * rate div 16000\<close> with the filter row of fraction
  \<open>(k * rate mod 16000) / 16000\<close>. No index is out of range, and the filter stays usable.
\<close>

theorem Resample16kInto_reference:
  assumes "filter_ok fl (flt r)" "\<not> closed r" "Samples16k (int (length pcm)) rate ch = Inr n" "n \<le> int dstLen" "list_all (is_finite fl) pcm"
  shows "\<exists>r'. Resample16kInto fl (Some r) pcm rate ch dstLen = Some (Some r', Inr (resample_output fl pcm rate ch (nat n)))
            \<and> filter_ok fl (flt r') \<and> \<not> closed r'"
  using assms by (rule Resample16kInto_ok)

definition int_ops :: "(int, int) float_ops" where
  "int_ops = \<lparr>to64 = id, to32 = id, is_finite = (\<lambda>_. True), d_int = id, d_add = (+), d_sub = (-), d_mul = (*), d_div = (div),
     d_less = (<), d_is_zero = (\<lambda>x. x = 0), d_abs = abs, d_sin = (\<lambda>_. 0), d_cos = (\<lambda>_. 1), d_pi = 3, d_half = 1\<rparr>"

theorem Resample16kInto_reference_witness:
  "\<exists>r'. Resample16kInto int_ops (Some NewResampler) [1, 2, 3, 4] 8000 2 4 = Some (Some r', Inr (resample_output int_ops [1, 2, 3, 4] 8000 2 4))
      \<and> filter_ok int_ops (flt r') \<and> \<not> closed r'"
proof -
  have "filter_ok int_ops (flt NewResampler)" "\<not> closed NewResampler" by (simp_all add: NewResampler_def filter_ok_def)
  moreover have "Samples16k (int (length [1, 2, 3, 4 :: int])) 8000 2 = Inr 4" by (simp add: Samples16k_def Let_def wrap_int_def max_int_def)
  ultimately show ?thesis using Resample16kInto_reference [of int_ops NewResampler "[1, 2, 3, 4]" 8000 2 4 4] by (simp add: int_ops_def)
qed

end
