(* ===== verification/Ring.thy ===== *)
theory Ring
  imports Go_Prelude
begin

text \<open>
  Positions on a ring of \<open>n\<close> slots, as the open-addressing tables of the code walk them: the
  distance from one position to another going forward, and how it adds up along a walk.
\<close>

definition ring_dist :: "nat \<Rightarrow> nat \<Rightarrow> nat \<Rightarrow> nat" where
  "ring_dist n a b = (if a \<le> b then b - a else n - a + b)"

definition ring_next :: "nat \<Rightarrow> nat \<Rightarrow> nat" where
  "ring_next n a = (if Suc a = n then 0 else Suc a)"

lemma ring_next_less [simp]: "a < n \<Longrightarrow> ring_next n a < n"
  by (auto simp: ring_next_def)

lemma ring_next_mask: "a < 2 ^ b \<Longrightarrow> (a + 1) AND (2 ^ b - 1) = ring_next (2 ^ b) a"
proof -
  assume "a < 2 ^ b"
  have "(a + 1) AND (2 ^ b - 1) = (a + 1) mod 2 ^ b"
    by (metis mask_eq_exp_minus_1 take_bit_eq_mask take_bit_eq_mod)
  with \<open>a < 2 ^ b\<close> show ?thesis by (auto simp: ring_next_def mod_Suc)
qed

lemma ring_dist_same [simp]: "ring_dist n a a = 0"
  by (simp add: ring_dist_def)

lemma ring_dist_less: "a < n \<Longrightarrow> b < n \<Longrightarrow> ring_dist n a b < n"
  by (auto simp: ring_dist_def)

lemma ring_dist_0: "a < n \<Longrightarrow> b < n \<Longrightarrow> ring_dist n a b = 0 \<longleftrightarrow> a = b"
  by (auto simp: ring_dist_def)

lemma ring_dist_inj: "a < n \<Longrightarrow> b < n \<Longrightarrow> c < n \<Longrightarrow> ring_dist n a b = ring_dist n a c \<longleftrightarrow> b = c"
  by (auto simp: ring_dist_def)

lemma ring_dist_next_right:
  "a < n \<Longrightarrow> b < n \<Longrightarrow> ring_next n b \<noteq> a \<Longrightarrow> ring_dist n a (ring_next n b) = Suc (ring_dist n a b)"
  by (auto simp: ring_dist_def ring_next_def)

lemma ring_dist_next_left:
  "a < n \<Longrightarrow> b < n \<Longrightarrow> a \<noteq> b \<Longrightarrow> ring_dist n a b = Suc (ring_dist n (ring_next n a) b)"
  by (auto simp: ring_dist_def ring_next_def)

text \<open>Position \<open>s\<close> lies before \<open>t\<close> on the walk that starts at \<open>h\<close>.\<close>

definition on_walk :: "nat \<Rightarrow> nat \<Rightarrow> nat \<Rightarrow> nat \<Rightarrow> bool" where
  "on_walk n h s t \<longleftrightarrow> ring_dist n h s < ring_dist n h t"

lemma on_walk_split:
  assumes "h < n" "s < n" "t < n" "on_walk n h s t"
  shows "ring_dist n h t = ring_dist n h s + ring_dist n s t"
  using assms by (auto simp: ring_dist_def on_walk_def split: if_splits)

lemma on_walk_between:
  assumes "h < n" "s < n" "t < n" "m < n" "on_walk n h s t" "ring_dist n s m < ring_dist n s t"
  shows "on_walk n h m t"
  using assms by (auto simp: ring_dist_def on_walk_def split: if_splits)

text \<open>The test of a backward-shift deletion: the home of the entry at \<open>t\<close> is not in \<open>(s, t]\<close>.\<close>

lemma on_walk_test:
  assumes "h < n" "s < n" "t < n" "s \<noteq> t"
  shows "on_walk n h s t \<longleftrightarrow> s < t \<and> (h \<le> s \<or> t < h) \<or> t < s \<and> h \<le> s \<and> t < h"
  using assms by (auto simp: ring_dist_def on_walk_def split: if_splits)

end
