(* ===== verification/Embedding_Cache.thy ===== *)
theory Embedding_Cache
  imports Ring "HOL-Library.Multiset"
begin

text \<open>
  The cache of finished hidden vectors: \<^verbatim>\<open>src/qwen3/cache.go\<close>. An index table with linear
  probing leads from the hash of a token sequence to an entry, entries are evicted by CLOCK, and
  deleting an index slot shifts the probe chain behind it back. The hash \<open>maphash.Bytes\<close> under the
  two seeds is a parameter. The loops have no bound of their own: \<open>fuel\<close> counts their turns and
  \<open>None\<close> is a loop that does not end. \<open>int32\<close> slot values are \<open>nat\<close>: a cache of fewer than \<open>2^31\<close>
  entries is assumed.
\<close>

section \<open>Model\<close>

record cacheKey =
  h0 :: "64 word"
  h1 :: "64 word"
  n_ids :: nat

record 'v embeddingCache =
  width :: nat
  ckeys :: "cacheKey list"
  vectors :: "'v list"
  refs :: "bool list"
  slots :: "nat list"
  hand :: nat
  used :: nat
  hits :: "64 word"
  lookups :: "64 word"

type_synonym hashes = "(int list \<Rightarrow> 64 word) \<times> (int list \<Rightarrow> 64 word)"

function slot_count :: "nat \<Rightarrow> nat \<Rightarrow> nat" where
  "slot_count entries n = (if 0 < n \<and> n < 2 * entries then slot_count entries (2 * n) else n)"
  by pat_completeness auto
termination by (relation "measure (\<lambda>(entries, n). 2 * entries - n)") auto

declare slot_count.simps [simp del]

definition zero_key :: cacheKey where
  "zero_key = \<lparr>h0 = 0, h1 = 0, n_ids = 0\<rparr>"

text \<open>\<open>zero\<close> is the zero \<open>float32\<close>; \<open>None\<close> is the nil cache.\<close>

definition newEmbeddingCache :: "'v \<Rightarrow> int \<Rightarrow> nat \<Rightarrow> 'v embeddingCache option" where
  "newEmbeddingCache zero entries w =
     (if entries \<le> 0 then None
      else let n = nat entries in
           Some \<lparr>width = w, ckeys = replicate n zero_key, vectors = replicate (n * w) zero, refs = replicate n False,
                 slots = replicate (slot_count n 1) 0, hand = 0, used = 0, hits = 0, lookups = 0\<rparr>)"

definition cache_key :: "hashes \<Rightarrow> int list \<Rightarrow> cacheKey" where
  "cache_key hs ids = \<lparr>h0 = fst hs ids, h1 = snd hs ids, n_ids = length ids\<rparr>"

definition home :: "'v embeddingCache \<Rightarrow> cacheKey \<Rightarrow> nat" where
  "home c k = unat (h0 k) AND (length (slots c) - 1)"

text \<open>The slot of a key, and its entry; no entry when the slot is the empty one where it would go.\<close>

fun find_from :: "nat \<Rightarrow> 'v embeddingCache \<Rightarrow> cacheKey \<Rightarrow> nat \<Rightarrow> (nat \<times> nat option) option" where
  "find_from 0 c k s = None"
| "find_from (Suc fuel) c k s =
     (if slots c ! s = 0 then Some (s, None)
      else if ckeys c ! (slots c ! s - 1) = k then Some (s, Some (slots c ! s - 1))
      else find_from fuel c k ((s + 1) AND (length (slots c) - 1)))"

definition cache_find :: "'v embeddingCache \<Rightarrow> cacheKey \<Rightarrow> (nat \<times> nat option) option" where
  "cache_find c k = find_from (length (slots c)) c k (home c k)"

definition go_copy :: "'a list \<Rightarrow> 'a list \<Rightarrow> 'a list" where
  "go_copy dst src = take (length dst) src @ drop (length src) dst"

definition entry_vector :: "'v embeddingCache \<Rightarrow> nat \<Rightarrow> 'v list" where
  "entry_vector c e = take (width c) (drop (e * width c) (vectors c))"

definition cache_get :: "hashes \<Rightarrow> 'v embeddingCache \<Rightarrow> int list \<Rightarrow> 'v list \<Rightarrow> ('v embeddingCache \<times> 'v list \<times> bool) option" where
  "cache_get hs c ids dst =
     (let c = c\<lparr>lookups := lookups c + 1\<rparr> in
      case cache_find c (cache_key hs ids) of
        None \<Rightarrow> None
      | Some (_, None) \<Rightarrow> Some (c, dst, False)
      | Some (_, Some e) \<Rightarrow> Some (c\<lparr>hits := hits c + 1, refs := (refs c)[e := True]\<rparr>, go_copy dst (entry_vector c e), True))"

text \<open>
  Backward-shift deletion, both loops: \<open>s\<close> is the hole and \<open>next\<close> the slot looked at last. An
  entry whose home is not in \<open>(s, next]\<close> moves into the hole, and the hole to where it was.
\<close>

fun shift_back :: "nat \<Rightarrow> 'v embeddingCache \<Rightarrow> nat list \<Rightarrow> nat \<Rightarrow> nat \<Rightarrow> nat list option" where
  "shift_back 0 c sl s t = None"
| "shift_back (Suc fuel) c sl s t =
     (let t' = (t + 1) AND (length sl - 1) in
      if sl ! t' = 0 then Some sl
      else let hm = home c (ckeys c ! (sl ! t' - 1)) in
           if s < t' \<and> (hm \<le> s \<or> t' < hm) \<or> t' < s \<and> hm \<le> s \<and> t' < hm
           then shift_back fuel c (sl[s := sl ! t', t' := 0]) t' t'
           else shift_back fuel c sl s t')"

definition cache_remove :: "'v embeddingCache \<Rightarrow> cacheKey \<Rightarrow> 'v embeddingCache option" where
  "cache_remove c k =
     (case cache_find c k of
        None \<Rightarrow> None
      | Some (s, None) \<Rightarrow> Some c
      | Some (s, Some e) \<Rightarrow>
          map_option (\<lambda>sl. c\<lparr>slots := sl\<rparr>) (shift_back (length (slots c)) c ((slots c)[s := 0]) s s))"

text \<open>The CLOCK hand: it clears the reference bits it passes and stops at an entry without one.\<close>

fun clock_hand :: "nat \<Rightarrow> bool list \<Rightarrow> nat \<Rightarrow> (bool list \<times> nat) option" where
  "clock_hand 0 rf h = None"
| "clock_hand (Suc fuel) rf h = (if rf ! h then clock_hand fuel (rf[h := False]) ((h + 1) mod length rf) else Some (rf, h))"

definition put_at_entry :: "'v embeddingCache \<Rightarrow> nat \<Rightarrow> nat \<Rightarrow> cacheKey \<Rightarrow> 'v list \<Rightarrow> 'v embeddingCache" where
  "put_at_entry c s e k vec =
     c\<lparr>ckeys := (ckeys c)[e := k], refs := (refs c)[e := False], slots := (slots c)[s := e + 1],
       vectors := take (e * width c) (vectors c) @ go_copy (entry_vector c e) vec @ drop ((e + 1) * width c) (vectors c)\<rparr>"

definition cache_put :: "hashes \<Rightarrow> 'v embeddingCache \<Rightarrow> int list \<Rightarrow> 'v list \<Rightarrow> 'v embeddingCache option" where
  "cache_put hs c ids vec =
     (let k = cache_key hs ids in
      case cache_find c k of
        None \<Rightarrow> None
      | Some (_, Some _) \<Rightarrow> Some c
      | Some (s, None) \<Rightarrow>
          if used c < length (ckeys c) then Some (put_at_entry (c\<lparr>used := used c + 1\<rparr>) s (used c) k vec)
          else (case clock_hand (Suc (length (refs c))) (refs c) (hand c) of
                  None \<Rightarrow> None
                | Some (rf, e) \<Rightarrow>
                    let c = c\<lparr>refs := rf, hand := (e + 1) mod length (ckeys c)\<rparr> in
                    (case cache_remove c (ckeys c ! e) of
                       None \<Rightarrow> None
                     | Some c \<Rightarrow> (case cache_find c k of
                                    None \<Rightarrow> None
                                  | Some (s', _) \<Rightarrow> Some (put_at_entry c s' e k vec)))))"

section \<open>Probe chains\<close>

text \<open>
  Every slot between the home of an entry and the slot that holds it is taken; in \<open>chains_but\<close>
  the slot \<open>s\<close> may be a hole.
\<close>

definition chains_but :: "(nat \<Rightarrow> nat) \<Rightarrow> nat list \<Rightarrow> nat set \<Rightarrow> bool" where
  "chains_but hm sl H \<longleftrightarrow>
     (\<forall>t < length sl. \<forall>u < length sl. sl ! t \<noteq> 0 \<longrightarrow> on_walk (length sl) (hm (sl ! t)) u t \<longrightarrow> sl ! u \<noteq> 0 \<or> u \<in> H)"

lemma chains_butD:
  "chains_but hm sl H \<Longrightarrow> t < length sl \<Longrightarrow> u < length sl \<Longrightarrow> sl ! t \<noteq> 0 \<Longrightarrow> on_walk (length sl) (hm (sl ! t)) u t \<Longrightarrow> sl ! u \<noteq> 0 \<or> u \<in> H"
  by (auto simp: chains_but_def)

text \<open>The slots behind the hole up to \<open>t\<close> have been seen: taken, and by entries whose chain does not need the hole.\<close>

definition seen :: "(nat \<Rightarrow> nat) \<Rightarrow> nat list \<Rightarrow> nat \<Rightarrow> nat \<Rightarrow> bool" where
  "seen hm sl s t \<longleftrightarrow> (\<forall>u < length sl. u \<noteq> s \<longrightarrow> ring_dist (length sl) s u \<le> ring_dist (length sl) s t \<longrightarrow>
     sl ! u \<noteq> 0 \<and> \<not> on_walk (length sl) (hm (sl ! u)) s u)"

lemma seenD:
  "seen hm sl s t \<Longrightarrow> u < length sl \<Longrightarrow> u \<noteq> s \<Longrightarrow> ring_dist (length sl) s u \<le> ring_dist (length sl) s t \<Longrightarrow> sl ! u \<noteq> 0"
  "seen hm sl s t \<Longrightarrow> u < length sl \<Longrightarrow> u \<noteq> s \<Longrightarrow> ring_dist (length sl) s u \<le> ring_dist (length sl) s t \<Longrightarrow> \<not> on_walk (length sl) (hm (sl ! u)) s u"
  by (auto simp: seen_def)

lemma seen_start: "s < length sl \<Longrightarrow> seen hm sl s s"
  by (auto simp: seen_def ring_dist_0)

lemma seen_next:
  assumes "seen hm sl s t" "s < length sl" "t < length sl" "t' = ring_next (length sl) t" "t' \<noteq> s" "sl ! t' \<noteq> 0"
    "\<not> on_walk (length sl) (hm (sl ! t')) s t'"
  shows "seen hm sl s t'"
  unfolding seen_def
proof (intro allI impI)
  let ?N = "length sl"
  fix u assume u: "u < ?N" "u \<noteq> s" "ring_dist ?N s u \<le> ring_dist ?N s t'"
  have "ring_dist ?N s t' = Suc (ring_dist ?N s t)" using ring_dist_next_right assms(2-5) by simp
  then consider "ring_dist ?N s u \<le> ring_dist ?N s t" | "ring_dist ?N s u = ring_dist ?N s t'" using u(3) by linarith
  then show "sl ! u \<noteq> 0 \<and> \<not> on_walk ?N (hm (sl ! u)) s u"
  proof cases
    case 1
    then show ?thesis using assms(1) u by (simp add: seen_def)
  next
    case 2
    then have "u = t'" using ring_dist_inj [of s ?N u t'] u(1) assms(2-4) by simp
    then show ?thesis using assms(6,7) by simp
  qed
qed

text \<open>At an empty slot nothing needs the hole any more.\<close>

lemma chains_done:
  assumes ch: "chains_but hm sl {s}" and seen: "seen hm sl s t" and s: "s < length sl" "t < length sl"
    and t': "t' = ring_next (length sl) t" "sl ! t' = 0" and hm: "\<And>x. hm x < length sl"
  shows "chains_but hm sl {}"
  unfolding chains_but_def
proof (intro allI impI disjI1 notI)
  let ?N = "length sl"
  fix v u assume v: "v < ?N" "u < ?N" "sl ! v \<noteq> 0" "on_walk ?N (hm (sl ! v)) u v" "sl ! u = 0"
  have us: "u = s" using chains_butD [OF ch v(1-4)] v(5) by simp
  then have w: "on_walk ?N (hm (sl ! v)) s v" using v(4) by simp
  have "v \<noteq> s" using v(3,5) us by metis
  have far: "\<not> ring_dist ?N s v \<le> ring_dist ?N s t" using seenD(2) [OF seen v(1) \<open>v \<noteq> s\<close>] w by blast
  have t'N: "t' < ?N" using s(2) t'(1) by simp
  show False
  proof (cases "t' = s")
    case True
    then have "ring_dist ?N s t = ?N - 1" using t'(1) s unfolding ring_next_def ring_dist_def by (auto split: if_splits)
    then show False using far ring_dist_less [OF s(1) v(1)] by simp
  next
    case False
    then have "ring_dist ?N s t' = Suc (ring_dist ?N s t)" using ring_dist_next_right s t'(1) by simp
    moreover have "v \<noteq> t'" using v(3) t'(2) by metis
    then have "ring_dist ?N s v \<noteq> ring_dist ?N s t'" using ring_dist_inj [of s ?N v t'] s(1) v(1) t'N by simp
    ultimately have "ring_dist ?N s t' < ring_dist ?N s v" using far by linarith
    then have "on_walk ?N (hm (sl ! v)) t' v" by (rule on_walk_between [OF hm s(1) v(1) t'N w])
    then show False using chains_butD [OF ch v(1) t'N v(3)] t'(2) False by simp
  qed
qed

text \<open>Moving an entry that needs the hole into it.\<close>

lemma chains_move:
  assumes ch: "chains_but hm sl {s}" and s: "s < length sl" "t < length sl" "s \<noteq> t" "sl ! s = 0" "sl ! t \<noteq> 0"
    and w: "on_walk (length sl) (hm (sl ! t)) s t" and hm: "\<And>x. hm x < length sl"
  shows "chains_but hm (sl[s := sl ! t, t := 0]) {t}"
  unfolding chains_but_def
proof (intro allI impI)
  let ?N = "length sl" and ?sl = "sl[s := sl ! t, t := 0]"
  fix v u assume a: "v < length ?sl" "u < length ?sl" "?sl ! v \<noteq> 0" "on_walk (length ?sl) (hm (?sl ! v)) u v"
  then have v: "v < ?N" "u < ?N" "v \<noteq> t" by auto
  have at_s: "?sl ! s = sl ! t" using s by simp
  show "?sl ! u \<noteq> 0 \<or> u \<in> {t}"
  proof (cases "u = t \<or> u = s")
    case True
    then show ?thesis using at_s s(5) by auto
  next
    case False
    have "sl ! u \<noteq> 0"
    proof (cases "v = s")
      case True
      then have "on_walk ?N (hm (sl ! t)) u t" using a(4) at_s w by (simp add: on_walk_def)
      then show ?thesis using chains_butD [OF ch s(2) v(2) s(5)] False by simp
    next
      case ns: False
      then have "?sl ! v = sl ! v" using v(3) by simp
      then show ?thesis using chains_butD [OF ch v(1,2)] a(3,4) False by simp
    qed
    then show ?thesis using False by simp
  qed
qed

lemma mset_swap_zero:
  assumes "s < length sl" "t < length sl" "sl ! s = 0"
  shows "mset (sl[s := sl ! t, t := 0]) = mset sl"
  using mset_swap [OF assms(2,1)] assms(3) by simp

lemma shift_back_chains:
  assumes "length sl = 2 ^ b" "length (slots c) = 2 ^ b" and hm: "\<And>x. hm x = home c (ckeys c ! (x - 1))" "\<And>x. hm x < length sl"
    and "s < length sl" "t < length sl" "z < length sl" "z \<noteq> s" "sl ! s = 0" "sl ! z = 0"
    and "chains_but hm sl {s}" "seen hm sl s t" "ring_dist (length sl) t z \<le> fuel"
  shows "\<exists>sl'. shift_back fuel c sl s t = Some sl' \<and> chains_but hm sl' {} \<and> mset sl' = mset sl"
  using assms(1,4-)
proof (induction fuel arbitrary: sl s t)
  case 0
  then have "t = z" using ring_dist_0 by simp
  then show ?case using seenD(1) [OF "0.prems"(10), of z] "0.prems"(3-8) by simp
next
  case (Suc fuel)
  let ?N = "length sl" and ?t = "ring_next (length sl) t"
  have t': "(t + 1) AND (?N - 1) = ?t" using ring_next_mask [of t b] Suc.prems(1,4) by simp
  have tN: "?t < ?N" using Suc.prems(4) by simp
  have tz: "t \<noteq> z" using seenD(1) [OF Suc.prems(10), of z] Suc.prems(3-8) by auto
  then have fuel: "ring_dist ?N ?t z \<le> fuel" using ring_dist_next_left [OF Suc.prems(4,5)] Suc.prems(11) by simp
  show ?case
  proof (cases "sl ! ?t = 0")
    case True
    have "chains_but hm sl {}" by (rule chains_done [OF Suc.prems(9,10,3,4) refl True Suc.prems(2)])
    then show ?thesis using True t' by simp
  next
    case False
    then have st: "s \<noteq> ?t" using Suc.prems(7) by metis
    let ?move = "s < ?t \<and> (hm (sl ! ?t) \<le> s \<or> ?t < hm (sl ! ?t)) \<or> ?t < s \<and> hm (sl ! ?t) \<le> s \<and> ?t < hm (sl ! ?t)"
    have test: "?move \<longleftrightarrow> on_walk ?N (hm (sl ! ?t)) s ?t"
      using on_walk_test [OF Suc.prems(2,3) tN st] by simp
    have step: "shift_back (Suc fuel) c sl s t =
        (if ?move then shift_back fuel c (sl[s := sl ! ?t, ?t := 0]) ?t ?t else shift_back fuel c sl s ?t)"
      unfolding shift_back.simps Let_def t' hm(1) [symmetric] if_not_P [OF False] by (rule refl)
    show ?thesis
    proof (cases ?move)
      case True
      let ?sl = "sl[s := sl ! ?t, ?t := 0]"
      have "\<exists>sl'. shift_back fuel c ?sl ?t ?t = Some sl' \<and> chains_but hm sl' {} \<and> mset sl' = mset ?sl"
      proof (rule Suc.IH)
        show "chains_but hm ?sl {?t}"
          by (rule chains_move [OF Suc.prems(9,3) tN st Suc.prems(7) False]) (use True test Suc.prems(2) in blast)+
        show "seen hm ?sl ?t ?t" by (rule seen_start) (use tN in simp)
        show "z \<noteq> ?t" using False Suc.prems(8) by metis
        then show "?sl ! z = 0" using Suc.prems(5,6,8) by simp
      qed (use Suc.prems tN fuel in simp_all)
      then show ?thesis unfolding step if_P [OF True] mset_swap_zero [OF Suc.prems(3) tN Suc.prems(7)] .
    next
      case nomove: False
      have "seen hm sl s ?t" by (rule seen_next [OF Suc.prems(10,3,4) refl _ False]) (use st nomove test in auto)
      then have "\<exists>sl'. shift_back fuel c sl s ?t = Some sl' \<and> chains_but hm sl' {} \<and> mset sl' = mset sl"
        using Suc.IH [of sl s ?t] Suc.prems tN fuel by simp
      then show ?thesis unfolding step if_not_P [OF nomove] .
    qed
  qed
qed

end
