(* ===== verification/Embedding_Cache_Map.thy ===== *)
theory Embedding_Cache_Map
  imports Embedding_Cache
begin

text \<open>
  The cache implements a bounded map: the invariant of the index, the specifications of finding,
  removing and storing an entry, and what a sequence of lookups and stores returns.
\<close>

section \<open>The index\<close>

definition slot_home :: "'v embeddingCache \<Rightarrow> nat \<Rightarrow> nat" where
  "slot_home c x = home c (ckeys c ! (x - 1))"

text \<open>The index holds exactly the entries \<open>E\<close>, each once, under distinct keys and with full chains.\<close>

definition index_ok :: "'v embeddingCache \<Rightarrow> nat set \<Rightarrow> bool" where
  "index_ok c E \<longleftrightarrow> (\<exists>b. length (slots c) = 2 ^ b) \<and> finite E \<and> card E < length (slots c)
     \<and> filter_mset (\<lambda>x. x \<noteq> 0) (mset (slots c)) = mset_set (Suc ` E)
     \<and> inj_on (\<lambda>e. ckeys c ! e) E \<and> chains_but (slot_home c) (slots c) {}"

lemma home_less: "length (slots c) = 2 ^ b \<Longrightarrow> home c k < length (slots c)"
proof -
  assume l: "length (slots c) = 2 ^ b"
  have "unat (h0 k) AND (2 ^ b - 1) = unat (h0 k) mod 2 ^ b" by (metis mask_eq_exp_minus_1 take_bit_eq_mask take_bit_eq_mod)
  then show ?thesis by (simp add: home_def l)
qed

lemma count_nth_unique:
  assumes "count (mset xs) x \<le> 1" "i < length xs" "j < length xs" "xs ! i = x" "xs ! j = x"
  shows "i = j"
proof -
  have "count (mset xs) x = card {i. i < length xs \<and> xs ! i = x}"
    by (simp add: count_mset count_list_eq_length_filter length_filter_conv_card eq_commute)
  with assms(1) have "card {i. i < length xs \<and> xs ! i = x} \<le> Suc 0" by simp
  then show ?thesis using assms(2-) card_le_Suc0_iff_eq [of "{i. i < length xs \<and> xs ! i = x}"] by auto
qed

lemma index_holds:
  assumes "index_ok c E"
  shows "e \<in> E \<longleftrightarrow> Suc e \<in> set (slots c)"
    and "t < length (slots c) \<Longrightarrow> u < length (slots c) \<Longrightarrow> slots c ! t = Suc e \<Longrightarrow> slots c ! u = Suc e \<Longrightarrow> t = u"
    and "\<exists>z < length (slots c). slots c ! z = 0"
proof -
  have fin: "finite E" and m: "filter_mset (\<lambda>x. x \<noteq> 0) (mset (slots c)) = mset_set (Suc ` E)"
    using assms by (auto simp: index_ok_def)
  have cnt: "count (mset (slots c)) (Suc e) = count (mset_set (Suc ` E)) (Suc e)" for e
    unfolding m [symmetric] by simp
  have "e \<in> E \<longleftrightarrow> count (mset (slots c)) (Suc e) \<noteq> 0" unfolding cnt using fin by auto
  also have "\<dots> \<longleftrightarrow> Suc e \<in> set (slots c)" using count_eq_zero_iff [of "mset (slots c)" "Suc e"] by simp
  finally show "e \<in> E \<longleftrightarrow> Suc e \<in> set (slots c)" .
  show "t = u" if "t < length (slots c)" "u < length (slots c)" "slots c ! t = Suc e" "slots c ! u = Suc e"
    by (rule count_nth_unique [of _ "Suc e"]) (use that in \<open>simp_all add: cnt count_mset_set'\<close>)
  show "\<exists>z < length (slots c). slots c ! z = 0"
  proof (rule ccontr)
    assume "\<not> ?thesis"
    then have "\<forall>x \<in> set (slots c). x \<noteq> 0" by (metis in_set_conv_nth)
    then have "filter_mset (\<lambda>x. x \<noteq> 0) (mset (slots c)) = mset (slots c)" by (simp add: filter_mset_eq_conv)
    then have "size (mset (slots c)) = card E" unfolding m by (metis size_mset_set card_image inj_Suc inj_on_subset subset_UNIV)
    then show False using assms by (simp add: index_ok_def)
  qed
qed

lemma index_homes: "index_ok c E \<Longrightarrow> slot_home c x < length (slots c)"
  by (auto simp: index_ok_def slot_home_def intro: home_less)

section \<open>Finding a key\<close>

lemma find_from_first:
  assumes N: "length (slots c) = 2 ^ b" and z: "z < length (slots c)" "slots c ! z = 0"
    and "s < length (slots c)" "ring_dist (length (slots c)) s z < fuel"
    and "\<forall>u < length (slots c). on_walk (length (slots c)) (home c k) u s \<longrightarrow> slots c ! u \<noteq> 0 \<and> ckeys c ! (slots c ! u - 1) \<noteq> k"
  shows "\<exists>t r. find_from fuel c k s = Some (t, r) \<and> t < length (slots c)
    \<and> (\<forall>u < length (slots c). on_walk (length (slots c)) (home c k) u t \<longrightarrow> slots c ! u \<noteq> 0 \<and> ckeys c ! (slots c ! u - 1) \<noteq> k)
    \<and> (case r of None \<Rightarrow> slots c ! t = 0 | Some e \<Rightarrow> slots c ! t = Suc e \<and> ckeys c ! e = k)"
  using assms(4-)
proof (induction fuel arbitrary: s)
  case (Suc fuel)
  let ?N = "length (slots c)" and ?h = "home c k" and ?n = "ring_next (length (slots c)) s"
  have hN: "?h < ?N" using home_less [OF N] .
  consider "slots c ! s = 0" | "slots c ! s \<noteq> 0" "ckeys c ! (slots c ! s - 1) = k" | "slots c ! s \<noteq> 0" "ckeys c ! (slots c ! s - 1) \<noteq> k" by blast
  then show ?case
  proof cases
    case 3
    have sz: "s \<noteq> z" using 3(1) z(2) by metis
    have nh: "?n \<noteq> ?h"
    proof
      assume "?n = ?h"
      then have "ring_dist ?N ?h s = ?N - 1" using Suc.prems(1) hN unfolding ring_next_def ring_dist_def by (auto split: if_splits)
      moreover have "ring_dist ?N ?h z \<noteq> ring_dist ?N ?h s" using ring_dist_inj [OF hN z(1) Suc.prems(1)] sz by simp
      ultimately have "on_walk ?N ?h z s" using ring_dist_less [OF hN z(1)] by (simp add: on_walk_def)
      then show False using Suc.prems(3) z by blast
    qed
    have walk: "\<forall>u < ?N. on_walk ?N ?h u ?n \<longrightarrow> slots c ! u \<noteq> 0 \<and> ckeys c ! (slots c ! u - 1) \<noteq> k"
    proof (intro allI impI)
      fix u assume u: "u < ?N" "on_walk ?N ?h u ?n"
      then have "ring_dist ?N ?h u \<le> ring_dist ?N ?h s" using ring_dist_next_right [OF hN Suc.prems(1) nh] by (simp add: on_walk_def)
      then have "on_walk ?N ?h u s \<or> u = s" using ring_dist_inj [OF hN u(1) Suc.prems(1)] by (auto simp: on_walk_def)
      then show "slots c ! u \<noteq> 0 \<and> ckeys c ! (slots c ! u - 1) \<noteq> k" using Suc.prems(3) u(1) 3 by blast
    qed
    have mask: "(s + 1) AND (?N - 1) = ?n" using ring_next_mask [of s b] Suc.prems(1) N by simp
    have "ring_dist ?N ?n z < fuel" using ring_dist_next_left [OF Suc.prems(1) z(1) sz] Suc.prems(2) by simp
    from Suc.IH [OF _ this walk] Suc.prems(1) show ?thesis using 3 mask by simp
  qed (use Suc.prems in \<open>auto split: option.splits\<close>)
qed simp

lemma cache_find_first:
  assumes "index_ok c E"
  obtains t r where "cache_find c k = Some (t, r)" "t < length (slots c)"
    "\<And>u. u < length (slots c) \<Longrightarrow> on_walk (length (slots c)) (home c k) u t \<Longrightarrow> slots c ! u \<noteq> 0 \<and> ckeys c ! (slots c ! u - 1) \<noteq> k"
    "case r of None \<Rightarrow> slots c ! t = 0 | Some e \<Rightarrow> slots c ! t = Suc e \<and> ckeys c ! e = k"
proof -
  obtain b where b: "length (slots c) = 2 ^ b" using assms by (auto simp: index_ok_def)
  obtain z where z: "z < length (slots c)" "slots c ! z = 0" using index_holds(3) [OF assms] by blast
  have "\<forall>u < length (slots c). on_walk (length (slots c)) (home c k) u (home c k) \<longrightarrow> slots c ! u \<noteq> 0 \<and> ckeys c ! (slots c ! u - 1) \<noteq> k"
    by (simp add: on_walk_def)
  from find_from_first [OF b z home_less [OF b] ring_dist_less [OF home_less [OF b] z(1)] this] that show thesis
    unfolding cache_find_def by blast
qed

lemma cache_find_hit:
  assumes "index_ok c E" "e \<in> E" "ckeys c ! e = k"
  shows "\<exists>t. cache_find c k = Some (t, Some e) \<and> t < length (slots c) \<and> slots c ! t = Suc e"
proof -
  let ?N = "length (slots c)"
  obtain b where b: "?N = 2 ^ b" using assms(1) by (auto simp: index_ok_def)
  from assms(2) index_holds(1) [OF assms(1)] obtain p where p: "p < ?N" "slots c ! p = Suc e" by (metis in_set_conv_nth)
  obtain t r where t: "cache_find c k = Some (t, r)" "t < ?N"
    "\<And>u. u < ?N \<Longrightarrow> on_walk ?N (home c k) u t \<Longrightarrow> slots c ! u \<noteq> 0 \<and> ckeys c ! (slots c ! u - 1) \<noteq> k"
    "case r of None \<Rightarrow> slots c ! t = 0 | Some e \<Rightarrow> slots c ! t = Suc e \<and> ckeys c ! e = k"
    using cache_find_first [OF assms(1), of k] by blast
  have hm: "slot_home c (slots c ! p) = home c k" using p assms(3) by (simp add: slot_home_def)
  have "\<not> on_walk ?N (home c k) p t" using t(3) [OF p(1)] p assms(3) by auto
  moreover have "\<not> on_walk ?N (home c k) t p"
  proof
    assume w: "on_walk ?N (home c k) t p"
    have "chains_but (slot_home c) (slots c) {}" using assms(1) by (simp add: index_ok_def)
    then have "slots c ! t \<noteq> 0" using chains_butD [of "slot_home c" "slots c" "{}" p t] p t(2) w hm by auto
    then obtain e' where e': "slots c ! t = Suc e'" "ckeys c ! e' = k" using t(4) by (auto split: option.splits)
    then have "e' \<in> E" using index_holds(1) [OF assms(1)] t(2) by (metis nth_mem)
    then have "e' = e" using assms e'(2) by (auto simp: index_ok_def inj_on_def)
    then have "t = p" using index_holds(2) [OF assms(1) t(2) p(1)] e'(1) p(2) by blast
    then show False using w by (simp add: on_walk_def)
  qed
  ultimately have "t = p" using ring_dist_inj [OF home_less [OF b] t(2) p(1), of k] by (auto simp: on_walk_def)
  then show ?thesis using t p by (auto split: option.splits)
qed

lemma cache_find_miss:
  assumes "index_ok c E" "\<And>e. e \<in> E \<Longrightarrow> ckeys c ! e \<noteq> k"
  shows "\<exists>t. cache_find c k = Some (t, None) \<and> t < length (slots c) \<and> slots c ! t = 0
    \<and> (\<forall>u < length (slots c). on_walk (length (slots c)) (home c k) u t \<longrightarrow> slots c ! u \<noteq> 0)"
proof -
  let ?N = "length (slots c)"
  obtain t r where t: "cache_find c k = Some (t, r)" "t < ?N"
    "\<And>u. u < ?N \<Longrightarrow> on_walk ?N (home c k) u t \<Longrightarrow> slots c ! u \<noteq> 0 \<and> ckeys c ! (slots c ! u - 1) \<noteq> k"
    "case r of None \<Rightarrow> slots c ! t = 0 | Some e \<Rightarrow> slots c ! t = Suc e \<and> ckeys c ! e = k"
    using cache_find_first [OF assms(1), of k] by blast
  have "r = None"
  proof (cases r)
    case (Some e)
    then have "Suc e \<in> set (slots c)" "ckeys c ! e = k" using t(2,4) nth_mem [OF t(2)] by auto
    then show ?thesis using assms(2) index_holds(1) [OF assms(1), of e] by blast
  qed
  then show ?thesis using t by auto
qed

section \<open>Removing and storing an entry\<close>

lemma home_slots: "length sl = length (slots c) \<Longrightarrow> home (c\<lparr>slots := sl\<rparr>) k = home c k"
  by (simp add: home_def)

lemma slot_home_slots: "length sl = length (slots c) \<Longrightarrow> slot_home (c\<lparr>slots := sl\<rparr>) = slot_home c"
  by (simp add: slot_home_def home_def fun_eq_iff)

lemma cache_remove_index:
  assumes "index_ok c E" "e \<in> E"
  shows "\<exists>sl. cache_remove c (ckeys c ! e) = Some (c\<lparr>slots := sl\<rparr>) \<and> length sl = length (slots c) \<and> index_ok (c\<lparr>slots := sl\<rparr>) (E - {e})"
proof -
  let ?N = "length (slots c)"
  obtain b where b: "?N = 2 ^ b" using assms(1) by (auto simp: index_ok_def)
  obtain s where s: "cache_find c (ckeys c ! e) = Some (s, Some e)" "s < ?N" "slots c ! s = Suc e"
    using cache_find_hit [OF assms refl] by blast
  obtain z where z: "z < ?N" "slots c ! z = 0" using index_holds(3) [OF assms(1)] by blast
  let ?sl = "(slots c)[s := 0]"
  have zs: "z \<noteq> s" using z s(3) by auto
  have ch: "chains_but (slot_home c) (slots c) {}" using assms(1) by (simp add: index_ok_def)
  have hole: "chains_but (slot_home c) ?sl {s}"
    unfolding chains_but_def
  proof (intro allI impI)
    fix t u assume a: "t < length ?sl" "u < length ?sl" "?sl ! t \<noteq> 0" "on_walk (length ?sl) (slot_home c (?sl ! t)) u t"
    then have "t \<noteq> s" "t < ?N" "u < ?N" by auto
    then show "?sl ! u \<noteq> 0 \<or> u \<in> {s}" using chains_butD [OF ch, of t u] a by (cases "u = s") auto
  qed
  have "\<exists>sl. shift_back ?N c ?sl s s = Some sl \<and> chains_but (slot_home c) sl {} \<and> mset sl = mset ?sl"
  proof (rule shift_back_chains [where z = z])
    show "slot_home c x = home c (ckeys c ! (x - 1))" for x by (simp add: slot_home_def)
    show "slot_home c x < length ?sl" for x using index_homes [OF assms(1)] by simp
    show "seen (slot_home c) ?sl s s" by (rule seen_start) (use s in simp)
    show "ring_dist (length ?sl) s z \<le> ?N" using ring_dist_less [OF s(2) z(1)] by simp
  qed (use b s z zs hole in simp_all)
  then obtain sl where sl: "shift_back ?N c ?sl s s = Some sl" "chains_but (slot_home c) sl {}" "mset sl = mset ?sl" by blast
  have len: "length sl = ?N" using sl(3) by (metis length_list_update mset_eq_length)
  have "filter_mset (\<lambda>x. x \<noteq> 0) (mset ?sl) = filter_mset (\<lambda>x. x \<noteq> 0) (mset (slots c)) - {#Suc e#}"
    using s by (simp add: mset_update)
  also have "\<dots> = mset_set (Suc ` (E - {e}))"
  proof -
    have "filter_mset (\<lambda>x. x \<noteq> 0) (mset (slots c)) = mset_set (Suc ` E)" "finite E" using assms(1) by (simp_all add: index_ok_def)
    moreover have "Suc ` (E - {e}) = Suc ` E - {Suc e}" by auto
    ultimately show ?thesis using assms(2) by (simp add: mset_set_Diff)
  qed
  finally have "filter_mset (\<lambda>x. x \<noteq> 0) (mset sl) = mset_set (Suc ` (E - {e}))" by (simp add: sl(3))
  moreover have "card (E - {e}) < ?N" using assms(1) card_Diff1_le [of E e] by (auto simp: index_ok_def intro: le_less_trans)
  ultimately have "index_ok (c\<lparr>slots := sl\<rparr>) (E - {e})"
    using assms(1) len sl(2) b slot_home_slots [OF len] by (auto simp: index_ok_def inj_on_def)
  then show ?thesis using s(1) sl(1) len by (auto simp: cache_remove_def)
qed

text \<open>Only the keys, the slots and the vectors matter for the index, and of the keys those it holds.\<close>

lemma index_ok_cong:
  assumes "index_ok c E" "slots c' = slots c" "\<And>e. e \<in> E \<Longrightarrow> ckeys c' ! e = ckeys c ! e"
  shows "index_ok c' E"
proof -
  have "chains_but (slot_home c') (slots c') {}"
    unfolding chains_but_def assms(2)
  proof (intro allI impI)
    fix t u assume a: "t < length (slots c)" "u < length (slots c)" "slots c ! t \<noteq> 0" "on_walk (length (slots c)) (slot_home c' (slots c ! t)) u t"
    then obtain e where e: "slots c ! t = Suc e" by (cases "slots c ! t") auto
    then have "e \<in> E" using index_holds(1) [OF assms(1)] nth_mem [OF a(1)] by auto
    then have "slot_home c' (slots c ! t) = slot_home c (slots c ! t)" using assms(2,3) e by (simp add: slot_home_def home_def)
    then show "slots c ! u \<noteq> 0 \<or> u \<in> {}" using chains_butD [of "slot_home c" "slots c" "{}" t u] a assms(1) by (auto simp: index_ok_def)
  qed
  then show ?thesis using assms by (auto simp: index_ok_def inj_on_def)
qed

lemma index_store:
  assumes "index_ok c E" "e \<notin> E" "e < length (ckeys c)" "Suc (card E) < length (slots c)" "\<And>e'. e' \<in> E \<Longrightarrow> ckeys c ! e' \<noteq> k"
    and s: "s < length (slots c)" "slots c ! s = 0" "\<forall>u < length (slots c). on_walk (length (slots c)) (home c k) u s \<longrightarrow> slots c ! u \<noteq> 0"
    and c': "slots c' = (slots c)[s := e + 1]" "ckeys c' = (ckeys c)[e := k]"
  shows "index_ok c' (insert e E)"
proof -
  let ?N = "length (slots c)"
  have fin: "finite E" and m: "filter_mset (\<lambda>x. x \<noteq> 0) (mset (slots c)) = mset_set (Suc ` E)"
    and ch: "chains_but (slot_home c) (slots c) {}" using assms(1) by (simp_all add: index_ok_def)
  have keys: "ckeys c' ! e = k" "e' \<in> E \<Longrightarrow> ckeys c' ! e' = ckeys c ! e'" for e' using assms(2,3) c'(2) by (auto simp: nth_list_update)
  have hm: "home c' j = home c j" for j by (simp add: home_def c'(1))
  have "chains_but (slot_home c') (slots c') {}"
    unfolding chains_but_def
  proof (intro allI impI)
    fix t u assume a: "t < length (slots c')" "u < length (slots c')" "slots c' ! t \<noteq> 0" "on_walk (length (slots c')) (slot_home c' (slots c' ! t)) u t"
    then have N: "t < ?N" "u < ?N" "length (slots c') = ?N" by (simp_all add: c'(1))
    show "slots c' ! u \<noteq> 0 \<or> u \<in> {}"
    proof (cases "t = s")
      case True
      then have "slot_home c' (slots c' ! t) = home c k" using s(1) keys(1) hm by (simp add: slot_home_def c'(1))
      then show ?thesis using s(3) a(4) N True by (auto simp: c'(1) nth_list_update)
    next
      case False
      then have t: "slots c' ! t = slots c ! t" by (simp add: c'(1))
      then obtain e' where e': "slots c ! t = Suc e'" using a(3) by (cases "slots c ! t") auto
      then have "e' \<in> E" using index_holds(1) [OF assms(1)] nth_mem [OF N(1)] by auto
      then have "slot_home c' (slots c' ! t) = slot_home c (slots c ! t)" using e' t keys(2) hm by (simp add: slot_home_def)
      then have "slots c ! u \<noteq> 0" using chains_butD [OF ch N(1,2)] a(3,4) N(3) t by simp
      then show ?thesis using s(1) by (cases "u = s") (auto simp: c'(1))
    qed
  qed
  moreover have "filter_mset (\<lambda>x. x \<noteq> 0) (mset (slots c')) = mset_set (Suc ` insert e E)"
    using s(1,2) m fin assms(2) by (simp add: c'(1) mset_update image_iff)
  moreover have "inj_on (\<lambda>e. ckeys c' ! e) (insert e E)"
  proof -
    have "inj_on (\<lambda>e. ckeys c' ! e) E" using assms(1) keys(2) by (auto simp: index_ok_def inj_on_def)
    moreover have "k \<notin> (\<lambda>e. ckeys c' ! e) ` E"
    proof
      assume "k \<in> (\<lambda>e. ckeys c' ! e) ` E"
      then obtain e' where "e' \<in> E" "ckeys c' ! e' = k" by auto
      then show False using assms(5) keys(2) by metis
    qed
    ultimately show ?thesis using keys(1) assms(2) by simp
  qed
  ultimately show ?thesis using assms(1,2,4) fin by (auto simp: index_ok_def c'(1))
qed

section \<open>The CLOCK hand\<close>

lemma mod_step_ne:
  assumes "h < n" "0 < d" "d < n"
  shows "(h + d) mod n \<noteq> (h :: nat)"
proof (cases "h + d < n")
  case False
  then have "(h + d) mod n = h + d - n" using assms by (simp add: mod_if)
  then show ?thesis using assms False by simp
qed (use assms in simp)

text \<open>The hand stops at the first entry without a reference bit.\<close>

lemma clock_hand_stops:
  assumes "length rf = n" "h < n" "j < n" "j < fuel" "\<not> rf ! ((h + j) mod n)"
  shows "\<exists>rf' i. i \<le> j \<and> clock_hand fuel rf h = Some (rf', (h + i) mod n) \<and> length rf' = n \<and> \<not> rf ! ((h + i) mod n)"
  using assms
proof (induction fuel arbitrary: rf h j)
  case (Suc fuel)
  show ?case
  proof (cases "rf ! h")
    case True
    have j: "0 < j" using True Suc.prems(2,5) by (cases j) auto
    let ?rf = "rf[h := False]" and ?h = "(h + 1) mod n"
    have e: "(?h + i) mod n = (h + Suc i) mod n" for i by (simp add: mod_add_left_eq)
    have "\<not> ?rf ! ((?h + (j - 1)) mod n)" unfolding e using Suc.prems j by (cases "(h + j) mod n = h") auto
    moreover have "length ?rf = n" "?h < n" "j - 1 < n" "j - 1 < fuel" using Suc.prems j by auto
    ultimately obtain rf' i where r: "i \<le> j - 1" "clock_hand fuel ?rf ?h = Some (rf', (h + Suc i) mod n)" "length rf' = n" "\<not> ?rf ! ((h + Suc i) mod n)"
      using Suc.IH [of ?rf ?h "j - 1"] unfolding e by blast
    have "(h + Suc i) mod n \<noteq> h" using mod_step_ne [of h n "Suc i"] Suc.prems(2,3) r(1) j by simp
    then have "\<not> rf ! ((h + Suc i) mod n)" using r(4) by simp
    moreover have "clock_hand (Suc fuel) rf h = Some (rf', (h + Suc i) mod n)" using True r(2) Suc.prems(1) by simp
    moreover have "Suc i \<le> j" using r(1) j by simp
    ultimately show ?thesis using r(3) by blast
  next
    case False
    then show ?thesis using Suc.prems by (intro exI [of _ rf] exI [of _ 0]) simp
  qed
qed simp

text \<open>It stops within one round and a step, and takes a referenced entry only when all are.\<close>

lemma clock_hand_victim:
  assumes "length rf = n" "h < n"
  shows "\<exists>rf' e. clock_hand (Suc n) rf h = Some (rf', e) \<and> e < n \<and> length rf' = n \<and> (\<not> rf ! e \<or> (\<forall>i < n. rf ! i))"
proof (cases "\<forall>i < n. rf ! i")
  case False
  then obtain i where i: "i < n" "\<not> rf ! i" by blast
  have "\<exists>j < n. (h + j) mod n = i"
  proof (cases "h \<le> i")
    case True
    then show ?thesis using i by (intro exI [of _ "i - h"]) auto
  next
    case False
    then show ?thesis using i assms(2) by (intro exI [of _ "n - h + i"]) auto
  qed
  then obtain j where "j < n" "(h + j) mod n = i" by blast
  then obtain rf' k where "clock_hand (Suc n) rf h = Some (rf', (h + k) mod n)" "length rf' = n" "\<not> rf ! ((h + k) mod n)"
    using clock_hand_stops [OF assms, of j "Suc n"] i(2) by (metis less_SucI)
  moreover have "(h + k) mod n < n" using assms(2) by simp
  ultimately show ?thesis by blast
next
  case True
  let ?rf = "rf[h := False]" and ?h = "(h + 1) mod n"
  have "h + 1 + (n - 1) = h + n" using assms(2) by simp
  then have "(?h + (n - 1)) mod n = (h + n) mod n" using mod_add_left_eq [of "h + 1" n "n - 1"] by metis
  then have "\<not> ?rf ! ((?h + (n - 1)) mod n)" using assms by simp
  moreover have "length ?rf = n" "?h < n" "n - 1 < n" using assms by auto
  ultimately obtain rf' i where "clock_hand n ?rf ?h = Some (rf', (?h + i) mod n)" "length rf' = n"
    using clock_hand_stops [of ?rf n ?h "n - 1" n] by blast
  then show ?thesis using True assms by auto
qed

section \<open>The cache as a map\<close>

definition cache_ok :: "'v embeddingCache \<Rightarrow> bool" where
  "cache_ok c \<longleftrightarrow> index_ok c {..<used c} \<and> 0 < length (ckeys c) \<and> 2 * length (ckeys c) \<le> length (slots c)
     \<and> length (refs c) = length (ckeys c) \<and> used c \<le> length (ckeys c) \<and> hand c < length (ckeys c)
     \<and> length (vectors c) = length (ckeys c) * width c"

definition cache_map :: "'v embeddingCache \<Rightarrow> cacheKey \<rightharpoonup> 'v list" where
  "cache_map c = map_of (map (\<lambda>e. (ckeys c ! e, entry_vector c e)) [0..<used c])"

lemma cache_map_Some:
  assumes "index_ok c {..<used c}"
  shows "cache_map c k = Some v \<longleftrightarrow> (\<exists>e < used c. ckeys c ! e = k \<and> entry_vector c e = v)"
proof -
  let ?ps = "map (\<lambda>e. (ckeys c ! e, entry_vector c e)) [0..<used c]"
  have "distinct (map fst ?ps)"
    using assms by (auto simp: index_ok_def distinct_map comp_def inj_on_def atLeast0LessThan)
  then have "cache_map c k = Some v \<longleftrightarrow> (k, v) \<in> set ?ps" by (simp add: cache_map_def map_of_eq_Some_iff)
  then show ?thesis by auto
qed

lemma cache_map_None:
  assumes "index_ok c {..<used c}"
  shows "cache_map c k = None \<longleftrightarrow> (\<forall>e < used c. ckeys c ! e \<noteq> k)"
  using cache_map_Some [OF assms, of k] by (metis not_None_eq)

lemma entry_block:
  assumes "length vs = n * w" "e < n" "e' < n" "length vec = w"
  shows "take w (drop (e' * w) (take (e * w) vs @ vec @ drop ((e + 1) * w) vs)) = (if e' = e then vec else take w (drop (e' * w) vs))"
proof -
  have le: "e * w + w \<le> length vs" "e' * w + w \<le> length vs"
    using assms mult_le_mono1 [of "Suc e" n w] mult_le_mono1 [of "Suc e'" n w] by simp_all
  consider "e' = e" | "e' < e" | "e < e'" by linarith
  then show ?thesis
  proof cases
    case 1
    then show ?thesis using le assms(4) by simp
  next
    case 2
    then have "e' * w + w \<le> e * w" using mult_le_mono1 [of "Suc e'" e w] by simp
    then have t: "take (w + e' * w) (take (e * w) vs @ r) = take (w + e' * w) vs" for r using le by (simp add: min_def)
    show ?thesis using 2 unfolding take_drop t by simp
  next
    case 3
    then obtain d where d: "e' = Suc e + d" using less_imp_add_positive by (metis Suc_leI le_Suc_ex)
    have "e' * w = e * w + w + d * w" by (simp add: d algebra_simps)
    then show ?thesis using 3 le assms(4) by (simp add: min_def ac_simps)
  qed
qed

lemma put_at_entry_fields:
  "vectors (put_at_entry c s e k vec) = take (e * width c) (vectors c) @ go_copy (entry_vector c e) vec @ drop ((e + 1) * width c) (vectors c)"
  "width (put_at_entry c s e k vec) = width c" "ckeys (put_at_entry c s e k vec) = (ckeys c)[e := k]"
  "refs (put_at_entry c s e k vec) = (refs c)[e := False]" "slots (put_at_entry c s e k vec) = (slots c)[s := e + 1]"
  "used (put_at_entry c s e k vec) = used c" "hand (put_at_entry c s e k vec) = hand c"
  by (simp_all add: put_at_entry_def)

lemma put_at_entry_vectors:
  assumes "length (vectors c) = length (ckeys c) * width c" "e < length (ckeys c)" "e' < length (ckeys c)" "length vec = width c"
  shows "entry_vector (put_at_entry c s e k vec) e' = (if e' = e then vec else entry_vector c e')"
    and "length (vectors (put_at_entry c s e k vec)) = length (ckeys c) * width c"
proof -
  have le: "e * width c + width c \<le> length (vectors c)" using assms(1,2) mult_le_mono1 [of "Suc e" "length (ckeys c)" "width c"] by simp
  then have "length (entry_vector c e) = width c" by (simp add: entry_vector_def)
  then have copy: "go_copy (entry_vector c e) vec = vec" using assms(4) by (simp add: go_copy_def)
  show "entry_vector (put_at_entry c s e k vec) e' = (if e' = e then vec else entry_vector c e')"
    unfolding entry_vector_def [of "put_at_entry c s e k vec"] entry_vector_def [of c e'] put_at_entry_fields copy
    by (rule entry_block [OF assms])
  show "length (vectors (put_at_entry c s e k vec)) = length (ckeys c) * width c"
    unfolding put_at_entry_fields copy using le assms(1,4) by simp
qed

lemma put_at_entry_index:
  assumes "index_ok c E" "e \<notin> E" "e < length (ckeys c)" "Suc (card E) < length (slots c)" "\<And>e'. e' \<in> E \<Longrightarrow> ckeys c ! e' \<noteq> k"
    and "s < length (slots c)" "slots c ! s = 0" "\<forall>u < length (slots c). on_walk (length (slots c)) (home c k) u s \<longrightarrow> slots c ! u \<noteq> 0"
  shows "index_ok (put_at_entry c s e k vec) (insert e E)"
  by (rule index_store [OF assms]) (simp_all add: put_at_entry_def)

section \<open>Lookups and stores\<close>

lemma cache_get_ok:
  assumes "cache_ok c"
  shows "\<exists>c'. cache_get hs c ids dst = Some (c', case cache_map c (cache_key hs ids) of None \<Rightarrow> dst | Some v \<Rightarrow> go_copy dst v,
                cache_map c (cache_key hs ids) \<noteq> None)
      \<and> cache_ok c' \<and> cache_map c' = cache_map c \<and> width c' = width c"
proof -
  let ?c = "c\<lparr>lookups := lookups c + 1\<rparr>" and ?k = "cache_key hs ids"
  have ix: "index_ok c {..<used c}" using assms by (simp add: cache_ok_def)
  then have ix': "index_ok ?c {..<used c}" by (rule index_ok_cong) simp_all
  have map: "cache_map (c\<lparr>lookups := l, hits := h, refs := rf\<rparr>) = cache_map c" "cache_map (c\<lparr>lookups := l\<rparr>) = cache_map c" for l h rf
    by (simp_all add: cache_map_def entry_vector_def)
  have ok: "cache_ok (c\<lparr>lookups := l, hits := h, refs := rf\<rparr>)" "cache_ok (c\<lparr>lookups := l\<rparr>)" if "length rf = length (refs c)" for l h rf
    using assms that index_ok_cong [OF ix, of "c\<lparr>lookups := l, hits := h, refs := rf\<rparr>"] index_ok_cong [OF ix, of "c\<lparr>lookups := l\<rparr>"]
    by (simp_all add: cache_ok_def)
  show ?thesis
  proof (cases "cache_map c ?k")
    case None
    then have "\<And>e. e \<in> {..<used c} \<Longrightarrow> ckeys ?c ! e \<noteq> ?k" using cache_map_None [OF ix] by simp
    from cache_find_miss [OF ix' this] obtain t where "cache_find ?c ?k = Some (t, None)" by blast
    then show ?thesis using None map(2) ok(2) by (simp add: cache_get_def)
  next
    case (Some v)
    then obtain e where e: "e < used c" "ckeys c ! e = ?k" "entry_vector c e = v" using cache_map_Some [OF ix] by blast
    obtain t where "cache_find ?c ?k = Some (t, Some e)" using cache_find_hit [OF ix', of e ?k] e by auto
    moreover have "entry_vector ?c e = v" using e(3) by (simp add: entry_vector_def)
    ultimately show ?thesis using Some map(1) ok(1) by (simp add: cache_get_def)
  qed
qed

text \<open>The entry that a store fills becomes part of the map; the others stay.\<close>

lemma store_map:
  assumes ok: "length (vectors c) = length (ckeys c) * width c" "used c \<le> length (ckeys c)"
    and e: "e < used c" and vec: "length vec = width c"
    and ix': "index_ok (put_at_entry c s e k vec) {..<used c}"
  shows "cache_map (put_at_entry c s e k vec) j =
    (if j = k then Some vec else map_of (map (\<lambda>e. (ckeys c ! e, entry_vector c e)) (filter (\<lambda>x. x \<noteq> e) [0..<used c])) j)"
proof -
  let ?p = "put_at_entry c s e k vec" and ?ps = "map (\<lambda>e. (ckeys c ! e, entry_vector c e)) (filter (\<lambda>x. x \<noteq> e) [0..<used c])"
  have eN: "e < length (ckeys c)" using e ok(2) by simp
  have ev: "entry_vector ?p x = (if x = e then vec else entry_vector c x)" "ckeys ?p ! x = (if x = e then k else ckeys c ! x)" if "x < used c" for x
    using put_at_entry_vectors(1) [OF ok(1) eN _ vec] that ok(2) eN by (simp_all add: put_at_entry_fields)
  have look: "cache_map ?p i = Some v \<longleftrightarrow> (\<exists>x < used c. ckeys ?p ! x = i \<and> entry_vector ?p x = v)" for i v
    using cache_map_Some [of ?p i v] ix' by (simp add: put_at_entry_fields)
  show ?thesis
  proof (cases "j = k")
    case True
    then have "cache_map ?p j = Some vec" unfolding look using e ev by (intro exI [of _ e]) simp
    then show ?thesis using True by simp
  next
    case False
    have "inj_on (\<lambda>x. ckeys ?p ! x) {..<used c}" using ix' by (simp add: index_ok_def)
    then have "inj_on (\<lambda>x. ckeys c ! x) {x \<in> {..<used c}. x \<noteq> e}"
      using ev(2) by (auto simp: inj_on_def split: if_splits)
    then have "distinct (map fst ?ps)" by (simp add: distinct_map comp_def atLeast0LessThan)
    then have "map_of ?ps j = Some v \<longleftrightarrow> (\<exists>x < used c. x \<noteq> e \<and> ckeys c ! x = j \<and> entry_vector c x = v)" for v
      by (auto simp: map_of_eq_Some_iff)
    moreover have "cache_map ?p j = Some v \<longleftrightarrow> (\<exists>x < used c. x \<noteq> e \<and> ckeys c ! x = j \<and> entry_vector c x = v)" for v
    proof
      assume "cache_map ?p j = Some v"
      then obtain x where x: "x < used c" "ckeys ?p ! x = j" "entry_vector ?p x = v" unfolding look by blast
      then have "x \<noteq> e" using ev(2) [of x] False by auto
      then show "\<exists>x < used c. x \<noteq> e \<and> ckeys c ! x = j \<and> entry_vector c x = v" using x ev [of x] by auto
    next
      assume "\<exists>x < used c. x \<noteq> e \<and> ckeys c ! x = j \<and> entry_vector c x = v"
      then obtain x where "x < used c" "x \<noteq> e" "ckeys c ! x = j" "entry_vector c x = v" by blast
      then show "cache_map ?p j = Some v" unfolding look using ev [of x] by (intro exI [of _ x]) simp
    qed
    ultimately have "cache_map ?p j = map_of ?ps j" by (intro option_ext) blast
    then show ?thesis using False by simp
  qed
qed

lemma map_but_others:
  assumes "index_ok c {..<used c}" "e < used c"
  shows "map_of (map (\<lambda>e. (ckeys c ! e, entry_vector c e)) (filter (\<lambda>x. x \<noteq> e) [0..<used c])) = (cache_map c)(ckeys c ! e := None)"
proof
  fix j
  let ?ps = "map (\<lambda>e. (ckeys c ! e, entry_vector c e)) (filter (\<lambda>x. x \<noteq> e) [0..<used c])"
  have inj: "inj_on (\<lambda>x. ckeys c ! x) {..<used c}" using assms(1) by (simp add: index_ok_def)
  then have "inj_on (\<lambda>x. ckeys c ! x) {x \<in> {..<used c}. x \<noteq> e}" by (rule inj_on_subset) auto
  then have "distinct (map fst ?ps)" by (simp add: distinct_map comp_def atLeast0LessThan)
  then have a: "map_of ?ps j = Some v \<longleftrightarrow> (\<exists>x < used c. x \<noteq> e \<and> ckeys c ! x = j \<and> entry_vector c x = v)" for v
    by (auto simp: map_of_eq_Some_iff)
  have b: "cache_map c j = Some v \<longleftrightarrow> (\<exists>x < used c. ckeys c ! x = j \<and> entry_vector c x = v)" for v
    by (rule cache_map_Some [OF assms(1)])
  have "x = e" if "x < used c" "ckeys c ! x = ckeys c ! e" for x using inj that assms(2) by (auto simp: inj_on_def)
  then have "map_of ?ps j = Some v \<longleftrightarrow> ((cache_map c)(ckeys c ! e := None)) j = Some v" for v
    unfolding a using b [of v] by (cases "j = ckeys c ! e") auto
  then show "map_of ?ps j = ((cache_map c)(ckeys c ! e := None)) j" by (rule option_ext)
qed

text \<open>
  What a store does to the map: nothing for a known key; otherwise the new vector is added, and
  only a full cache drops one other key, one without a reference bit unless all have one.
\<close>

definition stored :: "'v embeddingCache \<Rightarrow> cacheKey \<Rightarrow> 'v list \<Rightarrow> 'v embeddingCache \<Rightarrow> bool" where
  "stored c k vec c' \<longleftrightarrow>
     (if cache_map c k \<noteq> None then c' = c
      else if used c < length (ckeys c) then cache_map c' = (cache_map c)(k \<mapsto> vec) \<and> used c' = Suc (used c)
      else \<exists>e < used c. (\<not> refs c ! e \<or> list_all id (refs c)) \<and> cache_map c' = (cache_map c)(ckeys c ! e := None, k \<mapsto> vec))"

lemma cache_put_free:
  assumes ok: "cache_ok c" and vec: "length vec = width c" and k: "k = cache_key hs ids"
    and None: "cache_map c k = None" and room: "used c < length (ckeys c)"
  shows "\<exists>c'. cache_put hs c ids vec = Some c' \<and> cache_ok c' \<and> width c' = width c \<and> stored c k vec c'"
proof -
  have ix: "index_ok c {..<used c}" and len: "0 < length (ckeys c)" "2 * length (ckeys c) \<le> length (slots c)"
    "length (vectors c) = length (ckeys c) * width c" using ok by (simp_all add: cache_ok_def)
  have new: "\<And>e. e \<in> {..<used c} \<Longrightarrow> ckeys c ! e \<noteq> k" using None cache_map_None [OF ix] by simp
  obtain s where s: "cache_find c k = Some (s, None)" "s < length (slots c)" "slots c ! s = 0"
    "\<forall>u < length (slots c). on_walk (length (slots c)) (home c k) u s \<longrightarrow> slots c ! u \<noteq> 0"
    using cache_find_miss [OF ix new] by blast
  let ?d = "c\<lparr>used := used c + 1\<rparr>"
  let ?p = "put_at_entry ?d s (used c) k vec"
  have ixd: "index_ok ?d {..<used c}" by (rule index_ok_cong [OF ix]) simp_all
  have "index_ok ?p (insert (used c) {..<used c})"
    by (rule put_at_entry_index [OF ixd]) (use room len new s in \<open>auto simp: home_def\<close>)
  then have ixp: "index_ok ?p {..<used ?d}" by (simp add: lessThan_Suc)
  have d: "length (vectors ?d) = length (ckeys ?d) * width ?d" "used ?d \<le> length (ckeys ?d)" "used c < used ?d" "length vec = width ?d"
    using len room vec by simp_all
  have fil: "filter (\<lambda>x. x \<noteq> used c) [0..<used ?d] = [0..<used c]" by simp
  have ev: "entry_vector ?d = entry_vector c" by (simp add: entry_vector_def fun_eq_iff)
  have "cache_map ?p j = ((cache_map c)(k \<mapsto> vec)) j" for j
    using store_map [OF d ixp, of j] unfolding fil ev by (simp add: cache_map_def)
  then have "cache_map ?p = (cache_map c)(k \<mapsto> vec)" by (rule ext)
  moreover have "cache_ok ?p"
    using ok ixp room put_at_entry_vectors(2) [OF d(1) _ _ d(4), of "used c" 0 s k] by (simp add: cache_ok_def put_at_entry_fields)
  moreover have "cache_put hs c ids vec = Some ?p" using s(1) room by (simp add: cache_put_def k Let_def)
  ultimately show ?thesis using None room by (auto simp: stored_def put_at_entry_fields)
qed

lemma cache_put_evict:
  assumes ok: "cache_ok c" and vec: "length vec = width c" and k: "k = cache_key hs ids"
    and None: "cache_map c k = None" and full: "\<not> used c < length (ckeys c)"
  shows "\<exists>c'. cache_put hs c ids vec = Some c' \<and> cache_ok c' \<and> width c' = width c \<and> stored c k vec c'"
proof -
  have ix: "index_ok c {..<used c}" and len: "0 < length (ckeys c)" "2 * length (ckeys c) \<le> length (slots c)" "used c = length (ckeys c)"
    "length (refs c) = length (ckeys c)" "hand c < length (ckeys c)" "length (vectors c) = length (ckeys c) * width c"
    using ok full by (auto simp: cache_ok_def)
  have new: "\<And>e. e \<in> {..<used c} \<Longrightarrow> ckeys c ! e \<noteq> k" using None cache_map_None [OF ix] by simp
  obtain s0 where s0: "cache_find c k = Some (s0, None)" using cache_find_miss [OF ix new] by blast
  obtain rf e where e: "clock_hand (Suc (length (refs c))) (refs c) (hand c) = Some (rf, e)" "e < used c" "length rf = length (ckeys c)"
    "\<not> refs c ! e \<or> (\<forall>i < length (ckeys c). refs c ! i)"
    using clock_hand_victim [of "refs c" "length (ckeys c)" "hand c"] len by auto
  let ?c1 = "c\<lparr>refs := rf, hand := (e + 1) mod length (ckeys c)\<rparr>"
  have ix1: "index_ok ?c1 {..<used c}" by (rule index_ok_cong [OF ix]) simp_all
  obtain sl where sl: "cache_remove ?c1 (ckeys c ! e) = Some (?c1\<lparr>slots := sl\<rparr>)" "length sl = length (slots c)"
    "index_ok (?c1\<lparr>slots := sl\<rparr>) ({..<used c} - {e})"
    using cache_remove_index [OF ix1, of e] e(2) by auto
  let ?c2 = "?c1\<lparr>slots := sl\<rparr>"
  have new2: "\<And>x. x \<in> {..<used c} - {e} \<Longrightarrow> ckeys ?c2 ! x \<noteq> k" using new by simp
  obtain s where s: "cache_find ?c2 k = Some (s, None)" "s < length (slots ?c2)" "slots ?c2 ! s = 0"
    "\<forall>u < length (slots ?c2). on_walk (length (slots ?c2)) (home ?c2 k) u s \<longrightarrow> slots ?c2 ! u \<noteq> 0"
    using cache_find_miss [OF sl(3) new2] by blast
  let ?p = "put_at_entry ?c2 s e k vec"
  have "Suc (card ({..<used c} - {e})) < length (slots ?c2)" using e(2) len sl(2) by simp
  then have "index_ok ?p (insert e ({..<used c} - {e}))"
    using e(2) len(3) by (intro put_at_entry_index [OF sl(3)] new2 s) auto
  moreover have "insert e ({..<used c} - {e}) = {..<used c}" using e(2) by auto
  ultimately have ixp: "index_ok ?p {..<used ?c2}" by simp
  have d: "length (vectors ?c2) = length (ckeys ?c2) * width ?c2" "used ?c2 \<le> length (ckeys ?c2)" "e < used ?c2" "length vec = width ?c2"
    using len e(2) vec by simp_all
  have ev: "entry_vector ?c2 = entry_vector c" by (simp add: entry_vector_def fun_eq_iff)
  have "cache_map ?p j = ((cache_map c)(ckeys c ! e := None, k \<mapsto> vec)) j" for j
    using store_map [OF d ixp, of j] map_but_others [OF ix e(2)] unfolding ev by simp
  then have "cache_map ?p = (cache_map c)(ckeys c ! e := None, k \<mapsto> vec)" by (rule ext)
  then have "stored c k vec ?p" using None full e(2,4) len(4) by (auto simp: stored_def list_all_length)
  moreover have "cache_ok ?p"
    using ok ixp e(2,3) len sl(2) put_at_entry_vectors(2) [OF d(1) _ _ d(4), of e 0 s k] by (simp add: cache_ok_def put_at_entry_fields)
  moreover have "cache_put hs c ids vec = Some ?p" using s0 full e(1) sl(1) s(1) by (simp add: cache_put_def k Let_def)
  ultimately show ?thesis by (auto simp: put_at_entry_fields)
qed

lemma cache_put_ok:
  assumes "cache_ok c" "length vec = width c"
  shows "\<exists>c'. cache_put hs c ids vec = Some c' \<and> cache_ok c' \<and> width c' = width c \<and> stored c (cache_key hs ids) vec c'"
proof (cases "cache_map c (cache_key hs ids)")
  case None
  then show ?thesis using cache_put_free [OF assms refl] cache_put_evict [OF assms refl] by blast
next
  case (Some v)
  have ix: "index_ok c {..<used c}" using assms(1) by (simp add: cache_ok_def)
  from Some cache_map_Some [OF ix] obtain e where "e < used c" "ckeys c ! e = cache_key hs ids" by blast
  then obtain t where "cache_find c (cache_key hs ids) = Some (t, Some e)" using cache_find_hit [OF ix] by blast
  then show ?thesis using Some assms(1) by (simp add: cache_put_def stored_def)
qed

lemma slot_count_power:
  assumes "0 < n" "n = 2 ^ a"
  shows "\<exists>b. slot_count entries n = 2 ^ b \<and> 2 * entries \<le> slot_count entries n"
  using assms
proof (induction entries n arbitrary: a rule: slot_count.induct)
  case (1 entries n)
  show ?case
  proof (cases "n < 2 * entries")
    case True
    then have "slot_count entries n = slot_count entries (2 * n)" using "1.prems" by (subst slot_count.simps) simp
    then show ?thesis using "1.IH" [of "Suc a"] "1.prems" True by simp
  next
    case False
    then have "slot_count entries n = n" by (subst slot_count.simps) simp
    then show ?thesis using "1.prems" False by auto
  qed
qed

lemma newEmbeddingCache_ok:
  assumes "newEmbeddingCache zero entries w = Some c"
  shows "cache_ok c" "cache_map c = Map.empty" "width c = w"
proof -
  have pos: "0 < nat entries" using assms by (auto simp: newEmbeddingCache_def split: if_splits)
  obtain b where b: "slot_count (nat entries) 1 = 2 ^ b" "2 * nat entries \<le> slot_count (nat entries) 1"
    using slot_count_power [of 1 0 "nat entries"] by auto
  show "cache_ok c" "cache_map c = Map.empty" "width c = w" using assms pos b
    by (auto simp: newEmbeddingCache_def Let_def cache_ok_def index_ok_def chains_but_def cache_map_def filter_mset_eq_conv split: if_splits)
qed

section \<open>Sequences of lookups and stores\<close>

datatype cache_op = Lookup "int list" | Store "int list"

text \<open>A run of the cache in front of a computation \<open>V\<close> that gives the vector of a token sequence.\<close>

fun cache_run :: "hashes \<Rightarrow> (int list \<Rightarrow> 'v list) \<Rightarrow> 'v list \<Rightarrow> 'v embeddingCache \<Rightarrow> cache_op list \<Rightarrow> 'v embeddingCache option" where
  "cache_run hs V dst c [] = Some c"
| "cache_run hs V dst c (Lookup ids # ops) = (case cache_get hs c ids dst of None \<Rightarrow> None | Some (c', _) \<Rightarrow> cache_run hs V dst c' ops)"
| "cache_run hs V dst c (Store ids # ops) = (case cache_put hs c ids (V ids) of None \<Rightarrow> None | Some c' \<Rightarrow> cache_run hs V dst c' ops)"

definition cache_true :: "hashes \<Rightarrow> (int list \<Rightarrow> 'v list) \<Rightarrow> 'v embeddingCache \<Rightarrow> bool" where
  "cache_true hs V c \<longleftrightarrow> (\<forall>k v. cache_map c k = Some v \<longrightarrow> (\<exists>ids. cache_key hs ids = k \<and> V ids = v))"

lemma stored_true:
  assumes "cache_true hs V c" "stored c (cache_key hs ids) (V ids) c'"
  shows "cache_true hs V c'"
  using assms unfolding cache_true_def stored_def by (auto split: if_splits)

lemma cache_run_ok:
  assumes "cache_ok c" "cache_true hs V c" "\<And>ids. length (V ids) = width c"
  shows "\<exists>c'. cache_run hs V dst c ops = Some c' \<and> cache_ok c' \<and> cache_true hs V c' \<and> width c' = width c"
  using assms
proof (induction ops arbitrary: c)
  case (Cons op ops)
  show ?case
  proof (cases op)
    case (Lookup ids)
    obtain c' r where c': "cache_get hs c ids dst = Some (c', r)" "cache_ok c'" "cache_map c' = cache_map c" "width c' = width c"
      using cache_get_ok [OF Cons.prems(1), of hs ids dst] by blast
    then have "cache_true hs V c'" using Cons.prems(2) by (simp add: cache_true_def)
    then show ?thesis using Cons.IH [of c'] Cons.prems(3) c' Lookup by simp
  next
    case (Store ids)
    obtain c' where c': "cache_put hs c ids (V ids) = Some c'" "cache_ok c'" "width c' = width c" "stored c (cache_key hs ids) (V ids) c'"
      using cache_put_ok [OF Cons.prems(1,3), of hs ids ids] by blast
    then show ?thesis using Cons.IH [of c'] Cons.prems(3) stored_true [OF Cons.prems(2) c'(4)] Store by simp
  qed
qed simp


text \<open>A cache for vectors of one number, the sum of the tokens, with the sum as its hash.\<close>

definition sum_hashes :: hashes where
  "sum_hashes = (\<lambda>ids. word_of_int (sum_list ids), \<lambda>ids. word_of_int (sum_list ids))"


text \<open>
  C30: a store always ends and keeps the cache well formed. A known key changes nothing; a
  new one is added, and when the cache is full exactly one entry makes room for it: one that was
  not looked up since the hand last passed it, unless all were.
\<close>

theorem cache_put_stored:
  assumes "cache_ok c" "length vec = width c"
  shows "\<exists>c'. cache_put hs c ids vec = Some c' \<and> cache_ok c' \<and> stored c (cache_key hs ids) vec c' \<and> cache_map c' (cache_key hs ids) \<noteq> None"
proof -
  obtain c' where c': "cache_put hs c ids vec = Some c'" "cache_ok c'" "stored c (cache_key hs ids) vec c'"
    using cache_put_ok [OF assms, of hs ids] by blast
  then have "cache_map c' (cache_key hs ids) \<noteq> None"
    by (auto simp: stored_def split: if_splits)
  with c' show ?thesis by blast
qed

theorem cache_put_stored_witness:
  "\<exists>c'. cache_put sum_hashes (the (newEmbeddingCache 0 2 1)) [5] [9 :: int] = Some c' \<and> cache_ok c'
     \<and> stored (the (newEmbeddingCache 0 2 1)) (cache_key sum_hashes [5]) [9] c'"
proof -
  have new: "newEmbeddingCache (0 :: int) 2 1 = Some (the (newEmbeddingCache 0 2 1))"
    by (simp add: newEmbeddingCache_def Let_def)
  show ?thesis using cache_put_stored [OF newEmbeddingCache_ok(1) [OF new], of "[9]" sum_hashes "[5]"] newEmbeddingCache_ok(3) [OF new]
    by auto
qed

end
