(* ===== verification/Transcript_Format.thy ===== *)
theory Transcript_Format
  imports Go_Utf8 Language
begin

text \<open>
  Writing transcripts: \<^verbatim>\<open>src/internal/transcriptformat\<close> (\<open>json.go\<close>, \<open>subtitles.go\<close>, \<open>verbose.go\<close>)
  on the transcript type of \<^verbatim>\<open>src/speech/speech.go\<close>. Seconds are floating-point numbers of an
  abstract type: rounding them to milliseconds and printing them with two or three decimals
  are parameters. A slice of the text out of range is \<open>None\<close>.
\<close>

section \<open>Model: transcripts\<close>

record 'f Segment =
  seg_Start :: 'f
  seg_End :: 'f
  seg_TextStart :: nat
  seg_TextEnd :: nat
  seg_WordStart :: nat
  seg_WordEnd :: nat

record 'f Word =
  word_Start :: 'f
  word_End :: 'f
  word_TextStart :: nat
  word_TextEnd :: nat
  word_Probability :: 'f

record 'f Prediction =
  pred_Probability :: 'f
  pred_Complete :: bool

record 'f Transcript =
  Text :: string
  Lang :: Language
  Segments :: "'f Segment list"
  Words :: "'f Word list"
  Turn :: "'f Prediction"

definition Transcript_Reset :: "'f \<Rightarrow> 'f Transcript \<Rightarrow> 'f Transcript" where
  "Transcript_Reset zero t =
     t\<lparr>Text := [], Lang := Unknown, Segments := [], Words := [], Turn := \<lparr>pred_Probability = zero, pred_Complete = False\<rparr>\<rparr>"

section \<open>Model: JSON strings\<close>

definition hex :: "nat \<Rightarrow> char" where
  "hex d = (if d < 10 then char_of (48 + d) else char_of (87 + d))"

text \<open>The loop of \<open>AppendJSONString\<close>: what is written for the rest of the source.\<close>

function json_escape :: "string \<Rightarrow> string" where
  "json_escape src =
     (case src of
        [] \<Rightarrow> []
      | b # rest \<Rightarrow>
          if b = CHR 0x22 \<or> b = CHR 0x5C then CHR 0x5C # b # json_escape rest
          else if b = CHR 0x08 then CHR 0x5C # CHR ''b'' # json_escape rest
          else if b = CHR 0x0C then CHR 0x5C # CHR ''f'' # json_escape rest
          else if b = CHR 0x0A then CHR 0x5C # CHR ''n'' # json_escape rest
          else if b = CHR 0x0D then CHR 0x5C # CHR ''r'' # json_escape rest
          else if b = CHR 0x09 then CHR 0x5C # CHR ''t'' # json_escape rest
          else if bv b < 0x20 then [CHR 0x5C, CHR ''u'', CHR ''0'', CHR ''0'', hex (bv b div 16), hex (bv b mod 16)] @ json_escape rest
          else if bv b < RuneSelf then b # json_escape rest
          else let (r, n) = DecodeRune src in
               if r = RuneError \<and> n = 1 then [CHR 0xEF, CHR 0xBF, CHR 0xBD] @ json_escape rest
               else (if r = 0x2028 \<or> r = 0x2029 then [CHR 0x5C, CHR ''u'', CHR ''2'', CHR ''0'', CHR ''2'', hex (r mod 16)] else take n src)
                    @ json_escape (drop n src))"
  by pat_completeness auto
termination
proof (relation "measure length", goal_cases)
  case (11 src b rest x r n)
  then have "1 \<le> n" using DecodeRune_size_pos [of "b # rest"] by (metis list.distinct(1) snd_conv)
  then show ?case using 11 by simp
qed simp_all

declare json_escape.simps [simp del]

definition AppendJSONString :: "string \<Rightarrow> string \<Rightarrow> string" where
  "AppendJSONString dst src = dst @ [CHR 0x22] @ json_escape src @ [CHR 0x22]"

section \<open>Model: subtitles\<close>

definition appendPadded :: "string \<Rightarrow> nat \<Rightarrow> nat \<Rightarrow> string" where
  "appendPadded dst v w = (let digits = show_nat v in dst @ replicate (w - length digits) (CHR ''0'') @ digits)"

text \<open>\<open>millis_of\<close> is \<open>int64(math.Round(seconds * 1000))\<close>.\<close>

definition appendSubtitleTime :: "('f \<Rightarrow> int) \<Rightarrow> string \<Rightarrow> 'f \<Rightarrow> bool \<Rightarrow> string" where
  "appendSubtitleTime millis_of dst seconds vtt =
     (let millis = (if millis_of seconds < 0 then 0 else nat (millis_of seconds));
          dst = appendPadded dst (millis div 3600000) 2 @ '':'';
          dst = appendPadded dst (millis div 60000 mod 60) 2 @ '':'';
          dst = appendPadded dst (millis div 1000 mod 60) 2 @ (if vtt then ''.'' else '','')
      in appendPadded dst (millis mod 1000) 3)"

fun subtitle_loop :: "('f \<Rightarrow> int) \<Rightarrow> string \<Rightarrow> bool \<Rightarrow> nat \<Rightarrow> 'f Segment list \<Rightarrow> string \<Rightarrow> string option" where
  "subtitle_loop millis_of txt vtt i [] dst = Some dst"
| "subtitle_loop millis_of txt vtt i (seg # segs) dst =
     (let dst = (if vtt then dst else dst @ show_nat (i + 1) @ [CHR 0x0A]);
          dst = appendSubtitleTime millis_of dst (seg_Start seg) vtt @ '' --> '';
          dst = appendSubtitleTime millis_of dst (seg_End seg) vtt @ [CHR 0x0A]
      in case go_slice txt (seg_TextStart seg) (seg_TextEnd seg) of
           None \<Rightarrow> None
         | Some s \<Rightarrow> subtitle_loop millis_of txt vtt (i + 1) segs (dst @ TrimSpace s @ [CHR 0x0A, CHR 0x0A]))"

definition AppendSubtitles :: "('f \<Rightarrow> int) \<Rightarrow> string \<Rightarrow> 'f Transcript \<Rightarrow> bool \<Rightarrow> string option" where
  "AppendSubtitles millis_of dst t vtt =
     subtitle_loop millis_of (Text t) vtt 0 (Segments t) (if vtt then dst @ ''WEBVTT'' @ [CHR 0x0A, CHR 0x0A] else dst)"

section \<open>Model: verbose JSON\<close>

text \<open>
  \<open>AppendFloat x n\<close> prints \<open>x\<close> with \<open>n\<close> decimals; \<open>duration\<close> is the quotient \<open>samples / 16000\<close>.
  The names of the object's members are as in the source, quotes included.
\<close>

fun verbose_segments :: \<open>('f \<Rightarrow> nat \<Rightarrow> string) \<Rightarrow> string \<Rightarrow> nat \<Rightarrow> 'f Segment list \<Rightarrow> string \<Rightarrow> string option\<close> where
  \<open>verbose_segments AppendFloat txt i [] dst = Some dst\<close>
| \<open>verbose_segments AppendFloat txt i (seg # segs) dst =
     (let dst = (if i \<noteq> 0 then dst @ '','' else dst);
          dst = dst @ ''{"id":'' @ show_nat i;
          dst = dst @ '',"start":'' @ AppendFloat (seg_Start seg) 2;
          dst = dst @ '',"end":'' @ AppendFloat (seg_End seg) 2;
          dst = dst @ '',"text":''
      in case go_slice txt (seg_TextStart seg) (seg_TextEnd seg) of
           None \<Rightarrow> None
         | Some s \<Rightarrow> verbose_segments AppendFloat txt (i + 1) segs (AppendJSONString dst s @ ''}''))\<close>

fun verbose_words :: \<open>('f \<Rightarrow> nat \<Rightarrow> string) \<Rightarrow> string \<Rightarrow> nat \<Rightarrow> 'f Word list \<Rightarrow> string \<Rightarrow> string option\<close> where
  \<open>verbose_words AppendFloat txt i [] dst = Some dst\<close>
| \<open>verbose_words AppendFloat txt i (w # ws) dst =
     (let dst = (if i \<noteq> 0 then dst @ '','' else dst);
          dst = dst @ ''{"word":''
      in case go_slice txt (word_TextStart w) (word_TextEnd w) of
           None \<Rightarrow> None
         | Some s \<Rightarrow>
             let dst = AppendJSONString dst s;
                 dst = dst @ '',"start":'' @ AppendFloat (word_Start w) 2;
                 dst = dst @ '',"end":'' @ AppendFloat (word_End w) 2
             in verbose_words AppendFloat txt (i + 1) ws (dst @ ''}''))\<close>

definition AppendVerboseJSON :: \<open>('f \<Rightarrow> nat \<Rightarrow> string) \<Rightarrow> (int \<Rightarrow> 'f) \<Rightarrow> string \<Rightarrow> 'f Transcript \<Rightarrow> bool \<Rightarrow> int \<Rightarrow> string option\<close> where
  \<open>AppendVerboseJSON AppendFloat duration dst t includeWords samples =
     (let dst = dst @ ''{"task":"transcribe","language":"'' @ map lower_byte (Language_Name (Lang t));
          dst = dst @ ''","duration":'' @ AppendFloat (duration samples) 3;
          dst = AppendJSONString (dst @ '',"text":'') (TrimSpace (Text t))
      in case verbose_segments AppendFloat (Text t) 0 (Segments t) (dst @ '',"segments":['') of
           None \<Rightarrow> None
         | Some dst \<Rightarrow>
             if includeWords then
               (case verbose_words AppendFloat (Text t) 0 (Words t) (dst @ '']'' @ '',"words":['') of
                  None \<Rightarrow> None
                | Some dst \<Rightarrow> Some (dst @ '']'' @ ''}'' @ [CHR 0x0A]))
             else Some (dst @ '']'' @ ''}'' @ [CHR 0x0A]))\<close>

end
