(* ===== verification/Transcript_Json.thy ===== *)
theory Transcript_Json
  imports Transcript_Format
begin

text \<open>
  What the writers of \<open>Transcript_Format\<close> produce: JSON strings that read back as the text, with
  every ill-formed byte replaced; JSON objects; and subtitle times that read back as milliseconds.
\<close>

section \<open>A reader of JSON strings\<close>

definition unhex :: "char \<Rightarrow> nat option" where
  "unhex c = (if 48 \<le> bv c \<and> bv c \<le> 57 then Some (bv c - 48)
     else if 97 \<le> bv c \<and> bv c \<le> 102 then Some (bv c - 87)
     else if 65 \<le> bv c \<and> bv c \<le> 70 then Some (bv c - 55) else None)"

definition unescape :: "char \<Rightarrow> char option" where
  "unescape e = (if e = CHR 0x22 \<or> e = CHR 0x5C \<or> e = CHR ''/'' then Some e
     else if e = CHR ''b'' then Some (CHR 0x08) else if e = CHR ''f'' then Some (CHR 0x0C)
     else if e = CHR ''n'' then Some (CHR 0x0A) else if e = CHR ''r'' then Some (CHR 0x0D)
     else if e = CHR ''t'' then Some (CHR 0x09) else None)"

text \<open>
  Read the rest of a JSON string, behind its opening quote: the text and what follows the closing
  quote. Escaped surrogates, which the writer never makes, are not read.
\<close>

fun json_read :: "string \<Rightarrow> (string \<times> string) option" where
  "json_read [] = None"
| "json_read (c # s) =
     (if c = CHR 0x22 then Some ([], s)
      else if c = CHR 0x5C then
        (case s of
           [] \<Rightarrow> None
         | e # s1 \<Rightarrow>
             (case unescape e of
                Some d \<Rightarrow> map_option (\<lambda>(t, r). (d # t, r)) (json_read s1)
              | None \<Rightarrow>
                  (case s1 of
                     a1 # a2 # a3 # a4 # s2 \<Rightarrow>
                       (case (unhex a1, unhex a2, unhex a3, unhex a4) of
                          (Some d1, Some d2, Some d3, Some d4) \<Rightarrow>
                            let v = ((d1 * 16 + d2) * 16 + d3) * 16 + d4 in
                            if e \<noteq> CHR ''u'' \<or> 0xD800 \<le> v \<and> v \<le> 0xDFFF then None
                            else map_option (\<lambda>(t, r). (AppendRune v @ t, r)) (json_read s2)
                        | _ \<Rightarrow> None)
                   | _ \<Rightarrow> None)))
      else if bv c < 0x20 then None
      else map_option (\<lambda>(t, r). (c # t, r)) (json_read s))"

text \<open>The text with every ill-formed byte replaced by U+FFFD.\<close>

function to_valid :: "string \<Rightarrow> string" where
  "to_valid s =
     (if s = [] then []
      else if decode_bad s then [CHR 0xEF, CHR 0xBF, CHR 0xBD] @ to_valid (tl s)
      else take (snd (DecodeRune s)) s @ to_valid (drop (snd (DecodeRune s)) s))"
  by pat_completeness auto
termination
proof (relation "measure length", goal_cases)
  case (3 s)
  then show ?case using DecodeRune_size_pos [of s] by auto
qed simp_all

declare to_valid.simps [simp del]

lemma to_valid_id: "utf8_Valid s \<Longrightarrow> to_valid s = s"
proof (induction s rule: to_valid.induct)
  case (1 s)
  show ?case
  proof (cases "s = []")
    case False
    then have "\<not> decode_bad s" "utf8_Valid (drop (snd (DecodeRune s)) s)"
      using "1.prems" by (auto simp: utf8_Valid.simps [of s] split: if_splits)
    then show ?thesis using "1.IH"(2) False by (simp add: to_valid.simps [of s])
  qed (simp add: to_valid.simps)
qed

section \<open>The round trip of a string\<close>

lemma unhex_hex: "d < 16 \<Longrightarrow> unhex (hex d) = Some d"
  by (auto simp: unhex_def hex_def)

text \<open>A byte that needs no escape is read as it is.\<close>

lemma json_read_plain: "128 \<le> bv c \<Longrightarrow> json_read (c # s) = map_option (\<lambda>(t, r). (c # t, r)) (json_read s)"
  by auto

lemma json_read_plains: "list_all (\<lambda>c. 128 \<le> bv c) cs \<Longrightarrow> json_read (cs @ s) = map_option (\<lambda>(t, r). (cs @ t, r)) (json_read s)"
  by (induction cs) (simp_all add: json_read_plain option.map_comp comp_def case_prod_unfold option.map_ident del: json_read.simps)

lemma rune_bytes_high:
  assumes "\<not> decode_bad s" "s \<noteq> []" "128 \<le> bv (hd s)"
  shows "list_all (\<lambda>c. 128 \<le> bv c) (take (snd (DecodeRune s)) s)"
  using assms
proof (cases rule: DecodeRune_good)
  case (w2 c0 c1 r lo hi)
  then show ?thesis using assms(3) by (auto simp: DecodeRune_def lead_info_def split: if_splits)
next
  case (w3 c0 c1 c2 r lo hi)
  then show ?thesis using assms(3) by (auto simp: DecodeRune_def lead_info_def is_cont_def split: if_splits)
next
  case (w4 c0 c1 c2 c3 r lo hi)
  then show ?thesis using assms(3) by (auto simp: DecodeRune_def lead_info_def is_cont_def split: if_splits)
qed (simp add: RuneSelf_def)

lemma json_read_u:
  assumes "d1 < 16" "d2 < 16" "d3 < 16" "d4 < 16" "v = ((d1 * 16 + d2) * 16 + d3) * 16 + d4" "v < 0xD800"
  shows "json_read ([CHR 0x5C, CHR ''u'', hex d1, hex d2, hex d3, hex d4] @ s) = map_option (\<lambda>(t, r). (AppendRune v @ t, r)) (json_read s)"
  using assms by (simp add: unescape_def unhex_hex)

lemma hex_digits: "CHR ''0'' = hex 0" "CHR ''2'' = hex 2"
  by code_simp+

text \<open>What one turn of the loop writes reads back as what it consumed.\<close>

lemma json_escape_control:
  assumes "bv b < 0x20"
  shows "json_read ([CHR 0x5C, CHR ''u'', CHR ''0'', CHR ''0'', hex (bv b div 16), hex (bv b mod 16)] @ s)
         = map_option (\<lambda>(t, r). (b # t, r)) (json_read s)"
proof -
  have "bv b div 16 < 16" "bv b mod 16 < 16" using assms by simp_all
  from json_read_u [of 0 0, OF _ _ this, of "bv b"] assms show ?thesis unfolding hex_digits by (simp add: AppendRune_def)
qed

lemma json_escape_ascii:
  assumes "bv b < 128"
  shows "json_read (json_escape (b # s) @ t) = map_option (\<lambda>(u, r). (b # u, r)) (json_read (json_escape s @ t))"
proof -
  let ?named = "{CHR 0x22, CHR 0x5C, CHR 0x08, CHR 0x0C, CHR 0x0A, CHR 0x0D, CHR 0x09}"
  consider "b \<in> ?named" | "b \<notin> ?named" "bv b < 0x20" | "b \<notin> ?named" "\<not> bv b < 0x20" by blast
  then show ?thesis
  proof cases
    case 1
    then show ?thesis by (auto simp: json_escape.simps [of "b # s"] unescape_def)
  next
    case 2
    then have "json_escape (b # s) = [CHR 0x5C, CHR ''u'', CHR ''0'', CHR ''0'', hex (bv b div 16), hex (bv b mod 16)] @ json_escape s"
      by (simp add: json_escape.simps [of "b # s"])
    then show ?thesis using json_escape_control [OF 2(2)] by simp
  next
    case 3
    then show ?thesis using assms by (simp add: json_escape.simps [of "b # s"] RuneSelf_def)
  qed
qed

lemma json_escape_high:
  assumes "128 \<le> bv b"
  shows "json_escape (b # s) =
    (let (r, n) = DecodeRune (b # s) in
     if decode_bad (b # s) then [CHR 0xEF, CHR 0xBF, CHR 0xBD] @ json_escape s
     else (if r = 0x2028 \<or> r = 0x2029 then [CHR 0x5C, CHR ''u'', CHR ''2'', CHR ''0'', CHR ''2'', hex (r mod 16)] else take n (b # s))
          @ json_escape (drop n (b # s)))"
proof -
  have "b \<notin> {CHR 0x22, CHR 0x5C, CHR 0x08, CHR 0x0C, CHR 0x0A, CHR 0x0D, CHR 0x09}" "\<not> bv b < 0x20" "\<not> bv b < RuneSelf"
    using assms by (auto simp: RuneSelf_def)
  then show ?thesis by (simp add: json_escape.simps [of "b # s"] decode_bad_def split: prod.split)
qed

lemma json_escape_read: "json_read (json_escape src @ CHR 0x22 # rest) = Some (to_valid src, rest)"
proof (induction "length src" arbitrary: src rule: less_induct)
  case less
  show ?case
  proof (cases src)
    case Nil
    then show ?thesis by (simp add: json_escape.simps to_valid.simps)
  next
    case (Cons b s)
    have IH: "length u < length src \<Longrightarrow> json_read (json_escape u @ CHR 0x22 # rest) = Some (to_valid u, rest)" for u
      by (rule less)
    show ?thesis
    proof (cases "bv b < 128")
      case True
      then have "to_valid src = b # to_valid s"
        using Cons by (subst to_valid.simps) (simp add: decode_bad_def DecodeRune_def RuneSelf_def RuneError_def)
      then show ?thesis using json_escape_ascii [OF True] IH [of s] Cons by simp
    next
      case False
      obtain r n where d: "DecodeRune src = (r, n)" by (cases "DecodeRune src")
      have n: "1 \<le> n" using DecodeRune_size_pos [of src] Cons d by simp
      have esc: "json_escape src = (if decode_bad src then [CHR 0xEF, CHR 0xBF, CHR 0xBD] @ json_escape s
         else (if r = 0x2028 \<or> r = 0x2029 then [CHR 0x5C, CHR ''u'', CHR ''2'', CHR ''0'', CHR ''2'', hex (r mod 16)] else take n src)
          @ json_escape (drop n src))"
        using json_escape_high [of b s] False Cons d by simp
      show ?thesis
      proof (cases "decode_bad src")
        case True
        then have "to_valid src = [CHR 0xEF, CHR 0xBF, CHR 0xBD] @ to_valid s" using Cons by (subst to_valid.simps) simp
        then show ?thesis using True esc IH [of s] Cons by simp
      next
        case good: False
        have v: "to_valid src = take n src @ to_valid (drop n src)" using good Cons d by (subst to_valid.simps) simp
        have IH': "json_read (json_escape (drop n src) @ CHR 0x22 # rest) = Some (to_valid (drop n src), rest)"
          by (rule IH) (use n Cons in simp)
        show ?thesis
        proof (cases "r = 0x2028 \<or> r = 0x2029")
          case True
          have "AppendRune r = take n src" using AppendRune_DecodeRune [OF good] Cons d by simp
          moreover have "r = ((2 * 16 + 0) * 16 + 2) * 16 + r mod 16" using True by auto
          then have "json_read ([CHR 0x5C, CHR ''u'', hex 2, hex 0, hex 2, hex (r mod 16)] @ json_escape (drop n src) @ CHR 0x22 # rest)
              = map_option (\<lambda>(t, u). (AppendRune r @ t, u)) (json_read (json_escape (drop n src) @ CHR 0x22 # rest))"
            using True by (intro json_read_u) auto
          ultimately show ?thesis using True esc good IH' v unfolding hex_digits by simp
        next
          case plain: False
          have "list_all (\<lambda>c. 128 \<le> bv c) (take n src)" using rune_bytes_high [OF good] False Cons d by simp
          then show ?thesis using plain esc good IH' v json_read_plains [of "take n src" "json_escape (drop n src) @ CHR 0x22 # rest"]
            by simp
        qed
      qed
    qed
  qed
qed

text \<open>
  C40: \<open>AppendJSONString\<close> writes an RFC 8259 string: reading it gives back the text, with each
  ill-formed byte replaced by U+FFFD, and well-formed text exactly; what follows is untouched.
\<close>

theorem AppendJSONString_roundtrip:
  "\<exists>lit. AppendJSONString dst src = dst @ CHR 0x22 # lit \<and> json_read (lit @ rest) = Some (to_valid src, rest)
     \<and> (if utf8_Valid src then to_valid src = src else True)"
  using json_escape_read [of src rest] to_valid_id [of src] by (simp add: AppendJSONString_def)

section \<open>Subtitle times\<close>

definition padded :: "nat \<Rightarrow> nat \<Rightarrow> string" where
  "padded v w = replicate (w - length (show_nat v)) (CHR ''0'') @ show_nat v"

lemma appendPadded_eq: "appendPadded dst v w = dst @ padded v w"
  by (simp add: appendPadded_def padded_def Let_def)

lemma length_show_nat: "n < 10 ^ Suc k \<Longrightarrow> length (show_nat n) \<le> Suc k"
proof (induction k arbitrary: n)
  case 0
  then show ?case by (simp add: show_nat.simps)
next
  case (Suc k)
  have "n div 10 < 10 ^ Suc k" using Suc.prems by (simp add: less_mult_imp_div_less mult.commute)
  then show ?case using Suc.IH [of "n div 10"] by (subst show_nat.simps) simp
qed

lemma length_padded: "v < 10 ^ Suc k \<Longrightarrow> length (padded v (Suc k)) = Suc k"
  using length_show_nat [of v k] by (simp add: padded_def)

lemma length_padded_ge: "w \<le> length (padded v w)"
  by (simp add: padded_def)

lemma read_padded: "read_nat_acc 0 (padded v w) = v"
proof -
  have "read_nat_acc 0 (replicate k (CHR ''0'') @ s) = read_nat_acc 0 s" for k s by (induction k) simp_all
  then show ?thesis by (simp add: padded_def read_show_nat)
qed

lemma padded_widths: "v < 100 \<Longrightarrow> length (padded v 2) = 2" "v < 1000 \<Longrightarrow> length (padded v 3) = 3"
  using length_padded [of v "Suc 0"] length_padded [of v "Suc (Suc 0)"] by (simp_all add: numeral_2_eq_2 numeral_3_eq_3)

text \<open>
  A subtitle time has the form \<open>hours:mm:ss,mmm\<close> (a dot in WebVTT) with at least two
  digits of hours, two of minutes and seconds below sixty and three of milliseconds, and these
  add up to the milliseconds rounded from the seconds, or to zero when they are negative.
\<close>

theorem appendSubtitleTime_reads:
  "\<exists>h m s f. appendSubtitleTime millis_of dst x vtt = dst @ h @ '':'' @ m @ '':'' @ s @ (if vtt then ''.'' else '','') @ f
     \<and> 2 \<le> length h \<and> length m = 2 \<and> length s = 2 \<and> length f = 3
     \<and> read_nat_acc 0 m < 60 \<and> read_nat_acc 0 s < 60
     \<and> int (((read_nat_acc 0 h * 60 + read_nat_acc 0 m) * 60 + read_nat_acc 0 s) * 1000 + read_nat_acc 0 f) = max 0 (millis_of x)"
proof -
  define n where "n = nat (max 0 (millis_of x))"
  have n: "(if millis_of x < 0 then 0 else nat (millis_of x)) = n" by (simp add: n_def)
  define h m s f where "h = n div 3600000" and "m = n div 60000 mod 60" and "s = n div 1000 mod 60" and "f = n mod 1000"
  note defs = this
  have eq: "appendSubtitleTime millis_of dst x vtt
      = dst @ padded h 2 @ '':'' @ padded m 2 @ '':'' @ padded s 2 @ (if vtt then ''.'' else '','') @ padded f 3"
    unfolding appendSubtitleTime_def Let_def n appendPadded_eq defs by simp
  have lt: "m < 60" "s < 60" "f < 1000" by (simp_all add: defs)
  then have len: "length (padded m 2) = 2" "length (padded s 2) = 2" "length (padded f 3) = 3"
    using padded_widths by simp_all
  have "n div 3600000 = n div 60000 div 60" "n div 60000 = n div 1000 div 60" by (simp_all add: div_mult2_eq [symmetric])
  then have "h * 60 + m = n div 1000 div 60" unfolding defs by (simp only: div_mult_mod_eq)
  then have "((h * 60 + m) * 60 + s) * 1000 + f = n" unfolding defs(3,4) by (simp only: div_mult_mod_eq)
  then have "int (((h * 60 + m) * 60 + s) * 1000 + f) = int n" by (rule arg_cong)
  also have "int n = max 0 (millis_of x)" by (simp add: n_def)
  finally show ?thesis using eq len lt length_padded_ge [of 2 h]
    by (intro exI [of _ "padded h 2"] exI [of _ "padded m 2"] exI [of _ "padded s 2"] exI [of _ "padded f 3"])
      (simp only: read_padded simp_thms)
qed

section \<open>JSON texts\<close>

definition is_json_string :: "string \<Rightarrow> bool" where
  "is_json_string s \<longleftrightarrow> (case s of c # t \<Rightarrow> c = CHR 0x22 \<and> (case json_read t of Some (_, []) \<Rightarrow> True | _ \<Rightarrow> False) | [] \<Rightarrow> False)"

definition is_digit :: "char \<Rightarrow> bool" where
  "is_digit c \<longleftrightarrow> 48 \<le> bv c \<and> bv c \<le> 57"

text \<open>The numbers that the writer makes: an optional sign, an integer part without leading zeros, optional decimals.\<close>

definition is_json_number :: "string \<Rightarrow> bool" where
  "is_json_number s \<longleftrightarrow> (\<exists>sg i f. s = sg @ i @ f \<and> (sg = [] \<or> sg = ''-'') \<and> i \<noteq> [] \<and> list_all is_digit i
     \<and> (i = ''0'' \<or> hd i \<noteq> CHR ''0'') \<and> (f = [] \<or> hd f = CHR ''.'' \<and> tl f \<noteq> [] \<and> list_all is_digit (tl f)))"

fun commas :: "string list \<Rightarrow> string" where
  "commas [] = []"
| "commas [x] = x"
| "commas (x # y # xs) = x @ '','' @ commas (y # xs)"

inductive json :: "string \<Rightarrow> bool" where
  json_str: "is_json_string s \<Longrightarrow> json s"
| json_num: "is_json_number s \<Longrightarrow> json s"
| json_arr: "(\<forall>x \<in> set xs. json x) \<Longrightarrow> json (''['' @ commas xs @ '']'')"
| json_obj: "(\<forall>(k, v) \<in> set kvs. is_json_string k \<and> json v) \<Longrightarrow> json (''{'' @ commas (map (\<lambda>(k, v). k @ '':'' @ v) kvs) @ ''}'')"

lemma json_AppendJSONString: "is_json_string (AppendJSONString [] s)"
  using json_escape_read [of s "[]"] by (simp add: is_json_string_def AppendJSONString_def)

lemma AppendJSONString_dst: "AppendJSONString dst s = dst @ AppendJSONString [] s"
  by (simp add: AppendJSONString_def)

lemma show_nat_hd: "0 < n \<Longrightarrow> hd (show_nat n) \<noteq> CHR ''0''"
proof (induction n rule: show_nat.induct)
  case (1 n)
  show ?case
  proof (cases "n < 10")
    case True
    have "digit_char n \<noteq> CHR ''0''"
    proof
      assume "digit_char n = CHR ''0''"
      then have "bv (digit_char n) = bv (CHR ''0'')" by simp
      then show False using of_digit_char [OF True] "1.prems" by simp
    qed
    then show ?thesis using True by (subst show_nat.simps) simp
  next
    case False
    have "show_nat (n div 10) \<noteq> []" by (subst show_nat.simps) simp
    then show ?thesis using "1.IH" False by (subst show_nat.simps) simp
  qed
qed

lemma show_nat_number: "is_json_number (show_nat n)"
proof -
  have "list_all is_digit (show_nat n)"
    using show_nat_digits [of n] by (auto simp: list_all_iff is_digit_def of_digit_char dest!: bspec)
  moreover have "show_nat n \<noteq> []" by (subst show_nat.simps) simp
  moreover have "show_nat n = ''0'' \<or> hd (show_nat n) \<noteq> CHR ''0''"
  proof (cases n)
    case 0
    have "show_nat 0 = ''0''" by code_simp
    then show ?thesis using 0 by simp
  qed (use show_nat_hd [of n] in simp)
  ultimately show ?thesis unfolding is_json_number_def by (intro exI [of _ "[]"] exI [of _ "show_nat n"]) simp
qed

section \<open>The verbose object\<close>

text \<open>The objects of the arrays, as the loops write them.\<close>

definition segment_object :: \<open>('f \<Rightarrow> nat \<Rightarrow> string) \<Rightarrow> nat \<Rightarrow> 'f Segment \<Rightarrow> string \<Rightarrow> (string \<times> string) list\<close> where
  \<open>segment_object AppendFloat i seg s =
     [(''"id"'', show_nat i), (''"start"'', AppendFloat (seg_Start seg) 2), (''"end"'', AppendFloat (seg_End seg) 2),
      (''"text"'', AppendJSONString [] s)]\<close>

definition word_object :: \<open>('f \<Rightarrow> nat \<Rightarrow> string) \<Rightarrow> 'f Word \<Rightarrow> string \<Rightarrow> (string \<times> string) list\<close> where
  \<open>word_object AppendFloat w s =
     [(''"word"'', AppendJSONString [] s), (''"start"'', AppendFloat (word_Start w) 2), (''"end"'', AppendFloat (word_End w) 2)]\<close>

definition object_text :: "(string \<times> string) list \<Rightarrow> string" where
  "object_text kvs = ''{'' @ commas (map (\<lambda>(k, v). k @ '':'' @ v) kvs) @ ''}''"

lemma json_object_text: "(\<forall>(k, v) \<in> set kvs. is_json_string k \<and> json v) \<Longrightarrow> json (object_text kvs)"
  unfolding object_text_def by (rule json_obj)

text \<open>The elements behind the first one, each with its comma.\<close>

lemma commas_Cons: "commas (x # xs) = x @ concat (map (\<lambda>y. CHR '','' # y) xs)"
  by (induction xs arbitrary: x) simp_all

fun segment_texts :: "('f \<Rightarrow> nat \<Rightarrow> string) \<Rightarrow> string \<Rightarrow> nat \<Rightarrow> 'f Segment list \<Rightarrow> string list option" where
  "segment_texts AppendFloat txt i [] = Some []"
| "segment_texts AppendFloat txt i (seg # segs) =
     (case go_slice txt (seg_TextStart seg) (seg_TextEnd seg) of
        None \<Rightarrow> None
      | Some s \<Rightarrow> map_option (Cons (object_text (segment_object AppendFloat i seg s))) (segment_texts AppendFloat txt (i + 1) segs))"

fun word_texts :: "('f \<Rightarrow> nat \<Rightarrow> string) \<Rightarrow> string \<Rightarrow> 'f Word list \<Rightarrow> string list option" where
  "word_texts AppendFloat txt [] = Some []"
| "word_texts AppendFloat txt (w # ws) =
     (case go_slice txt (word_TextStart w) (word_TextEnd w) of
        None \<Rightarrow> None
      | Some s \<Rightarrow> map_option (Cons (object_text (word_object AppendFloat w s))) (word_texts AppendFloat txt ws))"

lemma verbose_segments_texts:
  "verbose_segments AF txt i segs dst =
   map_option (\<lambda>xs. dst @ (if i = 0 then commas xs else concat (map (\<lambda>y. CHR '','' # y) xs))) (segment_texts AF txt i segs)"
proof (induction segs arbitrary: i dst)
  case (Cons seg segs)
  show ?case
  proof (cases "go_slice txt (seg_TextStart seg) (seg_TextEnd seg)")
    case None
    then show ?thesis by (simp add: Let_def)
  next
    case (Some s)
    then show ?thesis
      by (simp add: Let_def Cons.IH AppendJSONString_dst [of "_ @ _"] option.map_comp comp_def commas_Cons object_text_def segment_object_def)
  qed
qed simp

lemma verbose_words_texts:
  "verbose_words AF txt i ws dst =
   map_option (\<lambda>xs. dst @ (if i = 0 then commas xs else concat (map (\<lambda>y. CHR '','' # y) xs))) (word_texts AF txt ws)"
proof (induction ws arbitrary: i dst)
  case (Cons w ws)
  show ?case
  proof (cases "go_slice txt (word_TextStart w) (word_TextEnd w)")
    case None
    then show ?thesis by (simp add: Let_def)
  next
    case (Some s)
    then show ?thesis
      by (simp add: Let_def Cons.IH AppendJSONString_dst [of "_ @ _"] option.map_comp comp_def commas_Cons object_text_def word_object_def)
  qed
qed simp

lemma plain_json_string:
  "list_all (\<lambda>c. 0x20 \<le> bv c \<and> c \<noteq> CHR 0x22 \<and> c \<noteq> CHR 0x5C) s \<Longrightarrow> is_json_string (CHR 0x22 # s @ [CHR 0x22])"
proof -
  assume "list_all (\<lambda>c. 0x20 \<le> bv c \<and> c \<noteq> CHR 0x22 \<and> c \<noteq> CHR 0x5C) s"
  then have "json_read (s @ [CHR 0x22]) = Some (s, [])" by (induction s) auto
  then show ?thesis by (simp add: is_json_string_def)
qed

lemma table_letters: "list_all (\<lambda>p. list_all (\<lambda>c. 65 \<le> bv c \<and> bv c \<le> 90 \<or> 97 \<le> bv c \<and> bv c \<le> 122) (snd p)) languageTable"
  by (simp add: languageTable_def)

lemma language_json_string: "is_json_string (CHR 0x22 # map lower_byte (Language_Name l) @ [CHR 0x22])"
proof (rule plain_json_string)
  have low: "97 \<le> bv (lower_byte c) \<and> bv (lower_byte c) \<le> 122" if "65 \<le> bv c \<and> bv c \<le> 90 \<or> 97 \<le> bv c \<and> bv c \<le> 122" for c
    using that by (auto simp: lower_byte_def Let_def)
  have len: "length languageTable = numLanguages" by (simp add: languageTable_def numLanguages_def)
  have "Language_Name l = [] \<or> (\<exists>p \<in> set languageTable. Language_Name l = snd p)"
  proof (cases "numLanguages \<le> unat l")
    case False
    then have "languageTable ! unat l \<in> set languageTable" using len by simp
    then show ?thesis using False by (auto simp: Language_Name_def)
  qed (simp add: Language_Name_def)
  then have "list_all (\<lambda>c. 65 \<le> bv c \<and> bv c \<le> 90 \<or> 97 \<le> bv c \<and> bv c \<le> 122) (Language_Name l)"
    using table_letters unfolding list_all_iff by (elim disjE bexE) (simp, metis)
  then have "list_all (\<lambda>c. 97 \<le> bv c \<and> bv c \<le> 122) (map lower_byte (Language_Name l))"
    using low by (auto simp: list_all_iff)
  then show "list_all (\<lambda>c. 0x20 \<le> bv c \<and> c \<noteq> CHR 0x22 \<and> c \<noteq> CHR 0x5C) (map lower_byte (Language_Name l))"
    by (auto simp: list_all_iff)
qed

lemma segment_texts_json:
  assumes "\<And>x n. is_json_number (AF x n)" "segment_texts AF txt i segs = Some xs"
  shows "\<forall>x \<in> set xs. json x"
  using assms(2)
proof (induction segs arbitrary: i xs)
  case (Cons seg segs)
  have "json (object_text (segment_object AF i seg s))" for s
    by (rule json_object_text)
      (simp add: segment_object_def json_num json_str assms(1) show_nat_number json_AppendJSONString, simp add: is_json_string_def)
  then show ?case using Cons by (auto split: option.splits)
qed simp

lemma word_texts_json:
  assumes "\<And>x n. is_json_number (AF x n)" "word_texts AF txt ws = Some xs"
  shows "\<forall>x \<in> set xs. json x"
  using assms(2)
proof (induction ws arbitrary: xs)
  case (Cons w ws)
  have "json (object_text (word_object AF w s))" for s
    by (rule json_object_text)
      (simp add: word_object_def json_num json_str assms(1) json_AppendJSONString, simp add: is_json_string_def)
  then show ?case using Cons by (auto split: option.splits)
qed simp

definition verbose_object :: \<open>('f \<Rightarrow> nat \<Rightarrow> string) \<Rightarrow> (int \<Rightarrow> 'f) \<Rightarrow> 'f Transcript \<Rightarrow> int \<Rightarrow> string list \<Rightarrow> string list option \<Rightarrow> (string \<times> string) list\<close> where
  \<open>verbose_object AF dur t samples segs ws =
     [(''"task"'', ''"transcribe"''), (''"language"'', CHR 0x22 # map lower_byte (Language_Name (Lang t)) @ [CHR 0x22]),
      (''"duration"'', AF (dur samples) 3), (''"text"'', AppendJSONString [] (TrimSpace (Text t))),
      (''"segments"'', ''['' @ commas segs @ '']'')]
     @ (case ws of None \<Rightarrow> [] | Some ws \<Rightarrow> [(''"words"'', ''['' @ commas ws @ '']'')])\<close>

lemma verbose_object_json:
  assumes "\<And>x n. is_json_number (AF x n)" "\<forall>x \<in> set segs. json x" "\<forall>ws' \<in> set_option ws. \<forall>x \<in> set ws'. json x"
  shows "json (object_text (verbose_object AF dur t samples segs ws))"
proof (rule json_object_text)
  have keys: \<open>is_json_string ''"task"''\<close> \<open>is_json_string ''"language"''\<close> \<open>is_json_string ''"duration"''\<close> \<open>is_json_string ''"text"''\<close>
    \<open>is_json_string ''"segments"''\<close> \<open>is_json_string ''"words"''\<close> \<open>is_json_string ''"transcribe"''\<close>
    by (simp_all add: is_json_string_def)
  have "json (''['' @ commas segs @ '']'')" using assms(2) by (rule json_arr)
  moreover have "json (''['' @ commas ws' @ '']'')" if "ws = Some ws'" for ws' using assms(3) that by (intro json_arr) simp
  ultimately show "\<forall>(k, v) \<in> set (verbose_object AF dur t samples segs ws). is_json_string k \<and> json v"
    using keys json_str [OF language_json_string] json_num [OF assms(1)] json_str [OF json_AppendJSONString] json_str
    by (cases ws) (simp_all add: verbose_object_def)
qed

lemma AppendVerboseJSON_object:
  assumes "segment_texts AF (Text t) 0 (Segments t) = Some segs"
    and "if incl then word_texts AF (Text t) (Words t) = ws else ws = None" "incl \<Longrightarrow> ws \<noteq> None"
  shows "AppendVerboseJSON AF dur dst t incl samples = Some (dst @ object_text (verbose_object AF dur t samples segs ws) @ [CHR 0x0A])"
  using assms
  by (cases ws)
    (simp_all add: AppendVerboseJSON_def Let_def verbose_segments_texts verbose_words_texts AppendJSONString_dst [of "_ @ _"]
       object_text_def verbose_object_def split: if_splits)

lemma segment_texts_Some:
  "list_all (\<lambda>seg. seg_TextStart seg \<le> seg_TextEnd seg \<and> seg_TextEnd seg \<le> length txt) segs \<Longrightarrow> \<exists>xs. segment_texts AF txt i segs = Some xs"
  by (induction segs arbitrary: i) fastforce+

lemma word_texts_Some:
  "list_all (\<lambda>w. word_TextStart w \<le> word_TextEnd w \<and> word_TextEnd w \<le> length txt) ws \<Longrightarrow> \<exists>xs. word_texts AF txt ws = Some xs"
  by (induction ws) fastforce+

text \<open>
  When the segments and words of a transcript lie in its text, \<open>AppendVerboseJSON\<close>
  does not panic and appends one well-formed JSON object and a newline, provided that numbers
  are printed as JSON numbers.
\<close>

theorem AppendVerboseJSON_json:
  assumes "\<And>x n. is_json_number (AppendFloat x n)"
    and "list_all (\<lambda>seg. seg_TextStart seg \<le> seg_TextEnd seg \<and> seg_TextEnd seg \<le> length (Text t)) (Segments t)"
    and "list_all (\<lambda>w. word_TextStart w \<le> word_TextEnd w \<and> word_TextEnd w \<le> length (Text t)) (Words t)"
  shows "\<exists>obj. AppendVerboseJSON AppendFloat dur dst t includeWords samples = Some (dst @ obj @ [CHR 0x0A]) \<and> json obj"
proof -
  obtain segs where segs: "segment_texts AppendFloat (Text t) 0 (Segments t) = Some segs"
    using segment_texts_Some [OF assms(2)] by blast
  obtain ws where ws: "word_texts AppendFloat (Text t) (Words t) = Some ws"
    using word_texts_Some [OF assms(3)] by blast
  let ?ws = "if includeWords then Some ws else None"
  have "AppendVerboseJSON AppendFloat dur dst t includeWords samples
      = Some (dst @ object_text (verbose_object AppendFloat dur t samples segs ?ws) @ [CHR 0x0A])"
    by (rule AppendVerboseJSON_object [OF segs]) (use ws in auto)
  moreover have "json (object_text (verbose_object AppendFloat dur t samples segs ?ws))"
    using segment_texts_json [OF assms(1) segs] word_texts_json [OF assms(1) ws]
    by (intro verbose_object_json assms(1)) auto
  ultimately show ?thesis by blast
qed

theorem AppendVerboseJSON_json_witness:
  "\<exists>obj. AppendVerboseJSON (\<lambda>x n. show_nat x) (\<lambda>n. nat n) []
      \<lparr>Text = ''hi you'', Lang = 7, Segments = [\<lparr>seg_Start = 0, seg_End = 2, seg_TextStart = 0, seg_TextEnd = 6, seg_WordStart = 0, seg_WordEnd = 2\<rparr>],
       Words = [\<lparr>word_Start = 0, word_End = 1, word_TextStart = 0, word_TextEnd = 2, word_Probability = 0\<rparr>],
       Turn = \<lparr>pred_Probability = 0, pred_Complete = False\<rparr>\<rparr> True 32000 = Some (obj @ [CHR 0x0A]) \<and> json obj"
  using AppendVerboseJSON_json [of "\<lambda>x n. show_nat x" "\<lparr>Text = ''hi you'', Lang = 7,
      Segments = [\<lparr>seg_Start = 0, seg_End = 2, seg_TextStart = 0, seg_TextEnd = 6, seg_WordStart = 0, seg_WordEnd = 2\<rparr>],
      Words = [\<lparr>word_Start = 0, word_End = 1, word_TextStart = 0, word_TextEnd = 2, word_Probability = 0\<rparr>],
      Turn = \<lparr>pred_Probability = 0, pred_Complete = False\<rparr>\<rparr>" "\<lambda>n. nat n" "[]" True 32000] show_nat_number by simp

end
