(* ===== verification/Reply_Writer.thy ===== *)
theory Reply_Writer
  imports Asr_Text
begin

text \<open>
  The writer of \<open>duplex/cascade.go\<close> that receives a reply as the model writes it: it looks for
  the silence marker, drops a repetition of the message answered, and passes the rest to the
  voice.  Text is bytes; the Unicode tables and the voice (a \<open>speech.Synthesizer\<close>, with the
  clock and the playback it runs against) are parameters.  \<open>Write\<close> loops; the model is a
  \<open>partial_function\<close>, where \<open>None\<close> is a call that never returns.
\<close>

section \<open>Text helpers\<close>

record speech_tables = unicode_tables +
  IsPunct :: "nat \<Rightarrow> bool"
  IsSo :: "nat \<Rightarrow> bool"
  IsSk :: "nat \<Rightarrow> bool"
  IsDigit :: "nat \<Rightarrow> bool"
  IsUnspaced :: "nat \<Rightarrow> bool" \<comment> \<open>Han, Hiragana, Katakana or Thai\<close>

definition notWord :: "('b) speech_tables_scheme \<Rightarrow> nat \<Rightarrow> bool" where
  "notWord uc r \<longleftrightarrow> \<not> IsLetter uc r \<and> \<not> IsNumber uc r \<and> r \<noteq> bv CHR 0x27"

definition inWord :: "'b speech_tables_scheme \<Rightarrow> nat \<Rightarrow> bool" where
  "inWord uc r \<longleftrightarrow> (IsLetter uc r \<or> IsDigit uc r \<or> IsMark uc r \<or> r = bv CHR 0x27 \<or> r = 0x2019) \<and> \<not> IsUnspaced uc r"

text \<open>\<open>cut\<close>: a position backed off to the start of a rune.\<close>

fun cut_back :: "string \<Rightarrow> nat \<Rightarrow> nat" where
  "cut_back s 0 = 0"
| "cut_back s (Suc n) = (if RuneStart (s ! Suc n) then Suc n else cut_back s n)"

definition cut :: "string \<Rightarrow> nat \<Rightarrow> nat" where
  "cut s n = (if length s \<le> n then length s else cut_back s n)"

function word_back :: "'b speech_tables_scheme \<Rightarrow> string \<Rightarrow> nat \<Rightarrow> nat" where
  "word_back uc s n =
     (if 0 < n \<and> n < length s then
        let (prev, width) = DecodeLastRune (take n s); (following, _) = DecodeRune (drop n s) in
        if \<not> inWord uc prev \<or> \<not> inWord uc following then n else word_back uc s (n - width)
      else n)"
  by pat_completeness auto
termination
proof (relation "measure (\<lambda>(uc, s, n). n)", goal_cases)
  case (2 uc s n x prev width y following z)
  then have "take n s \<noteq> []" by auto
  from DecodeLastRune_size_pos [OF this] 2 show ?case by (metis (no_types, lifting) case_prodI diff_less in_measure less_le_trans snd_conv zero_less_one case_prod_conv)
qed simp

declare word_back.simps [simp del]

definition wordEnd :: "'b speech_tables_scheme \<Rightarrow> string \<Rightarrow> nat \<Rightarrow> nat" where
  "wordEnd uc s n = word_back uc s (cut s n)"

text \<open>The loops of \<open>echoOf\<close> that step over the runes that satisfy \<open>p\<close>.\<close>

function skip_runes :: "(nat \<Rightarrow> bool) \<Rightarrow> string \<Rightarrow> nat \<Rightarrow> nat" where
  "skip_runes p s i =
     (if i < length s \<and> p (fst (DecodeRune (drop i s)))
      then skip_runes p s (i + snd (DecodeRune (drop i s))) else i)"
  by pat_completeness auto
termination
proof (relation "measure (\<lambda>(p, s, i). length s - i)", goal_cases)
  case (2 p s i)
  then have "drop i s \<noteq> []" by simp
  from DecodeRune_size_pos [OF this] 2 show ?case by auto
qed simp

declare skip_runes.simps [simp del]

lemma skip_runes_ge: "i \<le> skip_runes p s i"
  by (induction p s i rule: skip_runes.induct) (subst skip_runes.simps, auto)

lemma skip_runes_le: "i \<le> length s \<Longrightarrow> skip_runes p s i \<le> length s"
proof (induction p s i rule: skip_runes.induct)
  case (1 p s i)
  have "i + snd (DecodeRune (drop i s)) \<le> length s"
    using DecodeRune_size_le [of "drop i s"] 1(2) by simp
  with 1 show ?case by (subst skip_runes.simps) auto
qed

text \<open>\<open>strings.FieldsFunc\<close>, \<open>strings.ToLower\<close>.\<close>

function FieldsFunc :: "(nat \<Rightarrow> bool) \<Rightarrow> string \<Rightarrow> string list" where
  "FieldsFunc p s =
     (let i = skip_runes p s 0; j = skip_runes (\<lambda>r. \<not> p r) s i in
      if length s \<le> i \<or> j \<le> i then [] else take (j - i) (drop i s) # FieldsFunc p (drop j s))"
  by pat_completeness auto
termination by (relation "measure (\<lambda>(p, s). length s)") auto

declare FieldsFunc.simps [simp del]

function map_runes :: "(nat \<Rightarrow> nat) \<Rightarrow> string \<Rightarrow> string" where
  "map_runes f s =
     (if s = [] then [] else AppendRune (f (fst (DecodeRune s))) @ map_runes f (drop (snd (DecodeRune s)) s))"
  by pat_completeness auto
termination
proof (relation "measure (\<lambda>(f, s). length s)", goal_cases)
  case (2 f s)
  then show ?case using DecodeRune_size_pos [of s] by auto
qed simp

declare map_runes.simps [simp del]

text \<open>\<open>echoOf\<close>: the words of the message against the words of the reply.\<close>

fun echo_words :: "'b speech_tables_scheme \<Rightarrow> string \<Rightarrow> string list \<Rightarrow> nat \<Rightarrow> nat \<times> bool" where
  "echo_words uc reply [] i = (i, False)"
| "echo_words uc reply (s # said) i0 =
     (let i = skip_runes (notWord uc) reply i0 in
      if i = length reply then (0, True)
      else let j = skip_runes (\<lambda>r. \<not> notWord uc r) reply i;
               w = map_runes (ToLower uc) (take (j - i) (drop i reply)) in
        if j = length reply then (0, take (length w) s = w)
        else if w \<noteq> s then (0, False)
        else echo_words uc reply said j)"

definition message_words :: "'b speech_tables_scheme \<Rightarrow> string \<Rightarrow> string list" where
  "message_words uc message = FieldsFunc (notWord uc) (map_runes (ToLower uc) message)"

definition echoOf :: "'b speech_tables_scheme \<Rightarrow> string \<Rightarrow> string \<Rightarrow> nat \<times> bool" where
  "echoOf uc reply message =
     (let said = message_words uc message in
      if length said < 3 then (0, False) else echo_words uc reply said 0)"

text \<open>\<open>appendSpeakable\<close>, on the text it appends.\<close>

definition unspeakable :: "'b speech_tables_scheme \<Rightarrow> nat \<Rightarrow> bool" where
  "unspeakable uc r \<longleftrightarrow>
     r = bv CHR ''*'' \<or> r = bv CHR ''_'' \<or> r = bv CHR ''#'' \<or> r = bv CHR 0x60 \<or> r = bv CHR ''~'' \<or>
     r = 0x200d \<or> 0xfe00 \<le> r \<and> r \<le> 0xfe0f \<or>
     IsSo uc r \<or> IsSk uc r \<or> 0x1f000 \<le> r"

function speakable :: "'b speech_tables_scheme \<Rightarrow> string \<Rightarrow> string" where
  "speakable uc src =
     (if src = [] then []
      else (if unspeakable uc (fst (DecodeRune src)) then [] else AppendRune (fst (DecodeRune src)))
        @ speakable uc (drop (snd (DecodeRune src)) src))"
  by pat_completeness auto
termination
proof (relation "measure (\<lambda>(uc, s). length s)", goal_cases)
  case (2 uc src)
  then show ?case using DecodeRune_size_pos [of src] by auto
qed simp

declare speakable.simps [simp del]

definition appendSpeakable :: "'b speech_tables_scheme \<Rightarrow> string \<Rightarrow> string \<Rightarrow> string" where
  "appendSpeakable uc dst src = dst @ speakable uc src"

section \<open>The silence marker\<close>

definition silentMark :: string where
  "silentMark = ''<silent''"

fun IndexByte :: "char \<Rightarrow> string \<Rightarrow> nat option" where
  "IndexByte c [] = None"
| "IndexByte c (x # xs) = (if x = c then Some 0 else map_option Suc (IndexByte c xs))"

definition is_digit :: "char \<Rightarrow> bool" where
  "is_digit c \<longleftrightarrow> 48 \<le> bv c \<and> bv c \<le> 57"

text \<open>The digits, in the 64-bit arithmetic of the code.\<close>

fun digits_value :: "int \<Rightarrow> string \<Rightarrow> int" where
  "digits_value v [] = v"
| "digits_value v (c # cs) = digits_value (wrap_int (v * 10 + (int (bv c) - 48))) cs"

definition second :: int where "second = 1000000000"
definition minute :: int where "minute = 60 * second"
definition hour :: int where "hour = 60 * minute"

text \<open>The time a marker asks for, from the text between \<open><silent\<close> and \<open>>\<close>.\<close>

definition marker_wait :: "string \<Rightarrow> int" where
  "marker_wait inner =
     (let from_digit = dropWhile (\<lambda>c. \<not> is_digit c) inner in
      if from_digit = [] then 0
      else let v = digits_value 0 (takeWhile is_digit from_digit);
               unit_text = TrimSpace (dropWhile is_digit from_digit);
               wait = (case unit_text of
                         [] \<Rightarrow> wrap_int (v * second)
                       | u # us \<Rightarrow>
                           if fold_byte u = bv CHR ''m'' \<and> \<not> (us \<noteq> [] \<and> fold_byte (hd us) = bv CHR ''s'')
                           then wrap_int (v * minute) else wrap_int (v * second))
           in if hour < wait then hour else wait)"

definition is_quote :: "nat \<Rightarrow> bool" where
  "is_quote r \<longleftrightarrow> r = 0x22 \<or> r = 0x201c \<or> r = 0x201d \<or> r = 0x27"

definition marker_until :: "string \<Rightarrow> string option" where
  "marker_until inner =
     (case Cut inner ''until'' of
        None \<Rightarrow> None
      | Some (_, after) \<Rightarrow>
          (let u = TrimFunc is_quote (TrimSpace after) in
           Some (if u = [] then ''being asked to speak'' else u)))"

text \<open>The four results of the code: length, time, condition, and whether it is a marker.\<close>

definition marker :: "string \<Rightarrow> int \<times> int \<times> string \<times> bool" where
  "marker b =
     (if take (length silentMark) b \<noteq> silentMark then
        if take (length b) silentMark = b then (-1, 0, [], False) else (0, 0, [], False)
      else case IndexByte CHR ''>'' b of
        None \<Rightarrow> if 64 < length b then (0, 0, [], False) else (-1, 0, [], False)
      | Some e \<Rightarrow>
          (let inner = take (e - length silentMark) (drop (length silentMark) b) in
           case marker_until inner of
             Some u \<Rightarrow> (int e + 1, 0, u, True)
           | None \<Rightarrow> (int e + 1, marker_wait inner, [], True)))"

section \<open>The voice and the captions\<close>

text \<open>
  What the writer meets: the synthesizer with its clock (\<open>'v\<close> is their state).  \<open>VAwait\<close> is
  the wait for the first sound, which ends with nothing or with the error of a cancelled
  reply; \<open>VPlayed\<close> reads the samples played so far and \<open>VVoiced\<close> the bytes spoken by then.
\<close>

record 'v voice_lane =
  VBegin :: "'v \<Rightarrow> 'v \<times> string option"
  VWrite :: "'v \<Rightarrow> string \<Rightarrow> 'v \<times> string option"
  VAwait :: "'v \<Rightarrow> 'v \<times> string option"
  VVoiced :: "'v \<Rightarrow> int \<Rightarrow> nat"
  VPlayed :: "'v \<Rightarrow> int"
  outRate :: int

datatype obs_event = Heard string string bool | Said string nat bool | StageFirstText

record 'v writer =
  c_reply :: string
  c_said :: string
  c_spans :: "(nat \<times> nat) list"
  c_saying :: string
  c_voicing :: bool
  c_voiceAt :: nat
  c_captioned :: nat
  c_userShown :: bool
  c_obs :: "obs_event list"
  c_voice :: 'v
  w_answers :: string
  w_spoken :: nat
  w_decided :: bool
  w_echoed :: bool
  w_trimLead :: bool
  w_ended :: bool
  w_wait :: int
  w_until :: string
  w_round :: nat
  j_audio :: bool
  j_speaker :: string

datatype werror = ErrReplyEnded | ErrVoice string

definition voicedAt :: "'v voice_lane \<Rightarrow> 'v writer \<Rightarrow> int \<Rightarrow> nat" where
  "voicedAt vl w played = (if \<not> c_voicing w then 0 else VVoiced vl (c_voice w) played)"

definition resumeWindow :: int where "resumeWindow = 800000000"

definition caption :: "'b speech_tables_scheme \<Rightarrow> 'v voice_lane \<Rightarrow> 'v writer \<Rightarrow> string \<Rightarrow> 'v writer" where
  "caption uc vl w heard =
     (let played = VPlayed vl (c_voice w);
          w1 = (if \<not> c_userShown w \<and> j_audio w \<and> resumeWindow * outRate vl div second \<le> played
                then w\<lparr>c_userShown := True, c_obs := c_obs w @ [Heard (j_speaker w) heard True]\<rparr> else w)
      in if \<not> c_userShown w1 \<and> j_audio w1 then w1
         else let n = wordEnd uc (c_said w1) (min (length (c_said w1)) (voicedAt vl w1 played))
              in if c_captioned w1 < n
                 then w1\<lparr>c_captioned := n, c_obs := c_obs w1 @ [Said (c_said w1) n False]\<rparr> else w1)"

definition voice_write :: "'v voice_lane \<Rightarrow> 'v writer \<Rightarrow> 'v writer \<times> werror option" where
  "voice_write vl w =
     (case VWrite vl (c_voice w) (drop (c_voiceAt w) (c_said w)) of
        (v, Some e) \<Rightarrow> (w\<lparr>c_voice := v\<rparr>, Some (ErrVoice e))
      | (v, None) \<Rightarrow>
          (case VAwait vl v of (v', e) \<Rightarrow>
             (w\<lparr>c_voiceAt := length (c_said w), c_voice := v'\<rparr>, map_option ErrVoice e)))"

definition voice :: "'v voice_lane \<Rightarrow> 'v writer \<Rightarrow> 'v writer \<times> werror option" where
  "voice vl w =
     (if c_voiceAt w = length (c_said w) \<or> TrimSpace (c_said w) = [] then (w, None)
      else if \<not> c_voicing w then
        (case VBegin vl (c_voice w) of
           (v, Some e) \<Rightarrow> (w\<lparr>c_voice := v\<rparr>, Some (ErrVoice e))
         | (v, None) \<Rightarrow> voice_write vl (w\<lparr>c_voice := v, c_voicing := True\<rparr>))
      else voice_write vl w)"

text \<open>\<open>replyOf\<close>: the length of the reply that \<open>n\<close> bytes of \<open>said\<close> were spoken from.\<close>

fun replyOf_loop :: "(nat \<times> nat) list \<Rightarrow> nat \<Rightarrow> nat \<Rightarrow> nat" where
  "replyOf_loop [] n r = r"
| "replyOf_loop ((s, p) # sps) n r = (if n < s then r else replyOf_loop sps n p)"

definition replyOf :: "'v writer \<Rightarrow> nat \<Rightarrow> nat" where
  "replyOf w n = replyOf_loop (c_spans w) n 0"

section \<open>The writer\<close>

definition rw_begin :: "'v writer \<Rightarrow> bool \<Rightarrow> string \<Rightarrow> string \<Rightarrow> 'v writer" where
  "rw_begin w audio speaker answers =
     w\<lparr>w_answers := answers, w_spoken := 0, w_decided := False, w_echoed := False, w_trimLead := False,
       w_ended := False, w_wait := 0, w_until := [], w_round := 0, j_audio := audio, j_speaker := speaker\<rparr>"

text \<open>The last part of \<open>speak\<close>: \<open>src\<close> goes to what is said, the spans and the voice.\<close>

definition speak_src :: "'b speech_tables_scheme \<Rightarrow> 'v voice_lane \<Rightarrow> 'v writer \<Rightarrow> string \<Rightarrow> 'v writer \<times> werror option" where
  "speak_src uc vl w src =
     (let said = appendSpeakable uc (c_said w) src; spoken = w_spoken w + length src in
      voice vl (caption uc vl
        (w\<lparr>c_said := said, w_spoken := spoken, c_spans := c_spans w @ [(length said, spoken)], c_saying := said\<rparr>)
        (w_answers w)))"

definition speak_trim :: "'b speech_tables_scheme \<Rightarrow> 'v voice_lane \<Rightarrow> 'v writer \<Rightarrow> nat \<Rightarrow> 'v writer \<times> werror option" where
  "speak_trim uc vl w n =
     (let src = take n (drop (w_spoken w) (c_reply w)) in
      if w_trimLead w then
        let rest = trim_left (\<lambda>r. IsPunct uc r \<or> IsSpace uc r) src;
            w1 = w\<lparr>w_spoken := w_spoken w + (length src - length rest)\<rparr> in
        if rest = [] then (w1, None) else speak_src uc vl (w1\<lparr>w_trimLead := False\<rparr>) rest
      else speak_src uc vl w src)"

definition speak :: "'b speech_tables_scheme \<Rightarrow> 'v voice_lane \<Rightarrow> 'v writer \<Rightarrow> nat \<Rightarrow> bool \<Rightarrow> 'v writer \<times> werror option" where
  "speak uc vl w n flush =
     (if n = 0 then (w, None)
      else if w_decided w then speak_trim uc vl w n
      else let lead = take (w_spoken w + n) (c_reply w); (k, holding) = echoOf uc lead (w_answers w) in
        if holding \<and> \<not> flush then (w, None)
        else if 0 < k then
          speak_trim uc vl (w\<lparr>w_decided := True, w_echoed := True, w_trimLead := True, w_spoken := k\<rparr>) (length lead - k)
        else speak_trim uc vl (w\<lparr>w_decided := True\<rparr>) n)"

text \<open>One round of the loop of \<open>Write\<close>: \<open>Inl\<close> returns, \<open>Inr\<close> goes round again.\<close>

definition Write_marker ::
  "'b speech_tables_scheme \<Rightarrow> 'v voice_lane \<Rightarrow> 'v writer \<Rightarrow> ('v writer \<times> werror option) + 'v writer" where
  "Write_marker uc vl w =
     (let (n, wait, until, ok) = marker (drop (w_spoken w) (c_reply w)) in
      if n < 0 then Inl (w, None)
      else if \<not> ok then
        (case speak uc vl w 1 False of (w', Some e) \<Rightarrow> Inl (w', Some e) | (w', None) \<Rightarrow> Inr w')
      else Inl (w\<lparr>w_ended := True, w_wait := wait, w_until := until\<rparr>, Some ErrReplyEnded))"

definition Write_round ::
  "'b speech_tables_scheme \<Rightarrow> 'v voice_lane \<Rightarrow> 'v writer \<Rightarrow> ('v writer \<times> werror option) + 'v writer" where
  "Write_round uc vl w =
     (let unsent = drop (w_spoken w) (c_reply w) in
      case IndexByte CHR ''<'' unsent of
        None \<Rightarrow> Inl (speak uc vl w (length unsent) False)
      | Some lt \<Rightarrow>
          if 0 < lt then
            (case speak uc vl w lt False of
               (w', Some e) \<Rightarrow> Inl (w', Some e)
             | (w', None) \<Rightarrow> Write_marker uc vl w')
          else Write_marker uc vl w)"

partial_function (option) Write_loop ::
  "'b speech_tables_scheme \<Rightarrow> 'v voice_lane \<Rightarrow> 'v writer \<Rightarrow> ('v writer \<times> werror option) option" where
  "Write_loop uc vl w = (case Write_round uc vl w of Inl res \<Rightarrow> Some res | Inr w' \<Rightarrow> Write_loop uc vl w')"

declare Write_loop.simps [code]

definition rw_Write ::
  "'b speech_tables_scheme \<Rightarrow> 'v voice_lane \<Rightarrow> 'v writer \<Rightarrow> string \<Rightarrow> ('v writer \<times> werror option) option" where
  "rw_Write uc vl w p =
     (if w_ended w then Some (w, None)
      else let w1 = (if c_reply w = [] then w\<lparr>c_obs := c_obs w @ [StageFirstText]\<rparr> else w)
           in Write_loop uc vl (w1\<lparr>c_reply := c_reply w1 @ p\<rparr>))"

definition rw_flush :: "'b speech_tables_scheme \<Rightarrow> 'v voice_lane \<Rightarrow> 'v writer \<Rightarrow> 'v writer \<times> werror option" where
  "rw_flush uc vl w =
     (if w_ended w then (w, None)
      else let unsent = drop (w_spoken w) (c_reply w) in
        if length silentMark \<le> length unsent \<and> take (length silentMark) unsent = silentMark
        then (w\<lparr>w_ended := True\<rparr>, None)
        else speak uc vl w (length unsent) True)"

end
