(* ===== verification/Reply_Streaming.thy ===== *)
theory Reply_Streaming
  imports Reply_Writer
begin

text \<open>
  What reaches the voice when a reply arrives in pieces.  The central notion is a position that
  is \<open>sealed\<close>: whatever text follows, no silence marker of at most 65 bytes starts there.  The
  writer passes on sealed positions only, so no such marker is ever spoken, however the reply
  is cut into pieces; and when the message is too short to be repeated, everything else is
  spoken, without the runes a voice cannot say.
\<close>

section \<open>Text\<close>

lemma IndexByte_None: "IndexByte c s = None \<longleftrightarrow> c \<notin> set s"
  by (induction s) auto

lemma IndexByte_Some: "IndexByte c s = Some i \<Longrightarrow> i < length s \<and> s ! i = c \<and> c \<notin> set (take i s)"
  by (induction s arbitrary: i) (auto split: if_splits)

lemma IndexByte_append: "IndexByte c s = Some i \<Longrightarrow> IndexByte c (s @ t) = Some i"
  by (induction s arbitrary: i) (auto split: if_splits)

lemma IndexByte_le: "i < length s \<Longrightarrow> s ! i = c \<Longrightarrow> \<exists>j\<le>i. IndexByte c s = Some j"
proof (induction s arbitrary: i)
  case (Cons x xs)
  then show ?case by (cases i) fastforce+
qed simp

lemma DecodeRune_before_ascii:
  assumes "a \<noteq> []" "bv c < 128" "\<not> decode_bad (a @ c # t)"
  shows "\<not> decode_bad a \<and> DecodeRune (a @ c # t) = DecodeRune a"
proof -
  have "\<not> is_cont c" and "\<And>b w lo hi. lead_info b = Some (w, lo, hi) \<Longrightarrow> bv c < lo"
    using assms(2) by (auto simp: is_cont_def lead_info_def split: if_splits)
  note c = this
  have "\<not> decode_bad a"
  proof -
    have "a @ c # t \<noteq> []" by simp
    from assms(3) this show ?thesis
    proof (cases rule: DecodeRune_good)
      case (w1 d r)
      with assms(1) have "hd a = d" by (cases a) auto
      with w1 assms(1) show ?thesis by (cases a) (auto simp: decode_bad_def DecodeRune_def RuneError_def RuneSelf_def)
    next
      case (w2 c0 c1 r lo hi)
      with assms(1) c(1) c(2) [OF w2(3)] show ?thesis
        by (cases a; cases "tl a") (auto simp: decode_bad_def DecodeRune_def)
    next
      case (w3 c0 c1 c2 r lo hi)
      with assms(1) c(1) c(2) [OF w3(3)] show ?thesis
        by (cases a; cases "tl a"; cases "tl (tl a)") (auto simp: decode_bad_def DecodeRune_def)
    next
      case (w4 c0 c1 c2 c3 r lo hi)
      with assms(1) c(1) c(2) [OF w4(3)] show ?thesis
        by (cases a; cases "tl a"; cases "tl (tl a)"; cases "tl (tl (tl a))") (auto simp: decode_bad_def DecodeRune_def)
    qed
  qed
  then show ?thesis using DecodeRune_append [OF _ assms(1)] by blast
qed

lemma utf8_Valid_before_ascii:
  assumes "bv c < 128" "utf8_Valid (a @ c # t)"
  shows "utf8_Valid a \<and> utf8_Valid (c # t)"
  using assms(2)
proof (induction a rule: utf8_Valid.induct)
  case (1 a)
  show ?case
  proof (cases "a = []")
    case False
    have bad: "\<not> decode_bad (a @ c # t)" using 1(2) by (subst (asm) utf8_Valid.simps) (auto split: if_splits)
    note d = DecodeRune_before_ascii [OF False assms(1) bad]
    have "utf8_Valid (drop (snd (DecodeRune a)) (a @ c # t))"
      using 1(2) d bad by (subst (asm) utf8_Valid.simps) (auto split: if_splits)
    then have "utf8_Valid (drop (snd (DecodeRune a)) a @ c # t)" using DecodeRune_size_le [of a] by simp
    with 1(1) False d have "utf8_Valid (drop (snd (DecodeRune a)) a) \<and> utf8_Valid (c # t)" by blast
    with False d show ?thesis by (simp add: utf8_Valid.simps [of a])
  qed (use 1 in simp)
qed

lemma speakable_append:
  "utf8_Valid a \<Longrightarrow> speakable uc (a @ b) = speakable uc a @ speakable uc b"
proof (induction a rule: utf8_Valid.induct)
  case (1 a)
  show ?case
  proof (cases "a = []")
    case False
    with 1(2) have good: "\<not> decode_bad a" and rest: "utf8_Valid (drop (snd (DecodeRune a)) a)"
      by (simp_all add: utf8_Valid.simps [of a] split: if_splits)
    have dec: "DecodeRune (a @ b) = DecodeRune a" by (rule DecodeRune_append [OF good False])
    obtain r w where rw: "DecodeRune a = (r, w)" by fastforce
    have "drop w (a @ b) = drop w a @ b"
      using DecodeRune_size_le [of a] rw by simp
    with 1(1) [OF False good rest] dec False rw show ?thesis
      by (simp add: speakable.simps [of uc a] speakable.simps [of uc "a @ b"] Let_def)
  qed (simp add: speakable.simps [of uc "[]"])
qed

section \<open>Sealed positions\<close>

definition short_marker :: "string \<Rightarrow> bool" where
  "short_marker b \<longleftrightarrow> (case marker b of (n, _, _, ok) \<Rightarrow> ok \<and> n \<le> 65)"

definition sealed :: "string \<Rightarrow> bool" where
  "sealed b \<longleftrightarrow>
     take (length silentMark) b \<noteq> silentMark \<and> take (length b) silentMark \<noteq> b \<or>
     64 < length b \<and> CHR ''>'' \<notin> set (take 65 b)"

lemma short_marker_iff:
  "short_marker b \<longleftrightarrow> take (length silentMark) b = silentMark \<and> (\<exists>e\<le>64. IndexByte CHR ''>'' b = Some e)"
  by (auto simp: short_marker_def marker_def Let_def split: option.splits)

lemma sealed_append:
  assumes "sealed b"
  shows "sealed (b @ t)"
proof (cases "take (length silentMark) b \<noteq> silentMark \<and> take (length b) silentMark \<noteq> b")
  case True
  have "take (length silentMark) (b @ t) \<noteq> silentMark"
  proof
    assume *: "take (length silentMark) (b @ t) = silentMark"
    show False
    proof (cases "length silentMark \<le> length b")
      case False
      then have "take (length b) silentMark = take (length b) (take (length silentMark) (b @ t))" using * by simp
      with False True show False by simp
    qed (use * True in simp)
  qed
  moreover have "take (length (b @ t)) silentMark \<noteq> b @ t"
  proof
    assume "take (length (b @ t)) silentMark = b @ t"
    then have "take (length b) (take (length (b @ t)) silentMark) = b" by simp
    with True show False by simp
  qed
  ultimately show ?thesis by (simp add: sealed_def)
next
  case False
  with assms show ?thesis by (auto simp: sealed_def)
qed

lemma sealed_no_marker: "sealed b \<Longrightarrow> \<not> short_marker b"
proof
  assume b: "sealed b" "short_marker b"
  then obtain e where e: "e \<le> 64" "IndexByte CHR ''>'' b = Some e" "take (length silentMark) b = silentMark"
    by (auto simp: short_marker_iff)
  with IndexByte_Some [OF e(2)] have "CHR ''>'' \<in> set (take 65 b)"
    by (auto simp: in_set_conv_nth intro!: exI [of _ e])
  with b(1) e(3) show False by (simp add: sealed_def)
qed

lemma marker_text_sealed:
  assumes "marker b = (n, wait, u, ok)" "\<not> n < 0" "\<not> ok" shows "sealed b"
proof (cases "take (length silentMark) b = silentMark")
  case False
  with assms show ?thesis by (auto simp: marker_def sealed_def split: if_splits)
next
  case True
  with assms have "IndexByte CHR ''>'' b = None" "64 < length b"
    by (auto simp: marker_def Let_def split: option.splits if_splits)
  then show ?thesis by (auto simp: sealed_def IndexByte_None dest: in_set_takeD)
qed

lemma sealed_other: "b \<noteq> [] \<Longrightarrow> hd b \<noteq> CHR ''<'' \<Longrightarrow> sealed b"
  by (cases b) (auto simp: sealed_def silentMark_def)

lemma marker_pending:
  "marker b = (n, wait, u, ok) \<Longrightarrow> n < 0 \<Longrightarrow>
     take (length b) silentMark = b \<and> take (length silentMark) b \<noteq> silentMark \<or> take (length silentMark) b = silentMark"
  by (auto simp: marker_def Let_def split: option.splits if_splits)

section \<open>What each step keeps\<close>

text \<open>The part of the state that the voice and the captions leave alone.\<close>

definition text_of :: "'v writer \<Rightarrow> string \<times> string \<times> nat \<times> bool \<times> bool \<times> bool \<times> string" where
  "text_of w = (c_reply w, c_said w, w_spoken w, w_decided w, w_trimLead w, w_ended w, w_answers w)"

lemma text_of_caption [simp]: "text_of (caption uc vl w heard) = text_of w"
  by (simp add: text_of_def caption_def Let_def)

lemma text_of_voice [simp]: "text_of (fst (voice vl w)) = text_of w"
  by (simp add: text_of_def voice_def voice_write_def split: prod.splits option.splits)

lemma text_of_speak_src:
  "text_of (fst (speak_src uc vl w src)) =
     (c_reply w, c_said w @ speakable uc src, w_spoken w + length src, w_decided w, w_trimLead w, w_ended w, w_answers w)"
  by (simp add: speak_src_def Let_def appendSpeakable_def) (simp add: text_of_def)

lemma trim_left_length: "length (trim_left p s) \<le> length s"
proof (induction p s rule: trim_left.induct)
  case (1 p s)
  then show ?case by (subst trim_left.simps) (auto intro: le_trans)
qed

lemma speak_trim_text:
  assumes "w_spoken w + n \<le> length (c_reply w)"
  shows "\<exists>out lead. text_of (fst (speak_trim uc vl w n)) =
           (c_reply w, c_said w @ out, w_spoken w + n, w_decided w, lead, w_ended w, w_answers w)"
proof (cases "w_trimLead w")
  case False
  then show ?thesis using assms by (auto simp: speak_trim_def Let_def text_of_speak_src)
next
  case True
  define src where "src = take n (drop (w_spoken w) (c_reply w))"
  define rest where "rest = trim_left (\<lambda>r. IsPunct uc r \<or> IsSpace uc r) src"
  have n: "length src = n" "length rest \<le> n"
    using assms trim_left_length [of _ src] by (auto simp: src_def rest_def)
  show ?thesis
  proof (cases "rest = []")
    case True
    then show ?thesis using \<open>w_trimLead w\<close> n
      by (simp add: speak_trim_def src_def [symmetric] rest_def [symmetric] Let_def) (auto simp: text_of_def)
  next
    case False
    then show ?thesis using \<open>w_trimLead w\<close> n
      by (auto simp: speak_trim_def src_def [symmetric] rest_def [symmetric] Let_def text_of_speak_src)
  qed
qed

lemma echo_words_le: "i \<le> length reply \<Longrightarrow> fst (echo_words uc reply said i) \<le> length reply"
  by (induction uc reply said i rule: echo_words.induct) (auto simp: Let_def skip_runes_le)

lemma echoOf_le: "echoOf uc lead message = (k, h) \<Longrightarrow> k \<le> length lead"
  using echo_words_le [of 0 lead uc "message_words uc message"]
  by (auto simp: echoOf_def Let_def split: if_splits)

text \<open>\<open>speak\<close> either waits, leaving everything as it is, or passes all \<open>n\<close> bytes.\<close>

lemma speak_text:
  assumes "w_spoken w + n \<le> length (c_reply w)"
  shows "speak uc vl w n fl = (w, None) \<or>
         (\<exists>out lead. text_of (fst (speak uc vl w n fl)) =
           (c_reply w, c_said w @ out, w_spoken w + n, True, lead, w_ended w, w_answers w))"
proof (cases "n = 0 \<or> w_decided w")
  case True
  then show ?thesis using speak_trim_text [OF assms, of uc vl] by (auto simp: speak_def)
next
  case False
  define lead where "lead = take (w_spoken w + n) (c_reply w)"
  obtain k h where k: "echoOf uc lead (w_answers w) = (k, h)" by fastforce
  have len: "length lead = w_spoken w + n" using assms by (simp add: lead_def)
  define w1 where "w1 = w\<lparr>w_decided := True, w_echoed := True, w_trimLead := True, w_spoken := k\<rparr>"
  define w2 where "w2 = w\<lparr>w_decided := True\<rparr>"
  have s: "speak uc vl w n fl =
      (if h \<and> \<not> fl then (w, None)
       else if 0 < k then speak_trim uc vl w1 (length lead - k) else speak_trim uc vl w2 n)"
    using False k by (simp add: speak_def lead_def [symmetric] w1_def w2_def Let_def)
  have "w_spoken w1 + (length lead - k) = w_spoken w + n"
    using echoOf_le [OF k] len by (simp add: w1_def)
  with speak_trim_text [of w1 "length lead - k" uc vl] speak_trim_text [of w2 n uc vl] assms
  show ?thesis unfolding s by (auto simp: w1_def w2_def)
qed

section \<open>No marker is spoken\<close>

definition only_sealed :: "'v writer \<Rightarrow> bool" where
  "only_sealed w \<longleftrightarrow> w_spoken w \<le> length (c_reply w) \<and> list_all (\<lambda>i. sealed (drop i (c_reply w))) [0..<w_spoken w]"

lemma only_sealed_iff:
  "only_sealed w \<longleftrightarrow> w_spoken w \<le> length (c_reply w) \<and> (\<forall>i<w_spoken w. sealed (drop i (c_reply w)))"
  by (auto simp: only_sealed_def list_all_iff)

lemma only_sealed_text: "text_of w = text_of w' \<Longrightarrow> only_sealed w = only_sealed w'"
  by (simp add: only_sealed_def text_of_def)

lemma speak_only_sealed:
  assumes "only_sealed w" "w_spoken w + n \<le> length (c_reply w)"
    and "\<And>i. w_spoken w \<le> i \<Longrightarrow> i < w_spoken w + n \<Longrightarrow> sealed (drop i (c_reply w))"
  shows "only_sealed (fst (speak uc vl w n fl))"
proof -
  from speak_text [OF assms(2), of uc vl fl] show ?thesis
  proof
    assume "speak uc vl w n fl = (w, None)"
    with assms(1) show ?thesis by simp
  next
    assume "\<exists>out lead. text_of (fst (speak uc vl w n fl)) =
           (c_reply w, c_said w @ out, w_spoken w + n, True, lead, w_ended w, w_answers w)"
    then have "c_reply (fst (speak uc vl w n fl)) = c_reply w" "w_spoken (fst (speak uc vl w n fl)) = w_spoken w + n"
      by (auto simp: text_of_def)
    with assms show ?thesis by (auto simp: only_sealed_iff) (meson not_less)
  qed
qed

lemma sealed_before_lt:
  assumes "IndexByte CHR ''<'' (drop a s) = Some lt" "a \<le> i" "i < a + lt"
  shows "sealed (drop i s)"
proof (rule sealed_other)
  note lt = IndexByte_Some [OF assms(1)]
  show "drop i s \<noteq> []" using conjunct1 [OF lt] assms(2,3) by simp
  have "i - a < lt" "i - a < length (drop a s)" using assms lt by auto
  then have "drop a s ! (i - a) \<in> set (take lt (drop a s))"
    by (metis in_set_conv_nth length_take min_less_iff_conj nth_take)
  with lt have "drop a s ! (i - a) \<noteq> CHR ''<''" by auto
  moreover have "hd (drop i s) = drop a s ! (i - a)"
    using conjunct1 [OF lt] assms(2,3) by (simp add: hd_drop_conv_nth)
  ultimately show "hd (drop i s) \<noteq> CHR ''<''" by simp
qed

lemma sealed_no_lt:
  assumes "CHR ''<'' \<notin> set (drop a s)" "a \<le> i" "i < length s"
  shows "sealed (drop i s)"
proof (rule sealed_other)
  show "drop i s \<noteq> []" using assms by simp
  then have "hd (drop i s) \<in> set (drop a s)"
    using assms(2) by (metis hd_in_set set_drop_subset_set_drop subsetD)
  with assms(1) show "hd (drop i s) \<noteq> CHR ''<''" by auto
qed

text \<open>A voice that does not fail.\<close>

definition voice_ok :: "'v voice_lane \<Rightarrow> bool" where
  "voice_ok vl \<longleftrightarrow> (\<forall>v s. snd (VBegin vl v) = None \<and> snd (VWrite vl v s) = None \<and> snd (VAwait vl v) = None)"

lemma voice_ok_voice: "voice_ok vl \<Longrightarrow> snd (voice vl w) = None"
  by (auto simp: voice_def voice_write_def voice_ok_def split: prod.splits option.splits)
    (metis option.distinct(1) snd_conv)+

lemma voice_ok_speak: "voice_ok vl \<Longrightarrow> snd (speak uc vl w n fl) = None"
  by (auto simp: speak_def speak_trim_def speak_src_def voice_ok_voice Let_def split: prod.splits if_splits)

lemma voice_ok_speak_eq: "voice_ok vl \<Longrightarrow> speak uc vl w n fl = (fst (speak uc vl w n fl), None)"
  using voice_ok_speak by (metis prod.collapse)

text \<open>What a return of \<open>Write\<close> leaves unsent: text that waits for its echo, or a possible marker.\<close>

definition at_rest :: "'v writer \<Rightarrow> bool" where
  "at_rest w \<longleftrightarrow> w_ended w \<or> CHR ''<'' \<notin> set (drop (w_spoken w) (c_reply w)) \<or>
     fst (marker (drop (w_spoken w) (c_reply w))) < 0"

lemma Write_marker_sealed:
  assumes "voice_ok vl" "only_sealed w" "w_spoken w < length (c_reply w)" "Write_marker uc vl w = res"
  shows "case res of Inl (w', e) \<Rightarrow> only_sealed w' \<and> at_rest w' | Inr w' \<Rightarrow> only_sealed w'"
proof -
  obtain n wait u ok where m: "marker (drop (w_spoken w) (c_reply w)) = (n, wait, u, ok)" by (metis prod_cases4)
  have "only_sealed (fst (speak uc vl w 1 False))" if "\<not> n < 0" "\<not> ok"
  proof (rule speak_only_sealed [OF assms(2)])
    fix i assume "w_spoken w \<le> i" "i < w_spoken w + 1"
    then have "i = w_spoken w" by simp
    then show "sealed (drop i (c_reply w))" using marker_text_sealed [OF m that] by simp
  qed (use assms(3) in simp)
  then show ?thesis
    using assms(2,4) m voice_ok_speak_eq [OF assms(1), of uc w 1 False]
    by (auto simp: Write_marker_def at_rest_def only_sealed_def split: prod.splits option.splits)
qed

lemma Write_round_sealed:
  assumes "voice_ok vl" "only_sealed w" "Write_round uc vl w = res"
  shows "case res of Inl (w', e) \<Rightarrow> only_sealed w' \<and> at_rest w' | Inr w' \<Rightarrow> only_sealed w'"
proof (cases "IndexByte CHR ''<'' (drop (w_spoken w) (c_reply w))")
  case None
  let ?n = "length (drop (w_spoken w) (c_reply w))" and ?w = "fst (speak uc vl w (length (drop (w_spoken w) (c_reply w))) False)"
  have n: "w_spoken w + ?n \<le> length (c_reply w)" using assms(2) by (simp add: only_sealed_def)
  have lt: "CHR ''<'' \<notin> set (drop (w_spoken w) (c_reply w))" using None by (simp add: IndexByte_None)
  have sealed: "only_sealed ?w"
    by (rule speak_only_sealed [OF assms(2) n]) (use lt in \<open>auto intro: sealed_no_lt\<close>)
  from speak_text [OF n, of uc vl False] have "at_rest ?w"
  proof
    assume "\<exists>out lead. text_of ?w = (c_reply w, c_said w @ out, w_spoken w + ?n, True, lead, w_ended w, w_answers w)"
    then have "c_reply ?w = c_reply w" "w_spoken ?w = w_spoken w + ?n" by (auto simp: text_of_def)
    then show ?thesis by (simp add: at_rest_def)
  qed (use lt in \<open>simp add: at_rest_def\<close>)
  with sealed assms(3) None voice_ok_speak_eq [OF assms(1), of uc w ?n False] show ?thesis
    by (auto simp: Write_round_def Let_def)
next
  case (Some lt)
  note lt = IndexByte_Some [OF Some]
  show ?thesis
  proof (cases "0 < lt")
    case False
    then have "Write_marker uc vl w = res" using assms(3) Some by (simp add: Write_round_def)
    then show ?thesis using conjunct1 [OF lt] by (intro Write_marker_sealed [OF assms(1,2)]) simp
  next
    case True
    have n: "w_spoken w + lt \<le> length (c_reply w)" using conjunct1 [OF lt] by simp
    let ?w = "fst (speak uc vl w lt False)"
    have sealed: "only_sealed ?w"
      by (rule speak_only_sealed [OF assms(2) n]) (use Some in \<open>auto intro: sealed_before_lt\<close>)
    have "w_spoken ?w < length (c_reply ?w)"
      using speak_text [OF n, of uc vl False] conjunct1 [OF lt] by (auto simp: text_of_def)
    moreover have "Write_marker uc vl ?w = res"
      using assms(3) Some True voice_ok_speak_eq [OF assms(1), of uc w lt False]
      by (auto simp: Write_round_def Let_def split: prod.splits)
    ultimately show ?thesis by (rule Write_marker_sealed [OF assms(1) sealed])
  qed
qed

lemma Write_loop_sealed:
  assumes "voice_ok vl" "Write_loop uc vl w = Some (w', e)" "only_sealed w"
  shows "only_sealed w' \<and> at_rest w'"
proof -
  define P :: "'b speech_tables_scheme \<Rightarrow> 'a voice_lane \<Rightarrow> 'a writer \<Rightarrow> 'a writer \<times> werror option \<Rightarrow> bool" where
    "P = (\<lambda>uc vl w r. voice_ok vl \<longrightarrow> only_sealed w \<longrightarrow> only_sealed (fst r) \<and> at_rest (fst r))"
  have "P uc vl w (w', e)"
    using assms(2)
  proof (rule Write_loop.raw_induct [rotated])
    fix loop uc vl w r
    assume "\<And>uc vl w r. loop uc vl w = Some r \<Longrightarrow> P uc vl w r"
      and "(case Write_round uc vl w of Inl res \<Rightarrow> Some res | Inr w' \<Rightarrow> loop uc vl w') = Some r"
    then show "P uc vl w r"
      using Write_round_sealed [of vl w uc "Write_round uc vl w"] by (auto simp: P_def split: sum.splits)
  qed
  with assms(1,3) show ?thesis by (simp add: P_def)
qed

section \<open>Replies in pieces\<close>

text \<open>
  A session's reply: the pieces the model writes, until \<open>Write\<close> returns an error (the end of
  the reply at a marker), then \<open>flush\<close>.
\<close>

fun write_pieces :: "'b speech_tables_scheme \<Rightarrow> 'v voice_lane \<Rightarrow> 'v writer \<Rightarrow> string list \<Rightarrow> 'v writer option" where
  "write_pieces uc vl w [] = Some w"
| "write_pieces uc vl w (p # ps) =
     (case rw_Write uc vl w p of
        None \<Rightarrow> None
      | Some (w', None) \<Rightarrow> write_pieces uc vl w' ps
      | Some (w', Some e) \<Rightarrow> Some w')"

definition write_reply :: "'b speech_tables_scheme \<Rightarrow> 'v voice_lane \<Rightarrow> 'v writer \<Rightarrow> string list \<Rightarrow> 'v writer option" where
  "write_reply uc vl w ps = map_option (\<lambda>w'. fst (rw_flush uc vl w')) (write_pieces uc vl w ps)"

lemma only_sealed_grow: "only_sealed w \<Longrightarrow> c_reply w' = c_reply w @ p \<Longrightarrow> w_spoken w' = w_spoken w \<Longrightarrow> only_sealed w'"
  by (auto simp: only_sealed_iff intro: sealed_append)

lemma write_pieces_sealed:
  assumes "voice_ok vl" "only_sealed w" "at_rest w" "write_pieces uc vl w ps = Some w'"
  shows "only_sealed w' \<and> at_rest w'"
  using assms(2-)
proof (induction ps arbitrary: w)
  case (Cons p ps)
  show ?case
  proof (cases "w_ended w")
    case True
    with Cons show ?thesis by (simp add: rw_Write_def)
  next
    case False
    define w1 where "w1 = (if c_reply w = [] then w\<lparr>c_obs := c_obs w @ [StageFirstText]\<rparr> else w)"
    have "only_sealed (w1\<lparr>c_reply := c_reply w1 @ p\<rparr>)"
      using Cons.prems(1) by (auto simp: w1_def intro: only_sealed_grow)
    moreover obtain w2 e where w2: "Write_loop uc vl (w1\<lparr>c_reply := c_reply w1 @ p\<rparr>) = Some (w2, e)"
        "rw_Write uc vl w p = Some (w2, e)"
      using Cons.prems(3) False by (auto simp: rw_Write_def w1_def [symmetric] Let_def split: option.splits)
    ultimately have "only_sealed w2 \<and> at_rest w2" using Write_loop_sealed [OF assms(1)] by blast
    with Cons w2 show ?thesis by (auto split: option.splits)
  qed
qed simp

lemma short_marker_length: "short_marker b \<Longrightarrow> length silentMark < length b"
proof -
  assume "short_marker b"
  then obtain e where e: "take (length silentMark) b = silentMark" "IndexByte CHR ''>'' b = Some e"
    by (auto simp: short_marker_iff)
  have "CHR ''>'' \<notin> set silentMark" by (simp add: silentMark_def)
  moreover have "CHR ''>'' \<in> set b" using e(2) by (metis IndexByte_None option.distinct(1))
  ultimately show ?thesis using e(1) by (metis not_less take_all)
qed

lemma flush_no_marker:
  assumes "only_sealed w" "at_rest w" "w' = fst (rw_flush uc vl w)" "i < w_spoken w'"
  shows "\<not> short_marker (drop i (c_reply w'))"
proof (cases "w_ended w \<or> take (length silentMark) (drop (w_spoken w) (c_reply w)) = silentMark")
  case True
  then have "c_reply w' = c_reply w" "w_spoken w' = w_spoken w"
    using assms(3) by (auto simp: rw_flush_def Let_def silentMark_def dest: arg_cong [of _ _ length])
  then show ?thesis using assms(1,4) by (simp add: only_sealed_iff sealed_no_marker)
next
  case False
  let ?u = "drop (w_spoken w) (c_reply w)"
  have n: "w_spoken w + length ?u \<le> length (c_reply w)" using assms(1) by (simp add: only_sealed_def)
  have "w' = fst (speak uc vl w (length ?u) True)" using False assms(3) by (auto simp: rw_flush_def Let_def)
  then have w': "c_reply w' = c_reply w" using speak_text [OF n, of uc vl True] by (auto simp: text_of_def)
  show ?thesis
  proof (cases "i < w_spoken w")
    case True
    then show ?thesis using assms(1) w' by (simp add: only_sealed_iff sealed_no_marker)
  next
    case False
    show ?thesis
    proof (cases "i < length (c_reply w)")
      case True
      from assms(2) \<open>\<not> (w_ended w \<or> _)\<close> consider "CHR ''<'' \<notin> set ?u" | "fst (marker ?u) < 0" by (auto simp: at_rest_def)
      then show ?thesis
      proof cases
        case 1
        then show ?thesis using sealed_no_lt [OF 1 _ True] False w' by (simp add: sealed_no_marker)
      next
        case 2
        then have "take (length ?u) silentMark = ?u"
          using marker_pending [of ?u] \<open>\<not> (w_ended w \<or> _)\<close> by (cases "marker ?u") auto
        then have "length ?u \<le> length silentMark" by (metis length_take min.cobounded1)
        then show ?thesis using False w' short_marker_length [of "drop i (c_reply w)"] by auto
      qed
    qed (use w' short_marker_length [of "drop i (c_reply w)"] in auto)
  qed
qed

end
