(* ===== verification/Reply_Spoken.thy ===== *)
theory Reply_Spoken
  imports Reply_Streaming "HOL-Library.Sublist"
begin

text \<open>
  The whole reply: what is spoken of it, that \<open>Write\<close> returns where a repetition of the
  message is out of the question, and a reply on which it does not.
\<close>

section \<open>A reply to a short message\<close>

definition short_message :: "'b speech_tables_scheme \<Rightarrow> string \<Rightarrow> bool" where
  "short_message uc message \<longleftrightarrow> length (message_words uc message) < 3"

text \<open>All that was passed on is spoken as it was written.\<close>

definition plain_writer :: "'b speech_tables_scheme \<Rightarrow> 'v writer \<Rightarrow> bool" where
  "plain_writer uc w \<longleftrightarrow> short_message uc (w_answers w) \<and> \<not> w_trimLead w \<and> w_spoken w \<le> length (c_reply w) \<and>
     utf8_Valid (take (w_spoken w) (c_reply w)) \<and> utf8_Valid (drop (w_spoken w) (c_reply w)) \<and>
     c_said w = speakable uc (take (w_spoken w) (c_reply w))"

lemma speak_plain:
  assumes "voice_ok vl" "plain_writer uc w" "w_spoken w + n \<le> length (c_reply w)"
    and "utf8_Valid (take n (drop (w_spoken w) (c_reply w)))" "utf8_Valid (drop (w_spoken w + n) (c_reply w))"
  shows "\<exists>w'. speak uc vl w n fl = (w', None) \<and> plain_writer uc w' \<and> w_spoken w' = w_spoken w + n \<and>
              c_reply w' = c_reply w \<and> w_ended w' = w_ended w"
proof (cases "n = 0")
  case True
  then show ?thesis using assms by (simp add: speak_def)
next
  case False
  define src where "src = take n (drop (w_spoken w) (c_reply w))"
  define w1 where "w1 = w\<lparr>w_decided := True\<rparr>"
  have "echoOf uc lead (w_answers w) = (0, False)" for lead
    using assms(2) by (simp add: plain_writer_def short_message_def echoOf_def)
  moreover have "w1 = w" if "w_decided w" using that by (simp add: w1_def)
  ultimately have "speak uc vl w n fl = speak_trim uc vl w1 n"
    using False by (auto simp: speak_def w1_def [symmetric])
  also have "\<dots> = speak_src uc vl w1 src"
    using assms(2) by (simp add: speak_trim_def src_def w1_def plain_writer_def)
  finally have s: "speak uc vl w n fl = speak_src uc vl w1 src" .
  define w' where "w' = fst (speak_src uc vl w1 src)"
  have len: "length src = n" using assms(3) by (simp add: src_def)
  have t: "text_of w' = (c_reply w, c_said w @ speakable uc src, w_spoken w + n, True, w_trimLead w, w_ended w, w_answers w)"
    using text_of_speak_src [of uc vl w1 src] len by (simp add: w'_def w1_def)
  have "take (w_spoken w + n) (c_reply w) = take (w_spoken w) (c_reply w) @ src"
    by (simp add: src_def take_add)
  then have "plain_writer uc w'"
    using t assms(2-5) by (simp add: text_of_def plain_writer_def speakable_append utf8_Valid_append src_def [symmetric])
  moreover have "speak uc vl w n fl = (w', None)"
    using s voice_ok_speak_eq [OF assms(1), of uc w n fl] by (simp add: w'_def)
  ultimately show ?thesis using t by (auto simp: text_of_def)
qed

text \<open>One round with such a writer: it returns, or it has passed on something.\<close>

lemma Write_marker_plain:
  assumes "voice_ok vl" "plain_writer uc w" "w_spoken w < length (c_reply w)" "c_reply w ! w_spoken w = CHR ''<''"
    "Write_marker uc vl w = res"
  shows "case res of
           Inl (w', e) \<Rightarrow> plain_writer uc w' \<and> c_reply w' = c_reply w \<and> (e = None \<or> w_ended w') \<and>
             (w_ended w' \<longrightarrow> w_ended w \<or> snd (snd (snd (marker (drop (w_spoken w') (c_reply w')))))) \<and>
             (w_ended w' \<or> fst (marker (drop (w_spoken w') (c_reply w'))) < 0)
         | Inr w' \<Rightarrow> plain_writer uc w' \<and> c_reply w' = c_reply w \<and> w_ended w' = w_ended w \<and> w_spoken w' = w_spoken w + 1"
proof -
  obtain n wait u ok where m: "marker (drop (w_spoken w) (c_reply w)) = (n, wait, u, ok)" by (metis prod_cases4)
  have u: "drop (w_spoken w) (c_reply w) = CHR ''<'' # drop (w_spoken w + 1) (c_reply w)"
    using assms(3,4) by (simp add: Cons_nth_drop_Suc [symmetric])
  have lt: "bv CHR ''<'' < 128" by simp
  have "utf8_Valid (drop (w_spoken w + 1) (c_reply w))" "utf8_Valid [CHR ''<'']"
    using assms(2) utf8_Valid_ascii [OF lt] unfolding plain_writer_def u by auto
  then obtain w2 where w2: "speak uc vl w 1 False = (w2, None)" "plain_writer uc w2"
      "w_spoken w2 = w_spoken w + 1" "c_reply w2 = c_reply w" "w_ended w2 = w_ended w"
    using speak_plain [OF assms(1,2), of 1 False] assms(3) by (auto simp: u)
  show ?thesis
  proof (cases "n < 0 \<or> ok")
    case True
    then show ?thesis using assms(2,5) m
      by (auto simp: Write_marker_def plain_writer_def)
  next
    case False
    then show ?thesis using assms(5) m w2 by (auto simp: Write_marker_def)
  qed
qed

lemma Write_round_plain:
  assumes "voice_ok vl" "plain_writer uc w" "w_spoken w \<le> length (c_reply w)" "Write_round uc vl w = res"
  shows "case res of
           Inl (w', e) \<Rightarrow> plain_writer uc w' \<and> c_reply w' = c_reply w \<and> (e = None \<or> w_ended w') \<and>
             (w_ended w' \<longrightarrow> w_ended w \<or> snd (snd (snd (marker (drop (w_spoken w') (c_reply w')))))) \<and>
             (w_ended w' \<or> w_spoken w' = length (c_reply w') \<or> fst (marker (drop (w_spoken w') (c_reply w'))) < 0)
         | Inr w' \<Rightarrow> plain_writer uc w' \<and> c_reply w' = c_reply w \<and> w_ended w' = w_ended w \<and>
             w_spoken w < w_spoken w' \<and> w_spoken w' \<le> length (c_reply w)"
proof (cases "IndexByte CHR ''<'' (drop (w_spoken w) (c_reply w))")
  case None
  with speak_plain [OF assms(1,2), of "length (drop (w_spoken w) (c_reply w))" False] assms(2-4)
  show ?thesis by (auto simp: Write_round_def plain_writer_def)
next
  case (Some lt)
  note lt = IndexByte_Some [OF Some]
  let ?u = "drop (w_spoken w) (c_reply w)"
  have u: "?u = take lt ?u @ CHR ''<'' # drop (lt + 1) ?u"
    using lt by (metis Suc_eq_plus1 id_take_nth_drop)
  have "bv CHR ''<'' < 128" by simp
  from utf8_Valid_before_ascii [OF this, of "take lt ?u" "drop (lt + 1) ?u"] assms(2) u
  have v: "utf8_Valid (take lt ?u)" "utf8_Valid (drop (w_spoken w + lt) (c_reply w))"
    unfolding plain_writer_def by (metis, metis append_eq_conv_conj drop_drop add.commute append_take_drop_id same_append_eq)
  have n: "w_spoken w + lt < length (c_reply w)" using conjunct1 [OF lt] by simp
  obtain w1 where w1: "speak uc vl w lt False = (w1, None)" "plain_writer uc w1"
      "w_spoken w1 = w_spoken w + lt" "c_reply w1 = c_reply w" "w_ended w1 = w_ended w"
    using speak_plain [OF assms(1,2) _ v, of False] n by auto
  have "Write_marker uc vl w1 = res"
    using assms(4) Some w1(1) by (auto simp: Write_round_def speak_def split: if_splits)
  moreover have "c_reply w1 ! w_spoken w1 = CHR ''<''" using lt n w1 by simp
  ultimately show ?thesis
    using Write_marker_plain [OF assms(1) w1(2), of res] n w1 by (auto split: sum.splits)
qed

lemma Write_loop_plain:
  assumes "voice_ok vl" "plain_writer uc w" "w_spoken w \<le> length (c_reply w)"
  shows "\<exists>w' e. Write_loop uc vl w = Some (w', e) \<and> plain_writer uc w' \<and> c_reply w' = c_reply w \<and> (e = None \<or> w_ended w') \<and>
             (w_ended w' \<longrightarrow> w_ended w \<or> snd (snd (snd (marker (drop (w_spoken w') (c_reply w')))))) \<and>
             (w_ended w' \<or> w_spoken w' = length (c_reply w') \<or> fst (marker (drop (w_spoken w') (c_reply w'))) < 0)"
  using assms(2,3)
proof (induction "length (c_reply w) - w_spoken w" arbitrary: w rule: less_induct)
  case less
  note round = Write_round_plain [OF assms(1) less.prems refl]
  show ?case
  proof (cases "Write_round uc vl w")
    case (Inl res)
    with round show ?thesis by (cases res) (auto simp: Write_loop.simps [of uc vl w])
  next
    case (Inr w1)
    with round less.hyps [of w1] show ?thesis by (auto simp: Write_loop.simps [of uc vl w])
  qed
qed

text \<open>Where the pieces, \<open>whole\<close> in all, have left the writer.\<close>

definition pieces_end :: "'v writer \<Rightarrow> string \<Rightarrow> bool" where
  "pieces_end w whole \<longleftrightarrow>
     (if w_ended w then prefix (c_reply w) whole \<and> snd (snd (snd (marker (drop (w_spoken w) (c_reply w)))))
      else c_reply w = whole \<and>
           (w_spoken w = length (c_reply w) \<or> fst (marker (drop (w_spoken w) (c_reply w))) < 0))"

lemma write_pieces_plain:
  assumes "voice_ok vl" "plain_writer uc w" "w_spoken w \<le> length (c_reply w)" "\<not> w_ended w" "list_all utf8_Valid ps"
    "w_spoken w = length (c_reply w) \<or> fst (marker (drop (w_spoken w) (c_reply w))) < 0"
  shows "\<exists>w'. write_pieces uc vl w ps = Some w' \<and> plain_writer uc w' \<and>
           pieces_end w' (c_reply w @ concat ps)"
  using assms(2-)
proof (induction ps arbitrary: w)
  case (Cons p ps)
  define w1 where "w1 = (if c_reply w = [] then w\<lparr>c_obs := c_obs w @ [StageFirstText]\<rparr> else w)\<lparr>c_reply := c_reply w @ p\<rparr>"
  have "plain_writer uc w1" "w_spoken w1 \<le> length (c_reply w1)" "c_reply w1 = c_reply w @ p" "\<not> w_ended w1"
    using Cons.prems by (auto simp: w1_def plain_writer_def utf8_Valid_append)
  with Write_loop_plain [OF assms(1)] obtain w2 e where w2: "Write_loop uc vl w1 = Some (w2, e)" "plain_writer uc w2"
      "c_reply w2 = c_reply w @ p" "e = None \<or> w_ended w2"
      "w_ended w2 \<Longrightarrow> snd (snd (snd (marker (drop (w_spoken w2) (c_reply w2)))))"
      "w_ended w2 \<or> w_spoken w2 = length (c_reply w2) \<or> fst (marker (drop (w_spoken w2) (c_reply w2))) < 0"
    by metis
  have step: "rw_Write uc vl w p = Some (w2, e)"
    using Cons.prems(3) w2(1) by (auto simp: rw_Write_def w1_def Let_def)
  show ?case
  proof (cases "w_ended w2")
    case False
    have "w_spoken w2 \<le> length (c_reply w2)" using w2(2) by (simp add: plain_writer_def)
    moreover have "list_all utf8_Valid ps" using Cons.prems(4) by simp
    moreover have "w_spoken w2 = length (c_reply w2) \<or> fst (marker (drop (w_spoken w2) (c_reply w2))) < 0"
      using w2(6) False by blast
    moreover have "e = None" using w2(4) False by blast
    then have "write_pieces uc vl w (p # ps) = write_pieces uc vl w2 ps" using step by simp
    ultimately show ?thesis using Cons.IH [OF w2(2) _ False] by (simp add: w2(3))
  next
    case True
    have "write_pieces uc vl w2 ps = Some w2" by (induction ps) (simp_all add: rw_Write_def True)
    with step w2 True show ?thesis by (auto simp: pieces_end_def split: option.splits)
  qed
qed (auto simp: pieces_end_def)

text \<open>A writer as \<open>run\<close> leaves it before the model's first word.\<close>

definition start_writer :: "'v \<Rightarrow> bool \<Rightarrow> string \<Rightarrow> string \<Rightarrow> 'v writer" where
  "start_writer v audio speaker message =
     rw_begin \<lparr>c_reply = [], c_said = [], c_spans = [], c_saying = [], c_voicing = False, c_voiceAt = 0,
       c_captioned = 0, c_userShown = False, c_obs = [], c_voice = v, w_answers = [], w_spoken = 0,
       w_decided = False, w_echoed = False, w_trimLead = False, w_ended = False, w_wait = 0, w_until = [],
       w_round = 0, j_audio = False, j_speaker = []\<rparr> audio speaker message"

lemma start_writer_fields [simp]:
  "c_reply (start_writer v a sp m) = []" "c_said (start_writer v a sp m) = []" "w_spoken (start_writer v a sp m) = 0"
  "\<not> w_ended (start_writer v a sp m)" "w_answers (start_writer v a sp m) = m" "\<not> w_trimLead (start_writer v a sp m)"
  by (simp_all add: start_writer_def rw_begin_def)


text \<open>The reply of well-formed pieces, written and flushed.\<close>

lemma reply_pieces_spoken:
  assumes "voice_ok vl" "short_message uc message" "list_all utf8_Valid ps"
  shows "\<exists>w. write_reply uc vl (start_writer v audio speaker message) ps = Some w \<and>
           c_said w = speakable uc (take (w_spoken w) (concat ps)) \<and>
           (if w_ended w then take (length silentMark) (drop (w_spoken w) (concat ps)) = silentMark
            else w_spoken w = length (concat ps))"
proof -
  let ?w0 = "start_writer v audio speaker message"
  have "plain_writer uc ?w0" using assms(2) by (simp add: plain_writer_def speakable.simps [of uc "[]"])
  from write_pieces_plain [OF assms(1) this _ _ assms(3)] obtain w1 where
    w1: "write_pieces uc vl ?w0 ps = Some w1" "plain_writer uc w1"
      "pieces_end w1 (concat ps)"
    by auto
  have le: "w_spoken w1 \<le> length (c_reply w1)" using w1(2) by (simp add: plain_writer_def)
  let ?u = "drop (w_spoken w1) (c_reply w1)"
  have reply: "write_reply uc vl ?w0 ps = Some (fst (rw_flush uc vl w1))" using w1(1) by (simp add: write_reply_def)
  show ?thesis
  proof (cases "w_ended w1 \<or> take (length silentMark) ?u = silentMark")
    case True
    then have "take (length silentMark) ?u = silentMark"
      using w1(3) by (auto simp: pieces_end_def marker_def split: if_splits)
    then obtain r where "?u = silentMark @ r" by (metis append_take_drop_id)
    moreover obtain t where t: "concat ps = c_reply w1 @ t" using w1(3) by (auto simp: pieces_end_def prefix_def split: if_splits)
    ultimately have "take (length silentMark) (drop (w_spoken w1) (concat ps)) = silentMark"
      using le by simp
    moreover have "c_said w1 = speakable uc (take (w_spoken w1) (concat ps))"
      using w1(2) le t by (simp add: plain_writer_def)
    moreover have "length silentMark \<le> length ?u" using \<open>?u = silentMark @ r\<close> by simp
    ultimately show ?thesis using True reply by (auto simp: rw_flush_def Let_def)
  next
    case False
    then have all: "c_reply w1 = concat ps" using w1(3) by (simp add: pieces_end_def)
    have "rw_flush uc vl w1 = speak uc vl w1 (length ?u) True" using False by (auto simp: rw_flush_def Let_def)
    moreover have "utf8_Valid (take (length ?u) ?u)" using w1(2) by (simp add: plain_writer_def)
    ultimately obtain w2 where "rw_flush uc vl w1 = (w2, None)" "plain_writer uc w2"
        "w_spoken w2 = length (concat ps)" "c_reply w2 = concat ps" "\<not> w_ended w2"
      using speak_plain [OF assms(1) w1(2), of "length ?u" True] le False all by auto
    then show ?thesis using reply by (auto simp: plain_writer_def)
  qed
qed

text \<open>
  A reply of well-formed pieces to a message of fewer than three words, with a voice that
  does not fail: every \<open>Write\<close> returns, and what is said is exactly the reply up to
  the marker that ended it, or all of it when none did, less the runes a voice cannot say.
\<close>

theorem reply_spoken:
  assumes "voice_ok vl" "short_message uc message" "list_all utf8_Valid ps"
  shows "\<exists>w. write_reply uc vl (start_writer v audio speaker message) ps = Some w \<and>
           c_said w = speakable uc (take (w_spoken w) (concat ps)) \<and>
           (if w_ended w then take (length silentMark) (drop (w_spoken w) (concat ps)) = silentMark
            else w_spoken w = length (concat ps))"
  by (rule reply_pieces_spoken [OF assms])

section \<open>A reply that is never written out\<close>

lemma Write_loop_stuck:
  assumes "Write_round uc vl w = Inr w"
  shows "Write_loop uc vl w = None"
proof (rule ccontr)
  assume "Write_loop uc vl w \<noteq> None"
  then obtain r where r: "Write_loop uc vl w = Some r" by auto
  define P :: "'b speech_tables_scheme \<Rightarrow> 'a voice_lane \<Rightarrow> 'a writer \<Rightarrow> 'a writer \<times> werror option \<Rightarrow> bool" where
    "P = (\<lambda>uc vl w r. Write_round uc vl w \<noteq> Inr w)"
  from r have "P uc vl w r"
  proof (rule Write_loop.raw_induct [rotated])
    fix loop uc vl w r
    assume "\<And>uc vl w r. loop uc vl w = Some r \<Longrightarrow> P uc vl w r"
      and "(case Write_round uc vl w of Inl res \<Rightarrow> Some res | Inr w' \<Rightarrow> loop uc vl w') = Some r"
    then show "P uc vl w r" unfolding P_def by (cases "Write_round uc vl w") fastforce+
  qed
  with assms show False by (simp add: P_def)
qed

text \<open>
  C11: \<open>Write\<close> never returns when a \<open><\<close> arrives while the reply so far may still become a
  repetition of the message: the text before it is held back, so that the marker is looked for
  at the start of the reply, where there is none, and the one byte then passed on is held back
  as well.
\<close>

theorem Write_stuck:
  assumes "\<not> w_ended w" "\<not> w_decided w" "w_spoken w = 0" "c_reply w @ p = reply"
    and "IndexByte CHR ''<'' reply = Some lt" "0 < lt"
    and "echoOf uc (take lt reply) (w_answers w) = (0, True)" "echoOf uc (take 1 reply) (w_answers w) = (0, True)"
  shows "rw_Write uc vl w p = None"
proof -
  define w1 where "w1 = (if c_reply w = [] then w\<lparr>c_obs := c_obs w @ [StageFirstText]\<rparr> else w)\<lparr>c_reply := c_reply w @ p\<rparr>"
  have w1: "c_reply w1 = reply" "w_spoken w1 = 0" "\<not> w_decided w1" "w_answers w1 = w_answers w"
    using assms by (simp_all add: w1_def)
  obtain c cs where r: "reply = c # cs" "c \<noteq> CHR ''<''"
    using IndexByte_Some [OF assms(5)] assms(5,6) by (cases reply) (auto split: if_splits)
  have "marker reply = (0, 0, [], False)" by (simp add: marker_def silentMark_def r r(2) [symmetric])
  moreover have "speak uc vl w1 1 False = (w1, None)" "speak uc vl w1 lt False = (w1, None)"
    using w1 assms(6-8) by (simp_all add: speak_def)
  ultimately have "Write_round uc vl w1 = Inr w1"
    using w1 assms(5,6) by (simp add: Write_round_def Write_marker_def)
  from Write_loop_stuck [OF this] show ?thesis
    using assms(1) by (auto simp: rw_Write_def w1_def Let_def)
qed

section \<open>The time a marker asks for\<close>

lemma read_nat_mono: "a \<le> read_nat_acc a s"
proof (induction s arbitrary: a)
  case (Cons c s)
  have "a \<le> a * 10 + (of_char c - 48)" by simp
  also have "\<dots> \<le> read_nat_acc (a * 10 + (of_char c - 48)) s" by (rule Cons.IH)
  finally show ?case by simp
qed simp

lemma digits_value_read:
  assumes "list_all is_digit s" "int (read_nat_acc a s) \<le> max_int"
  shows "digits_value (int a) s = int (read_nat_acc a s)"
  using assms
proof (induction s arbitrary: a)
  case (Cons c s)
  let ?b = "a * 10 + (bv c - 48)"
  have b: "int a * 10 + (int (bv c) - 48) = int ?b" using Cons.prems(1) by (simp add: is_digit_def of_nat_diff)
  have "int ?b \<le> max_int" using read_nat_mono [of ?b s] Cons.prems(2) by simp
  then have "wrap_int (int ?b) = int ?b" by (intro wrap_int_id) (simp add: max_int_def)
  then have "digits_value (int a) (c # s) = digits_value (int ?b) s" by (simp only: digits_value.simps b)
  also have "\<dots> = int (read_nat_acc ?b s)" using Cons.prems by (intro Cons.IH) simp_all
  finally show ?case by simp
qed simp

lemma show_nat_is_digit: "list_all is_digit (show_nat n)"
  using show_nat_digits [of n] by (auto simp: list_all_iff is_digit_def of_digit_char)

lemma show_nat_nonempty: "show_nat n \<noteq> []"
  by (subst show_nat.simps) simp

lemma TrimSpace_s: "TrimSpace ''s'' = ''s''"
  by (rule TrimSpace_id) (simp add: is_plain_def)

lemma IndexByte_app_none: "c \<notin> set s \<Longrightarrow> IndexByte c (s @ c # t) = Some (length s)"
  by (induction s) auto

lemma cut_at_none: "c \<notin> set s \<Longrightarrow> cut_at n s (c # sep) = None"
proof (induction n arbitrary: s)
  case 0
  then show ?case by (cases s) auto
next
  case (Suc n)
  then show ?case using Suc.IH [of "tl s"] by (cases s) auto
qed

text \<open>
  A marker that asks for \<open>n\<close> seconds, written in decimal, is read as such, with the time cut
  at one hour, for every \<open>n\<close> whose nanoseconds fit in 64 bits.
\<close>

theorem marker_asks:
  assumes "n \<le> 9223372036"
  shows "marker (''<silent '' @ show_nat n @ ''s>'' @ rest) =
           (int (length (show_nat n)) + 10, min (int n * second) hour, [], True)"
proof -
  define d where "d = show_nat n"
  have dig: "list_all is_digit d" "d \<noteq> []" using show_nat_is_digit show_nat_nonempty by (simp_all add: d_def)
  have no: "c \<notin> set d" if "\<not> is_digit c" for c using dig(1) that by (auto simp: list_all_iff)
  define inner where "inner = '' '' @ d @ ''s''"
  have b: "''<silent '' @ d @ ''s>'' @ rest = (silentMark @ inner) @ CHR ''>'' # rest" by (simp add: silentMark_def inner_def)
  have "CHR ''>'' \<notin> set (silentMark @ inner)" using no [of "CHR ''>''"] by (simp add: silentMark_def inner_def is_digit_def)
  then have e: "IndexByte CHR ''>'' ((silentMark @ inner) @ CHR ''>'' # rest) = Some (length (silentMark @ inner))"
    by (rule IndexByte_app_none)
  have u: "marker_until inner = None"
  proof -
    have "CHR ''u'' \<notin> set inner" using no [of "CHR ''u''"] by (simp add: inner_def is_digit_def)
    from cut_at_none [OF this] show ?thesis by (simp add: marker_until_def Cut_def)
  qed
  have tw: "takeWhile is_digit (d @ ''s'') = d" "dropWhile is_digit (d @ ''s'') = ''s''"
    using dig(1) by (simp_all add: list_all_iff takeWhile_append2 dropWhile_append2 is_digit_def)
  have dw: "dropWhile (\<lambda>c. \<not> is_digit c) inner = d @ ''s''"
    using dig by (cases d) (simp_all add: inner_def is_digit_def)
  have v: "digits_value 0 d = int n"
    using digits_value_read [OF dig(1), of 0] assms by (simp add: d_def read_show_nat max_int_def)
  have "wrap_int (int n * second) = int n * second"
    using assms by (intro wrap_int_id) (simp add: second_def max_int_def)
  then have "marker_wait inner = min (int n * second) hour"
    using dig(2) by (simp add: marker_wait_def dw tw v TrimSpace_s fold_byte_def min_def)
  then show ?thesis
    unfolding d_def [symmetric] b by (simp add: marker_def e u del: append_assoc) (simp add: inner_def silentMark_def)
qed

text \<open>Beyond that the product wraps around, and the time may be negative.\<close>

lemma marker_overflow: "marker ''<silent 10000000000s>'' = (21, -8446744073709551616, [], True)"
  by code_simp

section \<open>Concrete replies\<close>

text \<open>ASCII letters and digits, white space and punctuation.\<close>

definition ascii_letter :: "nat \<Rightarrow> bool" where
  "ascii_letter r \<longleftrightarrow> 65 \<le> r \<and> r \<le> 90 \<or> 97 \<le> r \<and> r \<le> 122"

definition ascii_speech :: speech_tables where
  "ascii_speech = \<lparr>IsLetter = ascii_letter, IsNumber = (\<lambda>r. 48 \<le> r \<and> r \<le> 57), IsSpace = (\<lambda>r. r = 32 \<or> 9 \<le> r \<and> r \<le> 13),
     IsMark = (\<lambda>_. False), ToLower = (\<lambda>r. if 65 \<le> r \<and> r \<le> 90 then r + 32 else r),
     IsPunct = (\<lambda>r. r = 33 \<or> r = 44 \<or> r = 46 \<or> r = 63), IsSo = (\<lambda>_. False), IsSk = (\<lambda>_. False),
     IsDigit = (\<lambda>r. 48 \<le> r \<and> r \<le> 57), IsUnspaced = (\<lambda>_. False)\<rparr>"

text \<open>A voice that keeps the text it is given.\<close>

definition tape_voice :: "string voice_lane" where
  "tape_voice = \<lparr>VBegin = (\<lambda>v. (v, None)), VWrite = (\<lambda>v s. (v @ s, None)), VAwait = (\<lambda>v. (v, None)),
     VVoiced = (\<lambda>_ _. 0), VPlayed = (\<lambda>_. 0), outRate = 24000\<rparr>"

lemma tape_voice_ok: "voice_ok tape_voice"
  by (simp add: voice_ok_def tape_voice_def)

lemma hi_short: "short_message ascii_speech ''hi''"
  by code_simp


theorem reply_spoken_witness:
  "\<exists>w. write_reply ascii_speech tape_voice (start_writer [] True [] ''hi'') [''Su*'', ''re.''] = Some w \<and> c_said w = ''Sure.''"
proof -
  have valid: "list_all utf8_Valid [''Su*'', ''re.'']" by (simp add: utf8_Valid_ascii)
  have c: "concat [''Su*'', ''re.''] = ''Su*re.''" by simp
  from reply_spoken [OF tape_voice_ok hi_short valid, of "[]" True "[]", unfolded c] obtain w where
    w: "write_reply ascii_speech tape_voice (start_writer [] True [] ''hi'') [''Su*'', ''re.''] = Some w"
      "c_said w = speakable ascii_speech (take (w_spoken w) ''Su*re.'')"
      "if w_ended w then take (length silentMark) (drop (w_spoken w) ''Su*re.'') = silentMark else w_spoken w = length ''Su*re.''"
    by blast
  have "length (take (length silentMark) (drop (w_spoken w) ''Su*re.'')) < length silentMark" by (simp add: silentMark_def)
  then have "take (length silentMark) (drop (w_spoken w) ''Su*re.'') \<noteq> silentMark" by (metis less_irrefl)
  with w(3) have "w_spoken w = 6" by (cases "w_ended w") simp_all
  moreover have "speakable ascii_speech ''Su*re.'' = ''Sure.''"
    by (simp add: speakable.simps DecodeRune_def RuneSelf_def unspeakable_def ascii_speech_def AppendRune_def) code_simp
  ultimately show ?thesis using w by auto
qed

theorem Write_stuck_witness:
  "rw_Write ascii_speech tape_voice (start_writer [] True [] ''Okay, see you later.'') ''Okay <silent>'' = None"
proof (rule Write_stuck)
  show "IndexByte CHR ''<'' ''Okay <silent>'' = Some 5" by code_simp
  show "echoOf ascii_speech (take 5 ''Okay <silent>'') (w_answers (start_writer [] True [] ''Okay, see you later.'')) = (0, True)"
    by code_simp
  show "echoOf ascii_speech (take 1 ''Okay <silent>'') (w_answers (start_writer [] True [] ''Okay, see you later.'')) = (0, True)"
    by code_simp
qed (simp_all add: start_writer_def rw_begin_def)

theorem marker_asks_witness: "marker ''<silent 90s>'' = (12, 90000000000, [], True)"
proof -
  have "show_nat 90 = ''90''" by code_simp
  then show ?thesis using marker_asks [of 90 "[]"] by (simp add: second_def hour_def minute_def)
qed

end
