(* ===== verification/Sample_Ring.thy ===== *)
theory Sample_Ring
  imports Go_Prelude
begin

text \<open>
  The ring of \<open>duplex/cascade.go\<close>: a bounded buffer of samples between one writer and one
  reader, held in a slice that wraps around, with a generation that a reset advances.  The model
  keeps the slice, the index arithmetic and the two copy loops; a slice or division that would
  panic is \<open>None\<close>.  The mutex makes every method atomic, so that an interleaving of writer and
  reader is a sequence of the methods.

  The specification is a queue that keeps the last \<open>capacity\<close> samples.  The locale
  \<open>bounded_fifo\<close> is the contract the cascade relies on; \<open>ring_runs\<close> carries it over to
  any sequence of calls.
\<close>

section \<open>The code\<close>

record 'a sample_ring =
  r_buf :: "'a list"
  r_head :: nat
  r_n :: nat
  r_gen :: "32 word"

definition newRing :: "'a \<Rightarrow> nat \<Rightarrow> 'a sample_ring" where
  "newRing zero capacity = \<lparr>r_buf = replicate capacity zero, r_head = 0, r_n = 0, r_gen = 0\<rparr>"

text \<open>The first two statements of the loop: a full ring forgets its oldest sample.\<close>

definition ring_make_room :: "'a sample_ring \<Rightarrow> 'a sample_ring" where
  "ring_make_room r =
     (if r_n r = length (r_buf r)
      then r\<lparr>r_head := (r_head r + 1) mod length (r_buf r), r_n := r_n r - 1\<rparr> else r)"

definition ring_tail :: "'a sample_ring \<Rightarrow> nat" where
  "ring_tail r = (r_head r + r_n r) mod length (r_buf r)"

text \<open>How many samples of \<open>v\<close> the copy of one round moves.\<close>

definition ring_chunk :: "'a sample_ring \<Rightarrow> 'a list \<Rightarrow> nat" where
  "ring_chunk r v =
     min (min (length (r_buf r)) (ring_tail r + length (r_buf r) - r_n r) - ring_tail r) (length v)"

definition ring_copy_in :: "'a sample_ring \<Rightarrow> 'a list \<Rightarrow> 'a sample_ring" where
  "ring_copy_in r v =
     (let k = ring_chunk r v; t = ring_tail r in
      r\<lparr>r_buf := take t (r_buf r) @ take k v @ drop (t + k) (r_buf r), r_n := r_n r + k\<rparr>)"

lemma ring_chunk_pos:
  assumes "v \<noteq> []" "r_buf r \<noteq> []" "r_n r < length (r_buf r)"
  shows "0 < ring_chunk r v"
proof -
  have "ring_tail r < length (r_buf r)" using assms(2) by (simp add: ring_tail_def)
  then show ?thesis using assms by (simp add: ring_chunk_def)
qed

lemma ring_make_room_buf [simp]: "r_buf (ring_make_room r) = r_buf r"
  by (simp add: ring_make_room_def)

lemma ring_make_room_n:
  "r_buf r \<noteq> [] \<Longrightarrow> r_n (ring_make_room r) \<noteq> length (r_buf r)"
  by (cases "r_buf r") (auto simp: ring_make_room_def)

function ring_append :: "'a sample_ring \<Rightarrow> 'a list \<Rightarrow> 'a sample_ring option" where
  "ring_append r v =
     (if v = [] then Some r
      else if r_buf r = [] then None
      else let r1 = ring_make_room r in
        if length (r_buf r1) < r_n r1 then None
        else ring_append (ring_copy_in r1 v) (drop (ring_chunk r1 v) v))"
  by pat_completeness auto

termination
proof (relation "measure (\<lambda>(r, v). length v)", goal_cases)
  case (2 r v r1)
  have "r_n r1 < length (r_buf r1)"
    using 2 ring_make_room_n [of r] by (simp add: nat_less_le)
  then have "0 < ring_chunk r1 v"
    using 2 by (intro ring_chunk_pos) auto
  then show ?case using 2 by simp
qed simp

declare ring_append.simps [simp del]

definition ring_write :: "'a sample_ring \<Rightarrow> 'a list \<Rightarrow> 'a sample_ring option" where
  "ring_write r v = ring_append r v"

definition ring_writeAt :: "'a sample_ring \<Rightarrow> 32 word \<Rightarrow> 'a list \<Rightarrow> 'a sample_ring option" where
  "ring_writeAt r gen v = (if r_gen r = gen then ring_append r v else Some r)"

text \<open>One round of \<open>read\<close>: the samples \<open>copy\<close> moves out, and the ring after them.\<close>

definition ring_front :: "'a sample_ring \<Rightarrow> nat \<Rightarrow> 'a list" where
  "ring_front r room =
     take room (take (min (length (r_buf r)) (r_head r + r_n r) - r_head r) (drop (r_head r) (r_buf r)))"

definition ring_drop :: "'a sample_ring \<Rightarrow> nat \<Rightarrow> 'a sample_ring" where
  "ring_drop r k = r\<lparr>r_head := (r_head r + k) mod length (r_buf r), r_n := r_n r - k\<rparr>"

text \<open>The loop of \<open>read\<close>: \<open>n\<close> samples of \<open>dst\<close> are filled.\<close>

function ring_read_loop :: "'a sample_ring \<Rightarrow> 'a list \<Rightarrow> nat \<Rightarrow> ('a sample_ring \<times> 'a list \<times> nat) option" where
  "ring_read_loop r dst n =
     (if n < length dst \<and> 0 < r_n r then
        if r_buf r = [] \<or> length (r_buf r) < r_head r then None
        else let xs = ring_front r (length dst - n); k = length xs in
          ring_read_loop (ring_drop r k) (take n dst @ xs @ drop (n + k) dst) (n + k)
      else Some (r, dst, n))"
  by pat_completeness auto

termination
proof (relation "measures [\<lambda>(r, dst, n). length dst - n, \<lambda>(r, dst, n). r_head r]", goal_cases)
  case (2 r dst n xs k)
  have len: "length (take n dst @ xs @ drop (n + k) dst) = length dst"
    using 2 by (auto simp: ring_front_def)
  show ?case
  proof (cases "r_head r = length (r_buf r)")
    case True
    then have "k = 0" using 2 by (simp add: ring_front_def)
    then show ?thesis using True 2 len by (simp add: ring_drop_def)
  next
    case False
    then have "0 < k" using 2 by (simp add: ring_front_def)
    with 2(1) have "length dst - (n + k) < length dst - n" by linarith
    then show ?thesis using 2(3,4) len by simp
  qed
qed simp

declare ring_read_loop.simps [simp del]

definition ring_read :: "'a sample_ring \<Rightarrow> 'a list \<Rightarrow> ('a sample_ring \<times> 'a list \<times> nat) option" where
  "ring_read r dst = ring_read_loop r dst 0"

definition ring_len :: "'a sample_ring \<Rightarrow> nat" where
  "ring_len r = r_n r"

definition ring_reset :: "'a sample_ring \<Rightarrow> 'a sample_ring" where
  "ring_reset r = r\<lparr>r_head := 0, r_n := 0, r_gen := r_gen r + 1\<rparr>"

definition ring_generation :: "'a sample_ring \<Rightarrow> 32 word" where
  "ring_generation r = r_gen r"

section \<open>What a ring holds\<close>

definition ring_wf :: "'a sample_ring \<Rightarrow> bool" where
  "ring_wf r \<longleftrightarrow> r_head r < length (r_buf r) \<and> r_n r \<le> length (r_buf r)"

definition ring_contents :: "'a sample_ring \<Rightarrow> 'a list" where
  "ring_contents r = map (\<lambda>i. r_buf r ! ((r_head r + i) mod length (r_buf r))) [0..<r_n r]"

definition ring_cap :: "'a sample_ring \<Rightarrow> nat" where
  "ring_cap r = length (r_buf r)"

text \<open>The last \<open>c\<close> elements of a list.\<close>

definition last_n :: "nat \<Rightarrow> 'a list \<Rightarrow> 'a list" where
  "last_n c xs = drop (length xs - c) xs"

lemma last_n_short [simp]: "length xs \<le> c \<Longrightarrow> last_n c xs = xs"
  by (simp add: last_n_def)

lemma length_last_n [simp]: "length (last_n c xs) = min c (length xs)"
  by (simp add: last_n_def)

lemma last_n_absorb: "last_n c (last_n c xs @ ys) = last_n c (xs @ ys)"
  by (cases "length xs \<le> c") (auto simp: last_n_def add.commute)

lemma last_n_shrink: "0 < length v \<Longrightarrow> last_n c (last_n (c - 1) xs @ v) = last_n c (xs @ v)"
  by (cases "c = 0 \<or> length xs \<le> c - 1", auto simp: last_n_def) (cases v; simp add: add.commute)

lemma mod_below: "a < m \<Longrightarrow> b mod m < m" for a b m :: nat
  by simp

lemma mod_wrap: "a < 2 * m \<Longrightarrow> a mod m = (if a < m then a else a - m)" for a m :: nat
  by (auto simp: mod_if le_mod_geq)

lemma length_ring_contents [simp]: "length (ring_contents r) = r_n r"
  by (simp add: ring_contents_def)

lemma ring_contents_nth: "i < r_n r \<Longrightarrow> ring_contents r ! i = r_buf r ! ((r_head r + i) mod length (r_buf r))"
  by (simp add: ring_contents_def)

lemma ring_make_room_wf:
  assumes "ring_wf r"
  shows "ring_wf (ring_make_room r) \<and> r_n (ring_make_room r) < length (r_buf r)"
  using assms by (auto simp: ring_wf_def ring_make_room_def intro: mod_below)

lemma ring_drop_contents:
  assumes "ring_wf r" "k \<le> r_n r"
  shows "ring_wf (ring_drop r k) \<and> ring_contents (ring_drop r k) = drop k (ring_contents r)"
proof
  show "ring_wf (ring_drop r k)" using assms by (auto simp: ring_wf_def ring_drop_def intro: mod_below)
  show "ring_contents (ring_drop r k) = drop k (ring_contents r)"
    using assms by (intro nth_equalityI)
      (auto simp: ring_contents_nth ring_drop_def mod_add_left_eq add.assoc)
qed

lemma ring_make_room_contents:
  assumes "ring_wf r"
  shows "ring_contents (ring_make_room r) = last_n (length (r_buf r) - 1) (ring_contents r)"
proof (cases "r_n r = length (r_buf r)")
  case True
  then have "ring_make_room r = ring_drop r 1"
    by (simp add: ring_make_room_def ring_drop_def)
  moreover have "1 \<le> length (r_buf r)" using assms by (auto simp: ring_wf_def Suc_le_eq)
  moreover from this have "length (r_buf r) - (length (r_buf r) - 1) = 1" by simp
  ultimately show ?thesis
    using ring_drop_contents [OF assms, of 1] True by (simp add: last_n_def)
next
  case False
  then have "r_n r \<le> length (r_buf r) - 1" using assms unfolding ring_wf_def by linarith
  then show ?thesis using False by (simp add: ring_make_room_def)
qed

lemma ring_tail_wrap:
  assumes "ring_wf r" "r_n r < length (r_buf r)"
  shows "ring_tail r = (if r_head r + r_n r < length (r_buf r) then r_head r + r_n r
                        else r_head r + r_n r - length (r_buf r))"
  unfolding ring_tail_def using assms by (intro mod_wrap) (simp add: ring_wf_def)

lemma ring_copy_in_contents:
  assumes wf: "ring_wf r" and room: "r_n r < length (r_buf r)"
  shows "ring_wf (ring_copy_in r v) \<and>
         ring_contents (ring_copy_in r v) = ring_contents r @ take (ring_chunk r v) v"
proof
  define len t k where "len = length (r_buf r)" and "t = ring_tail r" and "k = ring_chunk r v"
  note defs = len_def [symmetric] t_def [symmetric] k_def [symmetric]
  have t: "t = (if r_head r + r_n r < len then r_head r + r_n r else r_head r + r_n r - len)"
    using ring_tail_wrap [OF assms] by (simp add: defs)
  have head: "r_head r < len" and n: "r_n r < len" using wf room by (simp_all add: ring_wf_def defs)
  have k: "k \<le> length v" "t + k \<le> len" "r_n r + k \<le> len"
    using n t head by (auto simp: k_def ring_chunk_def defs)
  have len': "length (r_buf (ring_copy_in r v)) = len"
    using k by (simp add: ring_copy_in_def Let_def defs)
  show "ring_wf (ring_copy_in r v)"
    using k head len' by (simp add: ring_wf_def ring_copy_in_def Let_def defs)
  show "ring_contents (ring_copy_in r v) = ring_contents r @ take (ring_chunk r v) v"
  proof (rule nth_equalityI)
    show "length (ring_contents (ring_copy_in r v)) = length (ring_contents r @ take (ring_chunk r v) v)"
      using k by (simp add: ring_copy_in_def Let_def defs)
    fix i assume "i < length (ring_contents (ring_copy_in r v))"
    then have i: "i < r_n r + k" by (simp add: ring_copy_in_def Let_def defs)
    define p where "p = (r_head r + i) mod len"
    have p: "p = (if r_head r + i < len then r_head r + i else r_head r + i - len)"
      unfolding p_def using i k head by (intro mod_wrap) simp
    have nth: "ring_contents (ring_copy_in r v) ! i = (take t (r_buf r) @ take k v @ drop (t + k) (r_buf r)) ! p"
      using i k by (simp add: ring_contents_nth ring_copy_in_def Let_def defs p_def)
    show "ring_contents (ring_copy_in r v) ! i = (ring_contents r @ take (ring_chunk r v) v) ! i"
    proof (cases "i < r_n r")
      case True
      have "p < t \<or> t + k \<le> p" "p < len"
        using True p t k head n by (auto split: if_splits)
      moreover have "t \<le> len" using k by simp
      ultimately have "ring_contents (ring_copy_in r v) ! i = r_buf r ! p"
        unfolding nth using k by (auto simp: nth_append defs)
      then show ?thesis using True by (simp add: nth_append ring_contents_nth p_def defs)
    next
      case False
      define d where "d = i - r_n r"
      have "p = t + d" "d < k"
        using False p t i k head n by (auto simp: d_def split: if_splits)
      moreover have "length (take t (r_buf r)) = t" using k by (simp add: defs)
      ultimately have "ring_contents (ring_copy_in r v) ! i = v ! d"
        unfolding nth using k by (simp add: nth_append)
      then show ?thesis using False \<open>d < k\<close> by (simp add: nth_append defs d_def [symmetric])
    qed
  qed
qed

lemma ring_copy_in_cap [simp]:
  assumes "ring_wf r" "r_n r < length (r_buf r)"
  shows "length (r_buf (ring_copy_in r v)) = length (r_buf r)"
proof -
  have "ring_tail r + ring_chunk r v \<le> length (r_buf r)"
    using ring_tail_wrap [OF assms] assms by (auto simp: ring_chunk_def ring_wf_def)
  moreover have "ring_chunk r v \<le> length v" by (simp add: ring_chunk_def)
  ultimately show ?thesis by (simp add: ring_copy_in_def Let_def)
qed

section \<open>The methods on what a ring holds\<close>

theorem ring_append_contents:
  assumes "ring_wf r"
  shows "\<exists>r'. ring_append r v = Some r' \<and> ring_wf r' \<and> ring_cap r' = ring_cap r \<and> r_gen r' = r_gen r \<and>
              ring_contents r' = last_n (ring_cap r) (ring_contents r @ v)"
  using assms
proof (induction r v rule: ring_append.induct)
  case (1 r v)
  show ?case
  proof (cases "v = []")
    case True
    then show ?thesis
      using 1(2) by (auto simp: ring_append.simps [of r] ring_wf_def ring_cap_def)
  next
    case False
    define c where "c = length (r_buf r)"
    define r1 where "r1 = ring_make_room r"
    have r1: "ring_wf r1" "r_n r1 < c" "r_buf r1 = r_buf r" "r_gen r1 = r_gen r"
        "ring_contents r1 = last_n (c - 1) (ring_contents r)"
      using ring_make_room_wf [OF 1(2)] ring_make_room_contents [OF 1(2)]
      by (simp_all add: r1_def c_def) (simp add: ring_make_room_def)
    have ne: "r_buf r \<noteq> []" using 1(2) by (auto simp: ring_wf_def)
    define k where "k = ring_chunk r1 v"
    have k: "0 < k" "k \<le> length v"
      using ring_chunk_pos [OF False, of r1] r1 ne by (simp_all add: k_def c_def ring_chunk_def)
    define r2 where "r2 = ring_copy_in r1 v"
    have r2: "ring_wf r2" "ring_cap r2 = c" "r_gen r2 = r_gen r"
        "ring_contents r2 = ring_contents r1 @ take k v"
      using ring_copy_in_contents [OF r1(1), of v] r1(2-4) ring_copy_in_cap [OF r1(1), of v]
      by (simp_all add: r2_def k_def c_def ring_cap_def) (simp add: ring_copy_in_def Let_def)
    have step: "ring_append r v = ring_append r2 (drop k v)"
      using False ne r1(2,3) by (simp add: ring_append.simps [of r] r1_def [symmetric] r2_def k_def c_def)
    obtain r' where r': "ring_append r2 (drop k v) = Some r'" "ring_wf r'" "ring_cap r' = c"
        "r_gen r' = r_gen r" "ring_contents r' = last_n c (ring_contents r2 @ drop k v)"
      using 1(1) [OF False ne r1_def] r1 r2 by (auto simp: r2_def k_def c_def ring_cap_def)
    have "ring_contents r2 @ drop k v = last_n (c - 1) (ring_contents r) @ v"
      by (simp add: r2(4) r1(5))
    moreover have "last_n c (last_n (c - 1) (ring_contents r) @ v) = last_n c (ring_contents r @ v)"
      using False by (intro last_n_shrink) simp
    ultimately show ?thesis using step r' by (simp add: ring_cap_def c_def)
  qed
qed

lemma ring_front_contents:
  assumes "ring_wf r" "0 < r_n r"
  shows "ring_front r room = take (length (ring_front r room)) (ring_contents r) \<and>
         length (ring_front r room) \<le> min room (r_n r) \<and>
         (0 < room \<longrightarrow> 0 < length (ring_front r room))"
proof (intro conjI nth_equalityI)
  show len: "length (ring_front r room) \<le> min room (r_n r)"
    using assms by (auto simp: ring_front_def ring_wf_def)
  then show "length (ring_front r room) = length (take (length (ring_front r room)) (ring_contents r))"
    by simp
  show "0 < room \<longrightarrow> 0 < length (ring_front r room)"
    using assms by (auto simp: ring_front_def ring_wf_def)
  fix i assume i: "i < length (ring_front r room)"
  then have "r_head r + i < length (r_buf r)" by (auto simp: ring_front_def)
  then show "ring_front r room ! i = take (length (ring_front r room)) (ring_contents r) ! i"
    using i len by (simp add: ring_contents_nth) (simp add: ring_front_def)
qed

lemma ring_read_loop_contents:
  assumes "ring_wf r" "n \<le> length dst"
  shows "\<exists>r'. ring_wf r' \<and> ring_cap r' = ring_cap r \<and> r_gen r' = r_gen r \<and>
          (let m = min (length dst - n) (r_n r) in
           ring_contents r' = drop m (ring_contents r) \<and>
           ring_read_loop r dst n =
             Some (r', take n dst @ take m (ring_contents r) @ drop (n + m) dst, n + m))"
  using assms
proof (induction r dst n rule: ring_read_loop.induct)
  case (1 r dst n)
  show ?case
  proof (cases "n < length dst \<and> 0 < r_n r")
    case False
    then have "min (length dst - n) (r_n r) = 0" by auto
    then show ?thesis using False 1(2,3) by (auto simp: ring_read_loop.simps [of r])
  next
    case True
    define xs where "xs = ring_front r (length dst - n)"
    define k where "k = length xs"
    have k: "xs = take k (ring_contents r)" "k \<le> length dst - n" "k \<le> r_n r" "0 < k"
      using ring_front_contents [OF 1(2), of "length dst - n"] True by (auto simp: xs_def k_def)
    note drop = ring_drop_contents [OF 1(2) k(3)]
    have cap: "\<not> (r_buf r = [] \<or> length (r_buf r) < r_head r)" using 1(2) by (auto simp: ring_wf_def)
    define dst2 where "dst2 = take n dst @ xs @ drop (n + k) dst"
    have dst2: "length dst2 = length dst" "n + k \<le> length dst2"
      using k True by (auto simp: dst2_def k_def)
    have step: "ring_read_loop r dst n = ring_read_loop (ring_drop r k) dst2 (n + k)"
      using True cap by (simp add: ring_read_loop.simps [of r] xs_def [symmetric] k_def [symmetric] dst2_def Let_def)
    define m where "m = min (length dst - n) (r_n r)"
    have m: "min (length dst2 - (n + k)) (r_n (ring_drop r k)) = m - k" "k \<le> m"
      using k dst2 by (auto simp: m_def ring_drop_def)
    obtain r' where r': "ring_wf r'" "ring_cap r' = ring_cap r" "r_gen r' = r_gen r"
        "ring_contents r' = drop (m - k) (drop k (ring_contents r))"
        "ring_read_loop (ring_drop r k) dst2 (n + k) =
           Some (r', take (n + k) dst2 @ take (m - k) (drop k (ring_contents r)) @ drop (n + k + (m - k)) dst2,
                 n + k + (m - k))"
      using 1(1) [OF True cap xs_def k_def] dst2 drop m
      by (auto simp: dst2_def [symmetric] Let_def ring_drop_def ring_cap_def)
    have "take (n + k) dst2 = take n dst @ take k (ring_contents r)" "drop (n + m) dst2 = drop (n + m) dst"
      using k True m(2) by (auto simp: dst2_def k_def [symmetric] min_def add.commute)
    moreover have "take k (ring_contents r) @ take (m - k) (drop k (ring_contents r)) = take m (ring_contents r)"
      using m(2) by (metis le_add_diff_inverse take_add)
    ultimately show ?thesis
      using r' step m(2) by (auto simp: Let_def m_def [symmetric])
  qed
qed

theorem ring_read_contents:
  assumes "ring_wf r"
  shows "\<exists>r'. ring_wf r' \<and> ring_cap r' = ring_cap r \<and> r_gen r' = r_gen r \<and>
          (let m = min (length dst) (r_n r) in
           ring_contents r' = drop m (ring_contents r) \<and>
           ring_read r dst = Some (r', take m (ring_contents r) @ drop m dst, m))"
  using ring_read_loop_contents [OF assms, of 0 dst] by (simp add: ring_read_def)

lemma ring_reset_contents:
  "ring_wf r \<Longrightarrow> ring_wf (ring_reset r) \<and> ring_contents (ring_reset r) = [] \<and> ring_cap (ring_reset r) = ring_cap r"
  by (auto simp: ring_wf_def ring_reset_def ring_contents_def ring_cap_def)

lemma newRing_contents:
  "0 < c \<Longrightarrow> ring_wf (newRing z c) \<and> ring_contents (newRing z c) = [] \<and> ring_cap (newRing z c) = c"
  by (simp add: ring_wf_def newRing_def ring_contents_def ring_cap_def)

section \<open>The contract\<close>

text \<open>
  What the cascade relies on: a write appends and forgets the oldest samples beyond the
  capacity, a read takes from the front, a late write of an older generation changes nothing.
\<close>

locale bounded_fifo =
  fixes ok :: "'r \<Rightarrow> bool"
    and contents :: "'r \<Rightarrow> 'a list"
    and cap :: "'r \<Rightarrow> nat"
    and gen :: "'r \<Rightarrow> 32 word"
    and put :: "'r \<Rightarrow> 'a list \<Rightarrow> 'r option"
    and putAt :: "'r \<Rightarrow> 32 word \<Rightarrow> 'a list \<Rightarrow> 'r option"
    and get :: "'r \<Rightarrow> 'a list \<Rightarrow> ('r \<times> 'a list \<times> nat) option"
    and reset :: "'r \<Rightarrow> 'r"
  assumes write_law: "ok r \<Longrightarrow> \<exists>r'. put r v = Some r' \<and> ok r' \<and> cap r' = cap r \<and> gen r' = gen r \<and>
                                contents r' = last_n (cap r) (contents r @ v)"
    and writeAt_law: "ok r \<Longrightarrow> putAt r g v = (if gen r = g then put r v else Some r)"
    and read_law: "ok r \<Longrightarrow> m = min (length dst) (length (contents r)) \<Longrightarrow>
                     \<exists>r'. get r dst = Some (r', take m (contents r) @ drop m dst, m) \<and> ok r' \<and>
                          cap r' = cap r \<and> gen r' = gen r \<and> contents r' = drop m (contents r)"
    and reset_law: "ok r \<Longrightarrow> ok (reset r) \<and> contents (reset r) = [] \<and> cap (reset r) = cap r \<and>
                      gen (reset r) = gen r + 1"
begin

lemma write_then_read:
  assumes "ok r" "contents r = []" "length v \<le> cap r"
  shows "\<exists>r' r''. put r v = Some r' \<and> get r' v = Some (r'', v, length v) \<and> contents r'' = []"
proof -
  obtain r' where r': "put r v = Some r'" "ok r'" "contents r' = v"
    using write_law [OF assms(1), of v] assms by auto
  with read_law [OF r'(2) refl, of v] show ?thesis by auto
qed

lemma stale_write: "ok r \<Longrightarrow> g = gen r \<Longrightarrow> putAt (reset r) g v = Some (reset r)"
  using reset_law [of r] writeAt_law [of "reset r" g v] by simp

end

interpretation rg: bounded_fifo ring_wf ring_contents ring_cap ring_generation ring_write ring_writeAt ring_read ring_reset
proof unfold_locales
  fix r :: "'a sample_ring" and g v m and dst :: "'a list"
  assume wf: "ring_wf r"
  show "\<exists>r'. ring_write r v = Some r' \<and> ring_wf r' \<and> ring_cap r' = ring_cap r \<and>
      ring_generation r' = ring_generation r \<and> ring_contents r' = last_n (ring_cap r) (ring_contents r @ v)"
    using ring_append_contents [OF wf] by (simp add: ring_write_def ring_generation_def)
  show "ring_writeAt r g v = (if ring_generation r = g then ring_write r v else Some r)"
    by (simp add: ring_writeAt_def ring_write_def ring_generation_def)
  show "ring_wf (ring_reset r) \<and> ring_contents (ring_reset r) = [] \<and> ring_cap (ring_reset r) = ring_cap r \<and>
      ring_generation (ring_reset r) = ring_generation r + 1"
    using ring_reset_contents [OF wf] by (simp add: ring_generation_def ring_reset_def)
  assume "m = min (length dst) (length (ring_contents r))"
  then show "\<exists>r'. ring_read r dst = Some (r', take m (ring_contents r) @ drop m dst, m) \<and> ring_wf r' \<and>
      ring_cap r' = ring_cap r \<and> ring_generation r' = ring_generation r \<and> ring_contents r' = drop m (ring_contents r)"
    using ring_read_contents [OF wf, of dst] by (auto simp: Let_def ring_generation_def)
qed

section \<open>Sequences of calls\<close>

datatype 'a ring_call = Write "'a list" | WriteAt "32 word" "'a list" | Read nat | Reset

text \<open>A run of the code: the samples each read returns, in order.\<close>

fun ring_runs :: "'a \<Rightarrow> 'a sample_ring \<Rightarrow> 'a ring_call list \<Rightarrow> ('a sample_ring \<times> 'a list list) option" where
  "ring_runs z r [] = Some (r, [])"
| "ring_runs z r (Write v # cs) = Option.bind (ring_write r v) (\<lambda>r'. ring_runs z r' cs)"
| "ring_runs z r (WriteAt g v # cs) = Option.bind (ring_writeAt r g v) (\<lambda>r'. ring_runs z r' cs)"
| "ring_runs z r (Read n # cs) = Option.bind (ring_read r (replicate n z)) (\<lambda>(r', dst, k).
     map_option (\<lambda>(r'', out). (r'', take k dst # out)) (ring_runs z r' cs))"
| "ring_runs z r (Reset # cs) = ring_runs z (ring_reset r) cs"

text \<open>The specification: a queue of at most \<open>c\<close> samples and the number of its resets.\<close>

fun fifo_runs :: "nat \<Rightarrow> 'a list \<Rightarrow> 32 word \<Rightarrow> 'a ring_call list \<Rightarrow> 'a list list" where
  "fifo_runs c q g [] = []"
| "fifo_runs c q g (Write v # cs) = fifo_runs c (last_n c (q @ v)) g cs"
| "fifo_runs c q g (WriteAt h v # cs) = fifo_runs c (if h = g then last_n c (q @ v) else q) g cs"
| "fifo_runs c q g (Read n # cs) = take n q # fifo_runs c (drop n q) g cs"
| "fifo_runs c q g (Reset # cs) = fifo_runs c [] (g + 1) cs"

lemma ring_runs_refine:
  assumes "ring_wf r"
  shows "\<exists>r'. ring_runs z r cs = Some (r', fifo_runs (ring_cap r) (ring_contents r) (ring_generation r) cs)"
  using assms
proof (induction cs arbitrary: r)
  case (Cons call cs)
  show ?case
  proof (cases call)
    case (Write v)
    with Cons.IH rg.write_law [OF Cons.prems, of v] show ?thesis by fastforce
  next
    case (WriteAt g v)
    with Cons.IH Cons.prems rg.write_law [OF Cons.prems, of v] rg.writeAt_law [OF Cons.prems, of g v]
    show ?thesis by fastforce
  next
    case (Read n)
    define m where "m = min n (length (ring_contents r))"
    obtain r1 where r1: "ring_read r (replicate n z) = Some (r1, take m (ring_contents r) @ drop m (replicate n z), m)"
        "ring_wf r1" "ring_cap r1 = ring_cap r" "ring_generation r1 = ring_generation r"
        "ring_contents r1 = drop m (ring_contents r)"
      using rg.read_law [OF Cons.prems, of m "replicate n z"] by (auto simp: m_def)
    have "take m (ring_contents r) = take n (ring_contents r)" "drop m (ring_contents r) = drop n (ring_contents r)"
      by (auto simp: m_def min_def)
    with Cons.IH [OF r1(2)] r1 Read show ?thesis by (auto simp: m_def)
  next
    case Reset
    with Cons.IH rg.reset_law [OF Cons.prems] show ?thesis by fastforce
  qed
qed simp

text \<open>
  C15: for any interleaving of writes, late writes, reads and resets on a new ring of positive
  capacity, no call panics, and the reads return exactly the samples that a queue returns
  which keeps the last \<open>capacity\<close> samples written and ignores the writes of an older
  generation.
\<close>

theorem ring_refines_fifo:
  assumes "0 < c"
  shows "map_option snd (ring_runs z (newRing z c) cs) = Some (fifo_runs c [] 0 cs)"
proof -
  note new = newRing_contents [OF assms, of z]
  moreover have "ring_generation (newRing z c) = 0" by (simp add: ring_generation_def newRing_def)
  ultimately show ?thesis using ring_runs_refine [of "newRing z c" z cs] by auto
qed

theorem ring_refines_fifo_witness:
  "map_option snd (ring_runs 0 (newRing 0 3)
     [Write [1, 2], Read 1, Write [3, 4, 5::int], Read 2, Reset, WriteAt 0 [9], WriteAt 1 [6], Read 4]) =
   Some [[1], [3, 4], [6]]"
  using ring_refines_fifo [of 3 0 "[Write [1, 2], Read 1, Write [3, 4, 5::int], Read 2, Reset, WriteAt 0 [9], WriteAt 1 [6], Read 4]"]
  by (simp add: last_n_def)

end
