(* ===== verification/Duplex_Listener.thy ===== *)
theory Duplex_Listener
  imports Sample_Ring Complex_Main
begin

text \<open>
  The listener of \<open>duplex/cascade.go\<close>: the body of its loop over 20 ms frames, with the turn
  decisions it takes.  Its local variables and the parts of the cascade that only it writes are
  the record \<open>listener\<close>; what it reads of the other goroutines in a frame (the voice detector,
  the responder's progress, the judgments of the models, the clock) is the record
  \<open>frame_in\<close>, one per frame, so that a run over arbitrary frames covers every interleaving
  with them.  What it does to them is a log of actions.  Durations are nanoseconds.
\<close>

section \<open>Constants and turn decisions\<close>

definition ms :: nat where "ms = 1000000"
definition frameTime :: nat where "frameTime = 20 * ms"
definition inFrame :: nat where "inFrame = 320"
definition keep :: nat where "keep = 15 * inFrame"
definition longest :: nat where "longest = 960000"
definition voiced :: nat where "voiced = 96"
definition pause :: nat where "pause = 100 * ms"
definition check :: nat where "check = 40 * ms"
definition giveUp :: nat where "giveUp = 1500 * ms"
definition giveUpUnfinished :: nat where "giveUpUnfinished = 3000 * ms"
definition shortest :: nat where "shortest = 300 * ms"
definition resume :: nat where "resume = 160 * ms"
definition resume_window :: int where "resume_window = 800 * int ms"
definition overlapEnd :: nat where "overlapEnd = 160 * ms"
definition overlapPeek :: nat where "overlapPeek = 560 * ms"
definition overlapEvery :: nat where "overlapEvery = 240 * ms"
definition overlapLong :: nat where "overlapLong = 1500 * ms"

lemmas listen_times = ms_def frameTime_def pause_def check_def giveUp_def giveUpUnfinished_def shortest_def resume_def
  overlapEnd_def overlapPeek_def overlapEvery_def overlapLong_def

text \<open>The thresholds as the code holds them: 0.9, 0.1 and 0.2 rounded to \<open>float32\<close>.\<close>

definition sure :: rat where "sure = 15099494 / 2 ^ 24"
definition unsure :: rat where "unsure = 13421773 / 2 ^ 27"
definition fifth :: rat where "fifth = 13421773 / 2 ^ 26"
definition finishedWords :: rat where "finishedWords = - 5 / 2"
definition unfinishedWords :: rat where "unfinishedWords = - 7"

record prediction =
  Probability :: rat
  Complete :: bool

definition rejudge :: "nat list" where
  "rejudge = [240 * ms, 600 * ms]"

definition heardOver :: "nat \<Rightarrow> prediction \<Rightarrow> bool \<Rightarrow> bool" where
  "heardOver silence p known =
     (if \<not> known then giveUp \<le> silence
      else if sure \<le> Probability p then True
      else if Complete p \<and> rejudge ! 0 \<le> silence then True
      else if unsure \<le> Probability p then giveUp \<le> silence
      else giveUpUnfinished \<le> silence)"

definition turnOver :: "nat \<Rightarrow> prediction \<Rightarrow> rat \<Rightarrow> bool \<Rightarrow> bool" where
  "turnOver silence p words known =
     (if \<not> known then pause \<le> silence \<and> Complete p \<or> giveUp \<le> silence
      else if finishedWords \<le> words then fifth \<le> Probability p \<or> 4 * check \<le> silence
      else if unfinishedWords < words then 2 * check \<le> silence \<and> Complete p \<or> giveUp \<le> silence
      else 500 * ms \<le> silence \<and> sure \<le> Probability p \<or> giveUpUnfinished \<le> silence)"

section \<open>State\<close>

type_synonym job_id = "32 word"

record 'a ljob =
  d_audio :: "'a list"
  d_utt :: "32 word"
  d_id :: job_id
  d_held :: bool

datatype lstage = Interrupted | Continued | TurnOver

datatype 'a act =
  Interrupt | Dispatch "'a ljob" | ReleaseTurn job_id | SetResumed | Stage lstage nat | Active
| UttReady | Noted | AddPause | Fail

record 'a listener =
  l_early :: "'a list"
  l_talked :: nat
  l_silence :: nat
  l_overlap :: nat
  l_judged :: nat
  l_heardAt :: "int option"
  l_pending :: job_id
  l_answered :: bool
  l_stopped :: bool
  u_pcm :: "'a list"
  u_gen :: "32 word"
  c_hearing :: bool
  c_held :: bool
  c_seq :: job_id
  c_jobs :: "'a ljob list"
  c_play :: "'a sample_ring"
  c_cancel :: bool \<comment> \<open>a reply is running that can be cancelled\<close>
  c_log :: "'a act list"

text \<open>
  What one frame reads: the audio with the detector's activity and whether it is above the
  level of silence; the responder's flags as each read finds them; the clock, twice; the
  judgments of the models, \<open>None\<close> for an error.  \<open>f_play\<close> is playback as the pump and
  \<open>Step\<close> left it, \<open>f_running\<close> whether a reply is running; \<open>f_unheld\<close> says that since the last frame
  the responder began a job that is not held, and \<open>f_taken\<close> how many jobs it took.
\<close>

record 'a frame_in =
  f_frame :: "'a list"
  f_activity :: nat
  f_loud :: bool
  f_busy :: bool
  f_played :: bool
  f_play :: "'a sample_ring"
  f_running :: bool
  f_busy_reset :: bool
  f_busy_resume :: bool
  f_now :: int
  f_later :: int
  f_momentDue :: bool
  f_unheld :: bool
  f_taken :: nat
  f_interrupts :: bool
  f_turnJob :: job_id
  f_turn :: prediction
  f_rejudged :: "prediction option"
  f_predict :: "prediction option"
  f_wordsJob :: job_id
  f_words :: rat

section \<open>Operations on the cascade\<close>

definition log_act :: "'a act \<Rightarrow> 'a listener \<Rightarrow> 'a listener" where
  "log_act a l = l\<lparr>c_log := c_log l @ [a]\<rparr>"

definition utt_append :: "'a listener \<Rightarrow> 'a list \<Rightarrow> 'a listener" where
  "utt_append l v = (if length (u_pcm l) + length v \<le> longest then l\<lparr>u_pcm := u_pcm l @ v\<rparr> else l)"

definition utt_reset :: "'a listener \<Rightarrow> 'a listener" where
  "utt_reset l = l\<lparr>u_pcm := [], u_gen := u_gen l + 1\<rparr>"

text \<open>The closure \<open>reset\<close> of \<open>listen\<close>.\<close>

definition l_reset :: "'a frame_in \<Rightarrow> 'a listener \<Rightarrow> 'a listener" where
  "l_reset f l =
     (let l1 = (utt_reset l)\<lparr>c_hearing := False, l_talked := 0, l_silence := 0, l_judged := 0,
                             l_pending := 0, l_answered := False\<rparr>
      in if f_momentDue f then log_act Noted l1 else l1)"

definition c_interrupt :: "'a listener \<Rightarrow> 'a listener" where
  "c_interrupt l = log_act Interrupt (l\<lparr>c_cancel := False, c_play := ring_reset (c_play l)\<rparr>)"

text \<open>The loop of \<open>dispatch\<close>: a full queue loses its oldest job.\<close>

function jobs_push :: "nat \<Rightarrow> 'a list \<Rightarrow> 'a \<Rightarrow> 'a list" where
  "jobs_push cap q j = (if length q < cap \<or> q = [] then q @ [j] else jobs_push cap (tl q) j)"
  by pat_completeness auto
termination by (relation "measure (\<lambda>(cap, q, j). length q)") auto

declare jobs_push.simps [simp del]

definition jobs_cap :: nat where "jobs_cap = 4"

definition dispatch :: "'a listener \<Rightarrow> 'a list \<Rightarrow> bool \<Rightarrow> 'a listener \<times> job_id" where
  "dispatch l audio held =
     (let l1 = c_interrupt l; id = c_seq l1 + 1;
          j = \<lparr>d_audio = audio, d_utt = u_gen l1, d_id = id, d_held = held\<rparr>
      in (log_act (Dispatch j) (l1\<lparr>c_seq := id, c_held := held, c_jobs := jobs_push jobs_cap (c_jobs l1) j\<rparr>), id))"

definition releaseTurn :: "'a listener \<Rightarrow> job_id \<Rightarrow> 'a listener" where
  "releaseTurn l k = (if k = 0 then l else log_act (ReleaseTurn k) (l\<lparr>c_held := False\<rparr>))"

definition turnOf :: "'a frame_in \<Rightarrow> job_id \<Rightarrow> prediction \<times> bool" where
  "turnOf f k = (f_turn f, k \<noteq> 0 \<and> f_turnJob f = k)"

definition wordsOf :: "'a frame_in \<Rightarrow> job_id \<Rightarrow> rat \<times> bool" where
  "wordsOf f k = (f_words f, k \<noteq> 0 \<and> f_wordsJob f = k)"

definition judgeTurn :: "'a frame_in \<Rightarrow> job_id \<Rightarrow> prediction \<times> bool" where
  "judgeTurn f k = (case f_rejudged f of None \<Rightarrow> turnOf f k | Some p \<Rightarrow> (p, True))"

definition c_audible :: "'a frame_in \<Rightarrow> 'a listener \<Rightarrow> bool" where
  "c_audible f l \<longleftrightarrow> f_busy f \<and> \<not> c_held l \<and> (f_played f \<or> 0 < ring_len (c_play l))"

section \<open>One frame\<close>

definition speaking :: "'a frame_in \<Rightarrow> bool" where
  "speaking f \<longleftrightarrow> voiced \<le> f_activity f \<and> f_loud f"

definition fresh :: "'a frame_in \<Rightarrow> bool \<Rightarrow> 'a listener \<Rightarrow> bool" where
  "fresh f audible l \<longleftrightarrow> audible \<and> f_later f - (case l_heardAt l of None \<Rightarrow> f_now f | Some t \<Rightarrow> t) < resume_window"

text \<open>Overlap and the time the agent became audible.\<close>

definition listen_sense :: "'a frame_in \<Rightarrow> bool \<Rightarrow> 'a listener \<Rightarrow> 'a listener" where
  "listen_sense f audible l =
     l\<lparr>l_overlap := (if speaking f then l_overlap l + frameTime else 0),
       l_heardAt := (if \<not> audible then None else case l_heardAt l of None \<Rightarrow> Some (f_now f) | Some t \<Rightarrow> Some t)\<rparr>"

text \<open>An answer under way, one that is over, a speaker that goes on.\<close>

definition listen_settle :: "'a frame_in \<Rightarrow> bool \<Rightarrow> bool \<Rightarrow> 'a listener \<Rightarrow> 'a listener" where
  "listen_settle f audible fr l =
     (let l1 = (if \<not> audible then l\<lparr>l_stopped := False\<rparr> else if l_answered l \<and> \<not> fr then l_reset f l else l);
          l2 = (if l_answered l1 \<and> \<not> f_busy_reset f then l_reset f l1 else l1)
      in l2)"

definition listen_goes_on :: "'a frame_in \<Rightarrow> bool \<Rightarrow> bool \<Rightarrow> 'a listener \<Rightarrow> 'a listener" where
  "listen_goes_on f audible fr l =
     (let l1 = (if speaking f \<and> l_pending l \<noteq> 0 then (c_interrupt l)\<lparr>l_pending := 0\<rparr> else l)
      in if l_answered l1 \<and> f_busy_resume f \<and> (\<not> audible \<or> fr) \<and> resume \<le> l_overlap l1
         then (c_interrupt (log_act SetResumed l1))\<lparr>l_answered := False, l_stopped := True\<rparr> else l1)"

text \<open>The audio before speech, and the utterance; the first is the end of the frame.\<close>

definition listen_early :: "'a frame_in \<Rightarrow> 'a listener \<Rightarrow> 'a listener" where
  "listen_early f l =
     (let early = l_early l @ f_frame f in l\<lparr>l_early := drop (length early - keep) early\<rparr>)"

definition listen_hear :: "'a frame_in \<Rightarrow> 'a listener \<Rightarrow> 'a listener" where
  "listen_hear f l =
     (let l1 = (if u_pcm l = [] then log_act Active ((utt_append l (l_early l))\<lparr>l_early := [], c_hearing := True\<rparr>) else l);
          l2 = utt_append l1 (f_frame f)
      in if speaking f then log_act UttReady (l2\<lparr>l_talked := l_talked l2 + frameTime, l_silence := 0\<rparr>)
         else l2\<lparr>l_silence := l_silence l2 + frameTime\<rparr>)"

text \<open>Speech over the agent.\<close>

definition listen_stop :: "'a listener \<Rightarrow> 'a listener" where
  "listen_stop l = (log_act (Stage Interrupted (l_talked l)) (c_interrupt l))\<lparr>l_stopped := True\<rparr>"

definition listen_overlap :: "'a frame_in \<Rightarrow> 'a listener \<Rightarrow> 'a listener" where
  "listen_overlap f l =
     (if overlapLong \<le> l_talked l then listen_stop l
      else if speaking f \<and> overlapPeek \<le> l_talked l \<and> l_judged l + overlapEvery \<le> l_talked l then
        let l1 = l\<lparr>l_judged := l_talked l\<rparr> in if f_interrupts f then listen_stop l1 else l1
      else if 0 < l_talked l \<and> l_silence l = overlapEnd then
        if f_interrupts f then listen_stop l
        else l_reset f (log_act (Stage Continued (l_talked l)) l)
      else l)"

text \<open>The pause: the answer is prepared, the turn judged, and at its end the answer released.\<close>

definition listen_prepare :: "'a listener \<Rightarrow> 'a listener" where
  "listen_prepare l =
     (if l_pending l = 0 \<and> shortest \<le> l_talked l then
        let (l1, id) = dispatch (log_act AddPause l) (u_pcm l) True in l1\<lparr>l_pending := id\<rparr>
      else l)"

text \<open>Whether the transcriber, unsure of the turn, is asked again in this frame.\<close>

definition rejudges :: "'a frame_in \<Rightarrow> 'a listener \<Rightarrow> bool" where
  "rejudges f l = (case turnOf f (l_pending l) of (p, known) \<Rightarrow> known \<and> Probability p < sure \<and> l_silence l \<in> set rejudge)"

text \<open>The decision: \<open>None\<close> when the detector failed, else whether the turn is over.\<close>

definition listen_over :: "bool \<Rightarrow> 'a frame_in \<Rightarrow> 'a listener \<Rightarrow> bool option" where
  "listen_over hears f l =
     (if hears then
        let (p, known) = (if rejudges f l then judgeTurn f (l_pending l) else turnOf f (l_pending l))
        in Some (heardOver (l_silence l) p known)
      else if l_silence l mod check \<noteq> 0 \<and> l_silence l < giveUp then Some False
      else case f_predict f of
        None \<Rightarrow> None
      | Some p \<Rightarrow> (let (words, known) = wordsOf f (l_pending l) in Some (turnOver (l_silence l) p words known)))"

definition listen_end :: "'a frame_in \<Rightarrow> 'a listener \<Rightarrow> 'a listener" where
  "listen_end f l =
     (if l_talked l < shortest then l_reset f l
      else let l1 = (if l_pending l = 0
                     then let (l', id) = dispatch l (u_pcm l) False in l'\<lparr>l_pending := id\<rparr> else l);
               l2 = releaseTurn (log_act (Stage TurnOver (l_silence l1)) l1) (l_pending l1)
           in (log_act Active (l2\<lparr>c_hearing := False\<rparr>))\<lparr>l_pending := 0, l_answered := True\<rparr>)"

definition listen_judged :: "bool \<Rightarrow> 'a frame_in \<Rightarrow> 'a listener \<Rightarrow> 'a listener" where
  "listen_judged hears f l = (if hears \<and> rejudges f l \<and> f_rejudged f = None then log_act Fail l else l)"

definition listen_turn :: "bool \<Rightarrow> 'a frame_in \<Rightarrow> 'a listener \<Rightarrow> 'a listener" where
  "listen_turn hears f l =
     (let l1 = listen_judged hears f (listen_prepare l) in
      case listen_over hears f l1 of
        None \<Rightarrow> log_act Fail l1
      | Some False \<Rightarrow> l1
      | Some True \<Rightarrow> listen_end f l1)"

definition listen_frame :: "bool \<Rightarrow> 'a frame_in \<Rightarrow> 'a listener \<Rightarrow> 'a listener" where
  "listen_frame hears f l0 =
     (let l = l0\<lparr>c_held := c_held l0 \<and> \<not> f_unheld f, c_jobs := drop (f_taken f) (c_jobs l0),
                 c_play := f_play f, c_cancel := f_running f\<rparr>;
          audible = c_audible f l;
          fr = fresh f audible l;
          l1 = listen_goes_on f audible fr (listen_settle f audible fr (listen_sense f audible l))
      in if u_pcm l1 = [] \<and> \<not> speaking f then listen_early f l1
         else let l2 = listen_hear f l1 in
           if audible \<and> \<not> l_stopped l2 \<and> \<not> l_answered l2 then listen_overlap f l2
           else if speaking f \<or> l_answered l2 then l2
           else listen_turn hears f l2)"

definition listen_frames :: "bool \<Rightarrow> 'a frame_in list \<Rightarrow> 'a listener \<Rightarrow> 'a listener" where
  "listen_frames hears fs l = fold (listen_frame hears) fs l"

definition listen_start :: "'a \<Rightarrow> nat \<Rightarrow> 'a listener" where
  "listen_start zero out = \<lparr>l_early = [], l_talked = 0, l_silence = 0, l_overlap = 0, l_judged = 0, l_heardAt = None,
     l_pending = 0, l_answered = False, l_stopped = False, u_pcm = [], u_gen = 0, c_hearing = False,
     c_held = False, c_seq = 0, c_jobs = [], c_play = newRing zero (120 * out), c_cancel = False, c_log = []\<rparr>"

end
