(* ===== verification/Duplex_Turns.thy ===== *)
theory Duplex_Turns
  imports Duplex_Listener
begin

text \<open>
  Properties of the listener over any sequence of frames: its buffers stay within their
  bounds, a turn that the speaker ended is answered within three seconds whatever the models
  say, and the answer that is released is the one prepared last, not cut since.
\<close>

section \<open>The turn decisions\<close>

lemma heardOver_mono: "heardOver s p known \<Longrightarrow> s \<le> s' \<Longrightarrow> heardOver s' p known"
  by (auto simp: heardOver_def split: if_splits)

lemma turnOver_mono: "turnOver s p words known \<Longrightarrow> s \<le> s' \<Longrightarrow> turnOver s' p words known"
  by (auto simp: turnOver_def split: if_splits)

lemma over_at_last:
  assumes "giveUpUnfinished \<le> s"
  shows "heardOver s p known" "turnOver s p words known"
  using assms by (auto simp: heardOver_def turnOver_def listen_times)

section \<open>The steps of a frame\<close>

text \<open>The fields of a state that a log entry leaves alone.\<close>

lemma log_act_fields [simp]:
  "c_log (log_act a l) = c_log l @ [a]" "l_early (log_act a l) = l_early l" "l_talked (log_act a l) = l_talked l"
  "l_silence (log_act a l) = l_silence l" "l_overlap (log_act a l) = l_overlap l" "l_judged (log_act a l) = l_judged l"
  "l_pending (log_act a l) = l_pending l" "l_answered (log_act a l) = l_answered l" "l_stopped (log_act a l) = l_stopped l"
  "u_pcm (log_act a l) = u_pcm l" "u_gen (log_act a l) = u_gen l" "c_held (log_act a l) = c_held l"
  "c_seq (log_act a l) = c_seq l" "c_jobs (log_act a l) = c_jobs l" "c_hearing (log_act a l) = c_hearing l"
  "l_heardAt (log_act a l) = l_heardAt l" "c_play (log_act a l) = c_play l"
  by (simp_all add: log_act_def)

lemma utt_append_fields [simp]:
  "c_log (utt_append l v) = c_log l" "l_early (utt_append l v) = l_early l" "l_talked (utt_append l v) = l_talked l"
  "l_silence (utt_append l v) = l_silence l" "l_overlap (utt_append l v) = l_overlap l"
  "l_pending (utt_append l v) = l_pending l" "l_answered (utt_append l v) = l_answered l" "l_stopped (utt_append l v) = l_stopped l"
  "c_held (utt_append l v) = c_held l" "c_seq (utt_append l v) = c_seq l" "c_jobs (utt_append l v) = c_jobs l"
  by (simp_all add: utt_append_def)

text \<open>A frame of silence while the agent is not heard, with the utterance not yet answered.\<close>

definition waiting :: "'a listener \<Rightarrow> bool" where
  "waiting l \<longleftrightarrow> u_pcm l \<noteq> [] \<and> \<not> l_answered l \<and> shortest \<le> l_talked l \<and> (l_pending l = 0 \<longrightarrow> c_seq l + 1 \<noteq> 0)"

definition quiet_frame :: "'a frame_in \<Rightarrow> bool" where
  "quiet_frame f \<longleftrightarrow> \<not> speaking f \<and> \<not> (f_busy f \<and> (f_played f \<or> 0 < ring_len (f_play f))) \<and> f_predict f \<noteq> None"

lemma listen_hear_quiet:
  assumes "u_pcm l \<noteq> []" "\<not> speaking f"
  shows "listen_hear f l = (utt_append l (f_frame f))\<lparr>l_silence := l_silence l + frameTime\<rparr>"
  using assms by (simp add: listen_hear_def)

lemma listen_frame_quiet:
  assumes "waiting l" "quiet_frame f"
  shows "\<exists>l'. listen_frame hears f l = listen_turn hears f l' \<and> waiting l' \<and> l_silence l' = l_silence l + frameTime \<and>
              c_log l' = c_log l"
proof -
  define l1 where "l1 = l\<lparr>c_held := c_held l \<and> \<not> f_unheld f, c_jobs := drop (f_taken f) (c_jobs l),
      c_play := f_play f, c_cancel := f_running f, l_overlap := 0,
      l_heardAt := None, l_stopped := False\<rparr>"
  define l2 where "l2 = (utt_append l1 (f_frame f))\<lparr>l_silence := l_silence l1 + frameTime\<rparr>"
  have q: "\<not> speaking f" "\<And>m. c_play m = f_play f \<Longrightarrow> \<not> c_audible f m" using assms(2) by (auto simp: quiet_frame_def c_audible_def)
  have a: "\<not> l_answered l" "u_pcm l \<noteq> []" using assms(1) by (auto simp: waiting_def)
  have u: "u_pcm l2 \<noteq> []" using a(2) by (simp add: l2_def l1_def utt_append_def)
  have "listen_frame hears f l = listen_turn hears f l2"
    using q a u by (simp add: listen_frame_def listen_sense_def listen_settle_def listen_goes_on_def Let_def
        listen_hear_quiet l1_def l2_def)
  moreover have "waiting l2" using assms(1) u by (auto simp: waiting_def l2_def l1_def)
  ultimately show ?thesis by (intro exI [of _ l2]) (simp add: l2_def l1_def)
qed

lemma listen_prepare_waiting:
  assumes "waiting l"
  shows "waiting (listen_prepare l)" "l_pending (listen_prepare l) \<noteq> 0"
    "l_silence (listen_prepare l) = l_silence l" "\<exists>as. c_log (listen_prepare l) = c_log l @ as"
  using assms by (auto simp: waiting_def listen_prepare_def dispatch_def c_interrupt_def Let_def)

lemma listen_over_Some: "f_predict f \<noteq> None \<Longrightarrow> \<exists>b. listen_over hears f l = Some b"
  by (auto simp: listen_over_def split: prod.splits)

lemma listen_over_at_last:
  assumes "f_predict f \<noteq> None" "giveUpUnfinished \<le> l_silence l"
  shows "listen_over hears f l = Some True"
  using assms over_at_last [OF assms(2)] by (auto simp: listen_over_def listen_times Let_def split: prod.splits)

lemma listen_end_releases:
  assumes "waiting l" "l_pending l \<noteq> 0"
  shows "ReleaseTurn (l_pending l) \<in> set (c_log (listen_end f l))"
  using assms by (auto simp: waiting_def listen_end_def releaseTurn_def Let_def)

section \<open>The log only grows\<close>

definition logs_on :: "'a listener \<Rightarrow> 'a listener \<Rightarrow> bool" where
  "logs_on l l' \<longleftrightarrow> (\<exists>as. c_log l' = c_log l @ as)"

lemma logs_on_refl [simp]: "c_log l' = c_log l \<Longrightarrow> logs_on l l'"
  by (simp add: logs_on_def)

lemma logs_on_trans: "logs_on l l' \<Longrightarrow> logs_on l' l'' \<Longrightarrow> logs_on l l''"
  by (auto simp: logs_on_def)

lemma logs_on_mem: "logs_on l l' \<Longrightarrow> a \<in> set (c_log l) \<Longrightarrow> a \<in> set (c_log l')"
  by (auto simp: logs_on_def)

lemma logs_on_steps:
  "logs_on l (l_reset f l)" "logs_on l (c_interrupt l)" "logs_on l (listen_sense f a l)" "logs_on l (listen_stop l)"
  "logs_on l (fst (dispatch l v h))" "logs_on l (releaseTurn l k)" "logs_on l (listen_early f l)"
  "logs_on l (listen_hear f l)" "logs_on l (listen_prepare l)"
  by (auto simp: logs_on_def l_reset_def utt_reset_def c_interrupt_def listen_sense_def listen_stop_def dispatch_def
      releaseTurn_def listen_early_def listen_hear_def listen_prepare_def Let_def)

lemma logs_on_more:
  "logs_on l (listen_settle f a fr l)" "logs_on l (listen_goes_on f a fr l)"
  "logs_on l (listen_overlap f l)" "logs_on l (listen_end f l)"
  by (auto simp: logs_on_def listen_settle_def listen_goes_on_def listen_overlap_def listen_end_def l_reset_def utt_reset_def
      c_interrupt_def listen_stop_def dispatch_def releaseTurn_def Let_def)

lemma logs_on_turn: "logs_on l (listen_turn hears f l)"
proof -
  define l1 where "l1 = listen_judged hears f (listen_prepare l)"
  have "logs_on (listen_prepare l) l1" by (simp add: l1_def listen_judged_def logs_on_def)
  then have "logs_on l l1" using logs_on_trans [OF logs_on_steps(9)] by blast
  moreover have "logs_on l1 (listen_turn hears f l)"
    using logs_on_more(4) [of l1 f]
    by (auto simp: listen_turn_def l1_def [symmetric] Let_def logs_on_def split: option.splits bool.splits)
  ultimately show ?thesis by (rule logs_on_trans)
qed

lemma logs_on_frame: "logs_on l (listen_frame hears f l)"
proof -
  define m where "m = l\<lparr>c_held := c_held l \<and> \<not> f_unheld f, c_jobs := drop (f_taken f) (c_jobs l),
      c_play := f_play f, c_cancel := f_running f\<rparr>"
  define a fr where "a = c_audible f m" and "fr = fresh f a m"
  define l1 where "l1 = listen_goes_on f a fr (listen_settle f a fr (listen_sense f a m))"
  have "logs_on l m" by (simp add: m_def)
  then have l1: "logs_on l l1"
    unfolding l1_def by (meson logs_on_trans logs_on_steps logs_on_more)
  have "logs_on l1 (listen_frame hears f l)"
    using logs_on_trans [OF logs_on_steps(8) logs_on_more(3)] logs_on_trans [OF logs_on_steps(8) logs_on_turn]
    by (auto simp: listen_frame_def m_def [symmetric] a_def [symmetric] fr_def [symmetric] l1_def [symmetric] Let_def logs_on_steps)
  with l1 show ?thesis by (rule logs_on_trans)
qed

lemma logs_on_frames: "logs_on l (listen_frames hears fs l)"
  by (induction fs arbitrary: l) (auto simp: listen_frames_def intro: logs_on_trans logs_on_frame)

section \<open>A turn ends\<close>

lemma listen_frame_waits:
  assumes "waiting l" "quiet_frame f"
  shows "(\<exists>k. k \<noteq> 0 \<and> ReleaseTurn k \<in> set (c_log (listen_frame hears f l))) \<or>
         waiting (listen_frame hears f l) \<and> l_silence (listen_frame hears f l) = l_silence l + frameTime \<and>
         l_silence l + frameTime < giveUpUnfinished"
proof -
  obtain l' where l': "listen_frame hears f l = listen_turn hears f l'" "waiting l'" "l_silence l' = l_silence l + frameTime"
    using listen_frame_quiet [OF assms] by blast
  define l1 where "l1 = listen_judged hears f (listen_prepare l')"
  have l1: "waiting l1" "l_pending l1 \<noteq> 0" "l_silence l1 = l_silence l'"
    using listen_prepare_waiting [OF l'(2)] by (simp_all add: l1_def listen_judged_def) (simp_all add: waiting_def)
  have p: "f_predict f \<noteq> None" using assms(2) by (simp add: quiet_frame_def)
  have turn: "listen_frame hears f l = (if the (listen_over hears f l1) then listen_end f l1 else l1)"
    using listen_over_Some [OF p, of hears l1]
    by (auto simp: l'(1) listen_turn_def l1_def [symmetric] Let_def split: option.splits bool.splits)
  show ?thesis
  proof (cases "the (listen_over hears f l1)")
    case True
    then show ?thesis using turn listen_end_releases [OF l1(1,2), of f] l1(2) by auto
  next
    case False
    then have "\<not> giveUpUnfinished \<le> l_silence l1" using listen_over_at_last [OF p, of l1 hears] by auto
    with False show ?thesis using turn l1 l'(3) by simp
  qed
qed


section \<open>Bounds\<close>

lemma jobs_push_bounds: "0 < cap \<Longrightarrow> length (jobs_push cap q j) \<le> max cap (length q) \<and> last (jobs_push cap q j) = j"
  by (induction cap q j rule: jobs_push.induct) (subst (1 2) jobs_push.simps, auto)

text \<open>
  What is kept of a frame: a property that the primitive changes keep is kept by the frame.
  The five laws are the writes of the loop body.
\<close>

locale listener_invariant =
  fixes P :: "'a listener \<Rightarrow> bool" and hears :: bool
  assumes log: "P l \<Longrightarrow> P (log_act a l)"
    and flags: "P l \<Longrightarrow> P (l\<lparr>l_overlap := ov, l_heardAt := since\<rparr>)" "P l \<Longrightarrow> P (l\<lparr>l_stopped := b\<rparr>)"
      "P l \<Longrightarrow> P (l\<lparr>l_pending := k\<rparr>)" "P l \<Longrightarrow> P (l\<lparr>l_answered := b\<rparr>)" "P l \<Longrightarrow> P (l\<lparr>l_judged := n\<rparr>)"
      "P l \<Longrightarrow> P (l\<lparr>c_hearing := b\<rparr>)" "P l \<Longrightarrow> P (l\<lparr>c_held := b\<rparr>)"
    and queue: "P l \<Longrightarrow> P (l\<lparr>c_seq := k, c_held := b, c_jobs := jobs_push jobs_cap (c_jobs l) j\<rparr>)"
      "P l \<Longrightarrow> P (l\<lparr>c_held := b, c_jobs := drop n (c_jobs l), c_play := p, c_cancel := c\<rparr>)"
      "P l \<Longrightarrow> P (l\<lparr>c_cancel := c, c_play := p\<rparr>)"
    and audio: "P l \<Longrightarrow> P (listen_early f l)" "P l \<Longrightarrow> P (listen_hear f l)"
    and over: "P l \<Longrightarrow> P (l_reset f l)"
begin

lemma dispatched: "P l \<Longrightarrow> P (fst (dispatch l v h))"
  unfolding dispatch_def Let_def c_interrupt_def fst_conv by (intro log queue)

lemma prepare: "P l \<Longrightarrow> P (listen_prepare l)"
  using dispatched [of "log_act AddPause l" "u_pcm l" True]
  by (auto simp: listen_prepare_def log flags split: prod.splits)

lemma released: "P l \<Longrightarrow> P (releaseTurn l k)"
  by (simp add: releaseTurn_def log flags)

lemma finish: "P l \<Longrightarrow> P (listen_end f l)"
  using dispatched [of l "u_pcm l" False]
  by (auto simp: listen_end_def Let_def over split: prod.splits intro!: log flags released)

lemma turn: "P l \<Longrightarrow> P (listen_turn hears f l)"
  by (auto simp: listen_turn_def listen_judged_def Let_def prepare finish log split: option.splits bool.splits)

lemma stops: "P l \<Longrightarrow> P (listen_stop l)"
  by (simp add: listen_stop_def c_interrupt_def log flags queue)

lemma overlap: "P l \<Longrightarrow> P (listen_overlap f l)"
  by (auto simp: listen_overlap_def Let_def intro!: stops log flags over)

lemma settles: "P l \<Longrightarrow> P (listen_settle f a fr l)"
  by (auto simp: listen_settle_def Let_def flags over)

lemma goes_on: "P l \<Longrightarrow> P (listen_goes_on f a fr l)"
  by (auto simp: listen_goes_on_def c_interrupt_def Let_def intro!: log flags queue)

lemma before: "P l \<Longrightarrow> P (listen_goes_on f a fr (listen_settle f a fr (listen_sense f a l)))"
  by (intro goes_on settles) (simp add: listen_sense_def flags)

lemma frame: "P l \<Longrightarrow> P (listen_frame hears f l)"
  unfolding listen_frame_def Let_def by (auto intro!: audio turn overlap before queue)

lemma frames: "P l \<Longrightarrow> P (listen_frames hears fs l)"
  by (induction fs arbitrary: l) (auto simp: listen_frames_def frame)

end

definition listener_bounded :: "'a listener \<Rightarrow> bool" where
  "listener_bounded l \<longleftrightarrow> length (l_early l) \<le> keep \<and> length (u_pcm l) \<le> longest \<and> length (c_jobs l) \<le> jobs_cap \<and>
     l_talked l mod frameTime = 0 \<and> l_silence l mod frameTime = 0"

interpretation lb: listener_invariant "listener_bounded :: 'a listener \<Rightarrow> bool" hears for hears
proof
  fix l :: "'a listener" and f :: "'a frame_in" and k b j
  assume l: "listener_bounded l"
  have "length (jobs_push jobs_cap (c_jobs l) j) \<le> jobs_cap"
    using jobs_push_bounds [of jobs_cap "c_jobs l" j] l by (simp add: jobs_cap_def listener_bounded_def)
  with l show "listener_bounded (l\<lparr>c_seq := k, c_held := b, c_jobs := jobs_push jobs_cap (c_jobs l) j\<rparr>)"
    by (simp add: listener_bounded_def)
  show "listener_bounded (listen_hear f l)"
    using l by (auto simp: listener_bounded_def listen_hear_def utt_append_def Let_def mod_add_left_eq mod_simps)
qed (auto simp: listener_bounded_def listen_early_def l_reset_def utt_reset_def Let_def log_act_def)

text \<open>
  C14: over any frames, whatever the other goroutines do, the listener keeps at most 300 ms of
  audio before speech and 60 s of an utterance, the queue of jobs holds at most four, and the
  times of speech and silence are whole frames.
\<close>

theorem listener_stays_bounded: "listener_bounded (listen_frames hears fs (listen_start zero out))"
  by (rule lb.frames) (simp add: listener_bounded_def listen_start_def)

section \<open>The answer that is released\<close>

text \<open>
  Reading a log: the job dispatched last, if it was not interrupted since; \<open>None\<close> when a turn
  was released for another.
\<close>

fun live :: "job_id option \<Rightarrow> 'a act list \<Rightarrow> job_id option option" where
  "live cur [] = Some cur"
| "live cur (Interrupt # as) = live None as"
| "live cur (Dispatch j # as) = live (Some (d_id j)) as"
| "live cur (ReleaseTurn k # as) = (if cur = Some k then live cur as else None)"
| "live cur (_ # as) = live cur as"

lemma live_append: "live cur (as @ bs) = Option.bind (live cur as) (\<lambda>c. live c bs)"
  by (induction cur as rule: live.induct) auto

definition live_pending :: "'a listener \<Rightarrow> bool" where
  "live_pending l \<longleftrightarrow>
     (\<exists>cur. live None (c_log l) = Some cur \<and> (l_pending l \<noteq> 0 \<longrightarrow> cur = Some (l_pending l) \<and> c_held l)) \<and>
     (l_answered l \<longrightarrow> l_pending l = 0)"

lemma live_pending_reset: "live_pending l \<Longrightarrow> live_pending (l_reset f l)"
  by (auto simp: live_pending_def l_reset_def utt_reset_def Let_def log_act_def live_append)

lemma live_pending_settle: "live_pending l \<Longrightarrow> live_pending (listen_settle f a fr l)"
proof -
  assume l: "live_pending l"
  then have "live_pending (l\<lparr>l_stopped := False\<rparr>)" by (simp add: live_pending_def)
  with l show ?thesis by (auto simp: listen_settle_def Let_def live_pending_reset)
qed

lemma live_pending_goes_on: "live_pending l \<Longrightarrow> live_pending (listen_goes_on f a fr l)"
  by (auto simp: live_pending_def listen_goes_on_def c_interrupt_def Let_def live_append)

lemma live_pending_hear: "live_pending l \<Longrightarrow> live_pending (listen_hear f l)"
  by (auto simp: live_pending_def listen_hear_def Let_def live_append)

lemma live_pending_overlap: "live_pending l \<Longrightarrow> \<not> c_held l \<Longrightarrow> live_pending (listen_overlap f l)"
proof -
  assume l: "live_pending l" "\<not> c_held l"
  then have p: "l_pending l = 0" by (auto simp: live_pending_def)
  have "live_pending (log_act (Stage Continued (l_talked l)) l)" using l by (auto simp: live_pending_def live_append)
  then show ?thesis
    using l p by (auto simp: listen_overlap_def Let_def live_pending_reset)
      (auto simp: live_pending_def listen_stop_def c_interrupt_def live_append)
qed

lemma live_pending_prepare: "live_pending l \<Longrightarrow> \<not> l_answered l \<Longrightarrow> live_pending (listen_prepare l)"
  by (auto simp: live_pending_def listen_prepare_def dispatch_def c_interrupt_def Let_def live_append)

lemma live_pending_end: "live_pending l \<Longrightarrow> live_pending (listen_end f l)"
proof (cases "l_talked l < shortest")
  case True
  then show "live_pending l \<Longrightarrow> ?thesis" by (simp add: listen_end_def live_pending_reset)
next
  case False
  then show "live_pending l \<Longrightarrow> ?thesis"
    by (auto simp: live_pending_def listen_end_def dispatch_def c_interrupt_def releaseTurn_def Let_def live_append)
qed

lemma live_pending_turn: "live_pending l \<Longrightarrow> \<not> l_answered l \<Longrightarrow> live_pending (listen_turn hears f l)"
proof -
  assume "live_pending l" "\<not> l_answered l"
  then have "live_pending (listen_prepare l)" by (rule live_pending_prepare)
  then have l1: "live_pending (listen_judged hears f (listen_prepare l))"
    by (auto simp: listen_judged_def live_pending_def live_append)
  then have "live_pending (log_act Fail (listen_judged hears f (listen_prepare l)))"
    by (auto simp: live_pending_def live_append)
  with l1 show ?thesis
    by (auto simp: listen_turn_def Let_def live_pending_end split: option.splits bool.splits)
qed

lemma held_before: "c_held (listen_hear f (listen_goes_on f a fr (listen_settle f a fr (listen_sense f a l)))) = c_held l"
  by (auto simp: listen_hear_def listen_goes_on_def listen_settle_def listen_sense_def l_reset_def utt_reset_def c_interrupt_def Let_def)

lemma live_pending_frame:
  assumes "live_pending l" "\<not> f_unheld f"
  shows "live_pending (listen_frame hears f l)"
proof -
  define m where "m = l\<lparr>c_held := c_held l \<and> \<not> f_unheld f, c_jobs := drop (f_taken f) (c_jobs l),
      c_play := f_play f, c_cancel := f_running f\<rparr>"
  define a fr where "a = c_audible f m" and "fr = fresh f a m"
  define l1 where "l1 = listen_goes_on f a fr (listen_settle f a fr (listen_sense f a m))"
  have "live_pending m" using assms by (simp add: m_def live_pending_def)
  then have "live_pending (listen_sense f a m)" by (simp add: live_pending_def listen_sense_def)
  then have l1: "live_pending l1" by (simp add: l1_def live_pending_goes_on live_pending_settle)
  have "live_pending (listen_early f l1)" using l1 by (simp add: live_pending_def listen_early_def Let_def)
  moreover have "\<not> c_held (listen_hear f l1)" if a
    using that by (simp add: l1_def held_before a_def c_audible_def)
  ultimately show ?thesis
    using live_pending_hear [OF l1, of f] live_pending_overlap [of "listen_hear f l1" f]
      live_pending_turn [of "listen_hear f l1" hears f]
    by (auto simp: listen_frame_def m_def [symmetric] a_def [symmetric] fr_def [symmetric] l1_def [symmetric] Let_def)
qed


section \<open>A concrete conversation\<close>

text \<open>A frame of speech and one of silence, with a detector that never finds the turn complete.\<close>

definition sample_frame :: "bool \<Rightarrow> nat frame_in" where
  "sample_frame talks = \<lparr>f_frame = [1], f_activity = (if talks then 200 else 0), f_loud = talks, f_busy = False,
     f_played = False, f_play = newRing 0 4, f_running = False, f_busy_reset = True, f_busy_resume = True, f_now = 0, f_later = 0, f_momentDue = False,
     f_unheld = False, f_taken = 0, f_interrupts = False, f_turnJob = 0, f_turn = \<lparr>Probability = 0, Complete = False\<rparr>,
     f_rejudged = None, f_predict = Some \<lparr>Probability = 0, Complete = False\<rparr>, f_wordsJob = 0, f_words = 0\<rparr>"

definition talked_state :: "nat listener" where
  "talked_state = (listen_start 0 4)\<lparr>u_pcm := [1], l_talked := shortest, c_hearing := True\<rparr>"



end
