(* ===== verification/Duplex_Step.thy ===== *)
theory Duplex_Step
  imports Sample_Ring
begin

text \<open>
  The application's side of \<open>duplex/cascade.go\<close>: \<open>Step\<close> exchanges one frame of audio, \<open>Say\<close>,
  \<open>Note\<close> and \<open>Speaker\<close> hand in text, \<open>addNotes\<close> takes the notes to the conversation and
  \<open>Close\<close> ends the agent.  A channel of capacity one that only signals is a \<open>bool\<close>; the
  lanes' \<open>Close\<close> and the session's \<open>Add\<close> are parameters.
\<close>

section \<open>The code\<close>

datatype duplex_state = Listening | Thinking | Speaking

datatype step_error = ErrFrame | ErrQueueFull | ErrClosed

datatype say_job = SayJob string | OtherJob

record 'a cascade =
  s_in :: "'a sample_ring"
  s_inReady :: bool
  s_play :: "'a sample_ring"
  s_held :: bool
  s_busy :: bool
  s_played :: int
  s_outRate :: nat
  s_outSize :: nat
  s_state :: duplex_state
  s_jobs :: "say_job list"
  s_speaker :: string
  s_notes :: "string list"
  s_noted :: bool
  s_idle_after :: int \<comment> \<open>\<open>Config.Idle\<close>\<close>
  s_idle :: "int option" \<comment> \<open>the idle timer, when it runs\<close>
  s_planned :: bool
  s_cancelled :: bool
  s_closed :: bool
  s_stopped :: bool \<comment> \<open>\<open>stop\<close> is closed\<close>

definition in_frame :: nat where "in_frame = 320"
definition inRate :: nat where "inRate = 16000"

definition Rates :: "'a cascade \<Rightarrow> nat \<times> nat" where
  "Rates c = (inRate, s_outRate c)"

definition Frame :: "'a cascade \<Rightarrow> nat \<times> nat" where
  "Frame c = (in_frame, s_outSize c)"

text \<open>The half of \<open>Step\<close> that takes audio in, then the half that plays.\<close>

definition Step_in :: "'a cascade \<Rightarrow> 'a list option \<Rightarrow> 'a cascade option" where
  "Step_in c inp =
     (case inp of
        None \<Rightarrow> Some c
      | Some v \<Rightarrow> map_option (\<lambda>r. c\<lparr>s_in := r, s_inReady := True\<rparr>) (ring_write (s_in c) v))"

definition Step_out :: "'a \<Rightarrow> 'a cascade \<Rightarrow> 'a list \<Rightarrow> ('a cascade \<times> 'a list) option" where
  "Step_out zero c out =
     map_option (\<lambda>(r, dst, n).
         (c\<lparr>s_play := r, s_played := s_played c + int n,
            s_state := (if 0 < n then Speaking else if s_busy c then Thinking else Listening)\<rparr>,
          take n dst @ replicate (length dst - n) zero))
       (if s_held c then Some (s_play c, out, 0) else ring_read (s_play c) out)"

definition Step :: "'a \<Rightarrow> 'a cascade \<Rightarrow> 'a list option \<Rightarrow> 'a list \<Rightarrow>
    ('a cascade \<times> (step_error + duplex_state \<times> 'a list)) option" where
  "Step zero c inp out =
     (if (case inp of None \<Rightarrow> False | Some v \<Rightarrow> length v \<noteq> in_frame) \<or> length out \<noteq> s_outSize c
      then Some (c, Inl ErrFrame)
      else Option.bind (Step_in c inp) (\<lambda>c1.
        map_option (\<lambda>(c2, out'). (c2, Inr (s_state c2, out'))) (Step_out zero c1 out)))"

text \<open>\<open>Buffered\<close>, in nanoseconds.\<close>

definition Buffered :: "'a cascade \<Rightarrow> nat" where
  "Buffered c = ring_len (s_play c) * 1000000000 div s_outRate c"

definition Say :: "'a cascade \<Rightarrow> string \<Rightarrow> 'a cascade \<times> step_error option" where
  "Say c s = (if length (s_jobs c) < 4 then (c\<lparr>s_jobs := s_jobs c @ [SayJob s]\<rparr>, None) else (c, Some ErrQueueFull))"

definition active :: "'a cascade \<Rightarrow> 'a cascade" where
  "active c = (if 0 < s_idle_after c then c\<lparr>s_idle := Some (s_idle_after c)\<rparr> else c)"

definition queue_note :: "'a cascade \<Rightarrow> string \<Rightarrow> bool \<Rightarrow> 'a cascade \<times> step_error option" where
  "queue_note c s activity =
     (if s_closed c then (c, Some ErrClosed)
      else let c1 = c\<lparr>s_notes := s_notes c @ [s]\<rparr>; c2 = (if activity then active c1 else c1)
           in (c2\<lparr>s_noted := True\<rparr>, None))"

definition Note :: "'a cascade \<Rightarrow> string \<Rightarrow> 'a cascade \<times> step_error option" where
  "Note c s = queue_note c s True"

definition Speaker :: "'a cascade \<Rightarrow> string \<Rightarrow> 'a cascade" where
  "Speaker c name = c\<lparr>s_speaker := name\<rparr>"

definition idleMoment :: "'a cascade \<Rightarrow> 'a cascade" where
  "idleMoment c = fst (queue_note c ''Nothing has happened for a while.'' False)"

definition plannedMoment :: "'a cascade \<Rightarrow> 'a cascade" where
  "plannedMoment c = fst (queue_note c ''The time you asked to wait has passed.'' False)"

text \<open>\<open>addNotes\<close>: \<open>add\<close> is the session's \<open>Add\<close> of a system message; errors are reported.\<close>

fun add_all :: "('s \<Rightarrow> string \<Rightarrow> 's + string \<times> 's) \<Rightarrow> 's \<Rightarrow> string list \<Rightarrow> 's \<times> string list" where
  "add_all add ses [] = (ses, [])"
| "add_all add ses (n # ns) =
     (case add ses n of
        Inl ses' \<Rightarrow> add_all add ses' ns
      | Inr (e, ses') \<Rightarrow> (case add_all add ses' ns of (ses'', es) \<Rightarrow> (ses'', e # es)))"

definition addNotes :: "('s \<Rightarrow> string \<Rightarrow> 's + string \<times> 's) \<Rightarrow> 'a cascade \<Rightarrow> 's \<Rightarrow> 'a cascade \<times> 's \<times> string list \<times> bool" where
  "addNotes add c ses =
     (case add_all add ses (s_notes c) of (ses', es) \<Rightarrow> (c\<lparr>s_notes := []\<rparr>, ses', es, 0 < length (s_notes c)))"

text \<open>
  \<open>Close\<close>: the lanes are the transcriber, the optional turn detector and classifiers, the
  session and the voice, each with the error its \<open>Close\<close> returns.  The result is the lanes
  closed, in order, and the errors joined.
\<close>

record lanes =
  ln_transcriber :: "string option"
  ln_turns :: "string option option"
  ln_interruptions :: "string option option"
  ln_quiet :: "string option option"
  ln_wake :: "string option option"
  ln_session :: "string option"
  ln_voice :: "string option"

datatype lane = Transcriber | Turns | Interruptions | Quiet | Wake | Session | Voice

definition opt_lane :: "lane \<Rightarrow> string option option \<Rightarrow> (lane \<times> string option) list" where
  "opt_lane k e = (case e of None \<Rightarrow> [] | Some e' \<Rightarrow> [(k, e')])"

definition close_order :: "lanes \<Rightarrow> (lane \<times> string option) list" where
  "close_order ln = opt_lane Turns (ln_turns ln) @ opt_lane Interruptions (ln_interruptions ln) @
     opt_lane Quiet (ln_quiet ln) @ opt_lane Wake (ln_wake ln) @
     [(Transcriber, ln_transcriber ln), (Session, ln_session ln), (Voice, ln_voice ln)]"

definition Close :: "lanes \<Rightarrow> 'a cascade \<Rightarrow> 'a cascade \<times> lane list \<times> (lane \<times> string) list" where
  "Close ln c =
     (if s_closed c then (c, [], [])
      else (c\<lparr>s_closed := True, s_cancelled := True, s_planned := False, s_idle := None, s_stopped := True\<rparr>,
            map fst (close_order ln),
            List.map_filter (\<lambda>(k, e). map_option (Pair k) e) (close_order ln)))"

section \<open>One step\<close>

definition cascade_wf :: "'a cascade \<Rightarrow> bool" where
  "cascade_wf c \<longleftrightarrow> ring_wf (s_in c) \<and> ring_wf (s_play c)"

definition frame_ok :: "'a list option \<Rightarrow> bool" where
  "frame_ok inp = (case inp of None \<Rightarrow> True | Some v \<Rightarrow> length v = in_frame)"

text \<open>What the speaker hears of playback in a step.\<close>

definition audible_part :: "'a cascade \<Rightarrow> 'a list" where
  "audible_part c = (if s_held c then [] else take (s_outSize c) (ring_contents (s_play c)))"

lemma Step_in_law:
  assumes "cascade_wf c"
  shows "\<exists>r. Step_in c inp = Some (c\<lparr>s_in := r, s_inReady := s_inReady c \<or> inp \<noteq> None\<rparr>) \<and> ring_wf r \<and>
             ring_contents r = (case inp of None \<Rightarrow> ring_contents (s_in c)
                                | Some v \<Rightarrow> last_n (ring_cap (s_in c)) (ring_contents (s_in c) @ v))"
proof (cases inp)
  case None
  then show ?thesis using assms by (intro exI [of _ "s_in c"]) (simp add: Step_in_def cascade_wf_def)
next
  case (Some v)
  then show ?thesis using rg.write_law [of "s_in c" v] assms by (auto simp: Step_in_def cascade_wf_def)
qed

lemma Step_out_law:
  assumes "cascade_wf c" "length out = s_outSize c"
  shows "\<exists>r. ring_wf r \<and> ring_contents r = drop (length (audible_part c)) (ring_contents (s_play c)) \<and>
     Step_out zero c out =
       Some (c\<lparr>s_play := r, s_played := s_played c + int (length (audible_part c)),
               s_state := (if audible_part c \<noteq> [] then Speaking else if s_busy c then Thinking else Listening)\<rparr>,
             audible_part c @ replicate (s_outSize c - length (audible_part c)) zero)"
proof (cases "s_held c")
  case True
  then show ?thesis using assms by (intro exI [of _ "s_play c"]) (simp add: Step_out_def audible_part_def cascade_wf_def)
next
  case False
  define m where "m = min (s_outSize c) (length (ring_contents (s_play c)))"
  have a: "audible_part c = take m (ring_contents (s_play c))" "length (audible_part c) = m"
    using False by (auto simp: audible_part_def m_def min_def)
  have "(0 < m) = (audible_part c \<noteq> [])" using a(2) by (metis length_greater_0_conv)
  note pos = this
  have "ring_wf (s_play c)" "m = min (length out) (length (ring_contents (s_play c)))"
    using assms by (simp_all add: cascade_wf_def m_def)
  from rg.read_law [OF this] obtain r where r: "ring_wf r" "ring_contents r = drop m (ring_contents (s_play c))"
      "ring_read (s_play c) out = Some (r, take m (ring_contents (s_play c)) @ drop m out, m)" by blast
  have "m \<le> length (ring_contents (s_play c))" "m \<le> length out" using assms(2) by (simp_all add: m_def)
  then have "Step_out zero c out =
       Some (c\<lparr>s_play := r, s_played := s_played c + int m,
               s_state := (if 0 < m then Speaking else if s_busy c then Thinking else Listening)\<rparr>,
             audible_part c @ replicate (s_outSize c - m) zero)"
    using False r(3) a(1) assms(2) by (simp add: Step_out_def)
  with r pos a(2) show ?thesis by (intro exI [of _ r]) simp
qed

lemma Step_law:
  assumes "cascade_wf c" "frame_ok inp" "length out = s_outSize c"
  shows "\<exists>c'. Step zero c inp out =
       Some (c', Inr (s_state c', audible_part c @ replicate (s_outSize c - length (audible_part c)) zero)) \<and>
     cascade_wf c' \<and> s_outSize c' = s_outSize c \<and> s_held c' = s_held c \<and>
     ring_contents (s_play c') = drop (length (audible_part c)) (ring_contents (s_play c)) \<and>
     s_played c' = s_played c + int (length (audible_part c)) \<and> (s_state c' = Speaking) = (audible_part c \<noteq> [])"
proof -
  obtain r where r: "Step_in c inp = Some (c\<lparr>s_in := r, s_inReady := s_inReady c \<or> inp \<noteq> None\<rparr>)" "ring_wf r"
    using Step_in_law [OF assms(1)] by blast
  define c1 where "c1 = c\<lparr>s_in := r, s_inReady := s_inReady c \<or> inp \<noteq> None\<rparr>"
  have "cascade_wf c1" using r(2) assms(1) by (simp add: cascade_wf_def c1_def)
  moreover have "audible_part c1 = audible_part c" by (simp add: audible_part_def c1_def)
  ultimately obtain p where p: "ring_wf p" "ring_contents p = drop (length (audible_part c)) (ring_contents (s_play c))"
     "Step_out zero c1 out =
       Some (c1\<lparr>s_play := p, s_played := s_played c + int (length (audible_part c)),
               s_state := (if audible_part c \<noteq> [] then Speaking else if s_busy c then Thinking else Listening)\<rparr>,
             audible_part c @ replicate (s_outSize c - length (audible_part c)) zero)"
    using Step_out_law [of c1 out zero] assms(3) by (auto simp: c1_def)
  have "\<not> ((case inp of None \<Rightarrow> False | Some v \<Rightarrow> length v \<noteq> in_frame) \<or> length out \<noteq> s_outSize c)"
    using assms(2,3) by (simp add: frame_ok_def split: option.splits)
  then have "Step zero c inp out = map_option (\<lambda>(c2, out'). (c2, Inr (s_state c2, out'))) (Step_out zero c1 out)"
    using r(1) by (simp add: Step_def c1_def)
  with p r(2) show ?thesis by (auto simp: cascade_wf_def c1_def)
qed

section \<open>Playing a reply\<close>

fun Steps :: "'a \<Rightarrow> 'a cascade \<Rightarrow> 'a list option list \<Rightarrow> ('a cascade \<times> (step_error + duplex_state \<times> 'a list) list) option" where
  "Steps zero c [] = Some (c, [])"
| "Steps zero c (i # is) =
     Option.bind (Step zero c i (replicate (s_outSize c) zero)) (\<lambda>(c', r).
       map_option (\<lambda>(c'', rs). (c'', r # rs)) (Steps zero c' is))"

text \<open>The samples the steps wrote out.\<close>

definition heard_of :: "(step_error + duplex_state \<times> 'a list) list \<Rightarrow> 'a list" where
  "heard_of rs = concat (map (\<lambda>r. case r of Inl _ \<Rightarrow> [] | Inr (_, out) \<Rightarrow> out) rs)"

lemma heard_of_Cons [simp]: "heard_of (Inr (st, out) # rs) = out @ heard_of rs"
  by (simp add: heard_of_def)

lemma take_padded:
  "take m xs @ replicate (m - min m (length xs)) z @ take n (drop m xs @ replicate n z) =
   take (m + n) (xs @ replicate (m + n) z)"
proof (cases "m \<le> length xs")
  case True
  then show ?thesis by (simp add: min_def take_add take_replicate) linarith
next
  case False
  then have "m - length xs + n = m + n - length xs" by simp
  with False show ?thesis by (simp add: min_def take_replicate replicate_add [symmetric])
qed


section \<open>Notes and the end\<close>

text \<open>Every note taken before \<open>Close\<close> reaches the session, in order, once.\<close>

lemma notes_in_order:
  assumes "\<not> s_closed c" "\<And>ses n. add ses n = Inl (ses @ [n])"
  shows "let c' = fold (\<lambda>n c. fst (Note c n)) ns c; (c2, ses', es, any) = addNotes add c' ses in
           ses' = ses @ s_notes c @ ns \<and> es = [] \<and> s_notes c2 = []"
proof -
  have all: "add_all add ses ms = (ses @ ms, [])" for ses ms
    by (induction ms arbitrary: ses) (simp_all add: assms(2))
  have "s_notes (fold (\<lambda>n c. fst (Note c n)) ns c) = s_notes c @ ns"
    using assms(1)
  proof (induction ns arbitrary: c)
    case (Cons n ns)
    have "\<not> s_closed (fst (Note c n))" "s_notes (fst (Note c n)) = s_notes c @ [n]"
      using Cons.prems by (simp_all add: Note_def queue_note_def active_def Let_def)
    with Cons.IH [of "fst (Note c n)"] show ?case by simp
  qed simp
  then show ?thesis by (simp add: addNotes_def all Let_def)
qed

text \<open>The lanes are closed once, whatever their errors; afterwards a note is refused.\<close>

lemma Close_once:
  assumes "\<not> s_closed c" "Close ln c = (c1, closed, errs)"
  shows "distinct closed \<and> {Transcriber, Session, Voice} \<subseteq> set closed \<and> snd (Close ln c1) = ([], []) \<and>
         snd (Note c1 n) = Some ErrClosed"
proof -
  have "distinct (map fst (opt_lane k e))" "set (map fst (opt_lane k e)) \<subseteq> {k}" for k e
    by (auto simp: opt_lane_def split: option.splits)
  note opt = this
  have "distinct (map fst (close_order ln))"
    using opt [of Turns "ln_turns ln"] opt [of Interruptions "ln_interruptions ln"] opt [of Quiet "ln_quiet ln"] opt [of Wake "ln_wake ln"]
    unfolding close_order_def by fastforce
  moreover have "{Transcriber, Session, Voice} \<subseteq> set (map fst (close_order ln))" by (simp add: close_order_def)
  moreover have "closed = map fst (close_order ln)" "s_closed c1" using assms by (auto simp: Close_def)
  ultimately show ?thesis by (simp add: Close_def Note_def queue_note_def)
qed


end
