(* ===== verification/Chat_Tools.thy ===== *)
theory Chat_Tools
  imports Transcript_Json Asr_Text
begin

text \<open>
  Tool calls as \<open>qwen3/tools.go\<close> and \<open>qwen3/dialect.go\<close> write and read them: Qwen3's JSON calls
  and the XML calls of the Qwen3.5 family.  Reading scans bytes by index, as the code does.  The
  JSON package the code calls is a parameter: \<open>Marshal\<close> of a string, \<open>Compact\<close>, \<open>Valid\<close>, and the
  members of an object as \<open>EachObject\<close> gives them.
\<close>

section \<open>Scanning JSON\<close>

definition is_json_space :: "char \<Rightarrow> bool" where
  "is_json_space c \<longleftrightarrow> c = CHR '' '' \<or> c = CHR 0x0A \<or> c = CHR 0x09 \<or> c = CHR 0x0D"

function skipSpace :: "string \<Rightarrow> nat \<Rightarrow> nat" where
  "skipSpace b i = (if i < length b \<and> is_json_space (b ! i) then skipSpace b (i + 1) else i)"
  by pat_completeness auto
termination by (relation "measure (\<lambda>(b, i). length b - i)") auto

text \<open>The loop of \<open>stringEnd\<close>.\<close>

function string_scan :: "string \<Rightarrow> nat \<Rightarrow> nat option" where
  "string_scan b j =
     (if length b \<le> j then None
      else if b ! j = CHR 0x5C then string_scan b (j + 2)
      else if b ! j = CHR 0x22 then Some (j + 1)
      else string_scan b (j + 1))"
  by pat_completeness auto
termination by (relation "measure (\<lambda>(b, j). length b - j)") auto

definition stringEnd :: "string \<Rightarrow> nat \<Rightarrow> nat option" where
  "stringEnd b i = (if length b \<le> i \<or> b ! i \<noteq> CHR 0x22 then None else string_scan b (i + 1))"

declare skipSpace.simps [simp del] string_scan.simps [simp del]

lemma string_scan_gt: "string_scan b j = Some e \<Longrightarrow> j < e"
proof (induction b j rule: string_scan.induct)
  case (1 b j)
  then show ?case by (subst (asm) (3) string_scan.simps) (auto split: if_splits)
qed

lemma stringEnd_gt: "stringEnd b i = Some e \<Longrightarrow> i + 1 < e"
  by (auto simp: stringEnd_def dest: string_scan_gt split: if_splits)

text \<open>The loop of \<open>valueEnd\<close> over an object or array.\<close>

function value_scan :: "string \<Rightarrow> nat \<Rightarrow> int \<Rightarrow> nat option" where
  "value_scan b j depth =
     (if length b \<le> j then None
      else if b ! j = CHR 0x22 then
        (case stringEnd b j of None \<Rightarrow> None | Some e \<Rightarrow> value_scan b e depth)
      else if b ! j = CHR ''{'' \<or> b ! j = CHR ''['' then value_scan b (j + 1) (depth + 1)
      else if b ! j = CHR ''}'' \<or> b ! j = CHR '']'' then
        if depth - 1 = 0 then Some (j + 1) else value_scan b (j + 1) (depth - 1)
      else value_scan b (j + 1) depth)"
  by pat_completeness auto
termination
  by (relation "measure (\<lambda>(b, j, d). length b - j)") (auto dest: stringEnd_gt)

declare value_scan.simps [simp del]

function scalar_scan :: "string \<Rightarrow> nat \<Rightarrow> nat" where
  "scalar_scan b j =
     (if j < length b \<and> b ! j \<notin> {CHR '','', CHR ''}'', CHR '']'', CHR '' '', CHR 0x0A} then scalar_scan b (j + 1) else j)"
  by pat_completeness auto
termination by (relation "measure (\<lambda>(b, j). length b - j)") auto

declare scalar_scan.simps [simp del]

definition valueEnd :: "string \<Rightarrow> nat \<Rightarrow> nat option" where
  "valueEnd b i =
     (if length b \<le> i then None
      else if b ! i = CHR 0x22 then stringEnd b i
      else if b ! i = CHR ''{'' \<or> b ! i = CHR ''['' then value_scan b i 0
      else if i < scalar_scan b i then Some (scalar_scan b i) else None)"

section \<open>Calls in JSON\<close>

datatype call_error = ErrCall

lemma skipSpace_ge: "i \<le> skipSpace b i"
  by (induction b i rule: skipSpace.induct) (subst skipSpace.simps, auto)

lemma value_scan_gt: "value_scan b j d = Some e \<Longrightarrow> j < e"
proof (induction b j d rule: value_scan.induct)
  case (1 b j d)
  then show ?case
    by (subst (asm) (5) value_scan.simps) (fastforce split: if_splits option.splits dest: stringEnd_gt)
qed

lemma valueEnd_gt: "valueEnd b i = Some e \<Longrightarrow> i < e"
  by (auto simp: valueEnd_def split: if_splits dest: stringEnd_gt value_scan_gt)

text \<open>One member of the object at \<open>i\<close>: where its key ends and its value starts and ends.\<close>

definition call_member :: "string \<Rightarrow> nat \<Rightarrow> (nat \<times> nat \<times> nat) option" where
  "call_member b i =
     (case stringEnd b i of
        None \<Rightarrow> None
      | Some kEnd \<Rightarrow>
          let k = skipSpace b kEnd in
          if length b \<le> k \<or> b ! k \<noteq> CHR '':'' then None
          else let v = skipSpace b (k + 1) in map_option (\<lambda>vEnd. (kEnd, v, vEnd)) (valueEnd b v))"

definition span :: "string \<Rightarrow> nat \<Rightarrow> nat \<Rightarrow> string" where
  "span b i j = take (j - i) (drop i b)"

text \<open>The text of a JSON string that ends at \<open>j\<close>, and the index after a value and its comma.\<close>

definition inside :: "string \<Rightarrow> nat \<Rightarrow> nat \<Rightarrow> string" where
  "inside b i j = span b (i + 1) (j - 1)"

definition call_next :: "string \<Rightarrow> nat \<Rightarrow> nat" where
  "call_next b vEnd = (let n = skipSpace b vEnd in if n < length b \<and> b ! n = CHR '','' then n + 1 else n)"

lemma call_next_ge: "e \<le> call_next b e"
  using skipSpace_ge [of e b] by (simp add: call_next_def Let_def)

lemma call_member_gt:
  "call_member b i = Some (kEnd, v, vEnd) \<Longrightarrow> i < length b \<and> i + 1 < kEnd \<and> kEnd < v \<and> v < vEnd"
  using skipSpace_ge [of kEnd b] skipSpace_ge [of "skipSpace b kEnd + 1" b]
  by (auto simp: call_member_def Let_def split: option.splits if_splits dest!: stringEnd_gt valueEnd_gt)

text \<open>
  The loop of \<open>parseCall\<close>, from index \<open>i0\<close>, with the name and the arguments found so far.  The
  slices of a scanned string or value are in range.
\<close>

function call_loop :: "string \<Rightarrow> nat \<Rightarrow> string option \<Rightarrow> string option \<Rightarrow> call_error + string option \<times> string option" where
  "call_loop b i0 name args =
     (let i = skipSpace b i0 in
      if i < length b \<and> b ! i = CHR ''}'' then Inr (name, args)
      else case call_member b i of
        None \<Rightarrow> Inl ErrCall
      | Some (kEnd, v, vEnd) \<Rightarrow>
          let key = inside b i kEnd in
          if key = ''name'' \<and> b ! v \<noteq> CHR 0x22 then Inl ErrCall
          else call_loop b (call_next b vEnd)
                 (if key = ''name'' then Some (inside b v vEnd) else name)
                 (if key = ''arguments'' then Some (span b v vEnd) else args))"
  by pat_completeness auto
termination
proof (relation "measure (\<lambda>(b, i, name, args). length b - i)", goal_cases)
  case (2 b i0 name args i x kEnd y v vEnd key)
  have "i0 \<le> i" "vEnd \<le> call_next b vEnd" "i < length b" "i < vEnd"
    using 2 skipSpace_ge [of i0 b] call_next_ge [of vEnd b] call_member_gt [of b i kEnd v vEnd] by auto
  then show ?case by auto
qed simp

declare call_loop.simps [simp del]

definition parseCall :: "string \<Rightarrow> call_error + string \<times> string" where
  "parseCall b =
     (let i = skipSpace b 0 in
      if i = length b \<or> b ! i \<noteq> CHR ''{'' then Inl ErrCall
      else case call_loop b (i + 1) None None of
        Inl e \<Rightarrow> Inl e
      | Inr (None, _) \<Rightarrow> Inl ErrCall
      | Inr (Some name, args) \<Rightarrow> Inr (name, case args of None \<Rightarrow> ''{}'' | Some a \<Rightarrow> a))"

section \<open>Dialects\<close>

datatype dialect = jsonCalls | xmlCalls

record Call =
  Call_Name :: string
  Call_Arguments :: string

record ToolSpec =
  Tool_Name :: string
  Tool_Description :: string
  Tool_Parameters :: string

text \<open>\<open>dialectOf\<close>, from the chat template.\<close>

definition has_sub :: "string \<Rightarrow> string \<Rightarrow> bool" where
  "has_sub s sub = (Cut s sub \<noteq> None)"

definition dialectOf :: "string \<Rightarrow> dialect" where
  "dialectOf template = (if has_sub template ''<function='' then xmlCalls else jsonCalls)"

definition scaffold :: "dialect \<Rightarrow> string \<Rightarrow> string" where
  \<open>scaffold d name =
     (if d = xmlCalls then [CHR 0x0A] @ ''<function='' @ name @ ''>'' @ [CHR 0x0A]
      else [CHR 0x0A] @ ''{"name": "'' @ name @ ''", "arguments":'')\<close>

text \<open>
  What the JSON package gives: the members of an object, a string member as its text and another
  as its JSON; \<open>None\<close> for a malformed object.
\<close>

datatype member_value = TextValue string | JsonValue string

type_synonym each_object = "string \<Rightarrow> (string \<times> member_value) list option"

definition parameter_block :: "string \<times> member_value \<Rightarrow> string" where
  "parameter_block kv =
     ''<parameter='' @ fst kv @ ''>'' @ [CHR 0x0A] @
     (case snd kv of TextValue t \<Rightarrow> t | JsonValue j \<Rightarrow> j) @ [CHR 0x0A] @ ''</parameter>'' @ [CHR 0x0A]"

definition call_lead :: "dialect \<Rightarrow> bool \<Rightarrow> bool \<Rightarrow> string" where
  "call_lead d first afterText =
     (if d = xmlCalls \<and> first \<and> afterText then [CHR 0x0A, CHR 0x0A]
      else if \<not> first \<or> afterText then [CHR 0x0A] else [])"

definition call_body :: "each_object \<Rightarrow> dialect \<Rightarrow> Call \<Rightarrow> call_error + string" where
  \<open>call_body each d call =
     (let args = (if Call_Arguments call = [] then ''{}'' else Call_Arguments call) in
      if d = jsonCalls
      then Inr ([CHR 0x0A] @ ''{"name": "'' @ Call_Name call @ ''", "arguments": '' @ args @ ''}'' @ [CHR 0x0A])
      else case each args of
        None \<Rightarrow> Inl ErrCall
      | Some kvs \<Rightarrow>
          Inr ([CHR 0x0A] @ ''<function='' @ Call_Name call @ ''>'' @ [CHR 0x0A] @
               concat (map parameter_block kvs) @ ''</function>'' @ [CHR 0x0A]))\<close>

text \<open>\<open>appendCall\<close>; the text between the tags is what the model would have written there.\<close>

definition appendCall :: "each_object \<Rightarrow> dialect \<Rightarrow> string \<Rightarrow> Call \<Rightarrow> bool \<Rightarrow> bool \<Rightarrow> call_error + string" where
  "appendCall each d dst call first afterText =
     (case call_body each d call of
        Inl e \<Rightarrow> Inl e
      | Inr body \<Rightarrow> Inr (dst @ call_lead d first afterText @ ''<tool_call>'' @ body @ ''</tool_call>''))"

definition json_byte :: "char \<Rightarrow> string" where
  "json_byte c =
     (if c = CHR 0x22 \<or> c = CHR 0x5C then [CHR 0x5C, c]
      else if c = CHR 0x0A then [CHR 0x5C, CHR ''n'']
      else if c = CHR 0x09 then [CHR 0x5C, CHR ''t'']
      else if c = CHR 0x0D then [CHR 0x5C, CHR ''r'']
      else if bv c < 0x20 then [CHR 0x5C, CHR ''u'', CHR ''0'', CHR ''0'', hex (bv c div 16), hex (bv c mod 16)]
      else [c])"

definition call_appendJSONString :: "string \<Rightarrow> string \<Rightarrow> string" where
  "call_appendJSONString dst s = dst @ [CHR 0x22] @ concat (map json_byte s) @ [CHR 0x22]"

definition trim_newlines :: "string \<Rightarrow> string" where
  "trim_newlines v =
     (let v1 = (case v of [] \<Rightarrow> [] | c # cs \<Rightarrow> if c = CHR 0x0A then cs else v)
      in if v1 \<noteq> [] \<and> last v1 = CHR 0x0A then butlast v1 else v1)"

lemma cut_at_length: "cut_at n s sep = Some (a, b) \<Longrightarrow> sep \<noteq> [] \<Longrightarrow> length b < length s"
proof (induction n arbitrary: s a)
  case 0
  then show ?case by (cases "take (length sep) s = sep"; cases s) auto
next
  case (Suc n)
  show ?case
  proof (cases "take (length sep) s = sep")
    case True
    then show ?thesis using Suc.prems by (cases s) auto
  next
    case False
    then obtain a' where "cut_at n (tl s) sep = Some (a', b)" using Suc.prems(1) by auto
    from Suc.IH [OF this Suc.prems(2)] show ?thesis by (cases s) auto
  qed
qed

lemma Cut_length: "Cut s sep = Some (a, b) \<Longrightarrow> sep \<noteq> [] \<Longrightarrow> length b < length s"
  unfolding Cut_def by (rule cut_at_length)

text \<open>The loop of \<open>parseXMLCall\<close>: the members after what is written in \<open>dst\<close>.\<close>

function xml_params :: "(string \<Rightarrow> bool) \<Rightarrow> (string \<Rightarrow> bool) \<Rightarrow> string \<Rightarrow> bool \<Rightarrow> string \<Rightarrow> call_error + string" where
  "xml_params valid isString rest first dst =
     (case Cut rest ''<parameter='' of
        None \<Rightarrow> Inr dst
      | Some (_, r1) \<Rightarrow>
          (case Cut r1 ''>'' of
             None \<Rightarrow> Inl ErrCall
           | Some (param, r2) \<Rightarrow>
               (case Cut r2 ''</parameter>'' of
                  None \<Rightarrow> Inl ErrCall
                | Some (val, r3) \<Rightarrow>
                    let v = trim_newlines val;
                        d1 = call_appendJSONString (if first then dst else dst @ '','') param @ '':''
                    in xml_params valid isString r3 False
                         (if isString param \<or> \<not> valid v then call_appendJSONString d1 v else d1 @ v))))"
  by pat_completeness auto
termination
proof (relation "measure (\<lambda>(v, i, rest, f, d). length rest)", goal_cases)
  case (2 valid isString rest first dst x a r1 y param r2 z val r3)
  then have "length r1 < length rest" "length r2 < length r1" "length r3 < length r2"
    using Cut_length by fastforce+
  then show ?case by simp
qed simp

declare xml_params.simps [simp del]

definition parseXMLCall :: "(string \<Rightarrow> bool) \<Rightarrow> (string \<Rightarrow> string \<Rightarrow> bool) \<Rightarrow> string \<Rightarrow> string \<Rightarrow> call_error + string \<times> string" where
  "parseXMLCall valid isString b dst =
     (case Cut b ''<function='' of
        None \<Rightarrow> Inl ErrCall
      | Some (_, rest) \<Rightarrow>
          (case Cut rest ''>'' of
             None \<Rightarrow> Inl ErrCall
           | Some (name, rest') \<Rightarrow>
               if name = [] then Inl ErrCall
               else case xml_params valid (isString name) rest' True (dst @ ''{'') of
                 Inl e \<Rightarrow> Inl e
               | Inr d \<Rightarrow> Inr (name, d @ ''}'')))"

definition dialect_parse :: "(string \<Rightarrow> bool) \<Rightarrow> (string \<Rightarrow> string \<Rightarrow> bool) \<Rightarrow> dialect \<Rightarrow> string \<Rightarrow> string \<Rightarrow> call_error + string \<times> string" where
  "dialect_parse valid isString d call dst =
     (if d = jsonCalls then
        (case parseCall call of Inl e \<Rightarrow> Inl e | Inr (name, args) \<Rightarrow> Inr (name, dst @ args))
      else parseXMLCall valid isString call dst)"

section \<open>The prompt\<close>

text \<open>\<open>pythonJSON\<close> after \<open>Compact\<close>: a space after every comma and colon outside strings.\<close>

fun python_spaces :: "bool \<Rightarrow> bool \<Rightarrow> string \<Rightarrow> string" where
  "python_spaces quoted escaped [] = []"
| "python_spaces quoted escaped (c # cs) =
     c # (if escaped then python_spaces quoted False cs
          else if quoted \<and> c = CHR 0x5C then python_spaces quoted True cs
          else if c = CHR 0x22 then python_spaces (\<not> quoted) False cs
          else if \<not> quoted \<and> (c = CHR '','' \<or> c = CHR '':'') then CHR '' '' # python_spaces quoted False cs
          else python_spaces quoted False cs)"

definition pythonJSON :: "(string \<Rightarrow> string option) \<Rightarrow> string \<Rightarrow> string option" where
  "pythonJSON compact src = map_option (python_spaces False False) (compact src)"

definition writeTool :: "(string \<Rightarrow> string option) \<Rightarrow> (string \<Rightarrow> string option) \<Rightarrow> ToolSpec \<Rightarrow> string option" where
  \<open>writeTool marshal compact t =
     (case marshal (Tool_Name t) of
        None \<Rightarrow> None
      | Some name \<Rightarrow>
          (case marshal (Tool_Description t) of
             None \<Rightarrow> None
           | Some description \<Rightarrow>
               (case pythonJSON compact (if Tool_Parameters t = [] then ''{"type": "object", "properties": {}}'' else Tool_Parameters t) of
                  None \<Rightarrow> None
                | Some spaced \<Rightarrow>
                    Some ([CHR 0x0A] @ ''{"type": "function", "function": {"name": '' @ name @ '', "description": '' @ description @
                          '', "parameters": '' @ spaced @ ''}}''))))\<close>

fun write_tools :: "(string \<Rightarrow> string option) \<Rightarrow> (string \<Rightarrow> string option) \<Rightarrow> ToolSpec list \<Rightarrow> string option" where
  "write_tools marshal compact [] = Some []"
| "write_tools marshal compact (t # ts) =
     (case writeTool marshal compact t of
        None \<Rightarrow> None
      | Some s \<Rightarrow> map_option ((@) s) (write_tools marshal compact ts))"

text \<open>
  \<open>prompt\<close>; the lines around the tools are the template's own words.
\<close>

definition nl :: string where "nl = [CHR 0x0A]"

definition tools_intro :: "dialect \<Rightarrow> string" where
  "tools_intro d =
     (if d = jsonCalls
      then ''# Tools'' @ nl @ nl @ ''You may call one or more functions to assist with the user query.'' @ nl @ nl @
           ''You are provided with function signatures within <tools></tools> XML tags:'' @ nl @ ''<tools>''
      else ''# Tools'' @ nl @ nl @ ''You have access to the following functions:'' @ nl @ nl @ ''<tools>'')"

definition tools_format :: "dialect \<Rightarrow> string" where
  \<open>tools_format d =
     (if d = jsonCalls
      then nl @ ''</tools>'' @ nl @ nl @ ''For each function call, return a json object with function name and arguments '' @
           ''within <tool_call></tool_call> XML tags:'' @ nl @ ''<tool_call>'' @ nl @
           ''{"name": <function-name>, "arguments": <args-json-object>}'' @ nl @ ''</tool_call>''
      else nl @ ''</tools>'' @ nl @ nl @ ''If you choose to call a function ONLY reply in the following format with NO suffix:'' @ nl @ nl @
           ''<tool_call>'' @ nl @ ''<function=example_function_name>'' @ nl @ ''<parameter=example_parameter_1>'' @ nl @
           ''value_1'' @ nl @ ''</parameter>'' @ nl @
           ''<parameter=example_parameter_2>'' @ nl @ ''This is the value for the second parameter'' @ nl @
           ''that can span'' @ nl @ ''multiple lines'' @ nl @ ''</parameter>'' @ nl @
           ''</function>'' @ nl @ ''</tool_call>'' @ nl @ nl @ ''<IMPORTANT>'' @ nl @ ''Reminder:'' @ nl @
           ''- Function calls MUST follow the specified format: an inner <function=...></function> block must be nested within <tool_call></tool_call> XML tags'' @ nl @
           ''- Required parameters MUST be specified'' @ nl @
           ''- You may provide optional reasoning for your function call in natural language BEFORE the function call, but NOT after'' @ nl @
           ''- If there is no function call available, answer the question like normal with your current knowledge and do not tell the user about function calls'' @ nl @
           ''</IMPORTANT>'')\<close>

definition prompt :: "(string \<Rightarrow> string option) \<Rightarrow> (string \<Rightarrow> string option) \<Rightarrow>
  dialect \<Rightarrow> string \<Rightarrow> ToolSpec list \<Rightarrow> string option" where
  "prompt marshal compact d system tools =
     map_option (\<lambda>written.
       (if d = jsonCalls \<and> system \<noteq> [] then system @ nl @ nl else []) @ tools_intro d @ written @ tools_format d @
       (if d = xmlCalls \<and> TrimSpace system \<noteq> [] then nl @ nl @ TrimSpace system else []))
     (write_tools marshal compact tools)"

text \<open>\<open>stringParams\<close>, from the properties and their types that the schema decodes to.\<close>

definition stringParams :: "(string \<Rightarrow> (string \<times> string) list option) \<Rightarrow> string \<Rightarrow> string list" where
  "stringParams properties schema =
     (if schema = [] then []
      else case properties schema of
        None \<Rightarrow> []
      | Some ps \<Rightarrow> map fst (filter (\<lambda>p. snd p = ''string'') ps))"

section \<open>Scans by position\<close>

text \<open>Scans do not depend on what comes before, nor on what follows their end.\<close>

lemma skipSpace_shift: "skipSpace (p @ s) (length p + i) = length p + skipSpace s i"
proof (induction s i rule: skipSpace.induct)
  case (1 s i)
  then show ?case
    by (simp add: skipSpace.simps [of s i] skipSpace.simps [of "p @ s" "length p + i"] nth_append_length_plus)
qed

lemma string_scan_shift: "string_scan (p @ s) (length p + j) = map_option ((+) (length p)) (string_scan s j)"
proof (induction s j rule: string_scan.induct)
  case (1 s j)
  then show ?case
    by (simp add: string_scan.simps [of s j] string_scan.simps [of "p @ s" "length p + j"] nth_append_length_plus add.assoc)
qed

lemma stringEnd_shift: "stringEnd (p @ s) (length p + i) = map_option ((+) (length p)) (stringEnd s i)"
  using string_scan_shift [of p s "i + 1"] by (simp add: stringEnd_def nth_append_length_plus)

lemma value_scan_shift: "value_scan (p @ s) (length p + j) d = map_option ((+) (length p)) (value_scan s j d)"
proof (induction s j d rule: value_scan.induct)
  case (1 s j d)
  show ?case
  proof (cases "j < length s \<and> s ! j = CHR 0x22")
    case True
    then show ?thesis
      using 1(1) by (cases "stringEnd s j")
        (simp_all add: value_scan.simps [of s j] value_scan.simps [of "p @ s" "length p + j"] nth_append_length_plus stringEnd_shift)
  next
    case False
    then show ?thesis
      using 1(2-4) by (auto simp: value_scan.simps [of s j] value_scan.simps [of "p @ s" "length p + j"] nth_append_length_plus)
  qed
qed

lemma scalar_scan_shift: "scalar_scan (p @ s) (length p + j) = length p + scalar_scan s j"
proof (induction s j rule: scalar_scan.induct)
  case (1 s j)
  then show ?case
    by (simp add: scalar_scan.simps [of s j] scalar_scan.simps [of "p @ s" "length p + j"] nth_append_length_plus)
qed

lemma valueEnd_shift: "valueEnd (p @ s) (length p + i) = map_option ((+) (length p)) (valueEnd s i)"
  by (simp add: valueEnd_def nth_append_length_plus stringEnd_shift value_scan_shift scalar_scan_shift)

lemma span_shift: "span (p @ s) (length p + i) (length p + j) = span s i j"
  by (simp add: span_def)

lemma call_member_shift:
  "call_member (p @ s) (length p + i) = map_option (\<lambda>(a, b, c). (length p + a, length p + b, length p + c)) (call_member s i)"
proof (cases "stringEnd s i")
  case None
  then show ?thesis by (simp add: call_member_def stringEnd_shift)
next
  case (Some kEnd)
  define k where "k = skipSpace s kEnd"
  have "skipSpace (p @ s) (length p + k + 1) = length p + skipSpace s (k + 1)"
    using skipSpace_shift [of p s "k + 1"] by (simp add: add.assoc)
  then show ?thesis
    using Some by (simp add: call_member_def stringEnd_shift skipSpace_shift k_def [symmetric] nth_append_length_plus Let_def
        valueEnd_shift option.map_comp comp_def)
qed

lemma inside_shift: "1 \<le> j \<Longrightarrow> inside (p @ s) (length p + i) (length p + j) = inside s i j"
  using span_shift [of p s "i + 1" "j - 1"] by (simp add: inside_def add.assoc)

lemma call_next_shift: "call_next (p @ s) (length p + e) = length p + call_next s e"
  by (simp add: call_next_def skipSpace_shift nth_append_length_plus Let_def)

lemma call_loop_shift: "call_loop (p @ s) (length p + i) name args = call_loop s i name args"
proof (induction s i name args rule: call_loop.induct)
  case (1 s i0 name args)
  define i where "i = skipSpace s i0"
  note unf = call_loop.simps [of s i0] call_loop.simps [of "p @ s" "length p + i0"]
  show ?case
  proof (cases "i < length s \<and> s ! i = CHR ''}'' \<or> call_member s i = None")
    case True
    then show ?thesis unfolding unf
      by (auto simp: skipSpace_shift i_def [symmetric] nth_append_length_plus call_member_shift)
  next
    case False
    then obtain kEnd v vEnd where m: "call_member s i = Some (kEnd, v, vEnd)" by (metis option.exhaust prod_cases3)
    note gt = call_member_gt [OF m]
    have sp: "inside (p @ s) (length p + i) (length p + kEnd) = inside s i kEnd"
      "inside (p @ s) (length p + v) (length p + vEnd) = inside s v vEnd"
      using gt by (simp_all add: inside_shift)
    have lhs: "call_loop (p @ s) (length p + i0) name args =
      (if inside s i kEnd = ''name'' \<and> s ! v \<noteq> CHR 0x22 then Inl ErrCall
       else call_loop (p @ s) (length p + call_next s vEnd)
              (if inside s i kEnd = ''name'' then Some (inside s v vEnd) else name)
              (if inside s i kEnd = ''arguments'' then Some (span s v vEnd) else args))"
      using False unfolding unf(2) Let_def skipSpace_shift i_def [symmetric] call_member_shift m
      by (auto simp: nth_append_length_plus call_next_shift span_shift sp)
    show ?thesis
      using False 1 [OF i_def, of "(kEnd, v, vEnd)" kEnd "(v, vEnd)" v vEnd "inside s i kEnd"] m
      unfolding lhs unf(1) Let_def i_def [symmetric] m by auto
  qed
qed

lemma string_scan_append: "string_scan s j = Some e \<Longrightarrow> string_scan (s @ t) j = Some e"
proof (induction s j rule: string_scan.induct)
  case (1 s j)
  then show ?case
    by (auto simp: string_scan.simps [of s j] string_scan.simps [of "s @ t" j] nth_append split: if_splits)
qed

lemma stringEnd_append: "stringEnd s i = Some e \<Longrightarrow> stringEnd (s @ t) i = Some e"
  by (auto simp: stringEnd_def nth_append string_scan_append split: if_splits)

lemma value_scan_append: "value_scan s j d = Some e \<Longrightarrow> value_scan (s @ t) j d = Some e"
proof (induction s j d rule: value_scan.induct)
  case (1 s j d)
  then show ?case
    by (auto simp: value_scan.simps [of s j] value_scan.simps [of "s @ t" j] nth_append stringEnd_append
        split: if_splits option.splits)
qed

end
