(* ===== verification/Chat_Calls.thy ===== *)
theory Chat_Calls
  imports Chat_Tools
begin

text \<open>
  A call read back as it was written, in both dialects of \<open>qwen3/dialect.go\<close>.  The arguments of a
  JSON call are any JSON object; the scan that finds its end counts brackets, so what carries the
  proof is that the text of a JSON value is balanced.
\<close>

section \<open>JSON text\<close>

datatype json = Lit string | Str string | Arr "json list" | Obj "(string \<times> json) list"

fun join_comma :: "string list \<Rightarrow> string" where
  "join_comma [] = []"
| "join_comma [x] = x"
| "join_comma (x # y # ys) = x @ '','' @ join_comma (y # ys)"

fun render :: "json \<Rightarrow> string" where
  "render (Lit l) = l"
| "render (Str s) = call_appendJSONString [] s"
| "render (Arr xs) = ''['' @ join_comma (map render xs) @ '']''"
| "render (Obj kvs) = ''{'' @ join_comma (map (\<lambda>kv. call_appendJSONString [] (fst kv) @ '':'' @ render (snd kv)) kvs) @ ''}''"

text \<open>A number or a word: no quote and no bracket.\<close>

definition neutral :: "char \<Rightarrow> bool" where
  "neutral c \<longleftrightarrow> c \<noteq> CHR 0x22 \<and> c \<noteq> CHR ''{'' \<and> c \<noteq> CHR ''['' \<and> c \<noteq> CHR ''}'' \<and> c \<noteq> CHR '']''"

fun json_ok :: "json \<Rightarrow> bool" where
  "json_ok (Lit l) = list_all neutral l"
| "json_ok (Str s) = True"
| "json_ok (Arr xs) = list_all json_ok xs"
| "json_ok (Obj kvs) = list_all (\<lambda>kv. json_ok (snd kv)) kvs"

section \<open>Balanced text\<close>

text \<open>Text the bracket count of \<open>valueEnd\<close> passes over.\<close>

definition balanced :: "string \<Rightarrow> bool" where
  "balanced s \<longleftrightarrow> (\<forall>t d. 1 \<le> d \<longrightarrow> value_scan (s @ t) 0 d = map_option ((+) (length s)) (value_scan t 0 d))"

lemma balancedD: "balanced s \<Longrightarrow> 1 \<le> d \<Longrightarrow> value_scan (s @ t) 0 d = map_option ((+) (length s)) (value_scan t 0 d)"
  by (simp add: balanced_def)

lemma map_option_id_plus: "map_option ((+) (0::nat)) x = x"
  by (cases x) auto

lemma balanced_Nil: "balanced []"
  by (simp add: balanced_def map_option_id_plus)

lemma balanced_append:
  assumes "balanced s" "balanced t"
  shows "balanced (s @ t)"
  using assms by (auto simp: balanced_def option.map_comp intro!: option.map_cong)

lemma value_scan_Cons: "value_scan (c # s) (Suc j) d = map_option Suc (value_scan s j d)"
proof -
  have "value_scan ([c] @ s) (length [c] + j) d = map_option ((+) (length [c])) (value_scan s j d)"
    by (rule value_scan_shift)
  moreover have "(+) (length [c]) = Suc" by auto
  ultimately show ?thesis by simp
qed

lemma balanced_neutral: "neutral c \<Longrightarrow> balanced [c]"
  unfolding balanced_def neutral_def
  by (auto simp: value_scan.simps [of "_ # _" 0] value_scan_Cons intro!: option.map_cong)

lemma balanced_neutrals: "list_all neutral l \<Longrightarrow> balanced l"
proof (induction l)
  case (Cons c l)
  have "balanced ([c] @ l)"
    using Cons by (intro balanced_append balanced_neutral) auto
  then show ?case by simp
qed (simp add: balanced_Nil)

lemma balanced_nest:
  assumes s: "balanced s" and l: "l = CHR ''{'' \<or> l = CHR ''[''" and r: "r = CHR ''}'' \<or> r = CHR '']''"
  shows "balanced (l # s @ [r])"
  unfolding balanced_def
proof (intro allI impI)
  fix t and d :: int
  assume "1 \<le> d"
  then have "value_scan (s @ r # t) 0 (d + 1) = map_option ((+) (length s)) (map_option Suc (value_scan t 0 d))"
    using r by (auto simp: balancedD [OF s] value_scan.simps [of "r # t" 0] value_scan_Cons)
  moreover have "value_scan (l # s @ r # t) 0 d = map_option Suc (value_scan (s @ r # t) 0 (d + 1))"
    using l by (auto simp: value_scan.simps [of "l # _" 0] value_scan_Cons)
  ultimately show "value_scan ((l # s @ [r]) @ t) 0 d = map_option ((+) (length (l # s @ [r]))) (value_scan t 0 d)"
    by (auto simp: option.map_comp intro!: option.map_cong)
qed

lemma valueEnd_nest:
  assumes s: "balanced s" and l: "l = CHR ''{'' \<or> l = CHR ''[''" and r: "r = CHR ''}'' \<or> r = CHR '']''"
  shows "valueEnd (l # s @ r # t) 0 = Some (length s + 2)"
proof -
  have "value_scan (s @ r # t) 0 1 = Some (length s + 1)"
    using r by (auto simp: balancedD [OF s] value_scan.simps [of "r # t" 0])
  then show ?thesis
    using l by (auto simp: valueEnd_def value_scan.simps [of "l # _" 0] value_scan_Cons)
qed

section \<open>Strings\<close>

lemma string_scan_Cons: "string_scan (c # s) (Suc j) = map_option Suc (string_scan s j)"
proof -
  have "string_scan ([c] @ s) (length [c] + j) = map_option ((+) (length [c])) (string_scan s j)"
    by (rule string_scan_shift)
  moreover have "(+) (length [c]) = Suc" by auto
  ultimately show ?thesis by simp
qed

lemma string_scan_plain:
  "\<lbrakk>c \<noteq> CHR 0x22; c \<noteq> CHR 0x5C\<rbrakk> \<Longrightarrow> string_scan (c # s) 0 = map_option Suc (string_scan s 0)"
  by (simp add: string_scan.simps [of "c # s" 0] string_scan_Cons)

lemma string_scan_escape:
  "string_scan (CHR 0x5C # c # s) 0 = map_option (\<lambda>n. n + 2) (string_scan s 0)"
  using string_scan_shift [of "[CHR 0x5C, c]" s 0]
  by (auto simp: string_scan.simps [of "CHR 0x5C # c # s" 0] numeral_2_eq_2 intro!: option.map_cong)

lemma string_scan_quote: "string_scan (CHR 0x22 # t) 0 = Some 1"
  by (simp add: string_scan.simps [of "CHR 0x22 # t" 0])

text \<open>What \<open>appendJSONString\<close> writes for a byte is passed over whole.\<close>

lemma hex_plain: "d < 16 \<Longrightarrow> hex d \<noteq> CHR 0x22 \<and> hex d \<noteq> CHR 0x5C"
proof -
  have "list_all (\<lambda>d. hex d \<noteq> CHR 0x22 \<and> hex d \<noteq> CHR 0x5C) [0..<16]" by code_simp
  moreover assume "d < 16"
  ultimately show ?thesis by (simp add: list_all_iff)
qed

lemma string_scan_byte: "string_scan (json_byte c @ s) 0 = map_option ((+) (length (json_byte c))) (string_scan s 0)"
proof -
  have "hex (bv c div 16) \<noteq> CHR 0x22 \<and> hex (bv c div 16) \<noteq> CHR 0x5C"
    "hex (bv c mod 16) \<noteq> CHR 0x22 \<and> hex (bv c mod 16) \<noteq> CHR 0x5C" if "bv c < 32"
    using that by (simp_all add: hex_plain)
  then show ?thesis
    by (auto simp: json_byte_def string_scan_escape string_scan_plain option.map_comp comp_def intro!: option.map_cong)
qed

lemma string_scan_bytes:
  "string_scan (concat (map json_byte s) @ CHR 0x22 # t) 0 = Some (length (concat (map json_byte s)) + 1)"
  by (induction s) (simp_all add: string_scan_quote string_scan_byte)

lemma stringEnd_written: "stringEnd (call_appendJSONString [] s @ t) 0 = Some (length (call_appendJSONString [] s))"
  by (simp add: call_appendJSONString_def stringEnd_def string_scan_Cons string_scan_bytes)

lemma balanced_string: "balanced (call_appendJSONString [] s)"
  unfolding balanced_def
proof (intro allI impI)
  fix t and d :: int
  let ?q = "call_appendJSONString [] s"
  have q: "?q \<noteq> []" "(?q @ t) ! 0 = CHR 0x22" by (simp_all add: call_appendJSONString_def)
  show "value_scan (?q @ t) 0 d = map_option ((+) (length ?q)) (value_scan t 0 d)"
    using q value_scan_shift [of ?q t 0 d] by (simp add: value_scan.simps [of "?q @ t" 0] stringEnd_written)
qed

lemma balanced_join: "list_all balanced xs \<Longrightarrow> balanced (join_comma xs)"
proof (induction xs rule: join_comma.induct)
  case (3 x y ys)
  have "balanced (x @ '','' @ join_comma (y # ys))"
    using 3 by (intro balanced_append balanced_neutral) (simp_all add: neutral_def)
  then show ?case by simp
qed (simp_all add: balanced_Nil)

lemma balanced_members:
  assumes "\<And>k v. (k, v) \<in> set kvs \<Longrightarrow> balanced (f v)"
  shows "balanced (join_comma (map (\<lambda>kv. call_appendJSONString [] (fst kv) @ '':'' @ f (snd kv)) kvs))"
proof -
  have "balanced (call_appendJSONString [] k @ '':'' @ f v)" if "(k, v) \<in> set kvs" for k v
    using assms [OF that] by (intro balanced_append balanced_neutral balanced_string) (auto simp: neutral_def)
  then show ?thesis by (intro balanced_join) (auto simp: list_all_iff)
qed

lemma balanced_render: "json_ok j \<Longrightarrow> balanced (render j)"
proof (induction j)
  case (Lit l)
  then show ?case by (simp add: balanced_neutrals)
next
  case (Str s)
  then show ?case by (simp add: balanced_string)
next
  case (Arr xs)
  then have "balanced (join_comma (map render xs))"
    by (intro balanced_join) (simp add: list_all_iff)
  from balanced_nest [OF this, of "CHR ''[''" "CHR '']''"] show ?case by simp
next
  case (Obj kvs)
  then have "balanced (join_comma (map (\<lambda>kv. call_appendJSONString [] (fst kv) @ '':'' @ render (snd kv)) kvs))"
    by (intro balanced_members) (auto simp: list_all_iff)
  from balanced_nest [OF this, of "CHR ''{''" "CHR ''}''"] show ?case by simp
qed

section \<open>The JSON dialect\<close>

text \<open>One member of a call, its value a string or an object, and what follows it.\<close>

lemma skipSpace_stop: "\<lbrakk>i < length s; \<not> is_json_space (s ! i)\<rbrakk> \<Longrightarrow> skipSpace s i = i"
  by (simp add: skipSpace.simps [of s i])

lemma skipSpace_space: "\<lbrakk>is_json_space c; s \<noteq> []; \<not> is_json_space (hd s)\<rbrakk> \<Longrightarrow> skipSpace (c # s) 0 = 1"
  by (cases s) (auto simp: skipSpace.simps [of "c # _" 0] skipSpace_stop)

lemma call_member_written:
  assumes k: "stringEnd (k @ '': '' @ v @ t) 0 = Some (length k)"
    and v: "valueEnd (v @ t) 0 = Some (length v)" "v \<noteq> []" "\<not> is_json_space (hd v)"
  shows "call_member (k @ '': '' @ v @ t) 0 = Some (length k, length k + 2, length k + 2 + length v)"
proof -
  let ?b = "k @ '': '' @ v @ t"
  have s1: "skipSpace ?b (length k) = length k"
    using skipSpace_shift [of k "'': '' @ v @ t" 0] by (simp add: skipSpace_stop is_json_space_def)
  have "skipSpace (CHR '' '' # v @ t) 0 = 1"
    using v by (intro skipSpace_space) (auto simp: is_json_space_def)
  then have s2: "skipSpace ?b (length k + 1) = length k + 2"
    using skipSpace_shift [of "k @ '':''" "'' '' @ v @ t" 0] by simp
  have "valueEnd ?b (length k + 2) = Some (length k + 2 + length v)"
    using valueEnd_shift [of "k @ '': ''" "v @ t" 0] v(1) by simp
  then show ?thesis
    using k s1 s2 by (simp add: call_member_def nth_append Let_def)
qed

lemma call_loop_written:
  assumes k: "stringEnd (k @ '': '' @ v @ t) 0 = Some (length k)" "k \<noteq> []" "hd k = CHR 0x22"
    and v: "valueEnd (v @ t) 0 = Some (length v)" "v \<noteq> []" "\<not> is_json_space (hd v)"
    and str: "inside k 0 (length k) = ''name'' \<longrightarrow> hd v = CHR 0x22"
  shows "call_loop (k @ '': '' @ v @ t) 0 name args =
    call_loop t (call_next t 0)
      (if inside k 0 (length k) = ''name'' then Some (inside v 0 (length v)) else name)
      (if inside k 0 (length k) = ''arguments'' then Some v else args)"
proof -
  let ?b = "k @ '': '' @ v @ t"
  have s: "skipSpace ?b 0 = 0" "?b ! 0 = CHR 0x22"
    using k by (auto simp: skipSpace_stop is_json_space_def nth_append hd_conv_nth)
  have n: "call_next ?b (length k + 2 + length v) = length (k @ '': '' @ v) + call_next t 0"
    using call_next_shift [of "k @ '': '' @ v" t 0] by simp
  have l: "call_loop ?b (length (k @ '': '' @ v) + call_next t 0) a b = call_loop t (call_next t 0) a b" for a b
    using call_loop_shift [of "k @ '': '' @ v" t] by simp
  have i: "inside ?b 0 (length k) = inside k 0 (length k)"
    using k by (cases k) (simp_all add: inside_def span_def)
  have w: "inside ?b (length k + 2) (length k + 2 + length v) = inside v 0 (length v)"
    "span ?b (length k + 2) (length k + 2 + length v) = v" "?b ! (length k + 2) = hd v"
    using v by (simp_all add: inside_def span_def nth_append hd_conv_nth numeral_2_eq_2)
  define b where "b = ?b"
  define e where "e = length k + 2 + length v"
  define v0 where "v0 = length k + 2"
  have "call_member b 0 = Some (length k, v0, e)"
    unfolding b_def e_def v0_def by (rule call_member_written [OF k(1) v])
  moreover have "call_loop b (call_next b e) x y = call_loop t (call_next t 0) x y" for x y
    unfolding b_def e_def n l ..
  moreover have "inside b v0 e = inside v 0 (length v)" "span b v0 e = v" "b ! v0 = hd v"
    using w unfolding b_def e_def v0_def by blast+
  ultimately have "call_loop b 0 name args =
    call_loop t (call_next t 0)
      (if inside k 0 (length k) = ''name'' then Some (inside v 0 (length v)) else name)
      (if inside k 0 (length k) = ''arguments'' then Some v else args)"
    using s str i unfolding b_def [symmetric] by (simp add: call_loop.simps [of b 0] Let_def)
  then show ?thesis by (simp add: b_def)
qed

definition call_args :: "Call \<Rightarrow> string" where
  "call_args c = (if Call_Arguments c = [] then ''{}'' else Call_Arguments c)"

definition plain_name :: "string \<Rightarrow> bool" where
  "plain_name s \<longleftrightarrow> list_all (\<lambda>c. c \<noteq> CHR 0x22 \<and> c \<noteq> CHR 0x5C) s"

lemma string_scan_name:
  "plain_name s \<Longrightarrow> string_scan (s @ CHR 0x22 # t) 0 = Some (length s + 1)"
  by (induction s) (auto simp: plain_name_def string_scan_quote string_scan_plain)

lemma stringEnd_name: "plain_name s \<Longrightarrow> stringEnd (CHR 0x22 # s @ CHR 0x22 # t) 0 = Some (length s + 2)"
  by (simp add: stringEnd_def string_scan_Cons string_scan_name)

text \<open>The arguments of a call, as text: a JSON object whole.\<close>

definition object_text :: "string \<Rightarrow> bool" where
  "object_text a \<longleftrightarrow> (\<exists>s. balanced s \<and> a = CHR ''{'' # s @ [CHR ''}''])"

lemma object_text_render: "json_ok (Obj kvs) \<Longrightarrow> object_text (render (Obj kvs))"
proof -
  assume "json_ok (Obj kvs)"
  then have "balanced (render v)" if "(k, v) \<in> set kvs" for k v
    using that by (fastforce simp: list_all_iff intro: balanced_render)
  from balanced_members [OF this] show ?thesis by (simp add: object_text_def)
qed

lemma object_text_empty: "object_text ''{}''"
  using object_text_render [of "[]"] by simp

lemma parse_written:
  assumes n: "plain_name name" and a: "object_text args"
  shows \<open>parseCall ([CHR 0x0A] @ ''{"name": "'' @ name @ ''", "arguments": '' @ args @ ''}'' @ [CHR 0x0A]) = Inr (name, args)\<close>
proof -
  obtain s where s: "balanced s" "args = CHR ''{'' # s @ [CHR ''}'']"
    using a by (auto simp: object_text_def)
  define q where "q = [CHR 0x22] @ name @ [CHR 0x22]"
  define t2 where "t2 = ''}'' @ [CHR 0x0A]"
  define kn ka where "kn = [CHR 0x22] @ ''name'' @ [CHR 0x22]" and "ka = [CHR 0x22] @ ''arguments'' @ [CHR 0x22]"
  define t1 where "t1 = ka @ '': '' @ args @ t2"
  have kn: "stringEnd (kn @ u) 0 = Some (length kn)" for u
    using stringEnd_name [of "''name''" u] by (simp add: kn_def plain_name_def)
  have ka: "stringEnd (ka @ u) 0 = Some (length ka)" for u
    using stringEnd_name [of "''arguments''" u] by (simp add: ka_def plain_name_def)
  have q: "valueEnd (q @ u) 0 = Some (length q)" for u
    using stringEnd_name [OF n, of u] by (simp add: q_def valueEnd_def)
  have in_q: "inside q 0 (length q) = name" "inside kn 0 (length kn) = ''name''" "inside ka 0 (length ka) = ''arguments''"
    by (simp_all add: inside_def span_def q_def kn_def ka_def)
  have args: "valueEnd (args @ t2) 0 = Some (length args)"
    using valueEnd_nest [OF s(1), of "CHR ''{''" "CHR ''}''" t2] s(2) by simp
  have first: "call_loop (kn @ '': '' @ q @ '', '' @ t1) 0 None None = call_loop ('', '' @ t1) (call_next ('', '' @ t1) 0) (Some name) None"
    by (subst call_loop_written) (simp_all add: kn q in_q, simp_all add: kn_def q_def is_json_space_def)
  have nx: "call_next ('', '' @ t1) 0 = 1" by (simp add: call_next_def skipSpace_stop is_json_space_def)
  have sp: "call_loop ('', '' @ t1) 1 x y = call_loop t1 0 x y" for x y
  proof -
    have "call_loop ([CHR '',''] @ ('' '' @ t1)) (length [CHR '',''] + 0) x y = call_loop ('' '' @ t1) 0 x y"
      by (rule call_loop_shift)
    moreover have "skipSpace ('' '' @ t1) 0 = 1" "skipSpace t1 0 = 0"
      by (simp_all add: skipSpace_space skipSpace_stop t1_def ka_def is_json_space_def)
    moreover have "call_loop ([CHR '' ''] @ t1) (length [CHR '' ''] + 0) x y = call_loop t1 0 x y"
      by (rule call_loop_shift)
    moreover have "skipSpace ('' '' @ t1) 1 = 1"
      by (simp add: skipSpace_stop t1_def ka_def is_json_space_def)
    ultimately show ?thesis
      by (simp add: call_loop.simps [of "CHR '' '' # t1" 0] call_loop.simps [of "CHR '' '' # t1" "Suc 0"])
  qed
  have second: "call_loop t1 0 (Some name) None = call_loop t2 (call_next t2 0) (Some name) (Some args)"
    unfolding t1_def by (subst call_loop_written) (simp_all add: ka args in_q, simp_all add: ka_def s(2) is_json_space_def)
  have third: "call_loop t2 (call_next t2 0) x y = Inr (x, y)" for x y
    by (simp add: t2_def call_next_def skipSpace_stop is_json_space_def call_loop.simps [of "CHR ''}'' # _" 0])
  have body: \<open>[CHR 0x0A] @ ''{"name": "'' @ name @ ''", "arguments": '' @ args @ ''}'' @ [CHR 0x0A] =
      [CHR 0x0A, CHR ''{''] @ kn @ '': '' @ q @ '', '' @ t1\<close>
    by (simp add: kn_def q_def t1_def ka_def t2_def)
  have "skipSpace ([CHR 0x0A, CHR ''{''] @ u) 0 = 1" for u
    by (simp add: skipSpace_space is_json_space_def)
  moreover have "call_loop ([CHR 0x0A, CHR ''{''] @ kn @ '': '' @ q @ '', '' @ t1) 2 None None = Inr (Some name, Some args)"
    using call_loop_shift [of "[CHR 0x0A, CHR ''{'']" "kn @ '': '' @ q @ '', '' @ t1" 0 None None]
    unfolding first nx sp second third by (simp add: numeral_2_eq_2)
  ultimately show ?thesis
    unfolding body parseCall_def by (simp add: numeral_2_eq_2)
qed


text \<open>A call with a nested object, whose string holds a bracket and an escaped quote.\<close>

definition sample_args :: "(string \<times> json) list" where
  "sample_args = [(''q'', Str [CHR ''}'', CHR 0x22]), (''n'', Arr [Lit ''1'', Obj []])]"


section \<open>The XML dialect\<close>

lemma cut_at_fresh:
  "\<lbrakk>c \<notin> set a; length a \<le> n\<rbrakk> \<Longrightarrow> cut_at n (a @ (c # sep) @ b) (c # sep) = Some (a, b)"
proof (induction a arbitrary: n)
  case Nil
  then show ?case by (cases n) auto
next
  case (Cons x a)
  then show ?case by (cases n) auto
qed

lemma Cut_fresh: "c \<notin> set a \<Longrightarrow> Cut (a @ (c # sep) @ b) (c # sep) = Some (a, b)"
  unfolding Cut_def by (rule cut_at_fresh) auto

lemma trim_newlines_padded: "trim_newlines ([CHR 0x0A] @ v @ [CHR 0x0A]) = v"
  by (simp add: trim_newlines_def)

definition member_text :: "member_value \<Rightarrow> string" where
  "member_text v = (case v of TextValue t \<Rightarrow> t | JsonValue j \<Rightarrow> j)"

definition member_json :: "string \<times> member_value \<Rightarrow> string" where
  "member_json kv = call_appendJSONString [] (fst kv) @ '':'' @
     (case snd kv of TextValue t \<Rightarrow> call_appendJSONString [] t | JsonValue j \<Rightarrow> j)"

text \<open>
  A member the XML text can carry: no tag inside the value, and its parameter read as a string
  exactly when it was one.
\<close>

definition member_ok :: "(string \<Rightarrow> bool) \<Rightarrow> (string \<Rightarrow> bool) \<Rightarrow> string \<times> member_value \<Rightarrow> bool" where
  "member_ok valid isString kv \<longleftrightarrow>
     CHR ''>'' \<notin> set (fst kv) \<and> CHR ''<'' \<notin> set (member_text (snd kv)) \<and>
     (case snd kv of TextValue t \<Rightarrow> isString (fst kv) \<or> \<not> valid t | JsonValue j \<Rightarrow> \<not> isString (fst kv) \<and> valid j)"

lemma join_comma_Cons: "join_comma (x # xs) = x @ (if xs = [] then [] else '','' @ join_comma xs)"
  by (cases xs) auto

lemma Cut_close: "Cut ([CHR 0x0A] @ ''</function>'' @ [CHR 0x0A]) ''<parameter='' = None"
  by code_simp

lemma xml_member:
  assumes "member_ok valid isString kv"
  shows "xml_params valid isString ([CHR 0x0A] @ parameter_block kv @ rest) first dst =
    xml_params valid isString ([CHR 0x0A] @ rest) False ((if first then dst else dst @ '','') @ member_json kv)"
proof -
  let ?v = "member_text (snd kv)"
  have b: "[CHR 0x0A] @ parameter_block kv @ rest =
      [CHR 0x0A] @ ''<parameter='' @ fst kv @ ''>'' @ ([CHR 0x0A] @ ?v @ [CHR 0x0A]) @ ''</parameter>'' @ [CHR 0x0A] @ rest"
    by (simp add: parameter_block_def member_text_def)
  have c1: "Cut ([CHR 0x0A] @ ''<parameter='' @ u) ''<parameter='' = Some ([CHR 0x0A], u)" for u
    using Cut_fresh [of "CHR ''<''" "[CHR 0x0A]" "''parameter=''" u] by simp
  have c2: "Cut (fst kv @ ''>'' @ u) ''>'' = Some (fst kv, u)" for u
    using assms Cut_fresh [of "CHR ''>''" "fst kv" "[]" u] by (simp add: member_ok_def)
  have c3: "Cut (([CHR 0x0A] @ ?v @ [CHR 0x0A]) @ ''</parameter>'' @ u) ''</parameter>'' = Some ([CHR 0x0A] @ ?v @ [CHR 0x0A], u)" for u
    using assms Cut_fresh [of "CHR ''<''" "[CHR 0x0A] @ ?v @ [CHR 0x0A]" "''/parameter>''" u] by (simp add: member_ok_def)
  have v: "(if isString (fst kv) \<or> \<not> valid ?v then call_appendJSONString d ?v else d @ ?v) =
      d @ (case snd kv of TextValue t \<Rightarrow> call_appendJSONString [] t | JsonValue j \<Rightarrow> j)" for d
    using assms by (auto simp: call_appendJSONString_def member_ok_def member_text_def split: member_value.splits)
  show ?thesis
    unfolding b xml_params.simps [of valid isString "_ @ _" first dst] c1 option.case prod.case c2 c3 Let_def trim_newlines_padded v
    by (simp add: member_json_def call_appendJSONString_def)
qed

lemma xml_members:
  "list_all (member_ok valid isString) kvs \<Longrightarrow>
   xml_params valid isString ([CHR 0x0A] @ concat (map parameter_block kvs) @ ''</function>'' @ [CHR 0x0A]) first dst =
     Inr (dst @ (if first \<or> kvs = [] then [] else '','') @ join_comma (map member_json kvs))"
proof (induction kvs arbitrary: first dst)
  case Nil
  then show ?case using Cut_close by (subst xml_params.simps) simp
next
  case (Cons kv kvs)
  let ?rest = "concat (map parameter_block kvs) @ ''</function>'' @ [CHR 0x0A]"
  have "xml_params valid isString ([CHR 0x0A] @ parameter_block kv @ ?rest) first dst =
      xml_params valid isString ([CHR 0x0A] @ ?rest) False ((if first then dst else dst @ '','') @ member_json kv)"
    using Cons.prems by (intro xml_member) simp
  also have "\<dots> = Inr (((if first then dst else dst @ '','') @ member_json kv) @ (if kvs = [] then [] else '','') @ join_comma (map member_json kvs))"
    using Cons by simp
  finally show ?case by (simp add: join_comma_Cons)
qed



end
