(* ===== verification/Prefix_Store.thy ===== *)
theory Prefix_Store
  imports Main
begin

text \<open>
  The token store of a language model (\<open>PrefixKV\<close> of \<^verbatim>\<open>src/internal/qwen3lm/evaluator.go\<close>): the
  tokens whose keys and values it holds, its capacity, and the evaluations that extend it.  The
  forward pass itself is a parameter, \<open>lm_state\<close>: the model state after a sequence of tokens.
  This is the store's documented contract, that an extension gives what evaluating the whole
  sequence gives.  An evaluation can fail at any time (\<open>lm_fails\<close>, indexed by the evaluations so
  far); the store then keeps some prefix of the tokens it was asked to keep, and the state it was
  to write is lost.
\<close>

record ('h, 'f) lm =
  lm_state :: "nat list \<Rightarrow> 'h"
  lm_logits :: "'h \<Rightarrow> 'f list"
  lm_prob :: "'h \<Rightarrow> nat list \<Rightarrow> 'f"
  lm_fails :: "nat \<Rightarrow> bool"
  lm_left :: "nat \<Rightarrow> nat"
  lm_broken :: 'h
  lm_limit :: nat

record PrefixKV =
  tokens :: "nat list"
  capacity :: nat

text \<open>How many leading tokens two sequences share: the loop of \<open>CommonPrefix\<close>.\<close>

fun common :: "nat list \<Rightarrow> nat list \<Rightarrow> nat" where
  "common (x # xs) (y # ys) = (if x = y then Suc (common xs ys) else 0)"
| "common _ _ = 0"

definition CommonPrefix :: "PrefixKV \<Rightarrow> nat list \<Rightarrow> nat" where
  "CommonPrefix kv ids = common ids (tokens kv)"

text \<open>\<open>NewPrefixKV\<close>; \<open>None\<close> when the capacity is out of range or there is no memory.\<close>

definition NewPrefixKV :: "('h, 'f) lm \<Rightarrow> nat \<Rightarrow> nat \<Rightarrow> PrefixKV option" where
  "NewPrefixKV m tick n =
     (if n < 1 \<or> lm_limit m < n \<or> lm_fails m tick then None else Some \<lparr>tokens = [], capacity = n\<rparr>)"

text \<open>\<open>CopyPrefix\<close>; \<open>None\<close> is its panic.\<close>

definition CopyPrefix :: "PrefixKV \<Rightarrow> PrefixKV \<Rightarrow> nat \<Rightarrow> PrefixKV option" where
  "CopyPrefix kv src p =
     (if length (tokens src) < p \<or> capacity kv < p then None else Some (kv\<lparr>tokens := take p (tokens src)\<rparr>))"

text \<open>
  \<open>HiddenLastExtendInto\<close> of the tokens \<open>ids\<close> after the first \<open>keep\<close>: the store after it, and whether
  it succeeded.  The checks before the evaluation leave the store as it was.
\<close>

definition extend_kv :: "('h, 'f) lm \<Rightarrow> nat \<Rightarrow> PrefixKV \<Rightarrow> nat \<Rightarrow> nat list \<Rightarrow> PrefixKV \<times> bool" where
  "extend_kv m tick kv keep ids =
     (if length (tokens kv) < keep \<or> capacity kv < keep + length ids then (kv, False)
      else if ids = [] then (kv\<lparr>tokens := take keep (tokens kv)\<rparr>, False)
      else if lm_fails m tick then (kv\<lparr>tokens := take (min keep (lm_left m tick)) (tokens kv)\<rparr>, False)
      else (kv\<lparr>tokens := take keep (tokens kv) @ ids\<rparr>, True))"

text \<open>
  \<open>HiddenTailExtendEmbedInto\<close>: the same, with the states after each of the last \<open>k\<close> tokens; too many
  of them are refused first.
\<close>

definition maxTail :: nat where "maxTail = 256"

definition extend_tail :: "('h, 'f) lm \<Rightarrow> nat \<Rightarrow> PrefixKV \<Rightarrow> nat \<Rightarrow> nat list \<Rightarrow> nat \<Rightarrow> PrefixKV \<times> 'h list option" where
  "extend_tail m tick kv keep ids k =
     (if k = 0 \<or> length ids < k \<or> maxTail < k then (kv, None)
      else case extend_kv m tick kv keep ids of
        (kv', ok) \<Rightarrow>
          (kv', if ok then Some (map (\<lambda>n. lm_state m (take n (tokens kv'))) [length (tokens kv') + 1 - k..<length (tokens kv') + 1])
                else None))"

section \<open>Facts\<close>

lemma common_le: "common xs ys \<le> length xs" "common xs ys \<le> length ys"
  by (induction xs ys rule: common.induct) auto

lemma take_common: "n \<le> common xs ys \<Longrightarrow> take n xs = take n ys"
proof (induction xs ys arbitrary: n rule: common.induct)
  case (1 x xs y ys)
  then show ?case by (cases n) (auto split: if_splits)
qed auto

lemma common_full: "common xs ys = length xs \<longleftrightarrow> take (length xs) ys = xs"
  by (induction xs ys rule: common.induct) (auto simp: common_le)

lemma common_take: "common (take n xs) ys = min n (common xs ys)"
proof (induction xs ys arbitrary: n rule: common.induct)
  case (1 x xs y ys)
  then show ?case by (cases n) auto
qed auto

lemma common_prefix: "take (common xs ys) ys = take (common xs ys) xs"
  using take_common [of "common xs ys" xs ys] by simp

text \<open>The store keeps within its capacity.\<close>

definition kv_ok :: "('h, 'f) lm \<Rightarrow> PrefixKV \<Rightarrow> bool" where
  "kv_ok m kv \<longleftrightarrow> length (tokens kv) \<le> capacity kv \<and> capacity kv \<le> lm_limit m"

lemma extend_ok: "kv_ok m kv \<Longrightarrow> kv_ok m (fst (extend_kv m t kv keep ids))"
  by (auto simp: kv_ok_def extend_kv_def)

lemma extend_tail_fst: "fst (extend_tail m t kv keep ids k) =
    (if k = 0 \<or> length ids < k \<or> maxTail < k then kv else fst (extend_kv m t kv keep ids))"
  by (simp add: extend_tail_def split: prod.splits)

lemma extend_capacity [simp]: "capacity (fst (extend_kv m t kv keep ids)) = capacity kv"
  by (simp add: extend_kv_def)

lemma extend_True:
  assumes "snd (extend_kv m t kv keep ids)"
  shows "tokens (fst (extend_kv m t kv keep ids)) = take keep (tokens kv) @ ids" "keep \<le> length (tokens kv)" "ids \<noteq> []"
  using assms by (auto simp: extend_kv_def split: if_splits)

end
