(* ===== verification/Chat_Text.thy ===== *)
theory Chat_Text
  imports Pretokenizer
begin

text \<open>
  How a session of \<open>qwen3/chat.go\<close> hands the bytes of its tokens to a writer: whole UTF-8
  sequences only, with an incomplete one kept for the next token.  When the text as a whole is
  well formed, so is every piece the writer gets.  Also the test for tokens that can end a
  message.
\<close>

section \<open>The code\<close>

text \<open>Go's \<open>utf8.FullRune\<close>.\<close>

definition FullRune :: "string \<Rightarrow> bool" where
  "FullRune p =
     (case p of
        [] \<Rightarrow> False
      | c0 # p1 \<Rightarrow>
          (case lead_info (bv c0) of
             None \<Rightarrow> True
           | Some (width, lo, hi) \<Rightarrow>
               if width \<le> length p then True
               else (case p1 of
                       [] \<Rightarrow> False
                     | c1 # p2 \<Rightarrow>
                         if bv c1 < lo \<or> hi < bv c1 then True
                         else (case p2 of [] \<Rightarrow> False | c2 # _ \<Rightarrow> \<not> is_cont c2))))"

fun complete_back :: "string \<Rightarrow> nat list \<Rightarrow> nat" where
  "complete_back b [] = length b"
| "complete_back b (back # bs) =
     (let r = b ! (length b - back) in
      if bv r < RuneSelf then length b
      else if RuneStart r then
        if \<not> FullRune (drop (length b - back) b) then length b - back else length b
      else complete_back b bs)"

definition completeUTF8 :: "string \<Rightarrow> nat" where
  "completeUTF8 b = complete_back b [1..<Suc (min 3 (length b))]"

text \<open>\<open>emit\<close>: the kept text and a piece give what is written (nothing when empty) and what is kept.\<close>

definition emit :: "string \<Rightarrow> string \<Rightarrow> bool \<Rightarrow> string list \<times> string" where
  "emit kept piece flush =
     (let b = kept @ piece; cut = (if flush then length b else completeUTF8 b)
      in if cut = 0 then ([], b) else ([take cut b], drop cut b))"

text \<open>The writes of a reply: its pieces, then the flush.\<close>

fun emit_all :: "string \<Rightarrow> string list \<Rightarrow> string list" where
  "emit_all kept [] = fst (emit kept [] True)"
| "emit_all kept (p # ps) = (case emit kept p False of (ws, kept') \<Rightarrow> ws @ emit_all kept' ps)"

text \<open>\<open>ending\<close>: whether a token closes a sentence, and whether it is blank.\<close>

definition is_closing :: "nat \<Rightarrow> bool" where
  "is_closing r \<longleftrightarrow> r \<in> {0x2e, 0x3f, 0x21, 0x2026, 0x3002, 0xff1f, 0xff01}"

definition is_trailing :: "'b unicode_tables_scheme \<Rightarrow> nat \<Rightarrow> bool" where
  "is_trailing uc r \<longleftrightarrow> r \<in> {0x201d, 0x2019, 0xbb, 0x29} \<or> IsSpace uc r"

function ending_loop :: "'b unicode_tables_scheme \<Rightarrow> string \<Rightarrow> bool \<Rightarrow> bool \<times> bool" where
  "ending_loop uc s closes =
     (if s = [] then (closes, \<not> closes)
      else if is_closing (fst (DecodeRune s)) then ending_loop uc (drop (snd (DecodeRune s)) s) True
      else if is_trailing uc (fst (DecodeRune s)) then ending_loop uc (drop (snd (DecodeRune s)) s) closes
      else (False, False))"
  by pat_completeness auto
termination
proof (relation "measure (\<lambda>(uc, s, c). length s)", goal_cases)
  case (2 uc s closes)
  then show ?case using DecodeRune_size_pos [of s] by auto
next
  case (3 uc s closes)
  then show ?case using DecodeRune_size_pos [of s] by auto
qed simp

declare ending_loop.simps [simp del]

definition ending :: "'b unicode_tables_scheme \<Rightarrow> string \<Rightarrow> bool \<times> bool" where
  "ending uc piece = (if piece = [] then (False, False) else ending_loop uc piece False)"

section \<open>Text as a list of runes\<close>

definition is_rune :: "string \<Rightarrow> bool" where
  "is_rune e \<longleftrightarrow> e \<noteq> [] \<and> \<not> decode_bad e \<and> snd (DecodeRune e) = length e"

lemma utf8_Valid_runes:
  "utf8_Valid s \<Longrightarrow> \<exists>es. s = concat es \<and> list_all is_rune es"
proof (induction s rule: utf8_Valid.induct)
  case (1 s)
  show ?case
  proof (cases "s = []")
    case True
    then show ?thesis by (intro exI [of _ "[]"]) simp
  next
    case False
    let ?n = "snd (DecodeRune s)" and ?e = "take (snd (DecodeRune s)) s"
    from False 1(2) have good: "\<not> decode_bad s" and rest: "utf8_Valid (drop ?n s)"
      by (simp_all add: utf8_Valid.simps [of s] split: if_splits)
    have dec: "DecodeRune ?e = DecodeRune s" using DecodeRune_prefix [OF good False, of "[]"] by simp
    have n: "1 \<le> ?n" "?n \<le> length s" using DecodeRune_size_pos [OF False] DecodeRune_size_le by auto
    have "is_rune ?e" using dec good n False by (simp add: is_rune_def decode_bad_def min_def)
    moreover obtain es where "drop ?n s = concat es" "list_all is_rune es" using 1(1) [OF False good rest] by blast
    ultimately show ?thesis by (intro exI [of _ "?e # es"]) (simp, metis append_take_drop_id)
  qed
qed

lemma runes_utf8_Valid: "list_all is_rune es \<Longrightarrow> utf8_Valid (concat es)"
proof (induction es)
  case (Cons e es)
  then have "utf8_Valid e" using utf8_Valid_rune [of e] by (simp add: is_rune_def)
  with Cons show ?case by (simp add: utf8_Valid_append)
qed simp

text \<open>The bytes of a rune of more than one byte.\<close>

lemma is_rune_cases:
  assumes "is_rune e"
  obtains (ascii) c where "e = [c]" "bv c < RuneSelf"
  | (multi) c0 w lo hi where "lead_info (bv c0) = Some (w, lo, hi)" "length e = w" "e = c0 # tl e" "\<not> bv c0 < RuneSelf"
      "lo \<le> bv (e ! 1)" "bv (e ! 1) \<le> hi" "list_all is_cont (tl e)"
proof -
  have e: "\<not> decode_bad e" "e \<noteq> []" "snd (DecodeRune e) = length e" using assms by (auto simp: is_rune_def)
  have cont: "is_cont c" if "lead_info b = Some (w, lo, hi)" "lo \<le> bv c" "bv c \<le> hi" for b w lo hi c
    using that by (auto simp: lead_info_def is_cont_def split: if_splits)
  from e(1,2) show thesis
  proof (cases rule: DecodeRune_good)
    case (w1 c r)
    then have "length e = 1" using e(3) by (simp add: DecodeRune_def)
    with w1 show ?thesis by (intro ascii) auto
  next
    case (w2 c0 c1 r lo hi)
    then have "length e = 2" using e(3) by (simp add: DecodeRune_def)
    with w2 show ?thesis by (intro multi [of c0 2 lo hi]) (auto intro: cont)
  next
    case (w3 c0 c1 c2 r lo hi)
    then have "length e = 3" using e(3) by (simp add: DecodeRune_def)
    with w3 show ?thesis by (intro multi [of c0 3 lo hi]) (auto intro: cont)
  next
    case (w4 c0 c1 c2 c3 r lo hi)
    then have "length e = 4" using e(3) by (simp add: DecodeRune_def)
    with w4 show ?thesis by (intro multi [of c0 4 lo hi]) (auto intro: cont)
  qed
qed

lemma utf8_Valid_cancel: "utf8_Valid a \<Longrightarrow> utf8_Valid (a @ b) \<Longrightarrow> utf8_Valid b"
proof (induction a rule: utf8_Valid.induct)
  case (1 a)
  show ?case
  proof (cases "a = []")
    case False
    with 1(2) have good: "\<not> decode_bad a" and rest: "utf8_Valid (drop (snd (DecodeRune a)) a)"
      by (simp_all add: utf8_Valid.simps [of a] split: if_splits)
    have dec: "DecodeRune (a @ b) = DecodeRune a" by (rule DecodeRune_append [OF good False])
    have "utf8_Valid (drop (snd (DecodeRune a)) (a @ b))"
      using 1(3) False good dec by (simp add: utf8_Valid.simps [of "a @ b"] decode_bad_def)
    moreover have "drop (snd (DecodeRune a)) (a @ b) = drop (snd (DecodeRune a)) a @ b"
      using DecodeRune_size_le [of a] by simp
    ultimately show ?thesis using 1(1) [OF False good rest] by simp
  qed (use 1 in simp)
qed

section \<open>Whole runes\<close>

text \<open>A beginning of a rune that is not all of it.\<close>

definition part_rune :: "string \<Rightarrow> bool" where
  "part_rune r \<longleftrightarrow> r \<noteq> [] \<and> (\<exists>e. is_rune e \<and> r = take (length r) e \<and> length r < length e)"

lemma prefix_runes:
  assumes "b @ c = concat es" "list_all is_rune es"
  shows "\<exists>fs r. b = concat fs @ r \<and> list_all is_rune fs \<and> (r = [] \<or> part_rune r)"
  using assms
proof (induction es arbitrary: b)
  case Nil
  then show ?case by (intro exI [of _ "[]"]) simp
next
  case (Cons e es)
  show ?case
  proof (cases "length b < length e")
    case True
    then have "b = take (length b) e" using Cons.prems(1) by (metis append_eq_append_conv_if concat.simps(2) nat_less_le)
    then have "b = [] \<or> part_rune b" using True Cons.prems(2) by (auto simp: part_rune_def)
    then show ?thesis by (intro exI [of _ "[]"] exI [of _ b]) auto
  next
    case False
    define b' where "b' = drop (length e) b"
    have "take (length e) (b @ c) = e" "drop (length e) (b @ c) = concat es" using Cons.prems(1) by simp_all
    then have b': "b = e @ b'" "b' @ c = concat es"
      using False by (simp_all add: b'_def) (metis append_take_drop_id)
    then obtain fs r where "b' = concat fs @ r" "list_all is_rune fs" "r = [] \<or> part_rune r"
      using Cons.IH [OF b'(2)] Cons.prems(2) by auto
    with b' Cons.prems(2) show ?thesis by (intro exI [of _ "e # fs"] exI [of _ r]) auto
  qed
qed

lemma cont_byte: "is_cont c \<Longrightarrow> \<not> bv c < RuneSelf \<and> \<not> RuneStart c"
  by (auto simp: is_cont_def RuneStart_def RuneSelf_def)

lemma lead_byte: "lead_info (bv c) = Some x \<Longrightarrow> RuneStart c"
  by (auto simp: is_cont_def RuneStart_def lead_info_def split: if_splits)

lemma complete_back_conts:
  assumes "list_all (\<lambda>k. is_cont (b ! (length b - k))) ks"
  shows "complete_back b ks = length b"
  using assms by (induction ks) (auto simp: cont_byte)

lemma complete_back_lead:
  assumes "\<not> bv c0 < RuneSelf" "RuneStart c0" "list_all is_cont cs" "1 \<le> j" "j \<le> length (c0 # cs)" "length (c0 # cs) \<le> m"
  shows "complete_back (v @ c0 # cs) [j..<Suc m] = (if FullRune (c0 # cs) then length (v @ c0 # cs) else length v)"
  using assms(4,5)
proof (induction "length (c0 # cs) - j" arbitrary: j)
  case 0
  then have j: "j = length (c0 # cs)" by simp
  have "[j..<Suc m] = j # [Suc j..<Suc m]" using 0 assms(6) by (simp add: upt_conv_Cons del: upt_Suc)
  with j assms(1,2) show ?case by (simp del: upt_Suc)
next
  case (Suc d)
  then have j: "j < length (c0 # cs)" by simp
  have "[j..<Suc m] = j # [Suc j..<Suc m]" using j assms(6) by (simp add: upt_conv_Cons del: upt_Suc)
  moreover have "(v @ c0 # cs) ! (length (v @ c0 # cs) - j) = cs ! (length cs - j)"
  proof -
    have i: "length (v @ c0 # cs) - j = length v + Suc (length cs - j)" using j by simp
    show ?thesis unfolding i nth_append_length_plus by simp
  qed
  moreover have "is_cont (cs ! (length cs - j))" using j Suc.prems assms(3) by (simp add: list_all_length)
  ultimately have "complete_back (v @ c0 # cs) [j..<Suc m] = complete_back (v @ c0 # cs) [Suc j..<Suc m]"
    by (simp add: cont_byte del: upt_Suc)
  then show ?case using Suc.hyps(1) [of "Suc j"] Suc.hyps(2) j by (simp del: upt_Suc)
qed

lemma lead_width: "lead_info b = Some (w, lo, hi) \<Longrightarrow> 2 \<le> w \<and> w \<le> 4"
  by (auto simp: lead_info_def split: if_splits)

lemma completeUTF8_whole:
  assumes "list_all is_rune es"
  shows "completeUTF8 (concat es) = length (concat es)"
proof (cases es rule: rev_cases)
  case Nil
  then show ?thesis by (simp add: completeUTF8_def)
next
  case (snoc fs e)
  then have "is_rune e" using assms by simp
  then show ?thesis
  proof (cases rule: is_rune_cases)
    case (ascii c)
    then show ?thesis using snoc by (simp add: completeUTF8_def upt_conv_Cons nth_append del: upt_Suc)
  next
    case (multi c0 w lo hi)
    define cs where "cs = tl e"
    have e: "concat es = concat fs @ c0 # cs" "length (c0 # cs) = w" "list_all is_cont cs"
      using snoc multi by (auto simp: cs_def)
    have w: "2 \<le> w" "w \<le> 4" using lead_width [OF multi(1)] by auto
    show ?thesis
    proof (cases "w = 4")
      case True
      have "list_all (\<lambda>k. is_cont (concat es ! (length (concat es) - k))) [1..<4]"
        using e True by (auto simp: list_all_length nth_append Suc_diff_le)
      moreover have "min 3 (length (concat es)) = 3" using e True by auto
      moreover have "[1..<Suc 3] = [1..<4::nat]" by simp
      ultimately show ?thesis unfolding completeUTF8_def using complete_back_conts by metis
    next
      case False
      have "FullRune (c0 # cs)" using multi(1) e(2) by (simp add: FullRune_def)
      moreover have "w \<le> min 3 (length (concat es))" using e w False by auto
      ultimately show ?thesis
        unfolding completeUTF8_def e(1)
        using complete_back_lead [OF multi(4) lead_byte [OF multi(1)] e(3), of 1] e(1,2) w by (simp del: upt_Suc)
    qed
  qed
qed

lemma part_rune_bytes:
  assumes "part_rune r"
  obtains c0 cs w lo hi where "r = c0 # cs" "lead_info (bv c0) = Some (w, lo, hi)" "\<not> bv c0 < RuneSelf" "list_all is_cont cs"
    "length r < w" "cs \<noteq> [] \<Longrightarrow> lo \<le> bv (hd cs) \<and> bv (hd cs) \<le> hi"
proof -
  obtain e where e: "is_rune e" "r = take (length r) e" "length r < length e" "r \<noteq> []" using assms by (auto simp: part_rune_def)
  from e(1) show thesis
  proof (cases rule: is_rune_cases)
    case (ascii c)
    with e show ?thesis by (cases r) auto
  next
    case (multi c0 w lo hi)
    obtain n where n: "length r = Suc n" using e(4) by (cases r) auto
    have r: "r = c0 # take n (tl e)" using e(2) multi(3) n by (metis take_Suc_Cons)
    have "list_all is_cont (take n (tl e))" using multi(7) by (auto simp: list_all_iff dest: in_set_takeD)
    moreover have "hd (take n (tl e)) = e ! 1" if "take n (tl e) \<noteq> []"
      using that multi(3) by (metis hd_take hd_conv_nth list.sel(3) nth_Cons_Suc One_nat_def take_eq_Nil2 not_gr_zero)
    ultimately show ?thesis using that [OF r multi(1,4)] multi(2,5,6) e(3) by auto
  qed
qed

lemma completeUTF8_part:
  assumes "part_rune r"
  shows "completeUTF8 (v @ r) = length v"
  using assms
proof (cases rule: part_rune_bytes)
  case (1 c0 cs w lo hi)
  have "\<not> FullRune (c0 # cs)"
    using 1 by (auto simp: FullRune_def split: list.splits)
  moreover have "length (c0 # cs) \<le> min 3 (length (v @ r))" using 1(1,5) lead_width [OF 1(2)] by auto
  ultimately show ?thesis
    unfolding completeUTF8_def 1(1)
    using complete_back_lead [OF 1(3) lead_byte [OF 1(2)] 1(4), of 1] by (simp del: upt_Suc)
qed

text \<open>
  When the bytes of a reply's tokens make well-formed text, whatever the tokens split, every
  piece that \<open>emit\<close> hands to the writer is well-formed, and together they are the text.
\<close>

lemma emit_whole_runes:
  assumes "utf8_Valid (concat ps)"
  shows "list_all utf8_Valid (emit_all [] ps) \<and> concat (emit_all [] ps) = concat ps"
proof -
  have "list_all utf8_Valid (emit_all kept ps) \<and> concat (emit_all kept ps) = kept @ concat ps"
    if "utf8_Valid (kept @ concat ps)" for kept
    using that
  proof (induction ps arbitrary: kept)
    case Nil
    then show ?case by (simp add: emit_def Let_def)
  next
    case (Cons p ps)
    obtain es where "(kept @ p) @ concat ps = concat es" "list_all is_rune es"
      using utf8_Valid_runes [OF Cons.prems] by auto
    then obtain fs r where f: "kept @ p = concat fs @ r" "list_all is_rune fs" "r = [] \<or> part_rune r"
      using prefix_runes by blast
    have cut: "completeUTF8 (kept @ p) = length (concat fs)"
      using f completeUTF8_whole [OF f(2)] completeUTF8_part [of r "concat fs"] by auto
    have valid: "utf8_Valid (concat fs)" by (rule runes_utf8_Valid [OF f(2)])
    have "concat fs @ r @ concat ps = kept @ p @ concat ps" using f(1) by (metis append.assoc)
    moreover have "kept @ concat (p # ps) = kept @ p @ concat ps" by simp
    ultimately have "utf8_Valid (r @ concat ps)"
      using Cons.prems utf8_Valid_cancel [OF valid, of "r @ concat ps"] by metis
    note IH = Cons.IH [OF this]
    define V where "V = concat fs"
    have "emit kept p False = (if V = [] then [] else [V], r)"
      using f(1) cut by (simp add: emit_def Let_def V_def [symmetric])
    moreover have "V @ r @ concat ps = kept @ p @ concat ps" using f(1) unfolding V_def by (metis append.assoc)
    ultimately show ?case using IH valid by (auto simp: V_def [symmetric])
  qed
  from this [of "[]"] assms show ?thesis by simp
qed

end
