(* ===== verification/Chat_Session.thy ===== *)
theory Chat_Session
  imports Prefix_Store Chat_Text Chat_Tools
begin

text \<open>
  A conversation with a language model: \<open>session\<close> of \<^verbatim>\<open>src/qwen3/chat.go\<close>.  The record \<open>talk\<close> is what
  the conversation is (its tokens, what was written, the calls, the random generator), \<open>session\<close>
  extends it with what is only kept to save work: the store of evaluated tokens, the model state a
  reply could start from, and the probability that goes with it.

  Parameters: the language model (\<open>lm\<close>), the tokenizer's \<open>EncodeInto\<close> and \<open>Piece\<close>, the sampler, and
  the surroundings of a call: \<open>w\<close> tells which writes fail, \<open>halt\<close> when the context is done (by the
  evaluations so far).  The generator's lock, which serializes sessions, is not part of the model.
\<close>

section \<open>Data\<close>

datatype chat_error = ErrClosed | ErrRole nat | ErrTokenize | ErrFull | ErrEval | ErrNoReply | ErrMark int
  | ErrCanceled | ErrWrite | ErrArguments | ErrPrompt | ErrUnreachable

record 'f options =
  MaxTokens :: int
  Temperature :: 'f
  TopK :: int
  TopP :: 'f
  Presence :: 'f
  Seed :: "64 word"

record toolDraft =
  draft_name :: string
  draft_scaffold :: "nat list"
  draft_strings :: "string list"

text \<open>The generator's tokens and its dialect, with the tokenizer and the sampler.\<close>

record ('f, 'r) generator =
  imEnd :: nat
  endText :: nat
  newline :: "nat list"
  header :: "nat list list"
  answer :: "nat list"
  callOpen :: nat
  callClose :: nat
  resultEnd :: "nat list"
  enders :: "nat list"
  closer :: "nat \<Rightarrow> bool"
  gdialect :: dialect
  gclosed :: bool
  vocab :: nat
  encode :: "string \<Rightarrow> nat list option"
  piece :: "nat \<Rightarrow> string"
  sample_reset :: "'f options \<Rightarrow> 'r"
  sample_next :: "'f list \<Rightarrow> 'f options \<Rightarrow> 'r \<Rightarrow> nat \<times> 'r"
  minus_logit :: "'f \<Rightarrow> 'f \<Rightarrow> 'f"
  times_prob :: "'f \<Rightarrow> 'f \<Rightarrow> 'f"
  is_zero :: "'f \<Rightarrow> bool"
  json_valid :: "string \<Rightarrow> bool"
  json_members :: each_object

record 'r talk =
  ids :: "nat list"
  kept :: string
  out :: "string list"
  rng :: 'r
  tools :: "toolDraft list"
  calls :: "Call list"
  calling :: bool
  call :: string
  callIDs :: "nat list"
  seen :: "bool list"
  seenIDs :: "nat list"

record ('h, 'f, 'r) session = "'r talk" +
  kv :: "PrefixKV option"
  ready :: nat
  finished :: 'f
  hidden :: 'h
  reply :: int
  closed :: bool
  tick :: nat

section \<open>Messages\<close>

definition System :: nat where "System = 0"
definition User :: nat where "User = 1"
definition Assistant :: nat where "Assistant = 2"
definition ToolResult :: nat where "ToolResult = 3"

definition Add :: "('f, 'r) generator \<Rightarrow> nat \<Rightarrow> string \<Rightarrow> ('h, 'f, 'r) session \<Rightarrow> ('h, 'f, 'r) session \<times> chat_error option" where
  "Add g role msg s =
     (if closed s then (s, Some ErrClosed)
      else if ToolResult < role then (s, Some (ErrRole role))
      else case encode g msg of
        None \<Rightarrow> (s, Some ErrTokenize)
      | Some body \<Rightarrow>
          (s\<lparr>ids := ids s @ header g ! role @ body @ (if role = ToolResult then resultEnd g else []) @ imEnd g # newline g,
             reply := -1\<rparr>, None))"

fun append_calls :: "('f, 'r) generator \<Rightarrow> bool \<Rightarrow> bool \<Rightarrow> string \<Rightarrow> Call list \<Rightarrow> call_error + string" where
  "append_calls g first afterText b [] = Inr b"
| "append_calls g first afterText b (c # cs) =
     (case appendCall (json_members g) (gdialect g) b c first afterText of
        Inl e \<Rightarrow> Inl e
      | Inr b' \<Rightarrow> append_calls g False afterText b' cs)"

definition AddCalls :: "('f, 'r) generator \<Rightarrow> string \<Rightarrow> Call list \<Rightarrow> ('h, 'f, 'r) session \<Rightarrow> ('h, 'f, 'r) session \<times> chat_error option" where
  "AddCalls g msg cs s =
     (if closed s then (s, Some ErrClosed)
      else case append_calls g True (msg \<noteq> []) msg cs of
        Inl e \<Rightarrow> (s, Some ErrArguments)
      | Inr b \<Rightarrow> Add g Assistant b s)"

section \<open>Tokens of a reply\<close>

definition remember :: "('f, 'r) generator \<Rightarrow> nat \<Rightarrow> ('r, 'z) talk_scheme \<Rightarrow> ('r, 'z) talk_scheme" where
  "remember g x s =
     (let all = (if seen s = [] then replicate (vocab g) False else seen s) in
      if all ! x then s\<lparr>seen := all\<rparr>
      else s\<lparr>seen := all[x := True], seenIDs := seenIDs s @ [x]\<rparr>)"

definition forget :: "('r, 'z) talk_scheme \<Rightarrow> ('r, 'z) talk_scheme" where
  "forget s = s\<lparr>seen := foldl (\<lambda>all x. all[x := False]) (seen s) (seenIDs s), seenIDs := []\<rparr>"

definition penalize :: "('f, 'r) generator \<Rightarrow> 'f options \<Rightarrow> nat list \<Rightarrow> 'f list \<Rightarrow> 'f list" where
  "penalize g opts xs logits =
     (if is_zero g (Presence opts) then logits
      else foldl (\<lambda>l x. l[x := minus_logit g (l ! x) (Presence opts)]) logits xs)"

definition stringParam :: "toolDraft list \<Rightarrow> string \<Rightarrow> string \<Rightarrow> bool" where
  "stringParam ts name param = list_ex (\<lambda>t. draft_name t = name \<and> list_ex ((=) param) (draft_strings t)) ts"

definition record_call :: "('f, 'r) generator \<Rightarrow> ('r, 'z) talk_scheme \<Rightarrow> ('r, 'z) talk_scheme" where
  "record_call g s =
     (case dialect_parse (json_valid g) (stringParam (tools s)) (gdialect g) (call s) [] of
        Inl _ \<Rightarrow> s
      | Inr (name, args) \<Rightarrow>
          let known = foldl (\<lambda>n t. if name = draft_name t then draft_name t else n) [] (tools s)
          in s\<lparr>calls := calls s @ [\<lparr>Call_Name = (if known = [] then name else known), Call_Arguments = args\<rparr>]\<rparr>)"

text \<open>\<open>emit\<close> on the session: its writes go to the writer, which may fail.\<close>

definition emit_to :: "(nat \<Rightarrow> bool) \<Rightarrow> string \<Rightarrow> bool \<Rightarrow> ('r, 'z) talk_scheme \<Rightarrow> ('r, 'z) talk_scheme \<times> chat_error option" where
  "emit_to w p flush s =
     (case emit (kept s) p flush of
        (ws, k) \<Rightarrow> (s\<lparr>kept := k, out := out s @ ws\<rparr>, if ws \<noteq> [] \<and> w (length (out s)) then Some ErrWrite else None))"

definition take_token :: "('f, 'r) generator \<Rightarrow> (nat \<Rightarrow> bool) \<Rightarrow> nat \<Rightarrow> ('r, 'z) talk_scheme \<Rightarrow> ('r, 'z) talk_scheme \<times> chat_error option" where
  "take_token g w x s0 =
     (let s = remember g x (s0\<lparr>ids := ids s0 @ [x]\<rparr>) in
      if x = callOpen g then (s\<lparr>calling := True, call := [], callIDs := []\<rparr>, None)
      else if x = callClose g then
        (if calling s then record_call g (s\<lparr>calling := False\<rparr>) else s, None)
      else if calling s then (s\<lparr>call := call s @ piece g x, callIDs := callIDs s @ [x]\<rparr>, None)
      else emit_to w (piece g x) False s)"

section \<open>Drafts\<close>

text \<open>The loop of \<open>draft\<close> over the tools, with the draft so far once there is one.\<close>

fun draft_loop :: "nat list \<Rightarrow> nat list option \<Rightarrow> toolDraft list \<Rightarrow> nat list option" where
  "draft_loop written d [] = d"
| "draft_loop written d (t # ts) =
     (let n = length written in
      if length (draft_scaffold t) \<le> n \<or> take n (draft_scaffold t) \<noteq> written then draft_loop written d ts
      else let rest = drop n (draft_scaffold t) in
        draft_loop written (Some (case d of None \<Rightarrow> rest | Some d' \<Rightarrow> take (common d' rest) d')) ts)"

definition draft :: "('r, 'z) talk_scheme \<Rightarrow> nat \<Rightarrow> nat list" where
  "draft s mx =
     (if \<not> calling s \<or> mx \<le> 1 then []
      else case draft_loop (callIDs s) None (tools s) of None \<Rightarrow> [] | Some d \<Rightarrow> take (mx - 1) d)"

text \<open>A token drawn from logits, with the penalty for tokens the reply holds.\<close>

definition draw :: "('f, 'r) generator \<Rightarrow> 'f options \<Rightarrow> 'f list \<Rightarrow> ('r, 'z) talk_scheme \<Rightarrow> nat \<times> ('r, 'z) talk_scheme" where
  "draw g opts logits s =
     (let x = sample_next g (penalize g opts (seenIDs s) logits) opts (rng s) in (fst x, s\<lparr>rng := snd x\<rparr>))"

fun verify_loop :: "('h, 'f) lm \<Rightarrow> ('f, 'r) generator \<Rightarrow> (nat \<Rightarrow> bool) \<Rightarrow> 'f options \<Rightarrow> 'h list \<Rightarrow> nat list \<Rightarrow> nat
    \<Rightarrow> ('h, 'f, 'r) session \<Rightarrow> ('h, 'f, 'r) session \<times> (chat_error + nat \<times> nat)" where
  "verify_loop m g w opts [] ds taken s = (s, Inl ErrUnreachable)"
| "verify_loop m g w opts (h # hs) ds taken s =
     (let xs = draw g opts (lm_logits m h) s; x = fst xs; s1 = snd xs in
      case ds of
        [] \<Rightarrow> (s1\<lparr>hidden := h\<rparr>, Inr (taken, x))
      | d # ds' \<Rightarrow>
          if x \<noteq> d then (s1\<lparr>hidden := h\<rparr>, Inr (taken, x))
          else case take_token g w x s1 of
            (s2, Some e) \<Rightarrow> (s2, Inl e)
          | (s2, None) \<Rightarrow> verify_loop m g w opts hs ds' (taken + 1) s2)"

text \<open>
  An evaluation at the session's store.  A call without a store is refused; a failure loses the
  state that was to be written.
\<close>

definition eval_last :: "('h, 'f) lm \<Rightarrow> nat \<Rightarrow> nat list \<Rightarrow> ('h, 'f, 'r) session \<Rightarrow> ('h, 'f, 'r) session \<times> bool" where
  "eval_last m keep xs s =
     (case kv s of
        None \<Rightarrow> (s, False)
      | Some k \<Rightarrow>
          let r = extend_kv m (tick s) k keep xs in
          (s\<lparr>kv := Some (fst r), tick := tick s + 1,
             hidden := (if snd r then lm_state m (tokens (fst r)) else lm_broken m)\<rparr>, snd r))"

definition eval_tail :: "('h, 'f) lm \<Rightarrow> nat \<Rightarrow> nat list \<Rightarrow> nat \<Rightarrow> ('h, 'f, 'r) session \<Rightarrow> ('h, 'f, 'r) session \<times> 'h list option" where
  "eval_tail m keep xs n s =
     (case kv s of
        None \<Rightarrow> (s, None)
      | Some k \<Rightarrow>
          let r = extend_tail m (tick s) k keep xs n in
          (s\<lparr>kv := Some (fst r), tick := tick s + 1\<rparr>, snd r))"

text \<open>Whether the head's logits can be had: \<open>LogitsInto\<close> and \<open>LogitsRowsInto\<close>.\<close>

definition head :: "('h, 'f) lm \<Rightarrow> ('h, 'f, 'r) session \<Rightarrow> ('h, 'f, 'r) session \<times> bool" where
  "head m s = (s\<lparr>tick := tick s + 1\<rparr>, \<not> lm_fails m (tick s))"

definition verify :: "('h, 'f) lm \<Rightarrow> ('f, 'r) generator \<Rightarrow> (nat \<Rightarrow> bool) \<Rightarrow> 'f options \<Rightarrow> nat list
    \<Rightarrow> ('h, 'f, 'r) session \<Rightarrow> ('h, 'f, 'r) session \<times> (chat_error + nat \<times> nat)" where
  "verify m g w opts ds s =
     (let base = length (ids s) - 1; probe = last (ids s) # ds in
      case eval_tail m base probe (length probe) s of
        (s1, None) \<Rightarrow> (s1, Inl ErrEval)
      | (s1, Some states) \<Rightarrow>
          (case head m s1 of
             (s2, ok) \<Rightarrow> if \<not> ok then (s2, Inl ErrEval) else verify_loop m g w opts states ds 0 s2))"

section \<open>The store\<close>

function grow_capacity :: "nat \<Rightarrow> nat \<Rightarrow> nat" where
  "grow_capacity c need = (if 0 < c \<and> c < need then grow_capacity (c * 2) need else c)"
  by pat_completeness auto
termination by (relation "measure (\<lambda>(c, need). need - c)") auto

declare grow_capacity.simps [simp del]

text \<open>
  \<open>reserve\<close>.  The copy into the larger store does not panic (shown below), so its panic is written
  as the empty store.
\<close>

definition reserve :: "('h, 'f) lm \<Rightarrow> nat \<Rightarrow> ('h, 'f, 'r) session \<Rightarrow> ('h, 'f, 'r) session \<times> bool" where
  "reserve m need s =
     (case kv s of
        Some k \<Rightarrow>
          if need \<le> capacity k then (s, True)
          else (case NewPrefixKV m (tick s) (min (grow_capacity 512 need) (lm_limit m)) of
                  None \<Rightarrow> (s\<lparr>tick := tick s + 1\<rparr>, False)
                | Some k' \<Rightarrow> (s\<lparr>tick := tick s + 1, kv := CopyPrefix k' k (CommonPrefix k (ids s))\<rparr>, True))
      | None \<Rightarrow>
          (case NewPrefixKV m (tick s) (min (grow_capacity 512 need) (lm_limit m)) of
             None \<Rightarrow> (s\<lparr>tick := tick s + 1\<rparr>, False)
           | Some k' \<Rightarrow> (s\<lparr>tick := tick s + 1, kv := Some k'\<rparr>, True)))"

definition kv_tokens :: "('h, 'f, 'r) session \<Rightarrow> nat list" where
  "kv_tokens s = (case kv s of None \<Rightarrow> [] | Some k \<Rightarrow> tokens k)"

definition kv_capacity :: "('h, 'f, 'r) session \<Rightarrow> nat" where
  "kv_capacity s = (case kv s of None \<Rightarrow> 0 | Some k \<Rightarrow> capacity k)"

section \<open>Replies\<close>

text \<open>The step that makes the state after the token just taken: of it alone, or of a draft with it.\<close>

definition make_room :: "('h, 'f) lm \<Rightarrow> nat list \<Rightarrow> ('h, 'f, 'r) session \<Rightarrow> ('h, 'f, 'r) session \<times> bool" where
  "make_room m d s =
     (let need = length (ids s) + length d + 2 in
      if kv_capacity s < need then reserve m (max (2 * kv_capacity s) need) s else (s, True))"

text \<open>
  The decoding loop of \<open>Reply\<close> at iteration \<open>n\<close>; \<open>ahead\<close> is the token drawn while checking a draft,
  if there was one.
\<close>

definition next_token :: "('h, 'f) lm \<Rightarrow> ('f, 'r) generator \<Rightarrow> 'f options \<Rightarrow> nat option
    \<Rightarrow> ('h, 'f, 'r) session \<Rightarrow> ('h, 'f, 'r) session \<times> nat option" where
  "next_token m g opts ahead s =
     (case ahead of
        Some x \<Rightarrow> (s, Some x)
      | None \<Rightarrow>
          if \<not> snd (head m s) then (fst (head m s), None)
          else let xs = draw g opts (lm_logits m (hidden s)) (fst (head m s)) in (snd xs, Some (fst xs)))"

function reply_loop :: "('h, 'f) lm \<Rightarrow> ('f, 'r) generator \<Rightarrow> (nat \<Rightarrow> bool) \<Rightarrow> (nat \<Rightarrow> bool) \<Rightarrow> 'f options \<Rightarrow> nat \<Rightarrow> nat
    \<Rightarrow> nat option \<Rightarrow> ('h, 'f, 'r) session \<Rightarrow> ('h, 'f, 'r) session \<times> chat_error option" where
  "reply_loop m g w halt opts room n ahead s =
     (if room \<le> n then (s, None)
      else case next_token m g opts ahead s of
        (s1, None) \<Rightarrow> (s1, Some ErrEval)
      | (s1, Some x) \<Rightarrow>
          if x = imEnd g \<or> x = endText g then (s1, None)
          else case take_token g w x s1 of
            (s2, Some e) \<Rightarrow> (s2, Some e)
          | (s2, None) \<Rightarrow>
              if n + 1 = room then (s2, None)
              else if halt (tick s2) then (s2, Some ErrCanceled)
              else let d = draft s2 (room - n - 1) in
                (case make_room m d s2 of
                   (s3, ok) \<Rightarrow>
                     if \<not> ok then (s3, Some ErrEval)
                     else if d = [] then
                       (case eval_last m (length (ids s3) - 1) [last (ids s3)] s3 of
                          (s4, ok4) \<Rightarrow>
                            if \<not> ok4 then (s4, Some ErrEval)
                            else reply_loop m g w halt opts room (n + 1) None s4)
                     else (case verify m g w opts d s3 of
                             (s4, Inl e) \<Rightarrow> (s4, Some e)
                           | (s4, Inr r) \<Rightarrow> reply_loop m g w halt opts room (n + fst r + 1) (Some (snd r)) s4)))"
  by pat_completeness auto
termination
  by (relation "measure (\<lambda>(m, g, w, halt, opts, room, n, ahead, s). room - n)") auto

declare reply_loop.simps [simp del]

definition roomAhead :: nat where "roomAhead = 512"

definition reply_room :: "('h, 'f) lm \<Rightarrow> 'f options \<Rightarrow> nat \<Rightarrow> int" where
  "reply_room m opts n =
     (let room = int (lm_limit m) - int n - 2 in if 0 < MaxTokens opts then min room (MaxTokens opts) else room)"

text \<open>Whether the store holds the conversation and the state after it.\<close>

definition is_ready :: "('h, 'f, 'r) session \<Rightarrow> nat list \<Rightarrow> bool" where
  "is_ready s xs \<longleftrightarrow> ready s = length xs \<and> length (kv_tokens s) = length xs \<and> common xs (kv_tokens s) = length xs"

definition start_reply :: "('f, 'r) generator \<Rightarrow> 'f options \<Rightarrow> ('r, 'z) talk_scheme \<Rightarrow> ('r, 'z) talk_scheme" where
  "start_reply g opts s = forget (s\<lparr>rng := sample_reset g opts, kept := [], calls := [], calling := False\<rparr>)"

text \<open>What \<open>Reply\<close> does after its loop.\<close>

definition end_reply :: "('h, 'f) lm \<Rightarrow> ('f, 'r) generator \<Rightarrow> (nat \<Rightarrow> bool) \<Rightarrow> ('h, 'f, 'r) session \<times> chat_error option
    \<Rightarrow> ('h, 'f, 'r) session \<times> chat_error option" where
  "end_reply m g w r =
     (case emit_to w [] True (fst r) of
        (s1, ferr) \<Rightarrow>
          let err = (if snd r = None then ferr else snd r);
              s2 = s1\<lparr>ids := ids s1 @ imEnd g # newline g\<rparr>
          in if int (kv_capacity s2) - int (length (ids s2)) < int roomAhead
             then (case reserve m (length (ids s2) + roomAhead) s2 of
                     (s3, ok) \<Rightarrow> (s3, if err = None \<and> \<not> ok then Some ErrEval else err))
             else (s2, err))"

definition Reply :: "('h, 'f) lm \<Rightarrow> ('f, 'r) generator \<Rightarrow> (nat \<Rightarrow> bool) \<Rightarrow> (nat \<Rightarrow> bool) \<Rightarrow> 'f options
    \<Rightarrow> ('h, 'f, 'r) session \<Rightarrow> ('h, 'f, 'r) session \<times> chat_error option" where
  "Reply m g w halt opts s =
     (if closed s \<or> gclosed g then (s, Some ErrClosed)
      else
        let s1 = s\<lparr>ids := ids s @ answer g, reply := int (length (ids s @ answer g)), out := []\<rparr>;
            n = length (ids s1);
            room = reply_room m opts n
        in if room \<le> 0 then (s1, Some ErrFull)
           else case reserve m (n + min (nat room) 256 + 2) s1 of
             (s2, ok) \<Rightarrow>
               if \<not> ok then (s2, Some ErrEval)
               else
                 let keep = min (common (ids s2) (kv_tokens s2)) (n - 1);
                     ev = (if is_ready s2 (ids s2) then (s2, True) else eval_last m keep (drop keep (ids s2)) s2)
                 in if \<not> snd ev then ((fst ev)\<lparr>ready := 0\<rparr>, Some ErrEval)
                    else end_reply m g w
                           (reply_loop m g w halt opts (nat room) 0 None (start_reply g opts ((fst ev)\<lparr>ready := 0\<rparr>))))"

section \<open>Judging a message\<close>

text \<open>Closing punctuation at the end of a text.\<close>

definition closing :: "('f, 'r) generator \<Rightarrow> nat list \<Rightarrow> nat" where
  "closing g body = length (takeWhile (closer g) (rev body))"

definition message_probe :: "('f, 'r) generator \<Rightarrow> nat list \<Rightarrow> nat \<Rightarrow> nat list \<Rightarrow> nat list" where
  "message_probe g xs role body = xs @ header g ! role @ body @ imEnd g # newline g @ answer g"

text \<open>The two questions to the head; the second only after closing punctuation.\<close>

definition judge :: "('h, 'f) lm \<Rightarrow> ('f, 'r) generator \<Rightarrow> 'h list \<Rightarrow> nat \<Rightarrow> ('h, 'f, 'r) session
    \<Rightarrow> ('h, 'f, 'r) session \<times> 'f option" where
  "judge m g states c s =
     (case head m s of
        (s1, ok) \<Rightarrow>
          if \<not> ok then (s1, None)
          else let p = lm_prob m (states ! 0) (enders g) in
            if c = 0 then (s1, Some p)
            else (case head m s1 of
                    (s2, ok2) \<Rightarrow> if \<not> ok2 then (s2, None) else (s2, Some (times_prob g p (lm_prob m (states ! c) (enders g))))))"

definition Finished :: "('h, 'f) lm \<Rightarrow> ('f, 'r) generator \<Rightarrow> (nat \<Rightarrow> bool) \<Rightarrow> nat \<Rightarrow> string
    \<Rightarrow> ('h, 'f, 'r) session \<Rightarrow> ('h, 'f, 'r) session \<times> (chat_error + 'f)" where
  "Finished m g halt role msg s =
     (if closed s then (s, Inl ErrClosed)
      else if Assistant < role then (s, Inl (ErrRole role))
      else if gclosed g then (s, Inl ErrClosed)
      else if halt (tick s) then (s, Inl ErrCanceled)
      else case encode g msg of
        None \<Rightarrow> (s, Inl ErrTokenize)
      | Some body \<Rightarrow>
          let probe = message_probe g (ids s) role body;
              e = length (ids s) + length (header g ! role) + length body;
              c = closing g body
          in if lm_limit m < length probe + 4 then (s, Inl ErrFull)
             else if is_ready s probe then (s, Inr (finished s))
             else case reserve m (min (length probe + 256 + 4) (lm_limit m)) s of
               (s1, ok) \<Rightarrow>
                 if \<not> ok then (s1, Inl ErrEval)
                 else let keep = min (common probe (kv_tokens s1)) (e - 1 - c) in
                   (case eval_tail m keep (drop keep probe) (length probe - e + 1 + c) s1 of
                      (s2, None) \<Rightarrow> (s2\<lparr>ready := 0\<rparr>, Inl ErrEval)
                    | (s2, Some states) \<Rightarrow>
                        (case judge m g states c (s2\<lparr>hidden := last states, ready := length probe\<rparr>) of
                           (s3, None) \<Rightarrow> (s3, Inl ErrEval)
                         | (s3, Some p) \<Rightarrow> (s3\<lparr>finished := p\<rparr>, Inr p))))"

definition Prefill :: "('h, 'f) lm \<Rightarrow> ('f, 'r) generator \<Rightarrow> (nat \<Rightarrow> bool) \<Rightarrow> ('h, 'f, 'r) session
    \<Rightarrow> ('h, 'f, 'r) session \<times> chat_error option" where
  "Prefill m g halt s =
     (if closed s \<or> gclosed g then (s, Some ErrClosed)
      else if halt (tick s) then (s, Some ErrCanceled)
      else if lm_limit m < length (ids s) + length (answer g) + 2 then (s, Some ErrFull)
      else case reserve m (min (length (ids s) + length (answer g) + 256 + 2) (lm_limit m)) s of
        (s1, ok) \<Rightarrow>
          if \<not> ok then (s1, Some ErrEval)
          else let keep = common (ids s1) (kv_tokens s1) in
            if keep = length (ids s1) then (s1, None)
            else (case eval_last m keep (drop keep (ids s1)) (s1\<lparr>ready := 0\<rparr>) of
                    (s2, ok2) \<Rightarrow> (s2, if ok2 then None else Some ErrEval)))"

section \<open>Going back\<close>

text \<open>The loop of \<open>Truncate\<close>: how many of the tokens fit in \<open>n\<close> bytes.\<close>

fun fitting :: "('f, 'r) generator \<Rightarrow> int \<Rightarrow> nat list \<Rightarrow> int \<Rightarrow> nat" where
  "fitting g n [] sz = 0"
| "fitting g n (x # xs) sz =
     (let sz' = sz + int (length (piece g x)) in if n < sz' then 0 else Suc (fitting g n xs sz'))"

definition Truncate :: "('f, 'r) generator \<Rightarrow> int \<Rightarrow> ('h, 'f, 'r) session \<Rightarrow> ('h, 'f, 'r) session \<times> chat_error option" where
  "Truncate g n s =
     (if closed s then (s, Some ErrClosed)
      else if reply s < 0 then (s, Some ErrNoReply)
      else
        let start = nat (reply s);
            e = length (ids s) - 1 - length (newline g);
            keep = start + fitting g n (drop start (take e (ids s))) 0
        in (s\<lparr>ids := take keep (ids s) @ imEnd g # newline g\<rparr>, None))"

definition Checkpoint :: "('h, 'f, 'r) session \<Rightarrow> int" where
  "Checkpoint s = int (length (ids s))"

definition Restore :: "int \<Rightarrow> ('h, 'f, 'r) session \<Rightarrow> ('h, 'f, 'r) session \<times> chat_error option" where
  "Restore mark s =
     (if closed s then (s, Some ErrClosed)
      else if mark < 0 \<or> int (length (ids s)) < mark then (s, Some (ErrMark mark))
      else (s\<lparr>ids := take (nat mark) (ids s), reply := -1\<rparr>, None))"

definition Close :: "('h, 'f, 'r) session \<Rightarrow> ('h, 'f, 'r) session" where
  "Close s = s\<lparr>closed := True, kv := None, ids := []\<rparr>"

section \<open>A new session\<close>

fun tool_drafts :: "('f, 'r) generator \<Rightarrow> (string \<Rightarrow> (string \<times> string) list option) \<Rightarrow> ToolSpec list \<Rightarrow> toolDraft list option" where
  "tool_drafts g properties [] = Some []"
| "tool_drafts g properties (t # ts) =
     (case encode g (scaffold (gdialect g) (Tool_Name t)) of
        None \<Rightarrow> None
      | Some xs \<Rightarrow>
          map_option ((#) \<lparr>draft_name = Tool_Name t, draft_scaffold = xs, draft_strings = stringParams properties (Tool_Parameters t)\<rparr>)
            (tool_drafts g properties ts))"

definition empty_session :: "'h \<Rightarrow> 'f \<Rightarrow> 'r \<Rightarrow> ('h, 'f, 'r) session" where
  "empty_session h f r =
     \<lparr>ids = [], kept = [], out = [], rng = r, tools = [], calls = [], calling = False, call = [], callIDs = [],
      seen = [], seenIDs = [], kv = None, ready = 0, finished = f, hidden = h, reply = -1, closed = False, tick = 0\<rparr>"

definition NewSession :: "('f, 'r) generator \<Rightarrow> (string \<Rightarrow> string option) \<Rightarrow> (string \<Rightarrow> string option)
    \<Rightarrow> (string \<Rightarrow> (string \<times> string) list option) \<Rightarrow> 'h \<Rightarrow> 'f \<Rightarrow> 'r \<Rightarrow> string \<Rightarrow> ToolSpec list
    \<Rightarrow> chat_error + ('h, 'f, 'r) session" where
  "NewSession g marshal compact properties h f r system specs =
     (case (if specs = [] then Some (system, []) else
            case prompt marshal compact (gdialect g) system specs of
              None \<Rightarrow> None
            | Some p \<Rightarrow> map_option (Pair p) (tool_drafts g properties specs)) of
        None \<Rightarrow> Inl ErrPrompt
      | Some (p, ds) \<Rightarrow>
          let s = (empty_session h f r)\<lparr>tools := ds\<rparr> in
          if p = [] then Inr s
          else (case Add g System p s of (s', None) \<Rightarrow> Inr s' | (s', Some e) \<Rightarrow> Inl e))"

end
