(* ===== verification/Chat_Cache.thy ===== *)
theory Chat_Cache
  imports Chat_Session
begin

text \<open>
  What a session keeps evaluated is never stale: an invariant of every operation of
  \<open>Chat_Session\<close>, in any order, whichever evaluations fail.  The locale \<open>decoding_invariant\<close> lists
  the parts a reply is decoded with; what they all keep, the whole loop keeps.
\<close>

section \<open>What the parts of a step leave alone\<close>

lemma session_eq_more:
  assumes "talk.more s = talk.more s'"
  shows "kv s = kv s'" "ready s = ready s'" "finished s = finished s'" "hidden s = hidden s'"
    "reply s = reply s'" "closed s = closed s'" "tick s = tick s'"
  using assms by (cases s; cases s'; simp)+

lemma remember_more [simp]: "talk.more (remember g x s) = talk.more s"
  by (simp add: remember_def Let_def)

lemma record_call_more [simp]: "talk.more (record_call g s) = talk.more s"
  by (simp add: record_call_def Let_def split: sum.splits)

lemma emit_to_more [simp]: "talk.more (fst (emit_to w p f s)) = talk.more s"
  by (simp add: emit_to_def split: prod.splits)

lemma forget_more [simp]: "talk.more (forget s) = talk.more s"
  by (simp add: forget_def)

lemma start_reply_more [simp]: "talk.more (start_reply g opts s) = talk.more s"
  by (simp add: start_reply_def)

lemma take_token_more [simp]: "talk.more (fst (take_token g w x s)) = talk.more s"
  by (simp add: take_token_def Let_def)

lemma draw_more [simp]: "talk.more (snd (draw g opts l s)) = talk.more s"
  by (simp add: draw_def Let_def)

lemmas take_token_session [simp] = session_eq_more [OF take_token_more]
lemmas draw_session [simp] = session_eq_more [OF draw_more]
lemmas emit_to_session [simp] = session_eq_more [OF emit_to_more]
lemmas start_reply_session [simp] = session_eq_more [OF start_reply_more]

text \<open>The tokens: a token taken is appended, nothing else moves them.\<close>

lemma remember_ids [simp]: "ids (remember g x s) = ids s"
  by (simp add: remember_def Let_def)

lemma record_call_ids [simp]: "ids (record_call g s) = ids s"
  by (simp add: record_call_def Let_def split: sum.splits)

lemma emit_to_ids [simp]: "ids (fst (emit_to w p f s)) = ids s"
  by (simp add: emit_to_def split: prod.splits)

lemma take_token_ids [simp]: "ids (fst (take_token g w x s)) = ids s @ [x]"
  by (simp add: take_token_def Let_def)

lemma draw_ids [simp]: "ids (snd (draw g opts l s)) = ids s"
  by (simp add: draw_def Let_def)

lemma forget_ids [simp]: "ids (forget s) = ids s"
  by (simp add: forget_def)

lemma start_reply_ids [simp]: "ids (start_reply g opts s) = ids s"
  by (simp add: start_reply_def)

section \<open>The invariant\<close>

definition store_ok :: "('h, 'f) lm \<Rightarrow> ('h, 'f, 'r) session \<Rightarrow> bool" where
  "store_ok m s \<longleftrightarrow> (case kv s of None \<Rightarrow> True | Some k \<Rightarrow> kv_ok m k)"

text \<open>
  The state kept for a reply is the model's state after the tokens stored and, when the store has
  been cut since, the rest that makes up the count.
\<close>

definition state_ok :: "('h, 'f) lm \<Rightarrow> ('h, 'f, 'r) session \<Rightarrow> bool" where
  "state_ok m s \<longleftrightarrow> ready s = 0 \<or>
     (\<exists>rest. ready s = length (kv_tokens s) + length rest \<and> hidden s = lm_state m (kv_tokens s @ rest))"

definition cache_ok :: "('h, 'f) lm \<Rightarrow> ('h, 'f, 'r) session \<Rightarrow> bool" where
  "cache_ok m s \<longleftrightarrow> store_ok m s \<and> state_ok m s \<and> (closed s \<or> reply s \<le> int (length (ids s)))"

lemma kv_tokens_cong: "kv s = kv s' \<Longrightarrow> kv_tokens s = kv_tokens s'"
  by (simp add: kv_tokens_def)

lemma state_ok_cong: "\<lbrakk>kv s = kv s'; ready s = ready s'; hidden s = hidden s'\<rbrakk> \<Longrightarrow> state_ok m s = state_ok m s'"
  by (simp add: state_ok_def kv_tokens_def)

lemma state_ok_unready: "ready s = 0 \<Longrightarrow> state_ok m s"
  by (simp add: state_ok_def)

lemma store_ok_cong: "kv s = kv s' \<Longrightarrow> store_ok m s = store_ok m s'"
  by (simp add: store_ok_def)

text \<open>A store that says it is ready for a sequence holds its state.\<close>

lemma is_ready_state:
  assumes "cache_ok m s" "is_ready s xs" "xs \<noteq> []"
  shows "kv_tokens s = xs" "hidden s = lm_state m xs"
proof -
  show t: "kv_tokens s = xs"
    using assms(2) common_full [of xs "kv_tokens s"] unfolding is_ready_def by (metis order_refl take_all_iff)
  show "hidden s = lm_state m xs"
    using assms t by (auto simp: cache_ok_def state_ok_def is_ready_def)
qed

section \<open>The store\<close>

lemma grow_ge: "0 < c \<Longrightarrow> need \<le> grow_capacity c need"
proof (induction c need rule: grow_capacity.induct)
  case (1 c need)
  then show ?case by (subst grow_capacity.simps) auto
qed

text \<open>The copy into a larger store never panics.\<close>

lemma reserve_copies:
  assumes "kv_ok m k" "capacity k < need" "NewPrefixKV m t (min (grow_capacity 512 need) (lm_limit m)) = Some k'"
  shows "\<exists>k2. CopyPrefix k' k (CommonPrefix k xs) = Some k2 \<and> kv_ok m k2 \<and>
    tokens k2 = take (common xs (tokens k)) (tokens k) \<and> capacity k2 = min (grow_capacity 512 need) (lm_limit m)"
proof -
  have c: "CommonPrefix k xs \<le> length (tokens k)" by (simp add: CommonPrefix_def common_le)
  have "need \<le> grow_capacity 512 need" by (rule grow_ge) simp
  with c assms have "CommonPrefix k xs \<le> min (grow_capacity 512 need) (lm_limit m)" by (auto simp: kv_ok_def)
  with c assms(3) show ?thesis
    by (auto simp: CopyPrefix_def NewPrefixKV_def kv_ok_def CommonPrefix_def split: if_splits)
qed

lemma reserve_talk: "ids (fst (reserve m need s)) = ids s" "ready (fst (reserve m need s)) = ready s"
  "hidden (fst (reserve m need s)) = hidden s" "reply (fst (reserve m need s)) = reply s"
  "closed (fst (reserve m need s)) = closed s" "talk.truncate (fst (reserve m need s)) = talk.truncate s"
  by (simp_all add: reserve_def talk.defs split: option.splits)

lemma reserve_store:
  assumes "store_ok m s"
  shows "store_ok m (fst (reserve m need s))" "\<exists>n. kv_tokens (fst (reserve m need s)) = take n (kv_tokens s)"
proof -
  have "store_ok m (fst (reserve m need s)) \<and> (\<exists>n. kv_tokens (fst (reserve m need s)) = take n (kv_tokens s))"
  proof (cases "kv s")
    case None
    then show ?thesis by (auto simp: reserve_def store_ok_def kv_tokens_def NewPrefixKV_def kv_ok_def)
  next
    case (Some k)
    show ?thesis
    proof (cases "need \<le> capacity k \<or> NewPrefixKV m (tick s) (min (grow_capacity 512 need) (lm_limit m)) = None")
      case True
      then show ?thesis
        using assms Some by (auto simp: reserve_def store_ok_def kv_tokens_def intro: exI [of _ "length (tokens k)"])
    next
      case False
      then obtain k' where k': "NewPrefixKV m (tick s) (min (grow_capacity 512 need) (lm_limit m)) = Some k'" by auto
      have "kv_ok m k" using assms Some by (simp add: store_ok_def)
      from reserve_copies [OF this _ k', of "ids s"] False Some k' show ?thesis
        by (auto simp: reserve_def store_ok_def kv_tokens_def)
    qed
  qed
  then show "store_ok m (fst (reserve m need s))" "\<exists>n. kv_tokens (fst (reserve m need s)) = take n (kv_tokens s)" by auto
qed

lemma reserve_cache_ok:
  assumes "cache_ok m s"
  shows "cache_ok m (fst (reserve m need s))"
proof -
  let ?s = "fst (reserve m need s)"
  have "state_ok m ?s"
  proof (cases "ready s = 0")
    case False
    then obtain rest where r: "ready s = length (kv_tokens s) + length rest" "hidden s = lm_state m (kv_tokens s @ rest)"
      using assms by (auto simp: cache_ok_def state_ok_def)
    obtain n where n: "kv_tokens ?s = take n (kv_tokens s)"
      using reserve_store(2) [of m s need] assms by (auto simp: cache_ok_def)
    have "kv_tokens ?s @ drop n (kv_tokens s) @ rest = kv_tokens s @ rest" by (simp add: n)
    moreover have "length (kv_tokens ?s) + length (drop n (kv_tokens s) @ rest) = length (kv_tokens s) + length rest"
      by (simp add: n)
    ultimately show ?thesis
      using r unfolding state_ok_def reserve_talk by metis
  qed (simp add: state_ok_def reserve_talk)
  then show ?thesis
    using assms reserve_store(1) by (auto simp: cache_ok_def reserve_talk)
qed

section \<open>Evaluations\<close>

lemma eval_last_store: "store_ok m s \<Longrightarrow> store_ok m (fst (eval_last m keep xs s))"
  by (auto simp: eval_last_def store_ok_def Let_def extend_ok split: option.splits)

lemma eval_last_fields [simp]:
  "ids (fst (eval_last m keep xs s)) = ids s" "ready (fst (eval_last m keep xs s)) = ready s"
  "reply (fst (eval_last m keep xs s)) = reply s" "closed (fst (eval_last m keep xs s)) = closed s"
  "talk.truncate (fst (eval_last m keep xs s)) = talk.truncate s"
  by (simp_all add: eval_last_def Let_def talk.defs split: option.splits)

lemma eval_tail_store: "store_ok m s \<Longrightarrow> store_ok m (fst (eval_tail m keep xs n s))"
  by (auto simp: eval_tail_def store_ok_def Let_def extend_tail_fst extend_ok split: option.splits)

lemma eval_tail_fields [simp]:
  "ids (fst (eval_tail m keep xs n s)) = ids s" "ready (fst (eval_tail m keep xs n s)) = ready s"
  "reply (fst (eval_tail m keep xs n s)) = reply s" "closed (fst (eval_tail m keep xs n s)) = closed s"
  "talk.truncate (fst (eval_tail m keep xs n s)) = talk.truncate s"
  by (simp_all add: eval_tail_def Let_def talk.defs split: option.splits)

lemma head_fields [simp]:
  "ids (fst (head m s)) = ids s" "kv (fst (head m s)) = kv s" "ready (fst (head m s)) = ready s"
  "hidden (fst (head m s)) = hidden s" "reply (fst (head m s)) = reply s" "closed (fst (head m s)) = closed s"
  "talk.truncate (fst (head m s)) = talk.truncate s"
  by (simp_all add: head_def talk.defs)

text \<open>The states a successful evaluation gives.\<close>

lemma eval_tail_states:
  assumes "eval_tail m keep xs n s = (s', Some states)"
  shows "kv_tokens s' = take keep (kv_tokens s) @ xs" "keep \<le> length (kv_tokens s)" "n \<noteq> 0"
    "states = map (\<lambda>i. lm_state m (take i (kv_tokens s'))) [length (kv_tokens s') + 1 - n..<length (kv_tokens s') + 1]"
  using assms
  by (auto simp: eval_tail_def extend_tail_def extend_kv_def kv_tokens_def Let_def split: option.splits prod.splits if_splits)

lemma eval_tail_last:
  assumes "eval_tail m keep xs n s = (s', Some states)"
  shows "last states = lm_state m (kv_tokens s')" "states \<noteq> []"
  using eval_tail_states [OF assms] by (auto simp: last_map)

lemma eval_last_state:
  assumes "snd (eval_last m keep xs s)"
  shows "kv_tokens (fst (eval_last m keep xs s)) = take keep (kv_tokens s) @ xs"
    "hidden (fst (eval_last m keep xs s)) = lm_state m (take keep (kv_tokens s) @ xs)" "keep \<le> length (kv_tokens s)"
  using assms by (auto simp: eval_last_def Let_def kv_tokens_def extend_True split: option.splits)

section \<open>Decoding\<close>

locale decoding_invariant =
  fixes P :: "('h, 'f, 'r) session \<Rightarrow> bool" and m :: "('h, 'f) lm" and g :: "('f, 'r) generator" and w :: "nat \<Rightarrow> bool"
  assumes taken: "P s \<Longrightarrow> P (fst (take_token g w x s))"
    and drawn: "P s \<Longrightarrow> P (snd (draw g opts l s))"
    and asked: "P s \<Longrightarrow> P (fst (head m s))"
    and reserved: "P s \<Longrightarrow> P (fst (reserve m need s))"
    and evaluated: "P s \<Longrightarrow> P (fst (eval_last m keep xs s))" "P s \<Longrightarrow> P (fst (eval_tail m keep xs n s))"
    and moved: "P s \<Longrightarrow> P (s\<lparr>hidden := h\<rparr>)"
begin

lemma checked: "P s \<Longrightarrow> P (fst (verify_loop m g w opts hs ds k s))"
proof (induction hs arbitrary: ds k s)
  case (Cons h hs)
  let ?s1 = "snd (draw g opts (lm_logits m h) s)"
  have s1: "P ?s1" using Cons.prems by (rule drawn)
  have "P s2" if "take_token g w x ?s1 = (s2, e)" for x s2 e
    using taken [OF s1] that by (metis fst_conv)
  with moved [OF s1] show ?case
    using Cons.IH by (auto simp: Let_def split: list.splits prod.splits option.splits)
qed simp

lemma verified: "P s \<Longrightarrow> P (fst (verify m g w opts ds s))"
proof -
  assume ok: "P s"
  let ?e = "eval_tail m (length (ids s) - 1) (last (ids s) # ds) (length (last (ids s) # ds)) s"
  have h: "P (fst ?e)" "P (fst (head m (fst ?e)))" using ok evaluated(2) asked by blast+
  show ?thesis
  proof (cases "snd ?e")
    case None
    then have "verify m g w opts ds s = (fst ?e, Inl ErrEval)"
      by (cases ?e) (simp add: verify_def Let_def)
    then show ?thesis using h by simp
  next
    case (Some st)
    then have "verify m g w opts ds s = (if \<not> snd (head m (fst ?e)) then (fst (head m (fst ?e)), Inl ErrEval)
        else verify_loop m g w opts st ds 0 (fst (head m (fst ?e))))"
      by (cases ?e) (simp add: verify_def Let_def split: prod.splits)
    then show ?thesis using h checked [OF h(2)] by auto
  qed
qed

lemma roomy: "P s \<Longrightarrow> P (fst (make_room m d s))"
  by (simp add: make_room_def Let_def reserved)

lemma nexted: "P s \<Longrightarrow> P (fst (next_token m g opts ahead s))"
  by (auto simp: next_token_def Let_def drawn asked split: option.splits)

lemma replied: "P s \<Longrightarrow> P (fst (reply_loop m g w halt opts room n ahead s))"
proof (induction "room - n" arbitrary: n ahead s rule: less_induct)
  case less
  obtain s1 x where s1: "next_token m g opts ahead s = (s1, x)" by force
  have d1: "P s1" using nexted [OF less.prems] s1 by (metis fst_conv)
  show ?case
  proof (cases "room \<le> n \<or> x = None \<or> the x = imEnd g \<or> the x = endText g")
    case True
    then show ?thesis
      using d1 less.prems by (auto simp: reply_loop.simps [of m g w halt opts room n ahead s] s1 split: option.splits)
  next
    case False
    then obtain x' where x: "x = Some x'" by auto
    obtain s2 e2 where s2: "take_token g w x' s1 = (s2, e2)" by force
    have d2: "P s2" using taken [OF d1] s2 by (metis fst_conv)
    define d where "d = draft s2 (room - Suc n)"
    obtain s3 ok where s3: "make_room m d s2 = (s3, ok)" by force
    have d3: "P s3" using roomy [OF d2] s3 by (metis fst_conv)
    obtain s4 ok4 where s4: "eval_last m (length (ids s3) - Suc 0) [last (ids s3)] s3 = (s4, ok4)" by force
    have d4: "P s4" using evaluated(1) [OF d3] s4 by (metis fst_conv)
    obtain s5 v where s5: "verify m g w opts d s3 = (s5, v)" by force
    have d5: "P s5" using verified [OF d3] s5 by (metis fst_conv)
    have "P (fst (reply_loop m g w halt opts room (Suc n) None s4))"
      "P (fst (reply_loop m g w halt opts room (Suc (n + k)) (Some y) s5))" for k y
      using less.hyps d4 d5 False by auto
    then show ?thesis
      using False d2 d3 d4 d5
      by (auto simp: reply_loop.simps [of m g w halt opts room n ahead s] s1 x s2 d_def [symmetric] s3 s4 s5
          split: option.splits sum.splits)
  qed
qed

end

section \<open>The store while decoding\<close>

text \<open>While a reply is decoded, no state is promised, and the store stays within its bounds.\<close>

definition decoding_ok :: "('h, 'f) lm \<Rightarrow> ('h, 'f, 'r) session \<Rightarrow> bool" where
  "decoding_ok m s \<longleftrightarrow> store_ok m s \<and> ready s = 0 \<and> (closed s \<or> reply s \<le> int (length (ids s)))"

lemma decoding_cache: "decoding_ok m s \<Longrightarrow> cache_ok m s"
  by (simp add: decoding_ok_def cache_ok_def state_ok_unready)

interpretation dc: decoding_invariant "decoding_ok m" m g w
proof
  fix s :: "('a, 'b, 'c) session"
  assume d: "decoding_ok m s"
  show "decoding_ok m (fst (take_token g w x s))" for x using d by (auto simp: decoding_ok_def store_ok_def)
  show "decoding_ok m (snd (draw g opts l s))" for opts l using d by (simp add: decoding_ok_def store_ok_def)
  show "decoding_ok m (fst (head m s))" using d by (simp add: decoding_ok_def store_ok_def)
  show "decoding_ok m (fst (reserve m need s))" for need using d by (simp add: decoding_ok_def reserve_store reserve_talk)
  show "decoding_ok m (fst (eval_last m keep xs s))" for keep xs using d by (simp add: decoding_ok_def eval_last_store)
  show "decoding_ok m (fst (eval_tail m keep xs n s))" for keep xs n using d by (simp add: decoding_ok_def eval_tail_store)
  show "decoding_ok m (s\<lparr>hidden := h\<rparr>)" for h using d by (simp add: decoding_ok_def store_ok_def)
qed

text \<open>The conversation before a reply stays: decoding only appends to it.\<close>

definition grows_from :: "nat list \<Rightarrow> ('r, 'z) talk_scheme \<Rightarrow> bool" where
  "grows_from xs s \<longleftrightarrow> take (length xs) (ids s) = xs"

interpretation gf: decoding_invariant "grows_from xs" m g w
  by unfold_locales (auto simp: grows_from_def reserve_talk take_Cons' dest: arg_cong [of _ _ length])

section \<open>The operations\<close>

definition reply_end :: "('f, 'r) generator \<Rightarrow> (nat \<Rightarrow> bool) \<Rightarrow> ('r, 'z) talk_scheme \<Rightarrow> ('r, 'z) talk_scheme" where
  "reply_end g w s = (fst (emit_to w [] True s))\<lparr>ids := ids s @ imEnd g # newline g\<rparr>"

lemma end_reply_fst:
  "fst (end_reply m g w r) =
     (let s2 = reply_end g w (fst r)
      in if int (kv_capacity s2) - int (length (ids s2)) < int roomAhead
         then fst (reserve m (length (ids s2) + roomAhead) s2) else s2)"
proof -
  obtain a b where ab: "emit_to w [] True (fst r) = (a, b)" by force
  then have "ids a = ids (fst r)" using emit_to_ids [of w "[]" True "fst r"] by simp
  then show ?thesis by (simp add: end_reply_def reply_end_def ab Let_def split: prod.splits)
qed

lemma end_reply_decoding: "decoding_ok m (fst r) \<Longrightarrow> decoding_ok m (fst (end_reply m g w r))"
proof -
  assume "decoding_ok m (fst r)"
  then have "decoding_ok m (reply_end g w (fst r))" by (auto simp: decoding_ok_def store_ok_def reply_end_def)
  then show ?thesis by (simp add: end_reply_fst Let_def dc.reserved)
qed

lemma Add_cache_ok: "cache_ok m s \<Longrightarrow> cache_ok m (fst (Add g role msg s))"
  by (auto simp: Add_def cache_ok_def store_ok_def state_ok_def kv_tokens_def split: option.splits)

lemma Truncate_cache_ok: "cache_ok m s \<Longrightarrow> cache_ok m (fst (Truncate g n s))"
  by (auto simp: Truncate_def cache_ok_def store_ok_def state_ok_def kv_tokens_def Let_def)

lemma Restore_cache_ok: "cache_ok m s \<Longrightarrow> cache_ok m (fst (Restore n s))"
  by (auto simp: Restore_def cache_ok_def store_ok_def state_ok_def kv_tokens_def)

lemma Prefill_cache_ok:
  assumes "cache_ok m s"
  shows "cache_ok m (fst (Prefill m g halt s))"
proof -
  let ?s1 = "fst (reserve m (min (length (ids s) + length (answer g) + 256 + 2) (lm_limit m)) s)"
  have s1: "cache_ok m ?s1" using assms by (rule reserve_cache_ok)
  then have "decoding_ok m (?s1\<lparr>ready := 0\<rparr>)" by (simp add: decoding_ok_def cache_ok_def store_ok_def)
  from decoding_cache [OF dc.evaluated(1) [OF this]] s1 show ?thesis
    using assms by (auto simp: Prefill_def Let_def split: prod.splits) (metis fst_conv)+
qed

text \<open>\<open>Reply\<close> in its parts: the header, the room, the state to start from, the loop and the end.\<close>

definition reply_begin :: "('f, 'r) generator \<Rightarrow> ('h, 'f, 'r) session \<Rightarrow> ('h, 'f, 'r) session" where
  "reply_begin g s = s\<lparr>ids := ids s @ answer g, reply := int (length (ids s @ answer g)), out := []\<rparr>"

definition reply_eval :: "('h, 'f) lm \<Rightarrow> ('h, 'f, 'r) session \<Rightarrow> ('h, 'f, 'r) session \<times> bool" where
  "reply_eval m s =
     (if is_ready s (ids s) then (s, True)
      else let keep = min (common (ids s) (kv_tokens s)) (length (ids s) - 1) in eval_last m keep (drop keep (ids s)) s)"

lemma Reply_parts:
  assumes "\<not> closed s" "\<not> gclosed g"
    and s1: "s1 = reply_begin g s" and room: "room = reply_room m opts (length (ids s1))"
    and s2: "s2 = reserve m (length (ids s1) + min (nat room) 256 + 2) s1" and ev: "ev = reply_eval m (fst s2)"
    and s3: "s3 = start_reply g opts ((fst ev)\<lparr>ready := 0\<rparr>)"
  shows "Reply m g w halt opts s =
    (if room \<le> 0 then (s1, Some ErrFull)
     else if \<not> snd s2 then (fst s2, Some ErrEval)
     else if \<not> snd ev then ((fst ev)\<lparr>ready := 0\<rparr>, Some ErrEval)
     else end_reply m g w (reply_loop m g w halt opts (nat room) 0 None s3))"
proof -
  have "length (ids (fst s2)) = length (ids s1)" by (simp add: s2 reserve_talk)
  then show ?thesis
    using assms(1,2) unfolding Reply_def s3 ev s2 room s1 reply_begin_def [symmetric] reply_eval_def Let_def
    by (simp split: prod.splits)
qed

lemma reply_begin_cache_ok: "cache_ok m s \<Longrightarrow> cache_ok m (reply_begin g s)"
  by (simp add: reply_begin_def cache_ok_def store_ok_def state_ok_def kv_tokens_def)

lemma reply_eval_decoding: "cache_ok m s \<Longrightarrow> decoding_ok m ((fst (reply_eval m s))\<lparr>ready := 0\<rparr>)"
  using eval_last_store [of m s] by (auto simp: reply_eval_def Let_def decoding_ok_def cache_ok_def store_ok_def)

lemma Reply_cache_ok:
  assumes "cache_ok m s"
  shows "cache_ok m (fst (Reply m g w halt opts s))"
proof (cases "closed s \<or> gclosed g")
  case False
  define s1 where "s1 = reply_begin g s"
  define room where "room = reply_room m opts (length (ids s1))"
  define s2 where "s2 = reserve m (length (ids s1) + min (nat room) 256 + 2) s1"
  define ev where "ev = reply_eval m (fst s2)"
  define s3 where "s3 = start_reply g opts ((fst ev)\<lparr>ready := 0\<rparr>)"
  have s1: "cache_ok m s1" unfolding s1_def using assms by (rule reply_begin_cache_ok)
  then have s2: "cache_ok m (fst s2)" unfolding s2_def by (rule reserve_cache_ok)
  have ev: "decoding_ok m ((fst ev)\<lparr>ready := 0\<rparr>)"
    unfolding ev_def using s2 by (rule reply_eval_decoding)
  have "decoding_ok m s3" using ev by (simp add: s3_def decoding_ok_def store_ok_def)
  note e = decoding_cache [OF end_reply_decoding [OF dc.replied [OF this]]]
  show ?thesis
    using False s1 s2 e decoding_cache [OF ev]
    by (subst Reply_parts [OF _ _ s1_def room_def s2_def ev_def s3_def]) auto
qed (use assms in \<open>simp add: Reply_def\<close>)

lemma judge_fields:
  "ids (fst (judge m g st c s)) = ids s" "kv (fst (judge m g st c s)) = kv s" "ready (fst (judge m g st c s)) = ready s"
  "hidden (fst (judge m g st c s)) = hidden s" "reply (fst (judge m g st c s)) = reply s"
  "closed (fst (judge m g st c s)) = closed s" "talk.truncate (fst (judge m g st c s)) = talk.truncate s"
  by (auto simp: judge_def Let_def head_def talk.defs)

lemma judge_cache_ok: "cache_ok m s \<Longrightarrow> cache_ok m (fst (judge m g st c s))"
  by (simp add: cache_ok_def store_ok_def state_ok_def kv_tokens_def judge_fields)

text \<open>\<open>Finished\<close> after its checks: the parts in order.\<close>

lemma Finished_cache_ok:
  assumes "cache_ok m s"
  shows "cache_ok m (fst (Finished m g halt role msg s))"
proof (cases "closed s \<or> Assistant < role \<or> gclosed g \<or> halt (tick s) \<or> encode g msg = None")
  case False
  then obtain body where body: "encode g msg = Some body" by auto
  define probe where "probe = message_probe g (ids s) role body"
  define e where "e = length (ids s) + length (header g ! role) + length body"
  define c where "c = closing g body"
  obtain s1 ok where s1: "reserve m (min (length probe + 256 + 4) (lm_limit m)) s = (s1, ok)" by force
  have c1: "cache_ok m s1" using reserve_cache_ok [OF assms] s1 by (metis fst_conv)
  define keep where "keep = min (common probe (kv_tokens s1)) (e - 1 - c)"
  obtain s2 st where s2: "eval_tail m keep (drop keep probe) (length probe - e + 1 + c) s1 = (s2, st)" by force
  have f2: "store_ok m s2" "reply s2 = reply s1" "ids s2 = ids s1" "closed s2 = closed s1"
    using eval_tail_store [of m s1 keep "drop keep probe" "length probe - e + 1 + c"]
      eval_tail_fields [of m keep "drop keep probe" "length probe - e + 1 + c" s1] c1 s2
    unfolding s2 cache_ok_def fst_conv by blast+
  have lost: "cache_ok m (s2\<lparr>ready := 0\<rparr>)"
    using f2 c1 by (simp add: cache_ok_def state_ok_unready store_ok_def)
  have kept: "cache_ok m (s2\<lparr>hidden := last states, ready := length probe\<rparr>)" if "st = Some states" for states
  proof -
    have t: "eval_tail m keep (drop keep probe) (length probe - e + 1 + c) s1 = (s2, Some states)" using s2 that by simp
    have "take keep (kv_tokens s1) = take keep probe"
      using take_common [of keep probe "kv_tokens s1"] by (simp add: keep_def)
    then have "kv_tokens s2 = probe" using eval_tail_states(1) [OF t] by simp
    moreover have "last states = lm_state m (kv_tokens s2)" by (rule eval_tail_last [OF t])
    ultimately show ?thesis
      using f2 c1 by (auto simp: cache_ok_def store_ok_def state_ok_def kv_tokens_def)
  qed
  have judged: "cache_ok m s3" if "judge m g states c (s2\<lparr>hidden := last states, ready := length probe\<rparr>) = (s3, p)" "st = Some states" for states s3 p
    using judge_cache_ok [OF kept [OF that(2)], of g states c] that(1) by (metis fst_conv)
  have noted: "cache_ok m (s3\<lparr>finished := q\<rparr>) = cache_ok m s3" for s3 :: "('a, 'b, 'c) session" and q
    by (simp add: cache_ok_def store_ok_def state_ok_def kv_tokens_def)
  show ?thesis
    unfolding Finished_def body option.case Let_def probe_def [symmetric] e_def [symmetric] c_def [symmetric] s1 prod.case
      keep_def [symmetric] s2
    using False assms c1 lost judged by (auto simp: noted split: option.splits prod.splits)
qed (use assms in \<open>auto simp: Finished_def\<close>)

section \<open>Runs\<close>

datatype 'f session_op =
    OpAdd nat string
  | OpAddCalls string "Call list"
  | OpReply "nat \<Rightarrow> bool" "nat \<Rightarrow> bool" "'f options"
  | OpFinished "nat \<Rightarrow> bool" nat string
  | OpPrefill "nat \<Rightarrow> bool"
  | OpTruncate int
  | OpRestore int
  | OpClose

fun session_step :: "('h, 'f) lm \<Rightarrow> ('f, 'r) generator \<Rightarrow> 'f session_op \<Rightarrow> ('h, 'f, 'r) session \<Rightarrow> ('h, 'f, 'r) session" where
  "session_step m g (OpAdd role msg) s = fst (Add g role msg s)"
| "session_step m g (OpAddCalls msg cs) s = fst (AddCalls g msg cs s)"
| "session_step m g (OpReply w halt opts) s = fst (Reply m g w halt opts s)"
| "session_step m g (OpFinished halt role msg) s = fst (Finished m g halt role msg s)"
| "session_step m g (OpPrefill halt) s = fst (Prefill m g halt s)"
| "session_step m g (OpTruncate n) s = fst (Truncate g n s)"
| "session_step m g (OpRestore n) s = fst (Restore n s)"
| "session_step m g OpClose s = Close s"

inductive reached :: "('h, 'f) lm \<Rightarrow> ('f, 'r) generator \<Rightarrow> ('h, 'f, 'r) session \<Rightarrow> bool" for m g where
  start: "NewSession g marshal compact properties h f r system specs = Inr s \<Longrightarrow> reached m g s"
| step: "reached m g s \<Longrightarrow> reached m g (session_step m g op s)"

inductive_cases reachedE: "reached m g s"

lemma NewSession_cache_ok:
  assumes "NewSession g marshal compact properties h f r system specs = Inr s"
  shows "cache_ok m s"
proof -
  have e: "cache_ok m ((empty_session h f r)\<lparr>tools := ds\<rparr>)" for ds
    by (simp add: empty_session_def cache_ok_def store_ok_def state_ok_def)
  have "cache_ok m s'" if "Add g System p ((empty_session h f r)\<lparr>tools := ds\<rparr>) = (s', x)" for p ds s' x
    using Add_cache_ok [OF e, of g System p ds] that by simp
  with e assms show ?thesis
    by (auto simp: NewSession_def Let_def split: option.splits prod.splits if_splits)
qed

lemma step_cache_ok: "cache_ok m s \<Longrightarrow> cache_ok m (session_step m g op s)"
proof (cases op)
  case (OpAddCalls msg cs)
  assume "cache_ok m s"
  then show ?thesis using OpAddCalls by (auto simp: AddCalls_def Add_cache_ok split: sum.splits)
next
  case OpClose
  assume "cache_ok m s"
  then have "\<exists>rest. ready s = length rest \<and> hidden s = lm_state m rest" if "ready s \<noteq> 0"
    using that unfolding cache_ok_def state_ok_def by (metis length_append)
  then show ?thesis using OpClose by (auto simp: cache_ok_def Close_def store_ok_def state_ok_def kv_tokens_def)
qed (simp_all add: Add_cache_ok Reply_cache_ok Finished_cache_ok Prefill_cache_ok Truncate_cache_ok Restore_cache_ok)

text \<open>A small model to try the operations on: its state is the tokens themselves.\<close>

definition echo_lm :: "(nat list, int) lm" where
  "echo_lm = \<lparr>lm_state = (\<lambda>xs. xs), lm_logits = map int, lm_prob = (\<lambda>_ _. 0), lm_fails = (\<lambda>_. False),
     lm_left = (\<lambda>_. 0), lm_broken = [], lm_limit = 64\<rparr>"

definition echo_generator :: "(int, nat) generator" where
  "echo_generator = \<lparr>imEnd = 1, endText = 2, newline = [3], header = [[4], [5], [6], [7]], answer = [8],
     callOpen = 9, callClose = 10, resultEnd = [11], enders = [1], closer = (\<lambda>_. False), gdialect = jsonCalls,
     gclosed = False, vocab = 16, encode = (\<lambda>s. Some (map (\<lambda>_. 12) s)), piece = (\<lambda>_. ''x''),
     sample_reset = (\<lambda>_. 0), sample_next = (\<lambda>l opts r. (if r < 2 then 13 else 1, r + 1)),
     minus_logit = (-), times_prob = (*), is_zero = (\<lambda>x. x = 0), json_valid = (\<lambda>_. True), json_members = (\<lambda>_. Some [])\<rparr>"

definition echo_session :: "(nat list, int, nat) session" where
  "echo_session = empty_session [] 0 0"

text \<open>
  C2: What a session keeps evaluated is never stale.  In every state a session can reach, by any
  sequence of \<open>Add\<close>, \<open>AddCalls\<close>, \<open>Reply\<close>, \<open>Finished\<close>, \<open>Prefill\<close>, \<open>Truncate\<close>, \<open>Restore\<close> and \<open>Close\<close>, with
  evaluations failing at any point: the store is within its capacity and the model's context, and
  when it says it is ready to reply to a sequence of tokens, it holds those tokens and the model's
  state after them.
\<close>

theorem cache_never_stale:
  assumes "reached m g s"
  shows "store_ok m s \<and> (is_ready s xs \<and> xs \<noteq> [] \<longrightarrow> kv_tokens s = xs \<and> hidden s = lm_state m xs)"
proof -
  have "cache_ok m s" using assms
  proof induction
    case (step s op)
    from step.IH show ?case by (rule step_cache_ok)
  qed (rule NewSession_cache_ok)
  then show ?thesis using is_ready_state [of m s xs] by (simp add: cache_ok_def)
qed

lemma echo_reached: "reached echo_lm echo_generator echo_session"
  by (rule reached.start [of _ "\<lambda>_. None" "\<lambda>_. None" "\<lambda>_. None" "[]" 0 0 "[]" "[]"])
    (simp add: NewSession_def echo_session_def empty_session_def)

definition echo_judged :: "(nat list, int, nat) session" where
  "echo_judged = session_step echo_lm echo_generator (OpFinished (\<lambda>_. False) User ''hi'') echo_session"

lemma grow_512: "need \<le> 512 \<Longrightarrow> grow_capacity 512 need = 512"
  by (simp add: grow_capacity.simps)

lemma echo_judged_ready: "is_ready echo_judged [5, 12, 12, 1, 3, 8]"
  by (simp add: echo_judged_def Finished_def echo_session_def empty_session_def echo_lm_def echo_generator_def User_def Assistant_def
      message_probe_def closing_def is_ready_def kv_tokens_def reserve_def NewPrefixKV_def grow_512 eval_tail_def extend_tail_def
      extend_kv_def maxTail_def judge_def head_def Let_def)

theorem cache_never_stale_witness:
  "is_ready echo_judged [5, 12, 12, 1, 3, 8] \<and> store_ok echo_lm echo_judged \<and>
   kv_tokens echo_judged = [5, 12, 12, 1, 3, 8] \<and> hidden echo_judged = lm_state echo_lm [5, 12, 12, 1, 3, 8]"
  using cache_never_stale [of echo_lm echo_generator echo_judged "[5, 12, 12, 1, 3, 8]"] echo_judged_ready
    reached.step [OF echo_reached, of "OpFinished (\<lambda>_. False) User ''hi''"]
  unfolding echo_judged_def by simp

end
