(* ===== verification/Chat_Decoding.thy ===== *)
theory Chat_Decoding
  imports Chat_Cache
begin

text \<open>
  What a reply is, without the store and without drafts: one token after another, each drawn from
  the model's state after the whole conversation.  \<open>Reply\<close> of \<open>Chat_Session\<close> refines it: the store
  of evaluated tokens, the state kept by \<open>Finished\<close> and the drafted tool calls save work and change
  nothing.
\<close>

section \<open>The specification\<close>

function decode :: "('h, 'f) lm \<Rightarrow> ('f, 'r) generator \<Rightarrow> (nat \<Rightarrow> bool) \<Rightarrow> 'f options \<Rightarrow> nat \<Rightarrow> nat \<Rightarrow> 'r talk
    \<Rightarrow> 'r talk \<times> chat_error option" where
  "decode m g w opts room n t =
     (if room \<le> n then (t, None)
      else let x = fst (draw g opts (lm_logits m (lm_state m (ids t))) t);
               t1 = snd (draw g opts (lm_logits m (lm_state m (ids t))) t)
        in if x = imEnd g \<or> x = endText g then (t1, None)
           else case take_token g w x t1 of
             (t2, Some e) \<Rightarrow> (t2, Some e)
           | (t2, None) \<Rightarrow> decode m g w opts room (n + 1) t2)"
  by pat_completeness auto
termination by (relation "measure (\<lambda>(m, g, w, opts, room, n, t). room - n)") auto

declare decode.simps [simp del]

definition reply_spec :: "('h, 'f) lm \<Rightarrow> ('f, 'r) generator \<Rightarrow> (nat \<Rightarrow> bool) \<Rightarrow> 'f options \<Rightarrow> 'r talk \<Rightarrow> 'r talk \<times> chat_error option" where
  "reply_spec m g w opts t =
     (let t1 = t\<lparr>ids := ids t @ answer g, out := []\<rparr>;
          r = decode m g w opts (nat (reply_room m opts (length (ids t1)))) 0 (start_reply g opts t1)
      in (reply_end g w (fst r), if snd r = None then snd (emit_to w [] True (fst r)) else snd r))"

section \<open>The conversation of a session\<close>

definition view :: "('h, 'f, 'r) session \<Rightarrow> 'r talk" where
  "view s = talk.truncate s"

lemma view_ids [simp]: "ids (view s) = ids s"
  by (simp add: view_def talk.defs)

lemma view_fields:
  "seenIDs (view s) = seenIDs s" "rng (view s) = rng s" "calling (view s) = calling s" "callIDs (view s) = callIDs s"
  "tools (view s) = tools s" "kept (view s) = kept s" "out (view s) = out s" "seen (view s) = seen s" "call (view s) = call s"
  "calls (view s) = calls s"
  by (simp_all add: view_def talk.defs)

lemma view_draw: "view (snd (draw g opts l s)) = snd (draw g opts l (view s))" "fst (draw g opts l s) = fst (draw g opts l (view s))"
  by (simp_all add: draw_def Let_def view_def talk.defs)

lemma view_emit_to: "view (fst (emit_to w p f s)) = fst (emit_to w p f (view s))" "snd (emit_to w p f s) = snd (emit_to w p f (view s))"
  by (simp_all add: emit_to_def view_def talk.defs split: prod.splits)

lemma view_remember: "view (remember g x s) = remember g x (view s)"
  by (simp add: remember_def Let_def view_def talk.defs)

lemma view_record_call: "view (record_call g s) = record_call g (view s)"
  by (simp add: record_call_def Let_def view_def talk.defs split: sum.splits)

lemma view_update:
  "view (s\<lparr>ids := a\<rparr>) = (view s)\<lparr>ids := a\<rparr>"
  "view (s\<lparr>calling := b\<rparr>) = (view s)\<lparr>calling := b\<rparr>"
  "view (s\<lparr>call := c\<rparr>) = (view s)\<lparr>call := c\<rparr>"
  "view (s\<lparr>callIDs := d\<rparr>) = (view s)\<lparr>callIDs := d\<rparr>"
  "view (s\<lparr>out := e\<rparr>) = (view s)\<lparr>out := e\<rparr>"
  "view (s\<lparr>hidden := h\<rparr>) = view s" "view (s\<lparr>ready := n\<rparr>) = view s" "view (s\<lparr>reply := k\<rparr>) = view s"
  by (simp_all add: view_def talk.defs)

lemma view_take_token:
  "view (fst (take_token g w x s)) = fst (take_token g w x (view s))"
  "snd (take_token g w x s) = snd (take_token g w x (view s))"
proof -
  define r where "r = remember g x (s\<lparr>ids := ids s @ [x]\<rparr>)"
  have r: "remember g x ((view s)\<lparr>ids := ids (view s) @ [x]\<rparr>) = view r"
    by (simp add: r_def view_remember view_update)
  show "view (fst (take_token g w x s)) = fst (take_token g w x (view s))"
    "snd (take_token g w x s) = snd (take_token g w x (view s))"
    unfolding take_token_def r r_def [symmetric] Let_def
    by (simp_all add: view_fields view_update view_record_call view_emit_to)
qed

lemma view_start_reply: "view (start_reply g opts s) = start_reply g opts (view s)"
  by (simp add: start_reply_def forget_def view_def talk.defs)

lemma view_reply_end: "view (reply_end g w s) = reply_end g w (view s)"
  by (simp add: reply_end_def view_update view_emit_to)

lemma view_parts [simp]:
  "view (fst (head m s)) = view s" "view (fst (reserve m need s)) = view s"
  "view (fst (eval_last m keep xs s)) = view s" "view (fst (eval_tail m keep xs n s)) = view s"
  by (simp_all add: view_def reserve_talk)

lemma view_draft: "draft (view s) n = draft s n"
  by (simp add: draft_def view_fields)

section \<open>Drafts\<close>

text \<open>Scaffolds that can be drafted: no end token in them, and short enough for one evaluation.\<close>

definition draftable :: "('f, 'r) generator \<Rightarrow> nat list \<Rightarrow> bool" where
  "draftable g xs \<longleftrightarrow> imEnd g \<notin> set xs \<and> endText g \<notin> set xs \<and> length xs < maxTail"

definition drafts_ok :: "('f, 'r) generator \<Rightarrow> toolDraft list \<Rightarrow> bool" where
  "drafts_ok g ts \<longleftrightarrow> list_all (\<lambda>t. draftable g (draft_scaffold t)) ts"

lemma draftable_take: "draftable g xs \<Longrightarrow> draftable g (take n xs)"
  by (auto simp: draftable_def dest: in_set_takeD)

lemma draftable_drop: "draftable g xs \<Longrightarrow> draftable g (drop n xs)"
  by (auto simp: draftable_def dest: in_set_dropD)

lemma draft_loop_draftable:
  "\<lbrakk>drafts_ok g ts; \<And>d'. d = Some d' \<Longrightarrow> draftable g d'; draft_loop written d ts = Some r\<rbrakk> \<Longrightarrow> draftable g r"
proof (induction ts arbitrary: d)
  case (Cons t ts)
  define rest where "rest = drop (length written) (draft_scaffold t)"
  define d2 where "d2 = (if length (draft_scaffold t) \<le> length written \<or> take (length written) (draft_scaffold t) \<noteq> written
    then d else Some (case d of None \<Rightarrow> rest | Some d' \<Rightarrow> take (common d' rest) d'))"
  have t: "draftable g rest" "drafts_ok g ts"
    using Cons.prems(1) by (simp_all add: drafts_ok_def rest_def draftable_drop)
  have "draftable g d'" if "d2 = Some d'" for d'
    using that t(1) Cons.prems(2) by (auto simp: d2_def draftable_take split: if_splits option.splits)
  moreover have "draft_loop written d2 ts = Some r"
    using Cons.prems(3) unfolding d2_def rest_def by (auto simp: Let_def split: if_splits)
  ultimately show ?case using Cons.IH t(2) by blast
qed simp

lemma draft_ok:
  assumes "drafts_ok g (tools s)"
  shows "draftable g (draft s n)" "length (draft s n) \<le> n - 1"
proof -
  have "draftable g d" if "draft_loop (callIDs s) None (tools s) = Some d" for d
    using draft_loop_draftable [OF assms _ that] by simp
  moreover have "draftable g []" by (simp add: draftable_def maxTail_def)
  ultimately show "draftable g (draft s n)" by (auto simp: draft_def draftable_take split: option.splits)
  show "length (draft s n) \<le> n - 1" by (auto simp: draft_def split: option.splits)
qed

text \<open>The tools a session offers stay.\<close>

lemma remember_tools [simp]: "tools (remember g x s) = tools s"
  by (simp add: remember_def Let_def)

lemma record_call_tools [simp]: "tools (record_call g s) = tools s"
  by (simp add: record_call_def Let_def split: sum.splits)

lemma emit_to_tools [simp]: "tools (fst (emit_to w p f s)) = tools s"
  by (simp add: emit_to_def split: prod.splits)

lemma take_token_tools [simp]: "tools (fst (take_token g w x s)) = tools s"
  by (simp add: take_token_def Let_def)

lemma draw_tools [simp]: "tools (snd (draw g opts l s)) = tools s"
  by (simp add: draw_def Let_def)

interpretation tl: decoding_invariant "\<lambda>s. tools s = ts" m g w
  by unfold_locales (simp_all add: head_def reserve_def eval_last_def eval_tail_def Let_def split: option.splits)

section \<open>The store holds what it should\<close>

definition steady :: "('h, 'f) lm \<Rightarrow> bool" where
  "steady m \<longleftrightarrow> lm_fails m = (\<lambda>_. False)"

definition holds_tokens :: "('h, 'f) lm \<Rightarrow> ('h, 'f, 'r) session \<Rightarrow> nat list \<Rightarrow> bool" where
  "holds_tokens m s xs \<longleftrightarrow> kv s \<noteq> None \<and> store_ok m s \<and> take (length xs) (kv_tokens s) = xs"

lemma common_ge: "\<lbrakk>take n xs = take n ys; n \<le> length xs; n \<le> length ys\<rbrakk> \<Longrightarrow> n \<le> common xs ys"
proof (induction xs ys arbitrary: n rule: common.induct)
  case (1 x xs y ys)
  then show ?case by (cases n) auto
qed auto

lemma reserve_steady:
  assumes "steady m" "store_ok m s" "1 \<le> need" "1 \<le> lm_limit m"
  shows "snd (reserve m need s)" "kv (fst (reserve m need s)) \<noteq> None"
    "min need (lm_limit m) \<le> kv_capacity (fst (reserve m need s))"
    "kv_tokens (fst (reserve m need s)) = kv_tokens s \<or>
     kv_tokens (fst (reserve m need s)) = take (common (ids s) (kv_tokens s)) (kv_tokens s)"
proof -
  have g: "need \<le> grow_capacity 512 need" by (rule grow_ge) simp
  have new: "NewPrefixKV m (tick s) (min (grow_capacity 512 need) (lm_limit m)) = Some \<lparr>tokens = [], capacity = min (grow_capacity 512 need) (lm_limit m)\<rparr>"
    using assms g by (simp add: NewPrefixKV_def steady_def)
  have "snd (reserve m need s) \<and> kv (fst (reserve m need s)) \<noteq> None \<and>
    min need (lm_limit m) \<le> kv_capacity (fst (reserve m need s)) \<and>
    (kv_tokens (fst (reserve m need s)) = kv_tokens s \<or>
     kv_tokens (fst (reserve m need s)) = take (common (ids s) (kv_tokens s)) (kv_tokens s))"
  proof (cases "kv s")
    case None
    then show ?thesis using g by (simp add: reserve_def new kv_capacity_def kv_tokens_def)
  next
    case (Some k)
    then have k: "kv_ok m k" using assms(2) by (simp add: store_ok_def)
    show ?thesis
    proof (cases "need \<le> capacity k")
      case True
      then show ?thesis using Some by (simp add: reserve_def kv_capacity_def)
    next
      case False
      from reserve_copies [OF k _ new, of "ids s"] False obtain k2 where
        "CopyPrefix \<lparr>tokens = [], capacity = min (grow_capacity 512 need) (lm_limit m)\<rparr> k (CommonPrefix k (ids s)) = Some k2"
        "tokens k2 = take (common (ids s) (tokens k)) (tokens k)" "capacity k2 = min (grow_capacity 512 need) (lm_limit m)" by auto
      then show ?thesis using False Some g by (simp add: reserve_def new kv_capacity_def kv_tokens_def)
    qed
  qed
  then show "snd (reserve m need s)" "kv (fst (reserve m need s)) \<noteq> None"
    "min need (lm_limit m) \<le> kv_capacity (fst (reserve m need s))"
    "kv_tokens (fst (reserve m need s)) = kv_tokens s \<or>
     kv_tokens (fst (reserve m need s)) = take (common (ids s) (kv_tokens s)) (kv_tokens s)" by blast+
qed

lemma reserve_holds:
  assumes "steady m" "holds_tokens m s xs" "take (length xs) (ids s) = xs" "1 \<le> need" "1 \<le> lm_limit m"
  shows "holds_tokens m (fst (reserve m need s)) xs"
proof -
  have s: "store_ok m s" "take (length xs) (kv_tokens s) = xs" using assms(2) by (simp_all add: holds_tokens_def)
  then have "length xs \<le> length (kv_tokens s)" "length xs \<le> length (ids s)" using assms(3) by (metis length_take min.cobounded1 nle_le)+
  then have "length xs \<le> common (ids s) (kv_tokens s)" using common_ge [of "length xs" "ids s" "kv_tokens s"] s assms(3) by simp
  then show ?thesis
    using reserve_steady [OF assms(1) s(1) assms(4,5)] reserve_store(1) [OF s(1)] s(2)
    by (auto simp: holds_tokens_def min_def)
qed

section \<open>One token\<close>

text \<open>The specification by cases of the token drawn.\<close>

abbreviation draw_at :: "('h, 'f) lm \<Rightarrow> ('f, 'r) generator \<Rightarrow> 'f options \<Rightarrow> 'r talk \<Rightarrow> nat \<times> 'r talk" where
  "draw_at m g opts t \<equiv> draw g opts (lm_logits m (lm_state m (ids t))) t"

lemma decode_end:
  "\<lbrakk>n < room; draw_at m g opts t = (x, t1); x = imEnd g \<or> x = endText g\<rbrakk> \<Longrightarrow> decode m g w opts room n t = (t1, None)"
  by (simp add: decode.simps [of m g w opts room n t])

lemma decode_take:
  assumes "n < room" "draw_at m g opts t = (x, t1)" "x \<noteq> imEnd g" "x \<noteq> endText g"
  shows "decode m g w opts room n t =
    (case snd (take_token g w x t1) of Some e \<Rightarrow> (fst (take_token g w x t1), Some e)
     | None \<Rightarrow> decode m g w opts room (Suc n) (fst (take_token g w x t1)))"
  using assms by (simp add: decode.simps [of m g w opts room n t] split: prod.splits option.splits)

text \<open>What is drawn next: at once from the state held, or while a draft was checked.\<close>

definition pending :: "('h, 'f) lm \<Rightarrow> ('f, 'r) generator \<Rightarrow> 'f options \<Rightarrow> nat option \<Rightarrow> ('h, 'f, 'r) session \<Rightarrow> 'r talk \<Rightarrow> bool" where
  "pending m g opts ahead s t \<longleftrightarrow>
     (case ahead of
        None \<Rightarrow> t = view s \<and> hidden s = lm_state m (ids s)
      | Some x \<Rightarrow> ids t = ids s \<and> draw_at m g opts t = (x, view s))"

lemma next_token_pending:
  assumes "steady m" "pending m g opts ahead s t"
  shows "\<exists>s1. next_token m g opts ahead s = (s1, Some (fst (draw_at m g opts t))) \<and>
    view s1 = snd (draw_at m g opts t) \<and> kv s1 = kv s \<and> tools s1 = tools s \<and> ids s1 = ids t"
proof (cases ahead)
  case None
  then have t: "t = view s" "hidden s = lm_state m (ids t)" using assms(2) by (auto simp: pending_def)
  define s0 where "s0 = fst (head m s)"
  have s0: "view s0 = t" "ids s0 = ids t" "kv s0 = kv s" "tools s0 = tools s"
    by (simp_all add: s0_def t, simp_all add: head_def)
  have "next_token m g opts ahead s = (snd (draw g opts (lm_logits m (hidden s)) s0), Some (fst (draw g opts (lm_logits m (hidden s)) s0)))"
    using assms(1) None by (simp add: next_token_def Let_def s0_def steady_def head_def)
  then show ?thesis using view_draw [of g opts _ s0] s0 t(2) by simp
next
  case (Some x)
  then show ?thesis using assms(2) by (auto simp: next_token_def pending_def)
qed

section \<open>A draft\<close>

lemma verify_loop_decode:
  assumes "list_all (\<lambda>x. x \<noteq> imEnd g \<and> x \<noteq> endText g) ds" "n + length ds < room"
    "hs = map (\<lambda>i. lm_state m (ids s @ take i ds)) [0..<Suc (length ds)]"
    "verify_loop m g w opts hs ds k s = (s', r)"
  shows "kv s' = kv s \<and>
    (case r of
       Inl e \<Rightarrow> decode m g w opts room n (view s) = (view s', Some e)
     | Inr (taken, x) \<Rightarrow> \<exists>j t. taken = k + j \<and> j \<le> length ds \<and> ids s' = ids s @ take j ds \<and>
         decode m g w opts room n (view s) = decode m g w opts room (n + j) t \<and> pending m g opts (Some x) s' t)"
  using assms
proof (induction ds arbitrary: n hs k s)
  case Nil
  define ds where "ds = draw g opts (lm_logits m (lm_state m (ids s))) s"
  have "s' = (snd ds)\<lparr>hidden := lm_state m (ids s)\<rparr>" "r = Inr (k, fst ds)"
    using Nil.prems by (auto simp: ds_def Let_def)
  moreover have "draw_at m g opts (view s) = (fst ds, view (snd ds))"
    by (simp add: ds_def view_draw prod_eq_iff)
  moreover have "kv (snd ds) = kv s" "ids (snd ds) = ids s" by (simp_all add: ds_def)
  ultimately show ?case
    by (auto simp: pending_def view_update intro!: exI [of _ "view s"])
next
  case (Cons d ds)
  define xs where "xs = draw g opts (lm_logits m (lm_state m (ids s))) s"
  define hs' where "hs' = map (\<lambda>i. lm_state m ((ids s @ [d]) @ take i ds)) [0..<Suc (length ds)]"
  have hs: "hs = lm_state m (ids s) # hs'"
    unfolding Cons.prems(3) hs'_def by (simp add: upt_conv_Cons map_Suc_upt [symmetric] del: upt_Suc)
  have at: "draw_at m g opts (view s) = (fst xs, view (snd xs))"
    by (simp add: xs_def view_draw prod_eq_iff)
  have kx: "kv (snd xs) = kv s" "ids (snd xs) = ids s" by (simp_all add: xs_def)
  show ?case
  proof (cases "fst xs = d")
    case False
    then have "s' = (snd xs)\<lparr>hidden := lm_state m (ids s)\<rparr>" "r = Inr (k, fst xs)"
      using Cons.prems(4) unfolding hs by (auto simp: xs_def Let_def)
    then show ?thesis using at kx
      by (auto simp: pending_def view_update intro!: exI [of _ "0::nat"] exI [of _ "view s"])
  next
    case True
    define s2 where "s2 = fst (take_token g w d (snd xs))"
    have v2: "fst (take_token g w d (view (snd xs))) = view s2"
      "snd (take_token g w d (view (snd xs))) = snd (take_token g w d (snd xs))"
      by (simp_all add: s2_def view_take_token)
    have k2: "kv s2 = kv s" "ids s2 = ids s @ [d]" by (simp_all add: s2_def kx)
    have dec: "decode m g w opts room n (view s) =
      (case snd (take_token g w d (snd xs)) of Some e \<Rightarrow> (view s2, Some e) | None \<Rightarrow> decode m g w opts room (Suc n) (view s2))"
      using decode_take [OF _ at [unfolded True], of n room w] Cons.prems(1,2) unfolding v2 by simp
    show ?thesis
    proof (cases "snd (take_token g w d (snd xs))")
      case (Some e)
      then have "s' = s2" "r = Inl e"
        using Cons.prems(4) True unfolding hs s2_def by (auto simp: xs_def [symmetric] Let_def split: prod.splits)
      then show ?thesis using dec Some k2 by simp
    next
      case None
      have v: "verify_loop m g w opts hs' ds (k + 1) s2 = (s', r)"
        using Cons.prems(4) True None unfolding hs s2_def by (auto simp: xs_def [symmetric] Let_def split: prod.splits)
      have "hs' = map (\<lambda>i. lm_state m (ids s2 @ take i ds)) [0..<Suc (length ds)]" by (simp add: hs'_def k2)
      from Cons.IH [OF _ _ this v, of "Suc n"] Cons.prems(1,2)
      have ih: "kv s' = kv s2 \<and> (case r of
        Inl e \<Rightarrow> decode m g w opts room (Suc n) (view s2) = (view s', Some e)
      | Inr (taken, x) \<Rightarrow> \<exists>j t. taken = k + 1 + j \<and> j \<le> length ds \<and> ids s' = ids s2 @ take j ds \<and>
         decode m g w opts room (Suc n) (view s2) = decode m g w opts room (Suc n + j) t \<and> pending m g opts (Some x) s' t)"
        by simp
      show ?thesis
      proof (cases r)
        case (Inl e)
        then show ?thesis using ih dec None k2 by simp
      next
        case (Inr p)
        then obtain j t where "fst p = k + 1 + j" "j \<le> length ds" "ids s' = ids s2 @ take j ds"
          "decode m g w opts room (Suc n) (view s2) = decode m g w opts room (Suc n + j) t" "pending m g opts (Some (snd p)) s' t"
          using ih by (auto split: prod.splits)
        then show ?thesis using ih dec None k2 Inr
          by (auto split: prod.splits intro!: exI [of _ "Suc j"] exI [of _ t])
      qed
    qed
  qed
qed

lemma verify_decode:
  assumes "steady m" "holds_tokens m s (butlast (ids s))" "ids s \<noteq> []" "draftable g ds" "n + length ds < room"
    and "length (ids s) + length ds \<le> kv_capacity s" and v: "verify m g w opts ds s = (s', r)"
  shows "case r of
      Inl e \<Rightarrow> decode m g w opts room n (view s) = (view s', Some e)
    | Inr (taken, x) \<Rightarrow> \<exists>t. decode m g w opts room n (view s) = decode m g w opts room (n + taken) t \<and>
        pending m g opts (Some x) s' t \<and> holds_tokens m s' (ids s') \<and> taken \<le> length ds \<and> length (ids s') = length (ids s) + taken"
proof -
  obtain k where k: "kv s = Some k" "kv_ok m k" "take (length (ids s) - 1) (tokens k) = butlast (ids s)"
    using assms(2) by (auto simp: holds_tokens_def store_ok_def kv_tokens_def)
  define k' where "k' = k\<lparr>tokens := ids s @ ds\<rparr>"
  have len: "length (ids s) - 1 \<le> length (tokens k)"
    using k(3) by (metis length_butlast length_take min.cobounded1 nle_le)
  have ext: "extend_kv m t k (length (ids s) - 1) (last (ids s) # ds) = (k', True)" for t
  proof -
    have "length (ids s) - 1 + length (last (ids s) # ds) = length (ids s) + length ds"
      using assms(3) by (cases "ids s") simp_all
    moreover have "butlast (ids s) @ last (ids s) # ds = ids s @ ds"
      using append_butlast_last_id [OF assms(3)] by (metis append_Cons append_Nil append_assoc)
    ultimately show ?thesis
      using assms(1,6) k len unfolding extend_kv_def k'_def steady_def kv_capacity_def
      by (simp del: length_Cons length_append butlast.simps)
  qed
  define hs where "hs = map (\<lambda>i. lm_state m (ids s @ take i ds)) [0..<Suc (length ds)]"
  have "[length (ids s @ ds) + 1 - Suc (length ds)..<length (ids s @ ds) + 1] = map (\<lambda>i. i + length (ids s)) [0..<Suc (length ds)]"
    by (simp add: map_add_upt add.commute del: upt_Suc)
  then have st: "map (\<lambda>i. lm_state m (take i (tokens k'))) [length (tokens k') + 1 - Suc (length ds)..<length (tokens k') + 1] = hs"
    by (simp add: hs_def k'_def comp_def del: upt_Suc)
  define s1 where "s1 = s\<lparr>kv := Some k', tick := tick s + 1\<rparr>"
  have tail: "extend_tail m (tick s) k (length (ids s) - 1) (last (ids s) # ds) (Suc (length ds)) = (k', Some hs)"
    unfolding extend_tail_def ext prod.case st using assms(4) by (simp add: draftable_def)
  have "eval_tail m (length (ids s) - 1) (last (ids s) # ds) (Suc (length ds)) s = (s1, Some hs)"
    unfolding eval_tail_def k(1) option.case tail Let_def s1_def by simp
  then have "verify m g w opts ds s = verify_loop m g w opts hs ds 0 (fst (head m s1))"
    using assms(1) by (simp add: verify_def Let_def head_def steady_def)
  moreover define s2 where "s2 = fst (head m s1)"
  ultimately have v2: "verify_loop m g w opts hs ds 0 s2 = (s', r)" using v by simp
  have s2: "view s2 = view s" "ids s2 = ids s" "kv s2 = Some k'"
    by (simp_all add: s2_def s1_def, simp add: view_def talk.defs)
  have ds: "list_all (\<lambda>x. x \<noteq> imEnd g \<and> x \<noteq> endText g) ds" using assms(4) by (auto simp: draftable_def list_all_iff)
  have "hs = map (\<lambda>i. lm_state m (ids s2 @ take i ds)) [0..<Suc (length ds)]" by (simp add: hs_def s2)
  note res = verify_loop_decode [OF ds assms(5) this v2]
  have kv': "kv s' = Some k'" "kv_ok m k'" using res s2 k assms(6) by (auto simp: k'_def kv_ok_def kv_capacity_def)
  show ?thesis
  proof (cases r)
    case (Inl e)
    then show ?thesis using res by (simp add: s2)
  next
    case (Inr p)
    then obtain j t where j: "fst p = j" "j \<le> length ds" "ids s' = ids s @ take j ds"
      "decode m g w opts room n (view s) = decode m g w opts room (n + j) t" "pending m g opts (Some (snd p)) s' t"
      using res by (auto simp: s2 split: prod.splits)
    then have "holds_tokens m s' (ids s')"
      using kv' by (simp add: holds_tokens_def store_ok_def kv_tokens_def k'_def)
    then show ?thesis using j Inr by (auto split: prod.splits)
  qed
qed

section \<open>The loop\<close>

lemma make_room_holds:
  assumes "steady m" "holds_tokens m s (butlast (ids s))" "length (ids s) + length d + 2 \<le> lm_limit m"
  shows "\<exists>s3. make_room m d s = (s3, True) \<and> view s3 = view s \<and> holds_tokens m s3 (butlast (ids s)) \<and>
    length (ids s) + length d + 2 \<le> kv_capacity s3"
proof (cases "kv_capacity s < length (ids s) + length d + 2")
  case True
  define need where "need = max (2 * kv_capacity s) (length (ids s) + length d + 2)"
  have n: "1 \<le> need" "1 \<le> lm_limit m" using assms(3) by (auto simp: need_def)
  have st: "store_ok m s" using assms(2) by (simp add: holds_tokens_def)
  have "holds_tokens m (fst (reserve m need s)) (butlast (ids s))"
    by (rule reserve_holds [OF assms(1,2) _ n]) (simp add: butlast_conv_take)
  moreover have "length (ids s) + length d + 2 \<le> kv_capacity (fst (reserve m need s))"
    using reserve_steady(3) [OF assms(1) st n] assms(3) by (simp add: need_def min_def max_def split: if_splits)
  ultimately show ?thesis
    using reserve_steady(1) [OF assms(1) st n] True
    unfolding make_room_def Let_def need_def [symmetric]
    by (intro exI [of _ "fst (reserve m need s)"]) (simp add: prod_eq_iff)
qed (use assms in \<open>simp add: make_room_def Let_def\<close>)

text \<open>The step after a token: its state from the store.\<close>

lemma eval_last_holds:
  assumes "steady m" "holds_tokens m s (butlast (ids s))" "ids s \<noteq> []" "length (ids s) \<le> kv_capacity s"
  shows "\<exists>s4. eval_last m (length (ids s) - 1) [last (ids s)] s = (s4, True) \<and> view s4 = view s \<and>
    holds_tokens m s4 (ids s) \<and> hidden s4 = lm_state m (ids s)"
proof -
  obtain k where k: "kv s = Some k" "kv_ok m k" "take (length (ids s) - 1) (tokens k) = butlast (ids s)"
    using assms(2) by (auto simp: holds_tokens_def store_ok_def kv_tokens_def)
  define k' where "k' = k\<lparr>tokens := ids s\<rparr>"
  have len: "length (ids s) - 1 \<le> length (tokens k)"
    using k(3) by (metis length_butlast length_take min.cobounded1 nle_le)
  have "extend_kv m (tick s) k (length (ids s) - 1) [last (ids s)] = (k', True)"
    using assms(1,3,4) k len by (cases "ids s") (auto simp: extend_kv_def k'_def steady_def kv_capacity_def append_butlast_last_id)
  then have "eval_last m (length (ids s) - 1) [last (ids s)] s = (s\<lparr>kv := Some k', tick := tick s + 1, hidden := lm_state m (ids s)\<rparr>, True)"
    unfolding eval_last_def k(1) option.case Let_def by (simp add: k'_def)
  moreover have "kv_ok m k'" using k(2) assms(4) by (simp add: k'_def kv_ok_def kv_capacity_def k(1))
  ultimately show ?thesis
    by (simp add: view_def talk.defs holds_tokens_def store_ok_def kv_tokens_def k'_def)
qed

text \<open>The loop body after a token was taken and the reply goes on.\<close>

definition go_on :: "('h, 'f) lm \<Rightarrow> ('f, 'r) generator \<Rightarrow> (nat \<Rightarrow> bool) \<Rightarrow> (nat \<Rightarrow> bool) \<Rightarrow> 'f options \<Rightarrow> nat \<Rightarrow> nat
    \<Rightarrow> ('h, 'f, 'r) session \<Rightarrow> ('h, 'f, 'r) session \<times> chat_error option" where
  "go_on m g w halt opts room n s =
     (let d = draft s (room - n - 1) in
      (case make_room m d s of
         (s3, ok) \<Rightarrow>
           if \<not> ok then (s3, Some ErrEval)
           else if d = [] then
             (case eval_last m (length (ids s3) - 1) [last (ids s3)] s3 of
                (s4, ok4) \<Rightarrow>
                  if \<not> ok4 then (s4, Some ErrEval)
                  else reply_loop m g w halt opts room (n + 1) None s4)
           else (case verify m g w opts d s3 of
                   (s4, Inl e) \<Rightarrow> (s4, Some e)
                 | (s4, Inr r) \<Rightarrow> reply_loop m g w halt opts room (n + fst r + 1) (Some (snd r)) s4)))"

lemma reply_loop_go_on:
  assumes "n < room" "next_token m g opts ahead s = (s1, Some x)" "x \<noteq> imEnd g" "x \<noteq> endText g"
  shows "reply_loop m g w halt opts room n ahead s =
    (let s2 = fst (take_token g w x s1); e = snd (take_token g w x s1) in
     if e \<noteq> None then (s2, e)
     else if Suc n = room then (s2, None)
     else if halt (tick s2) then (s2, Some ErrCanceled)
     else go_on m g w halt opts room n s2)"
proof -
  obtain s2 e where t: "take_token g w x s1 = (s2, e)" by force
  then show ?thesis
    using assms(1,3,4) unfolding reply_loop.simps [of m g w halt opts room n] assms(2) go_on_def t
    by (cases e) (simp_all add: Let_def t)
qed

text \<open>The result of the loop, as the specification has it.\<close>

definition seen_as :: "('h, 'f, 'r) session \<times> chat_error option \<Rightarrow> 'r talk \<times> chat_error option" where
  "seen_as r = (view (fst r), snd r)"

definition in_step :: "('h, 'f) lm \<Rightarrow> ('f, 'r) generator \<Rightarrow> 'f options \<Rightarrow> nat \<Rightarrow> nat \<Rightarrow> nat option \<Rightarrow> ('h, 'f, 'r) session \<Rightarrow> 'r talk \<Rightarrow> bool" where
  "in_step m g opts room n ahead s t \<longleftrightarrow>
     pending m g opts ahead s t \<and> holds_tokens m s (ids s) \<and> drafts_ok g (tools s) \<and>
     length (ids s) + (room - n) + 2 \<le> lm_limit m \<and> (ahead = None \<or> n < room)"

lemma go_on_decode:
  assumes steady: "steady m" and n: "Suc n < room" and h: "holds_tokens m s (butlast (ids s))" "ids s \<noteq> []" "drafts_ok g (tools s)"
    and lim: "length (ids s) + (room - Suc n) + 2 \<le> lm_limit m"
    and ih: "\<And>n' ahead s t. \<lbrakk>n < n'; in_step m g opts room n' ahead s t\<rbrakk> \<Longrightarrow>
        seen_as (reply_loop m g w halt opts room n' ahead s) = decode m g w opts room n' t"
  shows "seen_as (go_on m g w halt opts room n s) = decode m g w opts room (Suc n) (view s)"
proof -
  define d where "d = draft s (room - Suc n)"
  have d: "draftable g d" "length d \<le> room - Suc n - 1"
    using draft_ok [OF h(3), of "room - Suc n"] by (simp_all add: d_def)
  have l: "length (ids s) + length d + 2 \<le> lm_limit m" "Suc n + length d < room" using lim d(2) n by simp_all
  obtain s3 where s3: "make_room m d s = (s3, True)" "view s3 = view s" "holds_tokens m s3 (butlast (ids s))"
    "length (ids s) + length d + 2 \<le> kv_capacity s3"
    using make_room_holds [OF steady h(1) l(1)] by blast
  have i3: "ids s3 = ids s" "tools s3 = tools s" using s3(2) view_ids view_fields(5) by metis+
  show ?thesis
  proof (cases "d = []")
    case True
    have "holds_tokens m s3 (butlast (ids s3))" "ids s3 \<noteq> []" "length (ids s3) \<le> kv_capacity s3" using s3 h i3 by simp_all
    from eval_last_holds [OF steady this] obtain s4 where s4: "eval_last m (length (ids s3) - 1) [last (ids s3)] s3 = (s4, True)"
      "view s4 = view s" "holds_tokens m s4 (ids s)" "hidden s4 = lm_state m (ids s)" using i3 s3(2) by auto
    have i4: "ids s4 = ids s" "tools s4 = tools s" using s4(2) view_ids view_fields(5) by metis+
    have "in_step m g opts room (Suc n) None s4 (view s)"
      using s4 i4 h(3) lim by (simp add: in_step_def pending_def)
    from ih [OF _ this] show ?thesis
      using True s3(1) s4(1) by (simp add: go_on_def d_def [symmetric])
  next
    case False
    obtain s4 r where v: "verify m g w opts d s3 = (s4, r)" by force
    have "holds_tokens m s3 (butlast (ids s3))" "ids s3 \<noteq> []" "length (ids s3) + length d \<le> kv_capacity s3" using s3 h i3 by simp_all
    note res = verify_decode [OF steady this(1,2) d(1) l(2) this(3) v, unfolded s3(2)]
    have t4: "tools s4 = tools s" using tl.verified [OF i3(2), of m g w opts d] v by simp
    show ?thesis
    proof (cases r)
      case (Inl e)
      then show ?thesis using res False s3(1) v by (simp add: go_on_def d_def [symmetric] seen_as_def)
    next
      case (Inr p)
      then obtain t where t: "decode m g w opts room (Suc n) (view s) = decode m g w opts room (Suc n + fst p) t"
        "pending m g opts (Some (snd p)) s4 t" "holds_tokens m s4 (ids s4)" "fst p \<le> length d" "length (ids s4) = length (ids s) + fst p"
        using res i3 by (auto split: prod.splits)
      have "in_step m g opts room (Suc (n + fst p)) (Some (snd p)) s4 t"
        using t l lim h(3) t4 by (simp add: in_step_def)
      from ih [OF _ this] show ?thesis
        using Inr False s3(1) v t(1) by (simp add: go_on_def d_def [symmetric])
    qed
  qed
qed

lemma reply_loop_decode:
  assumes "steady m" "halt = (\<lambda>_. False)"
  shows "in_step m g opts room n ahead s t \<Longrightarrow>
    seen_as (reply_loop m g w halt opts room n ahead s) = decode m g w opts room n t"
proof (induction "room - n" arbitrary: n ahead s t rule: less_induct)
  case less
  have st: "pending m g opts ahead s t" "holds_tokens m s (ids s)" "drafts_ok g (tools s)"
    "length (ids s) + (room - n) + 2 \<le> lm_limit m" "ahead = None \<or> n < room"
    using less.prems by (simp_all add: in_step_def)
  show ?case
  proof (cases "room \<le> n")
    case True
    then show ?thesis
      using st(1,5) by (simp add: reply_loop.simps [of m g w halt opts room n] decode.simps [of m g w opts room n] pending_def seen_as_def)
  next
    case False
    then have n: "n < room" by simp
    obtain x t1 where at: "draw_at m g opts t = (x, t1)" by force
    obtain s1 where s1: "next_token m g opts ahead s = (s1, Some x)" "view s1 = t1" "kv s1 = kv s" "tools s1 = tools s" "ids s1 = ids t"
      using next_token_pending [OF assms(1) st(1)] at by auto
    have ids1: "ids s1 = ids s" using s1(5) st(1) by (auto simp: pending_def split: option.splits)
    define s2 where "s2 = fst (take_token g w x s1)"
    have v2: "fst (take_token g w x t1) = view s2" "snd (take_token g w x t1) = snd (take_token g w x s1)"
      using view_take_token [of g w x s1] s1(2) by (simp_all add: s2_def)
    have s2: "ids s2 = ids s @ [x]" "kv s2 = kv s" "tools s2 = tools s"
      by (simp_all add: s2_def ids1 s1)
    have h2: "holds_tokens m s2 (butlast (ids s2))" using st(2) s2 by (simp add: holds_tokens_def store_ok_def kv_tokens_def)
    show ?thesis
    proof (cases "x = imEnd g \<or> x = endText g")
      case True
      then show ?thesis
        using decode_end [OF n at True] n s1 by (simp add: reply_loop.simps [of m g w halt opts room n] seen_as_def)
    next
      case False
      then have dec: "decode m g w opts room n t =
        (case snd (take_token g w x s1) of Some e \<Rightarrow> (view s2, Some e) | None \<Rightarrow> decode m g w opts room (Suc n) (view s2))"
        using decode_take [OF n at, of w] unfolding v2 by simp
      have "seen_as (go_on m g w halt opts room n s2) = decode m g w opts room (Suc n) (view s2)" if "Suc n < room"
        using less.hyps that s2 st h2 by (intro go_on_decode [OF assms(1)]) auto
      moreover have "reply_loop m g w halt opts room n ahead s =
        (if snd (take_token g w x s1) \<noteq> None then (s2, snd (take_token g w x s1))
         else if Suc n = room then (s2, None) else go_on m g w halt opts room n s2)"
        using reply_loop_go_on [OF n s1(1)] False assms(2) by (simp add: Let_def s2_def)
      ultimately show ?thesis
        using dec n decode.simps [of m g w opts room "Suc n"] by (auto simp: seen_as_def split: option.splits)
    qed
  qed
qed

section \<open>A reply\<close>

lemma reply_eval_holds:
  assumes "steady m" "cache_ok m s" "kv s \<noteq> None" "ids s \<noteq> []" "length (ids s) \<le> kv_capacity s"
  shows "snd (reply_eval m s)" "view (fst (reply_eval m s)) = view s" "holds_tokens m (fst (reply_eval m s)) (ids s)"
    "hidden (fst (reply_eval m s)) = lm_state m (ids s)" "closed (fst (reply_eval m s)) = closed s"
proof -
  have st: "store_ok m s" using assms(2) by (simp add: cache_ok_def)
  have "snd (reply_eval m s) \<and> view (fst (reply_eval m s)) = view s \<and> holds_tokens m (fst (reply_eval m s)) (ids s) \<and>
    hidden (fst (reply_eval m s)) = lm_state m (ids s) \<and> closed (fst (reply_eval m s)) = closed s"
  proof (cases "is_ready s (ids s)")
    case True
    then show ?thesis using is_ready_state [OF assms(2) True assms(4)] assms(3) st by (simp add: reply_eval_def holds_tokens_def)
  next
    case False
    define keep where "keep = min (common (ids s) (kv_tokens s)) (length (ids s) - 1)"
    obtain k where k: "kv s = Some k" using assms(3) by auto
    have le: "keep \<le> length (tokens k)" "keep < length (ids s)"
      using common_le(2) [of "ids s" "tokens k"] assms(4) by (simp_all add: keep_def kv_tokens_def k min.coboundedI1 min.strict_coboundedI2)
    have same: "take keep (kv_tokens s) = take keep (ids s)"
      using take_common [of keep "ids s" "kv_tokens s"] by (simp add: keep_def)
    have ok: "snd (eval_last m keep (drop keep (ids s)) s)"
      using assms(1,5) le by (simp add: eval_last_def k Let_def extend_kv_def steady_def kv_capacity_def)
    have kv': "kv (fst (eval_last m keep (drop keep (ids s)) s)) \<noteq> None" by (simp add: eval_last_def k Let_def)
    have "reply_eval m s = eval_last m keep (drop keep (ids s)) s"
      using False unfolding reply_eval_def Let_def keep_def by simp
    then show ?thesis
      using ok eval_last_state [OF ok] same eval_last_store [OF st] kv' by (simp add: holds_tokens_def)
  qed
  then show "snd (reply_eval m s)" "view (fst (reply_eval m s)) = view s" "holds_tokens m (fst (reply_eval m s)) (ids s)"
    "hidden (fst (reply_eval m s)) = lm_state m (ids s)" "closed (fst (reply_eval m s)) = closed s" by blast+
qed

lemma end_reply_view:
  assumes "steady m" "store_ok m (fst r)" "1 \<le> lm_limit m"
  shows "seen_as (end_reply m g w r) =
    (reply_end g w (view (fst r)), if snd r = None then snd (emit_to w [] True (view (fst r))) else snd r)"
proof -
  define s2 where "s2 = reply_end g w (fst r)"
  have "store_ok m s2" using assms(2) by (simp add: s2_def reply_end_def store_ok_def)
  then have ok: "snd (reserve m (length (ids s2) + roomAhead) s2)"
    by (rule reserve_steady(1) [OF assms(1) _ _ assms(3)]) (simp add: roomAhead_def)
  obtain a b where ab: "emit_to w [] True (fst r) = (a, b)" by force
  have "ids a = ids (fst r)" using emit_to_ids [of w "[]" True "fst r"] ab by simp
  then have s2: "a\<lparr>ids := ids a @ imEnd g # newline g\<rparr> = s2" by (simp add: s2_def reply_end_def ab)
  have "snd (end_reply m g w r) = (if snd r = None then b else snd r)"
    unfolding end_reply_def ab prod.case Let_def s2
    using ok by (cases "reserve m (length (ids s2) + roomAhead) s2") simp
  moreover have "b = snd (emit_to w [] True (view (fst r)))" using ab by (metis snd_conv view_emit_to(2))
  moreover have "view (fst (end_reply m g w r)) = reply_end g w (view (fst r))"
    by (simp add: end_reply_fst Let_def view_reply_end)
  ultimately show ?thesis by (simp add: seen_as_def)
qed

lemma Reply_refines_cached:
  assumes steady: "steady m" and halt: "halt = (\<lambda>_. False)" and c: "cache_ok m s" "\<not> closed s" "\<not> gclosed g"
    and tools: "drafts_ok g (tools s)" and ans: "answer g \<noteq> []"
    and room: "0 < reply_room m opts (length (ids s) + length (answer g))"
  shows "seen_as (Reply m g w halt opts s) = reply_spec m g w opts (view s)"
proof -
  define s1 where "s1 = reply_begin g s"
  define rm where "rm = reply_room m opts (length (ids s1))"
  define s2 where "s2 = reserve m (length (ids s1) + min (nat rm) 256 + 2) s1"
  define ev where "ev = reply_eval m (fst s2)"
  define s3 where "s3 = start_reply g opts ((fst ev)\<lparr>ready := 0\<rparr>)"
  have i1: "ids s1 = ids s @ answer g" "view s1 = (view s)\<lparr>ids := ids s @ answer g, out := []\<rparr>" "ids s1 \<noteq> []"
    using ans by (simp_all add: s1_def reply_begin_def view_update)
  have rm: "0 < rm" "int (length (ids s1)) + rm + 2 \<le> int (lm_limit m)"
    using room i1 by (auto simp: rm_def reply_room_def Let_def split: if_splits)
  have c1: "cache_ok m s1" unfolding s1_def using c(1) by (rule reply_begin_cache_ok)
  then have st: "store_ok m s1" by (simp add: cache_ok_def)
  have lim: "1 \<le> lm_limit m" using rm by simp
  note rs = reserve_steady [OF steady st _ lim, of "length (ids s1) + min (nat rm) 256 + 2"]
  have cap: "length (ids (fst s2)) \<le> kv_capacity (fst s2)"
    using rs(3) rm by (simp add: s2_def reserve_talk)
  have i2: "ids (fst s2) = ids s1" "view (fst s2) = view s1" by (simp_all add: s2_def reserve_talk)
  have c2: "cache_ok m (fst s2)" unfolding s2_def using c1 by (rule reserve_cache_ok)
  have "kv (fst s2) \<noteq> None" "snd s2" using rs(1,2) by (simp_all add: s2_def)
  note re = reply_eval_holds [OF steady c2 this(1) _ cap, folded ev_def, unfolded i2]
  have v3: "view s3 = start_reply g opts (view s1)"
    using re(2) i1(3) by (simp add: s3_def view_start_reply view_update)
  have i3: "ids s3 = ids s1" "tools s3 = tools s"
    using v3 view_ids [of s3] view_fields(5) [of s3] i1(1,2) by (simp_all add: start_reply_def forget_def view_fields)
  have "in_step m g opts (nat rm) 0 None s3 (view s3)"
    using re i1(3) i3 tools rm by (simp add: in_step_def pending_def s3_def holds_tokens_def store_ok_def kv_tokens_def)
  note loop = reply_loop_decode [OF steady halt this, of w]
  have "decoding_ok m s3"
    using reply_eval_decoding [OF c2] by (simp add: s3_def ev_def decoding_ok_def store_ok_def)
  then have "store_ok m (fst (reply_loop m g w halt opts (nat rm) 0 None s3))"
    using dc.replied by (metis decoding_ok_def)
  note fin = end_reply_view [OF steady this lim, of g w]
  have "Reply m g w halt opts s = end_reply m g w (reply_loop m g w halt opts (nat rm) 0 None s3)"
    using c rm(1) \<open>snd s2\<close> re(1) i1(3) by (subst Reply_parts [OF _ _ s1_def rm_def s2_def ev_def s3_def]) simp_all
  moreover have "reply_spec m g w opts (view s) =
      (let r = decode m g w opts (nat rm) 0 (view s3)
       in (reply_end g w (fst r), if snd r = None then snd (emit_to w [] True (fst r)) else snd r))"
    by (simp add: reply_spec_def Let_def v3 i1 rm_def)
  ultimately show ?thesis
    using fin loop by (simp add: Let_def seen_as_def prod_eq_iff)
qed

section \<open>Replies are what the model says\<close>

text \<open>The same model with faults: evaluations that fail, and what they leave.\<close>

definition with_faults :: "('h, 'f) lm \<Rightarrow> (nat \<Rightarrow> bool) \<Rightarrow> (nat \<Rightarrow> nat) \<Rightarrow> 'h \<Rightarrow> ('h, 'f) lm" where
  "with_faults m fails left broken = m\<lparr>lm_fails := fails, lm_left := left, lm_broken := broken\<rparr>"

lemma cache_ok_with_faults: "cache_ok (with_faults m fails left broken) s = cache_ok m s"
  by (simp add: cache_ok_def store_ok_def state_ok_def kv_ok_def with_faults_def split: option.splits)

lemma reached_cache_ok: "reached m g s \<Longrightarrow> cache_ok m s"
proof (induction rule: reached.induct)
  case (step s op)
  from step.IH show ?case by (rule step_cache_ok)
qed (rule NewSession_cache_ok)

text \<open>Judging and prefilling leave the conversation alone.\<close>

definition unseen :: "('h, 'f, 'r) session \<Rightarrow> ('h, 'f, 'r) session \<Rightarrow> bool" where
  "unseen s s' \<longleftrightarrow> view s' = view s \<and> closed s' = closed s"

lemma unseen_parts:
  "reserve m need s = (s', b) \<Longrightarrow> unseen s s'" "eval_last m keep xs s = (s', b) \<Longrightarrow> unseen s s'"
  "eval_tail m keep xs n s = (s', st) \<Longrightarrow> unseen s s'" "judge m g states c s = (s', p) \<Longrightarrow> unseen s s'"
  using view_parts(2) [of m need s] reserve_talk(5) [of m need s] view_parts(3) [of m keep xs s] eval_last_fields(4) [of m keep xs s]
    view_parts(4) [of m keep xs n s] eval_tail_fields(4) [of m keep xs n s] judge_fields(6,7) [of m g states c s]
  by (auto simp: unseen_def view_def)

lemma unseen_update [simp]:
  "unseen s (s'\<lparr>ready := k\<rparr>) = unseen s s'" "unseen s (s'\<lparr>finished := f\<rparr>) = unseen s s'" "unseen s (s'\<lparr>hidden := h\<rparr>) = unseen s s'"
  "unseen (s\<lparr>ready := k\<rparr>) s' = unseen s s'" "unseen (s\<lparr>hidden := h\<rparr>) s' = unseen s s'"
  by (simp_all add: unseen_def view_def talk.defs)

lemma unseen_refl [simp]: "unseen s s"
  by (simp add: unseen_def)

lemma unseen_trans: "unseen s s1 \<Longrightarrow> unseen s1 s2 \<Longrightarrow> unseen s s2"
  by (simp add: unseen_def)

lemma Finished_unseen: "unseen s (fst (Finished m g halt role msg s))"
  unfolding Finished_def Let_def
  by (auto split: option.splits prod.splits dest!: unseen_parts intro: unseen_trans)

lemma Prefill_unseen: "unseen s (fst (Prefill m g halt s))"
  unfolding Prefill_def Let_def
  by (auto split: prod.splits dest!: unseen_parts intro: unseen_trans)

text \<open>
  C1: A reply is what the model says, token by token: whatever was done with the session before
  (judging, prefilling, truncating, restoring, replies, evaluations that failed), a reply whose
  own evaluations succeed writes, keeps and calls exactly what drawing one token at a time from
  the model's state after the whole conversation gives, and ends with the same error, a writer's
  included.  The store of evaluated tokens, the state kept by a judged message and the drafts of
  tool calls are not to be seen.  The scaffolds of the tools hold no end token and fit one
  evaluation.
\<close>

theorem Reply_refines:
  assumes "reached (with_faults m fails left broken) g s" and "steady m" and "\<not> closed s" and "\<not> gclosed g"
    and "drafts_ok g (tools s)" and "answer g \<noteq> []" and "0 < reply_room m opts (length (ids s) + length (answer g))"
  shows "seen_as (Reply m g w (\<lambda>_. False) opts s) = reply_spec m g w opts (view s)"
  using reached_cache_ok [OF assms(1)] assms(2-) unfolding cache_ok_with_faults
  by (intro Reply_refines_cached) auto

definition greedy :: "int options" where
  "greedy = \<lparr>MaxTokens = 0, Temperature = 0, TopK = 0, TopP = 0, Presence = 0, Seed = 0\<rparr>"

theorem Reply_refines_witness:
  "seen_as (Reply echo_lm echo_generator (\<lambda>_. False) (\<lambda>_. False) greedy echo_judged) =
     reply_spec echo_lm echo_generator (\<lambda>_. False) greedy (view echo_judged)"
proof -
  have "with_faults echo_lm (\<lambda>_. False) (\<lambda>_. 0) [] = echo_lm" by (simp add: with_faults_def echo_lm_def)
  moreover have "reached echo_lm echo_generator echo_judged"
    unfolding echo_judged_def by (rule reached.step [OF echo_reached])
  moreover have "unseen echo_session echo_judged" by (simp add: echo_judged_def Finished_unseen)
  ultimately show ?thesis
    using Reply_refines [of echo_lm "\<lambda>_. False" "\<lambda>_. 0" "[]" echo_generator echo_judged greedy "\<lambda>_. False"]
      view_ids [of echo_judged] view_fields(5) [of echo_judged]
    by (simp add: unseen_def steady_def drafts_ok_def echo_session_def empty_session_def view_fields,
      simp add: echo_lm_def echo_generator_def greedy_def reply_room_def)
qed

lemma view_Add: "view (fst (Add g role msg s)) = (if closed s \<or> ToolResult < role then view s else
    case encode g msg of None \<Rightarrow> view s | Some body \<Rightarrow>
      (view s)\<lparr>ids := ids (view s) @ header g ! role @ body @ (if role = ToolResult then resultEnd g else []) @ imEnd g # newline g\<rparr>)"
  by (simp add: Add_def view_update split: option.splits)

text \<open>
  C17: Speculation is not to be seen.  A guess at the user's message judged, added, prefilled and
  dropped again with \<open>Restore\<close>, whatever evaluations failed meanwhile, leaves the conversation's
  next reply exactly as it would have been: the same text, the same calls, the same tokens kept,
  the same error.
\<close>

theorem speculation_unseen:
  assumes "reached (with_faults m fails left broken) g s" and "steady m" and "\<not> closed s" and "\<not> gclosed g"
    and "drafts_ok g (tools s)" and "answer g \<noteq> []" and "0 < reply_room m opts (length (ids s) + length (answer g))"
  shows "seen_as (Reply m g w (\<lambda>_. False) opts
      (fst (Restore (Checkpoint s) (fst (Prefill (with_faults m fails left broken) g halt
         (fst (Add g role guess (fst (Finished (with_faults m fails left broken) g halt role guess s)))))))))
    = seen_as (Reply m g w (\<lambda>_. False) opts s)"
proof -
  let ?m = "with_faults m fails left broken"
  define s1 where "s1 = fst (Finished ?m g halt role guess s)"
  define s2 where "s2 = fst (Add g role guess s1)"
  define s3 where "s3 = fst (Prefill ?m g halt s2)"
  define s4 where "s4 = fst (Restore (Checkpoint s) s3)"
  have v1: "view s1 = view s" "closed s1 = closed s" using Finished_unseen [of s ?m g halt role guess] by (simp_all add: unseen_def s1_def)
  have c2: "closed s2 = closed s" using v1 by (simp add: s2_def Add_def split: option.splits)
  obtain b where v2: "view s2 = (view s)\<lparr>ids := ids s @ b\<rparr>"
    using view_Add [of g role guess s1] v1 that by (cases "encode g guess") (auto simp: s2_def view_def talk.defs split: if_splits)
  have v3: "view s3 = view s2" "closed s3 = closed s" using Prefill_unseen [of s2 ?m g halt] c2 by (simp_all add: unseen_def s3_def)
  have i3: "ids s3 = ids s @ b" using v3(1) v2 view_ids [of s3] by simp
  have v4: "view s4 = view s" "closed s4 = closed s"
    using v3 v2 i3 assms(3) by (simp_all add: s4_def Restore_def Checkpoint_def view_update)
  have r: "reached ?m g s4"
    using reached.step [OF reached.step [OF reached.step [OF reached.step [OF assms(1), of "OpFinished halt role guess"], of "OpAdd role guess"],
        of "OpPrefill halt"], of "OpRestore (Checkpoint s)"]
    by (simp add: s4_def s3_def s2_def s1_def)
  have i4: "ids s4 = ids s" "tools s4 = tools s" using v4(1) view_ids view_fields(5) by metis+
  have "cache_ok m s4" "cache_ok m s"
    using reached_cache_ok [OF r] reached_cache_ok [OF assms(1)] by (simp_all add: cache_ok_with_faults)
  then have "seen_as (Reply m g w (\<lambda>_. False) opts s4) = seen_as (Reply m g w (\<lambda>_. False) opts s)"
    using assms v4 i4 by (simp add: Reply_refines_cached [OF assms(2) refl])
  then show ?thesis by (simp add: s4_def s3_def s2_def s1_def)
qed

theorem speculation_unseen_witness:
  "seen_as (Reply echo_lm echo_generator (\<lambda>_. False) (\<lambda>_. False) greedy
      (fst (Restore (Checkpoint echo_session) (fst (Prefill (with_faults echo_lm (\<lambda>n. n = 2) (\<lambda>_. 0) []) echo_generator (\<lambda>_. False)
         (fst (Add echo_generator User ''hi'' (fst (Finished (with_faults echo_lm (\<lambda>n. n = 2) (\<lambda>_. 0) []) echo_generator (\<lambda>_. False) User ''hi'' echo_session)))))))))
    = seen_as (Reply echo_lm echo_generator (\<lambda>_. False) (\<lambda>_. False) greedy echo_session)"
proof (rule speculation_unseen)
  show "reached (with_faults echo_lm (\<lambda>n. n = 2) (\<lambda>_. 0) []) echo_generator echo_session"
    by (rule reached.start [of _ "\<lambda>_. None" "\<lambda>_. None" "\<lambda>_. None" "[]" 0 0 "[]" "[]"])
      (simp add: NewSession_def echo_session_def empty_session_def)
qed (simp_all add: steady_def drafts_ok_def echo_session_def empty_session_def echo_lm_def echo_generator_def greedy_def reply_room_def)

section \<open>A judgement that failed\<close>

text \<open>
  \<open>Finished\<close> marks the message as judged before the head gives its probability.  When the head fails,
  the call returns the error, but judging the same message again returns, without an error, the
  probability of whatever was judged before.
\<close>

definition sure_lm :: "(nat list, int) lm" where
  "sure_lm = echo_lm\<lparr>lm_prob := (\<lambda>_ _. 1), lm_fails := (\<lambda>n. n = 2)\<rparr>"


end
