(* ===== verification/Chat_Edits.thy ===== *)
theory Chat_Edits
  imports Chat_Cache
begin

text \<open>
  What a session hands to its writer, what \<open>Truncate\<close> leaves of a reply, and the loop of
  \<^verbatim>\<open>src/chat/chat.go\<close> that answers with tools (\<open>Answer\<close>, \<open>Run\<close>).
\<close>

section \<open>Whole runes to the writer\<close>

text \<open>The writes and the kept text after some pieces.\<close>

fun emits :: "string list \<Rightarrow> string \<Rightarrow> string list \<times> string" where
  "emits [] k = ([], k)"
| "emits (p # ps) k = (fst (emit k p False) @ fst (emits ps (snd (emit k p False))), snd (emits ps (snd (emit k p False))))"

lemma emits_snoc:
  "emits (ps @ [p]) k = (fst (emits ps k) @ fst (emit (snd (emits ps k)) p False), snd (emit (snd (emits ps k)) p False))"
  by (induction ps arbitrary: k) simp_all

lemma emit_all_emits: "emit_all k ps = fst (emits ps k) @ fst (emit (snd (emits ps k)) [] True)"
  by (induction ps arbitrary: k) (simp_all split: prod.splits)

lemma emit_concat: "concat (fst (emit k p flush)) @ snd (emit k p flush) = k @ p"
  by (auto simp: emit_def Let_def simp del: take_append drop_append)

lemma emit_flush: "concat (fst (emit k [] True)) = k"
  by (simp add: emit_def Let_def)

lemma concat_emit_all: "concat (emit_all k ps) = k @ concat ps"
proof (induction ps arbitrary: k)
  case Nil
  then show ?case by (simp add: emit_flush)
next
  case (Cons p ps)
  obtain ws k' where e: "emit k p False = (ws, k')" by force
  have "concat ws @ k' = k @ p" using emit_concat [of k p False] e by simp
  then show ?case using Cons [of k'] e by simp
qed

definition emitted :: "('r, 'z) talk_scheme \<Rightarrow> bool" where
  "emitted s \<longleftrightarrow> (\<exists>ps. (out s, kept s) = emits ps [])"

lemma remember_out [simp]: "out (remember g x s) = out s" "kept (remember g x s) = kept s"
  by (simp_all add: remember_def Let_def)

lemma record_call_out [simp]: "out (record_call g s) = out s" "kept (record_call g s) = kept s"
  by (simp_all add: record_call_def Let_def split: sum.splits)

lemma emit_to_emitted: "emitted s \<Longrightarrow> emitted (fst (emit_to w p False s))"
proof -
  assume "emitted s"
  then obtain ps where ps: "emits ps [] = (out s, kept s)" by (auto simp: emitted_def)
  have "emits (ps @ [p]) [] = (out (fst (emit_to w p False s)), kept (fst (emit_to w p False s)))"
    by (simp add: emits_snoc ps emit_to_def split: prod.splits)
  then show ?thesis unfolding emitted_def by metis
qed

lemma emitted_cong: "out s = out s' \<Longrightarrow> kept s = kept s' \<Longrightarrow> emitted s = emitted s'"
  by (simp add: emitted_def)

lemma take_token_emitted:
  assumes "emitted s"
  shows "emitted (fst (take_token g w x s))"
proof -
  define r where "r = remember g x (s\<lparr>ids := ids s @ [x]\<rparr>)"
  have r: "emitted r" using assms by (simp add: r_def emitted_def)
  then have "emitted (r\<lparr>calling := True, call := [], callIDs := []\<rparr>)" "emitted (record_call g (r\<lparr>calling := False\<rparr>))"
    "emitted (r\<lparr>call := c, callIDs := d\<rparr>)" for c d
    by (simp_all add: emitted_def)
  then show ?thesis
    using r emit_to_emitted [OF r] by (simp add: take_token_def r_def [symmetric] Let_def)
qed

interpretation em: decoding_invariant emitted m g w for m :: "('h, 'f) lm" and g :: "('f, 'r) generator" and w
proof
  fix s :: "('h, 'f, 'r) session"
  assume e: "emitted s"
  show "emitted (fst (take_token g w x s))" for x using e by (rule take_token_emitted)
  show "emitted (snd (draw g opts l s))" for opts l using e by (simp add: draw_def emitted_def Let_def)
  show "emitted (fst (head m s))" using e by (simp add: head_def emitted_def)
  show "emitted (fst (reserve m need s))" for need using e by (simp add: reserve_def emitted_def split: option.splits)
  show "emitted (fst (eval_last m keep xs s))" for keep xs using e by (simp add: eval_last_def emitted_def Let_def split: option.splits)
  show "emitted (fst (eval_tail m keep xs n s))" for keep xs n using e by (simp add: eval_tail_def emitted_def Let_def split: option.splits)
  show "emitted (s\<lparr>hidden := h\<rparr>)" for h using e by (simp add: emitted_def)
qed

lemma reserve_out: "out (fst (reserve m need s)) = out s"
  by (simp add: reserve_def split: option.splits)

lemma eval_last_out: "out (fst (eval_last m keep xs s)) = out s"
  by (simp add: eval_last_def Let_def split: option.splits)

lemma end_reply_out: "out (fst (end_reply m g w r)) = out (fst r) @ fst (emit (kept (fst r)) [] True)"
  by (simp add: end_reply_fst Let_def reserve_out reply_end_def emit_to_def split: prod.splits)

text \<open>Everything a reply wrote is the pieces of some tokens, passed through \<open>emit\<close> and flushed.\<close>

lemma Reply_out:
  assumes "\<not> closed s" "\<not> gclosed g"
  shows "\<exists>ps. out (fst (Reply m g w halt opts s)) = emit_all [] ps"
proof -
  define s1 where "s1 = reply_begin g s"
  define room where "room = reply_room m opts (length (ids s1))"
  define s2 where "s2 = reserve m (length (ids s1) + min (nat room) 256 + 2) s1"
  define ev where "ev = reply_eval m (fst s2)"
  define s3 where "s3 = start_reply g opts ((fst ev)\<lparr>ready := 0\<rparr>)"
  have o1: "out s1 = []" "out (fst s2) = []" by (simp_all add: s2_def reserve_out s1_def reply_begin_def)
  then have oev: "out (fst ev) = []" by (simp add: ev_def reply_eval_def Let_def eval_last_out)
  then have "emits [] [] = (out s3, kept s3)" by (simp add: s3_def start_reply_def forget_def)
  then have "emitted s3" unfolding emitted_def by metis
  then have "emitted (fst (reply_loop m g w halt opts (nat room) 0 None s3))" by (rule em.replied)
  then obtain ps where "emits ps [] = (out (fst (reply_loop m g w halt opts (nat room) 0 None s3)), kept (fst (reply_loop m g w halt opts (nat room) 0 None s3)))"
    by (auto simp: emitted_def)
  then have "out (fst (end_reply m g w (reply_loop m g w halt opts (nat room) 0 None s3))) = emit_all [] ps"
    by (simp add: end_reply_out emit_all_emits)
  moreover have "\<exists>ps. [] = emit_all [] ps" by (rule exI [of _ "[]"]) (simp add: emit_def)
  ultimately show ?thesis
    using assms o1 oev by (subst Reply_parts [OF _ _ s1_def room_def s2_def ev_def s3_def]) (auto split: if_splits)
qed

lemma Reply_whole_runes:
  assumes "\<not> closed s" "\<not> gclosed g" "utf8_Valid (concat (out (fst (Reply m g w halt opts s))))"
  shows "list_all utf8_Valid (out (fst (Reply m g w halt opts s)))"
proof -
  obtain ps where ps: "out (fst (Reply m g w halt opts s)) = emit_all [] ps" using Reply_out [OF assms(1,2)] by blast
  then have "utf8_Valid (concat ps)" using assms(3) by (simp add: concat_emit_all)
  from emit_whole_runes [OF this] ps show ?thesis by simp
qed

section \<open>What Truncate leaves\<close>

definition bytes :: "('f, 'r) generator \<Rightarrow> nat list \<Rightarrow> int" where
  "bytes g xs = int (length (concat (map (piece g) xs)))"

lemma fitting_le: "fitting g n xs sz \<le> length xs"
  by (induction xs arbitrary: sz) (simp_all add: Let_def)

lemma bytes_simps [simp]: "bytes g [] = 0" "bytes g (x # xs) = int (length (piece g x)) + bytes g xs" "0 \<le> bytes g xs"
  by (simp_all add: bytes_def)

lemma fitting_fits: "sz \<le> n \<Longrightarrow> sz + bytes g (take (fitting g n xs sz) xs) \<le> n"
proof (induction xs arbitrary: sz)
  case (Cons x xs)
  show ?case using Cons.prems Cons.IH [of "sz + int (length (piece g x))"] by (auto simp: Let_def)
qed simp

lemma fitting_all: "sz + bytes g xs \<le> n \<Longrightarrow> fitting g n xs sz = length xs"
proof (induction xs arbitrary: sz)
  case (Cons x xs)
  then show ?case
    using Cons.IH [of "sz + int (length (piece g x))"] bytes_simps(3) [of g xs] by (simp add: Let_def del: bytes_simps(3))
qed simp

lemma fitting_longest: "fitting g n xs sz < length xs \<Longrightarrow> n < sz + bytes g (take (Suc (fitting g n xs sz)) xs)"
proof (induction xs arbitrary: sz)
  case (Cons x xs)
  show ?case using Cons.prems Cons.IH [of "sz + int (length (piece g x))"] by (simp add: Let_def split: if_splits)
qed simp



section \<open>Answering with tools\<close>

record tool =
  tool_name :: string
  tool_call :: "string \<Rightarrow> string + string"

definition Run :: "tool list \<Rightarrow> Call \<Rightarrow> string" where
  "Run ts c =
     (case find (\<lambda>t. tool_name t = Call_Name c) ts of
        None \<Rightarrow> ''error: there is no tool '' @ Call_Name c
      | Some t \<Rightarrow> (case tool_call t (Call_Arguments c) of Inl e \<Rightarrow> ''error: '' @ e | Inr r \<Rightarrow> r))"

fun add_results :: "('f, 'r) generator \<Rightarrow> tool list \<Rightarrow> Call list \<Rightarrow> ('h, 'f, 'r) session \<Rightarrow> ('h, 'f, 'r) session \<times> chat_error option" where
  "add_results g ts [] s = (s, None)"
| "add_results g ts (c # cs) s =
     (case Add g ToolResult (Run ts c) s of
        (s', Some e) \<Rightarrow> (s', Some e)
      | (s', None) \<Rightarrow> add_results g ts cs s')"

text \<open>The loop of \<open>Answer\<close> from a round on, with the replies made so far counted.\<close>

function answer_loop :: "('h, 'f) lm \<Rightarrow> ('f, 'r) generator \<Rightarrow> (nat \<Rightarrow> bool) \<Rightarrow> (nat \<Rightarrow> bool) \<Rightarrow> 'f options \<Rightarrow> tool list \<Rightarrow> int \<Rightarrow> nat
    \<Rightarrow> ('h, 'f, 'r) session \<Rightarrow> ('h, 'f, 'r) session \<times> chat_error option \<times> nat" where
  "answer_loop m g w halt opts ts rounds round s =
     (case Reply m g w halt opts s of
        (s1, Some e) \<Rightarrow> (s1, Some e, round + 1)
      | (s1, None) \<Rightarrow>
          if calls s1 = [] \<or> rounds \<le> int round + 1 then (s1, None, round + 1)
          else case add_results g ts (calls s1) s1 of
            (s2, Some e) \<Rightarrow> (s2, Some e, round + 1)
          | (s2, None) \<Rightarrow> answer_loop m g w halt opts ts rounds (round + 1) s2)"
  by pat_completeness auto
termination
  by (relation "measure (\<lambda>(m, g, w, halt, opts, ts, rounds, round, s). nat (rounds - int round))") auto

declare answer_loop.simps [simp del]

definition Answer :: "('h, 'f) lm \<Rightarrow> ('f, 'r) generator \<Rightarrow> (nat \<Rightarrow> bool) \<Rightarrow> (nat \<Rightarrow> bool) \<Rightarrow> 'f options \<Rightarrow> tool list \<Rightarrow> int
    \<Rightarrow> ('h, 'f, 'r) session \<Rightarrow> ('h, 'f, 'r) session \<times> chat_error option" where
  "Answer m g w halt opts ts rounds s =
     (case answer_loop m g w halt opts ts rounds 0 s of (s', e, _) \<Rightarrow> (s', e))"

lemma add_results_ids:
  assumes "add_results g ts cs s = (s', None)"
  shows "\<exists>rs. list_all2 (\<lambda>c r. encode g (Run ts c) = Some r) cs rs \<and>
    ids s' = ids s @ concat (map (\<lambda>r. header g ! ToolResult @ r @ resultEnd g @ imEnd g # newline g) rs)"
  using assms
proof (induction cs arbitrary: s)
  case (Cons c cs)
  then obtain s1 where s1: "Add g ToolResult (Run ts c) s = (s1, None)" "add_results g ts cs s1 = (s', None)"
    by (auto split: prod.splits option.splits)
  then obtain r where r: "encode g (Run ts c) = Some r" "ids s1 = ids s @ header g ! ToolResult @ r @ resultEnd g @ imEnd g # newline g"
    by (auto simp: Add_def split: if_splits option.splits)
  from Cons.IH [OF s1(2)] obtain rs where "list_all2 (\<lambda>c r. encode g (Run ts c) = Some r) cs rs"
    "ids s' = ids s1 @ concat (map (\<lambda>r. header g ! ToolResult @ r @ resultEnd g @ imEnd g # newline g) rs)" by blast
  with r show ?case by (intro exI [of _ "r # rs"]) simp
qed simp

lemma answer_loop_rounds:
  "answer_loop m g w halt opts ts rounds round s = (s', e, n) \<Longrightarrow>
   round < n \<and> int n \<le> max (int round + 1) rounds \<and> (e = None \<longrightarrow> calls s' = [] \<or> rounds \<le> int n)"
proof (induction m g w halt opts ts rounds round s rule: answer_loop.induct)
  case (1 m g w halt opts ts rounds round s)
  show ?case
    using "1.prems" "1.IH" unfolding answer_loop.simps [of m g w halt opts ts rounds round s]
    by (auto split: prod.splits option.splits if_splits) (metis Suc_lessD)
qed

end
