(* ===== verification/Sampler.thy ===== *)
theory Sampler
  imports Chat_Session Go_Floats "HOL-Library.Multiset"
begin

text \<open>
  Drawing the next token (the \<open>sampler\<close> of \<^verbatim>\<open>src/qwen3/chat.go\<close>, and \<open>argmax\<close>).  The arrays of indices and values the code keeps side by side are one list of pairs; values are of
  any linear order, as logits without NaN are.  \<open>topK\<close> gives the \<open>k\<close> largest values in descending
  order, each with the index it stands at; \<open>next\<close> draws one of them.  Floating-point arithmetic is a
  parameter (\<open>fops\<close>), and nothing is assumed of it: rounding cannot make the draw leave the candidates.
\<close>

section \<open>The code\<close>

type_synonym 'a cands = "(nat \<times> 'a) list"

definition swap_cands :: "'a cands \<Rightarrow> nat \<Rightarrow> nat \<Rightarrow> 'a cands" where
  "swap_cands h a b = h[a := h ! b, b := h ! a]"

function cands_up :: "'a::linorder cands \<Rightarrow> nat \<Rightarrow> 'a cands" where
  "cands_up h j =
     (if j = 0 then h
      else let parent = (j - 1) div 2 in
        if snd (h ! parent) \<le> snd (h ! j) then h else cands_up (swap_cands h j parent) parent)"
  by pat_completeness auto
termination by (relation "measure snd") auto

definition down_child :: "'a::linorder cands \<Rightarrow> nat \<Rightarrow> nat \<Rightarrow> nat" where
  "down_child h j n =
     (let l = 2 * j + 1 in if l + 1 < n \<and> snd (h ! (l + 1)) < snd (h ! l) then l + 1 else l)"

function cands_down :: "'a::linorder cands \<Rightarrow> nat \<Rightarrow> nat \<Rightarrow> 'a cands" where
  "cands_down h j n =
     (if n \<le> 2 * j + 1 then h
      else let c = down_child h j n in
        if snd (h ! j) \<le> snd (h ! c) then h else cands_down (swap_cands h j c) c n)"
  by pat_completeness auto
termination by (relation "measure (\<lambda>(h, j, n). n - j)") (auto simp: down_child_def Let_def)

declare cands_up.simps [simp del] cands_down.simps [simp del]

text \<open>The three loops of \<open>topK\<close>: a heap of the first \<open>k\<close>, the rest against its root, and the sort.\<close>

fun topK_fill :: "'a::linorder list \<Rightarrow> nat \<Rightarrow> 'a cands \<Rightarrow> 'a cands" where
  "topK_fill logits 0 h = h"
| "topK_fill logits (Suc i) h = cands_up ((topK_fill logits i h)[i := (i, logits ! i)]) i"

fun topK_rest :: "nat \<Rightarrow> nat \<Rightarrow> 'a::linorder list \<Rightarrow> 'a cands \<Rightarrow> 'a cands" where
  "topK_rest k i [] h = h"
| "topK_rest k i (x # xs) h =
     topK_rest k (Suc i) xs (if x \<le> snd (h ! 0) then h else cands_down (h[0 := (i, x)]) 0 k)"

fun topK_sort :: "nat \<Rightarrow> 'a::linorder cands \<Rightarrow> 'a cands" where
  "topK_sort 0 h = h"
| "topK_sort (Suc e) h = (if e = 0 then h else topK_sort e (cands_down (swap_cands h 0 e) 0 e))"

text \<open>
  \<open>scratch\<close> is what the arrays hold before: the first \<open>k\<close> candidates of an earlier call where there
  is room for \<open>k\<close>, otherwise zeros (\<open>fit_scratch\<close>).
\<close>

definition fit_scratch :: "'a \<Rightarrow> 'a cands \<Rightarrow> nat \<Rightarrow> 'a cands" where
  "fit_scratch zero old k = (if length old < k then replicate k (0, zero) else take k old)"

definition topK :: "'a::linorder cands \<Rightarrow> 'a list \<Rightarrow> nat \<Rightarrow> 'a cands" where
  "topK scratch logits k =
     topK_sort k (topK_rest k k (drop k logits) (topK_fill logits k scratch))"

fun argmax_loop :: "'a::linorder list \<Rightarrow> nat \<Rightarrow> 'a \<Rightarrow> nat \<Rightarrow> nat" where
  "argmax_loop [] i best at_i = at_i"
| "argmax_loop (v # vs) i best at_i = (if best < v then argmax_loop vs (Suc i) v i else argmax_loop vs (Suc i) best at_i)"

text \<open>\<open>argmax\<close> of no values reads out of range: a panic.\<close>

definition argmax :: "'a::linorder list \<Rightarrow> nat option" where
  "argmax values = (case values of [] \<Rightarrow> None | v # _ \<Rightarrow> Some (argmax_loop values 0 v 0))"

text \<open>
  \<open>next\<close>: the most likely token at temperature zero, otherwise one of the candidates, drawn with the
  random number \<open>u\<close>.  Out of candidates it panics.
\<close>

definition candidates :: nat where "candidates = 1024"

definition sample_k :: "int \<Rightarrow> nat \<Rightarrow> nat" where
  "sample_k topk len = min (nat (if topk \<le> 0 \<or> int candidates < topk then int candidates else topk)) len"

definition softmax :: "'f fops \<Rightarrow> 'f \<Rightarrow> 'f cands \<Rightarrow> 'f list" where
  "softmax a scale cs = map (\<lambda>c. f_exp a (f_mul a (f_sub a (snd c) (snd (cs ! 0))) scale)) cs"

text \<open>The loop of the nucleus: how many candidates reach the share, and their sum.\<close>

fun nucleus :: "'f::linorder fops \<Rightarrow> 'f \<Rightarrow> nat \<Rightarrow> 'f \<Rightarrow> 'f list \<Rightarrow> (nat \<times> 'f) option" where
  "nucleus a share i acc [] = None"
| "nucleus a share i acc (p # ps) =
     (let acc' = f_add a acc p in if share \<le> acc' then Some (i + 1, acc') else nucleus a share (i + 1) acc' ps)"

fun pick :: "'f::linorder fops \<Rightarrow> 'f \<Rightarrow> (nat \<times> 'f) list \<Rightarrow> nat option" where
  "pick a r [] = None"
| "pick a r ((i, p) # ps) = (let r' = f_sub a r p in if r' \<le> f_zero a then Some i else pick a r' ps)"

definition sampler_next :: "'f::linorder fops \<Rightarrow> 'f cands \<Rightarrow> 'f list \<Rightarrow> 'f options \<Rightarrow> 'f \<Rightarrow> nat option" where
  "sampler_next a old logits opts u =
     (if Temperature opts \<le> f_zero a then argmax logits
      else let k = sample_k (TopK opts) (length logits) in
        if k = 0 then None
        else
          let cs = topK (fit_scratch (f_zero a) old k) logits k;
              ps = softmax a (f_inv a (Temperature opts)) cs;
              total = foldl (f_add a) (f_zero a) ps;
              cut = (if f_zero a < TopP opts \<and> TopP opts < f_one a
                     then nucleus a (f_mul a (TopP opts) total) 0 (f_zero a) ps else None);
              n = (case cut of None \<Rightarrow> k | Some (n, _) \<Rightarrow> n);
              mass = (case cut of None \<Rightarrow> total | Some (_, m) \<Rightarrow> m)
          in case pick a (f_mul a u mass) (take n (zip (map fst cs) ps)) of
               Some x \<Rightarrow> Some x
             | None \<Rightarrow> Some (fst (cs ! (n - 1))))"

section \<open>The largest value\<close>

definition first_largest :: "'a::linorder list \<Rightarrow> nat \<Rightarrow> bool" where
  "first_largest us r \<longleftrightarrow> r < length us \<and> (\<forall>j<length us. us ! j \<le> us ! r) \<and> (\<forall>j<r. us ! j < us ! r)"

lemma first_largest_snoc:
  assumes "first_largest us b"
  shows "first_largest (us @ [v]) (if us ! b < v then length us else b)"
  using assms by (auto simp: first_largest_def nth_append less_Suc_eq intro: le_less_trans less_imp_le)

lemma argmax_loop_correct: "first_largest us b \<Longrightarrow> first_largest (us @ vs) (argmax_loop vs (length us) (us ! b) b)"
proof (induction vs arbitrary: us b)
  case (Cons v vs)
  let ?b = "if us ! b < v then length us else b"
  have "first_largest ((us @ [v]) @ vs) (argmax_loop vs (length (us @ [v])) ((us @ [v]) ! ?b) ?b)"
    by (rule Cons.IH) (rule first_largest_snoc [OF Cons.prems])
  moreover have "b < length us" using Cons.prems by (simp add: first_largest_def)
  ultimately show ?case by (auto simp: nth_append split: if_splits)
qed simp

lemma argmax_correct: "vs \<noteq> [] \<Longrightarrow> \<exists>r. argmax vs = Some r \<and> first_largest vs r"
proof (cases vs)
  case (Cons v ws)
  have "first_largest [v] 0" by (simp add: first_largest_def)
  from argmax_loop_correct [OF this, of ws] Cons show ?thesis by (simp add: argmax_def)
qed simp

section \<open>Swaps and sifts keep the candidates\<close>

lemma length_swap [simp]: "length (swap_cands h a b) = length h"
  by (simp add: swap_cands_def)

lemma mset_swap_cands: "a < length h \<Longrightarrow> b < length h \<Longrightarrow> mset (swap_cands h a b) = mset h"
  unfolding swap_cands_def using mset_swap [of b h a] by (cases "a = b") (auto simp: list_update_swap)

lemma swap_nth:
  "\<lbrakk>a < length h; b < length h\<rbrakk> \<Longrightarrow> swap_cands h a b ! j = (if j = b then h ! a else if j = a then h ! b else h ! j)"
  by (simp add: swap_cands_def nth_list_update)

lemma length_up [simp]: "length (cands_up h j) = length h"
  by (induction h j rule: cands_up.induct) (subst cands_up.simps, auto simp: Let_def)

lemma child_lt: "2 * j + 1 < n \<Longrightarrow> down_child h j n < n \<and> j < down_child h j n"
  by (auto simp: down_child_def Let_def)

lemma length_down [simp]: "length (cands_down h j n) = length h"
  by (induction h j n rule: cands_down.induct) (subst cands_down.simps, auto simp: Let_def)

lemma mset_up: "j < length h \<Longrightarrow> mset (cands_up h j) = mset h"
proof (induction h j rule: cands_up.induct)
  case (1 h j)
  have p: "(j - 1) div 2 < length h" using 1(2) by auto
  show ?case using 1 p by (subst cands_up.simps) (auto simp: Let_def mset_swap_cands)
qed

lemma mset_down: "j < length h \<Longrightarrow> n \<le> length h \<Longrightarrow> mset (cands_down h j n) = mset h"
proof (induction h j n rule: cands_down.induct)
  case (1 h j n)
  then show ?case
    using child_lt [of j n h] by (subst cands_down.simps) (auto simp: Let_def mset_swap_cands)
qed

text \<open>What is at or after the bound stays in place.\<close>

lemma down_outside: "n \<le> i \<Longrightarrow> n \<le> length h \<Longrightarrow> cands_down h j n ! i = h ! i"
proof (induction h j n rule: cands_down.induct)
  case (1 h j n)
  show ?case
  proof (cases "n \<le> 2 * j + 1 \<or> snd (h ! j) \<le> snd (h ! down_child h j n)")
    case True
    then show ?thesis by (subst cands_down.simps) (auto simp: Let_def)
  next
    case False
    then have c: "down_child h j n < n" "j < n" using child_lt [of j n h] by auto
    then have "swap_cands h j (down_child h j n) ! i = h ! i" using 1(2,3) by (simp add: swap_nth)
    then show ?thesis using 1 False by (subst cands_down.simps) (simp add: Let_def)
  qed
qed

lemma up_outside: "j < i \<Longrightarrow> j < length h \<Longrightarrow> cands_up h j ! i = h ! i"
proof (induction h j rule: cands_up.induct)
  case (1 h j)
  have p: "(j - 1) div 2 \<le> j" by auto
  show ?case
  proof (cases "j = 0 \<or> snd (h ! ((j - 1) div 2)) \<le> snd (h ! j)")
    case True
    then show ?thesis by (subst cands_up.simps) (auto simp: Let_def)
  next
    case False
    have "swap_cands h j ((j - 1) div 2) ! i = h ! i" using 1(2,3) p by (simp add: swap_nth)
    then show ?thesis using 1 False p by (subst cands_up.simps) (simp add: Let_def)
  qed
qed

section \<open>Heap order\<close>

text \<open>Stated on the values by position; \<open>up_ok\<close> and \<open>down_ok\<close> except one position's order above or below it.\<close>

definition heap_ok :: "(nat \<Rightarrow> 'a::linorder) \<Rightarrow> nat \<Rightarrow> bool" where
  "heap_ok f n \<longleftrightarrow> (\<forall>j. 0 < j \<and> j < n \<longrightarrow> f ((j - 1) div 2) \<le> f j)"

definition up_ok :: "(nat \<Rightarrow> 'a::linorder) \<Rightarrow> nat \<Rightarrow> nat \<Rightarrow> bool" where
  "up_ok f i n \<longleftrightarrow> (\<forall>j. 0 < j \<and> j < n \<and> j \<noteq> i \<longrightarrow> f ((j - 1) div 2) \<le> f j) \<and>
     (\<forall>j. 0 < j \<and> j < n \<and> (j - 1) div 2 = i \<and> 0 < i \<longrightarrow> f ((i - 1) div 2) \<le> f j)"

definition down_ok :: "(nat \<Rightarrow> 'a::linorder) \<Rightarrow> nat \<Rightarrow> nat \<Rightarrow> bool" where
  "down_ok f i n \<longleftrightarrow> (\<forall>j. 0 < j \<and> j < n \<and> (j - 1) div 2 \<noteq> i \<longrightarrow> f ((j - 1) div 2) \<le> f j) \<and>
     (\<forall>j. 0 < j \<and> j < n \<and> (j - 1) div 2 = i \<and> 0 < i \<longrightarrow> f ((i - 1) div 2) \<le> f j)"

lemma parent_lt: "0 < (j::nat) \<Longrightarrow> (j - 1) div 2 < j"
  by auto

lemma up_ok_step:
  assumes "up_ok f i n" "0 < i" "i < n" "f i < f ((i - 1) div 2)"
  shows "up_ok (f(i := f ((i - 1) div 2), (i - 1) div 2 := f i)) ((i - 1) div 2) n"
proof -
  define P where "P = (\<lambda>j::nat. (j - 1) div 2)"
  define g where "g = f(i := f (P i), P i := f i)"
  have P: "P j < j" if "0 < j" for j using parent_lt [OF that] by (simp add: P_def)
  have ord: "f (P j) \<le> f j" if "0 < j" "j < n" "j \<noteq> i" for j using assms(1) that by (simp add: up_ok_def P_def)
  have grand: "f (P i) \<le> f j" if "0 < j" "j < n" "P j = i" for j using assms(1,2) that by (simp add: up_ok_def P_def)
  have lt: "f i < f (P i)" using assms(4) by (simp add: P_def)
  have a: "g (P j) \<le> g j" if j: "0 < j" "j < n" "j \<noteq> P i" for j
  proof (cases "j = i")
    case False
    then show ?thesis using ord [OF j(1,2) False] grand [OF j(1,2)] lt j P [OF j(1)] by (auto simp: g_def)
  qed (use lt P [OF assms(2)] in \<open>simp add: g_def\<close>)
  have b: "g (P (P i)) \<le> g j" if j: "0 < j" "j < n" "P j = P i" "0 < P i" for j
  proof -
    have q: "P (P i) < P i" "P i < i" "P i < j" using P [OF j(4)] P [OF assms(2)] P [OF j(1)] j(3) by simp_all
    have "f (P (P i)) \<le> f (P i)" using ord [OF j(4)] q assms(3) by simp
    moreover have "f (P i) \<le> f j" if "j \<noteq> i" using ord [OF j(1,2) that] j(3) by simp
    ultimately show ?thesis using q by (cases "j = i") (auto simp: g_def intro: order_trans)
  qed
  have Q: "(j - 1) div 2 = P j" for j by (simp add: P_def)
  show ?thesis unfolding up_ok_def Q g_def [symmetric] using a b by blast
qed

lemma down_ok_step:
  assumes "down_ok f i n" "c < n" "i < c" "(c - 1) div 2 = i" "f c < f i"
    and least: "\<And>j. 0 < j \<Longrightarrow> j < n \<Longrightarrow> (j - 1) div 2 = i \<Longrightarrow> f c \<le> f j"
  shows "down_ok (f(i := f c, c := f i)) c n"
proof -
  define P where "P = (\<lambda>j::nat. (j - 1) div 2)"
  define g where "g = f(i := f c, c := f i)"
  have P: "P j < j" if "0 < j" for j using parent_lt [OF that] by (simp add: P_def)
  have ord: "f (P j) \<le> f j" if "0 < j" "j < n" "P j \<noteq> i" for j using assms(1) that by (simp add: down_ok_def P_def)
  have top: "f (P i) \<le> f c" if "0 < i" using assms(1-4) that by (simp add: down_ok_def P_def)
  have a: "g (P j) \<le> g j" if j: "0 < j" "j < n" "P j \<noteq> c" for j
  proof (cases "P j = i")
    case True
    then show ?thesis using least [OF j(1,2)] assms(3,5) P [OF j(1)] by (auto simp: g_def P_def)
  next
    case False
    then have "j \<noteq> c" using assms(4) by (auto simp: P_def)
    then show ?thesis using ord [OF j(1,2) False] top j False P [OF j(1)] by (auto simp: g_def)
  qed
  have b: "g (P c) \<le> g j" if j: "0 < j" "j < n" "P j = c" for j
    using ord [OF j(1,2)] j P [OF j(1)] assms(3,4) by (auto simp: g_def P_def)
  have Q: "(j - 1) div 2 = P j" for j by (simp add: P_def)
  show ?thesis unfolding down_ok_def Q g_def [symmetric] using a b by blast
qed

lemma heap_root: "heap_ok f n \<Longrightarrow> j < n \<Longrightarrow> f 0 \<le> f j"
proof (induction j rule: less_induct)
  case (less j)
  show ?case
  proof (cases "j = 0")
    case False
    then have "f 0 \<le> f ((j - 1) div 2)" using less.IH less.prems parent_lt [of j] by simp
    also have "\<dots> \<le> f j" using less.prems False by (simp add: heap_ok_def)
    finally show ?thesis .
  qed simp
qed

definition val :: "'a cands \<Rightarrow> nat \<Rightarrow> 'a" where
  "val h j = snd (h ! j)"

lemma val_swap: "\<lbrakk>a < length h; b < length h; a \<noteq> b\<rbrakk> \<Longrightarrow> val (swap_cands h a b) = (val h)(a := val h b, b := val h a)"
  by (auto simp: val_def swap_nth fun_eq_iff)

lemma up_heap: "\<lbrakk>up_ok (val h) j n; j < n; n \<le> length h\<rbrakk> \<Longrightarrow> heap_ok (val (cands_up h j)) n"
proof (induction h j rule: cands_up.induct)
  case (1 h j)
  show ?case
  proof (cases "j = 0 \<or> val h ((j - 1) div 2) \<le> val h j")
    case True
    then have "cands_up h j = h" by (subst cands_up.simps) (auto simp: Let_def val_def)
    moreover have "heap_ok (val h) n" using 1(2) True by (auto simp: heap_ok_def up_ok_def)
    ultimately show ?thesis by simp
  next
    case False
    then have p: "(j - 1) div 2 < j" "val h j < val h ((j - 1) div 2)" using parent_lt by auto
    have "up_ok (val (swap_cands h j ((j - 1) div 2))) ((j - 1) div 2) n"
      using up_ok_step [OF 1(2) _ 1(3) p(2)] False 1(3,4) p(1) by (simp add: val_swap)
    moreover have "j \<noteq> 0" "\<not> snd (h ! ((j - 1) div 2)) \<le> snd (h ! j)" using False by (auto simp: val_def)
    ultimately have "heap_ok (val (cands_up (swap_cands h j ((j - 1) div 2)) ((j - 1) div 2))) n"
      using "1.IH" [OF _ refl] 1(3,4) p(1) by simp
    then show ?thesis using False by (subst cands_up.simps) (simp add: Let_def val_def)
  qed
qed

lemma down_heap: "\<lbrakk>down_ok (val h) j n; j < n; n \<le> length h\<rbrakk> \<Longrightarrow> heap_ok (val (cands_down h j n)) n"
proof (induction h j n rule: cands_down.induct)
  case (1 h j n)
  let ?c = "down_child h j n"
  show ?case
  proof (cases "n \<le> 2 * j + 1")
    case True
    then have "(i - 1) div 2 \<noteq> j" if "0 < i" "i < n" for i using that by presburger
    then have "heap_ok (val h) n" using 1(2) by (simp add: heap_ok_def down_ok_def)
    then show ?thesis using True by (subst cands_down.simps) simp
  next
    case F: False
    have c: "?c < n" "j < ?c" "(?c - 1) div 2 = j" using F by (auto simp: down_child_def Let_def)
    have least: "val h ?c \<le> val h i" if "0 < i" "i < n" "(i - 1) div 2 = j" for i
    proof -
      have "i = 2 * j + 1 \<or> i = 2 * j + 2" using that by presburger
      then show ?thesis using that by (auto simp: down_child_def Let_def val_def)
    qed
    show ?thesis
    proof (cases "val h j \<le> val h ?c")
      case True
      then have "heap_ok (val h) n"
        using 1(2) order_trans [OF True least] by (auto simp: heap_ok_def down_ok_def)
      then show ?thesis using F True by (subst cands_down.simps) (simp add: Let_def val_def)
    next
      case False
      then have "down_ok (val (swap_cands h j ?c)) ?c n"
        using down_ok_step [OF 1(2) c _ least] 1(3,4) c by (simp add: val_swap)
      moreover have "\<not> snd (h ! j) \<le> snd (h ! ?c)" using False by (simp add: val_def)
      ultimately have "heap_ok (val (cands_down (swap_cands h j ?c) ?c n)) n"
        using "1.IH" [OF F refl] 1(4) c(1) by simp
      then show ?thesis using F False by (subst cands_down.simps) (simp add: Let_def val_def)
    qed
  qed
qed

section \<open>The three loops\<close>

lemma up_ok_new: "heap_ok f i \<Longrightarrow> up_ok (f(i := x)) i (Suc i)"
  unfolding heap_ok_def up_ok_def by (auto simp: less_Suc_eq dest: parent_lt)

lemma down_ok_root: "heap_ok f n \<Longrightarrow> down_ok (f(0 := x)) 0 n"
  unfolding heap_ok_def down_ok_def by auto

lemma val_update: "i < length h \<Longrightarrow> val (h[i := (a, x)]) = (val h)(i := x)"
  by (auto simp: val_def fun_eq_iff nth_list_update)

lemma length_fill [simp]: "length (topK_fill logits i h) = length h"
  by (induction i) simp_all

lemma fill_heap: "i \<le> length h \<Longrightarrow> heap_ok (val (topK_fill logits i h)) i"
proof (induction i)
  case 0
  then show ?case by (simp add: heap_ok_def)
next
  case (Suc i)
  have "up_ok (val ((topK_fill logits i h)[i := (i, logits ! i)])) i (Suc i)"
    using Suc by (simp add: val_update up_ok_new)
  then show ?case using Suc.prems by (simp add: up_heap)
qed

text \<open>The first \<open>i\<close> places hold the first \<open>i\<close> logits with their indices.\<close>

lemma up_take:
  assumes "j < n" "n \<le> length h"
  shows "mset (take n (cands_up h j)) = mset (take n h)"
proof -
  have "drop n (cands_up h j) = drop n h"
    using assms by (intro nth_equalityI) (simp_all add: up_outside)
  moreover have "mset (cands_up h j) = mset h" using assms by (simp add: mset_up)
  ultimately show ?thesis by (metis add_right_cancel append_take_drop_id mset_append)
qed

lemma fill_mset:
  "\<lbrakk>i \<le> length h; i \<le> length logits\<rbrakk> \<Longrightarrow> mset (take i (topK_fill logits i h)) = mset (enumerate 0 (take i logits))"
proof (induction i)
  case (Suc i)
  have "mset (take (Suc i) (topK_fill logits (Suc i) h)) = mset (take (Suc i) ((topK_fill logits i h)[i := (i, logits ! i)]))"
    using Suc.prems by (simp add: up_take)
  also have "\<dots> = mset (take i (topK_fill logits i h)) + {#(i, logits ! i)#}"
    using Suc.prems by (simp add: take_Suc_conv_app_nth)
  also have "\<dots> = mset (enumerate 0 (take (Suc i) logits))"
    using Suc by (simp add: take_Suc_conv_app_nth enumerate_append_eq)
  finally show ?case .
qed simp

text \<open>What is left out is no larger than the root.\<close>

definition kept_largest :: "(nat \<times> 'a::linorder) multiset \<Rightarrow> nat \<Rightarrow> 'a cands \<Rightarrow> bool" where
  "kept_largest all k h \<longleftrightarrow> length h = k \<and> heap_ok (val h) k \<and>
     (\<exists>rest. mset h + rest = all \<and> (\<forall>x\<in>#rest. snd x \<le> val h 0))"

lemma rest_step:
  assumes k: "0 < k" and h: "kept_largest all k h"
  shows "kept_largest (add_mset (i, x) all) k (if x \<le> snd (h ! 0) then h else cands_down (h[0 := (i, x)]) 0 k)"
proof -
  obtain rest where rest: "mset h + rest = all" "\<forall>y\<in>#rest. snd y \<le> val h 0" and len: "length h = k" and hp: "heap_ok (val h) k"
    using h by (auto simp: kept_largest_def)
  show ?thesis
  proof (cases "x \<le> val h 0")
    case True
    then show ?thesis
      using rest len hp by (auto simp: kept_largest_def val_def intro!: exI [of _ "add_mset (i, x) rest"])
  next
    case False
    let ?h = "cands_down (h[0 := (i, x)]) 0 k"
    have "down_ok (val (h[0 := (i, x)])) 0 k" using down_ok_root [OF hp, of x] k len by (simp add: val_update)
    then have hp': "heap_ok (val ?h) k" using k len by (intro down_heap) simp_all
    have "mset ?h = mset (h[0 := (i, x)])" using k len by (simp add: mset_down)
    then have m: "add_mset (h ! 0) (mset ?h) = add_mset (i, x) (mset h)"
      using k len by (simp add: mset_update)
    have root: "val h 0 \<le> val ?h 0"
    proof -
      have "?h ! 0 \<in># mset ?h" using k len by simp
      then have "?h ! 0 \<in># mset (h[0 := (i, x)])" using \<open>mset ?h = _\<close> by simp
      then obtain j where j: "j < k" "?h ! 0 = h[0 := (i, x)] ! j" using len by (auto simp: in_set_conv_nth)
      then show ?thesis using heap_root [OF hp j(1)] False k len by (cases "j = 0") (auto simp: val_def)
    qed
    have "mset ?h + add_mset (h ! 0) rest = add_mset (i, x) all" using m rest(1) by (metis union_mset_add_mset_left union_mset_add_mset_right)
    moreover have "snd y \<le> val ?h 0" if "y \<in># add_mset (h ! 0) rest" for y
      using that rest(2) root by (auto simp: val_def intro: order_trans)
    ultimately have "\<exists>r. mset ?h + r = add_mset (i, x) all \<and> (\<forall>y\<in>#r. snd y \<le> val ?h 0)" by blast
    then show ?thesis using False hp' len by (simp add: kept_largest_def val_def)
  qed
qed

lemma rest_largest:
  "\<lbrakk>0 < k; kept_largest all k h\<rbrakk> \<Longrightarrow> kept_largest (all + mset (enumerate i xs)) k (topK_rest k i xs h)"
proof (induction xs arbitrary: all i h)
  case (Cons x xs)
  from Cons.IH [OF Cons.prems(1) rest_step [OF Cons.prems, of i x]] show ?case by simp
qed simp

text \<open>The sort: a heap of the first \<open>e\<close>, and after it, in descending order, what is no larger.\<close>

definition sorting :: "nat \<Rightarrow> 'a::linorder cands \<Rightarrow> bool" where
  "sorting e h \<longleftrightarrow> e \<le> length h \<and> heap_ok (val h) e \<and>
     (\<forall>i j. e \<le> i \<and> i < j \<and> j < length h \<longrightarrow> val h j \<le> val h i) \<and>
     (\<forall>i j. i < e \<and> e \<le> j \<and> j < length h \<longrightarrow> val h j \<le> val h i)"

lemma sort_step:
  assumes "sorting (Suc e) h" "0 < e"
  shows "sorting e (cands_down (swap_cands h 0 e) 0 e)" "mset (cands_down (swap_cands h 0 e) 0 e) = mset h"
proof -
  let ?s = "swap_cands h 0 e" and ?d = "cands_down (swap_cands h 0 e) 0 e"
  have len: "Suc e \<le> length h" and hp: "heap_ok (val h) (Suc e)"
    and desc: "\<And>i j. Suc e \<le> i \<Longrightarrow> i < j \<Longrightarrow> j < length h \<Longrightarrow> val h j \<le> val h i"
    and low: "\<And>i j. i < Suc e \<Longrightarrow> Suc e \<le> j \<Longrightarrow> j < length h \<Longrightarrow> val h j \<le> val h i"
    using assms(1) by (simp_all add: sorting_def)
  have vs: "val ?s = (val h)(0 := val h e, e := val h 0)" using len assms(2) by (intro val_swap) auto
  have "heap_ok (val h) e" using hp by (simp add: heap_ok_def)
  then have "down_ok ((val h)(0 := val h e)) 0 e" by (rule down_ok_root)
  then have "down_ok (val ?s) 0 e" by (auto simp: vs down_ok_def)
  then have heap: "heap_ok (val ?d) e" using assms(2) len by (intro down_heap) simp_all
  have ne: "0 < length h" using len by (cases h) simp_all
  then show ms: "mset ?d = mset h" using len assms(2) by (simp add: mset_down mset_swap_cands)
  have out: "val ?d j = val ?s j" if "e \<le> j" for j using that len by (simp add: val_def down_outside)
  have after: "val ?d j = (if j = e then val h 0 else val h j)" if "e \<le> j" for j
    using out [OF that] that assms(2) by (simp add: vs)
  have prefix: "\<exists>j\<le>e. val ?d i = val h j" if "i < e" for i
  proof -
    have "drop e ?d = drop e ?s" using len by (intro nth_equalityI) (simp_all add: down_outside)
    moreover have "mset ?d = mset ?s" using len ne by (intro mset_down) simp_all
    ultimately have "mset (take e ?d) = mset (take e ?s)" by (metis add_right_cancel append_take_drop_id mset_append)
    then have "set (take e ?d) = set (take e ?s)" by (metis set_mset_mset)
    moreover have "?d ! i \<in> set (take e ?d)" using that len by (auto simp: in_set_conv_nth intro!: exI [of _ i])
    ultimately obtain j where "j < e" "?d ! i = ?s ! j" using len by (auto simp: in_set_conv_nth)
    then show ?thesis using fun_cong [OF vs, of j] by (cases "j = 0") (auto simp: val_def intro: exI [of _ e] exI [of _ j])
  qed
  have min: "val h 0 \<le> val h j" if "j \<le> e" for j using heap_root [OF hp, of j] that by simp
  have p: "val ?d j \<le> val ?d i" if ij: "i < e" "e \<le> j" "j < length h" for i j
  proof -
    obtain i' where i': "i' \<le> e" "val ?d i = val h i'" using prefix [OF ij(1)] by blast
    then show ?thesis using after [OF ij(2)] min low [of i' j] ij by (cases "j = e") auto
  qed
  have q: "val ?d j \<le> val ?d i" if ij: "e \<le> i" "i < j" "j < length h" for i j
    using after [OF ij(1)] after [of j] low [of 0 j] desc [of i j] ij by (cases "i = e") auto
  show "sorting e ?d" using heap p q len by (auto simp: sorting_def)
qed

definition descending :: "'a::linorder cands \<Rightarrow> bool" where
  "descending h = sorted_wrt (\<lambda>a b. snd b \<le> snd a) h"

lemma sorting_descending: "sorting e h \<Longrightarrow> e \<le> 1 \<Longrightarrow> descending h"
proof -
  assume s: "sorting e h" "e \<le> 1"
  have "snd (h ! j) \<le> snd (h ! i)" if "i < j" "j < length h" for i j
  proof (cases "e \<le> i")
    case True
    then show ?thesis using s that by (simp add: sorting_def val_def)
  next
    case False
    then have "i < e" "e \<le> j" using s(2) that by simp_all
    then show ?thesis using s that by (simp add: sorting_def val_def)
  qed
  then show ?thesis by (simp add: descending_def sorted_wrt_iff_nth_less)
qed

lemma sort_sorted: "sorting e h \<Longrightarrow> mset (topK_sort e h) = mset h \<and> descending (topK_sort e h)"
proof (induction e arbitrary: h)
  case (Suc e)
  then show ?case
    using sort_step [OF Suc.prems] sorting_descending [OF Suc.prems] by (cases "e = 0") auto
qed (simp add: sorting_descending)

text \<open>The candidates and what is left out.\<close>

lemma topK_largest:
  assumes "0 < k" and "k \<le> length logits" and "length old = k"
  shows "\<exists>rest. mset (topK old logits k) + rest = mset (enumerate 0 logits) \<and> descending (topK old logits k) \<and>
    length (topK old logits k) = k \<and> (\<forall>x\<in>#rest. \<forall>y\<in>set (topK old logits k). snd x \<le> snd y)"
proof -
  let ?start = "topK_fill logits k old"
  let ?h = "topK_rest k k (drop k logits) ?start"
  have "kept_largest (mset (enumerate 0 (take k logits))) k ?start"
    using fill_heap [of k old logits] fill_mset [of k old logits] assms by (simp add: kept_largest_def)
  from rest_largest [OF assms(1) this, of k "drop k logits"]
  have kl: "kept_largest (mset (enumerate 0 logits)) k ?h"
    using enumerate_append_eq [of 0 "take k logits" "drop k logits"] assms(2) by simp
  then obtain rest where rest: "mset ?h + rest = mset (enumerate 0 logits)" "\<forall>x\<in>#rest. snd x \<le> val ?h 0"
    and hp: "length ?h = k" "heap_ok (val ?h) k" by (auto simp: kept_largest_def)
  have "sorting k ?h" using hp by (auto simp: sorting_def)
  from sort_sorted [OF this] have t: "mset (topK old logits k) = mset ?h" "descending (topK old logits k)"
    by (simp_all add: topK_def)
  have "val ?h 0 \<le> snd y" if y: "y \<in> set (topK old logits k)" for y
  proof -
    have "y \<in> set ?h" using y t(1) by (metis set_mset_mset)
    then show ?thesis using heap_root [OF hp(2)] hp(1) by (auto simp: in_set_conv_nth val_def)
  qed
  moreover have "length (topK old logits k) = k" using t(1) hp(1) by (metis size_mset)
  ultimately show ?thesis using rest t by (intro exI [of _ rest]) (auto intro: order_trans)
qed

text \<open>
  C19: \<open>topK\<close> leaves the \<open>k\<close> largest logits, in descending order, each with its index: the candidates
  and the rest together are all the logits with their indices, every candidate is at least as large
  as every logit of the rest, and what the scratch arrays held before does not matter.
\<close>

theorem topK_correct:
  assumes "0 < k" and "k \<le> length logits" and "length old = k"
  shows "\<exists>rest. mset (topK old logits k) + rest = mset (enumerate 0 logits) \<and> descending (topK old logits k) \<and>
    length (topK old logits k) = k \<and> (\<forall>x\<in>#rest. \<forall>y\<in>set (topK old logits k). snd x \<le> snd y)"
  using topK_largest [OF assms] .

theorem topK_correct_witness:
  "topK [(9, 9), (9, 9)] [3, 1, 4, 1, 5] 2 = [(4, 5), (2, 4 :: int)] \<and>
   (\<exists>rest. mset (topK [(9, 9), (9, 9)] [3, 1, 4, 1, 5] 2) + rest = mset (enumerate 0 [3, 1, 4, 1, 5 :: int]))"
  using topK_correct [of 2 "[3, 1, 4, 1, 5 :: int]" "[(9, 9), (9, 9)]"]
  by (auto simp: topK_def numeral_2_eq_2 numeral_3_eq_3 cands_up.simps cands_down.simps down_child_def swap_cands_def)

section \<open>The draw\<close>

lemma nucleus_bounds: "nucleus a share i acc ps = Some (n, m) \<Longrightarrow> i < n \<and> n \<le> i + length ps"
  by (induction ps arbitrary: i acc) (fastforce simp: Let_def split: if_splits)+

lemma pick_mem: "pick a r ps = Some x \<Longrightarrow> x \<in> fst ` set ps"
  by (induction a r ps rule: pick.induct) (auto simp: Let_def split: if_splits)

text \<open>A candidate's index is among the \<open>k\<close> largest logits.\<close>

definition larger :: "'a::linorder list \<Rightarrow> nat \<Rightarrow> nat set" where
  "larger logits x = {j. j < length logits \<and> logits ! x < logits ! j}"

lemma topK_member:
  assumes k: "0 < k" "k \<le> length logits" "length old = k" and c: "c \<in> set (topK old logits k)"
  shows "fst c < length logits" "card (larger logits (fst c)) < k"
proof -
  let ?cs = "topK old logits k"
  obtain rest where rest: "mset ?cs + rest = mset (enumerate 0 logits)" "\<forall>x\<in>#rest. \<forall>y\<in>set ?cs. snd x \<le> snd y" and len: "length ?cs = k"
    using topK_largest [OF k] by blast
  have sub: "set ?cs \<subseteq> set (enumerate 0 logits)" using rest(1) by (metis mset_subset_eq_add_left set_mset_mono set_mset_mset)
  then have ix: "fst d < length logits \<and> snd d = logits ! fst d" if "d \<in> set ?cs" for d
    using that by (fastforce simp: in_set_enumerate_eq)
  show x: "fst c < length logits" using ix [OF c] by simp
  have "larger logits (fst c) \<subseteq> fst ` (set ?cs - {c})"
  proof
    fix j
    assume j: "j \<in> larger logits (fst c)"
    then have "(j, logits ! j) \<in> set (enumerate 0 logits)" by (simp add: larger_def in_set_enumerate_eq)
    then have "(j, logits ! j) \<in># mset ?cs + rest" unfolding rest(1) by simp
    moreover have "(j, logits ! j) \<notin># rest"
      using rest(2) c ix [OF c] j by (fastforce simp: larger_def)
    ultimately have "(j, logits ! j) \<in> set ?cs" by simp
    moreover have "(j, logits ! j) \<noteq> c" using j by (auto simp: larger_def)
    ultimately show "j \<in> fst ` (set ?cs - {c})" by force
  qed
  then have "card (larger logits (fst c)) \<le> card (set ?cs - {c})" by (meson List.finite_set card_image_le card_mono finite_Diff finite_imageI le_trans)
  also have "\<dots> < card (set ?cs)" using c by (intro psubset_card_mono) auto
  also have "\<dots> \<le> k" using card_length [of ?cs] len by simp
  finally show "card (larger logits (fst c)) < k" .
qed

text \<open>
  C20: A token is always drawn and is a token: whatever the rounding of the arithmetic and the random
  number, \<open>next\<close> on a non-empty list of logits returns an index of it; at temperature zero the first
  of the largest, otherwise one with fewer than \<open>k\<close> logits larger than its own, where \<open>k\<close> is \<open>TopK\<close>
  or 1024.
\<close>

theorem sampler_next_draws:
  assumes "logits \<noteq> []"
  shows "\<exists>x. sampler_next a old logits opts u = Some x \<and> x < length logits \<and>
    (if Temperature opts \<le> f_zero a then first_largest logits x
     else card (larger logits x) < sample_k (TopK opts) (length logits))"
proof (cases "Temperature opts \<le> f_zero a")
  case True
  then show ?thesis using argmax_correct [OF assms] by (auto simp: sampler_next_def first_largest_def)
next
  case False
  define k where "k = sample_k (TopK opts) (length logits)"
  have k: "0 < k" "k \<le> length logits" using assms by (auto simp: k_def sample_k_def candidates_def)
  define fit where "fit = fit_scratch (f_zero a) old k"
  have old: "length fit = k" by (auto simp: fit_def fit_scratch_def)
  define cs where "cs = topK fit logits k"
  have len: "length cs = k" using topK_largest [OF k old] by (auto simp: cs_def)
  define ps where "ps = softmax a (f_inv a (Temperature opts)) cs"
  define cut where "cut = (if f_zero a < TopP opts \<and> TopP opts < f_one a
    then nucleus a (f_mul a (TopP opts) (foldl (f_add a) (f_zero a) ps)) 0 (f_zero a) ps else None)"
  define n where "n = (case cut of None \<Rightarrow> k | Some (n, _) \<Rightarrow> n)"
  have lps: "length ps = k" by (simp add: ps_def softmax_def len)
  have n: "0 < n" "n \<le> k"
    using k nucleus_bounds [of a _ 0 "f_zero a" ps] lps by (auto simp: n_def cut_def split: option.splits if_splits)
  have inside: "x \<in> fst ` set cs" if "pick a r (take n (zip (map fst cs) ps)) = Some x" for r x
    using pick_mem [OF that] by (fastforce dest: in_set_takeD set_zip_leftD)
  have "fst (cs ! (n - 1)) \<in> fst ` set cs" using n len by simp
  moreover have "x \<in> fst ` set cs" if "(case pick a r (take n (zip (map fst cs) ps)) of Some x \<Rightarrow> Some x | None \<Rightarrow> Some (fst (cs ! (n - 1)))) = Some x" for r x
    using that inside calculation by (auto split: option.splits)
  moreover have "\<exists>x. (case pick a r (take n (zip (map fst cs) ps)) of Some x \<Rightarrow> Some x | None \<Rightarrow> Some (fst (cs ! (n - 1)))) = Some x" for r
    by (auto split: option.splits)
  ultimately obtain x where x: "sampler_next a old logits opts u = Some x" "x \<in> fst ` set cs"
    using False k unfolding sampler_next_def Let_def k_def [symmetric] fit_def [symmetric] cs_def [symmetric] ps_def [symmetric] cut_def [symmetric] n_def [symmetric]
    by (metis (lifting) less_not_refl)
  then show ?thesis
    using topK_member [OF k old, folded cs_def] False by (auto simp: k_def)
qed

definition warm_options :: "int options" where
  "warm_options = \<lparr>MaxTokens = 0, Temperature = 1, TopK = 2, TopP = 0, Presence = 0, Seed = 0\<rparr>"

theorem sampler_next_draws_witness:
  "\<exists>x. sampler_next int_fops [(9, 9)] [3, 1, 4, 1, 5] warm_options 1 = Some x \<and> x < 5 \<and>
     card (larger [3, 1, 4, 1, 5 :: int] x) < 2"
  using sampler_next_draws [of "[3, 1, 4, 1, 5 :: int]" int_fops "[(9, 9)]" warm_options 1]
  by (auto simp: int_fops_def warm_options_def sample_k_def candidates_def numeral_eq_Suc)

end
