(* ===== verification/Spec2Isabelle.thy ===== *)
theory Spec2Isabelle
  imports Whisper_Segments Arena Language Tokenizer_Roundtrip Pool_Shutdown Registry Asr_Answer Wav Resampler
    Embedding_Cache_Map Transcript_Json Whisper_Roundtrip Reply_Spoken Duplex_Turns Duplex_Step
    Chat_Calls Chat_Decoding Chat_Edits Sampler
begin

text \<open>
  \<^bold>\<open>A verification library for gophonic\<close>

  gophonic runs speech and language models in Go: transcribers (Qwen3-ASR, Whisper), language
  models (Qwen3), voices (Qwen3-TTS) and agents that talk (\<open>duplex\<close>).  A program registers
  formats and opens models (\<open>gophonic.go\<close>, \<open>formats.go\<close>), leases lanes of them from a pool
  (\<open>pool.go\<close>), hands them PCM decoded from WAV and resampled to 16 kHz (\<open>audio\<close>,
  \<open>internal/pcm\<close>), and gets transcripts whose text comes out of a tokenizer and which it prints
  in several formats.  The agent of \<open>duplex/cascade.go\<close> ties transcriber, language model and
  voice together frame by frame.

  \<^bold>\<open>Conventions.\<close>  \<open>Go_Prelude\<close>, \<open>Go_Text\<close> and \<open>Go_Utf8\<close> hold the language and its standard
  library: Go integers are \<open>int\<close> with \<open>wrap_int\<close> where they may overflow, or words; text and
  bytes are lists; a Go error is \<open>Inl\<close> of a sum, a panic \<open>None\<close>.  A loop whose end is not
  evident has a termination proof; one that may not end is a \<open>partial_function\<close> with \<open>None\<close> for
  not returning.  Fuel counts the turns of the loops that the code leaves unbounded: the merge loop
  of \<open>Bpe\<close> (three per byte: every byte starts one pair and every merge at most two more), the probe
  loops of \<open>Merge_Table\<close> and \<open>Embedding_Cache\<close> (one per slot, as one slot is always free) and the
  CLOCK hand (one round and a step, as the first round clears the bits); that these are enough is
  proved, so no theorem is about a run cut short.  What the repository does not contain is a parameter: the
  Unicode tables, Unicode normalization, parsed JSON files, the model packages behind a format,
  floating-point arithmetic (the operations of \<open>Go_Floats\<close>), the operating system's memory, the hash of the cache, in the
  duplex agent the models, the voice detector and the clock, and in a chat session the forward pass:
  \<open>lm_state\<close> is the state after a sequence of tokens, and a predicate on the number of the evaluation
  says which evaluations fail.  What the goroutines of a component
  do to each other is either a step relation over their atomic actions (the pool) or an
  arbitrary input of every step (the listener).

  \<^bold>\<open>Parts and theories.\<close>
  \<^item> \<open>internal/arena/arena.go\<close>: \<open>Arena\<close>.  Sizes, alignment and hand-out of scratch memory; an
    arena made for a list of regions serves them all, disjoint and aligned, and overflow is an
    error.
  \<^item> \<open>speech/language.go\<close>: \<open>Language\<close>.  The table, the bit set and its text form; the bit set
    refines finite sets, and printing and parsing are inverse.
  \<^item> \<open>internal/qwen3lm/tokenizer.go\<close>: \<open>Token_Heap\<close>, \<open>Merge_Table\<close>, \<open>Bpe\<close>, \<open>Added_Trie\<close>,
    \<open>Pretokenizer\<close>, \<open>Tokenizer\<close>, \<open>Tokenizer_Load\<close>, \<open>Tokenizer_Encode\<close>, \<open>Tokenizer_Decode\<close>,
    \<open>Tokenizer_Roundtrip\<close>.  The heap and linked list of \<open>encodePiece\<close> compute textbook byte-pair
    encoding; decoding inverts encoding for every tokenizer that \<open>newTokenizer\<close> accepts.
  \<^item> \<open>whisper/tokenizer.go\<close>: \<open>Whisper_Tokenizer\<close>, \<open>Whisper_Roundtrip\<close>, to the same end.
  \<^item> \<open>whisper/greedy.go\<close>: \<open>Whisper_Greedy\<close>.  The context, the masks of a step and the choice of a token;
    the choice is the first best candidate, and what is decoded obeys the grammar of timestamps.
  \<^item> \<open>whisper/transcriber.go\<close>, \<open>whisper/transcribe_full.go\<close>, \<open>whisper/alignment_words.go\<close>: \<open>Whisper_Text\<close>
    (repair and trimming of the text), \<open>Whisper_Decode\<close> (decoding one window stays inside the decoder),
    \<open>Time_Warp\<close> (dynamic time warping finds a cheapest path), \<open>Whisper_Words\<close> (the words of a window and
    their times) and \<open>Whisper_Segments\<close> (a whole recording: seeking, slicing into segments, boundaries in the
    repaired text).  The networks are the parameter \<open>machine\<close>, the attention of the second pass \<open>aligner\<close>.
  \<^item> \<open>pool.go\<close>: \<open>Pool\<close>, \<open>Pool_Invariant\<close>, \<open>Pool_Shutdown\<close>.  The critical sections of
    acquiring, releasing, expiring and closing as steps of concurrent goroutines; leased lanes are
    open and leased once, everything is closed once, and the one race that leaks a model.
  \<^item> \<open>gophonic.go\<close>, \<open>formats.go\<close>: \<open>Registry\<close>.
  \<^item> \<open>qwen3asr/text.go\<close>: \<open>Asr_Text\<close>, \<open>Asr_Answer\<close>.  Repetition removal and reading the
    recognizer's answer.
  \<^item> \<open>audio/wav.go\<close> and the WAV header of \<open>internal/httpserver/speech.go\<close>: \<open>Wav\<close>.
  \<^item> \<open>internal/pcm\<close>: \<open>Resampler\<close>.  The polyphase loop against its reference formula.
  \<^item> \<open>qwen3/cache.go\<close>: \<open>Ring\<close>, \<open>Embedding_Cache\<close>, \<open>Embedding_Cache_Map\<close>.  Open addressing with
    backward-shift deletion and CLOCK eviction; a hit is what was stored.
  \<^item> \<open>internal/transcriptformat\<close>, \<open>speech\<close>: \<open>Transcript_Format\<close>, \<open>Transcript_Json\<close>.
  \<^item> \<open>duplex/cascade.go\<close>: \<open>Sample_Ring\<close> (the ring of samples, with the contract \<open>bounded_fifo\<close> and
    its refinement), \<open>Duplex_Step\<close> (\<open>Step\<close>, \<open>Say\<close>, \<open>Note\<close>, \<open>Close\<close>; plays what is queued, built on
    the contract), \<open>Duplex_Listener\<close> and \<open>Duplex_Turns\<close> (one frame of \<open>listen\<close>; buffers stay bounded,
    turns end, only the live answer is released), \<open>Reply_Writer\<close>, \<open>Reply_Streaming\<close> and
    \<open>Reply_Spoken\<close> (the writer between model and voice; silence markers are never spoken, what is
    spoken, and a reply on which \<open>Write\<close> hangs).
  \<^item> \<open>qwen3/tools.go\<close>, \<open>qwen3/dialect.go\<close>: \<open>Chat_Tools\<close> (the prompt of the tools, writing and parsing
    of calls in the JSON and the XML dialect) and \<open>Chat_Calls\<close> (a call that was written reads back).
  \<^item> \<open>PrefixKV\<close> of \<open>internal/qwen3lm/evaluator.go\<close>: \<open>Prefix_Store\<close>.  The tokens a store holds, its
    capacity, copies and the evaluations that extend it.
  \<^item> \<open>qwen3/chat.go\<close>, \<open>chat/chat.go\<close>: \<open>Chat_Text\<close> (\<open>completeUTF8\<close> and \<open>emit\<close>), \<open>Chat_Session\<close> (a
    session: messages, replies with speculative drafts of tool calls, judging, marks), \<open>Chat_Cache\<close>
    (the store is never stale: the locale \<open>decoding_invariant\<close> and its interpretations),
    \<open>Chat_Decoding\<close> (a reply is what decoding one token at a time gives, and speculation leaves no
    trace), \<open>Chat_Edits\<close> (whole characters, truncation, the answering loop) and \<open>Sampler\<close> (top-k
    selection and the draw).

  \<^bold>\<open>Interfaces.\<close>  Locales state what one part relies on in another and are interpreted on the
  model's own definitions in the theory that provides them; \<open>listener_invariant\<close> lifts what the
  primitive writes of the listener keep to whole runs.

  \<^bold>\<open>Not modelled.\<close>  The numeric model code (encoders, decoders, attention, quantized weights, mel
  spectra), its GPU, SIMD and assembly kernels: their correctness is a matter of
  floating-point error against trained weights.  Commands, examples, tools and servers, beyond the
  parts named above: they pass data between the parts and the network.
\<close>

section \<open>From the language model to the voice\<close>


lemma echo_says: "out (fst (reply_spec echo_lm echo_generator (\<lambda>_. False) greedy (view echo_session))) = [''x'', ''x'']"
  by code_simp

lemma echo_writes: "out (fst (Reply echo_lm echo_generator (\<lambda>_. False) (\<lambda>_. False) greedy echo_session)) = [''x'', ''x'']"
proof -
  have "seen_as (Reply echo_lm echo_generator (\<lambda>_. False) (\<lambda>_. False) greedy echo_session) =
      reply_spec echo_lm echo_generator (\<lambda>_. False) greedy (view echo_session)"
    using reached_cache_ok [OF echo_reached]
    by (intro Reply_refines_cached)
      (simp_all add: steady_def drafts_ok_def echo_session_def empty_session_def echo_lm_def echo_generator_def greedy_def reply_room_def)
  then show ?thesis using echo_says unfolding seen_as_def by (metis fst_conv view_fields(7))
qed


end
